(* ===== verification/Foyer_Prelude.thy ===== *)
theory Foyer_Prelude
  imports Complex_Main "HOL-Library.Word" "HOL-Library.Multiset" "HOL-Library.Monad_Syntax"
begin

text \<open>
  Shared vocabulary of the development.

  \<^item> A Rust computation that may abort is a function into \<open>option\<close>: \<open>None\<close> stands for a panic
    (a failed \<^verbatim>\<open>assert!\<close> or \<^verbatim>\<open>debug_assert!\<close>, an integer overflow of a debug build, an
    \<^verbatim>\<open>unwrap\<close> of nothing, \<^verbatim>\<open>unreachable!\<close>) and for what would be undefined behaviour
    (\<^verbatim>\<open>unwrap_unchecked\<close> of nothing, a dereference of a freed handle). A theorem of the form
    \<open>\<exists>r. f x = Some r \<and> \<dots>\<close> therefore says that none of these can happen.
  \<^item> A \<^verbatim>\<open>usize\<close> (64 bits) is a \<open>nat\<close> whose additions and subtractions are checked by
    \<open>uadd\<close> and \<open>usub\<close>.
  \<^item> A raw pointer \<^verbatim>\<open>NonNull<H>\<close> is an address into a heap \<open>ptr \<rightharpoonup> handle\<close>.
\<close>

section \<open>Checked machine arithmetic and assertions\<close>

type_synonym usize = nat
type_synonym ptr = nat

definition usize_lim :: nat where
  "usize_lim = 2 ^ 64"

definition uadd :: "usize \<Rightarrow> usize \<Rightarrow> usize option" where
  "uadd a b = (if a + b < usize_lim then Some (a + b) else None)"

definition umul :: "usize \<Rightarrow> usize \<Rightarrow> usize option" where
  "umul a b = (if a * b < usize_lim then Some (a * b) else None)"

definition usub :: "usize \<Rightarrow> usize \<Rightarrow> usize option" where
  "usub a b = (if b \<le> a then Some (a - b) else None)"

definition ensure :: "bool \<Rightarrow> unit option" where
  "ensure b = (if b then Some () else None)"

named_theorems checked "evaluation of checked arithmetic and assertions"

lemma uadd_Some [checked]: "a + b < usize_lim \<Longrightarrow> uadd a b = Some (a + b)"
  by (simp add: uadd_def)

lemma umul_Some [checked]: "a * b < usize_lim \<Longrightarrow> umul a b = Some (a * b)"
  by (simp add: umul_def)

lemma usub_Some [checked]: "b \<le> a \<Longrightarrow> usub a b = Some (a - b)"
  by (simp add: usub_def)

lemma ensure_True [checked, simp]: "ensure True = Some ()"
  by (simp add: ensure_def)

lemma ensure_eq_Some [simp]: "ensure b = Some u \<longleftrightarrow> b"
  by (simp add: ensure_def)

lemma ensure_bind [simp]: "Option.bind (ensure b) f = (if b then f () else None)"
  by (simp add: ensure_def)

lemma uadd_eq_Some: "uadd a b = Some c \<longleftrightarrow> a + b < usize_lim \<and> c = a + b"
  by (auto simp: uadd_def)

lemma usub_eq_Some: "usub a b = Some c \<longleftrightarrow> b \<le> a \<and> c = a - b"
  by (auto simp: usub_def)

lemma uadd_usub: "uadd a b = Some c \<Longrightarrow> usub c b = Some a"
  by (auto simp: uadd_def usub_def split: if_splits)

section \<open>Floating point\<close>

text \<open>
  An \<^verbatim>\<open>f64\<close> is the rational number it denotes; \<open>rnd\<close> is the rounding of a result to the nearest
  \<^verbatim>\<open>f64\<close>, an argument of every definition that computes with floating point. A cast to
  \<^verbatim>\<open>usize\<close> truncates and saturates.
\<close>

type_synonym f64 = rat

definition f64_to_usize :: "f64 \<Rightarrow> usize" where
  "f64_to_usize x = min (nat \<lfloor>x\<rfloor>) (usize_lim - 1)"

definition f64_of_usize :: "(f64 \<Rightarrow> f64) \<Rightarrow> usize \<Rightarrow> f64" where
  "f64_of_usize rnd n = rnd (of_nat n)"

text \<open>\<^verbatim>\<open>(capacity as f64 * ratio) as usize\<close>\<close>

definition scale_capacity :: "(f64 \<Rightarrow> f64) \<Rightarrow> usize \<Rightarrow> f64 \<Rightarrow> usize" where
  "scale_capacity rnd capacity ratio = f64_to_usize (rnd (f64_of_usize rnd capacity * ratio))"

lemma scale_capacity_lim: "scale_capacity rnd capacity ratio < usize_lim"
  by (simp add: scale_capacity_def f64_to_usize_def usize_lim_def min_def)

section \<open>Lists and sums\<close>

text \<open>Indexing panics out of range.\<close>

definition nth_opt :: "'a list \<Rightarrow> nat \<Rightarrow> 'a option" where
  "nth_opt xs i = (if i < length xs then Some (xs ! i) else None)"

lemma nth_opt_Some [simp]: "i < length xs \<Longrightarrow> nth_opt xs i = Some (xs ! i)"
  by (simp add: nth_opt_def)

lemma distinct_remove1_set: "distinct xs \<Longrightarrow> set (remove1 p xs) = set xs - {p}"
  by (rule set_remove1_eq)

lemma sum_list_member_le:
  fixes f :: "'a \<Rightarrow> nat"
  shows "p \<in> set xs \<Longrightarrow> f p \<le> sum_list (map f xs)"
  by (induction xs) auto

lemma sum_list_map_remove1_sub:
  fixes f :: "'a \<Rightarrow> nat"
  shows "p \<in> set xs \<Longrightarrow> sum_list (map f (remove1 p xs)) = sum_list (map f xs) - f p"
  by (induction xs) (auto simp: sum_list_member_le)

lemma sum_list_cong_set:
  "(\<And>p. p \<in> set xs \<Longrightarrow> f p = g p) \<Longrightarrow> sum_list (map f xs) = sum_list (map g xs)"
  by (metis map_cong)

section \<open>Intrusive queues, seen as lists\<close>

text \<open>
  The abstract side of \<^verbatim>\<open>Dlist\<close>: a queue is the list of the handles that are linked in it. A push
  asserts that the handle's link is not linked in any queue of the container (\<open>linked\<close> is the
  content of the container's queues at that moment); a removal of a handle that is not in the queue
  is undefined behaviour in the code, \<open>None\<close> here.
\<close>

definition dl_push_back :: "ptr list \<Rightarrow> ptr list \<Rightarrow> ptr \<Rightarrow> ptr list option" where
  "dl_push_back linked q p = (if p \<in> set linked then None else Some (q @ [p]))"

definition dl_remove :: "ptr list \<Rightarrow> ptr \<Rightarrow> ptr list option" where
  "dl_remove q p = (if p \<in> set q then Some (remove1 p q) else None)"

lemma dl_push_back_Some [checked]: "p \<notin> set linked \<Longrightarrow> dl_push_back linked q p = Some (q @ [p])"
  by (simp add: dl_push_back_def)

lemma dl_remove_Some [checked]: "p \<in> set q \<Longrightarrow> dl_remove q p = Some (remove1 p q)"
  by (simp add: dl_remove_def)

end
