(* ===== verification/Base_Handle.thy ===== *)
theory Base_Handle
  imports Foyer_Prelude
begin

unbundle bit_operations_syntax

text \<open>
  \<^verbatim>\<open>foyer-memory/src/handle.rs\<close> and \<^verbatim>\<open>foyer-memory/src/context.rs\<close>: the base handle that every
  cache entry carries (its key, value and context, the key's hash, its charge, the count of external
  references and the two flags of the general cache abstraction), and the handle of an eviction
  algorithm, which adds the algorithm's own fields. The lemmas say how the operations act on the
  fields; the flag lemmas are what the eviction containers and the cache shard rest on.
\<close>

section \<open>Definitions\<close>

datatype CacheContext = Default | LruPriorityLow

definition CacheContext_default :: CacheContext where
  "CacheContext_default = Default"

text \<open>The flags are the bits of a \<^verbatim>\<open>u8\<close>.\<close>

type_synonym BaseHandleFlags = "8 word"

definition IN_INDEXER :: BaseHandleFlags where
  "IN_INDEXER = 0b00000001"

definition IN_EVICTION :: BaseHandleFlags where
  "IN_EVICTION = 0b00000010"

record ('k, 'v, 'c) BaseHandle =
  bh_entry :: "('k \<times> 'v \<times> 'c) option"
  bh_hash :: nat
  bh_charge :: usize
  bh_refs :: usize
  bh_flags :: BaseHandleFlags

definition bh_new :: "('k, 'v, 'c) BaseHandle" where
  "bh_new = \<lparr>bh_entry = None, bh_hash = 0, bh_charge = 0, bh_refs = 0, bh_flags = 0\<rparr>"

definition is_inited :: "('k, 'v, 'c) BaseHandle \<Rightarrow> bool" where
  "is_inited b \<longleftrightarrow> bh_entry b \<noteq> None"

definition bh_init ::
    "('k, 'v, 'c) BaseHandle \<Rightarrow> nat \<Rightarrow> 'k \<Rightarrow> 'v \<Rightarrow> usize \<Rightarrow> 'c \<Rightarrow> ('k, 'v, 'c) BaseHandle option" where
  "bh_init b hash key value charge context = do {
     ensure (bh_entry b = None);
     Some (b\<lparr>bh_hash := hash, bh_entry := Some (key, value, context), bh_charge := charge,
             bh_refs := 0, bh_flags := 0\<rparr>)
   }"

definition bh_take ::
    "('k, 'v, 'c) BaseHandle \<Rightarrow> (('k \<times> 'v \<times> 'c \<times> usize) \<times> ('k, 'v, 'c) BaseHandle) option" where
  "bh_take b = (case bh_entry b of
       None \<Rightarrow> None
     | Some (key, value, context) \<Rightarrow>
         Some ((key, value, context, bh_charge b), b\<lparr>bh_entry := None\<rparr>))"

definition bh_key :: "('k, 'v, 'c) BaseHandle \<Rightarrow> 'k option" where
  "bh_key b = map_option (\<lambda>(key, value, context). key) (bh_entry b)"

definition bh_value :: "('k, 'v, 'c) BaseHandle \<Rightarrow> 'v option" where
  "bh_value b = map_option (\<lambda>(key, value, context). value) (bh_entry b)"

definition bh_context :: "('k, 'v, 'c) BaseHandle \<Rightarrow> 'c option" where
  "bh_context b = map_option (\<lambda>(key, value, context). context) (bh_entry b)"

definition inc_refs_by ::
    "('k, 'v, 'c) BaseHandle \<Rightarrow> usize \<Rightarrow> (usize \<times> ('k, 'v, 'c) BaseHandle) option" where
  "inc_refs_by b val = do {
     r \<leftarrow> uadd (bh_refs b) val;
     Some (r, b\<lparr>bh_refs := r\<rparr>)
   }"

definition inc_refs :: "('k, 'v, 'c) BaseHandle \<Rightarrow> (usize \<times> ('k, 'v, 'c) BaseHandle) option" where
  "inc_refs b = inc_refs_by b 1"

definition dec_refs :: "('k, 'v, 'c) BaseHandle \<Rightarrow> (usize \<times> ('k, 'v, 'c) BaseHandle) option" where
  "dec_refs b = do {
     r \<leftarrow> usub (bh_refs b) 1;
     Some (r, b\<lparr>bh_refs := r\<rparr>)
   }"

definition has_refs :: "('k, 'v, 'c) BaseHandle \<Rightarrow> bool" where
  "has_refs b \<longleftrightarrow> bh_refs b > 0"

definition set_in_indexer :: "bool \<Rightarrow> ('k, 'v, 'c) BaseHandle \<Rightarrow> ('k, 'v, 'c) BaseHandle" where
  "set_in_indexer in_cache b =
     (if in_cache then b\<lparr>bh_flags := bh_flags b OR IN_INDEXER\<rparr>
      else b\<lparr>bh_flags := bh_flags b AND NOT IN_INDEXER\<rparr>)"

definition is_in_indexer :: "('k, 'v, 'c) BaseHandle \<Rightarrow> bool" where
  "is_in_indexer b \<longleftrightarrow> bh_flags b AND IN_INDEXER \<noteq> 0"

definition set_in_eviction :: "bool \<Rightarrow> ('k, 'v, 'c) BaseHandle \<Rightarrow> ('k, 'v, 'c) BaseHandle" where
  "set_in_eviction in_eviction b =
     (if in_eviction then b\<lparr>bh_flags := bh_flags b OR IN_EVICTION\<rparr>
      else b\<lparr>bh_flags := bh_flags b AND NOT IN_EVICTION\<rparr>)"

definition is_in_eviction :: "('k, 'v, 'c) BaseHandle \<Rightarrow> bool" where
  "is_in_eviction b \<longleftrightarrow> bh_flags b AND IN_EVICTION \<noteq> 0"

text \<open>
  The handle of an eviction algorithm: the base handle and the algorithm's own fields \<open>'x\<close>. The
  intrusive link is not a field here: a queue of an eviction container is the list of its handles
  (theory \<open>Dlist\<close> has the links and shows that they implement that list).
\<close>

record ('k, 'v, 'c, 'x) handle =
  base :: "('k, 'v, 'c) BaseHandle"
  hext :: "'x"

type_synonym ('k, 'v, 'c, 'x) heap = "ptr \<rightharpoonup> ('k, 'v, 'c, 'x) handle"

abbreviation in_ev :: "('k, 'v, 'c, 'x) handle \<Rightarrow> bool" where
  "in_ev h \<equiv> is_in_eviction (base h)"

abbreviation in_ix :: "('k, 'v, 'c, 'x) handle \<Rightarrow> bool" where
  "in_ix h \<equiv> is_in_indexer (base h)"

abbreviation hcharge :: "('k, 'v, 'c, 'x) handle \<Rightarrow> usize" where
  "hcharge h \<equiv> bh_charge (base h)"

definition handle_init :: "('k, 'v, 'c, 'x) handle \<Rightarrow> nat \<Rightarrow> 'k \<Rightarrow> 'v \<Rightarrow> usize \<Rightarrow> 'c \<Rightarrow>
    ('k, 'v, 'c, 'x) handle option" where
  "handle_init h hash key value charge context = do {
     b \<leftarrow> bh_init (base h) hash key value charge context;
     Some (h\<lparr>base := b\<rparr>)
   }"

text \<open>A write through a raw pointer: the handle must be allocated.\<close>

definition update_handle :: "('k, 'v, 'c, 'x) heap \<Rightarrow> ptr \<Rightarrow>
    (('k, 'v, 'c, 'x) handle \<Rightarrow> ('k, 'v, 'c, 'x) handle) \<Rightarrow> ('k, 'v, 'c, 'x) heap option" where
  "update_handle H p f = (case H p of None \<Rightarrow> None | Some h \<Rightarrow> Some (H(p \<mapsto> f h)))"

section \<open>Lemmas\<close>

lemma update_handle_Some [simp]: "H p = Some h \<Longrightarrow> update_handle H p f = Some (H(p \<mapsto> f h))"
  by (simp add: update_handle_def)

lemma flag_word_facts:
  fixes w :: "8 word"
  shows "(w OR 1) AND 1 \<noteq> 0" and "(w OR 2) AND 2 \<noteq> 0"
    and "(w AND - 2) AND 1 = 0" and "(w AND - 3) AND 2 = 0"
    and "(w OR 1) AND 2 = w AND 2" and "(w OR 2) AND 1 = w AND 1"
    and "(w AND - 2) AND 2 = w AND 2" and "(w AND - 3) AND 1 = w AND 1"
proof -
  have one: "(w OR 1) AND 1 = 1" and two: "(w OR 2) AND 2 = 2"
    by (simp_all add: bit.conj_disj_distrib2)
  show "(w OR 1) AND 1 \<noteq> 0" and "(w OR 2) AND 2 \<noteq> 0"
    unfolding one two by simp_all
  show "(w AND - 2) AND 1 = 0" and "(w AND - 3) AND 2 = 0"
    and "(w OR 1) AND 2 = w AND 2" and "(w OR 2) AND 1 = w AND 1"
    and "(w AND - 2) AND 2 = w AND 2" and "(w AND - 3) AND 1 = w AND 1"
    by (simp_all add: bit.conj_disj_distrib2 and.assoc)
qed

lemma is_in_indexer_simps [simp]:
  "is_in_indexer (set_in_indexer i b) = i"
  "is_in_indexer (set_in_eviction e b) = is_in_indexer b"
  by (simp_all add: is_in_indexer_def set_in_indexer_def set_in_eviction_def IN_INDEXER_def
      IN_EVICTION_def flag_word_facts)

lemma is_in_eviction_simps [simp]:
  "is_in_eviction (set_in_eviction e b) = e"
  "is_in_eviction (set_in_indexer i b) = is_in_eviction b"
  by (simp_all add: is_in_eviction_def set_in_indexer_def set_in_eviction_def IN_INDEXER_def
      IN_EVICTION_def flag_word_facts)

lemma flag_setters_other_fields [simp]:
  "bh_entry (set_in_indexer i b) = bh_entry b" "bh_entry (set_in_eviction e b) = bh_entry b"
  "bh_hash (set_in_indexer i b) = bh_hash b" "bh_hash (set_in_eviction e b) = bh_hash b"
  "bh_charge (set_in_indexer i b) = bh_charge b" "bh_charge (set_in_eviction e b) = bh_charge b"
  "bh_refs (set_in_indexer i b) = bh_refs b" "bh_refs (set_in_eviction e b) = bh_refs b"
  by (simp_all add: set_in_indexer_def set_in_eviction_def)

lemma is_inited_simps [simp]:
  "is_inited (set_in_indexer i b) = is_inited b" "is_inited (set_in_eviction e b) = is_inited b"
  "is_inited (b\<lparr>bh_refs := r\<rparr>) = is_inited b" "\<not> is_inited bh_new"
  by (simp_all add: is_inited_def bh_new_def)

lemma refs_update_flags [simp]:
  "is_in_indexer (b\<lparr>bh_refs := r\<rparr>) = is_in_indexer b"
  "is_in_eviction (b\<lparr>bh_refs := r\<rparr>) = is_in_eviction b"
  "is_in_indexer (b\<lparr>bh_entry := x\<rparr>) = is_in_indexer b"
  "is_in_eviction (b\<lparr>bh_entry := x\<rparr>) = is_in_eviction b"
  by (simp_all add: is_in_indexer_def is_in_eviction_def)

lemma key_value_congs [simp]:
  "bh_key (set_in_indexer i b) = bh_key b" "bh_key (set_in_eviction e b) = bh_key b"
  "bh_key (b\<lparr>bh_refs := r\<rparr>) = bh_key b"
  "bh_value (set_in_indexer i b) = bh_value b" "bh_value (set_in_eviction e b) = bh_value b"
  "bh_value (b\<lparr>bh_refs := r\<rparr>) = bh_value b"
  "bh_context (set_in_indexer i b) = bh_context b" "bh_context (set_in_eviction e b) = bh_context b"
  "bh_context (b\<lparr>bh_refs := r\<rparr>) = bh_context b"
  by (simp_all add: bh_key_def bh_value_def bh_context_def)

lemma is_inited_key: "is_inited b \<Longrightarrow> \<exists>k. bh_key b = Some k"
  by (auto simp: is_inited_def bh_key_def)

lemma is_inited_context: "is_inited b \<Longrightarrow> \<exists>c. bh_context b = Some c"
  by (auto simp: is_inited_def bh_context_def)

lemma bh_init_Some:
  "\<not> is_inited b \<Longrightarrow> \<exists>b'. bh_init b hash key value charge context = Some b' \<and>
     bh_entry b' = Some (key, value, context) \<and> bh_hash b' = hash \<and> bh_charge b' = charge \<and>
     bh_refs b' = 0 \<and> \<not> is_in_indexer b' \<and> \<not> is_in_eviction b'"
  by (simp add: bh_init_def is_inited_def is_in_indexer_def is_in_eviction_def)

text \<open>Initialising a free handle and taking the entry back is lossless.\<close>

lemma bh_take_init:
  assumes "bh_init b hash key value charge context = Some b'"
  shows "\<exists>b''. bh_take b' = Some ((key, value, context, charge), b'') \<and> \<not> is_inited b''"
  using assms by (auto simp: bh_init_def bh_take_def is_inited_def split: if_splits)

end
