(* ===== verification/Eviction_Spec.thy ===== *)
theory Eviction_Spec
  imports Base_Handle
begin

text \<open>
  The contract of \<^verbatim>\<open>foyer-memory/src/eviction/mod.rs\<close>. The trait \<^verbatim>\<open>Eviction\<close> is the record
  \<open>eviction_ops\<close> of its operations, the dictionary the generic cache is given. The locale
  \<open>eviction_core\<close> states what the trait's documentation promises of \<^verbatim>\<open>push\<close>, \<^verbatim>\<open>reinsert\<close>,
  \<^verbatim>\<open>access\<close>, \<^verbatim>\<open>remove\<close> and the observers, and \<open>eviction\<close> extends it with what it promises of
  \<^verbatim>\<open>pop\<close> and \<^verbatim>\<open>clear\<close>. Fifo, Lru and Lfu interpret \<open>eviction\<close> in their own theories; S3Fifo
  interprets \<open>eviction_core\<close> only, for the reasons its theory proves. The cache shard is verified once
  against these locales.
\<close>

section \<open>The operations of the trait\<close>

record ('k, 'v, 'c, 'x, 'e, 'g) eviction_ops =
  ev_handle_new :: "('k, 'v, 'c, 'x) handle"
  ev_new :: "usize \<Rightarrow> 'g \<Rightarrow> 'e option"
  ev_push :: "('k, 'v, 'c, 'x) heap \<Rightarrow> 'e \<Rightarrow> ptr \<Rightarrow> (('k, 'v, 'c, 'x) heap \<times> 'e) option"
  ev_pop :: "('k, 'v, 'c, 'x) heap \<Rightarrow> 'e \<Rightarrow> (ptr option \<times> ('k, 'v, 'c, 'x) heap \<times> 'e) option"
  ev_reinsert :: "('k, 'v, 'c, 'x) heap \<Rightarrow> 'e \<Rightarrow> ptr \<Rightarrow> (('k, 'v, 'c, 'x) heap \<times> 'e) option"
  ev_access :: "('k, 'v, 'c, 'x) heap \<Rightarrow> 'e \<Rightarrow> ptr \<Rightarrow> (('k, 'v, 'c, 'x) heap \<times> 'e) option"
  ev_remove :: "('k, 'v, 'c, 'x) heap \<Rightarrow> 'e \<Rightarrow> ptr \<Rightarrow> (('k, 'v, 'c, 'x) heap \<times> 'e) option"
  ev_clear :: "('k, 'v, 'c, 'x) heap \<Rightarrow> 'e \<Rightarrow> (ptr list \<times> ('k, 'v, 'c, 'x) heap \<times> 'e) option"
  ev_len :: "'e \<Rightarrow> usize"
  ev_is_empty :: "'e \<Rightarrow> bool"

section \<open>What an operation may change\<close>

text \<open>The part of a handle that belongs to the cache, not to the eviction container.\<close>

definition handle_core ::
    "('k, 'v, 'c, 'x) handle \<Rightarrow> ('k \<times> 'v \<times> 'c) option \<times> nat \<times> usize \<times> usize \<times> bool" where
  "handle_core h = (bh_entry (base h), bh_hash (base h), bh_charge (base h), bh_refs (base h), in_ix h)"

text \<open>The part of a handle that a container may rely on while the handle is in it.\<close>

definition ev_view :: "('k, 'v, 'c, 'x) handle \<Rightarrow> 'x \<times> usize \<times> bool \<times> bool" where
  "ev_view h = (hext h, bh_charge (base h), in_ev h, is_inited (base h))"

definition heap_upd :: "('k, 'v, 'c, 'x) heap \<Rightarrow> ('k, 'v, 'c, 'x) heap \<Rightarrow> ptr set \<Rightarrow> bool" where
  "heap_upd H H' S \<longleftrightarrow> (\<forall>q. q \<notin> S \<longrightarrow> H' q = H q) \<and>
     (\<forall>q. map_option handle_core (H' q) = map_option handle_core (H q))"

definition charge_at :: "('k, 'v, 'c, 'x) heap \<Rightarrow> ptr \<Rightarrow> usize" where
  "charge_at H p = (case H p of None \<Rightarrow> 0 | Some h \<Rightarrow> hcharge h)"

definition charges_of :: "('k, 'v, 'c, 'x) heap \<Rightarrow> ptr list \<Rightarrow> usize" where
  "charges_of H ps = sum_list (map (charge_at H) ps)"

named_theorems heap_simps "charges and frames of heaps"

lemma charge_at_Some [heap_simps]: "H p = Some h \<Longrightarrow> charge_at H p = hcharge h"
  by (simp add: charge_at_def)

lemma charges_of_Nil [simp]: "charges_of H [] = 0"
  by (simp add: charges_of_def)

lemma charges_of_Cons [simp]: "charges_of H (p # ps) = charge_at H p + charges_of H ps"
  by (simp add: charges_of_def)

lemma charges_of_append [simp]: "charges_of H (ps @ qs) = charges_of H ps + charges_of H qs"
  by (simp add: charges_of_def)

lemma charges_of_remove1 [heap_simps]:
  "p \<in> set ps \<Longrightarrow> charges_of H (remove1 p ps) = charges_of H ps - charge_at H p"
  by (simp add: charges_of_def sum_list_map_remove1_sub)

lemma charges_of_member: "p \<in> set ps \<Longrightarrow> charge_at H p \<le> charges_of H ps"
  by (simp add: charges_of_def sum_list_member_le)

lemma charges_of_cong:
  "(\<And>p. p \<in> set ps \<Longrightarrow> charge_at H' p = charge_at H p) \<Longrightarrow> charges_of H' ps = charges_of H ps"
  unfolding charges_of_def by (rule sum_list_cong_set)

lemma charges_of_set:
  "distinct ps \<Longrightarrow> charges_of H ps = sum (charge_at H) (set ps)"
  by (simp add: charges_of_def sum_list_distinct_conv_sum_set)

lemma heap_upd_refl [simp, intro]: "heap_upd H H S"
  by (simp add: heap_upd_def)

lemma heap_upd_trans: "heap_upd H H' S \<Longrightarrow> heap_upd H' H'' T \<Longrightarrow> S \<subseteq> U \<Longrightarrow> T \<subseteq> U \<Longrightarrow> heap_upd H H'' U"
  unfolding heap_upd_def by (metis subsetD)

lemma heap_upd_mono: "heap_upd H H' S \<Longrightarrow> S \<subseteq> T \<Longrightarrow> heap_upd H H' T"
  unfolding heap_upd_def by blast

lemma heap_upd_single [simp]:
  "H p = Some h \<Longrightarrow> handle_core h' = handle_core h \<Longrightarrow> p \<in> S \<Longrightarrow> heap_upd H (H(p \<mapsto> h')) S"
  by (auto simp: heap_upd_def)

lemma heap_upd_other: "heap_upd H H' S \<Longrightarrow> q \<notin> S \<Longrightarrow> H' q = H q"
  by (simp add: heap_upd_def)

lemma heap_upd_dom: "heap_upd H H' S \<Longrightarrow> dom H' = dom H"
  by (auto simp: heap_upd_def dom_def) (metis option.map_disc_iff option.exhaust)+

lemma heap_upd_core: "heap_upd H H' S \<Longrightarrow> map_option handle_core (H' q) = map_option handle_core (H q)"
  by (simp add: heap_upd_def)

lemma heap_upd_get:
  assumes "heap_upd H H' S" "H q = Some h"
  obtains h' where "H' q = Some h'" "handle_core h' = handle_core h"
  using heap_upd_core [OF assms(1), of q] assms(2) by auto

lemma heap_upd_charge_at: "heap_upd H H' S \<Longrightarrow> charge_at H' q = charge_at H q"
  using heap_upd_core [of H H' S q]
  by (cases "H q"; cases "H' q") (auto simp: charge_at_def handle_core_def)

lemma heap_upd_charges: "heap_upd H H' S \<Longrightarrow> charges_of H' ps = charges_of H ps"
  by (rule charges_of_cong) (rule heap_upd_charge_at)

lemma handle_core_simps [simp]:
  "handle_core (h\<lparr>base := set_in_eviction e (base h)\<rparr>) = handle_core h"
  "handle_core (h\<lparr>hext := x\<rparr>) = handle_core h"
  "handle_core (h\<lparr>hext := x, base := set_in_eviction e (base h)\<rparr>) = handle_core h"
  "handle_core (h\<lparr>base := set_in_eviction e (base h), hext := x\<rparr>) = handle_core h"
  by (simp_all add: handle_core_def)

lemma handle_core_inited: "handle_core h' = handle_core h \<Longrightarrow> is_inited (base h') = is_inited (base h)"
  by (simp add: handle_core_def is_inited_def)

lemma handle_core_charge: "handle_core h' = handle_core h \<Longrightarrow> hcharge h' = hcharge h"
  by (simp add: handle_core_def)

text \<open>The handle at an address, when there is one, in the state \<open>P\<close>.\<close>

definition holds_at :: "('k, 'v, 'c, 'x) heap \<Rightarrow> ptr \<Rightarrow> (('k, 'v, 'c, 'x) handle \<Rightarrow> bool) \<Rightarrow> bool" where
  "holds_at H p P \<longleftrightarrow> (case H p of None \<Rightarrow> False | Some h \<Rightarrow> P h)"

lemma holds_at_upd [simp]: "holds_at (H(p \<mapsto> h)) q P = (if q = p then P h else holds_at H q P)"
  by (simp add: holds_at_def)

lemma holds_at_Some [heap_simps]: "H p = Some h \<Longrightarrow> holds_at H p P = P h"
  by (simp add: holds_at_def)

lemma holds_atE: "holds_at H p P \<Longrightarrow> (\<And>h. H p = Some h \<Longrightarrow> P h \<Longrightarrow> thesis) \<Longrightarrow> thesis"
  by (auto simp: holds_at_def split: option.splits)

lemma holds_at_alloc: "holds_at H p P \<Longrightarrow> H p \<noteq> None"
  by (auto simp: holds_at_def split: option.splits)

lemma holds_at_mono: "holds_at H p P \<Longrightarrow> (\<And>h. P h \<Longrightarrow> Q h) \<Longrightarrow> holds_at H p Q"
  by (auto simp: holds_at_def split: option.splits)

lemma holds_at_view:
  assumes "map_option ev_view (H' p) = map_option ev_view (H p)"
    and "\<And>h h'. ev_view h' = ev_view h \<Longrightarrow> P h' = P h"
  shows "holds_at H' p P = holds_at H p P"
proof (cases "H p")
  case None
  with assms(1) show ?thesis by (simp add: holds_at_def)
next
  case (Some h)
  with assms(1) obtain h' where "H' p = Some h'" "ev_view h' = ev_view h" by auto
  with Some assms(2) [of h' h] show ?thesis by (simp add: holds_at_def)
qed

lemma holds_at_base:
  assumes "map_option base (H' q) = map_option base (H q)"
    and "holds_at H q (\<lambda>h. P (base h) \<and> R h)" and "holds_at H' q Q"
  shows "holds_at H' q (\<lambda>h. P (base h) \<and> Q h)"
  using assms by (cases "H q"; cases "H' q") (auto simp: holds_at_def)

lemma charge_at_view:
  "map_option ev_view (H' p) = map_option ev_view (H p) \<Longrightarrow> charge_at H' p = charge_at H p"
  by (cases "H p"; cases "H' p") (auto simp: charge_at_def ev_view_def)

lemma charge_at_upd [simp]: "charge_at (H(p \<mapsto> h)) q = (if q = p then hcharge h else charge_at H q)"
  by (simp add: charge_at_def)

lemma charges_of_upd:
  "H p = Some h \<Longrightarrow> hcharge h' = hcharge h \<Longrightarrow> charges_of (H(p \<mapsto> h')) ps = charges_of H ps"
  by (rule charges_of_cong) (simp add: charge_at_def)

section \<open>The contract\<close>

text \<open>A handle that a container accepts: initialised, not marked as being in a container, its own
  fields in the state in which the algorithm leaves a handle that it has let go.\<close>

definition evictable :: "('x \<Rightarrow> bool) \<Rightarrow> ('k, 'v, 'c, 'x) heap \<Rightarrow> ptr \<Rightarrow> bool" where
  "evictable clean H p \<longleftrightarrow> (case H p of None \<Rightarrow> False
     | Some h \<Rightarrow> is_inited (base h) \<and> \<not> in_ev h \<and> clean (hext h))"

lemma evictable_iff:
  "evictable clean H p \<longleftrightarrow> (\<exists>h. H p = Some h \<and> is_inited (base h) \<and> \<not> in_ev h \<and> clean (hext h))"
  by (auto simp: evictable_def split: option.splits)

locale eviction_core =
  fixes ops :: "('k, 'v, 'c, 'x, 'e, 'g) eviction_ops"
    and ok :: "('k, 'v, 'c, 'x) heap \<Rightarrow> 'e \<Rightarrow> bool"
    and ptrs :: "'e \<Rightarrow> ptr list"
    and clean :: "'x \<Rightarrow> bool"
  assumes ok_distinct: "ok H e \<Longrightarrow> distinct (ptrs e)"
    and ok_member: "ok H e \<Longrightarrow> p \<in> set (ptrs e) \<Longrightarrow> \<exists>h. H p = Some h \<and> is_inited (base h) \<and> in_ev h"
    and ok_frame: "ok H e \<Longrightarrow>
      (\<And>p. p \<in> set (ptrs e) \<Longrightarrow> map_option ev_view (H' p) = map_option ev_view (H p)) \<Longrightarrow> ok H' e"
    and new_clean: "clean (hext (ev_handle_new ops)) \<and> \<not> is_inited (base (ev_handle_new ops))"
    and new_ok: "ev_new ops cap cfg = Some e \<Longrightarrow> ok H e \<and> ptrs e = []"
    and push_ok: "ok H e \<Longrightarrow> evictable clean H p \<Longrightarrow> p \<notin> set (ptrs e) \<Longrightarrow>
      charges_of H (ptrs e) + charge_at H p < usize_lim \<Longrightarrow>
      \<exists>H' e'. ev_push ops H e p = Some (H', e') \<and> ok H' e' \<and>
        set (ptrs e') = insert p (set (ptrs e)) \<and> heap_upd H H' (insert p (set (ptrs e)))"
    and reinsert_ok: "ok H e \<Longrightarrow> p \<in> set (ptrs e) \<or> evictable clean H p \<Longrightarrow>
      sum (charge_at H) (insert p (set (ptrs e))) < usize_lim \<Longrightarrow>
      \<exists>H' e'. ev_reinsert ops H e p = Some (H', e') \<and> ok H' e' \<and>
        (set (ptrs e') = set (ptrs e) \<or> set (ptrs e') = insert p (set (ptrs e))) \<and>
        heap_upd H H' (insert p (set (ptrs e))) \<and> (p \<in> set (ptrs e') \<or> evictable clean H' p)"
    and access_ok: "ok H e \<Longrightarrow> p \<in> set (ptrs e) \<or> evictable clean H p \<Longrightarrow>
      \<exists>H' e'. ev_access ops H e p = Some (H', e') \<and> ok H' e' \<and>
        set (ptrs e') = set (ptrs e) \<and>
        heap_upd H H' (insert p (set (ptrs e))) \<and> (p \<in> set (ptrs e') \<or> evictable clean H' p)"
    and remove_ok: "ok H e \<Longrightarrow> p \<in> set (ptrs e) \<Longrightarrow>
      \<exists>H' e'. ev_remove ops H e p = Some (H', e') \<and> ok H' e' \<and>
        set (ptrs e') = set (ptrs e) - {p} \<and> heap_upd H H' (set (ptrs e)) \<and> evictable clean H' p"
    and len_ok: "ok H e \<Longrightarrow> ev_len ops e = length (ptrs e)"
    and is_empty_ok: "ok H e \<Longrightarrow> ev_is_empty ops e \<longleftrightarrow> ptrs e = []"

locale eviction = eviction_core ops ok ptrs clean
  for ops :: "('k, 'v, 'c, 'x, 'e, 'g) eviction_ops" and ok and ptrs and clean +
  assumes pop_ok: "ok H e \<Longrightarrow> charges_of H (ptrs e) < usize_lim \<Longrightarrow>
      (ptrs e = [] \<and> (\<exists>e'. ev_pop ops H e = Some (None, H, e') \<and> ok H e' \<and> ptrs e' = [])) \<or>
      (\<exists>p H' e'. ev_pop ops H e = Some (Some p, H', e') \<and> ok H' e' \<and> p \<in> set (ptrs e) \<and>
        set (ptrs e') = set (ptrs e) - {p} \<and> heap_upd H H' (set (ptrs e)) \<and> evictable clean H' p)"
    and clear_ok: "ok H e \<Longrightarrow> charges_of H (ptrs e) < usize_lim \<Longrightarrow>
      \<exists>ps H' e'. ev_clear ops H e = Some (ps, H', e') \<and> ok H' e' \<and> ptrs e' = [] \<and>
        distinct ps \<and> set ps = set (ptrs e) \<and> heap_upd H H' (set (ptrs e)) \<and>
        (\<forall>p \<in> set ps. evictable clean H' p)"

context eviction
begin

text \<open>A pop takes exactly one handle out, and a container whose pop gives nothing is empty.\<close>

lemma pop_cases:
  assumes "ok H e" "charges_of H (ptrs e) < usize_lim"
  obtains (None) e' where "ev_pop ops H e = Some (None, H, e')" "ok H e'" "ptrs e = []" "ptrs e' = []"
  | (Some) p H' e' where "ev_pop ops H e = Some (Some p, H', e')" "ok H' e'" "p \<in> set (ptrs e)"
      "set (ptrs e') = set (ptrs e) - {p}" "heap_upd H H' (set (ptrs e))" "evictable clean H' p"
  using pop_ok [OF assms] by blast

text \<open>The charges in the container go down by the charge of what is popped.\<close>

lemma pop_charges:
  assumes "ok H e" "charges_of H (ptrs e) < usize_lim" "ev_pop ops H e = Some (Some p, H', e')"
  shows "charges_of H (ptrs e) = charges_of H' (ptrs e') + charge_at H p"
    and "length (ptrs e') < length (ptrs e)"
proof -
  from assms have e': "ok H' e'" "p \<in> set (ptrs e)" "set (ptrs e') = set (ptrs e) - {p}"
    "heap_upd H H' (set (ptrs e))"
    using pop_ok [OF assms(1,2)] by auto
  note d = ok_distinct [OF assms(1)] ok_distinct [OF e'(1)]
  have "sum (charge_at H) (set (ptrs e)) = sum (charge_at H) (set (ptrs e) - {p}) + charge_at H p"
    using e'(2) by (simp add: sum.remove)
  then show "charges_of H (ptrs e) = charges_of H' (ptrs e') + charge_at H p"
    using d e' heap_upd_charges [OF e'(4)] by (simp add: charges_of_set)
  show "length (ptrs e') < length (ptrs e)"
    using e'(2,3) d by (metis card_Diff1_less distinct_card finite_set)
qed

end

end
