(* ===== verification/Indexer.thy ===== *)
theory Indexer
  imports Eviction_Spec
begin

text \<open>
  \<^verbatim>\<open>foyer-memory/src/indexer.rs\<close>. The trait \<^verbatim>\<open>Indexer\<close> is the record \<open>indexer_ops\<close>, and the
  locale \<open>indexer\<close> is its contract: a set of handles, no two with one key, each marked as indexed.
  \<^verbatim>\<open>HashTableIndexer\<close> is written over the raw hash table of the external crate \<^verbatim>\<open>hashbrown\<close>,
  which is a record \<open>hash_table_ops\<close> given as an argument; the locale \<open>hash_table\<close> has what the
  crate documents of it. A \<open>sublocale\<close> shows that the indexer meets its contract over every such
  table. The last section has an association-list table, so that the model can be run.
\<close>

section \<open>The external hash table\<close>

record 't hash_table_ops =
  ht_new :: 't
  ht_find :: "'t \<Rightarrow> nat \<Rightarrow> (ptr \<Rightarrow> bool) \<Rightarrow> ptr option"
  ht_entry :: "'t \<Rightarrow> nat \<Rightarrow> (ptr \<Rightarrow> bool) \<Rightarrow> (ptr \<Rightarrow> nat) \<Rightarrow> ptr option \<times> 't"
  ht_occupied_swap :: "'t \<Rightarrow> ptr \<Rightarrow> ptr \<Rightarrow> 't"
  ht_occupied_remove :: "'t \<Rightarrow> ptr \<Rightarrow> 't"
  ht_vacant_insert :: "'t \<Rightarrow> nat \<Rightarrow> ptr \<Rightarrow> 't"
  ht_drain :: "'t \<Rightarrow> ptr list \<times> 't"

text \<open>The elements are kept with the hash they were inserted with; \<^verbatim>\<open>entry\<close> may grow the table and
  then hashes every element again, so the hasher must agree with these hashes.\<close>

locale hash_table =
  fixes ht :: "'t hash_table_ops"
    and ht_ok :: "'t \<Rightarrow> bool"
    and elems :: "'t \<Rightarrow> (nat \<times> ptr) set"
  assumes elems_finite: "ht_ok t \<Longrightarrow> finite (elems t)"
    and elems_unique: "ht_ok t \<Longrightarrow> (a, p) \<in> elems t \<Longrightarrow> (b, p) \<in> elems t \<Longrightarrow> a = b"
    and new_table: "ht_ok (ht_new ht) \<and> elems (ht_new ht) = {}"
    and find_Some: "ht_ok t \<Longrightarrow> ht_find ht t a eq = Some p \<Longrightarrow> eq p \<and> (\<exists>b. (b, p) \<in> elems t)"
    and find_None: "ht_ok t \<Longrightarrow> ht_find ht t a eq = None \<Longrightarrow> (a, p) \<in> elems t \<Longrightarrow> \<not> eq p"
    and entry_find: "ht_ok t \<Longrightarrow> (\<forall>(b, p) \<in> elems t. hasher p = b) \<Longrightarrow>
      \<exists>t'. ht_entry ht t a eq hasher = (ht_find ht t a eq, t') \<and> ht_ok t' \<and> elems t' = elems t"
    and swap_table: "ht_ok t \<Longrightarrow> (b, p) \<in> elems t \<Longrightarrow> (\<forall>c. (c, q) \<notin> elems t) \<Longrightarrow>
      ht_ok (ht_occupied_swap ht t p q) \<and>
      elems (ht_occupied_swap ht t p q) = insert (b, q) (elems t - {(b, p)})"
    and remove_table: "ht_ok t \<Longrightarrow> (b, p) \<in> elems t \<Longrightarrow>
      ht_ok (ht_occupied_remove ht t p) \<and> elems (ht_occupied_remove ht t p) = elems t - {(b, p)}"
    and insert_table: "ht_ok t \<Longrightarrow> (\<forall>c. (c, p) \<notin> elems t) \<Longrightarrow>
      ht_ok (ht_vacant_insert ht t a p) \<and> elems (ht_vacant_insert ht t a p) = insert (a, p) (elems t)"
    and drain_table: "ht_ok t \<Longrightarrow> ht_drain ht t = (ps, t') \<Longrightarrow>
      distinct ps \<and> set ps = snd ` elems t \<and> ht_ok t' \<and> elems t' = {}"

section \<open>The indexer\<close>

record ('k, 'v, 'c, 'x, 'i) indexer_ops =
  ix_new :: 'i
  ix_insert :: "('k, 'v, 'c, 'x) heap \<Rightarrow> 'i \<Rightarrow> ptr \<Rightarrow> (ptr option \<times> ('k, 'v, 'c, 'x) heap \<times> 'i) option"
  ix_get :: "('k, 'v, 'c, 'x) heap \<Rightarrow> 'i \<Rightarrow> nat \<Rightarrow> 'k \<Rightarrow> ptr option"
  ix_remove :: "('k, 'v, 'c, 'x) heap \<Rightarrow> 'i \<Rightarrow> nat \<Rightarrow> 'k \<Rightarrow> (ptr option \<times> ('k, 'v, 'c, 'x) heap \<times> 'i) option"
  ix_drain :: "('k, 'v, 'c, 'x) heap \<Rightarrow> 'i \<Rightarrow> (ptr list \<times> ('k, 'v, 'c, 'x) heap \<times> 'i) option"

definition key_at :: "('k, 'v, 'c, 'x) heap \<Rightarrow> ptr \<Rightarrow> 'k option" where
  "key_at H p = (case H p of None \<Rightarrow> None | Some h \<Rightarrow> bh_key (base h))"

definition hash_at :: "('k, 'v, 'c, 'x) heap \<Rightarrow> ptr \<Rightarrow> nat" where
  "hash_at H p = (case H p of None \<Rightarrow> 0 | Some h \<Rightarrow> bh_hash (base h))"

definition mark_ix :: "bool \<Rightarrow> ('k, 'v, 'c, 'x) handle \<Rightarrow> ('k, 'v, 'c, 'x) handle" where
  "mark_ix b h = h\<lparr>base := set_in_indexer b (base h)\<rparr>"

record 't HashTableIndexer =
  ix_table :: 't

definition hti_new :: "'t hash_table_ops \<Rightarrow> 't HashTableIndexer" where
  "hti_new ht = \<lparr>ix_table = ht_new ht\<rparr>"

definition hti_insert :: "'t hash_table_ops \<Rightarrow> ('k, 'v, 'c, 'x) heap \<Rightarrow> 't HashTableIndexer \<Rightarrow> ptr \<Rightarrow>
    (ptr option \<times> ('k, 'v, 'c, 'x) heap \<times> 't HashTableIndexer) option" where
  "hti_insert ht H i p = do {
     h \<leftarrow> H p;
     ensure (\<not> in_ix h);
     H1 \<leftarrow> update_handle H p (mark_ix True);
     (case ht_entry ht (ix_table i) (bh_hash (base h)) (\<lambda>q. key_at H1 q = bh_key (base h)) (hash_at H1) of
        (Some old, t) \<Rightarrow> do {
          let t' = ht_occupied_swap ht t old p;
          b \<leftarrow> H1 old;
          ensure (in_ix b);
          H2 \<leftarrow> update_handle H1 old (mark_ix False);
          Some (Some old, H2, i\<lparr>ix_table := t'\<rparr>)
        }
      | (None, t) \<Rightarrow> Some (None, H1, i\<lparr>ix_table := ht_vacant_insert ht t (bh_hash (base h)) p\<rparr>))
   }"

definition hti_get :: "'t hash_table_ops \<Rightarrow> ('k, 'v, 'c, 'x) heap \<Rightarrow> 't HashTableIndexer \<Rightarrow> nat \<Rightarrow> 'k \<Rightarrow>
    ptr option" where
  "hti_get ht H i hash key = ht_find ht (ix_table i) hash (\<lambda>q. key_at H q = Some key)"

definition hti_remove :: "'t hash_table_ops \<Rightarrow> ('k, 'v, 'c, 'x) heap \<Rightarrow> 't HashTableIndexer \<Rightarrow> nat \<Rightarrow> 'k \<Rightarrow>
    (ptr option \<times> ('k, 'v, 'c, 'x) heap \<times> 't HashTableIndexer) option" where
  "hti_remove ht H i hash key =
     (case ht_entry ht (ix_table i) hash (\<lambda>q. key_at H q = Some key) (hash_at H) of
        (Some p, t) \<Rightarrow> do {
          let t' = ht_occupied_remove ht t p;
          b \<leftarrow> H p;
          ensure (in_ix b);
          H' \<leftarrow> update_handle H p (mark_ix False);
          Some (Some p, H', i\<lparr>ix_table := t'\<rparr>)
        }
      | (None, t) \<Rightarrow> Some (None, H, i\<lparr>ix_table := t\<rparr>))"

fun unmark_all :: "('k, 'v, 'c, 'x) heap \<Rightarrow> ptr list \<Rightarrow> ('k, 'v, 'c, 'x) heap option" where
  "unmark_all H [] = Some H"
| "unmark_all H (p # ps) = do { H' \<leftarrow> update_handle H p (mark_ix False); unmark_all H' ps }"

definition hti_drain :: "'t hash_table_ops \<Rightarrow> ('k, 'v, 'c, 'x) heap \<Rightarrow> 't HashTableIndexer \<Rightarrow>
    (ptr list \<times> ('k, 'v, 'c, 'x) heap \<times> 't HashTableIndexer) option" where
  "hti_drain ht H i = (case ht_drain ht (ix_table i) of (ps, t) \<Rightarrow> do {
     H' \<leftarrow> unmark_all H ps;
     Some (ps, H', i\<lparr>ix_table := t\<rparr>)
   })"

definition hti_ops :: "'t hash_table_ops \<Rightarrow> ('k, 'v, 'c, 'x, 't HashTableIndexer) indexer_ops" where
  "hti_ops ht = \<lparr>ix_new = hti_new ht, ix_insert = hti_insert ht, ix_get = hti_get ht,
     ix_remove = hti_remove ht, ix_drain = hti_drain ht\<rparr>"

section \<open>The contract\<close>

text \<open>What an indexer relies on while a handle is in it.\<close>

definition ix_view :: "('k, 'v, 'c, 'x) handle \<Rightarrow> ('k \<times> 'v \<times> 'c) option \<times> nat \<times> bool" where
  "ix_view h = (bh_entry (base h), bh_hash (base h), in_ix h)"

text \<open>An initialised handle with the hash of its own key.\<close>

definition well_hashed :: "('k \<Rightarrow> nat) \<Rightarrow> ('k, 'v, 'c, 'x) handle \<Rightarrow> bool" where
  "well_hashed hashf h \<longleftrightarrow> is_inited (base h) \<and> (\<forall>k. bh_key (base h) = Some k \<longrightarrow> bh_hash (base h) = hashf k)"

locale indexer =
  fixes ix :: "('k, 'v, 'c, 'x, 'i) indexer_ops"
    and hashf :: "'k \<Rightarrow> nat"
    and ix_ok :: "('k, 'v, 'c, 'x) heap \<Rightarrow> 'i \<Rightarrow> bool"
    and ix_ptrs :: "'i \<Rightarrow> ptr set"
  assumes ix_finite: "ix_ok H i \<Longrightarrow> finite (ix_ptrs i)"
    and ix_member: "ix_ok H i \<Longrightarrow> p \<in> ix_ptrs i \<Longrightarrow> holds_at H p (\<lambda>h. in_ix h \<and> well_hashed hashf h)"
    and ix_key_unique: "ix_ok H i \<Longrightarrow> p \<in> ix_ptrs i \<Longrightarrow> q \<in> ix_ptrs i \<Longrightarrow> key_at H p = key_at H q \<Longrightarrow> p = q"
    and ix_frame: "ix_ok H i \<Longrightarrow>
      (\<And>p. p \<in> ix_ptrs i \<Longrightarrow> map_option ix_view (H' p) = map_option ix_view (H p)) \<Longrightarrow> ix_ok H' i"
    and ix_new_ok: "ix_ok H (ix_new ix) \<and> ix_ptrs (ix_new ix) = {}"
    and ix_get_ok: "ix_ok H i \<Longrightarrow>
      ix_get ix H i (hashf k) k = Some p \<longleftrightarrow> p \<in> ix_ptrs i \<and> key_at H p = Some k"
    and ix_insert_ok: "ix_ok H i \<Longrightarrow> H p = Some h \<Longrightarrow> well_hashed hashf h \<Longrightarrow> \<not> in_ix h \<Longrightarrow> p \<notin> ix_ptrs i \<Longrightarrow>
      (\<exists>i'. ix_insert ix H i p = Some (None, H(p \<mapsto> mark_ix True h), i') \<and>
         (\<forall>q \<in> ix_ptrs i. key_at H q \<noteq> key_at H p) \<and>
         ix_ok (H(p \<mapsto> mark_ix True h)) i' \<and> ix_ptrs i' = insert p (ix_ptrs i)) \<or>
      (\<exists>old b i'. ix_insert ix H i p = Some (Some old, H(p \<mapsto> mark_ix True h, old \<mapsto> mark_ix False b), i') \<and>
         H old = Some b \<and> old \<in> ix_ptrs i \<and> key_at H old = key_at H p \<and>
         ix_ok (H(p \<mapsto> mark_ix True h, old \<mapsto> mark_ix False b)) i' \<and> ix_ptrs i' = insert p (ix_ptrs i - {old}))"
    and ix_remove_ok: "ix_ok H i \<Longrightarrow>
      (\<exists>i'. ix_remove ix H i (hashf k) k = Some (None, H, i') \<and>
         (\<forall>q \<in> ix_ptrs i. key_at H q \<noteq> Some k) \<and> ix_ok H i' \<and> ix_ptrs i' = ix_ptrs i) \<or>
      (\<exists>p h i'. ix_remove ix H i (hashf k) k = Some (Some p, H(p \<mapsto> mark_ix False h), i') \<and>
         H p = Some h \<and> p \<in> ix_ptrs i \<and> key_at H p = Some k \<and>
         ix_ok (H(p \<mapsto> mark_ix False h)) i' \<and> ix_ptrs i' = ix_ptrs i - {p})"
    and ix_drain_ok: "ix_ok H i \<Longrightarrow>
      \<exists>ps i'. ix_drain ix H i =
           Some (ps, \<lambda>p. if p \<in> ix_ptrs i then map_option (mark_ix False) (H p) else H p, i') \<and>
         distinct ps \<and> set ps = ix_ptrs i \<and> ix_ptrs i' = {} \<and> (\<forall>H'. ix_ok H' i')"

section \<open>The hash table indexer meets the contract\<close>

lemma mark_ix_simps [simp]:
  "in_ix (mark_ix b h) = b" "in_ev (mark_ix b h) = in_ev h" "hext (mark_ix b h) = hext h"
  "bh_entry (base (mark_ix b h)) = bh_entry (base h)" "bh_hash (base (mark_ix b h)) = bh_hash (base h)"
  "bh_charge (base (mark_ix b h)) = bh_charge (base h)" "bh_refs (base (mark_ix b h)) = bh_refs (base h)"
  "bh_key (base (mark_ix b h)) = bh_key (base h)" "is_inited (base (mark_ix b h)) = is_inited (base h)"
  "well_hashed hashf (mark_ix b h) = well_hashed hashf h" "ev_view (mark_ix b h) = ev_view h"
  by (simp_all add: mark_ix_def well_hashed_def ev_view_def)

lemma key_at_upd: "key_at (H(p \<mapsto> h)) q = (if q = p then bh_key (base h) else key_at H q)"
  by (simp add: key_at_def)

lemma hash_at_upd: "hash_at (H(p \<mapsto> h)) q = (if q = p then bh_hash (base h) else hash_at H q)"
  by (simp add: hash_at_def)

lemma key_at_Some: "H p = Some h \<Longrightarrow> key_at H p = bh_key (base h)"
  by (simp add: key_at_def)

lemma unmark_all_eq:
  "(\<And>p. p \<in> set ps \<Longrightarrow> H p \<noteq> None) \<Longrightarrow>
   unmark_all H ps = Some (\<lambda>p. if p \<in> set ps then map_option (mark_ix False) (H p) else H p)"
proof (induction ps arbitrary: H)
  case (Cons p ps)
  then obtain h where h: "H p = Some h" by (metis list.set_intros(1) not_None_eq)
  have "unmark_all (H(p \<mapsto> mark_ix False h)) ps =
      Some (\<lambda>q. if q \<in> set ps then map_option (mark_ix False) ((H(p \<mapsto> mark_ix False h)) q)
                else (H(p \<mapsto> mark_ix False h)) q)"
    using Cons.prems by (intro Cons.IH) auto
  moreover have "mark_ix False (mark_ix False h) = mark_ix False h"
    by (simp add: mark_ix_def set_in_indexer_def and.assoc)
  ultimately show ?case using h by (auto simp: fun_eq_iff)
qed auto

definition hti_ok :: "('t \<Rightarrow> bool) \<Rightarrow> ('t \<Rightarrow> (nat \<times> ptr) set) \<Rightarrow> ('k \<Rightarrow> nat) \<Rightarrow>
    ('k, 'v, 'c, 'x) heap \<Rightarrow> 't HashTableIndexer \<Rightarrow> bool" where
  "hti_ok ht_ok elems hashf H i \<longleftrightarrow> ht_ok (ix_table i) \<and>
     (\<forall>(a, p) \<in> elems (ix_table i). hash_at H p = a \<and> holds_at H p (\<lambda>h. in_ix h \<and> well_hashed hashf h)) \<and>
     inj_on (key_at H) (snd ` elems (ix_table i))"

definition hti_ptrs :: "('t \<Rightarrow> (nat \<times> ptr) set) \<Rightarrow> 't HashTableIndexer \<Rightarrow> ptr set" where
  "hti_ptrs elems i = snd ` elems (ix_table i)"

lemma well_hashed_key:
  assumes "well_hashed hashf h"
  obtains k where "bh_key (base h) = Some k" "bh_hash (base h) = hashf k"
  using assms is_inited_key [of "base h"] by (auto simp: well_hashed_def)

lemma ix_view_simps:
  assumes "map_option ix_view (H' p) = map_option ix_view (H p)"
  shows "key_at H' p = key_at H p" "hash_at H' p = hash_at H p"
    "holds_at H' p (\<lambda>h. in_ix h \<and> well_hashed hashf h) = holds_at H p (\<lambda>h. in_ix h \<and> well_hashed hashf h)"
  using assms by (cases "H p"; cases "H' p";
      auto simp: key_at_def hash_at_def holds_at_def ix_view_def bh_key_def well_hashed_def is_inited_def)+

lemma hti_ptrsI: "(a, p) \<in> elems (ix_table i) \<Longrightarrow> p \<in> hti_ptrs elems i"
  unfolding hti_ptrs_def by (rule image_eqI [of _ _ "(a, p)"]) simp_all

context hash_table
begin

lemma hti_elem:
  assumes "hti_ok ht_ok elems hashf H i" "p \<in> hti_ptrs elems i"
  obtains h k where "H p = Some h" "in_ix h" "well_hashed hashf h" "key_at H p = Some k"
    "(hashf k, p) \<in> elems (ix_table i)" "hash_at H p = hashf k"
proof -
  from assms obtain a where a: "(a, p) \<in> elems (ix_table i)" "hash_at H p = a"
      "holds_at H p (\<lambda>h. in_ix h \<and> well_hashed hashf h)"
    by (auto simp: hti_ok_def hti_ptrs_def)
  from a(3) obtain h where h: "H p = Some h" "in_ix h" "well_hashed hashf h" by (auto elim: holds_atE)
  from h(3) obtain k where "bh_key (base h) = Some k" "bh_hash (base h) = hashf k" by (rule well_hashed_key)
  with a h that show thesis by (simp add: key_at_def hash_at_def)
qed

lemma hti_find:
  assumes ok: "hti_ok ht_ok elems hashf H i"
  shows "ht_find ht (ix_table i) (hashf k) (\<lambda>q. key_at H q = Some k) = Some p \<longleftrightarrow>
    p \<in> hti_ptrs elems i \<and> key_at H p = Some k"
proof
  have t: "ht_ok (ix_table i)" using ok by (simp add: hti_ok_def)
  let ?find = "ht_find ht (ix_table i) (hashf k) (\<lambda>q. key_at H q = Some k)"
  show "p \<in> hti_ptrs elems i \<and> key_at H p = Some k" if "?find = Some p"
    using find_Some [OF t that] by (auto intro: hti_ptrsI)
  show "?find = Some p" if p: "p \<in> hti_ptrs elems i \<and> key_at H p = Some k"
  proof (cases ?find)
    case None
    obtain k' where "key_at H p = Some k'" "(hashf k', p) \<in> elems (ix_table i)"
      by (rule hti_elem [OF ok, of p]) (use p in auto)
    with find_None [OF t None, of p] p show ?thesis by simp
  next
    case (Some q)
    with find_Some [OF t Some] have "q \<in> hti_ptrs elems i" "key_at H q = Some k"
      by (auto intro: hti_ptrsI)
    moreover have "inj_on (key_at H) (hti_ptrs elems i)" using ok by (simp add: hti_ok_def hti_ptrs_def)
    ultimately have "q = p" using p by (simp add: inj_on_def)
    with Some show ?thesis by simp
  qed
qed

lemma hti_entry:
  assumes ok: "hti_ok ht_ok elems hashf H i"
  obtains t where "ht_entry ht (ix_table i) a eq (hash_at H) = (ht_find ht (ix_table i) a eq, t)"
    "ht_ok t" "elems t = elems (ix_table i)"
  using entry_find [of "ix_table i" "hash_at H" a eq] ok that by (fastforce simp: hti_ok_def)

lemma hti_frame:
  fixes H H' :: "('k, 'v, 'c, 'x) heap"
  assumes ok: "hti_ok ht_ok elems hashf H i"
    and view: "\<And>p. p \<in> hti_ptrs elems i \<Longrightarrow> map_option ix_view (H' p) = map_option ix_view (H p)"
  shows "hti_ok ht_ok elems hashf H' i"
proof -
  note v = ix_view_simps [of H' _ H, OF view]
  have "inj_on (key_at H') (hti_ptrs elems i)"
    using ok v(1) by (simp add: hti_ok_def hti_ptrs_def inj_on_def)
  moreover have "hash_at H' p = a \<and> holds_at H' p (\<lambda>h. in_ix h \<and> well_hashed hashf h)"
    if "(a, p) \<in> elems (ix_table i)" for a p
  proof -
    have "p \<in> hti_ptrs elems i" using that by (rule hti_ptrsI)
    with ok that v(2,3) [OF this] show ?thesis by (auto simp: hti_ok_def)
  qed
  ultimately show ?thesis using ok by (auto simp: hti_ok_def hti_ptrs_def)
qed

lemma hti_upd_other:
  assumes "hti_ok ht_ok elems hashf H i" "p \<notin> hti_ptrs elems i"
  shows "hti_ok ht_ok elems hashf (H(p := h)) i"
  by (rule hti_frame [OF assms(1)]) (use assms(2) in auto)

text \<open>A handle taken out of the table, and one put in.\<close>

lemma hti_ok_remove:
  assumes ok: "hti_ok ht_ok elems hashf H i" and p: "(a, p) \<in> elems (ix_table i)"
    and t: "ht_ok t" "elems t = elems (ix_table i) - {(a, p)}"
  shows "hti_ok ht_ok elems hashf (H(p := h)) (i\<lparr>ix_table := t\<rparr>)"
    "hti_ptrs elems (i\<lparr>ix_table := t\<rparr>) = hti_ptrs elems i - {p}"
proof -
  have u: "b = a" if "(b, p) \<in> elems (ix_table i)" for b
    using elems_unique [OF _ p that] ok by (simp add: hti_ok_def)
  show ptrs: "hti_ptrs elems (i\<lparr>ix_table := t\<rparr>) = hti_ptrs elems i - {p}"
  proof (intro equalityI subsetI)
    fix q assume "q \<in> hti_ptrs elems (i\<lparr>ix_table := t\<rparr>)"
    then obtain b where "(b, q) \<in> elems t" by (auto simp: hti_ptrs_def)
    then have "(b, q) \<in> elems (ix_table i)" "(b, q) \<noteq> (a, p)" using t(2) by blast+
    with u show "q \<in> hti_ptrs elems i - {p}" by (auto intro: hti_ptrsI)
  next
    fix q assume "q \<in> hti_ptrs elems i - {p}"
    then obtain b where "(b, q) \<in> elems (ix_table i)" "q \<noteq> p" by (auto simp: hti_ptrs_def)
    then show "q \<in> hti_ptrs elems (i\<lparr>ix_table := t\<rparr>)" using t(2) by (auto intro: hti_ptrsI)
  qed
  have "inj_on (key_at H) (snd ` elems t)"
    using ok t(2) by (auto simp: hti_ok_def intro: inj_on_subset)
  then have "hti_ok ht_ok elems hashf H (i\<lparr>ix_table := t\<rparr>)"
    using ok t by (auto simp: hti_ok_def)
  then show "hti_ok ht_ok elems hashf (H(p := h)) (i\<lparr>ix_table := t\<rparr>)"
    by (rule hti_upd_other) (simp add: ptrs)
qed

lemma hti_ok_insert:
  assumes ok: "hti_ok ht_ok elems hashf H i" and p: "H p = Some h" "in_ix h" "well_hashed hashf h"
      "bh_key (base h) = Some k" "p \<notin> hti_ptrs elems i"
    and new: "\<forall>q \<in> hti_ptrs elems i. key_at H q \<noteq> Some k"
    and t: "ht_ok t" "elems t = insert (hashf k, p) (elems (ix_table i))"
  shows "hti_ok ht_ok elems hashf H (i\<lparr>ix_table := t\<rparr>)"
    "hti_ptrs elems (i\<lparr>ix_table := t\<rparr>) = insert p (hti_ptrs elems i)"
proof -
  have k: "bh_hash (base h) = hashf k" using p by (simp add: well_hashed_def)
  show "hti_ptrs elems (i\<lparr>ix_table := t\<rparr>) = insert p (hti_ptrs elems i)"
    using t(2) by (simp add: hti_ptrs_def)
  have "inj_on (key_at H) (insert p (hti_ptrs elems i))"
    using ok new p by (auto simp: hti_ok_def hti_ptrs_def inj_on_insert key_at_Some)
  then show "hti_ok ht_ok elems hashf H (i\<lparr>ix_table := t\<rparr>)"
    using ok p k t by (auto simp: hti_ok_def hti_ptrs_def hash_at_def holds_at_Some)
qed

lemma hti_insert_ok:
  assumes ok: "hti_ok ht_ok elems hashf H i" and h: "H p = Some h" "well_hashed hashf h" "\<not> in_ix h"
    and p: "p \<notin> hti_ptrs elems i"
  shows "(\<exists>i'. hti_insert ht H i p = Some (None, H(p \<mapsto> mark_ix True h), i') \<and>
      (\<forall>q \<in> hti_ptrs elems i. key_at H q \<noteq> key_at H p) \<and>
      hti_ok ht_ok elems hashf (H(p \<mapsto> mark_ix True h)) i' \<and> hti_ptrs elems i' = insert p (hti_ptrs elems i)) \<or>
    (\<exists>old b i'. hti_insert ht H i p = Some (Some old, H(p \<mapsto> mark_ix True h, old \<mapsto> mark_ix False b), i') \<and>
      H old = Some b \<and> old \<in> hti_ptrs elems i \<and> key_at H old = key_at H p \<and>
      hti_ok ht_ok elems hashf (H(p \<mapsto> mark_ix True h, old \<mapsto> mark_ix False b)) i' \<and>
      hti_ptrs elems i' = insert p (hti_ptrs elems i - {old}))"
proof -
  define H1 where "H1 = H(p \<mapsto> mark_ix True h)"
  obtain k where k: "bh_key (base h) = Some k" "bh_hash (base h) = hashf k" using h(2) by (rule well_hashed_key)
  have ok1: "hti_ok ht_ok elems hashf H1 i" unfolding H1_def by (rule hti_upd_other [OF ok p])
  have key: "key_at H1 q = key_at H q" for q using h by (simp add: H1_def key_at_def)
  have kp: "key_at H p = Some k" using h k by (simp add: key_at_def)
  have H1p: "H1 p = Some (mark_ix True h)" "in_ix (mark_ix True h)" "well_hashed hashf (mark_ix True h)"
      "bh_key (base (mark_ix True h)) = Some k"
    using h k by (simp_all add: H1_def)
  have free: "\<forall>c. (c, p) \<notin> elems (ix_table i)" using p hti_ptrsI by metis
  obtain t where t: "ht_entry ht (ix_table i) (hashf k) (\<lambda>q. key_at H1 q = Some k) (hash_at H1) =
        (ht_find ht (ix_table i) (hashf k) (\<lambda>q. key_at H1 q = Some k), t)"
      "ht_ok t" "elems t = elems (ix_table i)"
    by (rule hti_entry [OF ok1])
  show ?thesis
  proof (cases "ht_find ht (ix_table i) (hashf k) (\<lambda>q. key_at H1 q = Some k)")
    case None
    let ?t' = "ht_vacant_insert ht t (hashf k) p"
    have new: "\<forall>q \<in> hti_ptrs elems i. key_at H1 q \<noteq> Some k" using hti_find [OF ok1, of k] None by auto
    have t': "ht_ok ?t'" "elems ?t' = insert (hashf k, p) (elems (ix_table i))"
      using insert_table [OF t(2), of p "hashf k"] t(3) free by simp_all
    have "hti_insert ht H i p = Some (None, H1, i\<lparr>ix_table := ?t'\<rparr>)"
      using h k t(1) None by (simp add: hti_insert_def H1_def [symmetric])
    with hti_ok_insert [OF ok1 H1p p new t'] new key kp show ?thesis by (simp add: H1_def)
  next
    case (Some old)
    then have old: "old \<in> hti_ptrs elems i" "key_at H1 old = Some k" using hti_find [OF ok1, of k] by auto
    obtain b k' where b: "H1 old = Some b" "in_ix b" "key_at H1 old = Some k'" "(hashf k', old) \<in> elems (ix_table i)"
      by (rule hti_elem [OF ok1 old(1)])
    have ne: "old \<noteq> p" using old(1) p by blast
    have el: "(hashf k, old) \<in> elems (ix_table i)" using b old(2) by simp
    define t1 where "t1 = ht_occupied_remove ht t old"
    have t1: "ht_ok t1" "elems t1 = elems (ix_table i) - {(hashf k, old)}"
      using remove_table [OF t(2), of "hashf k" old] el t(3) by (simp_all add: t1_def)
    let ?t' = "ht_occupied_swap ht t old p"
    have t': "ht_ok ?t'" "elems ?t' = insert (hashf k, p) (elems (ix_table (i\<lparr>ix_table := t1\<rparr>)))"
      using swap_table [OF t(2), of "hashf k" old p] el t(3) free t1(2) by simp_all
    let ?H2 = "H1(old \<mapsto> mark_ix False b)"
    note ok2 = hti_ok_remove(1) [OF ok1 el t1, of "Some (mark_ix False b)"] hti_ok_remove(2) [OF ok1 el t1]
    have "\<forall>q \<in> hti_ptrs elems (i\<lparr>ix_table := t1\<rparr>). key_at ?H2 q \<noteq> Some k"
    proof
      fix q assume "q \<in> hti_ptrs elems (i\<lparr>ix_table := t1\<rparr>)"
      then have "q \<in> hti_ptrs elems i" "q \<noteq> old" using ok2(2) by simp_all
      with hti_find [OF ok1, of k q] Some show "key_at ?H2 q \<noteq> Some k" by (simp add: key_at_upd)
    qed
    moreover have "?H2 p = Some (mark_ix True h)" using ne H1p(1) by simp
    moreover have "p \<notin> hti_ptrs elems (i\<lparr>ix_table := t1\<rparr>)" using p ok2(2) by simp
    ultimately have res: "hti_ok ht_ok elems hashf ?H2 (i\<lparr>ix_table := ?t'\<rparr>)"
        "hti_ptrs elems (i\<lparr>ix_table := ?t'\<rparr>) = insert p (hti_ptrs elems i - {old})"
      using hti_ok_insert [OF ok2(1) _ H1p(2,3,4) _ _ t'] ok2(2) by simp_all
    have "hti_insert ht H i p = Some (Some old, ?H2, i\<lparr>ix_table := ?t'\<rparr>)"
      using h k t(1) Some b by (simp add: hti_insert_def H1_def [symmetric])
    moreover have "H old = Some b" using b(1) ne by (simp add: H1_def)
    ultimately show ?thesis using res old key kp
      by (intro disjI2 exI [of _ old] exI [of _ b] exI [of _ "i\<lparr>ix_table := ?t'\<rparr>"]) (simp add: H1_def)
  qed
qed

lemma hti_remove_ok:
  assumes ok: "hti_ok ht_ok elems hashf H i"
  shows "(\<exists>i'. hti_remove ht H i (hashf k) k = Some (None, H, i') \<and>
      (\<forall>q \<in> hti_ptrs elems i. key_at H q \<noteq> Some k) \<and> hti_ok ht_ok elems hashf H i' \<and>
      hti_ptrs elems i' = hti_ptrs elems i) \<or>
    (\<exists>p h i'. hti_remove ht H i (hashf k) k = Some (Some p, H(p \<mapsto> mark_ix False h), i') \<and>
      H p = Some h \<and> p \<in> hti_ptrs elems i \<and> key_at H p = Some k \<and>
      hti_ok ht_ok elems hashf (H(p \<mapsto> mark_ix False h)) i' \<and> hti_ptrs elems i' = hti_ptrs elems i - {p})"
proof -
  obtain t where t: "ht_entry ht (ix_table i) (hashf k) (\<lambda>q. key_at H q = Some k) (hash_at H) =
        (ht_find ht (ix_table i) (hashf k) (\<lambda>q. key_at H q = Some k), t)"
      "ht_ok t" "elems t = elems (ix_table i)"
    by (rule hti_entry [OF ok])
  show ?thesis
  proof (cases "ht_find ht (ix_table i) (hashf k) (\<lambda>q. key_at H q = Some k)")
    case None
    then have "\<forall>q \<in> hti_ptrs elems i. key_at H q \<noteq> Some k" using hti_find [OF ok, of k] by auto
    with None t ok show ?thesis by (simp add: hti_remove_def hti_ok_def hti_ptrs_def)
  next
    case (Some p)
    then have p: "p \<in> hti_ptrs elems i" "key_at H p = Some k" using hti_find [OF ok, of k] by auto
    obtain h k' where h: "H p = Some h" "in_ix h" "key_at H p = Some k'" "(hashf k', p) \<in> elems (ix_table i)"
      by (rule hti_elem [OF ok p(1)])
    let ?t' = "ht_occupied_remove ht t p"
    have el: "(hashf k, p) \<in> elems (ix_table i)" using h p(2) by simp
    have t': "ht_ok ?t'" "elems ?t' = elems (ix_table i) - {(hashf k, p)}"
      using remove_table [OF t(2), of "hashf k" p] el t(3) by simp_all
    have "hti_remove ht H i (hashf k) k = Some (Some p, H(p \<mapsto> mark_ix False h), i\<lparr>ix_table := ?t'\<rparr>)"
      using t(1) Some h by (simp add: hti_remove_def)
    with hti_ok_remove [OF ok el t'] h p show ?thesis by simp
  qed
qed

lemma hti_drain_ok:
  assumes ok: "hti_ok ht_ok elems hashf H i"
  shows "\<exists>ps i'. hti_drain ht H i =
      Some (ps, \<lambda>p. if p \<in> hti_ptrs elems i then map_option (mark_ix False) (H p) else H p, i') \<and>
    distinct ps \<and> set ps = hti_ptrs elems i \<and> hti_ptrs elems i' = {} \<and>
    (\<forall>H'. hti_ok ht_ok elems hashf H' i')"
proof -
  obtain ps t where d: "ht_drain ht (ix_table i) = (ps, t)" by fastforce
  with drain_table [of "ix_table i"] ok have t: "distinct ps" "set ps = hti_ptrs elems i" "ht_ok t" "elems t = {}"
    by (auto simp: hti_ok_def hti_ptrs_def)
  have "unmark_all H ps = Some (\<lambda>p. if p \<in> set ps then map_option (mark_ix False) (H p) else H p)"
    by (rule unmark_all_eq) (use t(2) hti_elem [OF ok] in blast)
  with d t show ?thesis by (simp add: hti_drain_def hti_ok_def hti_ptrs_def)
qed

end

sublocale hash_table \<subseteq> hti: indexer "hti_ops ht" hashf "hti_ok ht_ok elems hashf" "hti_ptrs elems"
proof (unfold_locales, goal_cases)
  case (1 H i)
  then show ?case using elems_finite by (simp add: hti_ok_def hti_ptrs_def)
next
  case (2 H i p)
  then show ?case by (auto simp: hti_ok_def hti_ptrs_def)
next
  case (3 H i p q)
  then have "inj_on (key_at H) (hti_ptrs elems i)" by (simp add: hti_ok_def hti_ptrs_def)
  from inj_onD [OF this 3(4,2,3)] show ?case .
next
  case (4 H i H')
  then show ?case by (rule hti_frame)
next
  case (5 H)
  show ?case using new_table by (simp add: hti_ops_def hti_new_def hti_ok_def hti_ptrs_def)
next
  case (6 H i k p)
  then show ?case using hti_find by (simp add: hti_ops_def hti_get_def)
next
  case (7 H i p h)
  then show ?case using hti_insert_ok by (simp add: hti_ops_def)
next
  case (8 H i k)
  then show ?case using hti_remove_ok by (simp add: hti_ops_def)
next
  case (9 H i)
  then show ?case using hti_drain_ok by (simp add: hti_ops_def)
qed

context hash_table
begin

lemma hti_indexer: "indexer (hti_ops ht) hashf (hti_ok ht_ok elems hashf) (hti_ptrs elems)"
  by (rule hti.indexer_axioms)

end

section \<open>A table to run the model with\<close>

text \<open>The elements in a list, with their hashes.\<close>

definition al_table_find :: "(nat \<times> ptr) list \<Rightarrow> nat \<Rightarrow> (ptr \<Rightarrow> bool) \<Rightarrow> ptr option" where
  "al_table_find t a eq = map_option snd (List.find (\<lambda>(b, p). b = a \<and> eq p) t)"

definition al_table :: "(nat \<times> ptr) list hash_table_ops" where
  "al_table = \<lparr>ht_new = [], ht_find = al_table_find,
     ht_entry = (\<lambda>t a eq hasher. (al_table_find t a eq, t)),
     ht_occupied_swap = (\<lambda>t p q. map (\<lambda>(b, r). (b, if r = p then q else r)) t),
     ht_occupied_remove = (\<lambda>t p. filter (\<lambda>(b, r). r \<noteq> p) t),
     ht_vacant_insert = (\<lambda>t a p. t @ [(a, p)]), ht_drain = (\<lambda>t. (map snd t, []))\<rparr>"

abbreviation al_table_ok :: "(nat \<times> ptr) list \<Rightarrow> bool" where
  "al_table_ok t \<equiv> distinct (map snd t)"

lemma al_table_unique: "al_table_ok t \<Longrightarrow> (a, p) \<in> set t \<Longrightarrow> (b, p) \<in> set t \<Longrightarrow> a = b"
  by (metis distinct_map inj_onD snd_conv prod.inject)

lemma al_table_member:
  assumes "al_table_ok t" "(b, p) \<in> set t" "x \<in> set t"
  shows "snd x = p \<longleftrightarrow> x = (b, p)"
  using assms by (metis al_table_unique prod.collapse snd_conv)

lemma al_table_image:
  assumes ok: "al_table_ok t" and p: "(b, p) \<in> set t"
  shows "(\<lambda>(b, r). (b, if r = p then q else r)) ` set t = insert (b, q) (set t - {(b, p)})" (is "?f ` _ = _")
proof -
  have f: "?f x = (if x = (b, p) then (b, q) else x)" if "x \<in> set t" for x
    using al_table_member [OF ok p that] by (simp add: case_prod_unfold split: if_splits)
  have "?f ` set t = (\<lambda>x. if x = (b, p) then (b, q) else x) ` set t" by (rule image_cong [OF refl f])
  also have "\<dots> = insert (b, q) (set t - {(b, p)})" using p by auto
  finally show ?thesis .
qed

lemma al_table_swap:
  assumes ok: "al_table_ok t" and p: "(b, p) \<in> set t" and q: "\<forall>c. (c, q) \<notin> set t"
  shows "al_table_ok (map (\<lambda>(b, r). (b, if r = p then q else r)) t)"
    "set (map (\<lambda>(b, r). (b, if r = p then q else r)) t) = insert (b, q) (set t - {(b, p)})"
proof -
  have "q \<notin> set (map snd t)" using q by auto
  then have "inj_on (\<lambda>r. if r = p then q else r) (set (map snd t))" by (auto simp: inj_on_def)
  then have "distinct (map (\<lambda>r. if r = p then q else r) (map snd t))"
    using ok by (simp only: distinct_map comp_inj_on simp_thms set_map)
  then show "al_table_ok (map (\<lambda>(b, r). (b, if r = p then q else r)) t)"
    by (simp add: comp_def case_prod_unfold)
  show "set (map (\<lambda>(b, r). (b, if r = p then q else r)) t) = insert (b, q) (set t - {(b, p)})"
    unfolding set_map by (rule al_table_image [OF ok p])
qed

lemma al_table_find_Some: "al_table_find t a eq = Some p \<Longrightarrow> eq p \<and> (\<exists>b. (b, p) \<in> set t)"
  unfolding al_table_find_def by (induction t) (auto split: if_splits)

lemma al_table_find_None: "al_table_find t a eq = None \<Longrightarrow> (a, p) \<in> set t \<Longrightarrow> \<not> eq p"
  unfolding al_table_find_def by (induction t) (auto split: if_splits)

interpretation al: hash_table al_table al_table_ok set
proof (unfold_locales, goal_cases)
  case (1 t)
  show ?case by simp
next
  case (2 t a p b)
  from al_table_unique [OF 2] show ?case .
next
  case 3
  show ?case by (simp add: al_table_def)
next
  case (4 t a eq p)
  then show ?case using al_table_find_Some [of t a eq p] by (simp add: al_table_def)
next
  case (5 t a eq p)
  then show ?case using al_table_find_None [of t a eq p] by (simp add: al_table_def)
next
  case (6 t hasher a eq)
  then show ?case by (simp add: al_table_def)
next
  case (7 t b p q)
  then show ?case unfolding al_table_def hash_table_ops.simps by (intro conjI al_table_swap)
next
  case (8 t b p)
  have "set (filter (\<lambda>(b, r). r \<noteq> p) t) = set t - {(b, p)}"
    using al_table_member [OF 8] by (auto simp: case_prod_unfold)
  with 8 show ?case by (simp add: al_table_def distinct_map_filter)
next
  case (9 t p a)
  then have "p \<notin> set (map snd t)" by auto
  with 9 show ?case by (simp add: al_table_def)
next
  case (10 t ps t')
  then show ?case by (simp add: al_table_def) (metis list.set_map)
qed

end
