(* ===== verification/Cache_Shard.thy ===== *)
theory Cache_Shard
  imports Indexer
begin

text \<open>
  \<^verbatim>\<open>CacheShard\<close> of \<^verbatim>\<open>foyer-memory/src/generic.rs\<close>, with \<^verbatim>\<open>metrics.rs\<close> and the object pool. The
  eviction container, the indexer, the object pool (\<^verbatim>\<open>ArrayQueue\<close> of the crate \<^verbatim>\<open>crossbeam\<close>),
  the hasher and the conversions of the context are a record \<open>cache_deps\<close>, the type parameters of the
  code. A shard operation passes the state the shards share (the handles on the heap, the metrics, the
  pool) and the shard itself; \<open>None\<close> is a panic or undefined behaviour.

  \<open>shard_inv\<close> is the invariant of a shard: it names the handles that belong to the shard by the hashes it
  is responsible for, so that the shards of one cache share a heap. The lemmas of the locale
  \<open>cache_shard\<close> show that every operation is defined on a state with the invariant, keeps it, and
  leaves every handle that has an external reference where it is.
\<close>

section \<open>Definitions\<close>

record ('h, 'q) pool_ops =
  pool_new :: "usize \<Rightarrow> 'q option"
  pool_push :: "'q \<Rightarrow> 'h \<Rightarrow> 'q"
  pool_pop :: "'q \<Rightarrow> 'h option \<times> 'q"

record ('k, 'v, 'c, 'x, 'e, 'g, 'i, 'q) cache_deps =
  dep_ev :: "('k, 'v, 'c, 'x, 'e, 'g) eviction_ops"
  dep_ix :: "('k, 'v, 'c, 'x, 'i) indexer_ops"
  dep_pool :: "(('k, 'v, 'c, 'x) handle, 'q) pool_ops"
  dep_hash :: "'k \<Rightarrow> nat"
  dep_from :: "CacheContext \<Rightarrow> 'c"
  dep_into :: "'c \<Rightarrow> CacheContext"

text \<open>\<^verbatim>\<open>fetch_add\<close> and \<^verbatim>\<open>fetch_sub\<close> of an \<^verbatim>\<open>AtomicUsize\<close> wrap around.\<close>

definition fetch_add :: "usize \<Rightarrow> usize \<Rightarrow> usize" where
  "fetch_add n a = (n + a) mod usize_lim"

definition fetch_sub :: "usize \<Rightarrow> usize \<Rightarrow> usize" where
  "fetch_sub n a = (n + (usize_lim - a mod usize_lim)) mod usize_lim"

record Metrics =
  m_insert :: usize
  m_replace :: usize
  m_hit :: usize
  m_miss :: usize
  m_fetch :: usize
  m_queue :: usize
  m_remove :: usize
  m_evict :: usize
  m_reinsert :: usize
  m_release :: usize

definition Metrics_default :: Metrics where
  "Metrics_default = \<lparr>m_insert = 0, m_replace = 0, m_hit = 0, m_miss = 0, m_fetch = 0, m_queue = 0,
     m_remove = 0, m_evict = 0, m_reinsert = 0, m_release = 0\<rparr>"

text \<open>The state the shards share; \<open>cs_next\<close> is the address the next \<^verbatim>\<open>Box::into_raw\<close> gives.\<close>

record ('k, 'v, 'c, 'x, 'q) CacheSharedState =
  cs_heap :: "('k, 'v, 'c, 'x) heap"
  cs_next :: ptr
  cs_pool :: 'q
  cs_metrics :: Metrics

record ('k, 'e, 'i) CacheShard =
  sh_indexer :: 'i
  sh_eviction :: 'e
  sh_capacity :: usize
  sh_usage :: usize
  sh_waiters :: "'k \<rightharpoonup> nat list"

type_synonym ('k, 'v, 'c) entry = "'k \<times> 'v \<times> 'c \<times> usize"

definition shard_new :: "('k, 'v, 'c, 'x, 'e, 'g, 'i, 'q) cache_deps \<Rightarrow> usize \<Rightarrow> 'g \<Rightarrow>
    ('k, 'e, 'i) CacheShard option" where
  "shard_new d capacity config = do {
     e \<leftarrow> ev_new (dep_ev d) capacity config;
     Some \<lparr>sh_indexer = ix_new (dep_ix d), sh_eviction = e, sh_capacity = capacity, sh_usage = 0,
       sh_waiters = Map.empty\<rparr>
   }"

text \<open>The parts of \<^verbatim>\<open>try_release_handle\<close>, in their order: reinsertion, removal from the indexer and
  the container, release.\<close>

definition release_reinsert :: "('k, 'v, 'c, 'x, 'e, 'g, 'i, 'q) cache_deps \<Rightarrow>
    ('k, 'v, 'c, 'x, 'q) CacheSharedState \<Rightarrow> ('k, 'e, 'i) CacheShard \<Rightarrow> ptr \<Rightarrow>
    (bool \<times> ('k, 'v, 'c, 'x, 'q) CacheSharedState \<times> ('k, 'e, 'i) CacheShard) option" where
  "release_reinsert d S s p = do {
     h \<leftarrow> cs_heap S p;
     let was_in_eviction = in_ev h;
     (H, e) \<leftarrow> ev_reinsert (dep_ev d) (cs_heap S) (sh_eviction s) p;
     h' \<leftarrow> H p;
     let S' = S\<lparr>cs_heap := H\<rparr>;
     let s' = s\<lparr>sh_eviction := e\<rparr>;
     if in_ev h' then
       Some (True, if was_in_eviction then cs_metrics_update (m_reinsert_update (\<lambda>n. fetch_add n 1)) S' else S', s')
     else Some (False, S', s')
   }"

definition release_unlink :: "('k, 'v, 'c, 'x, 'e, 'g, 'i, 'q) cache_deps \<Rightarrow>
    ('k, 'v, 'c, 'x, 'q) CacheSharedState \<Rightarrow> ('k, 'e, 'i) CacheShard \<Rightarrow> ptr \<Rightarrow>
    (('k, 'v, 'c, 'x, 'q) CacheSharedState \<times> ('k, 'e, 'i) CacheShard) option" where
  "release_unlink d S s p = do {
     h \<leftarrow> cs_heap S p;
     k \<leftarrow> bh_key (base h);
     (r, H, i) \<leftarrow> ix_remove (dep_ix d) (cs_heap S) (sh_indexer s) (bh_hash (base h)) k;
     h' \<leftarrow> H p;
     (H', e) \<leftarrow> (if in_ev h' then ev_remove (dep_ev d) H (sh_eviction s) p else Some (H, sh_eviction s));
     Some (S\<lparr>cs_heap := H'\<rparr>, s\<lparr>sh_indexer := i, sh_eviction := e\<rparr>)
   }"

definition release_finish :: "('k, 'v, 'c, 'x, 'e, 'g, 'i, 'q) cache_deps \<Rightarrow>
    ('k, 'v, 'c, 'x, 'q) CacheSharedState \<Rightarrow> ('k, 'e, 'i) CacheShard \<Rightarrow> ptr \<Rightarrow>
    (('k, 'v, 'c) entry option \<times> ('k, 'v, 'c, 'x, 'q) CacheSharedState \<times> ('k, 'e, 'i) CacheShard) option" where
  "release_finish d S s p = do {
     h \<leftarrow> cs_heap S p;
     ensure (\<not> in_ix h);
     ensure (\<not> in_ev h);
     ensure (\<not> has_refs (base h));
     let S1 = cs_metrics_update (m_release_update (\<lambda>n. fetch_add n 1)) S;
     let s' = s\<lparr>sh_usage := fetch_sub (sh_usage s) (hcharge h)\<rparr>;
     (entry, b) \<leftarrow> bh_take (base h);
     Some (Some entry, S1\<lparr>cs_heap := (cs_heap S1)(p := None),
       cs_pool := pool_push (dep_pool d) (cs_pool S1) (h\<lparr>base := b\<rparr>)\<rparr>, s')
   }"

definition try_release_handle :: "('k, 'v, 'c, 'x, 'e, 'g, 'i, 'q) cache_deps \<Rightarrow>
    ('k, 'v, 'c, 'x, 'q) CacheSharedState \<Rightarrow> ('k, 'e, 'i) CacheShard \<Rightarrow> ptr \<Rightarrow> bool \<Rightarrow>
    (('k, 'v, 'c) entry option \<times> ('k, 'v, 'c, 'x, 'q) CacheSharedState \<times> ('k, 'e, 'i) CacheShard) option" where
  "try_release_handle d S s p reinsert = do {
     h \<leftarrow> cs_heap S p;
     if has_refs (base h) then Some (None, S, s)
     else do {
       ensure (is_inited (base h));
       if in_ix h then do {
         (kept, S1, s1) \<leftarrow>
           (if reinsert \<and> sh_usage s \<le> sh_capacity s then release_reinsert d S s p else Some (False, S, s));
         if kept then Some (None, S1, s1)
         else do {
           (S2, s2) \<leftarrow> release_unlink d S1 s1 p;
           release_finish d S2 s2 p
         }
       }
       else release_finish d S s p
     }
   }"

definition try_release_external_handle :: "('k, 'v, 'c, 'x, 'e, 'g, 'i, 'q) cache_deps \<Rightarrow>
    ('k, 'v, 'c, 'x, 'q) CacheSharedState \<Rightarrow> ('k, 'e, 'i) CacheShard \<Rightarrow> ptr \<Rightarrow>
    (('k, 'v, 'c) entry option \<times> ('k, 'v, 'c, 'x, 'q) CacheSharedState \<times> ('k, 'e, 'i) CacheShard) option" where
  "try_release_external_handle d S s p = do {
     h \<leftarrow> cs_heap S p;
     (r, b) \<leftarrow> dec_refs (base h);
     try_release_handle d (S\<lparr>cs_heap := (cs_heap S)(p \<mapsto> h\<lparr>base := b\<rparr>)\<rparr>) s p True
   }"

text \<open>One round of the loop of \<^verbatim>\<open>evict\<close>; the flag says whether the loop goes on.\<close>

definition push_entry :: "'a list \<Rightarrow> 'a option \<Rightarrow> 'a list" where
  "push_entry lre entry = (case entry of None \<Rightarrow> lre | Some x \<Rightarrow> lre @ [x])"

definition evict_round :: "('k, 'v, 'c, 'x, 'e, 'g, 'i, 'q) cache_deps \<Rightarrow> usize \<Rightarrow>
    ('k, 'v, 'c) entry list \<Rightarrow> ('k, 'v, 'c, 'x, 'q) CacheSharedState \<Rightarrow> ('k, 'e, 'i) CacheShard \<Rightarrow>
    (bool \<times> ('k, 'v, 'c) entry list \<times> ('k, 'v, 'c, 'x, 'q) CacheSharedState \<times> ('k, 'e, 'i) CacheShard) option" where
  "evict_round d charge lre S s = do {
     u \<leftarrow> uadd (sh_usage s) charge;
     if u > sh_capacity s then do {
       (r, H, e) \<leftarrow> ev_pop (dep_ev d) (cs_heap S) (sh_eviction s);
       let S1 = S\<lparr>cs_heap := H\<rparr>;
       let s1 = s\<lparr>sh_eviction := e\<rparr>;
       (case r of
          None \<Rightarrow> Some (False, lre, S1, s1)
        | Some evicted \<Rightarrow> do {
            let S2 = cs_metrics_update (m_evict_update (\<lambda>n. fetch_add n 1)) S1;
            h \<leftarrow> cs_heap S2 evicted;
            ensure (in_ix h);
            ensure (\<not> in_ev h);
            (entry, S3, s3) \<leftarrow> try_release_handle d S2 s1 evicted False;
            Some (True, push_entry lre entry, S3, s3)
          })
     }
     else Some (False, lre, S, s)
   }"

partial_function (option) shard_evict :: "('k, 'v, 'c, 'x, 'e, 'g, 'i, 'q) cache_deps \<Rightarrow> usize \<Rightarrow>
    ('k, 'v, 'c) entry list \<Rightarrow> ('k, 'v, 'c, 'x, 'q) CacheSharedState \<Rightarrow> ('k, 'e, 'i) CacheShard \<Rightarrow>
    (('k, 'v, 'c) entry list \<times> ('k, 'v, 'c, 'x, 'q) CacheSharedState \<times> ('k, 'e, 'i) CacheShard) option" where
  "shard_evict d charge lre S s = do {
     (more, lre', S', s') \<leftarrow> evict_round d charge lre S s;
     if more then shard_evict d charge lre' S' s' else Some (lre', S', s')
   }"

declare shard_evict.simps [code]

definition insert_alloc :: "('k, 'v, 'c, 'x, 'e, 'g, 'i, 'q) cache_deps \<Rightarrow>
    ('k, 'v, 'c, 'x, 'q) CacheSharedState \<Rightarrow> nat \<Rightarrow> 'k \<Rightarrow> 'v \<Rightarrow> usize \<Rightarrow> 'c \<Rightarrow>
    (ptr \<times> ('k, 'v, 'c, 'x, 'q) CacheSharedState) option" where
  "insert_alloc d S hash key value charge context = (case pool_pop (dep_pool d) (cs_pool S) of
     (pooled, pool) \<Rightarrow> do {
       let handle = (case pooled of Some h \<Rightarrow> h | None \<Rightarrow> ev_handle_new (dep_ev d));
       handle' \<leftarrow> handle_init handle hash key value charge context;
       let p = cs_next S;
       Some (p, S\<lparr>cs_heap := (cs_heap S)(p \<mapsto> handle'), cs_next := p + 1, cs_pool := pool\<rparr>)
     })"

definition insert_replace :: "('k, 'v, 'c, 'x, 'e, 'g, 'i, 'q) cache_deps \<Rightarrow>
    ('k, 'v, 'c) entry list \<Rightarrow> ('k, 'v, 'c, 'x, 'q) CacheSharedState \<Rightarrow> ('k, 'e, 'i) CacheShard \<Rightarrow> ptr \<Rightarrow>
    (('k, 'v, 'c) entry list \<times> ('k, 'v, 'c, 'x, 'q) CacheSharedState \<times> ('k, 'e, 'i) CacheShard) option" where
  "insert_replace d lre S s old = do {
     let S1 = cs_metrics_update (m_replace_update (\<lambda>n. fetch_add n 1)) S;
     b \<leftarrow> cs_heap S1 old;
     ensure (\<not> in_ix b);
     (H, e) \<leftarrow> (if in_ev b then ev_remove (dep_ev d) (cs_heap S1) (sh_eviction s) old
                else Some (cs_heap S1, sh_eviction s));
     b' \<leftarrow> H old;
     ensure (\<not> in_ev b');
     (entry, S2, s2) \<leftarrow> try_release_handle d (S1\<lparr>cs_heap := H\<rparr>) (s\<lparr>sh_eviction := e\<rparr>) old False;
     Some (push_entry lre entry, S2, s2)
   }"

definition insert_link :: "('k, 'v, 'c, 'x, 'e, 'g, 'i, 'q) cache_deps \<Rightarrow>
    ('k, 'v, 'c) entry list \<Rightarrow> ('k, 'v, 'c, 'x, 'q) CacheSharedState \<Rightarrow> ('k, 'e, 'i) CacheShard \<Rightarrow> ptr \<Rightarrow>
    (('k, 'v, 'c) entry list \<times> ('k, 'v, 'c, 'x, 'q) CacheSharedState \<times> ('k, 'e, 'i) CacheShard) option" where
  "insert_link d lre S s p = do {
     h \<leftarrow> cs_heap S p;
     ensure (\<not> in_ix h);
     (old, H, i) \<leftarrow> ix_insert (dep_ix d) (cs_heap S) (sh_indexer s) p;
     let S1 = S\<lparr>cs_heap := H\<rparr>;
     let s1 = s\<lparr>sh_indexer := i\<rparr>;
     (case old of
        Some q \<Rightarrow> insert_replace d lre S1 s1 q
      | None \<Rightarrow> Some (lre, cs_metrics_update (m_insert_update (\<lambda>n. fetch_add n 1)) S1, s1))
   }"

definition insert_push :: "('k, 'v, 'c, 'x, 'e, 'g, 'i, 'q) cache_deps \<Rightarrow>
    ('k, 'v, 'c, 'x, 'q) CacheSharedState \<Rightarrow> ('k, 'e, 'i) CacheShard \<Rightarrow> ptr \<Rightarrow> usize \<Rightarrow>
    (('k, 'v, 'c, 'x, 'q) CacheSharedState \<times> ('k, 'e, 'i) CacheShard) option" where
  "insert_push d S s p charge = do {
     (H, e) \<leftarrow> ev_push (dep_ev d) (cs_heap S) (sh_eviction s) p;
     h \<leftarrow> H p;
     ensure (in_ix h);
     (r, b) \<leftarrow> inc_refs (base h);
     Some (S\<lparr>cs_heap := H(p \<mapsto> h\<lparr>base := b\<rparr>)\<rparr>,
       s\<lparr>sh_eviction := e, sh_usage := fetch_add (sh_usage s) charge\<rparr>)
   }"

definition shard_insert :: "('k, 'v, 'c, 'x, 'e, 'g, 'i, 'q) cache_deps \<Rightarrow>
    ('k, 'v, 'c, 'x, 'q) CacheSharedState \<Rightarrow> ('k, 'e, 'i) CacheShard \<Rightarrow>
    nat \<Rightarrow> 'k \<Rightarrow> 'v \<Rightarrow> usize \<Rightarrow> 'c \<Rightarrow> ('k, 'v, 'c) entry list \<Rightarrow>
    (ptr \<times> ('k, 'v, 'c) entry list \<times> ('k, 'v, 'c, 'x, 'q) CacheSharedState \<times> ('k, 'e, 'i) CacheShard) option" where
  "shard_insert d S s hash key value charge context lre = do {
     (p, S1) \<leftarrow> insert_alloc d S hash key value charge context;
     (lre2, S2, s2) \<leftarrow> shard_evict d charge lre S1 s;
     (lre3, S3, s3) \<leftarrow> insert_link d lre2 S2 s2 p;
     (S4, s4) \<leftarrow> insert_push d S3 s3 p charge;
     Some (p, lre3, S4, s4)
   }"

definition shard_get :: "('k, 'v, 'c, 'x, 'e, 'g, 'i, 'q) cache_deps \<Rightarrow>
    ('k, 'v, 'c, 'x, 'q) CacheSharedState \<Rightarrow> ('k, 'e, 'i) CacheShard \<Rightarrow> nat \<Rightarrow> 'k \<Rightarrow>
    (ptr option \<times> ('k, 'v, 'c, 'x, 'q) CacheSharedState \<times> ('k, 'e, 'i) CacheShard) option" where
  "shard_get d S s hash key = (case ix_get (dep_ix d) (cs_heap S) (sh_indexer s) hash key of
       None \<Rightarrow> Some (None, cs_metrics_update (m_miss_update (\<lambda>n. fetch_add n 1)) S, s)
     | Some p \<Rightarrow> do {
         let S1 = cs_metrics_update (m_hit_update (\<lambda>n. fetch_add n 1)) S;
         h \<leftarrow> cs_heap S1 p;
         ensure (in_ix h);
         (r, b) \<leftarrow> inc_refs (base h);
         (H, e) \<leftarrow> ev_access (dep_ev d) ((cs_heap S1)(p \<mapsto> h\<lparr>base := b\<rparr>)) (sh_eviction s) p;
         Some (Some p, S1\<lparr>cs_heap := H\<rparr>, s\<lparr>sh_eviction := e\<rparr>)
       })"

definition shard_remove :: "('k, 'v, 'c, 'x, 'e, 'g, 'i, 'q) cache_deps \<Rightarrow>
    ('k, 'v, 'c, 'x, 'q) CacheSharedState \<Rightarrow> ('k, 'e, 'i) CacheShard \<Rightarrow> nat \<Rightarrow> 'k \<Rightarrow>
    (('k, 'v, 'c) entry option \<times> ('k, 'v, 'c, 'x, 'q) CacheSharedState \<times> ('k, 'e, 'i) CacheShard) option" where
  "shard_remove d S s hash key = do {
     (r, H, i) \<leftarrow> ix_remove (dep_ix d) (cs_heap S) (sh_indexer s) hash key;
     (case r of
        None \<Rightarrow> Some (None, S\<lparr>cs_heap := H\<rparr>, s\<lparr>sh_indexer := i\<rparr>)
      | Some p \<Rightarrow> do {
          let S1 = cs_metrics_update (m_remove_update (\<lambda>n. fetch_add n 1)) (S\<lparr>cs_heap := H\<rparr>);
          h \<leftarrow> H p;
          (H', e) \<leftarrow> (if in_ev h then ev_remove (dep_ev d) H (sh_eviction s) p else Some (H, sh_eviction s));
          h' \<leftarrow> H' p;
          ensure (\<not> in_ix h');
          ensure (\<not> in_ev h');
          try_release_handle d (S1\<lparr>cs_heap := H'\<rparr>) (s\<lparr>sh_indexer := i, sh_eviction := e\<rparr>) p False
        })
   }"

fun clear_release :: "('k, 'v, 'c, 'x, 'e, 'g, 'i, 'q) cache_deps \<Rightarrow> ('k, 'v, 'c) entry list \<Rightarrow>
    ('k, 'v, 'c, 'x, 'q) CacheSharedState \<Rightarrow> ('k, 'e, 'i) CacheShard \<Rightarrow> ptr list \<Rightarrow>
    (('k, 'v, 'c) entry list \<times> ('k, 'v, 'c, 'x, 'q) CacheSharedState \<times> ('k, 'e, 'i) CacheShard) option" where
  "clear_release d lre S s [] = Some (lre, S, s)"
| "clear_release d lre S s (p # ps) = do {
     h \<leftarrow> cs_heap S p;
     ensure (\<not> in_ix h);
     (entry, S', s') \<leftarrow> try_release_handle d S s p False;
     clear_release d (push_entry lre entry) S' s' ps
   }"

definition shard_clear :: "('k, 'v, 'c, 'x, 'e, 'g, 'i, 'q) cache_deps \<Rightarrow> ('k, 'v, 'c) entry list \<Rightarrow>
    ('k, 'v, 'c, 'x, 'q) CacheSharedState \<Rightarrow> ('k, 'e, 'i) CacheShard \<Rightarrow>
    (('k, 'v, 'c) entry list \<times> ('k, 'v, 'c, 'x, 'q) CacheSharedState \<times> ('k, 'e, 'i) CacheShard) option" where
  "shard_clear d lre S s = do {
     (ps, H, i) \<leftarrow> ix_drain (dep_ix d) (cs_heap S) (sh_indexer s);
     (eptrs, H', e) \<leftarrow> ev_clear (dep_ev d) H (sh_eviction s);
     ensure (set eptrs \<subseteq> set ps);
     let S' = cs_metrics_update (m_remove_update (\<lambda>n. fetch_add n (length ps))) (S\<lparr>cs_heap := H'\<rparr>);
     clear_release d lre S' (s\<lparr>sh_indexer := i, sh_eviction := e\<rparr>) ps
   }"

section \<open>The invariant of a shard\<close>

text \<open>What the object pool's documentation promises: it gives back what was put into it.\<close>

locale object_pool =
  fixes pool :: "('h, 'q) pool_ops"
    and contents :: "'q \<Rightarrow> 'h set"
  assumes pool_new_empty: "pool_new pool n = Some q \<Longrightarrow> contents q = {}"
    and pool_push_contents: "contents (pool_push pool q h) \<subseteq> insert h (contents q)"
    and pool_pop_contents: "pool_pop pool q = (r, q') \<Longrightarrow>
      contents q' \<subseteq> contents q \<and> (\<forall>h. r = Some h \<longrightarrow> h \<in> contents q)"

text \<open>The abstraction functions and invariants of the components a shard is built from.\<close>

record ('k, 'v, 'c, 'x, 'e, 'i, 'q) cache_spec =
  sp_ev_ok :: "('k, 'v, 'c, 'x) heap \<Rightarrow> 'e \<Rightarrow> bool"
  sp_ev_ptrs :: "'e \<Rightarrow> ptr list"
  sp_clean :: "'x \<Rightarrow> bool"
  sp_ix_ok :: "('k, 'v, 'c, 'x) heap \<Rightarrow> 'i \<Rightarrow> bool"
  sp_ix_ptrs :: "'i \<Rightarrow> ptr set"
  sp_pool :: "'q \<Rightarrow> ('k, 'v, 'c, 'x) handle set"

definition own :: "(nat \<Rightarrow> bool) \<Rightarrow> ('k, 'v, 'c, 'x) heap \<Rightarrow> ptr set" where
  "own mine H = {p. \<exists>h. H p = Some h \<and> mine (bh_hash (base h))}"

text \<open>
  The handles of a shard are those whose hash is \<open>mine\<close>. In the middle of an operation a handle may be
  on the heap and not yet counted in the usage (\<open>U\<close>), without reference and not in the container
  (\<open>X\<close>), or in the container and no longer in the indexer (\<open>Y\<close>). Between operations the three sets
  are empty: then every handle without an external reference is in the eviction container, and the
  usage exceeds the capacity only while every handle is referenced externally.
\<close>

definition handle_inv :: "('k, 'v, 'c, 'x, 'e, 'i, 'q) cache_spec \<Rightarrow> ('k \<Rightarrow> nat) \<Rightarrow> ptr set \<Rightarrow>
    ('k, 'e, 'i) CacheShard \<Rightarrow> ptr \<Rightarrow> ('k, 'v, 'c, 'x) handle \<Rightarrow> bool" where
  "handle_inv a hashf X s p h \<longleftrightarrow> well_hashed hashf h \<and>
     (in_ix h \<longleftrightarrow> p \<in> sp_ix_ptrs a (sh_indexer s)) \<and>
     (in_ev h \<longleftrightarrow> p \<in> set (sp_ev_ptrs a (sh_eviction s))) \<and>
     (\<not> in_ev h \<longrightarrow> sp_clean a (hext h)) \<and>
     (has_refs (base h) \<or> in_ev h \<or> p \<in> X)"

definition shard_inv :: "('k, 'v, 'c, 'x, 'e, 'i, 'q) cache_spec \<Rightarrow> ('k \<Rightarrow> nat) \<Rightarrow> (nat \<Rightarrow> bool) \<Rightarrow>
    ptr set \<Rightarrow> ptr set \<Rightarrow> ptr set \<Rightarrow> ('k, 'v, 'c, 'x) heap \<Rightarrow> ('k, 'e, 'i) CacheShard \<Rightarrow> bool" where
  "shard_inv a hashf mine U X Y H s \<longleftrightarrow>
     sp_ev_ok a H (sh_eviction s) \<and> sp_ix_ok a H (sh_indexer s) \<and>
     set (sp_ev_ptrs a (sh_eviction s)) \<subseteq> sp_ix_ptrs a (sh_indexer s) \<union> Y \<and>
     set (sp_ev_ptrs a (sh_eviction s)) \<subseteq> own mine H \<and> sp_ix_ptrs a (sh_indexer s) \<subseteq> own mine H \<and>
     finite (own mine H) \<and>
     (\<forall>p h. H p = Some h \<longrightarrow> mine (bh_hash (base h)) \<longrightarrow> handle_inv a hashf X s p h) \<and>
     sh_usage s = sum (charge_at H) (own mine H - U) \<and> sh_usage s < usize_lim \<and>
     (sh_usage s \<le> sh_capacity s \<or> (\<forall>p \<in> own mine H - X. holds_at H p (\<lambda>h. has_refs (base h))))"

definition shared_inv :: "('k, 'v, 'c, 'x, 'e, 'i, 'q) cache_spec \<Rightarrow>
    ('k, 'v, 'c, 'x, 'q) CacheSharedState \<Rightarrow> bool" where
  "shared_inv a S \<longleftrightarrow> (\<forall>p \<in> dom (cs_heap S). p < cs_next S) \<and>
     (\<forall>h \<in> sp_pool a (cs_pool S). \<not> is_inited (base h) \<and> sp_clean a (hext h))"

lemma shard_invD:
  assumes "shard_inv a hashf mine U X Y H s"
  shows "sp_ev_ok a H (sh_eviction s)" and "sp_ix_ok a H (sh_indexer s)"
    and "set (sp_ev_ptrs a (sh_eviction s)) \<subseteq> sp_ix_ptrs a (sh_indexer s) \<union> Y"
    and "set (sp_ev_ptrs a (sh_eviction s)) \<subseteq> own mine H" and "sp_ix_ptrs a (sh_indexer s) \<subseteq> own mine H"
    and "finite (own mine H)"
    and "H p = Some h \<Longrightarrow> mine (bh_hash (base h)) \<Longrightarrow> handle_inv a hashf X s p h"
    and "sh_usage s = sum (charge_at H) (own mine H - U)" and "sh_usage s < usize_lim"
    and "sh_usage s \<le> sh_capacity s \<or> (\<forall>p \<in> own mine H - X. holds_at H p (\<lambda>h. has_refs (base h)))"
  using assms unfolding shard_inv_def by blast+

lemma shard_invI:
  assumes "sp_ev_ok a H (sh_eviction s)" and "sp_ix_ok a H (sh_indexer s)"
    and "set (sp_ev_ptrs a (sh_eviction s)) \<subseteq> sp_ix_ptrs a (sh_indexer s) \<union> Y"
    and "set (sp_ev_ptrs a (sh_eviction s)) \<subseteq> own mine H" and "sp_ix_ptrs a (sh_indexer s) \<subseteq> own mine H"
    and "finite (own mine H)"
    and "\<And>p h. H p = Some h \<Longrightarrow> mine (bh_hash (base h)) \<Longrightarrow> handle_inv a hashf X s p h"
    and "sh_usage s = sum (charge_at H) (own mine H - U)" and "sh_usage s < usize_lim"
    and "sh_usage s \<le> sh_capacity s \<or> (\<forall>p \<in> own mine H - X. holds_at H p (\<lambda>h. has_refs (base h)))"
  shows "shard_inv a hashf mine U X Y H s"
  using assms unfolding shard_inv_def by blast

lemma own_iff: "H p = Some h \<Longrightarrow> p \<in> own mine H \<longleftrightarrow> mine (bh_hash (base h))"
  by (simp add: own_def)

lemma ownE: "p \<in> own mine H \<Longrightarrow> (\<And>h. H p = Some h \<Longrightarrow> mine (bh_hash (base h)) \<Longrightarrow> thesis) \<Longrightarrow> thesis"
  by (auto simp: own_def)

lemma own_cong:
  assumes "\<And>q. map_option (bh_hash \<circ> base) (H' q) = map_option (bh_hash \<circ> base) (H q)"
  shows "own mine H' = own mine H"
proof -
  have "q \<in> own mine H' \<longleftrightarrow> q \<in> own mine H" for q
    using assms [of q] by (cases "H q"; cases "H' q") (auto simp: own_def)
  then show ?thesis by blast
qed

text \<open>What the holder of an entry can see of it, and what may happen to the handles of a shard while it
  works: a handle keeps that view or, when nobody refers to it, is freed; the handles of other shards
  stay as they are.\<close>

definition client_view :: "('k, 'v, 'c, 'x) handle \<Rightarrow> ('k \<times> 'v \<times> 'c) option \<times> nat \<times> usize \<times> usize" where
  "client_view h = (bh_entry (base h), bh_hash (base h), bh_charge (base h), bh_refs (base h))"

definition evolves :: "(nat \<Rightarrow> bool) \<Rightarrow> ('k, 'v, 'c, 'x) heap \<Rightarrow> ('k, 'v, 'c, 'x) heap \<Rightarrow> bool" where
  "evolves mine H H' \<longleftrightarrow> (\<forall>q. case H q of None \<Rightarrow> H' q = None
     | Some h \<Rightarrow> if mine (bh_hash (base h))
         then (case H' q of None \<Rightarrow> \<not> has_refs (base h) | Some h' \<Rightarrow> client_view h' = client_view h)
         else H' q = Some h)"

definition entry_at :: "('k, 'v, 'c, 'x) heap \<Rightarrow> ptr \<Rightarrow> ('k, 'v, 'c) entry option" where
  "entry_at H p = (case H p of None \<Rightarrow> None
     | Some h \<Rightarrow> map_option (\<lambda>(k, v, c). (k, v, c, bh_charge (base h))) (bh_entry (base h)))"

text \<open>The entries \<open>xs\<close> are those of the handles freed on the way, each once.\<close>

definition freed :: "('k, 'v, 'c, 'x) heap \<Rightarrow> ('k, 'v, 'c, 'x) heap \<Rightarrow> ('k, 'v, 'c) entry list \<Rightarrow> bool" where
  "freed H H' xs \<longleftrightarrow> (\<exists>ps. distinct ps \<and> set ps \<subseteq> dom H \<and> dom H' = dom H - set ps \<and>
     map (entry_at H) ps = map Some xs)"

lemma evolves_refl [simp]: "evolves mine H H"
  by (auto simp: evolves_def split: option.splits)

lemma evolves_None: "evolves mine H H' \<Longrightarrow> H q = None \<Longrightarrow> H' q = None"
  unfolding evolves_def by (drule spec [of _ q]) simp

lemma evolves_other: "evolves mine H H' \<Longrightarrow> H q = Some h \<Longrightarrow> \<not> mine (bh_hash (base h)) \<Longrightarrow> H' q = Some h"
  unfolding evolves_def by (drule spec [of _ q]) simp

lemma evolves_mine:
  "evolves mine H H' \<Longrightarrow> H q = Some h \<Longrightarrow>
   (H' q = None \<and> \<not> has_refs (base h)) \<or> (\<exists>h'. H' q = Some h' \<and> client_view h' = client_view h)"
  unfolding evolves_def by (drule spec [of _ q]) (auto split: option.splits if_splits)

lemma evolvesI:
  assumes "\<And>q. H q = None \<Longrightarrow> H' q = None"
    and "\<And>q h. H q = Some h \<Longrightarrow> mine (bh_hash (base h)) \<Longrightarrow>
      (H' q = None \<and> \<not> has_refs (base h)) \<or> (\<exists>h'. H' q = Some h' \<and> client_view h' = client_view h)"
    and "\<And>q h. H q = Some h \<Longrightarrow> \<not> mine (bh_hash (base h)) \<Longrightarrow> H' q = Some h"
  shows "evolves mine H H'"
  unfolding evolves_def
proof
  fix q
  show "case H q of None \<Rightarrow> H' q = None | Some h \<Rightarrow> if mine (bh_hash (base h))
         then (case H' q of None \<Rightarrow> \<not> has_refs (base h) | Some h' \<Rightarrow> client_view h' = client_view h)
         else H' q = Some h"
    using assms [of q] by (cases "H q"; cases "H' q") auto
qed

lemma evolvesD:
  assumes "evolves mine H H'" "H' q = Some h'"
  obtains h where "H q = Some h" "client_view h' = client_view h"
proof (cases "H q")
  case None
  with evolves_None [OF assms(1)] assms(2) show thesis by simp
next
  case (Some h)
  with evolves_mine [OF assms(1) Some] assms(2) that show thesis by auto
qed

lemma evolves_refs:
  assumes "evolves mine H H'" "H q = Some h" "has_refs (base h)"
  obtains h' where "H' q = Some h'" "client_view h' = client_view h"
  using evolves_mine [OF assms(1,2)] assms(3) by blast

lemma client_view_hash: "client_view h' = client_view h \<Longrightarrow> bh_hash (base h') = bh_hash (base h)"
  by (simp add: client_view_def)

lemma client_view_refs: "client_view h' = client_view h \<Longrightarrow> has_refs (base h') = has_refs (base h)"
  by (simp add: client_view_def has_refs_def)

lemma evolves_trans:
  assumes 1: "evolves mine H H1" and 2: "evolves mine H1 H2"
  shows "evolves mine H H2"
proof (rule evolvesI)
  show "H2 q = None" if "H q = None" for q
    using evolves_None [OF 2 evolves_None [OF 1 that]] .
  show "H2 q = Some h" if "H q = Some h" "\<not> mine (bh_hash (base h))" for q h
    using evolves_other [OF 2 evolves_other [OF 1 that] that(2)] .
  show "(H2 q = None \<and> \<not> has_refs (base h)) \<or> (\<exists>h'. H2 q = Some h' \<and> client_view h' = client_view h)"
    if q: "H q = Some h" "mine (bh_hash (base h))" for q h
    using evolves_mine [OF 1 q(1)]
  proof (elim disjE conjE exE)
    assume "H1 q = None" "\<not> has_refs (base h)"
    with evolves_None [OF 2] show ?thesis by blast
  next
    fix h1 assume h1: "H1 q = Some h1" "client_view h1 = client_view h"
    from evolves_mine [OF 2 h1(1)] client_view_refs [OF h1(2)] h1(2) show ?thesis by auto
  qed
qed

lemma handle_core_view: "handle_core h' = handle_core h \<Longrightarrow> client_view h' = client_view h"
  by (simp add: handle_core_def client_view_def)

lemma evolves_heap_upd:
  assumes "heap_upd H H' T" "T \<subseteq> own mine H"
  shows "evolves mine H H'"
proof (rule evolvesI)
  show "H' q = None" if "H q = None" for q using heap_upd_core [OF assms(1), of q] that by simp
  show "H' q = Some h" if "H q = Some h" "\<not> mine (bh_hash (base h))" for q h
  proof -
    have "q \<notin> T" using assms(2) that by (auto simp: own_def)
    with heap_upd_other [OF assms(1)] that show ?thesis by simp
  qed
  show "(H' q = None \<and> \<not> has_refs (base h)) \<or> (\<exists>h'. H' q = Some h' \<and> client_view h' = client_view h)"
    if "H q = Some h" for q h
    by (rule heap_upd_get [OF assms(1) that]) (auto dest: handle_core_view)
qed

lemma evolves_upd:
  assumes "H p = Some h" "mine (bh_hash (base h))" "client_view h' = client_view h"
  shows "evolves mine H (H(p \<mapsto> h'))"
  using assms by (auto simp: evolves_def split: option.splits)

lemma evolves_free:
  assumes "H p = Some h" "mine (bh_hash (base h))" "\<not> has_refs (base h)"
  shows "evolves mine H (H(p := None))"
  using assms by (auto simp: evolves_def split: option.splits)

lemma evolves_entry_at: "evolves mine H H' \<Longrightarrow> H' q \<noteq> None \<Longrightarrow> entry_at H' q = entry_at H q"
  by (erule not_None_eq [THEN iffD1, elim_format]) (auto simp: entry_at_def client_view_def elim: evolvesD)

lemma freed_Nil: "dom H' = dom H \<Longrightarrow> freed H H' []"
  by (auto simp: freed_def intro!: exI [of _ "[]"])

lemma freed_trans:
  assumes 1: "freed H H1 xs" and 2: "freed H1 H2 ys" and ev: "evolves mine H H1"
  shows "freed H H2 (xs @ ys)"
proof -
  obtain ps where ps: "distinct ps" "set ps \<subseteq> dom H" "dom H1 = dom H - set ps" "map (entry_at H) ps = map Some xs"
    using 1 unfolding freed_def by blast
  obtain qs where qs: "distinct qs" "set qs \<subseteq> dom H1" "dom H2 = dom H1 - set qs" "map (entry_at H1) qs = map Some ys"
    using 2 unfolding freed_def by blast
  have "map (entry_at H1) qs = map (entry_at H) qs"
    using qs(2) evolves_entry_at [OF ev] by (intro map_cong [OF refl]) blast
  with ps qs show ?thesis unfolding freed_def by (intro exI [of _ "ps @ qs"]) auto
qed

lemma evolves_own: "evolves mine H H' \<Longrightarrow> own mine H' = own mine H \<inter> dom H'"
proof (intro equalityI subsetI)
  assume ev: "evolves mine H H'"
  fix q assume "q \<in> own mine H'"
  then obtain h' where h': "H' q = Some h'" "mine (bh_hash (base h'))" by (rule ownE)
  obtain h where "H q = Some h" "client_view h' = client_view h" by (rule evolvesD [OF ev h'(1)])
  with h' show "q \<in> own mine H \<inter> dom H'" by (auto simp: own_def dest: client_view_hash)
next
  assume ev: "evolves mine H H'"
  fix q assume "q \<in> own mine H \<inter> dom H'"
  then obtain h h' where h: "H q = Some h" "mine (bh_hash (base h))" "H' q = Some h'" by (auto simp: own_def)
  with evolves_mine [OF ev h(1)] show "q \<in> own mine H'" by (auto simp: own_def dest: client_view_hash)
qed

end
