(* ===== verification/Shard_Inv.thy ===== *)
theory Shard_Inv
  imports Cache_Shard
begin

text \<open>
  The operations of a cache shard keep its invariant. The locale \<open>cache_shard_core\<close> puts the contracts
  of the eviction container, the indexer and the object pool side by side; \<open>cache_shard\<close> asks for the
  full contract of the container, which \<^verbatim>\<open>evict\<close> and \<^verbatim>\<open>clear\<close> need. The lemmas of the first section
  say what one change of a component does to the invariant; the sections after it follow the operations.
\<close>

locale cache_shard_core =
  ev: eviction_core "dep_ev d" "sp_ev_ok a" "sp_ev_ptrs a" "sp_clean a" +
  ix: indexer "dep_ix d" "dep_hash d" "sp_ix_ok a" "sp_ix_ptrs a" +
  pool: object_pool "dep_pool d" "sp_pool a"
  for d :: "('k, 'v, 'c, 'x, 'e, 'g, 'i, 'q) cache_deps"
    and a :: "('k, 'v, 'c, 'x, 'e, 'i, 'q) cache_spec"

lemma core_ix_view: "handle_core h' = handle_core h \<Longrightarrow> ix_view h' = ix_view h"
  by (simp add: handle_core_def ix_view_def)

lemma core_well_hashed: "handle_core h' = handle_core h \<Longrightarrow> well_hashed hashf h' = well_hashed hashf h"
  by (simp add: handle_core_def well_hashed_def bh_key_def is_inited_def)

lemma core_refs: "handle_core h' = handle_core h \<Longrightarrow> has_refs (base h') = has_refs (base h)"
  by (simp add: handle_core_def has_refs_def)

lemma core_in_ix: "handle_core h' = handle_core h \<Longrightarrow> in_ix h' = in_ix h"
  by (simp add: handle_core_def)

lemma core_hash: "handle_core h' = handle_core h \<Longrightarrow> bh_hash (base h') = bh_hash (base h)"
  by (simp add: handle_core_def)

lemma heap_upd_back:
  assumes "heap_upd H H' T" "H' q = Some h'"
  obtains h where "H q = Some h" "handle_core h' = handle_core h" "q \<notin> T \<longrightarrow> h' = h"
  using heap_upd_core [OF assms(1), of q] heap_upd_other [OF assms(1), of q] assms(2) by (cases "H q") auto

lemma heap_upd_own: "heap_upd H H' T \<Longrightarrow> own mine H' = own mine H"
proof (rule own_cong)
  fix q assume "heap_upd H H' T"
  from heap_upd_core [OF this, of q]
  show "map_option (bh_hash \<circ> base) (H' q) = map_option (bh_hash \<circ> base) (H q)"
    by (cases "H q"; cases "H' q") (auto dest: core_hash)
qed

lemma heap_upd_refs_at:
  assumes "heap_upd H H' T"
  shows "holds_at H' q (\<lambda>h. has_refs (base h)) = holds_at H q (\<lambda>h. has_refs (base h))"
  using heap_upd_core [OF assms, of q]
  by (cases "H q"; cases "H' q") (auto simp: holds_at_def dest: core_refs)

section \<open>One change of one component\<close>

context cache_shard_core
begin

lemma inv_eviction:
  assumes inv: "shard_inv a (dep_hash d) mine U X Y H s"
    and upd: "heap_upd H H' T" "T \<subseteq> own mine H" and e': "sp_ev_ok a H' e'"
    and out: "\<And>p. p \<notin> T \<Longrightarrow> p \<in> set (sp_ev_ptrs a e') \<longleftrightarrow> p \<in> set (sp_ev_ptrs a (sh_eviction s))"
    and sub: "set (sp_ev_ptrs a e') \<subseteq> sp_ix_ptrs a (sh_indexer s) \<union> Y'" "set (sp_ev_ptrs a e') \<subseteq> own mine H"
    and let_go: "\<And>p. p \<in> T \<Longrightarrow> p \<notin> set (sp_ev_ptrs a e') \<Longrightarrow> evictable (sp_clean a) H' p"
    and X: "X \<union> (set (sp_ev_ptrs a (sh_eviction s)) - set (sp_ev_ptrs a e')) \<subseteq> X'"
  shows "shard_inv a (dep_hash d) mine U X' Y' H' (s\<lparr>sh_eviction := e'\<rparr>)"
proof (rule shard_invI)
  note I = shard_invD [OF inv]
  have own: "own mine H' = own mine H" by (rule heap_upd_own [OF upd(1)])
  show "sp_ev_ok a H' (sh_eviction (s\<lparr>sh_eviction := e'\<rparr>))" using e' by simp
  show "sp_ix_ok a H' (sh_indexer (s\<lparr>sh_eviction := e'\<rparr>))"
  proof (simp, rule ix.ix_frame [OF I(2)])
    fix p
    show "map_option ix_view (H' p) = map_option ix_view (H p)"
      using heap_upd_core [OF upd(1), of p] by (cases "H p"; cases "H' p") (auto dest: core_ix_view)
  qed
  show "handle_inv a (dep_hash d) X' (s\<lparr>sh_eviction := e'\<rparr>) p h'"
    if p: "H' p = Some h'" "mine (bh_hash (base h'))" for p h'
  proof -
    obtain h where h: "H p = Some h" "handle_core h' = handle_core h" "p \<notin> T \<longrightarrow> h' = h"
      by (rule heap_upd_back [OF upd(1) p(1)])
    have hi: "handle_inv a (dep_hash d) X s p h" using I(7) [OF h(1)] p(2) core_hash [OF h(2)] by simp
    have "in_ev h' \<longleftrightarrow> p \<in> set (sp_ev_ptrs a e')" "in_ev h' \<or> sp_clean a (hext h')"
      using ev.ok_member [OF e', of p] let_go [of p] out [of p] h(3) hi p(1)
      by (cases "p \<in> T"; auto simp: evictable_iff handle_inv_def)+
    moreover have "has_refs (base h') \<or> p \<in> set (sp_ev_ptrs a e') \<or> p \<in> X'"
      using hi X core_refs [OF h(2)] by (auto simp: handle_inv_def)
    ultimately show ?thesis
      using hi core_well_hashed [OF h(2)] core_in_ix [OF h(2)] by (auto simp: handle_inv_def)
  qed
  show "sh_usage (s\<lparr>sh_eviction := e'\<rparr>) = sum (charge_at H') (own mine H' - U)"
    using I(8) own heap_upd_charge_at [OF upd(1)] by simp
  show "sh_usage (s\<lparr>sh_eviction := e'\<rparr>) \<le> sh_capacity (s\<lparr>sh_eviction := e'\<rparr>) \<or>
      (\<forall>p \<in> own mine H' - X'. holds_at H' p (\<lambda>h. has_refs (base h)))"
    using I(10) X own heap_upd_refs_at [OF upd(1)] by auto
qed (use shard_invD [OF inv] sub heap_upd_own [OF upd(1)] in auto)

lemma inv_indexer:
  assumes inv: "shard_inv a (dep_hash d) mine U X Y H s"
    and H': "\<And>q. H' q = (if q \<in> T then map_option (mark_ix (q \<in> sp_ix_ptrs a i')) (H q) else H q)"
    and i': "sp_ix_ok a H' i'"
    and out: "\<And>q. q \<notin> T \<Longrightarrow> q \<in> sp_ix_ptrs a i' \<longleftrightarrow> q \<in> sp_ix_ptrs a (sh_indexer s)"
    and sub: "sp_ix_ptrs a i' \<subseteq> own mine H" "set (sp_ev_ptrs a (sh_eviction s)) \<subseteq> sp_ix_ptrs a i' \<union> Y'"
  shows "shard_inv a (dep_hash d) mine U X Y' H' (s\<lparr>sh_indexer := i'\<rparr>)"
proof (rule shard_invI)
  note I = shard_invD [OF inv]
  have own: "own mine H' = own mine H" using H' by (intro own_cong) (auto simp: option.map_comp comp_def)
  show "sp_ev_ok a H' (sh_eviction (s\<lparr>sh_indexer := i'\<rparr>))"
    using H' by (simp, intro ev.ok_frame [OF I(1)]) (auto simp: option.map_comp comp_def)
  show "sp_ix_ok a H' (sh_indexer (s\<lparr>sh_indexer := i'\<rparr>))" using i' by simp
  show "handle_inv a (dep_hash d) X (s\<lparr>sh_indexer := i'\<rparr>) p h'"
    if p: "H' p = Some h'" "mine (bh_hash (base h'))" for p h'
  proof (cases "p \<in> T")
    case True
    then obtain h where h: "H p = Some h" "h' = mark_ix (p \<in> sp_ix_ptrs a i') h" using H' [of p] p by (cases "H p") auto
    with I(7) [OF h(1)] p(2) show ?thesis by (auto simp: handle_inv_def has_refs_def)
  next
    case False
    with H' [of p] out [OF False] I(7) [of p h'] p show ?thesis by (auto simp: handle_inv_def)
  qed
  have c: "charge_at H' q = charge_at H q" for q using H' [of q] by (cases "H q") (auto simp: charge_at_def)
  show "sh_usage (s\<lparr>sh_indexer := i'\<rparr>) = sum (charge_at H') (own mine H' - U)" using I(8) own c by simp
  have "holds_at H' q (\<lambda>h. has_refs (base h)) = holds_at H q (\<lambda>h. has_refs (base h))" for q
    using H' [of q] by (cases "H q") (auto simp: holds_at_def has_refs_def)
  then show "sh_usage (s\<lparr>sh_indexer := i'\<rparr>) \<le> sh_capacity (s\<lparr>sh_indexer := i'\<rparr>) \<or>
      (\<forall>p \<in> own mine H' - X. holds_at H' p (\<lambda>h. has_refs (base h)))"
    using I(10) own by auto
  show "set (sp_ev_ptrs a (sh_eviction (s\<lparr>sh_indexer := i'\<rparr>))) \<subseteq> own mine H'" using I(4) own by simp
  show "finite (own mine H')" using I(6) own by simp
  show "sp_ix_ptrs a (sh_indexer (s\<lparr>sh_indexer := i'\<rparr>)) \<subseteq> own mine H'" using sub own by simp
qed (use shard_invD(9) [OF inv] sub in auto)

lemma inv_free:
  assumes inv: "shard_inv a (dep_hash d) mine U (insert p X) Y H s"
    and p: "H p = Some h" "mine (bh_hash (base h))" "\<not> in_ix h" "\<not> in_ev h" "p \<notin> U"
  shows "shard_inv a (dep_hash d) mine U X Y (H(p := None)) (s\<lparr>sh_usage := sh_usage s - hcharge h\<rparr>)"
    "hcharge h \<le> sh_usage s"
proof -
  note I = shard_invD [OF inv]
  have hi: "handle_inv a (dep_hash d) (insert p X) s p h" using I(7) p by simp
  have out: "p \<notin> set (sp_ev_ptrs a (sh_eviction s))" "p \<notin> sp_ix_ptrs a (sh_indexer s)"
    using hi p by (auto simp: handle_inv_def)
  have own: "own mine (H(p := None)) = own mine H - {p}" by (auto simp: own_def)
  have pown: "p \<in> own mine H" using p by (simp add: own_def)
  have cp: "charge_at H p = hcharge h" using p by (simp add: charge_at_def)
  have sum: "sum (charge_at H) (own mine H - U) = hcharge h + sum (charge_at H) (own mine H - U - {p})"
    using sum.remove [of "own mine H - U" p "charge_at H"] I(6) pown p(5) cp by simp
  show le: "hcharge h \<le> sh_usage s" using sum I(8) by simp
  show "shard_inv a (dep_hash d) mine U X Y (H(p := None)) (s\<lparr>sh_usage := sh_usage s - hcharge h\<rparr>)"
  proof (rule shard_invI)
    show "sp_ev_ok a (H(p := None)) (sh_eviction (s\<lparr>sh_usage := sh_usage s - hcharge h\<rparr>))"
      using out by (simp, intro ev.ok_frame [OF I(1)]) auto
    show "sp_ix_ok a (H(p := None)) (sh_indexer (s\<lparr>sh_usage := sh_usage s - hcharge h\<rparr>))"
      using out by (simp, intro ix.ix_frame [OF I(2)]) auto
    show "handle_inv a (dep_hash d) X (s\<lparr>sh_usage := sh_usage s - hcharge h\<rparr>) q hq"
      if "(H(p := None)) q = Some hq" "mine (bh_hash (base hq))" for q hq
    proof -
      have "q \<noteq> p" "H q = Some hq" using that(1) by (simp_all split: if_splits)
      with I(7) [of q hq] that(2) show ?thesis by (simp add: handle_inv_def) blast
    qed
    have "sum (charge_at (H(p := None))) (own mine H - U - {p}) = sum (charge_at H) (own mine H - U - {p})"
      by (rule sum.cong) (auto simp: charge_at_def)
    moreover have "own mine (H(p := None)) - U = own mine H - U - {p}" using own by blast
    ultimately show "sh_usage (s\<lparr>sh_usage := sh_usage s - hcharge h\<rparr>) =
        sum (charge_at (H(p := None))) (own mine (H(p := None)) - U)"
      using sum I(8) by simp
    show "sh_usage (s\<lparr>sh_usage := sh_usage s - hcharge h\<rparr>) \<le> sh_capacity (s\<lparr>sh_usage := sh_usage s - hcharge h\<rparr>) \<or>
        (\<forall>q \<in> own mine (H(p := None)) - X. holds_at (H(p := None)) q (\<lambda>h. has_refs (base h)))"
      using I(10)
    proof
      assume "\<forall>q \<in> own mine H - insert p X. holds_at H q (\<lambda>h. has_refs (base h))"
      then show ?thesis unfolding own by (simp add: holds_at_def)
    qed (simp add: le_diff_conv)
    show "finite (own mine (H(p := None)))" using I(6) own by simp
    show "sh_usage (s\<lparr>sh_usage := sh_usage s - hcharge h\<rparr>) < usize_lim" using I(9) by simp
  qed (use I(3,4,5) out own in \<open>simp_all add: subset_Diff_insert\<close>)
qed

lemma inv_refs:
  assumes inv: "shard_inv a (dep_hash d) mine U X Y H s" and p: "H p = Some h" "mine (bh_hash (base h))"
    and X': "X - {p} \<subseteq> X'" "r = 0 \<Longrightarrow> p \<in> X'"
  shows "shard_inv a (dep_hash d) mine U X' Y (H(p \<mapsto> h\<lparr>base := (base h)\<lparr>bh_refs := r\<rparr>\<rparr>)) s"
proof -
  note I = shard_invD [OF inv]
  let ?h' = "h\<lparr>base := (base h)\<lparr>bh_refs := r\<rparr>\<rparr>"
  let ?H' = "H(p \<mapsto> ?h')"
  have own: "own mine ?H' = own mine H" using p by (intro own_cong) auto
  have c: "charge_at ?H' q = charge_at H q" for q using p by (simp add: charge_at_def)
  have views: "map_option ev_view (?H' q) = map_option ev_view (H q)" "map_option ix_view (?H' q) = map_option ix_view (H q)" for q
    using p by (auto simp: ev_view_def ix_view_def)
  show ?thesis
  proof (rule shard_invI)
    show "sp_ev_ok a ?H' (sh_eviction s)" using views by (intro ev.ok_frame [OF I(1)])
    show "sp_ix_ok a ?H' (sh_indexer s)" using views by (intro ix.ix_frame [OF I(2)])
    show "handle_inv a (dep_hash d) X' s q hq" if q: "?H' q = Some hq" "mine (bh_hash (base hq))" for q hq
    proof (cases "q = p")
      case True
      with I(7) [OF p] q X' show ?thesis by (auto simp: handle_inv_def well_hashed_def has_refs_def)
    next
      case False
      with I(7) [of q hq] q X' show ?thesis by (auto simp: handle_inv_def)
    qed
    show "sh_usage s = sum (charge_at ?H') (own mine ?H' - U)" using I(8) own c by simp
    show "sh_usage s \<le> sh_capacity s \<or> (\<forall>q \<in> own mine ?H' - X'. holds_at ?H' q (\<lambda>h. has_refs (base h)))"
      unfolding own using I(10) X' by (auto simp: has_refs_def)
  qed (use I(3,4,5,6,9) own in auto)
qed

lemma inv_shrink:
  assumes inv: "shard_inv a (dep_hash d) mine U (insert p X) Y H s" and p: "H p = Some h"
    and h: "has_refs (base h) \<or> in_ev h \<and> sh_usage s \<le> sh_capacity s"
  shows "shard_inv a (dep_hash d) mine U X Y H s"
proof (rule shard_invI)
  note I = shard_invD [OF inv]
  show "handle_inv a (dep_hash d) X s q hq" if "H q = Some hq" "mine (bh_hash (base hq))" for q hq
    using I(7) [OF that] that h p by (cases "q = p") (auto simp: handle_inv_def)
  show "sh_usage s \<le> sh_capacity s \<or> (\<forall>q \<in> own mine H - X. holds_at H q (\<lambda>h. has_refs (base h)))"
    using I(10) h p by (auto simp: holds_at_Some)
qed (use shard_invD [OF inv] in auto)

lemma inv_alloc:
  assumes inv: "shard_inv a (dep_hash d) mine {} {} {} H s" and p: "H p = None"
    and h: "well_hashed (dep_hash d) h" "mine (bh_hash (base h))" "\<not> in_ix h" "\<not> in_ev h" "sp_clean a (hext h)"
  shows "shard_inv a (dep_hash d) mine {p} {p} {} (H(p \<mapsto> h)) s"
proof -
  note I = shard_invD [OF inv]
  have own: "own mine (H(p \<mapsto> h)) = insert p (own mine H)" "p \<notin> own mine H" using p h by (auto simp: own_def)
  have out: "p \<notin> set (sp_ev_ptrs a (sh_eviction s))" "p \<notin> sp_ix_ptrs a (sh_indexer s)"
    using own(2) I(4,5) by auto
  show ?thesis
  proof (rule shard_invI)
    show "sp_ev_ok a (H(p \<mapsto> h)) (sh_eviction s)" using out by (intro ev.ok_frame [OF I(1)]) auto
    show "sp_ix_ok a (H(p \<mapsto> h)) (sh_indexer s)" using out by (intro ix.ix_frame [OF I(2)]) auto
    show "handle_inv a (dep_hash d) {p} s q hq" if "(H(p \<mapsto> h)) q = Some hq" "mine (bh_hash (base hq))" for q hq
      using that I(7) [of q hq] h out by (cases "q = p") (auto simp: handle_inv_def)
    have "sum (charge_at (H(p \<mapsto> h))) (own mine H) = sum (charge_at H) (own mine H)"
      using own(2) by (intro sum.cong) auto
    then show "sh_usage s = sum (charge_at (H(p \<mapsto> h))) (own mine (H(p \<mapsto> h)) - {p})"
      using I(8) own by simp
    show "sh_usage s \<le> sh_capacity s \<or>
        (\<forall>q \<in> own mine (H(p \<mapsto> h)) - {p}. holds_at (H(p \<mapsto> h)) q (\<lambda>h. has_refs (base h)))"
      using I(10) own by auto
  qed (use I(3,4,5,6,9) own in auto)
qed

end

section \<open>Releasing a handle\<close>

text \<open>A step of a shard that hands the entries \<open>xs\<close> back.\<close>

definition shard_step :: "('k, 'v, 'c, 'x, 'e, 'i, 'q) cache_spec \<Rightarrow> (nat \<Rightarrow> bool) \<Rightarrow> ('k, 'v, 'c) entry list \<Rightarrow>
    ('k, 'v, 'c, 'x, 'q) CacheSharedState \<Rightarrow> ('k, 'e, 'i) CacheShard \<Rightarrow>
    ('k, 'v, 'c, 'x, 'q) CacheSharedState \<Rightarrow> ('k, 'e, 'i) CacheShard \<Rightarrow> bool" where
  "shard_step a mine xs S s S' s' \<longleftrightarrow> evolves mine (cs_heap S) (cs_heap S') \<and> freed (cs_heap S) (cs_heap S') xs \<and>
     cs_next S' = cs_next S \<and> sh_capacity s' = sh_capacity s \<and> sh_waiters s' = sh_waiters s \<and>
     sh_usage s' \<le> sh_usage s \<and> sp_ix_ptrs a (sh_indexer s') \<subseteq> sp_ix_ptrs a (sh_indexer s)"

lemma shard_step_refl: "shard_step a mine [] S s S s"
  by (simp add: shard_step_def freed_Nil)

lemma shard_step_trans:
  "shard_step a mine xs S s S1 s1 \<Longrightarrow> shard_step a mine ys S1 s1 S2 s2 \<Longrightarrow> shard_step a mine (xs @ ys) S s S2 s2"
  unfolding shard_step_def by (auto intro: evolves_trans freed_trans)

lemma shard_step_same_dom:
  assumes "evolves mine (cs_heap S) (cs_heap S')" "dom (cs_heap S') = dom (cs_heap S)" "cs_next S' = cs_next S"
    "sh_capacity s' = sh_capacity s" "sh_waiters s' = sh_waiters s" "sh_usage s' = sh_usage s"
    "sp_ix_ptrs a (sh_indexer s') \<subseteq> sp_ix_ptrs a (sh_indexer s)"
  shows "shard_step a mine [] S s S' s'"
  using assms by (simp add: shard_step_def freed_Nil)

lemma fetch_sub_le:
  assumes "a \<le> n" "n < usize_lim"
  shows "fetch_sub n a = n - a"
proof -
  have "n + (usize_lim - a mod usize_lim) = n - a + usize_lim" using assms by simp
  then have "fetch_sub n a = (n - a) mod usize_lim" unfolding fetch_sub_def by (simp only: mod_add_self2)
  then show ?thesis using assms by simp
qed

lemma fetch_add_lt: "n + a < usize_lim \<Longrightarrow> fetch_add n a = n + a"
  by (simp add: fetch_add_def)

lemma heap_upd_shared:
  assumes "shared_inv a S" "dom H' \<subseteq> dom (cs_heap S)"
  shows "shared_inv a (S\<lparr>cs_heap := H'\<rparr>)"
  using assms by (auto simp: shared_inv_def)

lemma shared_inv_metrics [simp]: "shared_inv a (cs_metrics_update f S) = shared_inv a S"
  by (simp add: shared_inv_def)

context cache_shard_core
begin

lemma release_finish_ok:
  assumes inv: "shard_inv a (dep_hash d) mine U (insert p X) Y (cs_heap S) s" and sh: "shared_inv a S"
    and p: "cs_heap S p = Some h" "mine (bh_hash (base h))" "\<not> in_ix h" "\<not> in_ev h" "p \<notin> U" "\<not> has_refs (base h)"
  shows "\<exists>x S' s'. release_finish d S s p = Some (Some x, S', s') \<and>
    shard_inv a (dep_hash d) mine U X Y (cs_heap S') s' \<and> shared_inv a S' \<and>
    shard_step a mine [x] S s S' s' \<and> cs_heap S' = (cs_heap S)(p := None) \<and>
    sh_indexer s' = sh_indexer s \<and> sh_eviction s' = sh_eviction s"
proof -
  note I = shard_invD [OF inv]
  have hi: "handle_inv a (dep_hash d) (insert p X) s p h" using I(7) p by simp
  then obtain k v c where e: "bh_entry (base h) = Some (k, v, c)"
    by (auto simp: handle_inv_def well_hashed_def is_inited_def)
  note free = inv_free [OF inv p(1,2,3,4,5)]
  let ?S' = "cs_metrics_update (m_release_update (\<lambda>n. fetch_add n 1)) S\<lparr>cs_heap := (cs_heap S)(p := None),
    cs_pool := pool_push (dep_pool d) (cs_pool S) (h\<lparr>base := (base h)\<lparr>bh_entry := None\<rparr>\<rparr>)\<rparr>"
  let ?s' = "s\<lparr>sh_usage := sh_usage s - hcharge h\<rparr>"
  have res: "release_finish d S s p = Some (Some (k, v, c, hcharge h), ?S', ?s')"
    using p e free(2) I(9) by (simp add: release_finish_def bh_take_def fetch_sub_le)
  have sh': "shared_inv a ?S'"
  proof -
    have "\<forall>g \<in> sp_pool a (cs_pool ?S'). \<not> is_inited (base g) \<and> sp_clean a (hext g)"
      using pool.pool_push_contents [of "cs_pool S" "h\<lparr>base := (base h)\<lparr>bh_entry := None\<rparr>\<rparr>"] sh hi p(4)
      by (auto simp: shared_inv_def handle_inv_def is_inited_def)
    then show ?thesis using sh by (auto simp: shared_inv_def)
  qed
  have "freed (cs_heap S) ((cs_heap S)(p := None)) [(k, v, c, hcharge h)]"
    unfolding freed_def using p(1) e by (intro exI [of _ "[p]"]) (auto simp: entry_at_def)
  moreover have "evolves mine (cs_heap S) ((cs_heap S)(p := None))" using p(1,2,6) by (rule evolves_free)
  ultimately have "shard_step a mine [(k, v, c, hcharge h)] S s ?S' ?s'" by (simp add: shard_step_def)
  with res free sh' show ?thesis
    by (intro exI [of _ "(k, v, c, hcharge h)"] exI [of _ ?S'] exI [of _ ?s']) simp
qed

lemma indexed_self:
  assumes "shard_inv a (dep_hash d) mine U X Y H s" "p \<in> sp_ix_ptrs a (sh_indexer s)" "H p = Some h"
  obtains k i' where "bh_key (base h) = Some k" "bh_hash (base h) = dep_hash d k"
    "ix_remove (dep_ix d) H (sh_indexer s) (dep_hash d k) k = Some (Some p, H(p \<mapsto> mark_ix False h), i')"
    "sp_ix_ok a (H(p \<mapsto> mark_ix False h)) i'" "sp_ix_ptrs a i' = sp_ix_ptrs a (sh_indexer s) - {p}"
proof -
  note I = shard_invD [OF assms(1)]
  have "well_hashed (dep_hash d) h" using ix.ix_member [OF I(2) assms(2)] assms(3) by (simp add: holds_at_Some)
  then obtain k where k: "bh_key (base h) = Some k" "bh_hash (base h) = dep_hash d k" by (rule well_hashed_key)
  have kp: "key_at H p = Some k" using assms(3) k by (simp add: key_at_def)
  show thesis
    using ix.ix_remove_ok [OF I(2), of k]
  proof (elim disjE exE conjE)
    fix q hq i'
    assume q: "ix_remove (dep_ix d) H (sh_indexer s) (dep_hash d k) k = Some (Some q, H(q \<mapsto> mark_ix False hq), i')"
      "H q = Some hq" "q \<in> sp_ix_ptrs a (sh_indexer s)" "key_at H q = Some k"
      "sp_ix_ok a (H(q \<mapsto> mark_ix False hq)) i'" "sp_ix_ptrs a i' = sp_ix_ptrs a (sh_indexer s) - {q}"
    have "q = p" using ix.ix_key_unique [OF I(2) q(3) assms(2)] q(4) kp by simp
    with q assms(3) that [OF k] show thesis by simp
  qed (use assms(2) kp in auto)
qed

text \<open>Taking a handle that has left the indexer out of the eviction container, if it is there.\<close>

lemma leave_eviction:
  assumes inv: "shard_inv a (dep_hash d) mine U X (insert p Y) H s" and p: "H p = Some h" "mine (bh_hash (base h))"
    and out: "\<not> in_ix h"
  obtains H' e' where "(if in_ev h then ev_remove (dep_ev d) H (sh_eviction s) p else Some (H, sh_eviction s)) = Some (H', e')"
    "shard_inv a (dep_hash d) mine U (insert p X) Y H' (s\<lparr>sh_eviction := e'\<rparr>)"
    "heap_upd H H' (set (sp_ev_ptrs a (sh_eviction s)))" "holds_at H' p (\<lambda>h'. \<not> in_ev h' \<and> handle_core h' = handle_core h)"
    "set (sp_ev_ptrs a e') = set (sp_ev_ptrs a (sh_eviction s)) - {p}"
proof (cases "in_ev h")
  note I = shard_invD [OF inv]
  have hi: "handle_inv a (dep_hash d) X s p h" using I(7) p by simp
  case True
  then have pin: "p \<in> set (sp_ev_ptrs a (sh_eviction s))" using hi by (simp add: handle_inv_def)
  obtain H' e' where r: "ev_remove (dep_ev d) H (sh_eviction s) p = Some (H', e')" "sp_ev_ok a H' e'"
      "set (sp_ev_ptrs a e') = set (sp_ev_ptrs a (sh_eviction s)) - {p}"
      "heap_upd H H' (set (sp_ev_ptrs a (sh_eviction s)))" "evictable (sp_clean a) H' p"
    using ev.remove_ok [OF I(1) pin] by blast
  have "shard_inv a (dep_hash d) mine U (insert p X) Y H' (s\<lparr>sh_eviction := e'\<rparr>)"
  proof (rule inv_eviction [OF inv r(4) I(4) r(2)])
    show "set (sp_ev_ptrs a e') \<subseteq> sp_ix_ptrs a (sh_indexer s) \<union> Y" using r(3) I(3) by auto
    show "set (sp_ev_ptrs a e') \<subseteq> own mine H" using r(3) I(4) by auto
    show "evictable (sp_clean a) H' q" if "q \<in> set (sp_ev_ptrs a (sh_eviction s))" "q \<notin> set (sp_ev_ptrs a e')" for q
      using that r(3,5) by auto
  qed (use r(3) in auto)
  moreover obtain h' where "H' p = Some h'" "handle_core h' = handle_core h" by (rule heap_upd_get [OF r(4) p(1)])
  then have "holds_at H' p (\<lambda>h'. \<not> in_ev h' \<and> handle_core h' = handle_core h)"
    using r(5) by (auto simp: holds_at_Some evictable_iff)
  ultimately show thesis using that True r by simp
next
  note I = shard_invD [OF inv]
  have hi: "handle_inv a (dep_hash d) X s p h" using I(7) p by simp
  case False
  then have pout: "p \<notin> set (sp_ev_ptrs a (sh_eviction s))" using hi by (simp add: handle_inv_def)
  have "shard_inv a (dep_hash d) mine U (insert p X) Y H (s\<lparr>sh_eviction := sh_eviction s\<rparr>)"
  proof (rule inv_eviction [OF inv heap_upd_refl [of _ "{}"] _ I(1)])
    show "set (sp_ev_ptrs a (sh_eviction s)) \<subseteq> sp_ix_ptrs a (sh_indexer s) \<union> Y" using pout I(3) by auto
  qed (use I(4) in auto)
  then show thesis using that [of H "sh_eviction s"] False p pout by (simp add: holds_at_Some)
qed

lemma client_view_mark [simp]: "client_view (mark_ix b h) = client_view h"
  by (simp add: client_view_def)

lemma release_unlink_ok:
  assumes inv: "shard_inv a (dep_hash d) mine U X Y (cs_heap S) s" and sh: "shared_inv a S"
    and p: "cs_heap S p = Some h" "p \<in> sp_ix_ptrs a (sh_indexer s)"
  shows "\<exists>S' s' h'. release_unlink d S s p = Some (S', s') \<and>
    shard_inv a (dep_hash d) mine U (insert p X) Y (cs_heap S') s' \<and> shared_inv a S' \<and>
    shard_step a mine [] S s S' s' \<and> cs_heap S' p = Some h' \<and> client_view h' = client_view h \<and>
    \<not> in_ix h' \<and> \<not> in_ev h' \<and> sp_ix_ptrs a (sh_indexer s') = sp_ix_ptrs a (sh_indexer s) - {p} \<and>
    set (sp_ev_ptrs a (sh_eviction s')) = set (sp_ev_ptrs a (sh_eviction s)) - {p} \<and> sh_usage s' = sh_usage s \<and>
    dom (cs_heap S') = dom (cs_heap S)"
proof -
  note I = shard_invD [OF inv]
  let ?H1 = "(cs_heap S)(p \<mapsto> mark_ix False h)"
  have m: "mine (bh_hash (base h))" using I(5) p by (auto simp: own_iff)
  obtain k i' where k: "bh_key (base h) = Some k" "bh_hash (base h) = dep_hash d k"
      "ix_remove (dep_ix d) (cs_heap S) (sh_indexer s) (dep_hash d k) k = Some (Some p, ?H1, i')"
      "sp_ix_ok a ?H1 i'" "sp_ix_ptrs a i' = sp_ix_ptrs a (sh_indexer s) - {p}"
    by (rule indexed_self [OF inv p(2,1)])
  have inv1: "shard_inv a (dep_hash d) mine U X (insert p Y) ?H1 (s\<lparr>sh_indexer := i'\<rparr>)"
    by (rule inv_indexer [OF inv, of _ "{p}"]) (use k p I(3,5) in auto)
  have H1p: "?H1 p = Some (mark_ix False h)" "mine (bh_hash (base (mark_ix False h)))" "\<not> in_ix (mark_ix False h)"
    using m by simp_all
  obtain H' e' where r: "(if in_ev (mark_ix False h) then ev_remove (dep_ev d) ?H1 (sh_eviction (s\<lparr>sh_indexer := i'\<rparr>)) p
        else Some (?H1, sh_eviction (s\<lparr>sh_indexer := i'\<rparr>))) = Some (H', e')"
      "shard_inv a (dep_hash d) mine U (insert p X) Y H' (s\<lparr>sh_indexer := i', sh_eviction := e'\<rparr>)"
      "heap_upd ?H1 H' (set (sp_ev_ptrs a (sh_eviction (s\<lparr>sh_indexer := i'\<rparr>))))"
      "holds_at H' p (\<lambda>h'. \<not> in_ev h' \<and> handle_core h' = handle_core (mark_ix False h))"
      "set (sp_ev_ptrs a e') = set (sp_ev_ptrs a (sh_eviction (s\<lparr>sh_indexer := i'\<rparr>))) - {p}"
    by (rule leave_eviction [OF inv1 H1p])
  from r(4) obtain h' where h': "H' p = Some h'" "\<not> in_ev h'" "handle_core h' = handle_core (mark_ix False h)"
    by (auto elim: holds_atE)
  let ?S' = "S\<lparr>cs_heap := H'\<rparr>" and ?s' = "s\<lparr>sh_indexer := i', sh_eviction := e'\<rparr>"
  have res: "release_unlink d S s p = Some (?S', ?s')"
  proof (cases "in_ev h")
    case True
    with r(1) have "ev_remove (dep_ev d) ?H1 (sh_eviction s) p = Some (H', e')" by simp
    with True p(1) k(1,2,3) show ?thesis by (simp add: release_unlink_def)
  next
    case False
    with r(1) have "H' = ?H1" "e' = sh_eviction s" by simp_all
    with False p(1) k(1,2,3) show ?thesis by (simp add: release_unlink_def)
  qed
  have own1: "own mine ?H1 = own mine (cs_heap S)" using p by (intro own_cong) auto
  have ev1: "evolves mine (cs_heap S) ?H1" by (rule evolves_upd) (use p m in auto)
  have ev2: "evolves mine ?H1 H'" by (rule evolves_heap_upd [OF r(3)]) (use I(4) own1 in simp)
  have dom: "dom H' = dom (cs_heap S)" using heap_upd_dom [OF r(3)] p by auto
  have "shard_step a mine [] S s ?S' ?s'"
    using evolves_trans [OF ev1 ev2] dom k(5) by (intro shard_step_same_dom) auto
  moreover have "client_view h' = client_view h" using handle_core_view [OF h'(3)] by simp
  moreover have "\<not> in_ix h'" using core_in_ix [OF h'(3)] by simp
  ultimately show ?thesis
    using res r(2,5) h' k(5) heap_upd_shared [OF sh, of H'] dom
    by (intro exI [of _ ?S'] exI [of _ ?s'] exI [of _ h']) simp
qed

text \<open>Without reinsertion: the handle is freed exactly when nobody refers to it.\<close>

lemma try_release_ok:
  assumes inv: "shard_inv a (dep_hash d) mine U (insert p X) Y (cs_heap S) s" and sh: "shared_inv a S"
    and p: "cs_heap S p = Some h" "mine (bh_hash (base h))" "in_ev h \<Longrightarrow> in_ix h" "p \<notin> U"
  shows "\<exists>r S' s'. try_release_handle d S s p False = Some (r, S', s') \<and>
    shard_inv a (dep_hash d) mine U X Y (cs_heap S') s' \<and> shared_inv a S' \<and>
    shard_step a mine (case r of None \<Rightarrow> [] | Some x \<Rightarrow> [x]) S s S' s' \<and>
    set (sp_ev_ptrs a (sh_eviction s')) \<subseteq> set (sp_ev_ptrs a (sh_eviction s)) \<and>
    (r = None \<longleftrightarrow> has_refs (base h)) \<and> (has_refs (base h) \<longrightarrow> S' = S \<and> s' = s) \<and>
    sp_ix_ptrs a (sh_indexer s) - {p} \<subseteq> sp_ix_ptrs a (sh_indexer s') \<and>
    dom (cs_heap S) - {p} \<subseteq> dom (cs_heap S')"
proof (cases "has_refs (base h)")
  case True
  with p(1) have "try_release_handle d S s p False = Some (None, S, s)" by (simp add: try_release_handle_def)
  moreover have "shard_inv a (dep_hash d) mine U X Y (cs_heap S) s"
    by (rule inv_shrink [OF inv p(1)]) (use True in simp)
  ultimately show ?thesis using True sh shard_step_refl [of a mine S s] by auto
next
  case False
  note I = shard_invD [OF inv]
  have hi: "handle_inv a (dep_hash d) (insert p X) s p h" using I(7) p by simp
  then have inited: "is_inited (base h)" by (simp add: handle_inv_def well_hashed_def)
  show ?thesis
  proof (cases "in_ix h")
    case True
    then have "p \<in> sp_ix_ptrs a (sh_indexer s)" using hi by (simp add: handle_inv_def)
    from release_unlink_ok [OF inv sh p(1) this] obtain S1 s1 h1 where
      1: "release_unlink d S s p = Some (S1, s1)" "shard_inv a (dep_hash d) mine U (insert p X) Y (cs_heap S1) s1"
        "shared_inv a S1" "shard_step a mine [] S s S1 s1" "cs_heap S1 p = Some h1" "client_view h1 = client_view h"
        "\<not> in_ix h1" "\<not> in_ev h1" "sp_ix_ptrs a (sh_indexer s1) = sp_ix_ptrs a (sh_indexer s) - {p}"
        "set (sp_ev_ptrs a (sh_eviction s1)) = set (sp_ev_ptrs a (sh_eviction s)) - {p}"
        "dom (cs_heap S1) = dom (cs_heap S)"
      by (auto simp: insert_absorb)
    have m1: "mine (bh_hash (base h1))" "\<not> has_refs (base h1)"
      using p(2) False client_view_hash [OF 1(6)] client_view_refs [OF 1(6)] by simp_all
    from release_finish_ok [OF 1(2,3,5) m1(1) 1(7,8) p(4) m1(2)] obtain x S' s' where
      2: "release_finish d S1 s1 p = Some (Some x, S', s')" "shard_inv a (dep_hash d) mine U X Y (cs_heap S') s'"
        "shared_inv a S'" "shard_step a mine [x] S1 s1 S' s'" "sh_indexer s' = sh_indexer s1"
        "sh_eviction s' = sh_eviction s1" "cs_heap S' = (cs_heap S1)(p := None)" by blast
    have "try_release_handle d S s p False = Some (Some x, S', s')"
      using p(1) False inited True 1(1) 2(1) by (simp add: try_release_handle_def)
    moreover have "dom (cs_heap S) - {p} \<subseteq> dom (cs_heap S')" using 1(11) 2(7) by auto
    ultimately show ?thesis using shard_step_trans [OF 1(4) 2(4)] 1(9,10) 2(2-6) False by (cases x) auto
  next
    case ix: False
    then have "\<not> in_ev h" using p(3) by blast
    from release_finish_ok [OF inv sh p(1,2) ix this p(4) False] obtain x S' s' where
      2: "release_finish d S s p = Some (Some x, S', s')" "shard_inv a (dep_hash d) mine U X Y (cs_heap S') s'"
        "shared_inv a S'" "shard_step a mine [x] S s S' s'" "sh_indexer s' = sh_indexer s"
        "sh_eviction s' = sh_eviction s" "cs_heap S' = (cs_heap S)(p := None)" by blast
    have "try_release_handle d S s p False = Some (Some x, S', s')"
      using p(1) False inited ix 2(1) by (simp add: try_release_handle_def)
    with 2(2-7) False show ?thesis by (cases x) auto
  qed
qed

lemma inv_ev_sum:
  assumes inv: "shard_inv a (dep_hash d) mine U X Y H s" and T: "T \<subseteq> own mine H - U"
  shows "sum (charge_at H) T \<le> sh_usage s"
proof -
  note I = shard_invD [OF inv]
  have "sum (charge_at H) T \<le> sum (charge_at H) (own mine H - U)"
    using T I(6) by (intro sum_mono2) auto
  with I(8) show ?thesis by simp
qed

lemma release_reinsert_ok:
  assumes inv: "shard_inv a (dep_hash d) mine {} {p} {} (cs_heap S) s" and sh: "shared_inv a S"
    and p: "cs_heap S p = Some h" "mine (bh_hash (base h))" "p \<in> sp_ix_ptrs a (sh_indexer s)"
  shows "\<exists>S' s' h'. release_reinsert d S s p = Some (in_ev h', S', s') \<and>
    shard_inv a (dep_hash d) mine {} {p} {} (cs_heap S') s' \<and> shared_inv a S' \<and>
    shard_step a mine [] S s S' s' \<and> cs_heap S' p = Some h' \<and> handle_core h' = handle_core h \<and>
    sh_indexer s' = sh_indexer s \<and> sh_usage s' = sh_usage s"
proof -
  note I = shard_invD [OF inv]
  let ?E = "set (sp_ev_ptrs a (sh_eviction s))"
  have hi: "handle_inv a (dep_hash d) {p} s p h" using I(7) p by simp
  have pown: "p \<in> own mine (cs_heap S)" using p by (simp add: own_def)
  have pre: "p \<in> ?E \<or> evictable (sp_clean a) (cs_heap S) p"
    using hi p(1) by (auto simp: handle_inv_def well_hashed_def evictable_iff)
  have sub: "insert p ?E \<subseteq> own mine (cs_heap S) - {}" using I(4) pown by auto
  have lim: "sum (charge_at (cs_heap S)) (insert p ?E) < usize_lim"
    using inv_ev_sum [OF inv sub] I(9) by simp
  obtain H' e' where r: "ev_reinsert (dep_ev d) (cs_heap S) (sh_eviction s) p = Some (H', e')" "sp_ev_ok a H' e'"
      "set (sp_ev_ptrs a e') = ?E \<or> set (sp_ev_ptrs a e') = insert p ?E"
      "heap_upd (cs_heap S) H' (insert p ?E)" "p \<in> set (sp_ev_ptrs a e') \<or> evictable (sp_clean a) H' p"
    using ev.reinsert_ok [OF I(1) pre lim] by blast
  have inv': "shard_inv a (dep_hash d) mine {} {p} {} H' (s\<lparr>sh_eviction := e'\<rparr>)"
  proof (rule inv_eviction [OF inv r(4) _ r(2)])
    show "set (sp_ev_ptrs a e') \<subseteq> sp_ix_ptrs a (sh_indexer s) \<union> {}" using r(3) I(3) p(3) by auto
    show "evictable (sp_clean a) H' q" if "q \<in> insert p ?E" "q \<notin> set (sp_ev_ptrs a e')" for q
      using that r(3,5) by auto
  qed (use r(3) sub in auto)
  obtain h' where h': "H' p = Some h'" "handle_core h' = handle_core h" by (rule heap_upd_get [OF r(4) p(1)])
  define S' where "S' = (if in_ev h' \<and> in_ev h
    then cs_metrics_update (m_reinsert_update (\<lambda>n. fetch_add n 1)) (S\<lparr>cs_heap := H'\<rparr>) else S\<lparr>cs_heap := H'\<rparr>)"
  have S': "cs_heap S' = H'" "cs_next S' = cs_next S" "shared_inv a S'"
    using heap_upd_shared [OF sh, of H'] heap_upd_dom [OF r(4)] by (simp_all add: S'_def)
  have "release_reinsert d S s p = Some (in_ev h', S', s\<lparr>sh_eviction := e'\<rparr>)"
    using p(1) r(1) h' by (simp add: release_reinsert_def S'_def Let_def)
  moreover have "shard_step a mine [] S s S' (s\<lparr>sh_eviction := e'\<rparr>)"
    using evolves_heap_upd [OF r(4), of mine] sub S' heap_upd_dom [OF r(4)] by (intro shard_step_same_dom) auto
  ultimately show ?thesis using inv' S' h'
    by (intro exI [of _ S'] exI [of _ "s\<lparr>sh_eviction := e'\<rparr>"] exI [of _ h']) simp
qed

text \<open>With reinsertion: as before, or the handle stays in the container.\<close>

lemma try_release_reinsert_ok:
  assumes inv: "shard_inv a (dep_hash d) mine {} {p} {} (cs_heap S) s" and sh: "shared_inv a S"
    and p: "cs_heap S p = Some h" "mine (bh_hash (base h))"
  shows "\<exists>r S' s'. try_release_handle d S s p True = Some (r, S', s') \<and>
    shard_inv a (dep_hash d) mine {} {} {} (cs_heap S') s' \<and> shared_inv a S' \<and>
    shard_step a mine (case r of None \<Rightarrow> [] | Some x \<Rightarrow> [x]) S s S' s' \<and>
    sp_ix_ptrs a (sh_indexer s) - {p} \<subseteq> sp_ix_ptrs a (sh_indexer s')"
proof -
  note I = shard_invD [OF inv]
  have hi: "handle_inv a (dep_hash d) {p} s p h" using I(7) p by simp
  have evix: "in_ev h \<Longrightarrow> in_ix h" using hi I(3) by (auto simp: handle_inv_def)
  have inv0: "shard_inv a (dep_hash d) mine {} (insert p {}) {} (cs_heap S) s" using inv by simp
  note plain = try_release_ok [OF inv0 sh p evix]
  have eq: "try_release_handle d S s p True = try_release_handle d S s p False"
    if "has_refs (base h) \<or> \<not> in_ix h \<or> \<not> sh_usage s \<le> sh_capacity s"
    using that p(1) by (auto simp: try_release_handle_def)
  show ?thesis
  proof (cases "has_refs (base h) \<or> \<not> in_ix h \<or> \<not> sh_usage s \<le> sh_capacity s")
    case True
    from plain eq [OF True] show ?thesis by auto
  next
    case False
    then have c: "\<not> has_refs (base h)" "in_ix h" "sh_usage s \<le> sh_capacity s" by simp_all
    then have pix: "p \<in> sp_ix_ptrs a (sh_indexer s)" "is_inited (base h)"
      using hi by (simp_all add: handle_inv_def well_hashed_def)
    from release_reinsert_ok [OF inv sh p pix(1)] obtain S1 s1 h1 where
      1: "release_reinsert d S s p = Some (in_ev h1, S1, s1)"
        "shard_inv a (dep_hash d) mine {} {p} {} (cs_heap S1) s1" "shared_inv a S1" "shard_step a mine [] S s S1 s1"
        "cs_heap S1 p = Some h1" "handle_core h1 = handle_core h" "sh_indexer s1 = sh_indexer s" "sh_usage s1 = sh_usage s"
      by blast
    have cap: "sh_capacity s1 = sh_capacity s" using 1(4) by (simp add: shard_step_def)
    show ?thesis
    proof (cases "in_ev h1")
      case True
      have "try_release_handle d S s p True = Some (None, S1, s1)"
        using p(1) c pix(2) 1(1) True by (simp add: try_release_handle_def)
      moreover have "shard_inv a (dep_hash d) mine {} {} {} (cs_heap S1) s1"
        by (rule inv_shrink [OF 1(2,5)]) (use True c(3) cap 1(8) in simp)
      ultimately show ?thesis using 1(3,4,7) by simp
    next
      case out: False
      have m1: "mine (bh_hash (base h1))" "in_ix h1" "\<not> has_refs (base h1)" "is_inited (base h1)"
        using p(2) c pix(2) core_hash [OF 1(6)] core_in_ix [OF 1(6)] core_refs [OF 1(6)]
          handle_core_inited [OF 1(6)] by simp_all
      have "try_release_handle d S s p True = try_release_handle d S1 s1 p False"
        using p(1) c pix(2) 1(1,5) out m1 by (simp add: try_release_handle_def)
      moreover from try_release_ok [OF 1(2,3,5) m1(1)] m1(2) obtain r S' s' where
        2: "try_release_handle d S1 s1 p False = Some (r, S', s')"
          "shard_inv a (dep_hash d) mine {} {} {} (cs_heap S') s'" "shared_inv a S'"
          "shard_step a mine (case r of None \<Rightarrow> [] | Some x \<Rightarrow> [x]) S1 s1 S' s'"
          "sp_ix_ptrs a (sh_indexer s1) - {p} \<subseteq> sp_ix_ptrs a (sh_indexer s')" by auto
      moreover have "shard_step a mine (case r of None \<Rightarrow> [] | Some x \<Rightarrow> [x]) S s S' s'"
        using shard_step_trans [OF 1(4) 2(4)] by simp
      ultimately show ?thesis using 1(7) by auto
    qed
  qed
qed

lemma try_release_external_ok:
  assumes inv: "shard_inv a (dep_hash d) mine {} {} {} (cs_heap S) s" and sh: "shared_inv a S"
    and p: "cs_heap S p = Some h" "mine (bh_hash (base h))" "has_refs (base h)"
  defines "S1 \<equiv> S\<lparr>cs_heap := (cs_heap S)(p \<mapsto> h\<lparr>base := (base h)\<lparr>bh_refs := bh_refs (base h) - 1\<rparr>\<rparr>)\<rparr>"
  shows "\<exists>r S' s'. try_release_external_handle d S s p = Some (r, S', s') \<and>
    shard_inv a (dep_hash d) mine {} {} {} (cs_heap S') s' \<and> shared_inv a S' \<and>
    shard_step a mine (case r of None \<Rightarrow> [] | Some x \<Rightarrow> [x]) S1 s S' s' \<and>
    sp_ix_ptrs a (sh_indexer s) - {p} \<subseteq> sp_ix_ptrs a (sh_indexer s')"
proof -
  have inv1: "shard_inv a (dep_hash d) mine {} {p} {} (cs_heap S1) s"
    unfolding S1_def by (simp, rule inv_refs [OF inv p(1,2)]) auto
  have sh1: "shared_inv a S1" unfolding S1_def by (rule heap_upd_shared [OF sh]) (use p(1) in auto)
  have "try_release_external_handle d S s p = try_release_handle d S1 s p True"
    using p by (simp add: try_release_external_handle_def dec_refs_def checked has_refs_def S1_def)
  moreover have "cs_heap S1 p = Some (h\<lparr>base := (base h)\<lparr>bh_refs := bh_refs (base h) - 1\<rparr>\<rparr>)" by (simp add: S1_def)
  ultimately show ?thesis using try_release_reinsert_ok [OF inv1 sh1] p(2) by simp
qed

end

section \<open>Lookup and removal\<close>

context cache_shard_core
begin

text \<open>The handle that the indexer has for a key.\<close>

lemma shard_get_miss:
  assumes inv: "shard_inv a (dep_hash d) mine {} {} {} (cs_heap S) s"
    and k: "\<forall>p \<in> sp_ix_ptrs a (sh_indexer s). key_at (cs_heap S) p \<noteq> Some k"
  shows "shard_get d S s (dep_hash d k) k = Some (None, cs_metrics_update (m_miss_update (\<lambda>n. fetch_add n 1)) S, s)"
proof -
  have "ix_get (dep_ix d) (cs_heap S) (sh_indexer s) (dep_hash d k) k = None"
    using ix.ix_get_ok [OF shard_invD(2) [OF inv], of k] k by (metis not_None_eq)
  then show ?thesis by (simp add: shard_get_def)
qed

lemma shard_get_hit:
  assumes inv: "shard_inv a (dep_hash d) mine {} {} {} (cs_heap S) s" and sh: "shared_inv a S"
    and p: "cs_heap S p = Some h" "p \<in> sp_ix_ptrs a (sh_indexer s)" "bh_key (base h) = Some k"
    and lim: "bh_refs (base h) + 1 < usize_lim"
  defines "S1 \<equiv> S\<lparr>cs_heap := (cs_heap S)(p \<mapsto> h\<lparr>base := (base h)\<lparr>bh_refs := bh_refs (base h) + 1\<rparr>\<rparr>)\<rparr>"
  shows "\<exists>S' s'. shard_get d S s (dep_hash d k) k = Some (Some p, S', s') \<and>
    shard_inv a (dep_hash d) mine {} {} {} (cs_heap S') s' \<and> shared_inv a S' \<and>
    shard_step a mine [] S1 s S' s' \<and> sh_indexer s' = sh_indexer s \<and> sh_usage s' = sh_usage s"
proof -
  note I = shard_invD [OF inv]
  let ?E = "set (sp_ev_ptrs a (sh_eviction s))"
  let ?h1 = "h\<lparr>base := (base h)\<lparr>bh_refs := bh_refs (base h) + 1\<rparr>\<rparr>"
  have get: "ix_get (dep_ix d) (cs_heap S) (sh_indexer s) (dep_hash d k) k = Some p"
    using ix.ix_get_ok [OF I(2), of k p] p by (simp add: key_at_def)
  have m: "mine (bh_hash (base h))" using I(5) p by (auto simp: own_iff)
  have hi: "handle_inv a (dep_hash d) {} s p h" using I(7) p m by simp
  have inv1: "shard_inv a (dep_hash d) mine {} {} {} (cs_heap S1) s"
    unfolding S1_def by (simp, rule inv_refs [OF inv p(1) m]) auto
  note I1 = shard_invD [OF inv1]
  have S1p: "cs_heap S1 p = Some ?h1" by (simp add: S1_def)
  have pown: "p \<in> own mine (cs_heap S1)" using S1p m by (simp add: own_def)
  have pre: "p \<in> ?E \<or> evictable (sp_clean a) (cs_heap S1) p"
    using hi S1p by (auto simp: handle_inv_def well_hashed_def evictable_iff)
  obtain H' e' where r: "ev_access (dep_ev d) (cs_heap S1) (sh_eviction s) p = Some (H', e')" "sp_ev_ok a H' e'"
      "set (sp_ev_ptrs a e') = ?E" "heap_upd (cs_heap S1) H' (insert p ?E)"
      "p \<in> set (sp_ev_ptrs a e') \<or> evictable (sp_clean a) H' p"
    using ev.access_ok [OF I1(1) pre] by blast
  have sub: "insert p ?E \<subseteq> own mine (cs_heap S1)" using I1(4) pown by simp
  have inv': "shard_inv a (dep_hash d) mine {} {} {} H' (s\<lparr>sh_eviction := e'\<rparr>)"
    by (rule inv_eviction [OF inv1 r(4) sub r(2)]) (use r(3,5) I1(3,4) in auto)
  let ?S' = "cs_metrics_update (m_hit_update (\<lambda>n. fetch_add n 1)) (S1\<lparr>cs_heap := H'\<rparr>)"
  have "in_ix h" using hi p(2) by (simp add: handle_inv_def)
  then have "shard_get d S s (dep_hash d k) k = Some (Some p, ?S', s\<lparr>sh_eviction := e'\<rparr>)"
    using get p(1) lim r(1) by (simp add: shard_get_def inc_refs_def inc_refs_by_def checked S1_def)
  moreover have "shard_step a mine [] S1 s ?S' (s\<lparr>sh_eviction := e'\<rparr>)"
    using evolves_heap_upd [OF r(4) sub] heap_upd_dom [OF r(4)] by (intro shard_step_same_dom) auto
  moreover have "dom H' = dom (cs_heap S)" using heap_upd_dom [OF r(4)] p(1) by (auto simp: S1_def)
  then have "shared_inv a ?S'" using heap_upd_shared [OF sh, of H'] by (simp add: S1_def)
  ultimately show ?thesis using inv' by (intro exI [of _ ?S'] exI [of _ "s\<lparr>sh_eviction := e'\<rparr>"]) simp
qed

text \<open>A handle that has just left the indexer leaves the container and is released.\<close>

lemma leave_and_release:
  assumes inv: "shard_inv a (dep_hash d) mine U X (insert p Y) (cs_heap S) s" and sh: "shared_inv a S"
    and p: "cs_heap S p = Some h" "mine (bh_hash (base h))" "\<not> in_ix h" "p \<notin> U" "p \<notin> X"
  obtains H' e' h' r S' s' where
    "(if in_ev h then ev_remove (dep_ev d) (cs_heap S) (sh_eviction s) p else Some (cs_heap S, sh_eviction s)) = Some (H', e')"
    "H' p = Some h'" "\<not> in_ix h'" "\<not> in_ev h'"
    "try_release_handle d (S\<lparr>cs_heap := H'\<rparr>) (s\<lparr>sh_eviction := e'\<rparr>) p False = Some (r, S', s')"
    "shard_inv a (dep_hash d) mine U X Y (cs_heap S') s'" "shared_inv a S'"
    "shard_step a mine (case r of None \<Rightarrow> [] | Some x \<Rightarrow> [x]) S s S' s'"
    "set (sp_ev_ptrs a (sh_eviction s')) \<subseteq> set (sp_ev_ptrs a (sh_eviction s))" "r = None \<longleftrightarrow> has_refs (base h)"
    "sp_ix_ptrs a (sh_indexer s) - {p} \<subseteq> sp_ix_ptrs a (sh_indexer s')"
    "dom (cs_heap S) - {p} \<subseteq> dom (cs_heap S')"
proof -
  note I = shard_invD [OF inv]
  obtain H' e' where r: "(if in_ev h then ev_remove (dep_ev d) (cs_heap S) (sh_eviction s) p
        else Some (cs_heap S, sh_eviction s)) = Some (H', e')"
      "shard_inv a (dep_hash d) mine U (insert p X) Y H' (s\<lparr>sh_eviction := e'\<rparr>)"
      "heap_upd (cs_heap S) H' (set (sp_ev_ptrs a (sh_eviction s)))"
      "holds_at H' p (\<lambda>h'. \<not> in_ev h' \<and> handle_core h' = handle_core h)"
      "set (sp_ev_ptrs a e') = set (sp_ev_ptrs a (sh_eviction s)) - {p}"
    by (rule leave_eviction [OF inv p(1,2,3)])
  from r(4) obtain h' where h': "H' p = Some h'" "\<not> in_ev h'" "handle_core h' = handle_core h"
    by (auto elim: holds_atE)
  let ?S1 = "S\<lparr>cs_heap := H'\<rparr>" and ?s1 = "s\<lparr>sh_eviction := e'\<rparr>"
  have ix': "\<not> in_ix h'" using core_in_ix [OF h'(3)] p(3) by simp
  have m': "mine (bh_hash (base h'))" using core_hash [OF h'(3)] p(2) by simp
  have sh1: "shared_inv a ?S1" using heap_upd_shared [OF sh] heap_upd_dom [OF r(3)] by simp
  have step1: "shard_step a mine [] S s ?S1 ?s1"
    using evolves_heap_upd [OF r(3) I(4)] heap_upd_dom [OF r(3)] by (intro shard_step_same_dom) auto
  have inv1: "shard_inv a (dep_hash d) mine U (insert p X) Y (cs_heap ?S1) ?s1" using r(2) by simp
  have p1: "cs_heap ?S1 p = Some h'" using h'(1) by simp
  from try_release_ok [OF inv1 sh1 p1 m' _ p(4)] h'(2) obtain r' S' s' where
    2: "try_release_handle d ?S1 ?s1 p False = Some (r', S', s')"
      "shard_inv a (dep_hash d) mine U X Y (cs_heap S') s'" "shared_inv a S'"
      "shard_step a mine (case r' of None \<Rightarrow> [] | Some x \<Rightarrow> [x]) ?S1 ?s1 S' s'"
      "set (sp_ev_ptrs a (sh_eviction s')) \<subseteq> set (sp_ev_ptrs a (sh_eviction ?s1))" "r' = None \<longleftrightarrow> has_refs (base h')"
      "sp_ix_ptrs a (sh_indexer ?s1) - {p} \<subseteq> sp_ix_ptrs a (sh_indexer s')"
      "dom (cs_heap ?S1) - {p} \<subseteq> dom (cs_heap S')" by auto
  show thesis
  proof (rule that [OF r(1) h'(1) ix' h'(2) 2(1,2,3)])
    show "shard_step a mine (case r' of None \<Rightarrow> [] | Some x \<Rightarrow> [x]) S s S' s'"
      using shard_step_trans [OF step1 2(4)] by simp
    show "set (sp_ev_ptrs a (sh_eviction s')) \<subseteq> set (sp_ev_ptrs a (sh_eviction s))" using 2(5) r(5) by auto
    show "r' = None \<longleftrightarrow> has_refs (base h)" using 2(6) core_refs [OF h'(3)] by simp
    show "sp_ix_ptrs a (sh_indexer s) - {p} \<subseteq> sp_ix_ptrs a (sh_indexer s')" using 2(7) by simp
    show "dom (cs_heap S) - {p} \<subseteq> dom (cs_heap S')" using 2(8) heap_upd_dom [OF r(3)] by simp
  qed
qed

lemma shard_remove_miss:
  assumes inv: "shard_inv a (dep_hash d) mine {} {} {} (cs_heap S) s"
    and k: "\<forall>p \<in> sp_ix_ptrs a (sh_indexer s). key_at (cs_heap S) p \<noteq> Some k"
  shows "\<exists>s'. shard_remove d S s (dep_hash d k) k = Some (None, S, s') \<and>
    shard_inv a (dep_hash d) mine {} {} {} (cs_heap S) s' \<and> shard_step a mine [] S s S s' \<and>
    sp_ix_ptrs a (sh_indexer s') = sp_ix_ptrs a (sh_indexer s)"
proof -
  note I = shard_invD [OF inv]
  from ix.ix_remove_ok [OF I(2), of k] k obtain i' where
    r: "ix_remove (dep_ix d) (cs_heap S) (sh_indexer s) (dep_hash d k) k = Some (None, cs_heap S, i')"
      "sp_ix_ok a (cs_heap S) i'" "sp_ix_ptrs a i' = sp_ix_ptrs a (sh_indexer s)" by blast
  have "shard_inv a (dep_hash d) mine {} {} {} (cs_heap S) (s\<lparr>sh_indexer := i'\<rparr>)"
    by (rule inv_indexer [OF inv, of _ "{}"]) (use r I(3,5) in auto)
  moreover have "shard_step a mine [] S s S (s\<lparr>sh_indexer := i'\<rparr>)"
    using r(3) by (intro shard_step_same_dom) auto
  ultimately show ?thesis using r by (simp add: shard_remove_def)
qed

lemma shard_remove_hit:
  assumes inv: "shard_inv a (dep_hash d) mine {} {} {} (cs_heap S) s" and sh: "shared_inv a S"
    and p: "cs_heap S p = Some h" "p \<in> sp_ix_ptrs a (sh_indexer s)" "bh_key (base h) = Some k"
  shows "\<exists>r S' s'. shard_remove d S s (dep_hash d k) k = Some (r, S', s') \<and>
    shard_inv a (dep_hash d) mine {} {} {} (cs_heap S') s' \<and> shared_inv a S' \<and>
    shard_step a mine (case r of None \<Rightarrow> [] | Some x \<Rightarrow> [x]) S s S' s' \<and>
    (r = None \<longleftrightarrow> has_refs (base h)) \<and> sp_ix_ptrs a (sh_indexer s') = sp_ix_ptrs a (sh_indexer s) - {p}"
proof -
  note I = shard_invD [OF inv]
  let ?H1 = "(cs_heap S)(p \<mapsto> mark_ix False h)"
  let ?S1 = "cs_metrics_update (m_remove_update (\<lambda>n. fetch_add n 1)) (S\<lparr>cs_heap := ?H1\<rparr>)"
  have m: "mine (bh_hash (base h))" using I(5) p by (auto simp: own_iff)
  obtain k' i' where k': "bh_key (base h) = Some k'" "bh_hash (base h) = dep_hash d k'"
      "ix_remove (dep_ix d) (cs_heap S) (sh_indexer s) (dep_hash d k') k' = Some (Some p, ?H1, i')"
      "sp_ix_ok a ?H1 i'" "sp_ix_ptrs a i' = sp_ix_ptrs a (sh_indexer s) - {p}"
    by (rule indexed_self [OF inv p(2,1)])
  then have "k' = k" using p(3) by simp
  note k = k' [unfolded this]
  let ?s1 = "s\<lparr>sh_indexer := i'\<rparr>"
  have inv1: "shard_inv a (dep_hash d) mine {} {} (insert p {}) (cs_heap ?S1) ?s1"
  proof -
    have "shard_inv a (dep_hash d) mine {} {} (insert p {}) ?H1 ?s1"
      by (rule inv_indexer [OF inv, of _ "{p}"]) (use k p I(3,5) in auto)
    then show ?thesis by simp
  qed
  have sh1: "shared_inv a ?S1" using heap_upd_shared [OF sh, of ?H1] p(1) by auto
  have p1: "cs_heap ?S1 p = Some (mark_ix False h)" "mine (bh_hash (base (mark_ix False h)))" "\<not> in_ix (mark_ix False h)"
    using m by simp_all
  obtain H' e' h' r S' s' where
    2: "(if in_ev (mark_ix False h) then ev_remove (dep_ev d) (cs_heap ?S1) (sh_eviction ?s1) p
         else Some (cs_heap ?S1, sh_eviction ?s1)) = Some (H', e')"
      "H' p = Some h'" "\<not> in_ix h'" "\<not> in_ev h'"
      "try_release_handle d (?S1\<lparr>cs_heap := H'\<rparr>) (?s1\<lparr>sh_eviction := e'\<rparr>) p False = Some (r, S', s')"
      "shard_inv a (dep_hash d) mine {} {} {} (cs_heap S') s'" "shared_inv a S'"
      "shard_step a mine (case r of None \<Rightarrow> [] | Some x \<Rightarrow> [x]) ?S1 ?s1 S' s'"
      "set (sp_ev_ptrs a (sh_eviction s')) \<subseteq> set (sp_ev_ptrs a (sh_eviction ?s1))"
      "r = None \<longleftrightarrow> has_refs (base (mark_ix False h))"
      "sp_ix_ptrs a (sh_indexer ?s1) - {p} \<subseteq> sp_ix_ptrs a (sh_indexer s')"
      "dom (cs_heap ?S1) - {p} \<subseteq> dom (cs_heap S')"
    by (rule leave_and_release [OF inv1 sh1 p1 empty_iff [THEN iffD1, THEN notI] empty_iff [THEN iffD1, THEN notI]])
  have ev: "(if in_ev h then ev_remove (dep_ev d) ?H1 (sh_eviction s) p else Some (?H1, sh_eviction s)) = Some (H', e')"
    using 2(1) by (cases "in_ev h") simp_all
  have "shard_remove d S s (dep_hash d k) k = Some (r, S', s')"
  proof (cases "in_ev h")
    case True
    with ev have "ev_remove (dep_ev d) ?H1 (sh_eviction s) p = Some (H', e')" by simp
    with True k(3) 2(2-5) show ?thesis by (simp add: shard_remove_def)
  next
    case False
    with ev have "H' = ?H1" "e' = sh_eviction s" by simp_all
    with False k(3) 2(2-5) show ?thesis by (simp add: shard_remove_def)
  qed
  moreover have ev1: "evolves mine (cs_heap S) ?H1" by (rule evolves_upd) (use p(1) m in auto)
  have "shard_step a mine [] S s ?S1 ?s1"
    by (rule shard_step_same_dom) (use ev1 p(1) k(5) in \<open>simp_all add: insert_absorb domI\<close>)
  from shard_step_trans [OF this 2(8)] have "shard_step a mine (case r of None \<Rightarrow> [] | Some x \<Rightarrow> [x]) S s S' s'" by simp
  moreover have "sp_ix_ptrs a (sh_indexer s') = sp_ix_ptrs a (sh_indexer s) - {p}"
    using 2(8,11) k(5) by (auto simp: shard_step_def)
  moreover have "r = None \<longleftrightarrow> has_refs (base h)" using 2(10) by (simp add: has_refs_def)
  ultimately show ?thesis using 2(6,7) by blast
qed

end

end
