(* ===== verification/Shard_Evict.thy ===== *)
theory Shard_Evict
  imports Shard_Inv
begin

text \<open>
  Eviction, insertion and clearing of a cache shard: they pop from the eviction container, so they are
  verified in the locale \<open>cache_shard\<close>, which asks for the full contract of the container. The loop of
  \<^verbatim>\<open>evict\<close> is shown to terminate: every round takes a handle out of the container.
\<close>

locale cache_shard = cache_shard_core d a +
  ev: eviction "dep_ev d" "sp_ev_ok a" "sp_ev_ptrs a" "sp_clean a"
  for d :: "('k, 'v, 'c, 'x, 'e, 'g, 'i, 'q) cache_deps"
    and a :: "('k, 'v, 'c, 'x, 'e, 'i, 'q) cache_spec"

lemma push_entry_append: "push_entry lre r = lre @ (case r of None \<Rightarrow> [] | Some x \<Rightarrow> [x])"
  by (simp add: push_entry_def split: option.split)

section \<open>Eviction\<close>

context cache_shard
begin

lemma inv_ev_charges:
  assumes inv: "shard_inv a (dep_hash d) mine U X Y H s" and U: "U \<inter> sp_ix_ptrs a (sh_indexer s) = {}" "Y = {}"
  shows "charges_of H (sp_ev_ptrs a (sh_eviction s)) \<le> sh_usage s"
proof -
  note I = shard_invD [OF inv]
  have "set (sp_ev_ptrs a (sh_eviction s)) \<subseteq> own mine H - U" using I(3,4) U by auto
  from inv_ev_sum [OF inv this] charges_of_set [OF ev.ok_distinct [OF I(1)], of H] show ?thesis by simp
qed

lemma evict_round_done:
  assumes "sh_usage s + charge \<le> sh_capacity s" "sh_usage s + charge < usize_lim"
  shows "evict_round d charge lre S s = Some (False, lre, S, s)"
  using assms by (simp add: evict_round_def checked)

lemma evict_round_ok:
  assumes inv: "shard_inv a (dep_hash d) mine U X {} (cs_heap S) s" and sh: "shared_inv a S"
    and U: "U \<inter> sp_ix_ptrs a (sh_indexer s) = {}" and lim: "sh_usage s + charge < usize_lim"
    and full: "sh_usage s + charge > sh_capacity s"
  shows "(\<exists>S' s'. evict_round d charge lre S s = Some (False, lre, S', s') \<and>
      shard_inv a (dep_hash d) mine U X {} (cs_heap S') s' \<and> shared_inv a S' \<and>
      shard_step a mine [] S s S' s' \<and> sp_ev_ptrs a (sh_eviction s') = [] \<and> cs_heap S' = cs_heap S) \<or>
    (\<exists>r S' s'. evict_round d charge lre S s = Some (True, push_entry lre r, S', s') \<and>
      shard_inv a (dep_hash d) mine U X {} (cs_heap S') s' \<and> shared_inv a S' \<and>
      shard_step a mine (case r of None \<Rightarrow> [] | Some x \<Rightarrow> [x]) S s S' s' \<and>
      set (sp_ev_ptrs a (sh_eviction s')) \<subset> set (sp_ev_ptrs a (sh_eviction s)) \<and>
      dom (cs_heap S) - sp_ix_ptrs a (sh_indexer s) \<subseteq> dom (cs_heap S'))"
proof -
  note I = shard_invD [OF inv]
  let ?E = "set (sp_ev_ptrs a (sh_eviction s))"
  have ch: "charges_of (cs_heap S) (sp_ev_ptrs a (sh_eviction s)) < usize_lim"
    using inv_ev_charges [OF inv U] lim by simp
  from I(1) ch show ?thesis
  proof (cases rule: ev.pop_cases)
    case (None e')
    have e: "evict_round d charge lre S s = Some (False, lre, S, s\<lparr>sh_eviction := e'\<rparr>)"
      using lim full None(1) by (simp add: evict_round_def checked)
    have "shard_inv a (dep_hash d) mine U X {} (cs_heap S) (s\<lparr>sh_eviction := e'\<rparr>)"
      by (rule inv_eviction [OF inv heap_upd_refl [of _ "{}"] _ None(2)]) (use None(3,4) in auto)
    moreover have "shard_step a mine [] S s S (s\<lparr>sh_eviction := e'\<rparr>)" by (rule shard_step_same_dom) auto
    ultimately show ?thesis using e None sh by auto
  next
    case (Some p H' e')
    let ?S1 = "cs_metrics_update (m_evict_update (\<lambda>n. fetch_add n 1)) (S\<lparr>cs_heap := H'\<rparr>)"
    let ?s1 = "s\<lparr>sh_eviction := e'\<rparr>"
    have pown: "p \<in> own mine (cs_heap S)" "p \<in> sp_ix_ptrs a (sh_indexer s)" using Some(3) I(3,4) by auto
    then obtain h where h: "cs_heap S p = Some h" "mine (bh_hash (base h))" by (auto elim: ownE)
    obtain h' where h': "H' p = Some h'" "handle_core h' = handle_core h" by (rule heap_upd_get [OF Some(5) h(1)])
    have hi: "handle_inv a (dep_hash d) X s p h" by (rule I(7) [OF h])
    have ix': "in_ix h'" using core_in_ix [OF h'(2)] hi pown(2) by (simp add: handle_inv_def)
    have ev': "\<not> in_ev h'" using Some(6) h'(1) by (simp add: evictable_iff)
    have inv': "shard_inv a (dep_hash d) mine U (insert p X) {} H' ?s1"
      by (rule inv_eviction [OF inv Some(5) I(4) Some(2)]) (use Some(3,4,6) I(3,4) in auto)
    then have inv1: "shard_inv a (dep_hash d) mine U (insert p X) {} (cs_heap ?S1) ?s1" by simp
    have sh1: "shared_inv a ?S1" using heap_upd_shared [OF sh, of H'] heap_upd_dom [OF Some(5)] by simp
    have p1: "cs_heap ?S1 p = Some h'" "mine (bh_hash (base h'))" "p \<notin> U"
      using h' h(2) core_hash [OF h'(2)] pown(2) U by auto
    from try_release_ok [OF inv1 sh1 p1(1,2) ix' p1(3)] obtain r S2 s2 where
      2: "try_release_handle d ?S1 ?s1 p False = Some (r, S2, s2)"
        "shard_inv a (dep_hash d) mine U X {} (cs_heap S2) s2" "shared_inv a S2"
        "shard_step a mine (case r of None \<Rightarrow> [] | Some x \<Rightarrow> [x]) ?S1 ?s1 S2 s2"
        "set (sp_ev_ptrs a (sh_eviction s2)) \<subseteq> set (sp_ev_ptrs a (sh_eviction ?s1))"
        "dom (cs_heap ?S1) - {p} \<subseteq> dom (cs_heap S2)" by blast
    have "evict_round d charge lre S s = Some (True, push_entry lre r, S2, s2)"
      using lim full Some(1) h'(1) ix' ev' 2(1) by (simp add: evict_round_def checked)
    moreover have "shard_step a mine [] S s ?S1 ?s1"
      using evolves_heap_upd [OF Some(5) I(4)] heap_upd_dom [OF Some(5)] by (intro shard_step_same_dom) auto
    from shard_step_trans [OF this 2(4)] have "shard_step a mine (case r of None \<Rightarrow> [] | Some x \<Rightarrow> [x]) S s S2 s2" by simp
    moreover have "set (sp_ev_ptrs a (sh_eviction s2)) \<subset> ?E" using 2(5) Some(3,4) by auto
    moreover have "dom (cs_heap S) - sp_ix_ptrs a (sh_indexer s) \<subseteq> dom (cs_heap S2)"
      using 2(6) heap_upd_dom [OF Some(5)] pown(2) by auto
    ultimately show ?thesis using 2(2,3) by blast
  qed
qed

lemma shard_evict_ok:
  assumes "shard_inv a (dep_hash d) mine U X {} (cs_heap S) s" and "shared_inv a S"
    and "U \<inter> sp_ix_ptrs a (sh_indexer s) = {}" and "sh_usage s + charge < usize_lim"
  shows "\<exists>xs S' s'. shard_evict d charge lre S s = Some (lre @ xs, S', s') \<and>
    shard_inv a (dep_hash d) mine U X {} (cs_heap S') s' \<and> shared_inv a S' \<and> shard_step a mine xs S s S' s' \<and>
    (sh_usage s' + charge \<le> sh_capacity s' \<or> sp_ev_ptrs a (sh_eviction s') = []) \<and>
    dom (cs_heap S) - sp_ix_ptrs a (sh_indexer s) \<subseteq> dom (cs_heap S')"
  using assms
proof (induction "card (set (sp_ev_ptrs a (sh_eviction s)))" arbitrary: lre S s rule: less_induct)
  case less
  note inv = less.prems(1) and sh = less.prems(2) and U = less.prems(3) and lim = less.prems(4)
  show ?case
  proof (cases "sh_usage s + charge \<le> sh_capacity s")
    case True
    have "shard_evict d charge lre S s = Some (lre @ [], S, s)"
      by (subst shard_evict.simps) (simp add: evict_round_done [OF True lim])
    with True inv sh shard_step_refl [of a mine S s] show ?thesis
      by (intro exI [of _ "[]"] exI [of _ S] exI [of _ s]) (simp add: Diff_subset)
  next
    case False
    then have full: "sh_usage s + charge > sh_capacity s" by simp
    from evict_round_ok [OF inv sh U lim full, of lre] show ?thesis
    proof (elim disjE exE conjE)
      fix S' s'
      assume 1: "evict_round d charge lre S s = Some (False, lre, S', s')"
        "shard_inv a (dep_hash d) mine U X {} (cs_heap S') s'" "shared_inv a S'" "shard_step a mine [] S s S' s'"
        "sp_ev_ptrs a (sh_eviction s') = []" "cs_heap S' = cs_heap S"
      have "shard_evict d charge lre S s = Some (lre @ [], S', s')"
        by (subst shard_evict.simps) (simp add: 1(1))
      with 1(2-6) show ?thesis
        by (intro exI [of _ "[]"] exI [of _ S'] exI [of _ s']) (simp add: Diff_subset)
    next
      fix r S1 s1
      assume 1: "evict_round d charge lre S s = Some (True, push_entry lre r, S1, s1)"
        "shard_inv a (dep_hash d) mine U X {} (cs_heap S1) s1" "shared_inv a S1"
        "shard_step a mine (case r of None \<Rightarrow> [] | Some x \<Rightarrow> [x]) S s S1 s1"
        "set (sp_ev_ptrs a (sh_eviction s1)) \<subset> set (sp_ev_ptrs a (sh_eviction s))"
        "dom (cs_heap S) - sp_ix_ptrs a (sh_indexer s) \<subseteq> dom (cs_heap S1)"
      have "card (set (sp_ev_ptrs a (sh_eviction s1))) < card (set (sp_ev_ptrs a (sh_eviction s)))"
        using 1(5) by (simp add: psubset_card_mono)
      moreover have "U \<inter> sp_ix_ptrs a (sh_indexer s1) = {}" "sh_usage s1 + charge < usize_lim"
        using 1(4) U lim by (auto simp: shard_step_def)
      ultimately obtain xs S' s' where
        2: "shard_evict d charge (push_entry lre r) S1 s1 = Some (push_entry lre r @ xs, S', s')"
          "shard_inv a (dep_hash d) mine U X {} (cs_heap S') s'" "shared_inv a S'" "shard_step a mine xs S1 s1 S' s'"
          "sh_usage s' + charge \<le> sh_capacity s' \<or> sp_ev_ptrs a (sh_eviction s') = []"
          "dom (cs_heap S1) - sp_ix_ptrs a (sh_indexer s1) \<subseteq> dom (cs_heap S')"
        using less.hyps [OF _ 1(2,3)] by blast
      have "shard_evict d charge lre S s = Some (lre @ (case r of None \<Rightarrow> [] | Some x \<Rightarrow> [x]) @ xs, S', s')"
        using 2(1) by (subst shard_evict.simps) (simp add: 1(1) push_entry_append)
      moreover have "dom (cs_heap S) - sp_ix_ptrs a (sh_indexer s) \<subseteq> dom (cs_heap S')"
        using 1(4,6) 2(6) by (auto simp: shard_step_def)
      ultimately show ?thesis using shard_step_trans [OF 1(4) 2(4)] 2(2,3,5) by blast
    qed
  qed
qed

end

section \<open>Insertion\<close>

context cache_shard
begin

lemma insert_alloc_ok:
  assumes inv: "shard_inv a (dep_hash d) mine {} {} {} (cs_heap S) s" and sh: "shared_inv a S"
    and m: "mine (dep_hash d key)"
  shows "\<exists>S' h. insert_alloc d S (dep_hash d key) key value charge context = Some (cs_next S, S') \<and>
    shard_inv a (dep_hash d) mine {cs_next S} {cs_next S} {} (cs_heap S') s \<and> shared_inv a S' \<and>
    cs_heap S' = (cs_heap S)(cs_next S \<mapsto> h) \<and> cs_next S' = Suc (cs_next S) \<and> cs_heap S (cs_next S) = None \<and>
    client_view h = (Some (key, value, context), dep_hash d key, charge, 0)"
proof -
  obtain pooled pool where pp: "pool_pop (dep_pool d) (cs_pool S) = (pooled, pool)" by fastforce
  define g where "g = (case pooled of Some h \<Rightarrow> h | None \<Rightarrow> ev_handle_new (dep_ev d))"
  note pc = pool.pool_pop_contents [OF pp]
  have g: "\<not> is_inited (base g)" "sp_clean a (hext g)"
    using pc sh ev.new_clean by (auto simp: g_def shared_inv_def split: option.splits)
  obtain b where b: "bh_init (base g) (dep_hash d key) key value charge context = Some b"
      "bh_entry b = Some (key, value, context)" "bh_hash b = dep_hash d key" "bh_charge b = charge" "bh_refs b = 0"
      "\<not> is_in_indexer b" "\<not> is_in_eviction b"
    using bh_init_Some [OF g(1)] by metis
  define h where "h = g\<lparr>base := b\<rparr>"
  have free: "cs_heap S (cs_next S) = None" using sh by (auto simp: shared_inv_def)
  let ?S' = "S\<lparr>cs_heap := (cs_heap S)(cs_next S \<mapsto> h), cs_next := Suc (cs_next S), cs_pool := pool\<rparr>"
  have "insert_alloc d S (dep_hash d key) key value charge context = Some (cs_next S, ?S')"
    using pp b(1) by (simp add: insert_alloc_def g_def [symmetric] handle_init_def h_def Let_def)
  moreover have "shard_inv a (dep_hash d) mine {cs_next S} {cs_next S} {} (cs_heap ?S') s"
    using b g(2) m free inv_alloc [OF inv free, of h]
    by (simp add: h_def well_hashed_def is_inited_def bh_key_def)
  moreover have "shared_inv a ?S'" using sh pc by (auto simp: shared_inv_def less_Suc_eq)
  moreover have "client_view h = (Some (key, value, context), dep_hash d key, charge, 0)"
    using b by (simp add: client_view_def h_def)
  ultimately show ?thesis using free by (intro exI [of _ ?S'] exI [of _ h]) simp
qed

lemma insert_link_ok:
  assumes inv: "shard_inv a (dep_hash d) mine {p} {p} {} (cs_heap S) s" and sh: "shared_inv a S"
    and p: "cs_heap S p = Some h" "mine (bh_hash (base h))" "p \<notin> sp_ix_ptrs a (sh_indexer s)"
  shows "\<exists>xs S' s'. insert_link d lre S s p = Some (lre @ xs, S', s') \<and>
    shard_inv a (dep_hash d) mine {p} {p} {} (cs_heap S') s' \<and> shared_inv a S' \<and>
    evolves mine (cs_heap S) (cs_heap S') \<and> freed (cs_heap S) (cs_heap S') xs \<and> p \<in> dom (cs_heap S') \<and>
    cs_next S' = cs_next S \<and> sh_capacity s' = sh_capacity s \<and> sh_waiters s' = sh_waiters s \<and>
    sh_usage s' \<le> sh_usage s \<and> set (sp_ev_ptrs a (sh_eviction s')) \<subseteq> set (sp_ev_ptrs a (sh_eviction s)) \<and>
    sp_ix_ptrs a (sh_indexer s') = insert p {q \<in> sp_ix_ptrs a (sh_indexer s). key_at (cs_heap S) q \<noteq> key_at (cs_heap S) p}"
proof -
  note I = shard_invD [OF inv]
  have hi: "handle_inv a (dep_hash d) {p} s p h" using I(7) p by simp
  then have w: "well_hashed (dep_hash d) h" "\<not> in_ix h" using p(3) by (simp_all add: handle_inv_def)
  let ?H1 = "(cs_heap S)(p \<mapsto> mark_ix True h)"
  have pown: "p \<in> own mine (cs_heap S)" using p by (simp add: own_def)
  have evp: "evolves mine (cs_heap S) ?H1" by (rule evolves_upd) (use p in auto)
  show ?thesis
    using ix.ix_insert_ok [OF I(2) p(1) w p(3)]
  proof (elim disjE exE conjE)
    fix i' assume 1: "ix_insert (dep_ix d) (cs_heap S) (sh_indexer s) p = Some (None, ?H1, i')"
      "\<forall>q \<in> sp_ix_ptrs a (sh_indexer s). key_at (cs_heap S) q \<noteq> key_at (cs_heap S) p"
      "sp_ix_ok a ?H1 i'" "sp_ix_ptrs a i' = insert p (sp_ix_ptrs a (sh_indexer s))"
    let ?S' = "cs_metrics_update (m_insert_update (\<lambda>n. fetch_add n 1)) (S\<lparr>cs_heap := ?H1\<rparr>)"
    let ?s' = "s\<lparr>sh_indexer := i'\<rparr>"
    have "insert_link d lre S s p = Some (lre @ [], ?S', ?s')"
      using p(1) w(2) 1(1) by (simp add: insert_link_def)
    moreover have "shard_inv a (dep_hash d) mine {p} {p} {} ?H1 ?s'"
      by (rule inv_indexer [OF inv, of _ "{p}"]) (use 1 p I(3,5) pown in auto)
    moreover have dom: "dom ?H1 = dom (cs_heap S)" using p(1) by auto
    then have "shared_inv a ?S'" using heap_upd_shared [OF sh, of ?H1] by simp
    moreover have "sp_ix_ptrs a i' = insert p {q \<in> sp_ix_ptrs a (sh_indexer s). key_at (cs_heap S) q \<noteq> key_at (cs_heap S) p}"
      using 1(2,4) by auto
    ultimately show ?thesis using evp freed_Nil [OF dom]
      by (intro exI [of _ "[]"] exI [of _ ?S'] exI [of _ ?s']) simp
  next
    fix q b i' assume 1: "ix_insert (dep_ix d) (cs_heap S) (sh_indexer s) p =
          Some (Some q, ?H1(q \<mapsto> mark_ix False b), i')"
      "cs_heap S q = Some b" "q \<in> sp_ix_ptrs a (sh_indexer s)" "key_at (cs_heap S) q = key_at (cs_heap S) p"
      "sp_ix_ok a (?H1(q \<mapsto> mark_ix False b)) i'" "sp_ix_ptrs a i' = insert p (sp_ix_ptrs a (sh_indexer s) - {q})"
    let ?H2 = "?H1(q \<mapsto> mark_ix False b)"
    have ne: "q \<noteq> p" using 1(3) p(3) by blast
    have qm: "mine (bh_hash (base b))" using 1(2,3) I(5) by (auto simp: own_iff)
    let ?S1 = "cs_metrics_update (m_replace_update (\<lambda>n. fetch_add n 1)) (S\<lparr>cs_heap := ?H2\<rparr>)"
    let ?s1 = "s\<lparr>sh_indexer := i'\<rparr>"
    have "shard_inv a (dep_hash d) mine {p} {p} (insert q {}) ?H2 ?s1"
      by (rule inv_indexer [OF inv, of _ "{p, q}"]) (use 1 p I(3,5) pown ne in auto)
    then have inv1: "shard_inv a (dep_hash d) mine {p} {p} (insert q {}) (cs_heap ?S1) ?s1" by simp
    have dom: "dom ?H2 = dom (cs_heap S)" using p(1) 1(2) by auto
    have sh1: "shared_inv a ?S1" using heap_upd_shared [OF sh equalityD1 [OF dom]] by simp
    have q1: "cs_heap ?S1 q = Some (mark_ix False b)" "mine (bh_hash (base (mark_ix False b)))"
        "\<not> in_ix (mark_ix False b)" "q \<notin> {p}"
      using qm ne by simp_all
    obtain H' e' h' r S' s' where
      2: "(if in_ev (mark_ix False b) then ev_remove (dep_ev d) (cs_heap ?S1) (sh_eviction ?s1) q
           else Some (cs_heap ?S1, sh_eviction ?s1)) = Some (H', e')"
        "H' q = Some h'" "\<not> in_ix h'" "\<not> in_ev h'"
        "try_release_handle d (?S1\<lparr>cs_heap := H'\<rparr>) (?s1\<lparr>sh_eviction := e'\<rparr>) q False = Some (r, S', s')"
        "shard_inv a (dep_hash d) mine {p} {p} {} (cs_heap S') s'" "shared_inv a S'"
        "shard_step a mine (case r of None \<Rightarrow> [] | Some x \<Rightarrow> [x]) ?S1 ?s1 S' s'"
        "set (sp_ev_ptrs a (sh_eviction s')) \<subseteq> set (sp_ev_ptrs a (sh_eviction ?s1))"
        "r = None \<longleftrightarrow> has_refs (base (mark_ix False b))"
        "sp_ix_ptrs a (sh_indexer ?s1) - {q} \<subseteq> sp_ix_ptrs a (sh_indexer s')"
        "dom (cs_heap ?S1) - {q} \<subseteq> dom (cs_heap S')"
      by (rule leave_and_release [OF inv1 sh1 q1 q1(4)])
    have "insert_replace d lre (S\<lparr>cs_heap := ?H2\<rparr>) ?s1 q = Some (push_entry lre r, S', s')"
    proof (cases "in_ev b")
      case True
      with 2(1) have "ev_remove (dep_ev d) ?H2 (sh_eviction s) q = Some (H', e')" by simp
      with True 2(2-5) show ?thesis by (simp add: insert_replace_def)
    next
      case False
      with 2(1) have "H' = ?H2" "e' = sh_eviction s" by simp_all
      with False 2(2-5) show ?thesis by (simp add: insert_replace_def)
    qed
    then have "insert_link d lre S s p = Some (lre @ (case r of None \<Rightarrow> [] | Some x \<Rightarrow> [x]), S', s')"
      using p(1) w(2) 1(1) by (simp add: insert_link_def push_entry_append)
    moreover have "evolves mine ?H1 ?H2" by (rule evolves_upd) (use 1(2) qm ne in auto)
    from evolves_trans [OF evp this] have ev2: "evolves mine (cs_heap S) ?H2" .
    then have "evolves mine (cs_heap S) (cs_heap S')" using 2(8) by (auto simp: shard_step_def intro: evolves_trans)
    moreover have "freed (cs_heap S) (cs_heap S') (case r of None \<Rightarrow> [] | Some x \<Rightarrow> [x])"
      using freed_trans [OF freed_Nil [OF dom] _ ev2] 2(8) by (simp add: shard_step_def)
    moreover have "p \<in> dom (cs_heap S')" using 2(12) ne by auto
    moreover have "sp_ix_ptrs a (sh_indexer s') =
        insert p {q \<in> sp_ix_ptrs a (sh_indexer s). key_at (cs_heap S) q \<noteq> key_at (cs_heap S) p}"
    proof -
      have "sp_ix_ptrs a (sh_indexer s') = insert p (sp_ix_ptrs a (sh_indexer s) - {q})"
        using 2(8,11) 1(6) ne by (auto simp: shard_step_def)
      moreover have "key_at (cs_heap S) q' \<noteq> key_at (cs_heap S) p" if "q' \<in> sp_ix_ptrs a (sh_indexer s)" "q' \<noteq> q" for q'
        using ix.ix_key_unique [OF I(2) that(1) 1(3)] that(2) 1(4) by auto
      ultimately show ?thesis using 1(4) by auto
    qed
    ultimately show ?thesis using 2(6,7,8,9)
      by (intro exI [of _ "case r of None \<Rightarrow> [] | Some x \<Rightarrow> [x]"] exI [of _ S'] exI [of _ s']) (simp add: shard_step_def)
  qed
qed

lemma inv_count:
  assumes inv: "shard_inv a (dep_hash d) mine {p} X Y H s" and p: "H p = Some h" "mine (bh_hash (base h))"
    and lim: "sh_usage s + hcharge h < usize_lim"
    and cap: "sh_usage s + hcharge h \<le> sh_capacity s \<or> (\<forall>q \<in> own mine H - X. holds_at H q (\<lambda>h. has_refs (base h)))"
  shows "shard_inv a (dep_hash d) mine {} X Y H (s\<lparr>sh_usage := sh_usage s + hcharge h\<rparr>)"
proof (rule shard_invI)
  note I = shard_invD [OF inv]
  have "sum (charge_at H) (own mine H) = charge_at H p + sum (charge_at H) (own mine H - {p})"
    using sum.remove [of "own mine H" p "charge_at H"] I(6) p by (simp add: own_def)
  then show "sh_usage (s\<lparr>sh_usage := sh_usage s + hcharge h\<rparr>) = sum (charge_at H) (own mine H - {})"
    using I(8) p(1) by (simp add: charge_at_Some)
  show "handle_inv a (dep_hash d) X (s\<lparr>sh_usage := sh_usage s + hcharge h\<rparr>) q hq"
    if "H q = Some hq" "mine (bh_hash (base hq))" for q hq
    using I(7) [OF that] by (auto simp: handle_inv_def)
qed (use shard_invD [OF inv] lim cap in simp_all)

lemma evolves_refs_upd:
  assumes ev: "evolves mine H H1" and p: "H p = Some h" "H1 p = Some h1" "client_view h1 = client_view h" "mine (bh_hash (base h))"
  shows "evolves mine (H(p \<mapsto> h\<lparr>base := (base h)\<lparr>bh_refs := r\<rparr>\<rparr>)) (H1(p \<mapsto> h1\<lparr>base := (base h1)\<lparr>bh_refs := r\<rparr>\<rparr>))"
proof (rule evolvesI)
  let ?H = "H(p \<mapsto> h\<lparr>base := (base h)\<lparr>bh_refs := r\<rparr>\<rparr>)" and ?H1 = "H1(p \<mapsto> h1\<lparr>base := (base h1)\<lparr>bh_refs := r\<rparr>\<rparr>)"
  show "?H1 q = None" if "?H q = None" for q
    using that evolves_None [OF ev, of q] by (cases "q = p") auto
  show "?H1 q = Some g" if "?H q = Some g" "\<not> mine (bh_hash (base g))" for q g
    using that evolves_other [OF ev, of q g] p(4) by (cases "q = p") auto
  show "(?H1 q = None \<and> \<not> has_refs (base g)) \<or> (\<exists>g'. ?H1 q = Some g' \<and> client_view g' = client_view g)"
    if "?H q = Some g" for q g
    using that evolves_mine [OF ev, of q g] p(3) by (cases "q = p") (auto simp: client_view_def)
qed

lemma insert_push_ok:
  assumes inv: "shard_inv a (dep_hash d) mine {p} {p} {} (cs_heap S) s" and sh: "shared_inv a S"
    and p: "cs_heap S p = Some h" "mine (bh_hash (base h))" "p \<in> sp_ix_ptrs a (sh_indexer s)"
      "p \<notin> set (sp_ev_ptrs a (sh_eviction s))" "bh_refs (base h) = 0"
    and lim: "sh_usage s + hcharge h < usize_lim"
    and cap: "sh_usage s + hcharge h \<le> sh_capacity s \<or> sp_ev_ptrs a (sh_eviction s) = []"
  defines "S1 \<equiv> S\<lparr>cs_heap := (cs_heap S)(p \<mapsto> h\<lparr>base := (base h)\<lparr>bh_refs := 1\<rparr>\<rparr>)\<rparr>"
  shows "\<exists>S' s'. insert_push d S s p (hcharge h) = Some (S', s') \<and>
    shard_inv a (dep_hash d) mine {} {} {} (cs_heap S') s' \<and> shared_inv a S' \<and>
    evolves mine (cs_heap S1) (cs_heap S') \<and> dom (cs_heap S') = dom (cs_heap S) \<and> cs_next S' = cs_next S \<and>
    sh_capacity s' = sh_capacity s \<and> sh_waiters s' = sh_waiters s \<and> sh_usage s' = sh_usage s + hcharge h \<and>
    sh_indexer s' = sh_indexer s \<and> set (sp_ev_ptrs a (sh_eviction s')) = insert p (set (sp_ev_ptrs a (sh_eviction s)))"
proof -
  note I = shard_invD [OF inv]
  let ?E = "set (sp_ev_ptrs a (sh_eviction s))" and ?H = "cs_heap S"
  have pown: "p \<in> own mine ?H" using p by (simp add: own_def)
  have hi: "handle_inv a (dep_hash d) {p} s p h" using I(7) p by simp
  have free: "evictable (sp_clean a) ?H p"
    using hi p(1,4) by (auto simp: handle_inv_def well_hashed_def evictable_iff)
  have "?E \<subseteq> own mine ?H - {p}" using I(4) p(4) by auto
  from inv_ev_sum [OF inv this] have "charges_of ?H (sp_ev_ptrs a (sh_eviction s)) \<le> sh_usage s"
    by (simp add: charges_of_set [OF ev.ok_distinct [OF I(1)]])
  then have pl: "charges_of ?H (sp_ev_ptrs a (sh_eviction s)) + charge_at ?H p < usize_lim"
    using lim p(1) by (simp add: charge_at_Some)
  obtain H1 e' where r: "ev_push (dep_ev d) ?H (sh_eviction s) p = Some (H1, e')" "sp_ev_ok a H1 e'"
      "set (sp_ev_ptrs a e') = insert p ?E" "heap_upd ?H H1 (insert p ?E)"
    using ev.push_ok [OF I(1) free p(4) pl] by blast
  obtain h1 where h1: "H1 p = Some h1" "handle_core h1 = handle_core h" by (rule heap_upd_get [OF r(4) p(1)])
  have m1: "mine (bh_hash (base h1))" "in_ix h1" "hcharge h1 = hcharge h" "bh_refs (base h1) = 0"
    using p(2,5) h1(2) hi p(3) by (simp_all add: handle_core_def handle_inv_def)
  have sub: "insert p ?E \<subseteq> own mine ?H" using I(4) pown by simp
  have inv1: "shard_inv a (dep_hash d) mine {p} {p} {} H1 (s\<lparr>sh_eviction := e'\<rparr>)"
    by (rule inv_eviction [OF inv r(4) sub r(2)]) (use r(3) I(3,4) p(3) pown in auto)
  define h2 where "h2 = h1\<lparr>base := (base h1)\<lparr>bh_refs := 1\<rparr>\<rparr>"
  define H2 where "H2 = H1(p \<mapsto> h2)"
  have inv2: "shard_inv a (dep_hash d) mine {p} {} {} H2 (s\<lparr>sh_eviction := e'\<rparr>)"
    unfolding H2_def h2_def by (rule inv_refs [OF inv1 h1(1) m1(1)]) auto
  have h2: "H2 p = Some h2" "mine (bh_hash (base h2))" "hcharge h2 = hcharge h"
    using m1 by (simp_all add: H2_def h2_def)
  have refs: "\<forall>q \<in> own mine H2 - {}. holds_at H2 q (\<lambda>h. has_refs (base h))" if "sp_ev_ptrs a (sh_eviction s) = []"
  proof
    fix q assume q: "q \<in> own mine H2 - {}"
    then obtain g where g: "H2 q = Some g" "mine (bh_hash (base g))" by (auto elim: ownE)
    show "holds_at H2 q (\<lambda>h. has_refs (base h))"
    proof (cases "q = p")
      case True
      then show ?thesis by (simp add: H2_def h2_def has_refs_def)
    next
      case False
      have "handle_inv a (dep_hash d) {} (s\<lparr>sh_eviction := e'\<rparr>) q g" by (rule shard_invD(7) [OF inv2 g])
      with False that r(3) g(1) show ?thesis by (auto simp: handle_inv_def holds_at_Some)
    qed
  qed
  let ?S' = "S\<lparr>cs_heap := H2\<rparr>" and ?s' = "s\<lparr>sh_eviction := e', sh_usage := sh_usage s + hcharge h\<rparr>"
  have "insert_push d S s p (hcharge h) = Some (?S', ?s')"
    using r(1) h1(1) m1 lim
    by (simp add: insert_push_def inc_refs_def inc_refs_by_def checked H2_def h2_def fetch_add_lt usize_lim_def)
  moreover have "shard_inv a (dep_hash d) mine {} {} {} H2 ?s'"
    using inv_count [OF inv2 h2(1,2)] lim cap refs h2(3) by auto
  moreover have dom: "dom H2 = dom ?H" using heap_upd_dom [OF r(4)] p(1) by (auto simp: H2_def)
  moreover have "evolves mine (cs_heap S1) H2"
    unfolding S1_def H2_def h2_def
    by (simp, rule evolves_refs_upd [OF evolves_heap_upd [OF r(4) sub] p(1) h1(1) handle_core_view [OF h1(2)] p(2)])
  moreover have "shared_inv a ?S'" by (rule heap_upd_shared [OF sh equalityD1 [OF dom]])
  ultimately show ?thesis using r(3) by (intro exI [of _ ?S'] exI [of _ ?s']) simp
qed

end

lemma evolves_away:
  assumes "evolves mine H H'"
  shows "evolves mine (H(p := None)) (H'(p := None))"
proof (rule evolvesI)
  show "(H'(p := None)) q = None" if "(H(p := None)) q = None" for q
    using that evolves_None [OF assms, of q] by (cases "q = p") auto
  show "(H'(p := None)) q = Some h" if "(H(p := None)) q = Some h" "\<not> mine (bh_hash (base h))" for q h
    using that evolves_other [OF assms, of q h] by (cases "q = p") auto
  show "((H'(p := None)) q = None \<and> \<not> has_refs (base h)) \<or>
      (\<exists>h'. (H'(p := None)) q = Some h' \<and> client_view h' = client_view h)"
    if "(H(p := None)) q = Some h" for q h
    using that evolves_mine [OF assms, of q h] by (cases "q = p") auto
qed

lemma freed_away:
  assumes "freed H H' xs" "p \<in> dom H'"
  shows "freed (H(p := None)) (H'(p := None)) xs"
proof -
  obtain ps where ps: "distinct ps" "set ps \<subseteq> dom H" "dom H' = dom H - set ps" "map (entry_at H) ps = map Some xs"
    using assms(1) unfolding freed_def by blast
  have "p \<notin> set ps" using assms(2) ps(3) by blast
  then have "map (entry_at (H(p := None))) ps = map (entry_at H) ps" by (auto simp: entry_at_def)
  with ps \<open>p \<notin> set ps\<close> show ?thesis unfolding freed_def by (intro exI [of _ ps]) auto
qed

text \<open>What an insertion does to the handles other than the new one \<open>p\<close>.\<close>

definition away_step :: "(nat \<Rightarrow> bool) \<Rightarrow> ptr \<Rightarrow> ('k, 'v, 'c) entry list \<Rightarrow>
    ('k, 'v, 'c, 'x, 'q) CacheSharedState \<Rightarrow> ('k, 'e, 'i) CacheShard \<Rightarrow>
    ('k, 'v, 'c, 'x, 'q) CacheSharedState \<Rightarrow> ('k, 'e, 'i) CacheShard \<Rightarrow> bool" where
  "away_step mine p xs S s S' s' \<longleftrightarrow>
     evolves mine ((cs_heap S)(p := None)) ((cs_heap S')(p := None)) \<and>
     freed ((cs_heap S)(p := None)) ((cs_heap S')(p := None)) xs \<and>
     sh_capacity s' = sh_capacity s \<and> sh_waiters s' = sh_waiters s"

lemma away_step_trans:
  "away_step mine p xs S s S1 s1 \<Longrightarrow> away_step mine p ys S1 s1 S2 s2 \<Longrightarrow> away_step mine p (xs @ ys) S s S2 s2"
  unfolding away_step_def by (auto intro: evolves_trans freed_trans)

lemma away_stepI:
  assumes "evolves mine (cs_heap S) (cs_heap S')" "freed (cs_heap S) (cs_heap S') xs" "p \<in> dom (cs_heap S')"
    "sh_capacity s' = sh_capacity s" "sh_waiters s' = sh_waiters s"
  shows "away_step mine p xs S s S' s'"
  using evolves_away [OF assms(1), of p] freed_away [OF assms(2,3)] assms(4,5) by (simp add: away_step_def)

context cache_shard
begin

lemma insert_make_room:
  assumes inv: "shard_inv a (dep_hash d) mine {} {} {} (cs_heap S) s" and sh: "shared_inv a S"
    and m: "mine (dep_hash d key)" and lim: "sh_usage s + charge < usize_lim"
  obtains S1 xs S2 s2 h where
    "insert_alloc d S (dep_hash d key) key value charge context = Some (cs_next S, S1)"
    "shard_evict d charge lre S1 s = Some (lre @ xs, S2, s2)"
    "shard_inv a (dep_hash d) mine {cs_next S} {cs_next S} {} (cs_heap S2) s2" "shared_inv a S2"
    "cs_heap S (cs_next S) = None" "cs_heap S2 (cs_next S) = Some h"
    "client_view h = (Some (key, value, context), dep_hash d key, charge, 0)"
    "away_step mine (cs_next S) xs S s S2 s2" "cs_next S2 = Suc (cs_next S)" "sh_usage s2 \<le> sh_usage s"
    "sh_usage s2 + charge \<le> sh_capacity s2 \<or> sp_ev_ptrs a (sh_eviction s2) = []"
    "sp_ix_ptrs a (sh_indexer s2) \<subseteq> sp_ix_ptrs a (sh_indexer s)" "cs_next S \<notin> sp_ix_ptrs a (sh_indexer s2)"
proof -
  let ?p = "cs_next S"
  obtain S1 h1 where 1: "insert_alloc d S (dep_hash d key) key value charge context = Some (?p, S1)"
      "shard_inv a (dep_hash d) mine {?p} {?p} {} (cs_heap S1) s" "shared_inv a S1"
      "cs_heap S1 = (cs_heap S)(?p \<mapsto> h1)" "cs_next S1 = Suc ?p" "cs_heap S ?p = None"
      "client_view h1 = (Some (key, value, context), dep_hash d key, charge, 0)"
    using insert_alloc_ok [OF inv sh m] by blast
  have pix: "?p \<notin> sp_ix_ptrs a (sh_indexer s)" using shard_invD(5) [OF inv] 1(6) by (auto simp: own_def)
  then have disj: "{?p} \<inter> sp_ix_ptrs a (sh_indexer s) = {}" by simp
  obtain xs S2 s2 where 2: "shard_evict d charge lre S1 s = Some (lre @ xs, S2, s2)"
      "shard_inv a (dep_hash d) mine {?p} {?p} {} (cs_heap S2) s2" "shared_inv a S2" "shard_step a mine xs S1 s S2 s2"
      "sh_usage s2 + charge \<le> sh_capacity s2 \<or> sp_ev_ptrs a (sh_eviction s2) = []"
      "dom (cs_heap S1) - sp_ix_ptrs a (sh_indexer s) \<subseteq> dom (cs_heap S2)"
    using shard_evict_ok [OF 1(2,3) disj lim] by blast
  note st = 2(4) [unfolded shard_step_def]
  have p1: "cs_heap S1 ?p = Some h1" using 1(4) by simp
  have d2: "?p \<in> dom (cs_heap S2)" using 2(6) p1 pix by auto
  then obtain h2 where h2: "cs_heap S2 ?p = Some h2" "client_view h2 = client_view h1"
    using evolves_mine [OF conjunct1 [OF st] p1] by auto
  have "away_step mine ?p xs S1 s S2 s2" using st d2 by (intro away_stepI) auto
  then have away: "away_step mine ?p xs S s S2 s2" using 1(4) by (simp add: away_step_def)
  have pix2: "?p \<notin> sp_ix_ptrs a (sh_indexer s2)" using st pix by blast
  show thesis
    by (rule that [OF 1(1) 2(1,2,3) 1(6) h2(1) _ away _ _ 2(5) _ pix2]) (use st 1(5,7) h2(2) in simp_all)
qed

lemma insert_finish:
  assumes inv: "shard_inv a (dep_hash d) mine {p} {p} {} (cs_heap S) s" and sh: "shared_inv a S"
    and p: "cs_heap S p = Some h" "client_view h = (Some (key, value, context), dep_hash d key, charge, 0)"
      "mine (dep_hash d key)" "p \<notin> sp_ix_ptrs a (sh_indexer s)"
    and lim: "sh_usage s + charge < usize_lim"
    and cap: "sh_usage s + charge \<le> sh_capacity s \<or> sp_ev_ptrs a (sh_eviction s) = []"
  obtains xs S1 s1 S' s' h' where "insert_link d lre S s p = Some (lre @ xs, S1, s1)"
    "insert_push d S1 s1 p charge = Some (S', s')"
    "shard_inv a (dep_hash d) mine {} {} {} (cs_heap S') s'" "shared_inv a S'" "cs_heap S' p = Some h'"
    "client_view h' = (Some (key, value, context), dep_hash d key, charge, 1)"
    "away_step mine p xs S s S' s'" "cs_next S' = cs_next S" "sh_usage s' \<le> sh_usage s + charge"
    "sh_usage s' \<le> sh_capacity s \<or> set (sp_ev_ptrs a (sh_eviction s')) = {p}"
    "sp_ix_ptrs a (sh_indexer s') = insert p {q \<in> sp_ix_ptrs a (sh_indexer s). key_at (cs_heap S) q \<noteq> Some key}"
proof -
  have v: "mine (bh_hash (base h))" "bh_key (base h) = Some key" using p(2,3) by (auto simp: client_view_def bh_key_def)
  have kp: "key_at (cs_heap S) p = Some key" using p(1) v(2) by (simp add: key_at_def)
  obtain xs S1 s1 where 1: "insert_link d lre S s p = Some (lre @ xs, S1, s1)"
      "shard_inv a (dep_hash d) mine {p} {p} {} (cs_heap S1) s1" "shared_inv a S1"
      "evolves mine (cs_heap S) (cs_heap S1)" "freed (cs_heap S) (cs_heap S1) xs" "p \<in> dom (cs_heap S1)"
      "cs_next S1 = cs_next S" "sh_capacity s1 = sh_capacity s" "sh_waiters s1 = sh_waiters s"
      "sh_usage s1 \<le> sh_usage s" "set (sp_ev_ptrs a (sh_eviction s1)) \<subseteq> set (sp_ev_ptrs a (sh_eviction s))"
      "sp_ix_ptrs a (sh_indexer s1) = insert p {q \<in> sp_ix_ptrs a (sh_indexer s). key_at (cs_heap S) q \<noteq> Some key}"
    using insert_link_ok [OF inv sh p(1) v(1) p(4), of lre, unfolded kp] by blast
  obtain h1 where h1: "cs_heap S1 p = Some h1" "client_view h1 = client_view h"
    using evolves_mine [OF 1(4) p(1)] 1(6) by auto
  have v1: "mine (bh_hash (base h1))" "bh_refs (base h1) = 0" "hcharge h1 = charge"
    using h1(2) p(2,3) by (auto simp: client_view_def)
  have in1: "p \<in> sp_ix_ptrs a (sh_indexer s1)" "p \<notin> set (sp_ev_ptrs a (sh_eviction s1))"
    using 1(11,12) p(4) shard_invD(3) [OF inv] by auto
  have lim1: "sh_usage s1 + hcharge h1 < usize_lim" using 1(10) lim v1(3) by simp
  have cap1: "sh_usage s1 + hcharge h1 \<le> sh_capacity s1 \<or> sp_ev_ptrs a (sh_eviction s1) = []"
    using cap 1(8,10,11) v1(3) by auto
  let ?H = "(cs_heap S1)(p \<mapsto> h1\<lparr>base := (base h1)\<lparr>bh_refs := 1\<rparr>\<rparr>)"
  obtain S' s' where 2: "insert_push d S1 s1 p (hcharge h1) = Some (S', s')"
      "shard_inv a (dep_hash d) mine {} {} {} (cs_heap S') s'" "shared_inv a S'"
      "evolves mine (cs_heap (S1\<lparr>cs_heap := ?H\<rparr>)) (cs_heap S')"
      "dom (cs_heap S') = dom (cs_heap S1)" "cs_next S' = cs_next S1" "sh_capacity s' = sh_capacity s1"
      "sh_waiters s' = sh_waiters s1" "sh_usage s' = sh_usage s1 + hcharge h1" "sh_indexer s' = sh_indexer s1"
      "set (sp_ev_ptrs a (sh_eviction s')) = insert p (set (sp_ev_ptrs a (sh_eviction s1)))"
    using insert_push_ok [OF 1(2,3) h1(1) v1(1) in1 v1(2) lim1 cap1] by blast
  have ev: "evolves mine ?H (cs_heap S')" using 2(4) by simp
  obtain h' where h': "cs_heap S' p = Some h'" "client_view h' = client_view (h1\<lparr>base := (base h1)\<lparr>bh_refs := 1\<rparr>\<rparr>)"
  proof (rule evolves_refs [OF ev])
    show "?H p = Some (h1\<lparr>base := (base h1)\<lparr>bh_refs := 1\<rparr>\<rparr>)" by simp
    show "has_refs (base (h1\<lparr>base := (base h1)\<lparr>bh_refs := 1\<rparr>\<rparr>))" by (simp add: has_refs_def)
  qed
  have a1: "away_step mine p xs S s S1 s1" using 1(4,5,6,8,9) by (rule away_stepI)
  have a2: "away_step mine p [] S1 s1 S' s'"
    using evolves_away [OF ev, of p] 2(5,7,8) by (simp add: away_step_def freed_Nil)
  show thesis
  proof (rule that [OF 1(1) _ 2(2,3) h'(1)])
    show "insert_push d S1 s1 p charge = Some (S', s')" using 2(1) v1(3) by simp
    show "client_view h' = (Some (key, value, context), dep_hash d key, charge, 1)"
      using h'(2) h1(2) p(2) by (simp add: client_view_def)
    show "away_step mine p xs S s S' s'" using away_step_trans [OF a1 a2] by simp
    show "sh_usage s' \<le> sh_capacity s \<or> set (sp_ev_ptrs a (sh_eviction s')) = {p}"
      using cap1 2(9,11) 1(8) by auto
  qed (use 1 2 v1(3) in simp_all)
qed

text \<open>An insertion succeeds; the new handle is indexed under its key and has one reference; what is
  evicted or replaced is handed back; and the usage ends within the capacity unless nothing else could be
  evicted.\<close>

lemma shard_insert_ok:
  assumes inv: "shard_inv a (dep_hash d) mine {} {} {} (cs_heap S) s" and sh: "shared_inv a S"
    and m: "mine (dep_hash d key)" and lim: "sh_usage s + charge < usize_lim"
  shows "\<exists>xs S' s' h. shard_insert d S s (dep_hash d key) key value charge context lre = Some (cs_next S, lre @ xs, S', s') \<and>
    shard_inv a (dep_hash d) mine {} {} {} (cs_heap S') s' \<and> shared_inv a S' \<and>
    cs_heap S (cs_next S) = None \<and> cs_heap S' (cs_next S) = Some h \<and>
    client_view h = (Some (key, value, context), dep_hash d key, charge, 1) \<and>
    away_step mine (cs_next S) xs S s S' s' \<and> cs_next S' = Suc (cs_next S) \<and> sh_usage s' \<le> sh_usage s + charge \<and>
    (sh_usage s' \<le> sh_capacity s \<or> set (sp_ev_ptrs a (sh_eviction s')) = {cs_next S}) \<and>
    cs_next S \<in> sp_ix_ptrs a (sh_indexer s') \<and>
    (\<forall>q \<in> sp_ix_ptrs a (sh_indexer s') - {cs_next S}.
       q \<in> sp_ix_ptrs a (sh_indexer s) \<and> key_at (cs_heap S) q \<noteq> Some key)"
proof -
  let ?p = "cs_next S"
  obtain S1 xs S2 s2 h2 where
    1: "insert_alloc d S (dep_hash d key) key value charge context = Some (cs_next S, S1)"
      "shard_evict d charge lre S1 s = Some (lre @ xs, S2, s2)"
      "shard_inv a (dep_hash d) mine {cs_next S} {cs_next S} {} (cs_heap S2) s2" "shared_inv a S2"
      "cs_heap S (cs_next S) = None" "cs_heap S2 (cs_next S) = Some h2"
      "client_view h2 = (Some (key, value, context), dep_hash d key, charge, 0)"
      "away_step mine (cs_next S) xs S s S2 s2" "cs_next S2 = Suc (cs_next S)" "sh_usage s2 \<le> sh_usage s"
      "sh_usage s2 + charge \<le> sh_capacity s2 \<or> sp_ev_ptrs a (sh_eviction s2) = []"
      "sp_ix_ptrs a (sh_indexer s2) \<subseteq> sp_ix_ptrs a (sh_indexer s)" "cs_next S \<notin> sp_ix_ptrs a (sh_indexer s2)"
    by (rule insert_make_room [OF inv sh m lim])
  have lim2: "sh_usage s2 + charge < usize_lim" using 1(10) lim by simp
  obtain ys S3 s3 S' s' h' where
    2: "insert_link d (lre @ xs) S2 s2 ?p = Some ((lre @ xs) @ ys, S3, s3)" "insert_push d S3 s3 ?p charge = Some (S', s')"
      "shard_inv a (dep_hash d) mine {} {} {} (cs_heap S') s'" "shared_inv a S'" "cs_heap S' ?p = Some h'"
      "client_view h' = (Some (key, value, context), dep_hash d key, charge, 1)"
      "away_step mine ?p ys S2 s2 S' s'" "cs_next S' = cs_next S2" "sh_usage s' \<le> sh_usage s2 + charge"
      "sh_usage s' \<le> sh_capacity s2 \<or> set (sp_ev_ptrs a (sh_eviction s')) = {?p}"
      "sp_ix_ptrs a (sh_indexer s') = insert ?p {q \<in> sp_ix_ptrs a (sh_indexer s2). key_at (cs_heap S2) q \<noteq> Some key}"
    by (rule insert_finish [OF 1(3,4,6,7) m 1(13) lim2 1(11)])
  have "shard_insert d S s (dep_hash d key) key value charge context lre = Some (?p, lre @ xs @ ys, S', s')"
    using 1(1,2) 2(1,2) by (simp add: shard_insert_def)
  moreover have "\<forall>q \<in> sp_ix_ptrs a (sh_indexer s') - {?p}.
      q \<in> sp_ix_ptrs a (sh_indexer s) \<and> key_at (cs_heap S) q \<noteq> Some key"
  proof
    fix q assume "q \<in> sp_ix_ptrs a (sh_indexer s') - {?p}"
    then have q: "q \<in> sp_ix_ptrs a (sh_indexer s2)" "key_at (cs_heap S2) q \<noteq> Some key" "q \<noteq> ?p"
      using 2(11) by auto
    have ev: "evolves mine ((cs_heap S)(?p := None)) ((cs_heap S2)(?p := None))" using 1(8) by (simp add: away_step_def)
    have "q \<in> own mine (cs_heap S2)" using shard_invD(5) [OF 1(3)] q(1) by blast
    then obtain g where g: "cs_heap S2 q = Some g" by (rule ownE)
    then have g2: "((cs_heap S2)(?p := None)) q = Some g" using q(3) by simp
    from evolvesD [OF ev g2] obtain g1 where g1: "((cs_heap S)(?p := None)) q = Some g1" "client_view g = client_view g1" .
    have "cs_heap S q = Some g1" using g1(1) q(3) by simp
    then have "key_at (cs_heap S) q \<noteq> Some key"
      using g q(2) g1(2) by (simp add: key_at_def client_view_def bh_key_def)
    with q(1) 1(12) show "q \<in> sp_ix_ptrs a (sh_indexer s) \<and> key_at (cs_heap S) q \<noteq> Some key" by blast
  qed
  moreover have "sh_capacity s2 = sh_capacity s" using 1(8) by (simp add: away_step_def)
  moreover have "?p \<in> sp_ix_ptrs a (sh_indexer s')" using 2(11) by simp
  ultimately show ?thesis
    using 1(5,9,10) 2(3-6,8-10) away_step_trans [OF 1(8) 2(7)]
    by (intro exI [of _ "xs @ ys"] exI [of _ S'] exI [of _ s'] exI [of _ h']) auto
qed

end

section \<open>Clearing\<close>

lemma shard_inv_mono:
  assumes inv: "shard_inv a hashf mine U X Y H s" and X: "X \<subseteq> X'"
  shows "shard_inv a hashf mine U X' Y H s"
proof (rule shard_invI)
  show "handle_inv a hashf X' s p h" if "H p = Some h" "mine (bh_hash (base h))" for p h
    using shard_invD(7) [OF inv that] X by (auto simp: handle_inv_def)
  show "sh_usage s \<le> sh_capacity s \<or> (\<forall>p \<in> own mine H - X'. holds_at H p (\<lambda>h. has_refs (base h)))"
    using shard_invD(10) [OF inv] X by auto
qed (use shard_invD [OF inv] in simp_all)

context cache_shard
begin

lemma clear_release_ok:
  assumes "shard_inv a (dep_hash d) mine {} (set ps) {} (cs_heap S) s" and "shared_inv a S"
    and "distinct ps" "set ps \<subseteq> own mine (cs_heap S)" "sp_ix_ptrs a (sh_indexer s) = {}"
  shows "\<exists>xs S' s'. clear_release d lre S s ps = Some (lre @ xs, S', s') \<and>
    shard_inv a (dep_hash d) mine {} {} {} (cs_heap S') s' \<and> shared_inv a S' \<and> shard_step a mine xs S s S' s'"
  using assms
proof (induction ps arbitrary: lre S s)
  case Nil
  then show ?case using shard_step_refl [of a mine S s] by (intro exI [of _ "[]"] exI [of _ S] exI [of _ s]) simp
next
  case (Cons p ps)
  note inv = Cons.prems(1)
  obtain h where h: "cs_heap S p = Some h" "mine (bh_hash (base h))" using Cons.prems(4) by (auto simp: own_def)
  have hi: "handle_inv a (dep_hash d) (set (p # ps)) s p h" by (rule shard_invD(7) [OF inv h])
  have out: "\<not> in_ix h" "\<not> in_ev h"
    using hi Cons.prems(5) shard_invD(3) [OF inv] by (auto simp: handle_inv_def)
  have inv': "shard_inv a (dep_hash d) mine {} (insert p (set ps)) {} (cs_heap S) s" using inv by simp
  obtain r S1 s1 where 1: "try_release_handle d S s p False = Some (r, S1, s1)"
      "shard_inv a (dep_hash d) mine {} (set ps) {} (cs_heap S1) s1" "shared_inv a S1"
      "shard_step a mine (case r of None \<Rightarrow> [] | Some x \<Rightarrow> [x]) S s S1 s1"
      "dom (cs_heap S) - {p} \<subseteq> dom (cs_heap S1)"
    using try_release_ok [OF inv' Cons.prems(2) h] out by blast
  have ev: "evolves mine (cs_heap S) (cs_heap S1)" using 1(4) by (simp add: shard_step_def)
  have "set ps \<subseteq> own mine (cs_heap S1)"
  proof
    fix q assume "q \<in> set ps"
    then have q: "q \<in> own mine (cs_heap S)" "q \<noteq> p" using Cons.prems(3,4) by auto
    then have "q \<in> dom (cs_heap S1)" using 1(5) by (auto simp: own_def)
    with q evolves_own [OF ev] show "q \<in> own mine (cs_heap S1)" by blast
  qed
  moreover have "sp_ix_ptrs a (sh_indexer s1) = {}" using 1(4) Cons.prems(5) by (simp add: shard_step_def)
  ultimately obtain xs S' s' where
    2: "clear_release d (push_entry lre r) S1 s1 ps = Some (push_entry lre r @ xs, S', s')"
      "shard_inv a (dep_hash d) mine {} {} {} (cs_heap S') s'" "shared_inv a S'" "shard_step a mine xs S1 s1 S' s'"
    using Cons.IH [OF 1(2,3)] Cons.prems(3) by (metis distinct.simps(2))
  have "clear_release d lre S s (p # ps) = Some (lre @ (case r of None \<Rightarrow> [] | Some x \<Rightarrow> [x]) @ xs, S', s')"
    using h(1) out(1) 1(1) 2(1) by (simp add: push_entry_append)
  with shard_step_trans [OF 1(4) 2(4)] 2(2,3) show ?case by blast
qed

lemma shard_clear_ok:
  assumes inv: "shard_inv a (dep_hash d) mine {} {} {} (cs_heap S) s" and sh: "shared_inv a S"
  shows "\<exists>xs S' s'. shard_clear d lre S s = Some (lre @ xs, S', s') \<and>
    shard_inv a (dep_hash d) mine {} {} {} (cs_heap S') s' \<and> shared_inv a S' \<and> shard_step a mine xs S s S' s' \<and>
    sp_ix_ptrs a (sh_indexer s') = {}"
proof -
  note I = shard_invD [OF inv]
  let ?P = "sp_ix_ptrs a (sh_indexer s)" and ?E = "set (sp_ev_ptrs a (sh_eviction s))"
  define H1 where "H1 = (\<lambda>p. if p \<in> ?P then map_option (mark_ix False) (cs_heap S p) else cs_heap S p)"
  obtain ps i' where 1: "ix_drain (dep_ix d) (cs_heap S) (sh_indexer s) = Some (ps, H1, i')" "distinct ps"
      "set ps = ?P" "sp_ix_ptrs a i' = {}" "\<forall>H'. sp_ix_ok a H' i'"
    using ix.ix_drain_ok [OF I(2), folded H1_def] by blast
  let ?s1 = "s\<lparr>sh_indexer := i'\<rparr>"
  have inv1: "shard_inv a (dep_hash d) mine {} {} ?E H1 ?s1"
    by (rule inv_indexer [OF inv, of _ ?P]) (use 1(4,5) in \<open>simp_all add: H1_def\<close>)
  note I1 = shard_invD [OF inv1]
  have own1: "own mine H1 = own mine (cs_heap S)" by (intro own_cong) (auto simp: H1_def option.map_comp comp_def)
  have dom1: "dom H1 = dom (cs_heap S)" by (auto simp: H1_def dom_def)
  have ev1: "evolves mine (cs_heap S) H1"
    by (rule evolvesI) (use I(5) in \<open>auto simp: H1_def own_def\<close>)
  have ch: "charges_of H1 (sp_ev_ptrs a (sh_eviction s)) < usize_lim"
    using inv_ev_sum [OF inv1, of ?E] I1(4,9) charges_of_set [OF ev.ok_distinct [OF I(1)], of H1] by simp
  obtain qs H2 e' where 2: "ev_clear (dep_ev d) H1 (sh_eviction s) = Some (qs, H2, e')" "sp_ev_ok a H2 e'"
      "sp_ev_ptrs a e' = []" "set qs = ?E" "heap_upd H1 H2 ?E" "\<forall>p \<in> set qs. evictable (sp_clean a) H2 p"
    using ev.clear_ok [of H1 "sh_eviction s"] I1(1) ch by auto
  let ?s2 = "s\<lparr>sh_indexer := i', sh_eviction := e'\<rparr>"
  let ?S2 = "cs_metrics_update (m_remove_update (\<lambda>n. fetch_add n (length ps))) (S\<lparr>cs_heap := H2\<rparr>)"
  have "shard_inv a (dep_hash d) mine {} ?E {} H2 (?s1\<lparr>sh_eviction := e'\<rparr>)"
    by (rule inv_eviction [OF inv1 _ _ 2(2), of ?E]) (use 2(3,4,5,6) I1(4) in auto)
  then have "shard_inv a (dep_hash d) mine {} ?P {} H2 (?s1\<lparr>sh_eviction := e'\<rparr>)"
    by (rule shard_inv_mono) (use I(3) in simp)
  then have inv2: "shard_inv a (dep_hash d) mine {} (set ps) {} (cs_heap ?S2) ?s2" using 1(3) by simp
  have dom2: "dom H2 = dom (cs_heap S)" using heap_upd_dom [OF 2(5)] dom1 by simp
  have ev2: "evolves mine (cs_heap S) H2"
    using evolves_trans [OF ev1 evolves_heap_upd [OF 2(5)]] I(4) own1 by simp
  have sh2: "shared_inv a ?S2" using heap_upd_shared [OF sh equalityD1 [OF dom2]] by simp
  have own2: "set ps \<subseteq> own mine (cs_heap ?S2)" using heap_upd_own [OF 2(5)] own1 1(3) I(5) by simp
  have "sp_ix_ptrs a (sh_indexer ?s2) = {}" using 1(4) by simp
  from clear_release_ok [OF inv2 sh2 1(2) own2 this, of lre] obtain xs S' s' where
    3: "clear_release d lre ?S2 ?s2 ps = Some (lre @ xs, S', s')"
      "shard_inv a (dep_hash d) mine {} {} {} (cs_heap S') s'" "shared_inv a S'" "shard_step a mine xs ?S2 ?s2 S' s'"
    by blast
  have "?E \<subseteq> ?P" using I(3) by simp
  then have "shard_clear d lre S s = Some (lre @ xs, S', s')"
    using 1(1,3) 2(1,4) 3(1) by (simp add: shard_clear_def)
  moreover have "shard_step a mine [] S s ?S2 ?s2"
    by (rule shard_step_same_dom) (use ev2 dom2 1(4) in simp_all)
  from shard_step_trans [OF this 3(4)] have "shard_step a mine xs S s S' s'" by simp
  moreover have "sp_ix_ptrs a (sh_indexer s') = {}" using 3(4) 1(4) by (simp add: shard_step_def)
  ultimately show ?thesis using 3(2,3) by blast
qed

end

end
