(* ===== verification/Generic_Cache.thy ===== *)
theory Generic_Cache
  imports Shard_Evict
begin

text \<open>
  \<^verbatim>\<open>GenericCache\<close>, \<^verbatim>\<open>GenericCacheEntry\<close> and \<^verbatim>\<open>GenericEntry\<close> of \<^verbatim>\<open>foyer-memory/src/generic.rs\<close>:
  the sharded cache. An operation takes the lock of one shard, so it is one step on the cache; the list
  \<open>gc_released\<close> is the sequence of calls of \<^verbatim>\<open>listener.on_release\<close>. An entry that a user holds is its
  handle's address. A \<^verbatim>\<open>oneshot\<close> channel is a number, and the entries an operation sends to waiters are
  part of its result.

  \<open>cache_inv\<close> is the invariant: every shard has its own, the handles of the shards are disjoint by hash,
  and the reference count of a handle is the number of entries held for it. \<open>client_step\<close> is the step
  relation of a program that uses the cache.
\<close>

section \<open>Definitions\<close>

record 'g CacheConfig =
  cfg_capacity :: usize
  cfg_shards :: usize
  cfg_eviction_config :: 'g
  cfg_object_pool_capacity :: usize

record ('k, 'v, 'c, 'x, 'e, 'i, 'q) GenericCache =
  gc_shards :: "('k, 'e, 'i) CacheShard list"
  gc_capacity :: usize
  gc_shared :: "('k, 'v, 'c, 'x, 'q) CacheSharedState"
  gc_released :: "('k \<times> 'v \<times> CacheContext \<times> usize) list"
  gc_next_waiter :: nat

datatype GenericEntry = Invalid | Hit ptr | Wait nat | Miss

fun make_shards :: "('k, 'v, 'c, 'x, 'e, 'g, 'i, 'q) cache_deps \<Rightarrow> usize \<Rightarrow> 'g \<Rightarrow> nat \<Rightarrow>
    ('k, 'e, 'i) CacheShard list option" where
  "make_shards d capacity config 0 = Some []"
| "make_shards d capacity config (Suc n) = do {
     s \<leftarrow> shard_new d capacity config;
     ss \<leftarrow> make_shards d capacity config n;
     Some (s # ss)
   }"

definition gc_new :: "('k, 'v, 'c, 'x, 'e, 'g, 'i, 'q) cache_deps \<Rightarrow> 'g CacheConfig \<Rightarrow>
    ('k, 'v, 'c, 'x, 'e, 'i, 'q) GenericCache option" where
  "gc_new d config = do {
     pool \<leftarrow> pool_new (dep_pool d) (cfg_object_pool_capacity config);
     ensure (cfg_shards config \<noteq> 0);
     let shard_capacity = cfg_capacity config div cfg_shards config;
     shards \<leftarrow> make_shards d shard_capacity (cfg_eviction_config config) (cfg_shards config);
     Some \<lparr>gc_shards = shards, gc_capacity = cfg_capacity config,
       gc_shared = \<lparr>cs_heap = Map.empty, cs_next = 0, cs_pool = pool, cs_metrics = Metrics_default\<rparr>,
       gc_released = [], gc_next_waiter = 0\<rparr>
   }"

definition shard_index :: "('k, 'v, 'c, 'x, 'e, 'i, 'q) GenericCache \<Rightarrow> nat \<Rightarrow> nat option" where
  "shard_index g hash = do {
     ensure (gc_shards g \<noteq> []);
     Some (hash mod length (gc_shards g))
   }"

text \<open>The calls of the listener, outside of the lock.\<close>

definition on_release_all :: "('k, 'v, 'c, 'x, 'e, 'g, 'i, 'q) cache_deps \<Rightarrow> ('k, 'v, 'c) entry list \<Rightarrow>
    ('k \<times> 'v \<times> CacheContext \<times> usize) list" where
  "on_release_all d xs = map (\<lambda>(k, v, c, n). (k, v, dep_into d c, n)) xs"

definition opt_list :: "'a option \<Rightarrow> 'a list" where
  "opt_list r = (case r of None \<Rightarrow> [] | Some x \<Rightarrow> [x])"

definition refs_for_waiters :: "('k, 'v, 'c, 'x, 'q) CacheSharedState \<Rightarrow> ptr \<Rightarrow> nat list option \<Rightarrow>
    ('k, 'v, 'c, 'x, 'q) CacheSharedState option" where
  "refs_for_waiters S p waiters = (case waiters of
       None \<Rightarrow> Some S
     | Some ws \<Rightarrow> do {
         h \<leftarrow> cs_heap S p;
         (r, b) \<leftarrow> inc_refs_by (base h) (length ws);
         Some (S\<lparr>cs_heap := (cs_heap S)(p \<mapsto> h\<lparr>base := b\<rparr>)\<rparr>)
       })"

definition gc_insert_with_context :: "('k, 'v, 'c, 'x, 'e, 'g, 'i, 'q) cache_deps \<Rightarrow>
    ('k, 'v, 'c, 'x, 'e, 'i, 'q) GenericCache \<Rightarrow> 'k \<Rightarrow> 'v \<Rightarrow> usize \<Rightarrow> CacheContext \<Rightarrow>
    ((ptr \<times> (nat \<times> ptr) list) \<times> ('k, 'v, 'c, 'x, 'e, 'i, 'q) GenericCache) option" where
  "gc_insert_with_context d g key value charge context = do {
     let hash = dep_hash d key;
     i \<leftarrow> shard_index g hash;
     let s = gc_shards g ! i;
     let waiters = sh_waiters s key;
     (p, to_deallocate, S1, s1) \<leftarrow> shard_insert d (gc_shared g) (s\<lparr>sh_waiters := (sh_waiters s)(key := None)\<rparr>)
       hash key value charge (dep_from d context) [];
     S2 \<leftarrow> refs_for_waiters S1 p waiters;
     let sends = (case waiters of None \<Rightarrow> [] | Some ws \<Rightarrow> map (\<lambda>w. (w, p)) ws);
     Some ((p, sends), g\<lparr>gc_shards := (gc_shards g)[i := s1], gc_shared := S2,
       gc_released := gc_released g @ on_release_all d to_deallocate\<rparr>)
   }"

definition gc_insert :: "('k, 'v, 'c, 'x, 'e, 'g, 'i, 'q) cache_deps \<Rightarrow>
    ('k, 'v, 'c, 'x, 'e, 'i, 'q) GenericCache \<Rightarrow> 'k \<Rightarrow> 'v \<Rightarrow> usize \<Rightarrow>
    ((ptr \<times> (nat \<times> ptr) list) \<times> ('k, 'v, 'c, 'x, 'e, 'i, 'q) GenericCache) option" where
  "gc_insert d g key value charge = gc_insert_with_context d g key value charge CacheContext_default"

definition gc_remove :: "('k, 'v, 'c, 'x, 'e, 'g, 'i, 'q) cache_deps \<Rightarrow>
    ('k, 'v, 'c, 'x, 'e, 'i, 'q) GenericCache \<Rightarrow> 'k \<Rightarrow> ('k, 'v, 'c, 'x, 'e, 'i, 'q) GenericCache option" where
  "gc_remove d g key = do {
     let hash = dep_hash d key;
     i \<leftarrow> shard_index g hash;
     (entry, S, s) \<leftarrow> shard_remove d (gc_shared g) (gc_shards g ! i) hash key;
     Some (g\<lparr>gc_shards := (gc_shards g)[i := s], gc_shared := S,
       gc_released := gc_released g @ on_release_all d (opt_list entry)\<rparr>)
   }"

definition gc_get :: "('k, 'v, 'c, 'x, 'e, 'g, 'i, 'q) cache_deps \<Rightarrow>
    ('k, 'v, 'c, 'x, 'e, 'i, 'q) GenericCache \<Rightarrow> 'k \<Rightarrow>
    (ptr option \<times> ('k, 'v, 'c, 'x, 'e, 'i, 'q) GenericCache) option" where
  "gc_get d g key = do {
     let hash = dep_hash d key;
     i \<leftarrow> shard_index g hash;
     (r, S, s) \<leftarrow> shard_get d (gc_shared g) (gc_shards g ! i) hash key;
     Some (r, g\<lparr>gc_shards := (gc_shards g)[i := s], gc_shared := S\<rparr>)
   }"

text \<open>\<^verbatim>\<open>clear\<close> collects what is released and drops it: the listener is not called.\<close>

fun clear_shards :: "('k, 'v, 'c, 'x, 'e, 'g, 'i, 'q) cache_deps \<Rightarrow> ('k, 'v, 'c) entry list \<Rightarrow>
    ('k, 'v, 'c, 'x, 'q) CacheSharedState \<Rightarrow> ('k, 'e, 'i) CacheShard list \<Rightarrow>
    (('k, 'v, 'c) entry list \<times> ('k, 'v, 'c, 'x, 'q) CacheSharedState \<times> ('k, 'e, 'i) CacheShard list) option" where
  "clear_shards d lre S [] = Some (lre, S, [])"
| "clear_shards d lre S (s # ss) = do {
     (lre1, S1, s1) \<leftarrow> shard_clear d lre S s;
     (lre2, S2, ss2) \<leftarrow> clear_shards d lre1 S1 ss;
     Some (lre2, S2, s1 # ss2)
   }"

definition gc_clear :: "('k, 'v, 'c, 'x, 'e, 'g, 'i, 'q) cache_deps \<Rightarrow>
    ('k, 'v, 'c, 'x, 'e, 'i, 'q) GenericCache \<Rightarrow> ('k, 'v, 'c, 'x, 'e, 'i, 'q) GenericCache option" where
  "gc_clear d g = do {
     (to_deallocate, S, ss) \<leftarrow> clear_shards d [] (gc_shared g) (gc_shards g);
     Some (g\<lparr>gc_shards := ss, gc_shared := S\<rparr>)
   }"

definition gc_usage :: "('k, 'v, 'c, 'x, 'e, 'i, 'q) GenericCache \<Rightarrow> usize option" where
  "gc_usage g = fold (\<lambda>s r. do { u \<leftarrow> r; uadd u (sh_usage s) }) (gc_shards g) (Some 0)"

definition gc_try_release_external_handle :: "('k, 'v, 'c, 'x, 'e, 'g, 'i, 'q) cache_deps \<Rightarrow>
    ('k, 'v, 'c, 'x, 'e, 'i, 'q) GenericCache \<Rightarrow> ptr \<Rightarrow> ('k, 'v, 'c, 'x, 'e, 'i, 'q) GenericCache option" where
  "gc_try_release_external_handle d g p = do {
     h \<leftarrow> cs_heap (gc_shared g) p;
     i \<leftarrow> shard_index g (bh_hash (base h));
     (entry, S, s) \<leftarrow> try_release_external_handle d (gc_shared g) (gc_shards g ! i) p;
     Some (g\<lparr>gc_shards := (gc_shards g)[i := s], gc_shared := S,
       gc_released := gc_released g @ on_release_all d (opt_list entry)\<rparr>)
   }"

text \<open>\<^verbatim>\<open>Drop\<close> and \<^verbatim>\<open>Clone\<close> of an entry, and what an entry gives access to.\<close>

definition entry_drop :: "('k, 'v, 'c, 'x, 'e, 'g, 'i, 'q) cache_deps \<Rightarrow>
    ('k, 'v, 'c, 'x, 'e, 'i, 'q) GenericCache \<Rightarrow> ptr \<Rightarrow> ('k, 'v, 'c, 'x, 'e, 'i, 'q) GenericCache option" where
  "entry_drop d g p = gc_try_release_external_handle d g p"

definition entry_clone :: "('k, 'v, 'c, 'x, 'e, 'i, 'q) GenericCache \<Rightarrow> ptr \<Rightarrow>
    (ptr \<times> ('k, 'v, 'c, 'x, 'e, 'i, 'q) GenericCache) option" where
  "entry_clone g p = do {
     h \<leftarrow> cs_heap (gc_shared g) p;
     ensure (has_refs (base h));
     (r, b) \<leftarrow> inc_refs (base h);
     Some (p, g\<lparr>gc_shared := (gc_shared g)\<lparr>cs_heap := (cs_heap (gc_shared g))(p \<mapsto> h\<lparr>base := b\<rparr>)\<rparr>\<rparr>)
   }"

definition entry_key :: "('k, 'v, 'c, 'x, 'e, 'i, 'q) GenericCache \<Rightarrow> ptr \<Rightarrow> 'k option" where
  "entry_key g p = do { h \<leftarrow> cs_heap (gc_shared g) p; bh_key (base h) }"

definition entry_value :: "('k, 'v, 'c, 'x, 'e, 'i, 'q) GenericCache \<Rightarrow> ptr \<Rightarrow> 'v option" where
  "entry_value g p = do { h \<leftarrow> cs_heap (gc_shared g) p; bh_value (base h) }"

definition entry_charge :: "('k, 'v, 'c, 'x, 'e, 'i, 'q) GenericCache \<Rightarrow> ptr \<Rightarrow> usize option" where
  "entry_charge g p = do { h \<leftarrow> cs_heap (gc_shared g) p; Some (bh_charge (base h)) }"

definition entry_refs :: "('k, 'v, 'c, 'x, 'e, 'i, 'q) GenericCache \<Rightarrow> ptr \<Rightarrow> usize option" where
  "entry_refs g p = do { h \<leftarrow> cs_heap (gc_shared g) p; Some (bh_refs (base h)) }"

text \<open>\<^verbatim>\<open>entry\<close>: a hit, a place in the queue of a fetch that is already running, or a new fetch.\<close>

definition gc_entry :: "('k, 'v, 'c, 'x, 'e, 'g, 'i, 'q) cache_deps \<Rightarrow>
    ('k, 'v, 'c, 'x, 'e, 'i, 'q) GenericCache \<Rightarrow> 'k \<Rightarrow>
    (GenericEntry \<times> ('k, 'v, 'c, 'x, 'e, 'i, 'q) GenericCache) option" where
  "gc_entry d g key = do {
     let hash = dep_hash d key;
     i \<leftarrow> shard_index g hash;
     (r, S, s) \<leftarrow> shard_get d (gc_shared g) (gc_shards g ! i) hash key;
     (case r of
        Some p \<Rightarrow> Some (Hit p, g\<lparr>gc_shards := (gc_shards g)[i := s], gc_shared := S\<rparr>)
      | None \<Rightarrow> (case sh_waiters s key of
            Some ws \<Rightarrow> do {
              let tx = gc_next_waiter g;
              Some (Wait tx, g\<lparr>gc_shards := (gc_shards g)[i := s\<lparr>sh_waiters := (sh_waiters s)(key \<mapsto> ws @ [tx])\<rparr>],
                gc_shared := cs_metrics_update (m_queue_update (\<lambda>n. fetch_add n 1)) S, gc_next_waiter := tx + 1\<rparr>)
            }
          | None \<Rightarrow>
              Some (Miss, g\<lparr>gc_shards := (gc_shards g)[i := s\<lparr>sh_waiters := (sh_waiters s)(key \<mapsto> [])\<rparr>],
                gc_shared := cs_metrics_update (m_fetch_update (\<lambda>n. fetch_add n 1)) S\<rparr>)))
   }"

text \<open>The end of the task that \<^verbatim>\<open>entry\<close> spawns: with a value it inserts, with an error it drops the
  waiters of the key.\<close>

definition gc_fetch_err :: "('k, 'v, 'c, 'x, 'e, 'g, 'i, 'q) cache_deps \<Rightarrow>
    ('k, 'v, 'c, 'x, 'e, 'i, 'q) GenericCache \<Rightarrow> 'k \<Rightarrow>
    (nat list \<times> ('k, 'v, 'c, 'x, 'e, 'i, 'q) GenericCache) option" where
  "gc_fetch_err d g key = do {
     i \<leftarrow> shard_index g (dep_hash d key);
     let s = gc_shards g ! i;
     let dropped = (case sh_waiters s key of None \<Rightarrow> [] | Some ws \<Rightarrow> ws);
     Some (dropped, g\<lparr>gc_shards := (gc_shards g)[i := s\<lparr>sh_waiters := (sh_waiters s)(key := None)\<rparr>]\<rparr>)
   }"

definition gc_fetch_done :: "('k, 'v, 'c, 'x, 'e, 'g, 'i, 'q) cache_deps \<Rightarrow>
    ('k, 'v, 'c, 'x, 'e, 'i, 'q) GenericCache \<Rightarrow> 'k \<Rightarrow> ('v \<times> usize \<times> CacheContext) option \<Rightarrow>
    ((ptr option \<times> (nat \<times> ptr) list \<times> nat list) \<times> ('k, 'v, 'c, 'x, 'e, 'i, 'q) GenericCache) option" where
  "gc_fetch_done d g key fetched = (case fetched of
       Some (value, charge, context) \<Rightarrow> do {
         ((p, sends), g') \<leftarrow> gc_insert_with_context d g key value charge context;
         Some ((Some p, sends, []), g')
       }
     | None \<Rightarrow> do {
         (dropped, g') \<leftarrow> gc_fetch_err d g key;
         Some ((None, [], dropped), g')
       })"

section \<open>The invariant of the cache\<close>

definition shard_of :: "('k, 'v, 'c, 'x, 'e, 'i, 'q) GenericCache \<Rightarrow> nat \<Rightarrow> nat \<Rightarrow> bool" where
  "shard_of g i hash \<longleftrightarrow> hash mod length (gc_shards g) = i"

definition cache_ok :: "('k, 'v, 'c, 'x, 'e, 'i, 'q) cache_spec \<Rightarrow> ('k \<Rightarrow> nat) \<Rightarrow>
    ('k, 'v, 'c, 'x, 'e, 'i, 'q) GenericCache \<Rightarrow> bool" where
  "cache_ok a hashf g \<longleftrightarrow> gc_shards g \<noteq> [] \<and> shared_inv a (gc_shared g) \<and>
     (\<forall>i < length (gc_shards g). shard_inv a hashf (shard_of g i) {} {} {} (cs_heap (gc_shared g)) (gc_shards g ! i) \<and>
        sh_capacity (gc_shards g ! i) = gc_capacity g div length (gc_shards g))"

text \<open>The reference count of a handle is the number of the entries that are held for it.\<close>

definition refs_ok :: "('k, 'v, 'c, 'x) heap \<Rightarrow> ptr multiset \<Rightarrow> bool" where
  "refs_ok H held \<longleftrightarrow> (\<forall>p \<in># held. p \<in> dom H) \<and> (\<forall>p h. H p = Some h \<longrightarrow> bh_refs (base h) = count held p)"

definition cache_inv :: "('k, 'v, 'c, 'x, 'e, 'i, 'q) cache_spec \<Rightarrow> ('k \<Rightarrow> nat) \<Rightarrow>
    ('k, 'v, 'c, 'x, 'e, 'i, 'q) GenericCache \<Rightarrow> ptr multiset \<Rightarrow> bool" where
  "cache_inv a hashf g held \<longleftrightarrow> cache_ok a hashf g \<and> refs_ok (cs_heap (gc_shared g)) held"

text \<open>What the cache holds for a key: what \<^verbatim>\<open>get\<close> would find.\<close>

definition contents :: "('k, 'v, 'c, 'x, 'e, 'g, 'i, 'q) cache_deps \<Rightarrow>
    ('k, 'v, 'c, 'x, 'e, 'i, 'q) GenericCache \<Rightarrow> 'k \<Rightarrow> 'v option" where
  "contents d g key = do {
     i \<leftarrow> shard_index g (dep_hash d key);
     p \<leftarrow> ix_get (dep_ix d) (cs_heap (gc_shared g)) (sh_indexer (gc_shards g ! i)) (dep_hash d key) key;
     entry_value g p
   }"

text \<open>The waiters of a key.\<close>

definition waiting :: "('k, 'v, 'c, 'x, 'e, 'g, 'i, 'q) cache_deps \<Rightarrow>
    ('k, 'v, 'c, 'x, 'e, 'i, 'q) GenericCache \<Rightarrow> 'k \<Rightarrow> nat list option" where
  "waiting d g key = do {
     i \<leftarrow> shard_index g (dep_hash d key);
     sh_waiters (gc_shards g ! i) key
   }"

end
