(* ===== verification/Cache_Inv.thy ===== *)
theory Cache_Inv
  imports Generic_Cache
begin

text \<open>
  The operations of the sharded cache keep \<open>cache_inv\<close>, are defined whenever the arithmetic bounds of
  their arguments hold, and act on \<open>contents\<close> as a cache should: the map from keys to values loses
  entries and never changes one.
\<close>

section \<open>Shards do not disturb each other\<close>

lemma evolves_others:
  assumes "evolves mine H H'" "\<not> mine (bh_hash (base h))"
  shows "H' q = Some h \<longleftrightarrow> H q = Some h"
proof
  assume "H q = Some h"
  with evolves_other [OF assms(1)] assms(2) show "H' q = Some h" by blast
next
  assume h: "H' q = Some h"
  obtain g where g: "H q = Some g" "client_view h = client_view g" by (rule evolvesD [OF assms(1) h])
  with assms(2) have "\<not> mine (bh_hash (base g))" using client_view_hash by metis
  with evolves_other [OF assms(1) g(1)] g(1) h show "H q = Some h" by simp
qed

lemma own_same:
  assumes "\<And>q h. mine (bh_hash (base h)) \<Longrightarrow> H' q = Some h \<longleftrightarrow> H q = Some h"
  shows "own mine H' = own mine H"
  using assms unfolding own_def by blast

context cache_shard_core
begin

lemma inv_other_shard:
  assumes inv: "shard_inv a (dep_hash d) mine U X Y H s"
    and same: "\<And>q h. mine (bh_hash (base h)) \<Longrightarrow> H' q = Some h \<longleftrightarrow> H q = Some h"
  shows "shard_inv a (dep_hash d) mine U X Y H' s"
proof -
  note I = shard_invD [OF inv]
  have own: "own mine H' = own mine H" by (rule own_same) (rule same)
  have eq: "H' q = H q" if "q \<in> own mine H" for q using that same by (auto elim!: ownE)
  show ?thesis
  proof (rule shard_invI)
    show "sp_ev_ok a H' (sh_eviction s)" by (rule ev.ok_frame [OF I(1)]) (use I(4) eq in auto)
    show "sp_ix_ok a H' (sh_indexer s)" by (rule ix.ix_frame [OF I(2)]) (use I(5) eq in auto)
    show "handle_inv a (dep_hash d) X s p h" if "H' p = Some h" "mine (bh_hash (base h))" for p h
      using I(7) [of p h] same [OF that(2)] that by blast
    have "sum (charge_at H') (own mine H - U) = sum (charge_at H) (own mine H - U)"
      by (rule sum.cong) (use eq in \<open>auto simp: charge_at_def\<close>)
    with I(8) own show "sh_usage s = sum (charge_at H') (own mine H' - U)" by simp
    show "sh_usage s \<le> sh_capacity s \<or> (\<forall>p \<in> own mine H' - X. holds_at H' p (\<lambda>h. has_refs (base h)))"
      using I(10) own eq by (auto simp: holds_at_def)
  qed (use I(3,4,5,6,9) own in simp_all)
qed

text \<open>One shard of the cache takes a step.\<close>

lemma cache_ok_update:
  assumes ok: "cache_ok a (dep_hash d) g" and i: "i < length (gc_shards g)"
    and g': "gc_shards g' = (gc_shards g)[i := s']" "gc_shared g' = S'"
      "gc_capacity g' = gc_capacity g" "sh_capacity s' = sh_capacity (gc_shards g ! i)"
    and s': "shard_inv a (dep_hash d) (shard_of g i) {} {} {} (cs_heap S') s'" and S': "shared_inv a S'"
    and same: "\<And>q h. \<not> shard_of g i (bh_hash (base h)) \<Longrightarrow> cs_heap S' q = Some h \<longleftrightarrow> cs_heap (gc_shared g) q = Some h"
  shows "cache_ok a (dep_hash d) g'"
proof -
  have sh: "shard_of g' j = shard_of g j" for j using g'(1) by (simp add: shard_of_def fun_eq_iff)
  have "shard_inv a (dep_hash d) (shard_of g j) {} {} {} (cs_heap S') ((gc_shards g)[i := s'] ! j)"
    if j: "j < length (gc_shards g)" for j
  proof (cases "j = i")
    case True
    with s' i show ?thesis by simp
  next
    case False
    have "shard_inv a (dep_hash d) (shard_of g j) {} {} {} (cs_heap (gc_shared g)) (gc_shards g ! j)"
      using ok j by (simp add: cache_ok_def)
    from inv_other_shard [OF this] have "shard_inv a (dep_hash d) (shard_of g j) {} {} {} (cs_heap S') (gc_shards g ! j)"
      using same False by (simp add: shard_of_def)
    with False show ?thesis by simp
  qed
  moreover have "sh_capacity ((gc_shards g)[i := s'] ! j) = gc_capacity g div length (gc_shards g)"
    if "j < length (gc_shards g)" for j
    using ok that i g'(4) by (cases "j = i") (auto simp: cache_ok_def)
  ultimately show ?thesis using ok S' g' sh by (auto simp: cache_ok_def)
qed

end

section \<open>References and holders\<close>

lemma refs_ok_evolves:
  assumes r: "refs_ok H held" and ev: "evolves mine H H'"
  shows "refs_ok H' held"
  unfolding refs_ok_def
proof (intro conjI ballI allI impI)
  fix p assume p: "p \<in># held"
  with r obtain h where h: "H p = Some h" "bh_refs (base h) = count held p" by (auto simp: refs_ok_def)
  from p h(2) have "has_refs (base h)" by (simp add: has_refs_def)
  with evolves_mine [OF ev h(1)] show "p \<in> dom H'" by auto
next
  fix p h' assume "H' p = Some h'"
  with evolvesD [OF ev] obtain h where "H p = Some h" "client_view h' = client_view h" by metis
  with r show "bh_refs (base h') = count held p" by (auto simp: refs_ok_def client_view_def)
qed

lemma refs_ok_upd:
  assumes r: "refs_ok H held" and p: "H p = Some h"
    and h': "bh_refs (base h') = count held' p" and other: "\<And>q. q \<noteq> p \<Longrightarrow> count held' q = count held q"
  shows "refs_ok (H(p \<mapsto> h')) held'"
  unfolding refs_ok_def
proof (intro conjI ballI allI impI)
  fix q assume "q \<in># held'"
  then show "q \<in> dom (H(p \<mapsto> h'))"
    using r other [of q] by (cases "q = p") (auto simp: refs_ok_def count_greater_zero_iff [symmetric] simp del: count_greater_zero_iff)
next
  fix q g assume "(H(p \<mapsto> h')) q = Some g"
  then show "bh_refs (base g) = count held' q"
    using r h' other [of q] by (cases "q = p") (auto simp: refs_ok_def)
qed

lemma refs_ok_new:
  assumes r: "refs_ok (H(p := None)) held" and p: "H p = Some h" "bh_refs (base h) = 1"
  shows "refs_ok H (add_mset p held)"
proof -
  have "p \<notin># held" using r by (auto simp: refs_ok_def)
  then have c: "count held p = 0" by (simp add: count_eq_zero_iff)
  show ?thesis
    unfolding refs_ok_def
  proof (intro conjI ballI allI impI)
    fix q assume q: "q \<in># add_mset p held"
    show "q \<in> dom H"
    proof (cases "q = p")
      case False
      with q r have "q \<in> dom (H(p := None))" unfolding refs_ok_def by (metis insert_iff set_mset_add_mset_insert)
      then show ?thesis by simp
    qed (use p(1) in auto)
  next
    fix q g assume q: "H q = Some g"
    show "bh_refs (base g) = count (add_mset p held) q"
    proof (cases "q = p")
      case True
      with q p c show ?thesis by simp
    next
      case False
      with q have "(H(p := None)) q = Some g" by simp
      with r have "bh_refs (base g) = count held q" unfolding refs_ok_def by blast
      with False show ?thesis by simp
    qed
  qed
qed

lemma refs_ok_live: "refs_ok H held \<Longrightarrow> p \<in># held \<Longrightarrow> \<exists>h. H p = Some h \<and> has_refs (base h)"
  by (auto simp: refs_ok_def has_refs_def)

section \<open>The contents\<close>

context cache_shard_core
begin

lemma cache_okD:
  assumes "cache_ok a (dep_hash d) g"
  shows "shard_index g hash = Some (hash mod length (gc_shards g))" "hash mod length (gc_shards g) < length (gc_shards g)"
    "shared_inv a (gc_shared g)"
    "i < length (gc_shards g) \<Longrightarrow>
      shard_inv a (dep_hash d) (shard_of g i) {} {} {} (cs_heap (gc_shared g)) (gc_shards g ! i)"
  using assms by (auto simp: cache_ok_def shard_index_def)

lemma waiting_update:
  assumes ok: "cache_ok a (dep_hash d) g" and g': "gc_shards g' = (gc_shards g)[i := s']" and i: "i < length (gc_shards g)"
  shows "waiting d g' = (\<lambda>k. if dep_hash d k mod length (gc_shards g) = i then sh_waiters s' k else waiting d g k)"
proof
  fix k
  have "gc_shards g' \<noteq> []" using ok g' by (auto simp: cache_ok_def)
  then have "shard_index g' (dep_hash d k) = Some (dep_hash d k mod length (gc_shards g))"
    using g' by (simp add: shard_index_def)
  then show "waiting d g' k = (if dep_hash d k mod length (gc_shards g) = i then sh_waiters s' k else waiting d g k)"
    using i g' cache_okD(1) [OF ok] by (auto simp: waiting_def)
qed

lemma waiting_same:
  assumes "cache_ok a (dep_hash d) g" "gc_shards g' = (gc_shards g)[i := s']" "i < length (gc_shards g)"
    "sh_waiters s' = sh_waiters (gc_shards g ! i)"
  shows "waiting d g' = waiting d g"
  using waiting_update [OF assms(1-3)] assms(4) by (auto simp: fun_eq_iff waiting_def cache_okD(1) [OF assms(1)])

lemma contents_iff:
  assumes ok: "cache_ok a (dep_hash d) g"
  shows "contents d g k = Some v \<longleftrightarrow>
    (\<exists>p h. p \<in> sp_ix_ptrs a (sh_indexer (gc_shards g ! (dep_hash d k mod length (gc_shards g)))) \<and>
       cs_heap (gc_shared g) p = Some h \<and> bh_key (base h) = Some k \<and> bh_value (base h) = Some v)"
proof -
  let ?i = "dep_hash d k mod length (gc_shards g)" and ?H = "cs_heap (gc_shared g)"
  have ix: "sp_ix_ok a ?H (sh_indexer (gc_shards g ! ?i))"
    using shard_invD(2) [OF cache_okD(4) [OF ok cache_okD(2) [OF ok]]] .
  show ?thesis
  proof (cases "ix_get (dep_ix d) ?H (sh_indexer (gc_shards g ! ?i)) (dep_hash d k) k")
    case None
    then have "\<forall>p \<in> sp_ix_ptrs a (sh_indexer (gc_shards g ! ?i)). key_at ?H p \<noteq> Some k"
      using ix.ix_get_ok [OF ix, of k] by auto
    then have "\<nexists>p h. p \<in> sp_ix_ptrs a (sh_indexer (gc_shards g ! ?i)) \<and> ?H p = Some h \<and> bh_key (base h) = Some k"
      using key_at_Some [of ?H] by metis
    moreover have "contents d g k = None" using None by (simp add: contents_def cache_okD(1) [OF ok])
    ultimately show ?thesis by simp blast
  next
    case (Some p)
    then have p: "p \<in> sp_ix_ptrs a (sh_indexer (gc_shards g ! ?i))" "key_at ?H p = Some k"
      using ix.ix_get_ok [OF ix, of k p] by auto
    obtain h where h: "?H p = Some h" "bh_key (base h) = Some k"
      using p(2) by (cases "?H p") (auto simp: key_at_def)
    have c: "contents d g k = bh_value (base h)"
      using Some h(1) by (simp add: contents_def cache_okD(1) [OF ok] entry_value_def)
    have only: "q = p" if "q \<in> sp_ix_ptrs a (sh_indexer (gc_shards g ! ?i))" "?H q = Some hq" "bh_key (base hq) = Some k" for q hq
      using ix.ix_key_unique [OF ix that(1) p(1)] key_at_Some [of ?H, OF that(2)] that(3) p(2) by simp
    show ?thesis
    proof
      assume "contents d g k = Some v"
      with c p(1) h show "\<exists>p h. p \<in> sp_ix_ptrs a (sh_indexer (gc_shards g ! ?i)) \<and> ?H p = Some h \<and>
        bh_key (base h) = Some k \<and> bh_value (base h) = Some v" by auto
    next
      assume "\<exists>p h. p \<in> sp_ix_ptrs a (sh_indexer (gc_shards g ! ?i)) \<and> ?H p = Some h \<and>
        bh_key (base h) = Some k \<and> bh_value (base h) = Some v"
      then obtain q hq where q: "q \<in> sp_ix_ptrs a (sh_indexer (gc_shards g ! ?i))" "?H q = Some hq"
        "bh_key (base hq) = Some k" "bh_value (base hq) = Some v" by blast
      from only [OF q(1,2,3)] q h c show "contents d g k = Some v" by simp
    qed
  qed
qed

lemma contents_leI:
  assumes ok: "cache_ok a (dep_hash d) g'"
    and le: "\<And>p h' k v. p \<in> sp_ix_ptrs a (sh_indexer (gc_shards g' ! (dep_hash d k mod length (gc_shards g')))) \<Longrightarrow>
      cs_heap (gc_shared g') p = Some h' \<Longrightarrow> bh_key (base h') = Some k \<Longrightarrow> bh_value (base h') = Some v \<Longrightarrow> m k = Some v"
  shows "map_le (contents d g') m"
proof -
  have "contents d g' k = m k" if "k \<in> dom (contents d g')" for k
  proof -
    from that obtain v where v: "contents d g' k = Some v" by blast
    with contents_iff [OF ok] le have "m k = Some v" by blast
    with v show ?thesis by simp
  qed
  then show ?thesis by (simp add: map_le_def)
qed

end

lemma client_view_key: "client_view h' = client_view h \<Longrightarrow> bh_key (base h') = bh_key (base h)"
  by (simp add: client_view_def bh_key_def)

lemma client_view_value: "client_view h' = client_view h \<Longrightarrow> bh_value (base h') = bh_value (base h)"
  by (simp add: client_view_def bh_value_def)

text \<open>Handles keep their entries.\<close>

definition same_entries :: "('k, 'v, 'c, 'x) heap \<Rightarrow> ('k, 'v, 'c, 'x) heap \<Rightarrow> bool" where
  "same_entries H H' \<longleftrightarrow> (\<forall>q h'. H' q = Some h' \<longrightarrow> (\<exists>h. H q = Some h \<and> bh_entry (base h') = bh_entry (base h)))"

lemma same_entriesD:
  assumes "same_entries H H'" "H' q = Some h'"
  obtains h where "H q = Some h" "bh_key (base h') = bh_key (base h)" "bh_value (base h') = bh_value (base h)"
  using assms unfolding same_entries_def bh_key_def bh_value_def by metis

lemma same_entries_evolves: "evolves mine H H' \<Longrightarrow> same_entries H H'"
  unfolding same_entries_def by (metis client_view_def evolvesD prod.inject)

lemma same_entries_refs: "H p = Some h \<Longrightarrow> same_entries H (H(p \<mapsto> h\<lparr>base := (base h)\<lparr>bh_refs := r\<rparr>\<rparr>))"
  by (simp add: same_entries_def)

lemma same_entries_trans: "same_entries H H1 \<Longrightarrow> same_entries H1 H2 \<Longrightarrow> same_entries H H2"
  unfolding same_entries_def by metis

lemma same_entries_key: "same_entries H H' \<Longrightarrow> H' q \<noteq> None \<Longrightarrow> key_at H' q = key_at H q"
  unfolding same_entries_def key_at_def bh_key_def by fastforce

text \<open>
  What a step of the cache does to the handles that were on the heap, \<open>H'\<close> the heap after it without the
  handles it allocates: no entry changes, and the calls of the listener are the entries of the handles that
  were freed, each once.
\<close>

definition accounted :: "('k, 'v, 'c, 'x, 'e, 'g, 'i, 'q) cache_deps \<Rightarrow> ('k, 'v, 'c, 'x, 'e, 'i, 'q) GenericCache \<Rightarrow>
    ('k, 'v, 'c, 'x, 'e, 'i, 'q) GenericCache \<Rightarrow> ('k, 'v, 'c, 'x) heap \<Rightarrow> bool" where
  "accounted d g g' H' \<longleftrightarrow> same_entries (cs_heap (gc_shared g)) H' \<and>
     (\<exists>xs. gc_released g' = gc_released g @ on_release_all d xs \<and> freed (cs_heap (gc_shared g)) H' xs)"

lemma accountedI:
  "same_entries (cs_heap (gc_shared g)) H' \<Longrightarrow> gc_released g' = gc_released g @ on_release_all d xs \<Longrightarrow>
   freed (cs_heap (gc_shared g)) H' xs \<Longrightarrow> accounted d g g' H'"
  unfolding accounted_def by blast

lemma accounted_quiet:
  "same_entries (cs_heap (gc_shared g)) H' \<Longrightarrow> gc_released g' = gc_released g \<Longrightarrow>
   dom H' = dom (cs_heap (gc_shared g)) \<Longrightarrow> accounted d g g' H'"
  by (rule accountedI [of _ _ _ _ "[]"]) (simp_all add: on_release_all_def freed_Nil)

text \<open>A change of a reference count does not change which entries are freed.\<close>

lemma freed_refs:
  fixes H :: "('k, 'v, 'c, 'x) heap"
  assumes "freed (H(p \<mapsto> h\<lparr>base := (base h)\<lparr>bh_refs := r\<rparr>\<rparr>)) H' xs" "H p = Some h"
  shows "freed H H' xs"
proof -
  have "entry_at (H(p \<mapsto> h\<lparr>base := (base h)\<lparr>bh_refs := r\<rparr>\<rparr>)) = entry_at H"
    using assms(2) by (auto simp: entry_at_def fun_eq_iff)
  moreover have "dom (H(p \<mapsto> h\<lparr>base := (base h)\<lparr>bh_refs := r\<rparr>\<rparr>)) = dom H" using assms(2) by auto
  ultimately show ?thesis using assms(1) unfolding freed_def by simp
qed

lemma freed_Nil_dom: "freed H H' [] \<Longrightarrow> dom H' = dom H"
  by (auto simp: freed_def)

lemma shard_inv_waiters [simp]:
  "shard_inv a hashf mine U X Y H (s\<lparr>sh_waiters := w\<rparr>) = shard_inv a hashf mine U X Y H s"
  by (simp add: shard_inv_def handle_inv_def)

context cache_shard_core
begin

text \<open>A step of one shard that adds nothing to its indexer.\<close>

lemma contents_le_step:
  assumes ok': "cache_ok a (dep_hash d) g'"
    and ok: "cache_ok a (dep_hash d) g" and g': "gc_shards g' = (gc_shards g)[i := s']"
    and ix: "sp_ix_ptrs a (sh_indexer s') \<subseteq> sp_ix_ptrs a (sh_indexer (gc_shards g ! i))"
    and same: "same_entries (cs_heap (gc_shared g)) (cs_heap (gc_shared g'))"
  shows "map_le (contents d g') (contents d g)"
proof (rule contents_leI [OF ok'])
  fix p h' k v
  let ?j = "dep_hash d k mod length (gc_shards g)"
  assume p: "p \<in> sp_ix_ptrs a (sh_indexer (gc_shards g' ! (dep_hash d k mod length (gc_shards g'))))"
    "cs_heap (gc_shared g') p = Some h'" "bh_key (base h') = Some k" "bh_value (base h') = Some v"
  obtain h where h: "cs_heap (gc_shared g) p = Some h" "bh_key (base h') = bh_key (base h)"
      "bh_value (base h') = bh_value (base h)"
    by (rule same_entriesD [OF same p(2)])
  have "p \<in> sp_ix_ptrs a (sh_indexer (gc_shards g ! ?j))"
    using p(1) g' ix cache_okD(2) [OF ok] by (cases "?j = i") auto
  with h p(3,4) show "contents d g k = Some v" unfolding contents_iff [OF ok] by auto
qed

lemma contents_keep:
  assumes ok': "cache_ok a (dep_hash d) g'"
    and ok: "cache_ok a (dep_hash d) g" and g': "gc_shards g' = (gc_shards g)[i := s']"
    and ix: "\<And>q. q \<in> sp_ix_ptrs a (sh_indexer (gc_shards g ! i)) \<Longrightarrow> key_at (cs_heap (gc_shared g)) q = Some k \<Longrightarrow>
      q \<in> sp_ix_ptrs a (sh_indexer s')"
    and same: "same_entries (cs_heap (gc_shared g)) (cs_heap (gc_shared g'))"
    and k: "contents d g k = Some v"
  shows "contents d g' k = Some v"
proof -
  let ?j = "dep_hash d k mod length (gc_shards g)"
  obtain p h where p: "p \<in> sp_ix_ptrs a (sh_indexer (gc_shards g ! ?j))" "cs_heap (gc_shared g) p = Some h"
      "bh_key (base h) = Some k" "bh_value (base h) = Some v"
    using k unfolding contents_iff [OF ok] by blast
  have j: "?j < length (gc_shards g)" by (rule cache_okD(2) [OF ok])
  have p': "p \<in> sp_ix_ptrs a (sh_indexer (gc_shards g' ! ?j))"
    using p g' ix [of p] j by (cases "?j = i") (auto simp: key_at_Some)
  have "shard_inv a (dep_hash d) (shard_of g' ?j) {} {} {} (cs_heap (gc_shared g')) (gc_shards g' ! ?j)"
    by (rule cache_okD(4) [OF ok']) (use j g' in simp)
  from shard_invD(5) [OF this] p' obtain h' where h': "cs_heap (gc_shared g') p = Some h'"
    by (auto simp: own_def)
  obtain h0 where "cs_heap (gc_shared g) p = Some h0" "bh_key (base h') = bh_key (base h0)"
      "bh_value (base h') = bh_value (base h0)"
    by (rule same_entriesD [OF same h'])
  with p h' p' g' show ?thesis unfolding contents_iff [OF ok'] by auto
qed

lemma contents_same:
  assumes ok': "cache_ok a (dep_hash d) g'"
    and ok: "cache_ok a (dep_hash d) g" and g': "gc_shards g' = (gc_shards g)[i := s']"
    and ix: "sp_ix_ptrs a (sh_indexer s') = sp_ix_ptrs a (sh_indexer (gc_shards g ! i))"
    and same: "same_entries (cs_heap (gc_shared g)) (cs_heap (gc_shared g'))"
  shows "contents d g' = contents d g"
proof (rule map_le_antisym)
  show "map_le (contents d g') (contents d g)"
    by (rule contents_le_step [OF ok' ok g' _ same]) (use ix in simp)
  show "map_le (contents d g) (contents d g')"
    unfolding map_le_def
  proof
    fix k assume "k \<in> dom (contents d g)"
    then obtain v where v: "contents d g k = Some v" by blast
    have "contents d g' k = Some v" by (rule contents_keep [OF ok' ok g' _ same v]) (use ix in simp)
    with v show "contents d g k = contents d g' k" by simp
  qed
qed

end

section \<open>Lookup\<close>

context cache_shard_core
begin

lemma shard_get_cache:
  fixes k :: 'k
  assumes inv: "cache_inv a (dep_hash d) g held" and lim: "size held + 1 < usize_lim"
  defines "i \<equiv> dep_hash d k mod length (gc_shards g)"
  obtains r S' s' where
    "shard_get d (gc_shared g) (gc_shards g ! i) (dep_hash d k) k = Some (r, S', s')"
    "cache_ok a (dep_hash d) (g\<lparr>gc_shards := (gc_shards g)[i := s'], gc_shared := S'\<rparr>)"
    "refs_ok (cs_heap S') (held + mset (opt_list r))"
    "same_entries (cs_heap (gc_shared g)) (cs_heap S')" "sh_waiters s' = sh_waiters (gc_shards g ! i)"
    "sp_ix_ptrs a (sh_indexer s') = sp_ix_ptrs a (sh_indexer (gc_shards g ! i))"
    "\<forall>p. r = Some p \<longrightarrow> p \<in> sp_ix_ptrs a (sh_indexer (gc_shards g ! i)) \<and> key_at (cs_heap S') p = Some k"
    "r = None \<longleftrightarrow> contents d g k = None" "dom (cs_heap S') = dom (cs_heap (gc_shared g))"
proof -
  have ok: "cache_ok a (dep_hash d) g" and refs: "refs_ok (cs_heap (gc_shared g)) held"
    using inv by (simp_all add: cache_inv_def)
  note G = cache_okD [OF ok]
  let ?s = "gc_shards g ! i" and ?H = "cs_heap (gc_shared g)"
  have i: "i < length (gc_shards g)" using G(2) by (simp add: i_def)
  note sinv = G(4) [OF i]
  show thesis
  proof (cases "contents d g k")
    case None
    have miss: "\<forall>p \<in> sp_ix_ptrs a (sh_indexer ?s). key_at ?H p \<noteq> Some k"
    proof (intro ballI notI)
      fix p assume p: "p \<in> sp_ix_ptrs a (sh_indexer ?s)" "key_at ?H p = Some k"
      then obtain h where h: "?H p = Some h" "bh_key (base h) = Some k" by (cases "?H p") (auto simp: key_at_def)
      then obtain v where "bh_value (base h) = Some v" by (auto simp: bh_key_def bh_value_def)
      with p h contents_iff [OF ok, of k v] None show False by (auto simp: i_def)
    qed
    let ?S' = "cs_metrics_update (m_miss_update (\<lambda>n. fetch_add n 1)) (gc_shared g)"
    show thesis
    proof (rule that [OF shard_get_miss [OF sinv miss]])
      show "cache_ok a (dep_hash d) (g\<lparr>gc_shards := (gc_shards g)[i := ?s], gc_shared := ?S'\<rparr>)"
        by (rule cache_ok_update [OF ok i, where s' = ?s and S' = ?S']) (use sinv G(3) in simp_all)
    qed (use refs None in \<open>simp_all add: opt_list_def same_entries_def\<close>)
  next
    case (Some v)
    then obtain p h where p: "p \<in> sp_ix_ptrs a (sh_indexer ?s)" "?H p = Some h" "bh_key (base h) = Some k"
      using contents_iff [OF ok, of k v] by (auto simp: i_def)
    let ?S1 = "(gc_shared g)\<lparr>cs_heap := ?H(p \<mapsto> h\<lparr>base := (base h)\<lparr>bh_refs := bh_refs (base h) + 1\<rparr>\<rparr>)\<rparr>"
    have rc: "bh_refs (base h) = count held p" using refs p(2) by (simp add: refs_ok_def)
    then have "bh_refs (base h) + 1 < usize_lim" using lim count_le_size [of held p] by simp
    from shard_get_hit [OF sinv G(3) p(2,1,3) this] obtain S' s' where
      1: "shard_get d (gc_shared g) ?s (dep_hash d k) k = Some (Some p, S', s')"
        "shard_inv a (dep_hash d) (shard_of g i) {} {} {} (cs_heap S') s'" "shared_inv a S'"
        "shard_step a (shard_of g i) [] ?S1 ?s S' s'" "sh_indexer s' = sh_indexer ?s"
      by blast
    have ev: "evolves (shard_of g i) (cs_heap ?S1) (cs_heap S')" using 1(4) by (simp add: shard_step_def)
    have mine: "shard_of g i (bh_hash (base h))" using shard_invD(5) [OF sinv] p by (auto simp: own_def)
    have same: "same_entries ?H (cs_heap S')"
      using same_entries_trans [OF same_entries_refs same_entries_evolves] p(2) ev by fastforce
    have "refs_ok (cs_heap ?S1) (add_mset p held)"
      by (simp, rule refs_ok_upd [OF refs p(2)]) (use rc in auto)
    then have refs': "refs_ok (cs_heap S') (add_mset p held)" using ev by (rule refs_ok_evolves)
    have "p \<in> dom (cs_heap S')" using refs' by (simp add: refs_ok_def)
    then have key: "key_at (cs_heap S') p = Some k"
      using same_entries_key [OF same, of p] p(2,3) by (auto simp: key_at_def)
    have "freed ?H (cs_heap S') []" by (rule freed_refs [where H = ?H and r = "bh_refs (base h) + 1", OF _ p(2)]) (use 1(4) in \<open>simp add: shard_step_def\<close>)
    then have dom: "dom (cs_heap S') = dom ?H" by (rule freed_Nil_dom)
    show thesis
    proof (rule that [OF 1(1)])
      show "cache_ok a (dep_hash d) (g\<lparr>gc_shards := (gc_shards g)[i := s'], gc_shared := S'\<rparr>)"
      proof (rule cache_ok_update [OF ok i _ _ _ _ 1(2,3)])
        fix q and hq :: "('k, 'v, 'c, 'x) handle"
        assume n: "\<not> shard_of g i (bh_hash (base hq))"
        show "cs_heap S' q = Some hq \<longleftrightarrow> ?H q = Some hq"
          using evolves_others [OF ev n, of q] n mine by (cases "q = p") (auto simp: p(2))
      qed (use 1(4) in \<open>simp_all add: shard_step_def\<close>)
      show "refs_ok (cs_heap S') (held + mset (opt_list (Some p)))" using refs' by (simp add: opt_list_def)
      show "sh_waiters s' = sh_waiters (gc_shards g ! i)" using 1(4) by (simp add: shard_step_def)
      show "Some p = None \<longleftrightarrow> contents d g k = None" using Some by simp
    qed (use same 1(5) p key dom in auto)
  qed
qed

lemma gc_get_ok:
  assumes inv: "cache_inv a (dep_hash d) g held" and lim: "size held + 1 < usize_lim"
  shows "\<exists>r g'. gc_get d g k = Some (r, g') \<and> cache_inv a (dep_hash d) g' (held + mset (opt_list r)) \<and>
    contents d g' = contents d g \<and> (r = None \<longleftrightarrow> contents d g k = None) \<and>
    (\<forall>p. r = Some p \<longrightarrow> entry_key g' p = Some k \<and> entry_value g' p = contents d g k) \<and>
    accounted d g g' (cs_heap (gc_shared g')) \<and> waiting d g' = waiting d g"
proof -
  have ok: "cache_ok a (dep_hash d) g" using inv by (simp add: cache_inv_def)
  let ?i = "dep_hash d k mod length (gc_shards g)"
  obtain r S' s' where 1:
    "shard_get d (gc_shared g) (gc_shards g ! ?i) (dep_hash d k) k = Some (r, S', s')"
    "cache_ok a (dep_hash d) (g\<lparr>gc_shards := (gc_shards g)[?i := s'], gc_shared := S'\<rparr>)"
    "refs_ok (cs_heap S') (held + mset (opt_list r))"
    "same_entries (cs_heap (gc_shared g)) (cs_heap S')" "sh_waiters s' = sh_waiters (gc_shards g ! ?i)"
    "sp_ix_ptrs a (sh_indexer s') = sp_ix_ptrs a (sh_indexer (gc_shards g ! ?i))"
    "\<forall>p. r = Some p \<longrightarrow> p \<in> sp_ix_ptrs a (sh_indexer (gc_shards g ! ?i)) \<and> key_at (cs_heap S') p = Some k"
    "r = None \<longleftrightarrow> contents d g k = None" "dom (cs_heap S') = dom (cs_heap (gc_shared g))"
    by (rule shard_get_cache [OF inv lim, of k])
  let ?g' = "g\<lparr>gc_shards := (gc_shards g)[?i := s'], gc_shared := S'\<rparr>"
  note ok' = 1(2)
  have same: "contents d ?g' = contents d g" by (rule contents_same [OF ok' ok, of ?i s']) (use 1(4,6) in simp_all)
  have "entry_key ?g' p = Some k \<and> entry_value ?g' p = contents d g k" if r: "r = Some p" for p
  proof -
    have p: "p \<in> sp_ix_ptrs a (sh_indexer s')" "key_at (cs_heap S') p = Some k" using 1(6,7) r by simp_all
    then obtain h where h: "cs_heap S' p = Some h" "bh_key (base h) = Some k" by (cases "cs_heap S' p") (auto simp: key_at_def)
    then obtain v where v: "bh_value (base h) = Some v" by (auto simp: bh_key_def bh_value_def)
    have "contents d ?g' k = Some v"
      unfolding contents_iff [OF ok'] using p h v cache_okD(2) [OF ok] by auto
    with same h v show ?thesis by (simp add: entry_key_def entry_value_def)
  qed
  moreover have "waiting d ?g' = waiting d g"
    by (rule waiting_same [OF ok _ cache_okD(2) [OF ok, of "dep_hash d k"] 1(5)]) simp
  moreover have "gc_get d g k = Some (r, ?g')" using 1(1) by (simp add: gc_get_def cache_okD(1) [OF ok])
  moreover have "accounted d g ?g' (cs_heap (gc_shared ?g'))" by (rule accounted_quiet) (use 1(4,9) in simp_all)
  ultimately show ?thesis using ok' same 1(3,8) by (auto simp: cache_inv_def)
qed

end

section \<open>Removal, drop and clone\<close>

context cache_shard_core
begin

lemma cache_step_ok:
  assumes ok: "cache_ok a (dep_hash d) g" and i: "i < length (gc_shards g)"
    and s': "shard_inv a (dep_hash d) (shard_of g i) {} {} {} (cs_heap S') s'" "shared_inv a S'"
    and ev: "evolves (shard_of g i) (cs_heap (gc_shared g)) (cs_heap S')"
    and cap: "sh_capacity s' = sh_capacity (gc_shards g ! i)"
  shows "cache_ok a (dep_hash d) (g\<lparr>gc_shards := (gc_shards g)[i := s'], gc_shared := S', gc_released := rel\<rparr>)"
  by (rule cache_ok_update [OF ok i _ _ _ _ s']) (use evolves_others [OF ev] cap in simp_all)

lemma shard_remove_ok:
  assumes inv: "shard_inv a (dep_hash d) mine {} {} {} (cs_heap S) s" and sh: "shared_inv a S"
  obtains r S' s' where "shard_remove d S s (dep_hash d k) k = Some (r, S', s')"
    "shard_inv a (dep_hash d) mine {} {} {} (cs_heap S') s'" "shared_inv a S'"
    "evolves mine (cs_heap S) (cs_heap S')"
    "sp_ix_ptrs a (sh_indexer s') = {q \<in> sp_ix_ptrs a (sh_indexer s). key_at (cs_heap S) q \<noteq> Some k}"
    "sh_waiters s' = sh_waiters s" "sh_capacity s' = sh_capacity s" "freed (cs_heap S) (cs_heap S') (opt_list r)"
proof (cases "\<exists>p \<in> sp_ix_ptrs a (sh_indexer s). key_at (cs_heap S) p = Some k")
  case False
  then have miss: "\<forall>p \<in> sp_ix_ptrs a (sh_indexer s). key_at (cs_heap S) p \<noteq> Some k" by blast
  then have all: "sp_ix_ptrs a (sh_indexer s) = {q \<in> sp_ix_ptrs a (sh_indexer s). key_at (cs_heap S) q \<noteq> Some k}" by blast
  obtain s' where "shard_remove d S s (dep_hash d k) k = Some (None, S, s')"
      "shard_inv a (dep_hash d) mine {} {} {} (cs_heap S) s'" "shard_step a mine [] S s S s'"
      "sp_ix_ptrs a (sh_indexer s') = sp_ix_ptrs a (sh_indexer s)"
    using shard_remove_miss [OF inv miss] by blast
  with that [of None S s'] sh all show thesis by (simp add: shard_step_def opt_list_def)
next
  case True
  then obtain p where p: "p \<in> sp_ix_ptrs a (sh_indexer s)" "key_at (cs_heap S) p = Some k" by blast
  then obtain h where h: "cs_heap S p = Some h" "bh_key (base h) = Some k"
    by (cases "cs_heap S p") (auto simp: key_at_def)
  have all: "sp_ix_ptrs a (sh_indexer s) - {p} = {q \<in> sp_ix_ptrs a (sh_indexer s). key_at (cs_heap S) q \<noteq> Some k}"
  proof -
    have "q = p" if "q \<in> sp_ix_ptrs a (sh_indexer s)" "key_at (cs_heap S) q = Some k" for q
      using ix.ix_key_unique [OF shard_invD(2) [OF inv] that(1) p(1)] that(2) p(2) by simp
    with p(2) show ?thesis by blast
  qed
  obtain r S' s' where "shard_remove d S s (dep_hash d k) k = Some (r, S', s')"
      "shard_inv a (dep_hash d) mine {} {} {} (cs_heap S') s'" "shared_inv a S'"
      "shard_step a mine (case r of None \<Rightarrow> [] | Some x \<Rightarrow> [x]) S s S' s'"
      "sp_ix_ptrs a (sh_indexer s') = sp_ix_ptrs a (sh_indexer s) - {p}"
    using shard_remove_hit [OF inv sh h(1) p(1) h(2)] by blast
  with that [of r S' s'] all show thesis by (simp add: shard_step_def opt_list_def)
qed

lemma contents_removed:
  assumes ok': "cache_ok a (dep_hash d) g'" and ok: "cache_ok a (dep_hash d) g"
    and g': "gc_shards g' = (gc_shards g)[dep_hash d k mod length (gc_shards g) := s']"
    and ix: "sp_ix_ptrs a (sh_indexer s') = {q \<in> sp_ix_ptrs a (sh_indexer (gc_shards g ! (dep_hash d k mod length (gc_shards g)))).
      key_at (cs_heap (gc_shared g)) q \<noteq> Some k}"
    and same: "same_entries (cs_heap (gc_shared g)) (cs_heap (gc_shared g'))"
  shows "contents d g' = (contents d g)(k := None)"
proof
  fix k'
  have le: "map_le (contents d g') (contents d g)"
    by (rule contents_le_step [OF ok' ok g' _ same]) (simp add: ix)
  show "contents d g' k' = ((contents d g)(k := None)) k'"
  proof (cases "k' = k")
    case True
    have "contents d g' k = None"
    proof (rule ccontr)
      assume "contents d g' k \<noteq> None"
      then obtain v where "contents d g' k = Some v" by blast
      then obtain p h where p: "p \<in> sp_ix_ptrs a (sh_indexer s')" "cs_heap (gc_shared g') p = Some h" "bh_key (base h) = Some k"
        unfolding contents_iff [OF ok'] using g' cache_okD(2) [OF ok, of "dep_hash d k"] by auto
      have "key_at (cs_heap (gc_shared g)) p = Some k"
        using same_entries_key [OF same, of p] p(2,3) by (simp add: key_at_Some)
      with p(1) ix show False by simp
    qed
    with True show ?thesis by simp
  next
    case False
    show ?thesis
    proof (cases "contents d g k'")
      case None
      with le have "contents d g' k' = None" unfolding map_le_def by (metis domIff)
      with None False show ?thesis by simp
    next
      case (Some v)
      have "contents d g' k' = Some v" by (rule contents_keep [OF ok' ok g' _ same Some]) (simp add: ix False)
      with Some False show ?thesis by simp
    qed
  qed
qed

lemma gc_remove_ok:
  assumes inv: "cache_inv a (dep_hash d) g held"
  shows "\<exists>g'. gc_remove d g k = Some g' \<and> cache_inv a (dep_hash d) g' held \<and>
    contents d g' = (contents d g)(k := None) \<and> waiting d g' = waiting d g \<and>
    accounted d g g' (cs_heap (gc_shared g'))"
proof -
  have ok: "cache_ok a (dep_hash d) g" and refs: "refs_ok (cs_heap (gc_shared g)) held"
    using inv by (simp_all add: cache_inv_def)
  note G = cache_okD [OF ok]
  let ?i = "dep_hash d k mod length (gc_shards g)" and ?H = "cs_heap (gc_shared g)"
  obtain r S' s' where 1: "shard_remove d (gc_shared g) (gc_shards g ! ?i) (dep_hash d k) k = Some (r, S', s')"
      "shard_inv a (dep_hash d) (shard_of g ?i) {} {} {} (cs_heap S') s'" "shared_inv a S'"
      "evolves (shard_of g ?i) ?H (cs_heap S')"
      "sp_ix_ptrs a (sh_indexer s') = {q \<in> sp_ix_ptrs a (sh_indexer (gc_shards g ! ?i)). key_at ?H q \<noteq> Some k}"
      "sh_waiters s' = sh_waiters (gc_shards g ! ?i)" "sh_capacity s' = sh_capacity (gc_shards g ! ?i)"
      "freed ?H (cs_heap S') (opt_list r)"
    by (rule shard_remove_ok [OF G(4) [OF G(2) [of "dep_hash d k"]] G(3)])
  define g' where "g' = g\<lparr>gc_shards := (gc_shards g)[?i := s'], gc_shared := S',
    gc_released := gc_released g @ on_release_all d (opt_list r)\<rparr>"
  have ok': "cache_ok a (dep_hash d) g'" unfolding g'_def by (rule cache_step_ok [OF ok G(2) 1(2,3,4,7)])
  have g': "gc_shards g' = (gc_shards g)[?i := s']" "gc_shared g' = S'" by (simp_all add: g'_def)
  have same: "same_entries ?H (cs_heap (gc_shared g'))" using same_entries_evolves [OF 1(4)] g'(2) by simp
  have "contents d g' = (contents d g)(k := None)" by (rule contents_removed [OF ok' ok g'(1) 1(5) same])
  moreover have "waiting d g' = waiting d g" by (rule waiting_same [OF ok g'(1) G(2) 1(6)])
  moreover have "gc_remove d g k = Some g'" using 1(1) by (simp add: gc_remove_def G(1) g'_def)
  moreover have "accounted d g g' (cs_heap (gc_shared g'))"
    by (rule accountedI [of _ _ _ _ "opt_list r"]) (use same 1(8) in \<open>simp_all add: g'_def\<close>)
  ultimately show ?thesis using ok' refs_ok_evolves [OF refs 1(4)] g' by (simp add: cache_inv_def)
qed

lemma entry_drop_ok:
  assumes inv: "cache_inv a (dep_hash d) g held" and p: "p \<in># held"
  shows "\<exists>g'. entry_drop d g p = Some g' \<and> cache_inv a (dep_hash d) g' (held - {#p#}) \<and>
    map_le (contents d g') (contents d g) \<and> waiting d g' = waiting d g \<and>
    accounted d g g' (cs_heap (gc_shared g'))"
proof -
  have ok: "cache_ok a (dep_hash d) g" and refs: "refs_ok (cs_heap (gc_shared g)) held"
    using inv by (simp_all add: cache_inv_def)
  note G = cache_okD [OF ok]
  let ?H = "cs_heap (gc_shared g)"
  obtain h where h: "?H p = Some h" "has_refs (base h)" using refs_ok_live [OF refs p] by blast
  let ?i = "bh_hash (base h) mod length (gc_shards g)"
  let ?s = "gc_shards g ! ?i" and ?H1 = "?H(p \<mapsto> h\<lparr>base := (base h)\<lparr>bh_refs := bh_refs (base h) - 1\<rparr>\<rparr>)"
  note sinv = G(4) [OF G(2) [of "bh_hash (base h)"]]
  have mine: "shard_of g ?i (bh_hash (base h))" by (simp add: shard_of_def)
  from try_release_external_ok [OF sinv G(3) h(1) mine h(2)] obtain r S' s' where
    1: "try_release_external_handle d (gc_shared g) ?s p = Some (r, S', s')"
      "shard_inv a (dep_hash d) (shard_of g ?i) {} {} {} (cs_heap S') s'" "shared_inv a S'"
      "shard_step a (shard_of g ?i) (case r of None \<Rightarrow> [] | Some x \<Rightarrow> [x]) (gc_shared g\<lparr>cs_heap := ?H1\<rparr>) ?s S' s'"
    by blast
  have ev: "evolves (shard_of g ?i) ?H1 (cs_heap S')" and ix: "sp_ix_ptrs a (sh_indexer s') \<subseteq> sp_ix_ptrs a (sh_indexer ?s)"
    using 1(4) by (simp_all add: shard_step_def)
  define g' where "g' = g\<lparr>gc_shards := (gc_shards g)[?i := s'], gc_shared := S',
    gc_released := gc_released g @ on_release_all d (opt_list r)\<rparr>"
  have g': "gc_shards g' = (gc_shards g)[?i := s']" "gc_shared g' = S'" "gc_capacity g' = gc_capacity g"
      "sh_capacity s' = sh_capacity ?s"
    using 1(4) by (simp_all add: g'_def shard_step_def)
  have ok': "cache_ok a (dep_hash d) g'"
  proof (rule cache_ok_update [OF ok G(2) g' 1(2,3)])
    fix q and hq :: "('k, 'v, 'c, 'x) handle"
    assume n: "\<not> shard_of g ?i (bh_hash (base hq))"
    show "cs_heap S' q = Some hq \<longleftrightarrow> ?H q = Some hq"
      using evolves_others [OF ev n, of q] n mine by (cases "q = p") (auto simp: h(1))
  qed
  have same: "same_entries ?H (cs_heap (gc_shared g'))"
    using same_entries_trans [OF same_entries_refs [of ?H, OF h(1)] same_entries_evolves [OF ev]] g' by simp
  have "map_le (contents d g') (contents d g)" by (rule contents_le_step [OF ok' ok g'(1) ix same])
  moreover have "refs_ok ?H1 (held - {#p#})"
    by (rule refs_ok_upd [OF refs h(1)]) (use refs h(1) in \<open>auto simp: refs_ok_def\<close>)
  then have "refs_ok (cs_heap S') (held - {#p#})" using ev by (rule refs_ok_evolves)
  moreover have "waiting d g' = waiting d g"
    by (rule waiting_same [OF ok g'(1) G(2)]) (use 1(4) in \<open>simp add: shard_step_def\<close>)
  moreover have "freed ?H (cs_heap S') (opt_list r)"
    by (rule freed_refs [where H = ?H and r = "bh_refs (base h) - 1", OF _ h(1)]) (use 1(4) in \<open>simp add: shard_step_def opt_list_def\<close>)
  then have "accounted d g g' (cs_heap (gc_shared g'))"
    using same by (intro accountedI [of _ _ _ _ "opt_list r"]) (simp_all add: g'_def)
  moreover have "entry_drop d g p = Some g'"
    using h(1) 1(1) by (simp add: entry_drop_def gc_try_release_external_handle_def G(1) g'_def)
  ultimately show ?thesis using ok' g' by (auto simp: cache_inv_def)
qed

lemma entry_clone_ok:
  assumes inv: "cache_inv a (dep_hash d) g held" and p: "p \<in># held" and lim: "size held + 1 < usize_lim"
  shows "\<exists>g'. entry_clone g p = Some (p, g') \<and> cache_inv a (dep_hash d) g' (add_mset p held) \<and>
    contents d g' = contents d g \<and> waiting d g' = waiting d g \<and>
    accounted d g g' (cs_heap (gc_shared g'))"
proof -
  have ok: "cache_ok a (dep_hash d) g" and refs: "refs_ok (cs_heap (gc_shared g)) held"
    using inv by (simp_all add: cache_inv_def)
  note G = cache_okD [OF ok]
  let ?H = "cs_heap (gc_shared g)"
  obtain h where h: "?H p = Some h" "has_refs (base h)" using refs_ok_live [OF refs p] by blast
  let ?i = "bh_hash (base h) mod length (gc_shards g)"
  let ?s = "gc_shards g ! ?i" and ?H1 = "?H(p \<mapsto> h\<lparr>base := (base h)\<lparr>bh_refs := bh_refs (base h) + 1\<rparr>\<rparr>)"
  define g' where "g' = g\<lparr>gc_shared := (gc_shared g)\<lparr>cs_heap := ?H1\<rparr>\<rparr>"
  have g': "gc_shards g' = (gc_shards g)[?i := ?s]" "gc_shared g' = (gc_shared g)\<lparr>cs_heap := ?H1\<rparr>"
      "gc_capacity g' = gc_capacity g" by (simp_all add: g'_def)
  have mine: "shard_of g ?i (bh_hash (base h))" by (simp add: shard_of_def)
  have rc: "bh_refs (base h) = count held p" using refs h(1) by (simp add: refs_ok_def)
  have "shard_inv a (dep_hash d) (shard_of g ?i) {} {} {} ?H1 ?s"
    by (rule inv_refs [OF G(4) [OF G(2)] h(1) mine]) auto
  then have sinv': "shard_inv a (dep_hash d) (shard_of g ?i) {} {} {} (cs_heap ((gc_shared g)\<lparr>cs_heap := ?H1\<rparr>)) ?s"
    by simp
  have sh': "shared_inv a ((gc_shared g)\<lparr>cs_heap := ?H1\<rparr>)"
    by (rule heap_upd_shared [OF G(3)]) (use h(1) in \<open>auto split: if_splits\<close>)
  have ok': "cache_ok a (dep_hash d) g'"
    by (rule cache_ok_update [OF ok G(2) g' refl sinv' sh']) (use h(1) mine in auto)
  have same: "same_entries ?H (cs_heap (gc_shared g'))" using same_entries_refs [of ?H, OF h(1)] g' by simp
  have "contents d g' = contents d g" by (rule contents_same [OF ok' ok g'(1) refl same])
  moreover have "refs_ok ?H1 (add_mset p held)" by (rule refs_ok_upd [OF refs h(1)]) (use rc in auto)
  moreover have "waiting d g' = waiting d g" by (rule waiting_same [OF ok g'(1) G(2) refl])
  moreover have "accounted d g g' (cs_heap (gc_shared g'))"
    by (rule accounted_quiet [OF same]) (use h(1) in \<open>auto simp: g'_def\<close>)
  moreover have "entry_clone g p = Some (p, g')"
    using h rc lim count_le_size [of held p]
    by (simp add: entry_clone_def inc_refs_def inc_refs_by_def checked g'_def)
  ultimately show ?thesis using ok' g' by (auto simp: cache_inv_def)
qed

end

end
