(* ===== verification/Cache_Steps.thy ===== *)
theory Cache_Steps
  imports Cache_Inv
begin

text \<open>
  Insertion, the \<^verbatim>\<open>entry\<close> interface, clearing and construction of the cache, and the step relation
  \<open>client_step\<close> of a program that uses it: the reachable states keep \<open>cache_inv\<close>, so no operation of a
  client panics, and an entry that is held always gives access to its key and value.
\<close>

section \<open>Insertion\<close>

context cache_shard
begin

text \<open>The waiters' references.\<close>

lemma refs_for_waiters_ok:
  assumes p: "cs_heap S p = Some h" "client_view h = (e, hash, c, 1)"
    and lim: "length (case ws of None \<Rightarrow> [] | Some l \<Rightarrow> l) + 1 < usize_lim"
  defines "n \<equiv> length (case ws of None \<Rightarrow> [] | Some l \<Rightarrow> l)"
  obtains S' where "refs_for_waiters S p ws = Some S'"
    "cs_heap S' = (cs_heap S)(p \<mapsto> h\<lparr>base := (base h)\<lparr>bh_refs := n + 1\<rparr>\<rparr>)"
    "cs_next S' = cs_next S" "cs_pool S' = cs_pool S"
proof (cases ws)
  case None
  have "h\<lparr>base := (base h)\<lparr>bh_refs := 1\<rparr>\<rparr> = h" using p(2) by (simp add: client_view_def)
  with p(1) have "cs_heap S = (cs_heap S)(p \<mapsto> h\<lparr>base := (base h)\<lparr>bh_refs := n + 1\<rparr>\<rparr>)"
    using None by (simp add: n_def fun_upd_idem)
  then show thesis using that [of S] None by (simp add: refs_for_waiters_def)
next
  case (Some l)
  have "bh_refs (base h) = 1" using p(2) by (simp add: client_view_def)
  with p(1) Some lim that show thesis by (simp add: refs_for_waiters_def inc_refs_by_def checked n_def)
qed

lemma gc_insert_parts:
  assumes inv: "cache_inv a (dep_hash d) g held"
    and lim: "sh_usage (gc_shards g ! (dep_hash d k mod length (gc_shards g))) + charge < usize_lim"
    and wlim: "length (case sh_waiters (gc_shards g ! (dep_hash d k mod length (gc_shards g))) k of None \<Rightarrow> [] | Some l \<Rightarrow> l) + 1
      < usize_lim"
  defines "i \<equiv> dep_hash d k mod length (gc_shards g)"
  obtains p sends g' S' s' h where
    "gc_insert_with_context d g k v charge ctx = Some ((p, sends), g')"
    "gc_shards g' = (gc_shards g)[i := s']" "gc_shared g' = S'"
    "cache_ok a (dep_hash d) g'" "cs_heap (gc_shared g) p = None" "cs_heap S' p = Some h"
    "client_view h = (Some (k, v, dep_from d ctx), dep_hash d k, charge, length sends + 1)"
    "evolves (shard_of g i) (cs_heap (gc_shared g)) ((cs_heap S')(p := None))"
    "sends = map (\<lambda>w. (w, p)) (case sh_waiters (gc_shards g ! i) k of None \<Rightarrow> [] | Some l \<Rightarrow> l)"
    "sh_waiters s' = (sh_waiters (gc_shards g ! i))(k := None)"
    "p \<in> sp_ix_ptrs a (sh_indexer s')"
    "\<forall>q \<in> sp_ix_ptrs a (sh_indexer s') - {p}. q \<in> sp_ix_ptrs a (sh_indexer (gc_shards g ! i)) \<and>
       key_at (cs_heap (gc_shared g)) q \<noteq> Some k"
    "p = cs_next (gc_shared g)"
    "accounted d g g' ((cs_heap (gc_shared g'))(p := None))"
proof -
  have ok: "cache_ok a (dep_hash d) g" using inv by (simp add: cache_inv_def)
  note G = cache_okD [OF ok]
  have i: "i < length (gc_shards g)" using G(2) by (simp add: i_def)
  let ?H = "cs_heap (gc_shared g)" and ?p = "cs_next (gc_shared g)"
  define s0 where "s0 = (gc_shards g ! i)\<lparr>sh_waiters := (sh_waiters (gc_shards g ! i))(k := None)\<rparr>"
  have inv0: "shard_inv a (dep_hash d) (shard_of g i) {} {} {} ?H s0" using G(4) [OF i] by (simp add: s0_def)
  have mine: "shard_of g i (dep_hash d k)" by (simp add: shard_of_def i_def)
  have "sh_usage s0 + charge < usize_lim" using lim by (simp add: s0_def i_def)
  from shard_insert_ok [OF inv0 G(3) mine this, of v "dep_from d ctx" "[]"] obtain xs S1 s1 h where
    1: "shard_insert d (gc_shared g) s0 (dep_hash d k) k v charge (dep_from d ctx) [] = Some (?p, xs, S1, s1)"
      "shard_inv a (dep_hash d) (shard_of g i) {} {} {} (cs_heap S1) s1" "shared_inv a S1" "?H ?p = None"
      "cs_heap S1 ?p = Some h" "client_view h = (Some (k, v, dep_from d ctx), dep_hash d k, charge, 1)"
      "away_step (shard_of g i) ?p xs (gc_shared g) s0 S1 s1" "?p \<in> sp_ix_ptrs a (sh_indexer s1)"
      "\<forall>q \<in> sp_ix_ptrs a (sh_indexer s1) - {?p}. q \<in> sp_ix_ptrs a (sh_indexer s0) \<and> key_at ?H q \<noteq> Some k"
    by auto
  let ?ws = "sh_waiters (gc_shards g ! i) k"
  let ?n = "length (case ?ws of None \<Rightarrow> [] | Some l \<Rightarrow> l)"
  let ?h2 = "h\<lparr>base := (base h)\<lparr>bh_refs := ?n + 1\<rparr>\<rparr>"
  obtain S2 where 2: "refs_for_waiters S1 ?p ?ws = Some S2" "cs_heap S2 = (cs_heap S1)(?p \<mapsto> ?h2)"
      "cs_next S2 = cs_next S1" "cs_pool S2 = cs_pool S1"
    by (rule refs_for_waiters_ok [OF 1(5,6)]) (use wlim in \<open>simp_all add: i_def\<close>)
  define sends where "sends = map (\<lambda>w. (w, ?p)) (case ?ws of None \<Rightarrow> [] | Some l \<Rightarrow> l)"
  define g' where "g' = g\<lparr>gc_shards := (gc_shards g)[i := s1], gc_shared := S2,
    gc_released := gc_released g @ on_release_all d xs\<rparr>"
  have hm: "shard_of g i (bh_hash (base h))" using 1(6) mine by (simp add: client_view_def)
  have inv2: "shard_inv a (dep_hash d) (shard_of g i) {} {} {} (cs_heap S2) s1"
    unfolding 2(2) by (rule inv_refs [OF 1(2,5) hm]) auto
  have sh2: "shared_inv a S2" using 1(3,5) 2 by (auto simp: shared_inv_def)
  have away: "evolves (shard_of g i) ?H ((cs_heap S2)(?p := None))"
    using 1(4,7) 2(2) by (simp add: away_step_def fun_upd_idem)
  show thesis
  proof (rule that [of ?p sends g' s1 S2 ?h2])
    show "gc_insert_with_context d g k v charge ctx = Some ((?p, sends), g')"
      using 1(1) 2(1) G(1) [of "dep_hash d k"]
      by (cases ?ws) (simp_all add: gc_insert_with_context_def i_def [symmetric] s0_def [symmetric] Let_def
          sends_def g'_def)
    show "cache_ok a (dep_hash d) g'"
    proof (rule cache_ok_update [OF ok i _ _ _ _ inv2 sh2])
      fix q and hq :: "('k, 'v, 'c, 'x) handle"
      assume n: "\<not> shard_of g i (bh_hash (base hq))"
      show "cs_heap S2 q = Some hq \<longleftrightarrow> ?H q = Some hq"
        using evolves_others [OF away n, of q] n hm 1(4) 2(2) by (cases "q = ?p") auto
    qed (use 1(7) in \<open>simp_all add: g'_def away_step_def s0_def\<close>)
    show "client_view ?h2 = (Some (k, v, dep_from d ctx), dep_hash d k, charge, length sends + 1)"
      using 1(6) by (simp add: client_view_def sends_def)
    show "sh_waiters s1 = (sh_waiters (gc_shards g ! i))(k := None)" using 1(7) by (simp add: away_step_def s0_def)
    have "freed ?H ((cs_heap S2)(?p := None)) xs" using 1(4,7) 2(2) by (simp add: away_step_def fun_upd_idem)
    then show "accounted d g g' ((cs_heap (gc_shared g'))(?p := None))"
      using same_entries_evolves [OF away] by (intro accountedI [of _ _ _ _ xs]) (simp_all add: g'_def)
  qed (use 1 2(2) away in \<open>simp_all add: g'_def sends_def s0_def\<close>)
qed

lemma insert_contents:
  assumes ok': "cache_ok a (dep_hash d) g'" and ok: "cache_ok a (dep_hash d) g"
    and i: "i = dep_hash d k mod length (gc_shards g)" and g': "gc_shards g' = (gc_shards g)[i := s']"
    and p: "cs_heap (gc_shared g') p = Some h" "bh_key (base h) = Some k" "bh_value (base h) = Some v"
      "p \<in> sp_ix_ptrs a (sh_indexer s')" "cs_heap (gc_shared g) p = None"
    and same: "same_entries (cs_heap (gc_shared g)) ((cs_heap (gc_shared g'))(p := None))"
    and ix: "\<forall>q \<in> sp_ix_ptrs a (sh_indexer s') - {p}. q \<in> sp_ix_ptrs a (sh_indexer (gc_shards g ! i))"
  shows "contents d g' k = Some v" "map_le (contents d g') ((contents d g)(k \<mapsto> v))"
proof -
  have len: "length (gc_shards g') = length (gc_shards g)" using g' by simp
  have il: "i < length (gc_shards g)" using cache_okD(2) [OF ok] i by simp
  show here: "contents d g' k = Some v"
    unfolding contents_iff [OF ok'] using p(1-4) g' il i len by auto
  show "map_le (contents d g') ((contents d g)(k \<mapsto> v))"
  proof (rule contents_leI [OF ok'])
    fix q h' k' v'
    let ?j = "dep_hash d k' mod length (gc_shards g)"
    assume q: "q \<in> sp_ix_ptrs a (sh_indexer (gc_shards g' ! (dep_hash d k' mod length (gc_shards g'))))"
      "cs_heap (gc_shared g') q = Some h'" "bh_key (base h') = Some k'" "bh_value (base h') = Some v'"
    show "((contents d g)(k \<mapsto> v)) k' = Some v'"
    proof (cases "k' = k")
      case True
      have "contents d g' k' = Some v'" unfolding contents_iff [OF ok'] using q by blast
      with here True show ?thesis by simp
    next
      case False
      then have qp: "q \<noteq> p" using q(2,3) p(1,2) by auto
      have q': "((cs_heap (gc_shared g'))(p := None)) q = Some h'" using q(2) qp by simp
      obtain h0 where h0: "cs_heap (gc_shared g) q = Some h0" "bh_key (base h') = bh_key (base h0)"
          "bh_value (base h') = bh_value (base h0)"
        by (rule same_entriesD [OF same q'])
      have "q \<in> sp_ix_ptrs a (sh_indexer (gc_shards g ! ?j))"
        using q(1) ix qp g' len il by (cases "?j = i") auto
      with h0 q(3,4) have "contents d g k' = Some v'" unfolding contents_iff [OF ok] by auto
      with False show ?thesis by simp
    qed
  qed
qed

lemma gc_insert_ok:
  assumes inv: "cache_inv a (dep_hash d) g held"
    and lim: "sh_usage (gc_shards g ! (dep_hash d k mod length (gc_shards g))) + charge < usize_lim"
    and wlim: "length (case sh_waiters (gc_shards g ! (dep_hash d k mod length (gc_shards g))) k of None \<Rightarrow> [] | Some l \<Rightarrow> l) + 1
      < usize_lim"
  shows "\<exists>p sends g'. gc_insert_with_context d g k v charge ctx = Some ((p, sends), g') \<and>
    cache_inv a (dep_hash d) g' (add_mset p held + mset (map snd sends)) \<and>
    contents d g' k = Some v \<and> map_le (contents d g') ((contents d g)(k \<mapsto> v)) \<and>
    entry_key g' p = Some k \<and> entry_value g' p = Some v \<and>
    map fst sends = (case sh_waiters (gc_shards g ! (dep_hash d k mod length (gc_shards g))) k of None \<Rightarrow> [] | Some l \<Rightarrow> l) \<and>
    map snd sends = replicate (length sends) p \<and>
    waiting d g' = (waiting d g)(k := None) \<and> p = cs_next (gc_shared g) \<and>
    accounted d g g' ((cs_heap (gc_shared g'))(p := None)) \<and> cs_heap (gc_shared g) p = None"
proof -
  let ?i = "dep_hash d k mod length (gc_shards g)"
  let ?ws = "case sh_waiters (gc_shards g ! ?i) k of None \<Rightarrow> [] | Some l \<Rightarrow> l"
  have ok: "cache_ok a (dep_hash d) g" and refs: "refs_ok (cs_heap (gc_shared g)) held"
    using inv by (simp_all add: cache_inv_def)
  obtain p sends g' S' s' h where
    1: "gc_insert_with_context d g k v charge ctx = Some ((p, sends), g')"
      "gc_shards g' = (gc_shards g)[?i := s']" "gc_shared g' = S'"
      "cache_ok a (dep_hash d) g'" "cs_heap (gc_shared g) p = None" "cs_heap S' p = Some h"
      "client_view h = (Some (k, v, dep_from d ctx), dep_hash d k, charge, length sends + 1)"
      "evolves (shard_of g ?i) (cs_heap (gc_shared g)) ((cs_heap S')(p := None))"
      "sends = map (\<lambda>w. (w, p)) ?ws" "sh_waiters s' = (sh_waiters (gc_shards g ! ?i))(k := None)"
      "p \<in> sp_ix_ptrs a (sh_indexer s')"
      "\<forall>q \<in> sp_ix_ptrs a (sh_indexer s') - {p}. q \<in> sp_ix_ptrs a (sh_indexer (gc_shards g ! ?i)) \<and>
         key_at (cs_heap (gc_shared g)) q \<noteq> Some k"
      "p = cs_next (gc_shared g)" "accounted d g g' ((cs_heap (gc_shared g'))(p := None))"
    by (rule gc_insert_parts [OF inv lim wlim, of v ctx])
  have kv: "bh_key (base h) = Some k" "bh_value (base h) = Some v"
    using 1(7) by (auto simp: client_view_def bh_key_def bh_value_def)
  have same: "same_entries (cs_heap (gc_shared g)) ((cs_heap (gc_shared g'))(p := None))"
    using same_entries_evolves [OF 1(8)] 1(3) by simp
  have c: "contents d g' k = Some v" "map_le (contents d g') ((contents d g)(k \<mapsto> v))"
    using insert_contents [OF 1(4) ok refl 1(2) _ kv 1(11) 1(5) same] 1(3,6,12) by simp_all
  have "refs_ok (cs_heap S') (add_mset p held + mset (map snd sends))"
  proof -
    have r0: "refs_ok ((cs_heap S')(p := None)) held" by (rule refs_ok_evolves [OF refs 1(8)])
    then have "p \<notin># held" by (auto simp: refs_ok_def)
    then have c0: "count held p = 0" by (simp add: count_eq_zero_iff)
    let ?h1 = "h\<lparr>base := (base h)\<lparr>bh_refs := 1\<rparr>\<rparr>"
    have "refs_ok ((cs_heap S')(p \<mapsto> ?h1)) (add_mset p held)" by (rule refs_ok_new [where h = ?h1]) (use r0 in simp_all)
    then have "refs_ok (((cs_heap S')(p \<mapsto> ?h1))(p \<mapsto> h)) (add_mset p held + mset (map snd sends))"
      by (rule refs_ok_upd [where h = ?h1])
        (use 1(7) c0 in \<open>auto simp: client_view_def 1(9) comp_def map_replicate_const\<close>)
    with 1(6) show ?thesis by (simp add: fun_upd_idem)
  qed
  moreover have "map snd sends = replicate (length sends) p" "map fst sends = ?ws"
    using 1(9) by (simp_all add: comp_def map_replicate_const)
  moreover have "waiting d g' = (waiting d g)(k := None)"
    unfolding waiting_update [OF ok 1(2) cache_okD(2) [OF ok]] using 1(10)
    by (auto simp: waiting_def fun_eq_iff cache_okD(1) [OF ok])
  ultimately show ?thesis
    using 1(1,3,4,5,6,13,14) c kv
    by (intro exI [of _ p] exI [of _ sends] exI [of _ g']) (simp add: cache_inv_def entry_key_def entry_value_def)
qed

end

section \<open>The entry interface\<close>

lemma shared_inv_cong:
  "cs_heap S' = cs_heap S \<Longrightarrow> cs_next S' = cs_next S \<Longrightarrow> cs_pool S' = cs_pool S \<Longrightarrow> shared_inv a S' = shared_inv a S"
  by (simp add: shared_inv_def)

context cache_shard_core
begin

lemma cache_ok_waiters:
  assumes ok: "cache_ok a (dep_hash d) g" and i: "i < length (gc_shards g)"
    and g': "gc_shards g' = (gc_shards g)[i := (gc_shards g ! i)\<lparr>sh_waiters := w\<rparr>]"
      "cs_heap (gc_shared g') = cs_heap (gc_shared g)" "cs_next (gc_shared g') = cs_next (gc_shared g)"
      "cs_pool (gc_shared g') = cs_pool (gc_shared g)" "gc_capacity g' = gc_capacity g"
  shows "cache_ok a (dep_hash d) g'" "contents d g' = contents d g"
proof -
  show ok': "cache_ok a (dep_hash d) g'"
    by (rule cache_ok_update [OF ok i g'(1) refl g'(5)])
      (use cache_okD(3,4) [OF ok] i g' shared_inv_cong [OF g'(2,3,4), of a] in simp_all)
  show "contents d g' = contents d g"
    by (rule contents_same [OF ok' ok g'(1)]) (simp_all add: g'(2) same_entries_def)
qed

text \<open>\<^verbatim>\<open>entry\<close> on a key: a hit gives its value; a miss registers the key once, and later misses queue up.\<close>

lemma gc_entry_ok:
  fixes k :: 'k
  assumes inv: "cache_inv a (dep_hash d) g held" and lim: "size held + 1 < usize_lim"
  shows "\<exists>r g'. gc_entry d g k = Some (r, g') \<and> contents d g' = contents d g \<and>
    cache_inv a (dep_hash d) g' (held + (case r of Hit p \<Rightarrow> {#p#} | _ \<Rightarrow> {#})) \<and>
    accounted d g g' (cs_heap (gc_shared g')) \<and>
    (case r of
       Hit p \<Rightarrow> entry_key g' p = Some k \<and> entry_value g' p = contents d g k \<and> waiting d g' = waiting d g
     | Wait n \<Rightarrow> contents d g k = None \<and> n = gc_next_waiter g \<and>
         (\<exists>ws. waiting d g k = Some ws \<and> waiting d g' = (waiting d g)(k \<mapsto> ws @ [n]))
     | Miss \<Rightarrow> contents d g k = None \<and> waiting d g k = None \<and> waiting d g' = (waiting d g)(k \<mapsto> [])
     | Invalid \<Rightarrow> False)"
proof -
  have ok: "cache_ok a (dep_hash d) g" using inv by (simp add: cache_inv_def)
  note G = cache_okD [OF ok]
  let ?i = "dep_hash d k mod length (gc_shards g)"
  obtain r S' s' where 1:
    "shard_get d (gc_shared g) (gc_shards g ! ?i) (dep_hash d k) k = Some (r, S', s')"
    "cache_ok a (dep_hash d) (g\<lparr>gc_shards := (gc_shards g)[?i := s'], gc_shared := S'\<rparr>)"
    "refs_ok (cs_heap S') (held + mset (opt_list r))"
    "same_entries (cs_heap (gc_shared g)) (cs_heap S')" "sh_waiters s' = sh_waiters (gc_shards g ! ?i)"
    "sp_ix_ptrs a (sh_indexer s') = sp_ix_ptrs a (sh_indexer (gc_shards g ! ?i))"
    "\<forall>p. r = Some p \<longrightarrow> p \<in> sp_ix_ptrs a (sh_indexer (gc_shards g ! ?i)) \<and> key_at (cs_heap S') p = Some k"
    "r = None \<longleftrightarrow> contents d g k = None" "dom (cs_heap S') = dom (cs_heap (gc_shared g))"
    by (rule shard_get_cache [OF inv lim, of k])
  let ?g1 = "g\<lparr>gc_shards := (gc_shards g)[?i := s'], gc_shared := S'\<rparr>"
  have c1: "contents d ?g1 = contents d g" by (rule contents_same [OF 1(2) ok, of ?i s']) (use 1(4,6) in simp_all)
  have il: "?i < length (gc_shards ?g1)" using G(2) by simp
  have W: "waiting d g' = (waiting d g)(k := w)"
    if "gc_shards g' = (gc_shards g)[?i := s'\<lparr>sh_waiters := (sh_waiters s')(k := w)\<rparr>]" for w g'
    unfolding waiting_update [OF ok that G(2)] using 1(5) by (auto simp: waiting_def fun_eq_iff G(1))
  have acc: "accounted d g g' (cs_heap (gc_shared g'))"
    if "cs_heap (gc_shared g') = cs_heap S'" "gc_released g' = gc_released g" for g'
    by (rule accounted_quiet) (use that 1(4,9) in simp_all)
  show ?thesis
  proof (cases r)
    case (Some p)
    have e: "gc_entry d g k = Some (Hit p, ?g1)" using 1(1) Some by (simp add: gc_entry_def G(1))
    have get: "gc_get d g k = Some (Some p, ?g1)" using 1(1) Some by (simp add: gc_get_def G(1))
    have "entry_key ?g1 p = Some k \<and> entry_value ?g1 p = contents d g k \<and> waiting d ?g1 = waiting d g"
      using gc_get_ok [OF inv lim, of k] get by auto
    with e c1 1(2,3) Some acc [of ?g1] show ?thesis
      by (intro exI [of _ "Hit p"] exI [of _ ?g1]) (simp add: cache_inv_def opt_list_def)
  next
    case None
    have base: "contents d g k = None" using 1(8) None by simp
    show ?thesis
    proof (cases "waiting d g k")
      case wN: None
      let ?g2 = "g\<lparr>gc_shards := (gc_shards g)[?i := s'\<lparr>sh_waiters := (sh_waiters s')(k \<mapsto> [])\<rparr>],
        gc_shared := cs_metrics_update (m_fetch_update (\<lambda>n. fetch_add n 1)) S'\<rparr>"
      have g2: "gc_shards ?g2 = (gc_shards ?g1)[?i := (gc_shards ?g1 ! ?i)\<lparr>sh_waiters := (sh_waiters s')(k \<mapsto> [])\<rparr>]"
        using G(2) [of "dep_hash d k"] by simp
      have "cache_ok a (dep_hash d) ?g2" "contents d ?g2 = contents d ?g1"
        by (rule cache_ok_waiters [OF 1(2) il g2]; simp)+
      moreover have "gc_entry d g k = Some (Miss, ?g2)"
        using 1(1,5) None wN by (simp add: gc_entry_def G(1) waiting_def Let_def)
      moreover have "waiting d ?g2 = (waiting d g)(k \<mapsto> [])" by (rule W) simp
      ultimately show ?thesis using base c1 1(3) None wN acc [of ?g2]
        by (intro exI [of _ Miss] exI [of _ ?g2]) (simp add: cache_inv_def opt_list_def)
    next
      case wS: (Some ws)
      let ?tx = "gc_next_waiter g"
      let ?g2 = "g\<lparr>gc_shards := (gc_shards g)[?i := s'\<lparr>sh_waiters := (sh_waiters s')(k \<mapsto> ws @ [?tx])\<rparr>],
        gc_shared := cs_metrics_update (m_queue_update (\<lambda>n. fetch_add n 1)) S', gc_next_waiter := ?tx + 1\<rparr>"
      have g2: "gc_shards ?g2 = (gc_shards ?g1)[?i := (gc_shards ?g1 ! ?i)\<lparr>sh_waiters := (sh_waiters s')(k \<mapsto> ws @ [?tx])\<rparr>]"
        using G(2) [of "dep_hash d k"] by simp
      have "cache_ok a (dep_hash d) ?g2" "contents d ?g2 = contents d ?g1"
        by (rule cache_ok_waiters [OF 1(2) il g2]; simp)+
      moreover have "gc_entry d g k = Some (Wait ?tx, ?g2)"
        using 1(1,5) None wS by (simp add: gc_entry_def G(1) waiting_def Let_def)
      moreover have "waiting d ?g2 = (waiting d g)(k \<mapsto> ws @ [?tx])" by (rule W) simp
      ultimately show ?thesis using base c1 1(3) None wS acc [of ?g2]
        by (intro exI [of _ "Wait ?tx"] exI [of _ ?g2]) (simp add: cache_inv_def opt_list_def)
    qed
  qed
qed

lemma gc_fetch_err_ok:
  assumes inv: "cache_inv a (dep_hash d) g held"
  shows "\<exists>g'. gc_fetch_err d g k = Some (case waiting d g k of None \<Rightarrow> [] | Some ws \<Rightarrow> ws, g') \<and>
    cache_inv a (dep_hash d) g' held \<and> contents d g' = contents d g \<and> waiting d g' = (waiting d g)(k := None) \<and>
    accounted d g g' (cs_heap (gc_shared g'))"
proof -
  have ok: "cache_ok a (dep_hash d) g" using inv by (simp add: cache_inv_def)
  note G = cache_okD [OF ok]
  let ?i = "dep_hash d k mod length (gc_shards g)"
  let ?g' = "g\<lparr>gc_shards := (gc_shards g)[?i := (gc_shards g ! ?i)\<lparr>sh_waiters := (sh_waiters (gc_shards g ! ?i))(k := None)\<rparr>]\<rparr>"
  have "cache_ok a (dep_hash d) ?g'" "contents d ?g' = contents d g"
    by (rule cache_ok_waiters [OF ok G(2) [of "dep_hash d k"]]; simp)+
  moreover have "waiting d ?g' = (waiting d g)(k := None)"
    by (subst waiting_update [OF ok _ G(2) [of "dep_hash d k"]]) (auto simp: waiting_def fun_eq_iff G(1))
  moreover have "accounted d g ?g' (cs_heap (gc_shared ?g'))" by (rule accounted_quiet) (simp_all add: same_entries_def)
  ultimately show ?thesis using inv by (simp add: gc_fetch_err_def G(1) cache_inv_def Let_def waiting_def)
qed

end

section \<open>Clearing and construction\<close>

context cache_shard
begin

lemma clear_shards_ok:
  assumes "\<forall>i < length (done @ ss). shard_inv a (dep_hash d) (m i) {} {} {} (cs_heap S) ((done @ ss) ! i)"
    and "shared_inv a S" and "\<forall>i j h. m i h \<longrightarrow> m j h \<longrightarrow> i = j" and "refs_ok (cs_heap S) held"
  shows "\<exists>xs S' ss'. clear_shards d lre S ss = Some (lre @ xs, S', ss') \<and> length ss' = length ss \<and>
    (\<forall>i < length (done @ ss'). shard_inv a (dep_hash d) (m i) {} {} {} (cs_heap S') ((done @ ss') ! i)) \<and>
    shared_inv a S' \<and> refs_ok (cs_heap S') held \<and>
    (\<forall>i < length ss'. sp_ix_ptrs a (sh_indexer (ss' ! i)) = {} \<and> sh_waiters (ss' ! i) = sh_waiters (ss ! i) \<and>
       sh_capacity (ss' ! i) = sh_capacity (ss ! i)) \<and> same_entries (cs_heap S) (cs_heap S')"
  using assms
proof (induction ss arbitrary: "done" lre S)
  case Nil
  then show ?case by (auto simp: same_entries_def)
next
  case (Cons s ss)
  let ?n = "length done"
  have "shard_inv a (dep_hash d) (m ?n) {} {} {} (cs_heap S) s" using spec [OF Cons.prems(1), of ?n] by simp
  from shard_clear_ok [OF this Cons.prems(2), of lre] obtain xs S1 s1 where
    1: "shard_clear d lre S s = Some (lre @ xs, S1, s1)" "shard_inv a (dep_hash d) (m ?n) {} {} {} (cs_heap S1) s1"
      "shared_inv a S1" "shard_step a (m ?n) xs S s S1 s1" "sp_ix_ptrs a (sh_indexer s1) = {}" by blast
  have ev: "evolves (m ?n) (cs_heap S) (cs_heap S1)" using 1(4) by (simp add: shard_step_def)
  have inv1: "shard_inv a (dep_hash d) (m i) {} {} {} (cs_heap S1) (((done @ [s1]) @ ss) ! i)"
    if i: "i < length ((done @ [s1]) @ ss)" for i
  proof (cases "i = ?n")
    case True
    with 1(2) show ?thesis by (simp add: nth_append)
  next
    case False
    have "shard_inv a (dep_hash d) (m i) {} {} {} (cs_heap S) (((done @ [s1]) @ ss) ! i)"
      using spec [OF Cons.prems(1), of i] i False by (auto simp: nth_append nth_Cons' split: if_splits)
    then show ?thesis
      by (rule inv_other_shard) (rule evolves_others [OF ev], use Cons.prems(3) False in blast)
  qed
  then have inv1': "\<forall>i < length ((done @ [s1]) @ ss).
      shard_inv a (dep_hash d) (m i) {} {} {} (cs_heap S1) (((done @ [s1]) @ ss) ! i)" by blast
  from Cons.IH [of "done @ [s1]" S1 "lre @ xs", OF inv1' 1(3) Cons.prems(3) refs_ok_evolves [OF Cons.prems(4) ev]]
  obtain ys S' ss' where
    2: "clear_shards d (lre @ xs) S1 ss = Some ((lre @ xs) @ ys, S', ss')" "length ss' = length ss"
      "\<forall>i < length ((done @ [s1]) @ ss'). shard_inv a (dep_hash d) (m i) {} {} {} (cs_heap S') (((done @ [s1]) @ ss') ! i)"
      "shared_inv a S'" "refs_ok (cs_heap S') held"
      "\<forall>i < length ss'. sp_ix_ptrs a (sh_indexer (ss' ! i)) = {} \<and> sh_waiters (ss' ! i) = sh_waiters (ss ! i) \<and>
         sh_capacity (ss' ! i) = sh_capacity (ss ! i)" "same_entries (cs_heap S1) (cs_heap S')"
    by blast
  have "clear_shards d lre S (s # ss) = Some (lre @ xs @ ys, S', s1 # ss')" using 1(1) 2(1) by simp
  moreover have "\<forall>i < length (s1 # ss'). sp_ix_ptrs a (sh_indexer ((s1 # ss') ! i)) = {} \<and>
      sh_waiters ((s1 # ss') ! i) = sh_waiters ((s # ss) ! i) \<and> sh_capacity ((s1 # ss') ! i) = sh_capacity ((s # ss) ! i)"
    using 2(6) 1(4,5) by (auto simp: nth_Cons' shard_step_def)
  ultimately show ?case using 2 same_entries_trans [OF same_entries_evolves [OF ev] 2(7)]
    by (intro exI [of _ "xs @ ys"] exI [of _ S'] exI [of _ "s1 # ss'"]) simp
qed

lemma gc_clear_ok:
  assumes inv: "cache_inv a (dep_hash d) g held"
  shows "\<exists>g'. gc_clear d g = Some g' \<and> cache_inv a (dep_hash d) g' held \<and> contents d g' = Map.empty \<and>
    waiting d g' = waiting d g \<and> gc_released g' = gc_released g \<and>
    same_entries (cs_heap (gc_shared g)) (cs_heap (gc_shared g'))"
proof -
  have ok: "cache_ok a (dep_hash d) g" and refs: "refs_ok (cs_heap (gc_shared g)) held"
    using inv by (simp_all add: cache_inv_def)
  note G = cache_okD [OF ok]
  have pre: "\<forall>i < length ([] @ gc_shards g).
      shard_inv a (dep_hash d) (shard_of g i) {} {} {} (cs_heap (gc_shared g)) (([] @ gc_shards g) ! i)"
    using G(4) by simp
  have disj: "\<forall>i j h. shard_of g i h \<longrightarrow> shard_of g j h \<longrightarrow> i = j" by (simp add: shard_of_def)
  from clear_shards_ok [of "[]" "gc_shards g" "shard_of g" "gc_shared g" held "[]", OF pre G(3) disj refs]
  obtain xs S' ss' where
    1: "clear_shards d [] (gc_shared g) (gc_shards g) = Some (xs, S', ss')" "length ss' = length (gc_shards g)"
      "\<forall>i < length ss'. shard_inv a (dep_hash d) (shard_of g i) {} {} {} (cs_heap S') (ss' ! i)"
      "shared_inv a S'" "refs_ok (cs_heap S') held"
      "\<forall>i < length ss'. sp_ix_ptrs a (sh_indexer (ss' ! i)) = {} \<and> sh_waiters (ss' ! i) = sh_waiters (gc_shards g ! i) \<and>
         sh_capacity (ss' ! i) = sh_capacity (gc_shards g ! i)" "same_entries (cs_heap (gc_shared g)) (cs_heap S')"
    by auto
  let ?g' = "g\<lparr>gc_shards := ss', gc_shared := S'\<rparr>"
  have ok': "cache_ok a (dep_hash d) ?g'"
    using ok 1 by (auto simp: cache_ok_def shard_of_def [abs_def])
  have "contents d ?g' k = None" for k
  proof (rule ccontr)
    assume "contents d ?g' k \<noteq> None"
    then obtain v where "contents d ?g' k = Some v" by blast
    with contents_iff [OF ok', of k v] 1(2,6) G(2) [of "dep_hash d k"] show False by auto
  qed
  moreover have "waiting d ?g' = waiting d g"
    using 1(2,6) G(1,2) cache_okD(1) [OF ok'] by (auto simp: waiting_def fun_eq_iff)
  moreover have "gc_clear d g = Some ?g'" using 1(1) by (simp add: gc_clear_def)
  ultimately show ?thesis using ok' 1(5,7) by (auto simp: cache_inv_def)
qed

lemma make_shards_ok:
  "make_shards d cap cfg n = Some ss \<Longrightarrow> length ss = n \<and>
     (\<forall>s \<in> set ss. shard_inv a (dep_hash d) mine {} {} {} Map.empty s \<and> sp_ix_ptrs a (sh_indexer s) = {} \<and>
       sh_capacity s = cap \<and> sh_waiters s = Map.empty)"
proof (induction n arbitrary: ss)
  case (Suc n)
  then obtain s t where 1: "shard_new d cap cfg = Some s" "make_shards d cap cfg n = Some t" "ss = s # t"
    by (auto split: Option.bind_splits)
  then obtain e where e: "ev_new (dep_ev d) cap cfg = Some e"
      "s = \<lparr>sh_indexer = ix_new (dep_ix d), sh_eviction = e, sh_capacity = cap, sh_usage = 0, sh_waiters = Map.empty\<rparr>"
    by (auto simp: shard_new_def split: Option.bind_splits)
  have "shard_inv a (dep_hash d) mine {} {} {} Map.empty s"
    using e ev.new_ok [OF e(1), of Map.empty] ix.ix_new_ok [of Map.empty]
    by (intro shard_invI) (auto simp: own_def usize_lim_def)
  with Suc.IH [OF 1(2)] 1(3) e(2) ix.ix_new_ok [of Map.empty] show ?case by auto
qed auto

lemma gc_new_ok:
  assumes new: "gc_new d config = Some g"
  shows "cache_inv a (dep_hash d) g {#}" "contents d g = Map.empty" "waiting d g = Map.empty"
    "gc_capacity g = cfg_capacity config"
proof -
  obtain pool ss where 1: "pool_new (dep_pool d) (cfg_object_pool_capacity config) = Some pool" "cfg_shards config \<noteq> 0"
      "make_shards d (cfg_capacity config div cfg_shards config) (cfg_eviction_config config) (cfg_shards config) = Some ss"
      "g = \<lparr>gc_shards = ss, gc_capacity = cfg_capacity config,
       gc_shared = \<lparr>cs_heap = Map.empty, cs_next = 0, cs_pool = pool, cs_metrics = Metrics_default\<rparr>,
       gc_released = [], gc_next_waiter = 0\<rparr>"
    using new by (auto simp: gc_new_def Let_def split: Option.bind_splits if_splits)
  note m = make_shards_ok [OF 1(3)]
  show ok: "cache_inv a (dep_hash d) g {#}"
    using 1 m pool.pool_new_empty [OF 1(1)]
    by (auto simp: cache_inv_def cache_ok_def shared_inv_def refs_ok_def)
  then have ok': "cache_ok a (dep_hash d) g" by (simp add: cache_inv_def)
  show "contents d g = Map.empty"
  proof
    fix k
    show "contents d g k = None"
      using contents_iff [OF ok', of k] 1(4) by (metis GenericCache.select_convs(3) CacheSharedState.select_convs(1) not_None_eq)
  qed
  show "waiting d g = Map.empty"
  proof
    fix k
    have "gc_shards g ! (dep_hash d k mod length (gc_shards g)) \<in> set ss"
      using cache_okD(2) [OF ok', of "dep_hash d k"] 1(4) by simp
    with m show "waiting d g k = None" by (simp add: waiting_def cache_okD(1) [OF ok'])
  qed
  show "gc_capacity g = cfg_capacity config" using 1(4) by simp
qed

end

section \<open>A program that uses the cache\<close>

text \<open>
  The state of a program: the cache, the entries that are alive (held by users or on their way to a waiter)
  and the keys of the fetches that are running. A step is one operation under the lock of a shard.
\<close>

record ('k, 'v, 'c, 'x, 'e, 'i, 'q) program =
  pr_cache :: "('k, 'v, 'c, 'x, 'e, 'i, 'q) GenericCache"
  pr_held :: "ptr multiset"
  pr_fetching :: "'k multiset"

inductive client_step :: "('k, 'v, 'c, 'x, 'e, 'g, 'i, 'q) cache_deps \<Rightarrow>
    ('k, 'v, 'c, 'x, 'e, 'i, 'q) program \<Rightarrow> ('k, 'v, 'c, 'x, 'e, 'i, 'q) program \<Rightarrow> bool"
  for d :: "('k, 'v, 'c, 'x, 'e, 'g, 'i, 'q) cache_deps" where
  step_insert: "gc_insert_with_context d g k v c ctx = Some ((p, sends), g') \<Longrightarrow>
    client_step d \<lparr>pr_cache = g, pr_held = held, pr_fetching = f\<rparr>
      \<lparr>pr_cache = g', pr_held = add_mset p held + mset (map snd sends), pr_fetching = f\<rparr>"
| step_get: "gc_get d g k = Some (r, g') \<Longrightarrow>
    client_step d \<lparr>pr_cache = g, pr_held = held, pr_fetching = f\<rparr>
      \<lparr>pr_cache = g', pr_held = held + mset (opt_list r), pr_fetching = f\<rparr>"
| step_remove: "gc_remove d g k = Some g' \<Longrightarrow>
    client_step d \<lparr>pr_cache = g, pr_held = held, pr_fetching = f\<rparr> \<lparr>pr_cache = g', pr_held = held, pr_fetching = f\<rparr>"
| step_clear: "gc_clear d g = Some g' \<Longrightarrow>
    client_step d \<lparr>pr_cache = g, pr_held = held, pr_fetching = f\<rparr> \<lparr>pr_cache = g', pr_held = held, pr_fetching = f\<rparr>"
| step_clone: "p \<in># held \<Longrightarrow> entry_clone g p = Some (q, g') \<Longrightarrow>
    client_step d \<lparr>pr_cache = g, pr_held = held, pr_fetching = f\<rparr>
      \<lparr>pr_cache = g', pr_held = add_mset q held, pr_fetching = f\<rparr>"
| step_drop: "p \<in># held \<Longrightarrow> entry_drop d g p = Some g' \<Longrightarrow>
    client_step d \<lparr>pr_cache = g, pr_held = held, pr_fetching = f\<rparr>
      \<lparr>pr_cache = g', pr_held = held - {#p#}, pr_fetching = f\<rparr>"
| step_entry: "gc_entry d g k = Some (r, g') \<Longrightarrow>
    client_step d \<lparr>pr_cache = g, pr_held = held, pr_fetching = f\<rparr>
      \<lparr>pr_cache = g', pr_held = held + (case r of Hit p \<Rightarrow> {#p#} | _ \<Rightarrow> {#}),
       pr_fetching = (case r of Miss \<Rightarrow> add_mset k f | _ \<Rightarrow> f)\<rparr>"
| step_fetched: "k \<in># f \<Longrightarrow> gc_insert_with_context d g k v c ctx = Some ((p, sends), g') \<Longrightarrow>
    client_step d \<lparr>pr_cache = g, pr_held = held, pr_fetching = f\<rparr>
      \<lparr>pr_cache = g', pr_held = add_mset p held + mset (map snd sends), pr_fetching = f - {#k#}\<rparr>"
| step_fetch_err: "k \<in># f \<Longrightarrow> gc_fetch_err d g k = Some (ws, g') \<Longrightarrow>
    client_step d \<lparr>pr_cache = g, pr_held = held, pr_fetching = f\<rparr>
      \<lparr>pr_cache = g', pr_held = held, pr_fetching = f - {#k#}\<rparr>"

definition client_init :: "('k, 'v, 'c, 'x, 'e, 'i, 'q) GenericCache \<Rightarrow> ('k, 'v, 'c, 'x, 'e, 'i, 'q) program" where
  "client_init g = \<lparr>pr_cache = g, pr_held = {#}, pr_fetching = {#}\<rparr>"

text \<open>No number of a program's entries or waiters reaches the limit of a \<^verbatim>\<open>usize\<close>.\<close>

definition bounded :: "('k, 'v, 'c, 'x, 'e, 'g, 'i, 'q) cache_deps \<Rightarrow>
    ('k, 'v, 'c, 'x, 'e, 'i, 'q) program \<Rightarrow> bool" where
  "bounded d st \<longleftrightarrow> size (pr_held st) + 1 < usize_lim \<and>
     (\<forall>k ws. waiting d (pr_cache st) k = Some ws \<longrightarrow> length ws + 1 < usize_lim)"

inductive reachable :: "('k, 'v, 'c, 'x, 'e, 'g, 'i, 'q) cache_deps \<Rightarrow> 'g CacheConfig \<Rightarrow>
    ('k, 'v, 'c, 'x, 'e, 'i, 'q) program \<Rightarrow> bool"
  for d :: "('k, 'v, 'c, 'x, 'e, 'g, 'i, 'q) cache_deps" and config where
  reach_init: "gc_new d config = Some g \<Longrightarrow> reachable d config (client_init g)"
| reach_step: "reachable d config st \<Longrightarrow> bounded d st \<Longrightarrow> client_step d st st' \<Longrightarrow> reachable d config st'"

definition program_inv :: "('k, 'v, 'c, 'x, 'e, 'g, 'i, 'q) cache_deps \<Rightarrow> ('k, 'v, 'c, 'x, 'e, 'i, 'q) cache_spec \<Rightarrow>
    ('k, 'v, 'c, 'x, 'e, 'i, 'q) program \<Rightarrow> bool" where
  "program_inv d a st \<longleftrightarrow> cache_inv a (dep_hash d) (pr_cache st) (pr_held st) \<and>
     (\<forall>k. waiting d (pr_cache st) k \<noteq> None \<longrightarrow> k \<in># pr_fetching st)"

lemma shard_evict_bound:
  "shard_evict d charge lre S s = Some r \<Longrightarrow> sh_usage s + charge < usize_lim"
  by (subst (asm) shard_evict.simps) (auto simp: evict_round_def uadd_def split: Option.bind_splits if_splits)

lemma shard_insert_bound:
  "shard_insert d S s hash k v charge ctx lre = Some r \<Longrightarrow> sh_usage s + charge < usize_lim"
  by (auto simp: shard_insert_def split: Option.bind_splits dest: shard_evict_bound)

context cache_shard
begin

lemma gc_insert_bound:
  assumes ok: "cache_ok a (dep_hash d) g" and ins: "gc_insert_with_context d g k v charge ctx = Some r"
  shows "sh_usage (gc_shards g ! (dep_hash d k mod length (gc_shards g))) + charge < usize_lim"
proof -
  let ?s = "gc_shards g ! (dep_hash d k mod length (gc_shards g))"
  obtain q where "shard_insert d (gc_shared g) (?s\<lparr>sh_waiters := (sh_waiters ?s)(k := None)\<rparr>) (dep_hash d k) k v
      charge (dep_from d ctx) [] = Some q"
    using ins by (auto simp: gc_insert_with_context_def cache_okD(1) [OF ok] Let_def split: Option.bind_splits)
  from shard_insert_bound [OF this] show ?thesis by simp
qed

text \<open>Insertion as a step: the form that the two kinds of insertion share.\<close>

lemma insert_step_ok:
  assumes inv: "program_inv d a \<lparr>pr_cache = g, pr_held = held, pr_fetching = f\<rparr>"
    and b: "bounded d \<lparr>pr_cache = g, pr_held = held, pr_fetching = f\<rparr>"
    and ins: "gc_insert_with_context d g k v c ctx = Some ((p, sends), g')"
  shows "cache_inv a (dep_hash d) g' (add_mset p held + mset (map snd sends)) \<and> waiting d g' = (waiting d g)(k := None) \<and>
    accounted d g g' ((cs_heap (gc_shared g'))(p := None)) \<and> cs_heap (gc_shared g) p = None"
proof -
  let ?i = "dep_hash d k mod length (gc_shards g)"
  have ci: "cache_inv a (dep_hash d) g held" using inv by (simp add: program_inv_def)
  then have ok: "cache_ok a (dep_hash d) g" by (simp add: cache_inv_def)
  have "sh_waiters (gc_shards g ! ?i) k = waiting d g k" by (simp add: waiting_def cache_okD(1) [OF ok])
  then have wlim: "length (case sh_waiters (gc_shards g ! ?i) k of None \<Rightarrow> [] | Some l \<Rightarrow> l) + 1 < usize_lim"
    using b by (auto simp: bounded_def usize_lim_def split: option.splits)
  obtain p1 sends1 g1 where 1: "gc_insert_with_context d g k v c ctx = Some ((p1, sends1), g1)"
      "cache_inv a (dep_hash d) g1 (add_mset p1 held + mset (map snd sends1))" "waiting d g1 = (waiting d g)(k := None)"
      "accounted d g g1 ((cs_heap (gc_shared g1))(p1 := None))" "cs_heap (gc_shared g) p1 = None"
    using gc_insert_ok [OF ci gc_insert_bound [OF ok ins] wlim, of v ctx] by blast
  with ins have "p1 = p" "sends1 = sends" "g1 = g'" by simp_all
  with 1(2-5) show ?thesis by simp
qed

lemma client_step_inv:
  assumes "client_step d st st'" and "program_inv d a st" and "bounded d st"
  shows "program_inv d a st'"
  using assms
proof (cases rule: client_step.cases)
  case (step_insert g k v c ctx p sends g' held f)
  with insert_step_ok [OF assms(2,3) [unfolded step_insert] step_insert(3)] assms(2) show ?thesis
    by (auto simp: program_inv_def)
next
  case (step_get g k r g' held f)
  have "cache_inv a (dep_hash d) g held" "size held + 1 < usize_lim"
    using assms(2,3) step_get by (simp_all add: program_inv_def bounded_def)
  from gc_get_ok [OF this, of k] step_get assms(2) show ?thesis by (auto simp: program_inv_def)
next
  case (step_remove g k g' held f)
  have "cache_inv a (dep_hash d) g held" using assms(2) step_remove by (simp add: program_inv_def)
  from gc_remove_ok [OF this, of k] step_remove assms(2) show ?thesis by (auto simp: program_inv_def)
next
  case (step_clear g g' held f)
  have "cache_inv a (dep_hash d) g held" using assms(2) step_clear by (simp add: program_inv_def)
  from gc_clear_ok [OF this] step_clear assms(2) show ?thesis by (auto simp: program_inv_def)
next
  case (step_clone p held g q g' f)
  have "cache_inv a (dep_hash d) g held" "size held + 1 < usize_lim"
    using assms(2,3) step_clone by (simp_all add: program_inv_def bounded_def)
  from entry_clone_ok [OF this(1) step_clone(3) this(2)] step_clone assms(2) show ?thesis
    by (auto simp: program_inv_def)
next
  case (step_drop p held g g' f)
  have "cache_inv a (dep_hash d) g held" using assms(2) step_drop by (simp add: program_inv_def)
  from entry_drop_ok [OF this step_drop(3)] step_drop assms(2) show ?thesis by (auto simp: program_inv_def)
next
  case (step_entry g k r g' held f)
  have "cache_inv a (dep_hash d) g held" "size held + 1 < usize_lim"
    using assms(2,3) step_entry by (simp_all add: program_inv_def bounded_def)
  from gc_entry_ok [OF this, of k] step_entry assms(2) show ?thesis
    by (cases r) (auto simp: program_inv_def split: if_splits)
next
  case (step_fetched k f g v c ctx p sends g' held)
  with insert_step_ok [OF assms(2,3) [unfolded step_fetched] step_fetched(4)] assms(2) show ?thesis
    by (auto simp: program_inv_def in_diff_count split: if_splits)
next
  case (step_fetch_err k f g ws g' held)
  have "cache_inv a (dep_hash d) g held" using assms(2) step_fetch_err by (simp add: program_inv_def)
  from gc_fetch_err_ok [OF this, of k] step_fetch_err assms(2) show ?thesis
    by (auto simp: program_inv_def in_diff_count split: if_splits)
qed

theorem reachable_inv: "reachable d config st \<Longrightarrow> program_inv d a st"
proof (induction rule: reachable.induct)
  case (reach_init g)
  then show ?case using gc_new_ok [OF reach_init] by (simp add: program_inv_def client_init_def)
next
  case (reach_step st st')
  then show ?case by (blast intro: client_step_inv)
qed

end

end
