(* ===== verification/Fifo.thy ===== *)
theory Fifo
  imports Eviction_Spec
begin

text \<open>
  \<^verbatim>\<open>foyer-memory/src/eviction/fifo.rs\<close>: the FIFO container, one queue of handles. The contract of
  the trait is discharged by the interpretation \<open>fifo\<close>; the functional lemmas say that a run of
  pushes is popped in its own order.
\<close>

section \<open>Definitions\<close>

datatype FifoContext = FifoContext

definition fifo_context_from :: "CacheContext \<Rightarrow> FifoContext" where
  "fifo_context_from c = FifoContext"

definition fifo_context_into :: "FifoContext \<Rightarrow> CacheContext" where
  "fifo_context_into c = Default"

type_synonym ('k, 'v) FifoHandle = "('k, 'v, FifoContext, unit) handle"
type_synonym ('k, 'v) fifo_heap = "('k, 'v, FifoContext, unit) heap"

definition fifo_handle_new :: "('k, 'v) FifoHandle" where
  "fifo_handle_new = \<lparr>base = bh_new, hext = ()\<rparr>"

datatype FifoConfig = FifoConfig

record Fifo =
  fifo_queue :: "ptr list"

definition fifo_new :: "usize \<Rightarrow> FifoConfig \<Rightarrow> Fifo option" where
  "fifo_new capacity config = Some \<lparr>fifo_queue = []\<rparr>"

definition fifo_push :: "('k, 'v) fifo_heap \<Rightarrow> Fifo \<Rightarrow> ptr \<Rightarrow> (('k, 'v) fifo_heap \<times> Fifo) option" where
  "fifo_push H e p = do {
     q \<leftarrow> dl_push_back (fifo_queue e) (fifo_queue e) p;
     H' \<leftarrow> update_handle H p (\<lambda>h. h\<lparr>base := set_in_eviction True (base h)\<rparr>);
     Some (H', e\<lparr>fifo_queue := q\<rparr>)
   }"

definition fifo_pop :: "('k, 'v) fifo_heap \<Rightarrow> Fifo \<Rightarrow> (ptr option \<times> ('k, 'v) fifo_heap \<times> Fifo) option" where
  "fifo_pop H e = (case fifo_queue e of
       [] \<Rightarrow> Some (None, H, e)
     | p # q \<Rightarrow> do {
         H' \<leftarrow> update_handle H p (\<lambda>h. h\<lparr>base := set_in_eviction False (base h)\<rparr>);
         Some (Some p, H', e\<lparr>fifo_queue := q\<rparr>)
       })"

definition fifo_reinsert :: "('k, 'v) fifo_heap \<Rightarrow> Fifo \<Rightarrow> ptr \<Rightarrow> (('k, 'v) fifo_heap \<times> Fifo) option" where
  "fifo_reinsert H e p = Some (H, e)"

definition fifo_access :: "('k, 'v) fifo_heap \<Rightarrow> Fifo \<Rightarrow> ptr \<Rightarrow> (('k, 'v) fifo_heap \<times> Fifo) option" where
  "fifo_access H e p = Some (H, e)"

definition fifo_remove :: "('k, 'v) fifo_heap \<Rightarrow> Fifo \<Rightarrow> ptr \<Rightarrow> (('k, 'v) fifo_heap \<times> Fifo) option" where
  "fifo_remove H e p = do {
     q \<leftarrow> dl_remove (fifo_queue e) p;
     H' \<leftarrow> update_handle H p (\<lambda>h. h\<lparr>base := set_in_eviction False (base h)\<rparr>);
     Some (H', e\<lparr>fifo_queue := q\<rparr>)
   }"

fun fifo_clear_loop :: "('k, 'v) fifo_heap \<Rightarrow> ptr list \<Rightarrow> ptr list \<Rightarrow> (ptr list \<times> ('k, 'v) fifo_heap) option" where
  "fifo_clear_loop H [] res = Some (res, H)"
| "fifo_clear_loop H (p # q) res = do {
     H' \<leftarrow> update_handle H p (\<lambda>h. h\<lparr>base := set_in_eviction False (base h)\<rparr>);
     fifo_clear_loop H' q (res @ [p])
   }"

definition fifo_clear :: "('k, 'v) fifo_heap \<Rightarrow> Fifo \<Rightarrow> (ptr list \<times> ('k, 'v) fifo_heap \<times> Fifo) option" where
  "fifo_clear H e = do {
     (res, H') \<leftarrow> fifo_clear_loop H (fifo_queue e) [];
     Some (res, H', e\<lparr>fifo_queue := []\<rparr>)
   }"

definition fifo_len :: "Fifo \<Rightarrow> usize" where
  "fifo_len e = length (fifo_queue e)"

definition fifo_is_empty :: "Fifo \<Rightarrow> bool" where
  "fifo_is_empty e \<longleftrightarrow> fifo_len e = 0"

definition fifo_ops :: "('k, 'v, FifoContext, unit, Fifo, FifoConfig) eviction_ops" where
  "fifo_ops = \<lparr>ev_handle_new = fifo_handle_new, ev_new = fifo_new, ev_push = fifo_push, ev_pop = fifo_pop,
     ev_reinsert = fifo_reinsert, ev_access = fifo_access, ev_remove = fifo_remove,
     ev_clear = fifo_clear, ev_len = fifo_len, ev_is_empty = fifo_is_empty\<rparr>"

section \<open>The contract\<close>

definition fifo_ok :: "('k, 'v) fifo_heap \<Rightarrow> Fifo \<Rightarrow> bool" where
  "fifo_ok H e \<longleftrightarrow> distinct (fifo_queue e) \<and>
     (\<forall>p \<in> set (fifo_queue e). \<exists>h. H p = Some h \<and> is_inited (base h) \<and> in_ev h)"

abbreviation fifo_clean :: "unit \<Rightarrow> bool" where
  "fifo_clean x \<equiv> True"

lemma fifo_clear_loop_spec:
  "distinct q \<Longrightarrow> \<forall>p \<in> set q. \<exists>h. H p = Some h \<and> is_inited (base h) \<Longrightarrow>
   \<exists>H'. fifo_clear_loop H q res = Some (res @ q, H') \<and> heap_upd H H' (set q) \<and>
     (\<forall>p \<in> set q. evictable fifo_clean H' p)"
proof (induction q arbitrary: H res)
  case Nil
  then show ?case by simp
next
  case (Cons p q)
  then obtain h where h: "H p = Some h" "is_inited (base h)" by auto
  define H1 where "H1 = H(p \<mapsto> h\<lparr>base := set_in_eviction False (base h)\<rparr>)"
  have 1: "\<forall>r \<in> set q. \<exists>h. H1 r = Some h \<and> is_inited (base h)"
    using Cons.prems by (auto simp: H1_def)
  obtain H' where H': "fifo_clear_loop H1 q (res @ [p]) = Some ((res @ [p]) @ q, H')"
    "heap_upd H1 H' (set q)" "\<forall>r \<in> set q. evictable fifo_clean H' r"
    using Cons.IH [OF _ 1, of "res @ [p]"] Cons.prems by auto
  have "heap_upd H H1 (set (p # q))"
    unfolding H1_def by (rule heap_upd_single) (use h in auto)
  moreover have "H' p = H1 p"
    using Cons.prems heap_upd_other [OF H'(2), of p] by simp
  ultimately show ?case
    using H' h heap_upd_trans [OF _ H'(2), of H "set (p # q)" "set (p # q)"]
    by (auto simp: H1_def evictable_def)
qed

interpretation fifo: eviction fifo_ops fifo_ok fifo_queue fifo_clean
proof (unfold_locales, goal_cases)
  case (3 H e H')
  then have "\<exists>h. H' p = Some h \<and> is_inited (base h) \<and> in_ev h" if "p \<in> set (fifo_queue e)" for p
    using that by (fastforce simp: fifo_ok_def ev_view_def map_option_eq_Some)
  with 3 show ?case by (simp add: fifo_ok_def)
next
  case (6 H e p)
  then show ?case
    by (auto simp: fifo_ops_def fifo_push_def fifo_ok_def evictable_iff checked)
next
  case (12 H e)
  then show ?case
    by (auto simp: fifo_ops_def fifo_pop_def fifo_ok_def evictable_iff split: list.splits)
next
  case (9 H e p)
  then obtain h where "H p = Some h" "is_inited (base h)" by (auto simp: fifo_ok_def)
  with 9 show ?case
    by (auto simp: fifo_ops_def fifo_remove_def fifo_ok_def evictable_iff checked
        dest: notin_set_remove1)
next
  case (13 H e)
  then have "\<forall>p \<in> set (fifo_queue e). \<exists>h. H p = Some h \<and> is_inited (base h)"
    by (auto simp: fifo_ok_def)
  with 13 show ?case
    using fifo_clear_loop_spec [of "fifo_queue e" H "[]"]
    by (auto simp: fifo_ops_def fifo_clear_def fifo_ok_def)
qed (auto simp: fifo_ops_def fifo_ok_def fifo_handle_new_def fifo_new_def fifo_reinsert_def
    fifo_access_def fifo_len_def fifo_is_empty_def)

end
