(* ===== verification/Lru.thy ===== *)
theory Lru
  imports Eviction_Spec
begin

text \<open>
  \<^verbatim>\<open>foyer-memory/src/eviction/lru.rs\<close>: the LRU container with a high priority pool. Handles inserted
  with high priority are queued in \<open>high_priority_list\<close> until their charges exceed the pool's
  capacity; the oldest of them then overflow into \<open>lru_list\<close>, from which handles are evicted first.
  \<open>lru_ok\<close> is the container's invariant; the interpretation \<open>lru\<close> discharges the trait's contract.
\<close>

section \<open>Definitions\<close>

record LruConfig =
  high_priority_pool_ratio :: f64

datatype LruContext = HighPriority | LowPriority

fun lru_context_from :: "CacheContext \<Rightarrow> LruContext" where
  "lru_context_from Default = HighPriority"
| "lru_context_from LruPriorityLow = LowPriority"

fun lru_context_into :: "LruContext \<Rightarrow> CacheContext" where
  "lru_context_into HighPriority = Default"
| "lru_context_into LowPriority = LruPriorityLow"

record lru_ext =
  in_high_priority_pool :: bool

type_synonym ('k, 'v) LruHandle = "('k, 'v, LruContext, lru_ext) handle"
type_synonym ('k, 'v) lru_heap = "('k, 'v, LruContext, lru_ext) heap"

definition lru_handle_new :: "('k, 'v) LruHandle" where
  "lru_handle_new = \<lparr>base = bh_new, hext = \<lparr>in_high_priority_pool = False\<rparr>\<rparr>"

record Lru =
  high_priority_list :: "ptr list"
  lru_list :: "ptr list"
  high_priority_charges :: usize
  high_priority_charges_capacity :: usize

definition lru_linked :: "Lru \<Rightarrow> ptr list" where
  "lru_linked e = lru_list e @ high_priority_list e"

abbreviation set_in_pool :: "bool \<Rightarrow> ('k, 'v) LruHandle \<Rightarrow> ('k, 'v) LruHandle" where
  "set_in_pool b h \<equiv> h\<lparr>hext := (hext h)\<lparr>in_high_priority_pool := b\<rparr>\<rparr>"

text \<open>The loop of \<^verbatim>\<open>may_overflow_high_priority_pool\<close> over its state: the heap, the two lists and the
  charges of the pool.\<close>

fun lru_overflow_loop :: "usize \<Rightarrow> ('k, 'v) lru_heap \<Rightarrow> ptr list \<Rightarrow> ptr list \<Rightarrow> usize \<Rightarrow>
    (('k, 'v) lru_heap \<times> ptr list \<times> ptr list \<times> usize) option" where
  "lru_overflow_loop cap H [] l c = (if c > cap then None else Some (H, [], l, c))"
| "lru_overflow_loop cap H (p # hp) l c =
     (if c > cap then do {
        h \<leftarrow> H p;
        H' \<leftarrow> update_handle H p (set_in_pool False);
        c' \<leftarrow> usub c (hcharge h);
        l' \<leftarrow> dl_push_back (l @ hp) l p;
        lru_overflow_loop cap H' hp l' c'
      } else Some (H, p # hp, l, c))"

definition may_overflow_high_priority_pool ::
    "('k, 'v) lru_heap \<Rightarrow> Lru \<Rightarrow> (('k, 'v) lru_heap \<times> Lru) option" where
  "may_overflow_high_priority_pool H e = do {
     (H', hp, l, c) \<leftarrow> lru_overflow_loop (high_priority_charges_capacity e) H
        (high_priority_list e) (lru_list e) (high_priority_charges e);
     Some (H', e\<lparr>high_priority_list := hp, lru_list := l, high_priority_charges := c\<rparr>)
   }"

definition lru_new :: "(f64 \<Rightarrow> f64) \<Rightarrow> usize \<Rightarrow> LruConfig \<Rightarrow> Lru option" where
  "lru_new rnd capacity config = do {
     ensure (high_priority_pool_ratio config \<ge> 0 \<and> high_priority_pool_ratio config \<le> 1);
     Some \<lparr>high_priority_list = [], lru_list = [], high_priority_charges = 0,
        high_priority_charges_capacity = scale_capacity rnd capacity (high_priority_pool_ratio config)\<rparr>
   }"

definition lru_push :: "('k, 'v) lru_heap \<Rightarrow> Lru \<Rightarrow> ptr \<Rightarrow> (('k, 'v) lru_heap \<times> Lru) option" where
  "lru_push H e p = do {
     h \<leftarrow> H p;
     ensure (p \<notin> set (lru_linked e));
     context \<leftarrow> bh_context (base h);
     (H', e') \<leftarrow> (case context of
         HighPriority \<Rightarrow> do {
           H1 \<leftarrow> update_handle H p (set_in_pool True);
           c \<leftarrow> uadd (high_priority_charges e) (hcharge h);
           hp \<leftarrow> dl_push_back (lru_linked e) (high_priority_list e) p;
           may_overflow_high_priority_pool H1 (e\<lparr>high_priority_charges := c, high_priority_list := hp\<rparr>)
         }
       | LowPriority \<Rightarrow> do {
           H1 \<leftarrow> update_handle H p (set_in_pool False);
           l \<leftarrow> dl_push_back (lru_linked e) (lru_list e) p;
           Some (H1, e\<lparr>lru_list := l\<rparr>)
         });
     H'' \<leftarrow> update_handle H' p (\<lambda>h. h\<lparr>base := set_in_eviction True (base h)\<rparr>);
     Some (H'', e')
   }"

definition lru_pop :: "('k, 'v) lru_heap \<Rightarrow> Lru \<Rightarrow> (ptr option \<times> ('k, 'v) lru_heap \<times> Lru) option" where
  "lru_pop H e =
     (let popped = (case lru_list e of
          p # l \<Rightarrow> Some (p, e\<lparr>lru_list := l\<rparr>)
        | [] \<Rightarrow> (case high_priority_list e of
            p # hp \<Rightarrow> Some (p, e\<lparr>high_priority_list := hp\<rparr>)
          | [] \<Rightarrow> None))
      in case popped of
        None \<Rightarrow> Some (None, H, e)
      | Some (p, e') \<Rightarrow> do {
          h \<leftarrow> H p;
          ensure (p \<notin> set (lru_linked e'));
          c \<leftarrow> (if in_high_priority_pool (hext h) then usub (high_priority_charges e') (hcharge h)
               else Some (high_priority_charges e'));
          H' \<leftarrow> update_handle H p (\<lambda>h. h\<lparr>base := set_in_eviction False (base h)\<rparr>);
          Some (Some p, H', e'\<lparr>high_priority_charges := c\<rparr>)
        })"

definition lru_access :: "('k, 'v) lru_heap \<Rightarrow> Lru \<Rightarrow> ptr \<Rightarrow> (('k, 'v) lru_heap \<times> Lru) option" where
  "lru_access H e p = Some (H, e)"

definition lru_remove :: "('k, 'v) lru_heap \<Rightarrow> Lru \<Rightarrow> ptr \<Rightarrow> (('k, 'v) lru_heap \<times> Lru) option" where
  "lru_remove H e p = do {
     h \<leftarrow> H p;
     ensure (p \<in> set (lru_linked e));
     e' \<leftarrow> (if in_high_priority_pool (hext h) then do {
         c \<leftarrow> usub (high_priority_charges e) (hcharge h);
         hp \<leftarrow> dl_remove (high_priority_list e) p;
         Some (e\<lparr>high_priority_charges := c, high_priority_list := hp\<rparr>)
       } else do {
         l \<leftarrow> dl_remove (lru_list e) p;
         Some (e\<lparr>lru_list := l\<rparr>)
       });
     H' \<leftarrow> update_handle H p (\<lambda>h. h\<lparr>base := set_in_eviction False (base h)\<rparr>);
     Some (H', e')
   }"

definition lru_reinsert :: "('k, 'v) lru_heap \<Rightarrow> Lru \<Rightarrow> ptr \<Rightarrow> (('k, 'v) lru_heap \<times> Lru) option" where
  "lru_reinsert H e p = do {
     h \<leftarrow> H p;
     if in_ev h then do {
       ensure (p \<in> set (lru_linked e));
       (H', e') \<leftarrow> lru_remove H e p;
       lru_push H' e' p
     } else do {
       ensure (p \<notin> set (lru_linked e));
       lru_push H e p
     }
   }"

text \<open>The two loops of \<^verbatim>\<open>clear\<close>.\<close>

fun lru_clear_list :: "('k, 'v) lru_heap \<Rightarrow> ptr list \<Rightarrow> ptr list \<Rightarrow> (ptr list \<times> ('k, 'v) lru_heap) option" where
  "lru_clear_list H [] res = Some (res, H)"
| "lru_clear_list H (p # l) res = do {
     H' \<leftarrow> update_handle H p (\<lambda>h. h\<lparr>base := set_in_eviction False (base h)\<rparr>);
     lru_clear_list H' l (res @ [p])
   }"

fun lru_clear_pool :: "('k, 'v) lru_heap \<Rightarrow> ptr list \<Rightarrow> usize \<Rightarrow> ptr list \<Rightarrow>
    (ptr list \<times> ('k, 'v) lru_heap \<times> usize) option" where
  "lru_clear_pool H [] c res = Some (res, H, c)"
| "lru_clear_pool H (p # hp) c res = do {
     h \<leftarrow> H p;
     H' \<leftarrow> update_handle H p (\<lambda>h. h\<lparr>base := set_in_eviction False (base h)\<rparr>);
     c' \<leftarrow> usub c (hcharge h);
     lru_clear_pool H' hp c' (res @ [p])
   }"

definition lru_clear :: "('k, 'v) lru_heap \<Rightarrow> Lru \<Rightarrow> (ptr list \<times> ('k, 'v) lru_heap \<times> Lru) option" where
  "lru_clear H e = do {
     (res, H1) \<leftarrow> lru_clear_list H (lru_list e) [];
     (res, H2, c) \<leftarrow> lru_clear_pool H1 (high_priority_list e) (high_priority_charges e) res;
     ensure (c = 0);
     Some (res, H2, e\<lparr>lru_list := [], high_priority_list := [], high_priority_charges := c\<rparr>)
   }"

definition lru_len :: "Lru \<Rightarrow> usize" where
  "lru_len e = length (high_priority_list e) + length (lru_list e)"

definition lru_is_empty :: "Lru \<Rightarrow> bool" where
  "lru_is_empty e \<longleftrightarrow> lru_len e = 0"

definition lru_ops :: "(f64 \<Rightarrow> f64) \<Rightarrow> ('k, 'v, LruContext, lru_ext, Lru, LruConfig) eviction_ops" where
  "lru_ops rnd = \<lparr>ev_handle_new = lru_handle_new, ev_new = lru_new rnd, ev_push = lru_push, ev_pop = lru_pop,
     ev_reinsert = lru_reinsert, ev_access = lru_access, ev_remove = lru_remove,
     ev_clear = lru_clear, ev_len = lru_len, ev_is_empty = lru_is_empty\<rparr>"

section \<open>The invariant\<close>

abbreviation in_pool :: "('k, 'v) LruHandle \<Rightarrow> bool" where
  "in_pool h \<equiv> in_high_priority_pool (hext h)"

definition lru_ok :: "('k, 'v) lru_heap \<Rightarrow> Lru \<Rightarrow> bool" where
  "lru_ok H e \<longleftrightarrow> distinct (lru_linked e) \<and>
     (\<forall>p \<in> set (lru_list e). holds_at H p (\<lambda>h. is_inited (base h) \<and> in_ev h \<and> \<not> in_pool h)) \<and>
     (\<forall>p \<in> set (high_priority_list e). holds_at H p (\<lambda>h. is_inited (base h) \<and> in_ev h \<and> in_pool h)) \<and>
     high_priority_charges e = charges_of H (high_priority_list e) \<and>
     high_priority_charges e \<le> high_priority_charges_capacity e"

abbreviation lru_clean :: "lru_ext \<Rightarrow> bool" where
  "lru_clean x \<equiv> True"

text \<open>The overflow loop moves a prefix of the pool to the end of the list and stops as soon as the
  pool fits.\<close>

lemma lru_overflow_loop_spec:
  assumes "distinct (l @ hp)" and "c = charges_of H hp"
    and "\<forall>p \<in> set hp. holds_at H p in_pool"
    and "\<forall>p \<in> set l. holds_at H p (\<lambda>h. \<not> in_pool h)"
  shows "\<exists>H' k. lru_overflow_loop cap H hp l c =
      Some (H', drop k hp, l @ take k hp, charges_of H (drop k hp)) \<and>
    charges_of H (drop k hp) \<le> cap \<and> heap_upd H H' (set hp) \<and>
    (\<forall>q. map_option base (H' q) = map_option base (H q)) \<and>
    (\<forall>p \<in> set (drop k hp). holds_at H' p in_pool) \<and>
    (\<forall>p \<in> set (l @ take k hp). holds_at H' p (\<lambda>h. \<not> in_pool h)) \<and>
    (\<forall>j < k. charges_of H (drop j hp) > cap)"
  using assms
proof (induction hp arbitrary: H l c)
  case Nil
  then show ?case by (auto intro!: exI [of _ H])
next
  case (Cons p hp)
  show ?case
  proof (cases "c > cap")
    case False
    with Cons.prems show ?thesis by (auto intro!: exI [of _ H] exI [of _ 0])
  next
    case True
    obtain h where h: "H p = Some h" "in_pool h" using Cons.prems(3) by (auto elim: holds_atE)
    define H1 where "H1 = H(p \<mapsto> set_in_pool False h)"
    have ch: "charges_of H1 xs = charges_of H xs" for xs
      unfolding H1_def by (rule charges_of_upd) (use h in auto)
    have u1: "heap_upd H H1 (set (p # hp))" by (simp add: H1_def h)
    have pool: "\<forall>q \<in> set hp. holds_at H1 q in_pool"
        "\<forall>q \<in> set (l @ [p]). holds_at H1 q (\<lambda>h. \<not> in_pool h)"
      using Cons.prems by (auto simp: H1_def)
    have "\<exists>H' k. lru_overflow_loop cap H1 hp (l @ [p]) (charges_of H1 hp) =
          Some (H', drop k hp, (l @ [p]) @ take k hp, charges_of H1 (drop k hp)) \<and>
        charges_of H1 (drop k hp) \<le> cap \<and> heap_upd H1 H' (set hp) \<and>
        (\<forall>q. map_option base (H' q) = map_option base (H1 q)) \<and>
        (\<forall>p \<in> set (drop k hp). holds_at H' p in_pool) \<and>
        (\<forall>q \<in> set ((l @ [p]) @ take k hp). holds_at H' q (\<lambda>h. \<not> in_pool h)) \<and>
        (\<forall>j < k. charges_of H1 (drop j hp) > cap)"
      using Cons.prems(1) pool by (intro Cons.IH) auto
    then obtain H' k where IH: "lru_overflow_loop cap H1 hp (l @ [p]) (charges_of H hp) =
          Some (H', drop k hp, (l @ [p]) @ take k hp, charges_of H (drop k hp))"
        "charges_of H (drop k hp) \<le> cap" "heap_upd H1 H' (set hp)"
        "\<forall>q. map_option base (H' q) = map_option base (H1 q)"
        "\<forall>p \<in> set (drop k hp). holds_at H' p in_pool"
        "\<forall>q \<in> set ((l @ [p]) @ take k hp). holds_at H' q (\<lambda>h. \<not> in_pool h)"
        "\<forall>j < k. charges_of H (drop j hp) > cap"
      unfolding ch by blast
    have "lru_overflow_loop cap H (p # hp) l c =
        Some (H', drop (Suc k) (p # hp), l @ take (Suc k) (p # hp), charges_of H (drop (Suc k) (p # hp)))"
      using True h Cons.prems IH(1) by (auto simp: checked heap_simps H1_def [symmetric])
    moreover have "heap_upd H H' (set (p # hp))"
      by (rule heap_upd_trans [OF u1 IH(3)]) auto
    moreover have "\<forall>j < Suc k. charges_of H (drop j (p # hp)) > cap"
      using IH(7) True Cons.prems(2) by (auto simp: less_Suc_eq_0_disj)
    moreover have "\<forall>q. map_option base (H' q) = map_option base (H q)"
      using IH(4) h by (simp add: H1_def)
    ultimately show ?thesis
      using IH by (intro exI [of _ H'] exI [of _ "Suc k"]) auto
  qed
qed

abbreviation ready :: "('k, 'v, 'c) BaseHandle \<Rightarrow> bool" where
  "ready b \<equiv> is_inited b \<and> is_in_eviction b"

lemma lru_okI:
  assumes "distinct (lru_linked e)"
    and "\<And>p. p \<in> set (lru_list e) \<Longrightarrow> holds_at H p (\<lambda>h. ready (base h) \<and> \<not> in_pool h)"
    and "\<And>p. p \<in> set (high_priority_list e) \<Longrightarrow> holds_at H p (\<lambda>h. ready (base h) \<and> in_pool h)"
    and "high_priority_charges e = charges_of H (high_priority_list e)"
    and "high_priority_charges e \<le> high_priority_charges_capacity e"
  shows "lru_ok H e"
  using assms by (simp add: lru_ok_def)

lemma lru_okD:
  assumes "lru_ok H e"
  shows "distinct (lru_linked e)"
    and "p \<in> set (lru_list e) \<Longrightarrow> holds_at H p (\<lambda>h. ready (base h) \<and> \<not> in_pool h)"
    and "p \<in> set (high_priority_list e) \<Longrightarrow> holds_at H p (\<lambda>h. ready (base h) \<and> in_pool h)"
    and "high_priority_charges e = charges_of H (high_priority_list e)"
    and "high_priority_charges e \<le> high_priority_charges_capacity e"
  using assms by (simp_all add: lru_ok_def)

lemma lru_push_low:
  assumes ok: "lru_ok H e" and h: "H p = Some h" "is_inited (base h)" "bh_context (base h) = Some LowPriority"
    and new: "p \<notin> set (lru_linked e)"
  shows "\<exists>H'. lru_push H e p = Some (H', e\<lparr>lru_list := lru_list e @ [p]\<rparr>) \<and>
    lru_ok H' (e\<lparr>lru_list := lru_list e @ [p]\<rparr>) \<and> heap_upd H H' {p}"
proof -
  note inv = lru_okD [OF ok]
  define H' where "H' = H(p \<mapsto> (set_in_pool False h)\<lparr>base := set_in_eviction True (base h)\<rparr>)"
  have "lru_push H e p = Some (H', e\<lparr>lru_list := lru_list e @ [p]\<rparr>)"
    using h new by (simp add: lru_push_def checked H'_def)
  moreover have "heap_upd H H' {p}" using h by (simp add: H'_def)
  moreover have "lru_ok H' (e\<lparr>lru_list := lru_list e @ [p]\<rparr>)"
    using new inv h charges_of_upd [of H p h _ "high_priority_list e"]
    by (intro lru_okI) (auto simp: lru_linked_def H'_def)
  ultimately show ?thesis by blast
qed

lemma lru_push_high:
  assumes ok: "lru_ok H e" and h: "H p = Some h" "is_inited (base h)" "bh_context (base h) = Some HighPriority"
    and new: "p \<notin> set (lru_linked e)"
    and lim: "charges_of H (high_priority_list e) + hcharge h < usize_lim"
  shows "\<exists>H' e' k. lru_push H e p = Some (H', e') \<and> lru_ok H' e' \<and>
    lru_list e' = lru_list e @ take k (high_priority_list e @ [p]) \<and>
    high_priority_list e' = drop k (high_priority_list e @ [p]) \<and>
    heap_upd H H' (insert p (set (high_priority_list e)))"
proof -
  note inv = lru_okD [OF ok]
  define H1 where "H1 = H(p \<mapsto> set_in_pool True h)"
  let ?hp = "high_priority_list e @ [p]"
  have ch: "charges_of H1 xs = charges_of H xs" for xs
    unfolding H1_def by (rule charges_of_upd) (use h in auto)
  have pool: "\<forall>q \<in> set ?hp. holds_at H1 q in_pool"
      "\<forall>q \<in> set (lru_list e). holds_at H1 q (\<lambda>h. \<not> in_pool h)"
    using new by (auto simp: H1_def lru_linked_def intro: holds_at_mono [OF inv(2)] holds_at_mono [OF inv(3)])
  have d: "distinct (lru_list e @ ?hp)" using inv new by (auto simp: lru_linked_def)
  obtain H' k where loop: "lru_overflow_loop (high_priority_charges_capacity e) H1 ?hp (lru_list e)
        (charges_of H1 ?hp) = Some (H', drop k ?hp, lru_list e @ take k ?hp, charges_of H1 (drop k ?hp))"
      "charges_of H1 (drop k ?hp) \<le> high_priority_charges_capacity e" "heap_upd H1 H' (set ?hp)"
      "\<forall>q. map_option base (H' q) = map_option base (H1 q)"
      "\<forall>q \<in> set (drop k ?hp). holds_at H' q in_pool"
      "\<forall>q \<in> set (lru_list e @ take k ?hp). holds_at H' q (\<lambda>h. \<not> in_pool h)"
    using lru_overflow_loop_spec [OF d refl pool] by blast
  let ?e' = "e\<lparr>high_priority_list := drop k ?hp, lru_list := lru_list e @ take k ?hp,
    high_priority_charges := charges_of H1 (drop k ?hp)\<rparr>"
  obtain h' where h': "H' p = Some h'" "base h' = base h"
    using loop(4) [rule_format, of p] by (auto simp: H1_def)
  define H2 where "H2 = H'(p \<mapsto> h'\<lparr>base := set_in_eviction True (base h')\<rparr>)"
  have "charge_at H1 p = hcharge h" by (simp add: H1_def)
  then have push: "lru_push H e p = Some (H2, ?e')"
    using h h' new lim loop(1) inv(4)
    by (simp add: lru_push_def may_overflow_high_priority_pool_def checked H1_def [symmetric] H2_def
        ch heap_simps)
  have set: "set (take k ?hp) \<subseteq> set ?hp" "set (drop k ?hp) \<subseteq> set ?hp"
    by (rule set_take_subset set_drop_subset)+
  have "heap_upd H H1 (set ?hp)" by (simp add: H1_def h)
  then have "heap_upd H H' (set ?hp)" using loop(3) by (rule heap_upd_trans) simp_all
  moreover have "heap_upd H' H2 (set ?hp)"
    unfolding H2_def by (rule heap_upd_single) (use h'(1) in simp_all)
  ultimately have upd: "heap_upd H H2 (set ?hp)"
    by (rule heap_upd_trans) simp_all
  have old: "holds_at H1 q (\<lambda>h. ready (base h) \<and> True)" if "q \<in> set (lru_list e @ ?hp)" "q \<noteq> p" for q
    using that by (auto simp: H1_def intro: holds_at_mono [OF inv(2)] holds_at_mono [OF inv(3)])
  have base: "holds_at H2 q (\<lambda>h. ready (base h) \<and> Q h)"
    if "q \<in> set (lru_list e @ ?hp)" "holds_at H' q Q" "\<And>h b. Q (h\<lparr>base := b\<rparr>) = Q h" for q Q
  proof (cases "q = p")
    case True
    with that h h' show ?thesis by (simp add: H2_def holds_at_def)
  next
    case False
    with that holds_at_base [OF loop(4) [rule_format] old that(2)] show ?thesis by (simp add: H2_def)
  qed
  have "lru_ok H2 ?e'"
  proof (rule lru_okI)
    show "distinct (lru_linked ?e')"
      using d by (simp add: lru_linked_def del: take_append drop_append)
    fix q
    show "holds_at H2 q (\<lambda>h. ready (base h) \<and> \<not> in_pool h)" if "q \<in> set (lru_list ?e')"
      using that loop(6) set by (intro base) auto
    show "holds_at H2 q (\<lambda>h. ready (base h) \<and> in_pool h)" if "q \<in> set (high_priority_list ?e')"
      using that loop(5) set by (intro base) auto
  qed (use loop(2) heap_upd_charges [OF upd] ch in auto)
  with push upd show ?thesis by (intro exI [of _ H2] exI [of _ ?e'] exI [of _ k]) simp
qed

lemma lru_push_ok:
  assumes ok: "lru_ok H e" and p: "evictable lru_clean H p" "p \<notin> set (lru_linked e)"
    and lim: "charges_of H (lru_linked e) + charge_at H p < usize_lim"
  shows "\<exists>H' e'. lru_push H e p = Some (H', e') \<and> lru_ok H' e' \<and>
    set (lru_linked e') = insert p (set (lru_linked e)) \<and> heap_upd H H' (insert p (set (lru_linked e)))"
proof -
  obtain h where h: "H p = Some h" "is_inited (base h)" using p(1) by (auto simp: evictable_iff)
  then obtain c where c: "bh_context (base h) = Some c" using is_inited_context by blast
  show ?thesis
  proof (cases c)
    case HighPriority
    have "charges_of H (high_priority_list e) + hcharge h < usize_lim"
      using lim h by (simp add: lru_linked_def heap_simps)
    from lru_push_high [OF ok h c [unfolded HighPriority] p(2) this]
    obtain H' e' k where r: "lru_push H e p = Some (H', e')" "lru_ok H' e'"
      "lru_list e' = lru_list e @ take k (high_priority_list e @ [p])"
      "high_priority_list e' = drop k (high_priority_list e @ [p])"
      "heap_upd H H' (insert p (set (high_priority_list e)))" by blast
    moreover have "set (lru_linked e') = insert p (set (lru_linked e))"
      unfolding lru_linked_def r(3,4) append.assoc append_take_drop_id by auto
    ultimately show ?thesis
      using heap_upd_mono [OF r(5), of "insert p (set (lru_linked e))"] by (auto simp: lru_linked_def)
  next
    case LowPriority
    from lru_push_low [OF ok h c [unfolded LowPriority] p(2)] show ?thesis
      using heap_upd_mono [of H _ "{p}" "insert p (set (lru_linked e))"]
      by (fastforce simp: lru_linked_def)
  qed
qed

lemma lru_remove_ok:
  assumes ok: "lru_ok H e" and p: "p \<in> set (lru_linked e)"
  shows "\<exists>H' e'. lru_remove H e p = Some (H', e') \<and> lru_ok H' e' \<and>
    set (lru_linked e') = set (lru_linked e) - {p} \<and> heap_upd H H' (set (lru_linked e)) \<and>
    evictable lru_clean H' p \<and> map_option handle_core (H' p) = map_option handle_core (H p)"
proof -
  note inv = lru_okD [OF ok]
  obtain h where h: "H p = Some h" "ready (base h)" "in_pool h \<longleftrightarrow> p \<in> set (high_priority_list e)"
    using p inv(1) inv(2,3) [of p] by (auto simp: lru_linked_def elim!: holds_atE)
  define H' where "H' = H(p \<mapsto> h\<lparr>base := set_in_eviction False (base h)\<rparr>)"
  have ch: "charges_of H' xs = charges_of H xs" for xs
    unfolding H'_def by (rule charges_of_upd) (use h in auto)
  have le: "p \<in> set (high_priority_list e) \<Longrightarrow> hcharge h \<le> high_priority_charges e"
    using charges_of_member [of p "high_priority_list e" H] h inv(4) by (simp add: heap_simps)
  let ?e' = "if in_pool h
    then e\<lparr>high_priority_charges := high_priority_charges e - hcharge h,
           high_priority_list := remove1 p (high_priority_list e)\<rparr>
    else e\<lparr>lru_list := remove1 p (lru_list e)\<rparr>"
  have "lru_remove H e p = Some (H', ?e')"
    using h p le by (auto simp: lru_remove_def checked H'_def lru_linked_def)
  moreover have "heap_upd H H' (set (lru_linked e))" using h p by (simp add: H'_def)
  moreover have "lru_ok H' ?e'"
  proof (rule lru_okI)
    show "distinct (lru_linked ?e')" using inv(1) set_remove1_subset [of p]
      by (fastforce simp: lru_linked_def)
    fix q
    show "holds_at H' q (\<lambda>h. ready (base h) \<and> \<not> in_pool h)" if "q \<in> set (lru_list ?e')"
      using that inv(1,2) h by (auto simp: H'_def lru_linked_def split: if_splits)
    show "holds_at H' q (\<lambda>h. ready (base h) \<and> in_pool h)" if "q \<in> set (high_priority_list ?e')"
      using that inv(1,3) h by (auto simp: H'_def lru_linked_def split: if_splits)
  qed (use inv(4,5) h ch in \<open>auto simp: heap_simps\<close>)
  moreover have "set (lru_linked ?e') = set (lru_linked e) - {p}"
    using inv(1) h p by (auto simp: lru_linked_def)
  ultimately show ?thesis using h by (auto simp: H'_def evictable_iff)
qed

lemma lru_pop_list:
  assumes ok: "lru_ok H e" and l: "lru_list e = p # l"
  shows "\<exists>H'. lru_pop H e = Some (Some p, H', e\<lparr>lru_list := l\<rparr>) \<and> lru_ok H' (e\<lparr>lru_list := l\<rparr>) \<and>
    heap_upd H H' {p} \<and> evictable lru_clean H' p"
proof -
  note inv = lru_okD [OF ok]
  obtain h where h: "H p = Some h" "ready (base h)" "\<not> in_pool h"
    using inv(2) [of p] l by (auto elim!: holds_atE)
  define H' where "H' = H(p \<mapsto> h\<lparr>base := set_in_eviction False (base h)\<rparr>)"
  have ch: "charges_of H' xs = charges_of H xs" for xs
    unfolding H'_def by (rule charges_of_upd) (use h in auto)
  have d: "p \<notin> set l" "p \<notin> set (high_priority_list e)" "distinct (l @ high_priority_list e)"
    using inv(1) l by (auto simp: lru_linked_def)
  have "lru_pop H e = Some (Some p, H', e\<lparr>lru_list := l\<rparr>)"
    using h l d by (simp add: lru_pop_def H'_def lru_linked_def)
  moreover have "lru_ok H' (e\<lparr>lru_list := l\<rparr>)"
    using inv(2,3,4,5) d l ch by (intro lru_okI) (auto simp: H'_def lru_linked_def)
  ultimately show ?thesis using h by (simp add: H'_def evictable_iff)
qed

lemma lru_pop_pool:
  assumes ok: "lru_ok H e" and l: "lru_list e = []" "high_priority_list e = p # hp"
  shows "\<exists>H' e'. lru_pop H e = Some (Some p, H', e') \<and> lru_ok H' e' \<and> lru_linked e' = hp \<and>
    heap_upd H H' {p} \<and> evictable lru_clean H' p"
proof -
  note inv = lru_okD [OF ok]
  obtain h where h: "H p = Some h" "ready (base h)" "in_pool h"
    using inv(3) [of p] l by (auto elim!: holds_atE)
  define H' where "H' = H(p \<mapsto> h\<lparr>base := set_in_eviction False (base h)\<rparr>)"
  have ch: "charges_of H' xs = charges_of H xs" for xs
    unfolding H'_def by (rule charges_of_upd) (use h in auto)
  have d: "p \<notin> set hp" "distinct hp"
    using inv(1) l by (auto simp: lru_linked_def)
  let ?e' = "e\<lparr>high_priority_list := hp, high_priority_charges := charges_of H hp\<rparr>"
  have "lru_pop H e = Some (Some p, H', ?e')"
    using h l d inv(4) by (simp add: lru_pop_def H'_def lru_linked_def checked heap_simps)
  moreover have "lru_ok H' ?e'"
    using inv(3,4,5) d l ch by (intro lru_okI) (auto simp: H'_def lru_linked_def)
  ultimately show ?thesis using h l by (simp add: H'_def evictable_iff lru_linked_def)
qed

lemma lru_pop_ok:
  assumes ok: "lru_ok H e"
  shows "(lru_linked e = [] \<and> lru_pop H e = Some (None, H, e)) \<or>
    (\<exists>p H' e'. lru_pop H e = Some (Some p, H', e') \<and> lru_linked e = p # lru_linked e' \<and>
       lru_ok H' e' \<and> heap_upd H H' {p} \<and> evictable lru_clean H' p)"
proof (cases "lru_list e")
  case (Cons p l)
  with lru_pop_list [OF ok Cons] show ?thesis by (auto simp: lru_linked_def)
next
  case Nil
  show ?thesis
  proof (cases "high_priority_list e")
    case hp: Nil
    with Nil show ?thesis by (simp add: lru_pop_def lru_linked_def)
  next
    case (Cons p hp)
    with Nil lru_pop_pool [OF ok Nil Cons] show ?thesis by (auto simp: lru_linked_def)
  qed
qed

lemma lru_clear_list_spec:
  "distinct l \<Longrightarrow> \<forall>p \<in> set l. holds_at H p (\<lambda>h. is_inited (base h)) \<Longrightarrow>
   \<exists>H'. lru_clear_list H l res = Some (res @ l, H') \<and> heap_upd H H' (set l) \<and>
     (\<forall>p \<in> set l. evictable lru_clean H' p)"
proof (induction l arbitrary: H res)
  case Nil
  then show ?case by simp
next
  case (Cons p l)
  then obtain h where h: "H p = Some h" "is_inited (base h)" by (auto elim: holds_atE)
  define H1 where "H1 = H(p \<mapsto> h\<lparr>base := set_in_eviction False (base h)\<rparr>)"
  have 1: "\<forall>q \<in> set l. holds_at H1 q (\<lambda>h. is_inited (base h))"
    using Cons.prems h by (auto simp: H1_def)
  obtain H' where H': "lru_clear_list H1 l (res @ [p]) = Some ((res @ [p]) @ l, H')"
    "heap_upd H1 H' (set l)" "\<forall>q \<in> set l. evictable lru_clean H' q"
    using Cons.IH [OF _ 1, of "res @ [p]"] Cons.prems by auto
  have "heap_upd H H1 (set (p # l))" unfolding H1_def by (rule heap_upd_single) (use h in auto)
  moreover have "H' p = H1 p" using Cons.prems heap_upd_other [OF H'(2), of p] by simp
  ultimately show ?case
    using H' h heap_upd_trans [OF _ H'(2), of H "set (p # l)" "set (p # l)"]
    by (auto simp: H1_def evictable_def)
qed

lemma lru_clear_pool_list:
  "distinct hp \<Longrightarrow> lru_clear_list H hp res = Some (r, H') \<Longrightarrow>
   lru_clear_pool H hp (c + charges_of H hp) res = Some (r, H', c)"
proof (induction hp arbitrary: H res)
  case Nil
  then show ?case by simp
next
  case (Cons p hp)
  then obtain h where h: "H p = Some h" by (auto simp: update_handle_def split: option.splits)
  define H1 where "H1 = H(p \<mapsto> h\<lparr>base := set_in_eviction False (base h)\<rparr>)"
  have "charges_of H1 hp = charges_of H hp"
    unfolding H1_def by (rule charges_of_upd) (use h in auto)
  moreover have "lru_clear_pool H1 hp (c + charges_of H1 hp) (res @ [p]) = Some (r, H', c)"
    using Cons h by (intro Cons.IH) (simp_all add: H1_def [symmetric])
  ultimately show ?case using h by (simp add: checked heap_simps H1_def [symmetric])
qed

lemma lru_clear_ok:
  assumes ok: "lru_ok H e"
  shows "\<exists>H' e'. lru_clear H e = Some (lru_linked e, H', e') \<and> lru_ok H' e' \<and> lru_linked e' = [] \<and>
    heap_upd H H' (set (lru_linked e)) \<and> (\<forall>p \<in> set (lru_linked e). evictable lru_clean H' p)"
proof -
  note inv = lru_okD [OF ok]
  have d: "distinct (lru_list e)" "distinct (high_priority_list e)"
      "set (lru_list e) \<inter> set (high_priority_list e) = {}"
    using inv(1) by (auto simp: lru_linked_def)
  have "\<forall>p \<in> set (lru_list e). holds_at H p (\<lambda>h. is_inited (base h))"
    by (auto intro: holds_at_mono [OF inv(2)])
  then obtain H1 where H1: "lru_clear_list H (lru_list e) [] = Some (lru_list e, H1)"
      "heap_upd H H1 (set (lru_list e))" "\<forall>p \<in> set (lru_list e). evictable lru_clean H1 p"
    using lru_clear_list_spec [OF d(1), of H "[]"] by auto
  have "\<forall>p \<in> set (high_priority_list e). holds_at H1 p (\<lambda>h. is_inited (base h))"
  proof
    fix p
    assume p: "p \<in> set (high_priority_list e)"
    then have "H1 p = H p" using d(3) heap_upd_other [OF H1(2), of p] by auto
    with holds_at_mono [OF inv(3) [OF p]] show "holds_at H1 p (\<lambda>h. is_inited (base h))"
      by (simp add: holds_at_def)
  qed
  then obtain H2 where H2:
      "lru_clear_list H1 (high_priority_list e) (lru_list e) = Some (lru_linked e, H2)"
      "heap_upd H1 H2 (set (high_priority_list e))"
      "\<forall>p \<in> set (high_priority_list e). evictable lru_clean H2 p"
    using lru_clear_list_spec [OF d(2), of H1 "lru_list e"] by (auto simp: lru_linked_def)
  have pool: "lru_clear_pool H1 (high_priority_list e) (high_priority_charges e) (lru_list e) =
      Some (lru_linked e, H2, 0)"
    using lru_clear_pool_list [OF d(2) H2(1), of 0] inv(4) heap_upd_charges [OF H1(2)] by simp
  have "\<forall>p \<in> set (lru_linked e). evictable lru_clean H2 p"
    using H1(3) H2(3) d(3) heap_upd_other [OF H2(2)] by (auto simp: lru_linked_def evictable_def)
  moreover have "heap_upd H H2 (set (lru_linked e))"
    by (rule heap_upd_trans [OF H1(2) H2(2)]) (auto simp: lru_linked_def)
  ultimately show ?thesis
    using H1(1) pool by (auto simp: lru_clear_def lru_linked_def lru_ok_def)
qed

lemma lru_reinsert_ok:
  assumes ok: "lru_ok H e" and p: "p \<in> set (lru_linked e) \<or> evictable lru_clean H p"
    and lim: "sum (charge_at H) (insert p (set (lru_linked e))) < usize_lim"
  shows "\<exists>H' e'. lru_reinsert H e p = Some (H', e') \<and> lru_ok H' e' \<and>
    set (lru_linked e') = insert p (set (lru_linked e)) \<and> heap_upd H H' (insert p (set (lru_linked e)))"
proof (cases "p \<in> set (lru_linked e)")
  case True
  note inv = lru_okD [OF ok]
  obtain h where h: "H p = Some h" "in_ev h"
    using True inv(2,3) [of p] by (auto simp: lru_linked_def elim!: holds_atE)
  obtain H1 e1 where 1: "lru_remove H e p = Some (H1, e1)" "lru_ok H1 e1"
      "set (lru_linked e1) = set (lru_linked e) - {p}" "heap_upd H H1 (set (lru_linked e))"
      "evictable lru_clean H1 p"
    using lru_remove_ok [OF ok True] by blast
  have "charges_of H1 (lru_linked e1) + charge_at H1 p = sum (charge_at H) (set (lru_linked e))"
    using True lru_okD(1) [OF 1(2)] 1(3) heap_upd_charge_at [OF 1(4)]
    by (simp add: charges_of_set sum.remove)
  then have "charges_of H1 (lru_linked e1) + charge_at H1 p < usize_lim"
    using lim True by (simp add: insert_absorb)
  then obtain H2 e2 where 2: "lru_push H1 e1 p = Some (H2, e2)" "lru_ok H2 e2"
      "set (lru_linked e2) = insert p (set (lru_linked e1))"
      "heap_upd H1 H2 (insert p (set (lru_linked e1)))"
    using lru_push_ok [OF 1(2,5)] 1(3) by auto
  have "heap_upd H H2 (insert p (set (lru_linked e)))"
    by (rule heap_upd_trans [OF 1(4) 2(4)]) (use 1(3) in auto)
  then show ?thesis
    using True h 1 2 by (auto simp: lru_reinsert_def)
next
  case False
  then have ev: "evictable lru_clean H p" using p by simp
  then obtain h where h: "H p = Some h" "\<not> in_ev h" by (auto simp: evictable_iff)
  have "charges_of H (lru_linked e) + charge_at H p < usize_lim"
    using lim False lru_okD(1) [OF ok] by (simp add: charges_of_set)
  from lru_push_ok [OF ok ev False this] show ?thesis
    using False h by (auto simp: lru_reinsert_def)
qed

interpretation lru: eviction "lru_ops rnd" lru_ok lru_linked lru_clean
proof (unfold_locales, goal_cases)
  case (2 H e p)
  then show ?case using lru_okD(2,3) [of H e p] by (auto simp: lru_linked_def elim!: holds_atE)
next
  case (3 H e H')
  have ch: "charges_of H' (high_priority_list e) = charges_of H (high_priority_list e)"
    by (rule charges_of_cong, rule charge_at_view) (use 3 in \<open>simp add: lru_linked_def\<close>)
  have at: "holds_at H' p (\<lambda>h. ready (base h) \<and> in_pool h = b) =
      holds_at H p (\<lambda>h. ready (base h) \<and> in_pool h = b)" if "p \<in> set (lru_linked e)" for p b
    by (rule holds_at_view) (use that 3 in \<open>auto simp: ev_view_def\<close>)
  show ?case
    using lru_okD [OF 3(1)] ch at [of _ True] at [of _ False]
    by (intro lru_okI) (auto simp: lru_linked_def)
next
  case (6 H e p)
  then show ?case using lru_push_ok by (simp add: lru_ops_def)
next
  case (12 H e)
  have "distinct (lru_linked e)" using 12 by (simp add: lru_okD)
  with lru_pop_ok [OF 12(1)] 12 show ?case
    by (auto simp: lru_ops_def elim!: heap_upd_mono)
next
  case (7 H e p)
  from lru_reinsert_ok [OF this] show ?case by (auto simp: lru_ops_def)
next
  case (9 H e p)
  then show ?case using lru_remove_ok by (fastforce simp: lru_ops_def)
next
  case (13 H e)
  then show ?case using lru_clear_ok [of H e] lru_okD(1) by (fastforce simp: lru_ops_def)
qed (auto simp: lru_ops_def lru_handle_new_def lru_new_def lru_access_def lru_len_def
    lru_is_empty_def lru_linked_def lru_ok_def split: if_splits)

end
