(* ===== verification/Lfu.thy ===== *)
theory Lfu
  imports Eviction_Spec
begin

text \<open>
  \<^verbatim>\<open>foyer-memory/src/eviction/lfu.rs\<close>: the W-TinyLFU style container with its window, probation and
  protected queues. The count-min sketch is the external crate \<^verbatim>\<open>cmsketch\<close>: a record \<open>cms_ops\<close> of
  its operations is an argument of every definition that uses it, and no theorem here needs more of it
  than the types of its operations. \<open>lfu_ok\<close> is the invariant (queues, queue tags, charges per queue and
  their bounds, the decay counter); the interpretation \<open>lfu\<close> discharges the trait's contract.
\<close>

section \<open>Definitions\<close>

record 's cms_ops =
  cms_new :: "f64 \<Rightarrow> f64 \<Rightarrow> 's"
  cms_width :: "'s \<Rightarrow> 64 word"
  cms_inc :: "'s \<Rightarrow> nat \<Rightarrow> 's"
  cms_estimate :: "'s \<Rightarrow> nat \<Rightarrow> nat"
  cms_halve :: "'s \<Rightarrow> 's"

record LfuConfig =
  window_capacity_ratio :: f64
  protected_capacity_ratio :: f64
  cmsketch_eps :: f64
  cmsketch_confidence :: f64

datatype LfuContext = LfuContext

definition lfu_context_from :: "CacheContext \<Rightarrow> LfuContext" where
  "lfu_context_from c = LfuContext"

definition lfu_context_into :: "LfuContext \<Rightarrow> CacheContext" where
  "lfu_context_into c = Default"

datatype LfuQueue = QNone | Window | Probation | Protected

type_synonym ('k, 'v) LfuHandle = "('k, 'v, LfuContext, LfuQueue) handle"
type_synonym ('k, 'v) lfu_heap = "('k, 'v, LfuContext, LfuQueue) heap"

definition lfu_handle_new :: "('k, 'v) LfuHandle" where
  "lfu_handle_new = \<lparr>base = bh_new, hext = QNone\<rparr>"

record 's Lfu =
  lfu_window :: "ptr list"
  lfu_probation :: "ptr list"
  lfu_protected :: "ptr list"
  window_charges :: usize
  probation_charges :: usize
  protected_charges :: usize
  window_charges_capacity :: usize
  protected_charges_capacity :: usize
  frequencies :: 's
  lfu_step :: usize
  lfu_decay :: usize

definition lfu_linked :: "'s Lfu \<Rightarrow> ptr list" where
  "lfu_linked e = lfu_window e @ lfu_probation e @ lfu_protected e"

definition increase_queue_charges :: "'s Lfu \<Rightarrow> ('k, 'v) LfuHandle \<Rightarrow> 's Lfu option" where
  "increase_queue_charges e h = (let charges = hcharge h in case hext h of
       QNone \<Rightarrow> None
     | Window \<Rightarrow> do { c \<leftarrow> uadd (window_charges e) charges; Some (e\<lparr>window_charges := c\<rparr>) }
     | Probation \<Rightarrow> do { c \<leftarrow> uadd (probation_charges e) charges; Some (e\<lparr>probation_charges := c\<rparr>) }
     | Protected \<Rightarrow> do { c \<leftarrow> uadd (protected_charges e) charges; Some (e\<lparr>protected_charges := c\<rparr>) })"

definition decrease_queue_charges :: "'s Lfu \<Rightarrow> ('k, 'v) LfuHandle \<Rightarrow> 's Lfu option" where
  "decrease_queue_charges e h = (let charges = hcharge h in case hext h of
       QNone \<Rightarrow> None
     | Window \<Rightarrow> do { c \<leftarrow> usub (window_charges e) charges; Some (e\<lparr>window_charges := c\<rparr>) }
     | Probation \<Rightarrow> do { c \<leftarrow> usub (probation_charges e) charges; Some (e\<lparr>probation_charges := c\<rparr>) }
     | Protected \<Rightarrow> do { c \<leftarrow> usub (protected_charges e) charges; Some (e\<lparr>protected_charges := c\<rparr>) })"

definition update_frequencies :: "'s cms_ops \<Rightarrow> 's Lfu \<Rightarrow> nat \<Rightarrow> 's Lfu option" where
  "update_frequencies cms e hash = do {
     let f = cms_inc cms (frequencies e) hash;
     step \<leftarrow> uadd (lfu_step e) 1;
     if step \<ge> lfu_decay e
     then Some (e\<lparr>frequencies := cms_halve cms f, lfu_step := step div 2\<rparr>)
     else Some (e\<lparr>frequencies := f, lfu_step := step\<rparr>)
   }"

definition lfu_new :: "(f64 \<Rightarrow> f64) \<Rightarrow> 's cms_ops \<Rightarrow> usize \<Rightarrow> LfuConfig \<Rightarrow> 's Lfu option" where
  "lfu_new rnd cms capacity config = do {
     ensure (window_capacity_ratio config > 0 \<and> window_capacity_ratio config < 1);
     ensure (protected_capacity_ratio config > 0 \<and> protected_capacity_ratio config < 1);
     ensure (rnd (window_capacity_ratio config + protected_capacity_ratio config) < 1);
     let f = cms_new cms (cmsketch_eps config) (cmsketch_confidence config);
     Some \<lparr>lfu_window = [], lfu_probation = [], lfu_protected = [],
       window_charges = 0, probation_charges = 0, protected_charges = 0,
       window_charges_capacity = scale_capacity rnd capacity (window_capacity_ratio config),
       protected_charges_capacity = scale_capacity rnd capacity (protected_capacity_ratio config),
       frequencies = f, lfu_step = 0, lfu_decay = unat (cms_width cms f)\<rparr>
   }"

text \<open>The loop at the end of \<^verbatim>\<open>push\<close>; the list is the content of \<open>window\<close>.\<close>

fun lfu_window_loop :: "('k, 'v) lfu_heap \<Rightarrow> 's Lfu \<Rightarrow> ptr list \<Rightarrow> (('k, 'v) lfu_heap \<times> 's Lfu) option" where
  "lfu_window_loop H e [] =
     (if window_charges e > window_charges_capacity e then None else Some (H, e\<lparr>lfu_window := []\<rparr>))"
| "lfu_window_loop H e (p # w) =
     (if window_charges e > window_charges_capacity e then do {
        h \<leftarrow> H p;
        e1 \<leftarrow> decrease_queue_charges e h;
        H' \<leftarrow> update_handle H p (\<lambda>h. h\<lparr>hext := Probation\<rparr>);
        e2 \<leftarrow> increase_queue_charges e1 (h\<lparr>hext := Probation\<rparr>);
        q \<leftarrow> dl_push_back (w @ lfu_probation e2 @ lfu_protected e2) (lfu_probation e2) p;
        lfu_window_loop H' (e2\<lparr>lfu_probation := q\<rparr>) w
      } else Some (H, e\<lparr>lfu_window := p # w\<rparr>))"

definition lfu_push :: "'s cms_ops \<Rightarrow> ('k, 'v) lfu_heap \<Rightarrow> 's Lfu \<Rightarrow> ptr \<Rightarrow> (('k, 'v) lfu_heap \<times> 's Lfu) option" where
  "lfu_push cms H e p = do {
     h \<leftarrow> H p;
     ensure (p \<notin> set (lfu_linked e));
     ensure (\<not> in_ev h);
     ensure (hext h = QNone);
     w \<leftarrow> dl_push_back (lfu_linked e) (lfu_window e) p;
     let h' = h\<lparr>base := set_in_eviction True (base h), hext := Window\<rparr>;
     e1 \<leftarrow> increase_queue_charges (e\<lparr>lfu_window := w\<rparr>) h';
     e2 \<leftarrow> update_frequencies cms e1 (bh_hash (base h'));
     lfu_window_loop (H(p \<mapsto> h')) e2 (lfu_window e2)
   }"

definition lfu_pop_victim :: "'s cms_ops \<Rightarrow> ('k, 'v) lfu_heap \<Rightarrow> 's Lfu \<Rightarrow> (ptr \<times> 's Lfu) option option" where
  "lfu_pop_victim cms H e = (case (lfu_window e, lfu_probation e) of
       ([], []) \<Rightarrow> Some (case lfu_protected e of
           [] \<Rightarrow> None
         | r # rs \<Rightarrow> Some (r, e\<lparr>lfu_protected := rs\<rparr>))
     | ([], p # ps) \<Rightarrow> Some (Some (p, e\<lparr>lfu_probation := ps\<rparr>))
     | (w # ws, []) \<Rightarrow> Some (Some (w, e\<lparr>lfu_window := ws\<rparr>))
     | (w # ws, p # ps) \<Rightarrow> do {
         hw \<leftarrow> H w;
         hp \<leftarrow> H p;
         if cms_estimate cms (frequencies e) (bh_hash (base hw)) <
            cms_estimate cms (frequencies e) (bh_hash (base hp))
         then Some (Some (w, e\<lparr>lfu_window := ws\<rparr>))
         else Some (Some (p, e\<lparr>lfu_probation := ps\<rparr>))
       })"

definition lfu_pop :: "'s cms_ops \<Rightarrow> ('k, 'v) lfu_heap \<Rightarrow> 's Lfu \<Rightarrow>
    (ptr option \<times> ('k, 'v) lfu_heap \<times> 's Lfu) option" where
  "lfu_pop cms H e = do {
     victim \<leftarrow> lfu_pop_victim cms H e;
     (case victim of
        None \<Rightarrow> Some (None, H, e)
      | Some (p, e1) \<Rightarrow> do {
          h \<leftarrow> H p;
          ensure (p \<notin> set (lfu_linked e1));
          ensure (in_ev h);
          ensure (hext h \<noteq> QNone);
          e2 \<leftarrow> decrease_queue_charges e1 h;
          H' \<leftarrow> update_handle H p (\<lambda>h. h\<lparr>hext := QNone, base := set_in_eviction False (base h)\<rparr>);
          Some (Some p, H', e2)
        })
   }"

text \<open>The loop of \<^verbatim>\<open>reinsert\<close> that overflows \<open>protected\<close> into \<open>probation\<close>.\<close>

fun lfu_protected_loop :: "('k, 'v) lfu_heap \<Rightarrow> 's Lfu \<Rightarrow> ptr list \<Rightarrow> (('k, 'v) lfu_heap \<times> 's Lfu) option" where
  "lfu_protected_loop H e [] =
     (if protected_charges e > protected_charges_capacity e then None else Some (H, e\<lparr>lfu_protected := []\<rparr>))"
| "lfu_protected_loop H e (p # r) =
     (if protected_charges e > protected_charges_capacity e then do {
        h \<leftarrow> H p;
        e1 \<leftarrow> decrease_queue_charges e h;
        H' \<leftarrow> update_handle H p (\<lambda>h. h\<lparr>hext := Probation\<rparr>);
        e2 \<leftarrow> increase_queue_charges e1 (h\<lparr>hext := Probation\<rparr>);
        q \<leftarrow> dl_push_back (lfu_window e2 @ lfu_probation e2 @ r) (lfu_probation e2) p;
        lfu_protected_loop H' (e2\<lparr>lfu_probation := q\<rparr>) r
      } else Some (H, e\<lparr>lfu_protected := p # r\<rparr>))"

definition lfu_reinsert :: "'s cms_ops \<Rightarrow> ('k, 'v) lfu_heap \<Rightarrow> 's Lfu \<Rightarrow> ptr \<Rightarrow>
    (('k, 'v) lfu_heap \<times> 's Lfu) option" where
  "lfu_reinsert cms H e p = do {
     h \<leftarrow> H p;
     (case hext h of
        QNone \<Rightarrow> do {
          ensure (p \<notin> set (lfu_linked e));
          ensure (\<not> in_ev h);
          (H', e') \<leftarrow> lfu_push cms H e p;
          ensure (p \<in> set (lfu_linked e'));
          h' \<leftarrow> H' p;
          ensure (in_ev h');
          Some (H', e')
        }
      | Window \<Rightarrow> do {
          ensure (p \<in> set (lfu_linked e));
          ensure (in_ev h);
          w \<leftarrow> dl_remove (lfu_window e) p;
          w' \<leftarrow> dl_push_back (w @ lfu_probation e @ lfu_protected e) w p;
          Some (H, e\<lparr>lfu_window := w'\<rparr>)
        }
      | Probation \<Rightarrow> do {
          ensure (p \<in> set (lfu_linked e));
          ensure (in_ev h);
          q \<leftarrow> dl_remove (lfu_probation e) p;
          e1 \<leftarrow> decrease_queue_charges (e\<lparr>lfu_probation := q\<rparr>) h;
          H' \<leftarrow> update_handle H p (\<lambda>h. h\<lparr>hext := Protected\<rparr>);
          e2 \<leftarrow> increase_queue_charges e1 (h\<lparr>hext := Protected\<rparr>);
          r \<leftarrow> dl_push_back (lfu_linked e2) (lfu_protected e2) p;
          lfu_protected_loop H' (e2\<lparr>lfu_protected := r\<rparr>) r
        }
      | Protected \<Rightarrow> do {
          ensure (p \<in> set (lfu_linked e));
          ensure (in_ev h);
          r \<leftarrow> dl_remove (lfu_protected e) p;
          r' \<leftarrow> dl_push_back (lfu_window e @ lfu_probation e @ r) r p;
          Some (H, e\<lparr>lfu_protected := r'\<rparr>)
        })
   }"

definition lfu_access :: "'s cms_ops \<Rightarrow> ('k, 'v) lfu_heap \<Rightarrow> 's Lfu \<Rightarrow> ptr \<Rightarrow>
    (('k, 'v) lfu_heap \<times> 's Lfu) option" where
  "lfu_access cms H e p = do {
     h \<leftarrow> H p;
     e' \<leftarrow> update_frequencies cms e (bh_hash (base h));
     Some (H, e')
   }"

definition lfu_remove :: "('k, 'v) lfu_heap \<Rightarrow> 's Lfu \<Rightarrow> ptr \<Rightarrow> (('k, 'v) lfu_heap \<times> 's Lfu) option" where
  "lfu_remove H e p = do {
     h \<leftarrow> H p;
     ensure (p \<in> set (lfu_linked e));
     ensure (in_ev h);
     ensure (hext h \<noteq> QNone);
     e1 \<leftarrow> (case hext h of
         QNone \<Rightarrow> None
       | Window \<Rightarrow> do { q \<leftarrow> dl_remove (lfu_window e) p; Some (e\<lparr>lfu_window := q\<rparr>) }
       | Probation \<Rightarrow> do { q \<leftarrow> dl_remove (lfu_probation e) p; Some (e\<lparr>lfu_probation := q\<rparr>) }
       | Protected \<Rightarrow> do { q \<leftarrow> dl_remove (lfu_protected e) p; Some (e\<lparr>lfu_protected := q\<rparr>) });
     ensure (p \<notin> set (lfu_linked e1));
     e2 \<leftarrow> decrease_queue_charges e1 h;
     H' \<leftarrow> update_handle H p (\<lambda>h. h\<lparr>hext := QNone, base := set_in_eviction False (base h)\<rparr>);
     Some (H', e2)
   }"

definition lfu_len :: "'s Lfu \<Rightarrow> usize" where
  "lfu_len e = length (lfu_window e) + length (lfu_probation e) + length (lfu_protected e)"

definition lfu_is_empty :: "'s Lfu \<Rightarrow> bool" where
  "lfu_is_empty e \<longleftrightarrow> lfu_len e = 0"

lemma queue_charges_linked:
  "increase_queue_charges e h = Some e' \<Longrightarrow> lfu_linked e' = lfu_linked e"
  "decrease_queue_charges e h = Some e' \<Longrightarrow> lfu_linked e' = lfu_linked e"
  by (auto simp: increase_queue_charges_def decrease_queue_charges_def lfu_linked_def uadd_def usub_def Let_def
      split: LfuQueue.splits if_splits)

lemma lfu_pop_victim_length:
  "lfu_pop_victim cms H e = Some (Some (p, e')) \<Longrightarrow> length (lfu_linked e) = Suc (length (lfu_linked e'))"
  by (auto simp: lfu_pop_victim_def lfu_linked_def split: list.splits option.splits if_splits
      Option.bind_splits)

lemma lfu_pop_length:
  "lfu_pop cms H e = Some (Some p, H', e') \<Longrightarrow> length (lfu_linked e) = Suc (length (lfu_linked e'))"
  by (auto simp: lfu_pop_def dest!: lfu_pop_victim_length queue_charges_linked(2)
      split: option.splits if_splits Option.bind_splits)

function lfu_clear_loop :: "'s cms_ops \<Rightarrow> ('k, 'v) lfu_heap \<Rightarrow> 's Lfu \<Rightarrow> ptr list \<Rightarrow>
    (ptr list \<times> ('k, 'v) lfu_heap \<times> 's Lfu) option" where
  "lfu_clear_loop cms H e res =
     (if lfu_is_empty e then Some (res, H, e)
      else (case lfu_pop cms H e of
          Some (Some p, H', e') \<Rightarrow>
            (if holds_at H' p (\<lambda>h. \<not> in_ev h \<and> hext h = QNone) \<and> p \<notin> set (lfu_linked e')
             then lfu_clear_loop cms H' e' (res @ [p]) else None)
        | _ \<Rightarrow> None))"
  by pat_completeness auto
termination
  by (relation "measure (\<lambda>(cms, H, e, res). length (lfu_linked e))") (auto dest: lfu_pop_length)

definition lfu_clear :: "'s cms_ops \<Rightarrow> ('k, 'v) lfu_heap \<Rightarrow> 's Lfu \<Rightarrow>
    (ptr list \<times> ('k, 'v) lfu_heap \<times> 's Lfu) option" where
  "lfu_clear cms H e = lfu_clear_loop cms H e []"

definition lfu_ops :: "(f64 \<Rightarrow> f64) \<Rightarrow> 's cms_ops \<Rightarrow>
    ('k, 'v, LfuContext, LfuQueue, 's Lfu, LfuConfig) eviction_ops" where
  "lfu_ops rnd cms = \<lparr>ev_handle_new = lfu_handle_new, ev_new = lfu_new rnd cms, ev_push = lfu_push cms,
     ev_pop = lfu_pop cms, ev_reinsert = lfu_reinsert cms, ev_access = lfu_access cms,
     ev_remove = lfu_remove, ev_clear = lfu_clear cms, ev_len = lfu_len, ev_is_empty = lfu_is_empty\<rparr>"

declare lfu_clear_loop.simps [simp del]

section \<open>The invariant\<close>

abbreviation lfu_in :: "LfuQueue \<Rightarrow> ('k, 'v) LfuHandle \<Rightarrow> bool" where
  "lfu_in q h \<equiv> is_inited (base h) \<and> in_ev h \<and> hext h = q"

abbreviation lfu_clean :: "LfuQueue \<Rightarrow> bool" where
  "lfu_clean q \<equiv> q = QNone"

text \<open>What holds inside an operation as well, while a queue may exceed its capacity.\<close>

definition lfu_inv :: "('k, 'v) lfu_heap \<Rightarrow> 's Lfu \<Rightarrow> bool" where
  "lfu_inv H e \<longleftrightarrow> distinct (lfu_linked e) \<and>
     (\<forall>p \<in> set (lfu_window e). holds_at H p (lfu_in Window)) \<and>
     (\<forall>p \<in> set (lfu_probation e). holds_at H p (lfu_in Probation)) \<and>
     (\<forall>p \<in> set (lfu_protected e). holds_at H p (lfu_in Protected)) \<and>
     window_charges e = charges_of H (lfu_window e) \<and>
     probation_charges e = charges_of H (lfu_probation e) \<and>
     protected_charges e = charges_of H (lfu_protected e) \<and>
     (lfu_step e < lfu_decay e \<or> lfu_step e = 0) \<and> lfu_decay e < usize_lim"

definition lfu_ok :: "('k, 'v) lfu_heap \<Rightarrow> 's Lfu \<Rightarrow> bool" where
  "lfu_ok H e \<longleftrightarrow> lfu_inv H e \<and> window_charges e \<le> window_charges_capacity e \<and>
     protected_charges e \<le> protected_charges_capacity e"

lemma lfu_invI:
  assumes "distinct (lfu_linked e)"
    and "\<And>p. p \<in> set (lfu_window e) \<Longrightarrow> holds_at H p (lfu_in Window)"
    and "\<And>p. p \<in> set (lfu_probation e) \<Longrightarrow> holds_at H p (lfu_in Probation)"
    and "\<And>p. p \<in> set (lfu_protected e) \<Longrightarrow> holds_at H p (lfu_in Protected)"
    and "window_charges e = charges_of H (lfu_window e)"
    and "probation_charges e = charges_of H (lfu_probation e)"
    and "protected_charges e = charges_of H (lfu_protected e)"
    and "lfu_step e < lfu_decay e \<or> lfu_step e = 0" and "lfu_decay e < usize_lim"
  shows "lfu_inv H e"
  using assms by (simp add: lfu_inv_def)

lemma lfu_invD:
  assumes "lfu_inv H e"
  shows "distinct (lfu_linked e)"
    and "p \<in> set (lfu_window e) \<Longrightarrow> holds_at H p (lfu_in Window)"
    and "p \<in> set (lfu_probation e) \<Longrightarrow> holds_at H p (lfu_in Probation)"
    and "p \<in> set (lfu_protected e) \<Longrightarrow> holds_at H p (lfu_in Protected)"
    and "window_charges e = charges_of H (lfu_window e)"
    and "probation_charges e = charges_of H (lfu_probation e)"
    and "protected_charges e = charges_of H (lfu_protected e)"
    and "lfu_step e < lfu_decay e \<or> lfu_step e = 0" and "lfu_decay e < usize_lim"
  using assms by (simp_all add: lfu_inv_def)

lemmas queue_charges_defs = increase_queue_charges_def decrease_queue_charges_def

text \<open>The decay counter never overflows, whatever the width of the sketch.\<close>

lemma update_frequencies_ok:
  assumes "lfu_step e < lfu_decay e \<or> lfu_step e = 0" "lfu_decay e < usize_lim"
  obtains f s where "update_frequencies cms e hash = Some (e\<lparr>frequencies := f, lfu_step := s\<rparr>)"
    "s < lfu_decay e \<or> s = 0"
proof -
  have "lfu_step e + 1 < usize_lim" using assms by (auto simp: usize_lim_def)
  then have up: "update_frequencies cms e hash =
      (let f = cms_inc cms (frequencies e) hash; s = lfu_step e + 1 in
       Some (if s \<ge> lfu_decay e then e\<lparr>frequencies := cms_halve cms f, lfu_step := s div 2\<rparr>
             else e\<lparr>frequencies := f, lfu_step := s\<rparr>))"
    by (simp add: update_frequencies_def checked Let_def)
  have half: "(lfu_step e + 1) div 2 < lfu_decay e \<or> (lfu_step e + 1) div 2 = 0"
    using assms(1) by auto
  show thesis
  proof (cases "lfu_step e + 1 \<ge> lfu_decay e")
    case True
    with up have "update_frequencies cms e hash = Some (e\<lparr>frequencies :=
        cms_halve cms (cms_inc cms (frequencies e) hash), lfu_step := (lfu_step e + 1) div 2\<rparr>)" by simp
    from that [OF this half] show thesis .
  next
    case False
    with up have "update_frequencies cms e hash = Some (e\<lparr>frequencies :=
        cms_inc cms (frequencies e) hash, lfu_step := lfu_step e + 1\<rparr>)" by simp
    from that [OF this] False show thesis by simp
  qed
qed

section \<open>The overflow loops\<close>

lemma lfu_window_loop_ok:
  assumes "lfu_inv H (e\<lparr>lfu_window := w\<rparr>)"
    and "charges_of H (w @ lfu_probation e) < usize_lim"
  shows "\<exists>H' e' k. lfu_window_loop H e w = Some (H', e') \<and> lfu_inv H' e' \<and>
    lfu_window e' = drop k w \<and> lfu_probation e' = lfu_probation e @ take k w \<and>
    lfu_protected e' = lfu_protected e \<and> protected_charges e' = protected_charges e \<and>
    window_charges_capacity e' = window_charges_capacity e \<and>
    protected_charges_capacity e' = protected_charges_capacity e \<and>
    window_charges e' \<le> window_charges_capacity e \<and> heap_upd H H' (set w)"
  using assms
proof (induction w arbitrary: H e)
  case Nil
  then have "window_charges e = 0" using lfu_invD(5) [OF Nil(1)] by simp
  with Nil show ?case by simp
next
  case (Cons p w)
  note inv = lfu_invD [OF Cons.prems(1)]
  show ?case
  proof (cases "window_charges e > window_charges_capacity e")
    case False
    with Cons.prems show ?thesis by (intro exI [of _ H] exI [of _ "e\<lparr>lfu_window := p # w\<rparr>"] exI [of _ 0]) simp
  next
    case True
    obtain h where h: "H p = Some h" "lfu_in Window h" using inv(2) [of p] by (auto elim: holds_atE)
    have cp: "charge_at H p = hcharge h" using h by (simp add: heap_simps)
    define H1 where "H1 = H(p \<mapsto> h\<lparr>hext := Probation\<rparr>)"
    have upd: "heap_upd H H1 {p}" using h by (simp add: H1_def)
    have c1: "charge_at H1 p = hcharge h" by (simp add: H1_def)
    note ch = heap_upd_charges [OF upd]
    let ?e1 = "e\<lparr>window_charges := charges_of H w, probation_charges := charges_of H (lfu_probation e) + hcharge h,
      lfu_probation := lfu_probation e @ [p]\<rparr>"
    have step: "lfu_window_loop H e (p # w) = lfu_window_loop H1 ?e1 w"
      using True h inv(1,5,6) cp Cons.prems(2)
      by (simp add: queue_charges_defs checked H1_def lfu_linked_def Let_def)
    have "lfu_inv H1 (?e1\<lparr>lfu_window := w\<rparr>)"
      using inv h cp c1 ch by (intro lfu_invI) (auto simp: H1_def lfu_linked_def)
    moreover have "charges_of H1 (w @ lfu_probation ?e1) < usize_lim"
      using Cons.prems(2) cp c1 ch by simp
    ultimately obtain H' e' k where IH: "lfu_window_loop H1 ?e1 w = Some (H', e')" "lfu_inv H' e'"
        "lfu_window e' = drop k w" "lfu_probation e' = lfu_probation ?e1 @ take k w"
        "lfu_protected e' = lfu_protected ?e1" "protected_charges e' = protected_charges ?e1"
        "window_charges_capacity e' = window_charges_capacity ?e1"
        "protected_charges_capacity e' = protected_charges_capacity ?e1"
        "window_charges e' \<le> window_charges_capacity ?e1" "heap_upd H1 H' (set w)"
      using Cons.IH [of H1 ?e1] by blast
    have "heap_upd H H' (set (p # w))" by (rule heap_upd_trans [OF upd IH(10)]) auto
    with IH show ?thesis unfolding step
      by (intro exI [of _ H'] exI [of _ e'] exI [of _ "Suc k"]) simp
  qed
qed

lemma lfu_protected_loop_ok:
  assumes "lfu_inv H (e\<lparr>lfu_protected := r\<rparr>)"
    and "charges_of H (r @ lfu_probation e) < usize_lim"
  shows "\<exists>H' e' k. lfu_protected_loop H e r = Some (H', e') \<and> lfu_inv H' e' \<and>
    lfu_protected e' = drop k r \<and> lfu_probation e' = lfu_probation e @ take k r \<and>
    lfu_window e' = lfu_window e \<and> window_charges e' = window_charges e \<and>
    window_charges_capacity e' = window_charges_capacity e \<and>
    protected_charges_capacity e' = protected_charges_capacity e \<and>
    protected_charges e' \<le> protected_charges_capacity e \<and> heap_upd H H' (set r)"
  using assms
proof (induction r arbitrary: H e)
  case Nil
  then have "protected_charges e = 0" using lfu_invD(7) [OF Nil(1)] by simp
  with Nil show ?case by simp
next
  case (Cons p r)
  note inv = lfu_invD [OF Cons.prems(1)]
  show ?case
  proof (cases "protected_charges e > protected_charges_capacity e")
    case False
    with Cons.prems show ?thesis by (intro exI [of _ H] exI [of _ "e\<lparr>lfu_protected := p # r\<rparr>"] exI [of _ 0]) simp
  next
    case True
    obtain h where h: "H p = Some h" "lfu_in Protected h" using inv(4) [of p] by (auto elim: holds_atE)
    have cp: "charge_at H p = hcharge h" using h by (simp add: heap_simps)
    define H1 where "H1 = H(p \<mapsto> h\<lparr>hext := Probation\<rparr>)"
    have upd: "heap_upd H H1 {p}" using h by (simp add: H1_def)
    have c1: "charge_at H1 p = hcharge h" by (simp add: H1_def)
    note ch = heap_upd_charges [OF upd]
    let ?e1 = "e\<lparr>protected_charges := charges_of H r, probation_charges := charges_of H (lfu_probation e) + hcharge h,
      lfu_probation := lfu_probation e @ [p]\<rparr>"
    have step: "lfu_protected_loop H e (p # r) = lfu_protected_loop H1 ?e1 r"
      using True h inv(1,6,7) cp Cons.prems(2)
      by (simp add: queue_charges_defs checked H1_def lfu_linked_def Let_def)
    have "lfu_inv H1 (?e1\<lparr>lfu_protected := r\<rparr>)"
      using inv h cp c1 ch by (intro lfu_invI) (auto simp: H1_def lfu_linked_def)
    moreover have "charges_of H1 (r @ lfu_probation ?e1) < usize_lim"
      using Cons.prems(2) cp c1 ch by simp
    ultimately obtain H' e' k where IH: "lfu_protected_loop H1 ?e1 r = Some (H', e')" "lfu_inv H' e'"
        "lfu_protected e' = drop k r" "lfu_probation e' = lfu_probation ?e1 @ take k r"
        "lfu_window e' = lfu_window ?e1" "window_charges e' = window_charges ?e1"
        "window_charges_capacity e' = window_charges_capacity ?e1"
        "protected_charges_capacity e' = protected_charges_capacity ?e1"
        "protected_charges e' \<le> protected_charges_capacity ?e1" "heap_upd H1 H' (set r)"
      using Cons.IH [of H1 ?e1] by blast
    have "heap_upd H H' (set (p # r))" by (rule heap_upd_trans [OF upd IH(10)]) auto
    with IH show ?thesis unfolding step
      by (intro exI [of _ H'] exI [of _ e'] exI [of _ "Suc k"]) simp
  qed
qed

section \<open>The contract\<close>

lemma lfu_push_ok:
  assumes ok: "lfu_ok H e" and p: "evictable lfu_clean H p" "p \<notin> set (lfu_linked e)"
    and lim: "charges_of H (lfu_linked e) + charge_at H p < usize_lim"
  shows "\<exists>H' e'. lfu_push cms H e p = Some (H', e') \<and> lfu_ok H' e' \<and>
    set (lfu_linked e') = insert p (set (lfu_linked e)) \<and> heap_upd H H' (insert p (set (lfu_linked e)))"
proof -
  have i: "lfu_inv H e" and b: "protected_charges e \<le> protected_charges_capacity e"
    using ok by (simp_all add: lfu_ok_def)
  note inv = lfu_invD [OF i]
  obtain h where h: "H p = Some h" "is_inited (base h)" "\<not> in_ev h" "hext h = QNone"
    using p(1) by (auto simp: evictable_iff)
  have cp: "charge_at H p = hcharge h" using h by (simp add: heap_simps)
  define h' where "h' = h\<lparr>base := set_in_eviction True (base h), hext := Window\<rparr>"
  define H1 where "H1 = H(p \<mapsto> h')"
  have upd: "heap_upd H H1 {p}" using h by (simp add: H1_def h'_def)
  have c1: "charge_at H1 p = hcharge h" by (simp add: H1_def h'_def)
  note ch = heap_upd_charges [OF upd]
  let ?e1 = "e\<lparr>lfu_window := lfu_window e @ [p], window_charges := charges_of H (lfu_window e) + hcharge h\<rparr>"
  obtain f st where freq: "update_frequencies cms ?e1 (bh_hash (base h')) = Some (?e1\<lparr>frequencies := f, lfu_step := st\<rparr>)"
      "st < lfu_decay ?e1 \<or> st = 0"
    by (rule update_frequencies_ok [of ?e1]) (use inv in auto)
  let ?e2 = "?e1\<lparr>frequencies := f, lfu_step := st\<rparr>"
  have "lfu_inv H1 (?e2\<lparr>lfu_window := lfu_window e @ [p]\<rparr>)"
    using inv h p(2) cp c1 ch freq(2) by (intro lfu_invI) (auto simp: H1_def h'_def lfu_linked_def)
  moreover have "charges_of H1 ((lfu_window e @ [p]) @ lfu_probation ?e2) < usize_lim"
    using lim cp c1 ch by (simp add: lfu_linked_def)
  ultimately obtain H' e' k where l: "lfu_window_loop H1 ?e2 (lfu_window e @ [p]) = Some (H', e')" "lfu_inv H' e'"
      "lfu_window e' = drop k (lfu_window e @ [p])"
      "lfu_probation e' = lfu_probation ?e2 @ take k (lfu_window e @ [p])"
      "lfu_protected e' = lfu_protected ?e2" "protected_charges e' = protected_charges ?e2"
      "window_charges_capacity e' = window_charges_capacity ?e2"
      "protected_charges_capacity e' = protected_charges_capacity ?e2"
      "window_charges e' \<le> window_charges_capacity ?e2" "heap_upd H1 H' (set (lfu_window e @ [p]))"
    using lfu_window_loop_ok [where H = H1 and e = ?e2 and w = "lfu_window e @ [p]"] by blast
  have "lfu_push cms H e p = Some (H', e')"
    using h p(2) lim inv(5) cp freq l(1)
    by (simp add: lfu_push_def checked queue_charges_defs lfu_linked_def h'_def H1_def Let_def)
  moreover have "lfu_ok H' e'" using l b by (simp add: lfu_ok_def)
  moreover have "set (lfu_linked e') = insert p (set (lfu_linked e))"
  proof -
    have "set (take k (lfu_window e @ [p])) \<union> set (drop k (lfu_window e @ [p])) = set (lfu_window e @ [p])"
      by (metis append_take_drop_id set_append)
    then show ?thesis unfolding lfu_linked_def l(3,4,5) by auto
  qed
  moreover have "heap_upd H H' (insert p (set (lfu_linked e)))"
    by (rule heap_upd_trans [OF upd l(10)]) (auto simp: lfu_linked_def)
  ultimately show ?thesis by blast
qed

text \<open>Taking one handle out of its queue and off its queue's charges.\<close>

lemma lfu_take_out:
  assumes ok: "lfu_ok H e" and p: "p \<in> set (lfu_linked e)"
  obtains h where "H p = Some h" "is_inited (base h)" "in_ev h" "hext h \<noteq> QNone"
    "hext h = Window \<longleftrightarrow> p \<in> set (lfu_window e)" "hext h = Probation \<longleftrightarrow> p \<in> set (lfu_probation e)"
    "hext h = Protected \<longleftrightarrow> p \<in> set (lfu_protected e)"
proof -
  have i: "lfu_inv H e" using ok by (simp add: lfu_ok_def)
  note inv = lfu_invD [OF i]
  have n: "p \<in> set (lfu_window e) \<Longrightarrow> p \<notin> set (lfu_probation e) \<and> p \<notin> set (lfu_protected e)"
      "p \<in> set (lfu_probation e) \<Longrightarrow> p \<notin> set (lfu_window e) \<and> p \<notin> set (lfu_protected e)"
      "p \<in> set (lfu_protected e) \<Longrightarrow> p \<notin> set (lfu_window e) \<and> p \<notin> set (lfu_probation e)"
    using inv(1) by (auto simp: lfu_linked_def)
  consider (w) "p \<in> set (lfu_window e)" | (q) "p \<in> set (lfu_probation e)" | (r) "p \<in> set (lfu_protected e)"
    using p by (auto simp: lfu_linked_def)
  then show thesis
  proof cases
    case w
    then obtain h where "H p = Some h" "lfu_in Window h" using inv(2) by (blast elim: holds_atE)
    with n(1) [OF w] w show thesis by (intro that [of h]) simp_all
  next
    case q
    then obtain h where "H p = Some h" "lfu_in Probation h" using inv(3) by (blast elim: holds_atE)
    with n(2) [OF q] q show thesis by (intro that [of h]) simp_all
  next
    case r
    then obtain h where "H p = Some h" "lfu_in Protected h" using inv(4) by (blast elim: holds_atE)
    with n(3) [OF r] r show thesis by (intro that [of h]) simp_all
  qed
qed

definition lfu_without :: "('k, 'v) lfu_heap \<Rightarrow> 's Lfu \<Rightarrow> ptr \<Rightarrow> 's Lfu" where
  "lfu_without H e p = (let w = remove1 p (lfu_window e); q = remove1 p (lfu_probation e);
       r = remove1 p (lfu_protected e) in
     e\<lparr>lfu_window := w, lfu_probation := q, lfu_protected := r, window_charges := charges_of H w,
       probation_charges := charges_of H q, protected_charges := charges_of H r\<rparr>)"

lemma lfu_without_ok:
  assumes ok: "lfu_ok H e" and p: "p \<in> set (lfu_linked e)" "H p = Some h" "is_inited (base h)"
  defines "H' \<equiv> H(p \<mapsto> h\<lparr>hext := QNone, base := set_in_eviction False (base h)\<rparr>)"
  shows "lfu_ok H' (lfu_without H e p)" "set (lfu_linked (lfu_without H e p)) = set (lfu_linked e) - {p}"
    "heap_upd H H' (set (lfu_linked e))" "evictable lfu_clean H' p"
proof -
  have i: "lfu_inv H e" "window_charges e \<le> window_charges_capacity e"
      "protected_charges e \<le> protected_charges_capacity e"
    using ok by (simp_all add: lfu_ok_def)
  note inv = lfu_invD [OF i(1)]
  have d: "distinct (lfu_window e)" "distinct (lfu_probation e)" "distinct (lfu_protected e)"
      "set (lfu_window e) \<inter> set (lfu_probation e) = {}" "set (lfu_window e) \<inter> set (lfu_protected e) = {}"
      "set (lfu_probation e) \<inter> set (lfu_protected e) = {}"
    using inv(1) by (auto simp: lfu_linked_def)
  show upd: "heap_upd H H' (set (lfu_linked e))" using p by (simp add: H'_def)
  show set: "set (lfu_linked (lfu_without H e p)) = set (lfu_linked e) - {p}"
    using d by (auto simp: lfu_linked_def lfu_without_def Let_def)
  show "evictable lfu_clean H' p" using p by (simp add: H'_def evictable_iff)
  have le: "charges_of H (remove1 p xs) \<le> charges_of H xs" for xs
    by (cases "p \<in> set xs") (simp_all add: heap_simps remove1_idem)
  have "lfu_inv H' (lfu_without H e p)"
    using inv(2,3,4,8,9) d heap_upd_charges [OF upd]
    by (intro lfu_invI) (auto simp: H'_def lfu_linked_def lfu_without_def Let_def)
  then show "lfu_ok H' (lfu_without H e p)"
    using i inv(5,7) le [of "lfu_window e"] le [of "lfu_protected e"]
    by (auto simp: lfu_ok_def lfu_without_def Let_def)
qed

lemma lfu_remove_eq:
  assumes ok: "lfu_ok H e" and p: "p \<in> set (lfu_linked e)" and h: "H p = Some h"
  shows "lfu_remove H e p =
    Some (H(p \<mapsto> h\<lparr>hext := QNone, base := set_in_eviction False (base h)\<rparr>), lfu_without H e p)"
proof -
  have i: "lfu_inv H e" using ok by (simp add: lfu_ok_def)
  note inv = lfu_invD [OF i]
  have cp: "charge_at H p = hcharge h" using h by (simp add: heap_simps)
  have le: "p \<in> set xs \<Longrightarrow> hcharge h \<le> charges_of H xs" for xs using charges_of_member [of p xs H] cp by simp
  obtain q: "is_inited (base h)" "in_ev h" "hext h \<noteq> QNone"
    "hext h = Window \<longleftrightarrow> p \<in> set (lfu_window e)" "hext h = Probation \<longleftrightarrow> p \<in> set (lfu_probation e)"
    "hext h = Protected \<longleftrightarrow> p \<in> set (lfu_protected e)"
    using lfu_take_out [OF ok p] h by (metis option.inject)
  have w: "lfu_linked (lfu_without H e p) = remove1 p (lfu_linked e)"
    using inv(1) by (auto simp: lfu_linked_def lfu_without_def Let_def remove1_append remove1_idem disjoint_iff)
  have "p \<notin> set (remove1 p (lfu_linked e))" using inv(1) by simp
  then show ?thesis
    using h p q le inv(1,5,6,7) cp
    by (cases "hext h")
      (auto simp: lfu_remove_def lfu_without_def lfu_linked_def checked queue_charges_defs Let_def
        heap_simps remove1_idem)
qed

text \<open>Who is popped: the front of \<open>window\<close> or \<open>probation\<close>, by frequency, or else of \<open>protected\<close>.\<close>

lemma lfu_pop_victim_cases:
  assumes alloc: "\<forall>p \<in> set (lfu_linked e). \<exists>h. H p = Some h" and ne: "lfu_linked e \<noteq> []"
  shows "\<exists>p xs e1. lfu_pop_victim cms H e = Some (Some (p, e1)) \<and>
     ((lfu_window e = p # xs \<and> e1 = e\<lparr>lfu_window := xs\<rparr>) \<or>
      (lfu_probation e = p # xs \<and> e1 = e\<lparr>lfu_probation := xs\<rparr>) \<or>
      (lfu_protected e = p # xs \<and> e1 = e\<lparr>lfu_protected := xs\<rparr>))"
proof -
  consider (none) "lfu_window e = []" "lfu_probation e = []"
    | (prob) b ps where "lfu_window e = []" "lfu_probation e = b # ps"
    | (win) a ws where "lfu_window e = a # ws" "lfu_probation e = []"
    | (both) a ws b ps where "lfu_window e = a # ws" "lfu_probation e = b # ps"
    by (cases "lfu_window e"; cases "lfu_probation e") auto
  then show ?thesis
  proof cases
    case none
    then obtain r rs where "lfu_protected e = r # rs"
      using ne by (cases "lfu_protected e") (auto simp: lfu_linked_def)
    with none show ?thesis by (simp add: lfu_pop_victim_def)
  next
    case prob
    then show ?thesis by (intro exI [of _ b] exI [of _ ps]) (simp add: lfu_pop_victim_def)
  next
    case win
    then show ?thesis by (intro exI [of _ a] exI [of _ ws]) (simp add: lfu_pop_victim_def)
  next
    case both
    then obtain ha hb where "H a = Some ha" "H b = Some hb"
      using alloc by (auto simp: lfu_linked_def)
    with both show ?thesis
      by (cases "cms_estimate cms (frequencies e) (bh_hash (base ha)) <
              cms_estimate cms (frequencies e) (bh_hash (base hb))")
        (simp add: lfu_pop_victim_def, blast)+
  qed
qed

lemma lfu_pop_eq:
  assumes ok: "lfu_ok H e" and ne: "lfu_linked e \<noteq> []"
  obtains p h where "p \<in> set (lfu_linked e)" "H p = Some h" "is_inited (base h)"
    "lfu_pop cms H e = Some (Some p, H(p \<mapsto> h\<lparr>hext := QNone, base := set_in_eviction False (base h)\<rparr>),
       lfu_without H e p)"
proof -
  have i: "lfu_inv H e" using ok by (simp add: lfu_ok_def)
  note inv = lfu_invD [OF i]
  have alloc: "\<forall>p \<in> set (lfu_linked e). \<exists>h. H p = Some h"
    using lfu_take_out [OF ok] by metis
  obtain p xs e1 where v: "lfu_pop_victim cms H e = Some (Some (p, e1))"
      "(lfu_window e = p # xs \<and> e1 = e\<lparr>lfu_window := xs\<rparr>) \<or>
       (lfu_probation e = p # xs \<and> e1 = e\<lparr>lfu_probation := xs\<rparr>) \<or>
       (lfu_protected e = p # xs \<and> e1 = e\<lparr>lfu_protected := xs\<rparr>)"
    using lfu_pop_victim_cases [OF alloc ne] by blast
  then have p: "p \<in> set (lfu_linked e)" by (auto simp: lfu_linked_def)
  obtain h where h: "H p = Some h" "is_inited (base h)" "in_ev h" "hext h \<noteq> QNone"
    "hext h = Window \<longleftrightarrow> p \<in> set (lfu_window e)" "hext h = Probation \<longleftrightarrow> p \<in> set (lfu_probation e)"
    "hext h = Protected \<longleftrightarrow> p \<in> set (lfu_protected e)"
    using lfu_take_out [OF ok p] by metis
  have cp: "charge_at H p = hcharge h" using h by (simp add: heap_simps)
  let ?H' = "H(p \<mapsto> h\<lparr>hext := QNone, base := set_in_eviction False (base h)\<rparr>)"
  have "decrease_queue_charges e1 h = Some (lfu_without H e p) \<and> p \<notin> set (lfu_linked e1)"
    using v(2)
  proof (elim disjE conjE)
    assume q: "lfu_window e = p # xs" "e1 = e\<lparr>lfu_window := xs\<rparr>"
    then have "hext h = Window" using h by simp
    with q show ?thesis
      using cp inv(1,5,6,7)
      by (auto simp: queue_charges_defs checked lfu_without_def lfu_linked_def Let_def remove1_idem)
  next
    assume q: "lfu_probation e = p # xs" "e1 = e\<lparr>lfu_probation := xs\<rparr>"
    then have "hext h = Probation" using h by simp
    with q show ?thesis
      using cp inv(1,5,6,7)
      by (auto simp: queue_charges_defs checked lfu_without_def lfu_linked_def Let_def remove1_idem)
  next
    assume q: "lfu_protected e = p # xs" "e1 = e\<lparr>lfu_protected := xs\<rparr>"
    then have "hext h = Protected" using h by simp
    with q show ?thesis
      using cp inv(1,5,6,7)
      by (auto simp: queue_charges_defs checked lfu_without_def lfu_linked_def Let_def remove1_idem)
  qed
  then have "lfu_pop cms H e = Some (Some p, ?H', lfu_without H e p)"
    using v(1) h by (simp add: lfu_pop_def)
  from that [OF p h(1,2) this] show thesis .
qed

lemma lfu_pop_ok:
  assumes ok: "lfu_ok H e"
  shows "(lfu_linked e = [] \<and> lfu_pop cms H e = Some (None, H, e)) \<or>
    (\<exists>p H' e'. lfu_pop cms H e = Some (Some p, H', e') \<and> lfu_ok H' e' \<and> p \<in> set (lfu_linked e) \<and>
       set (lfu_linked e') = set (lfu_linked e) - {p} \<and> heap_upd H H' (set (lfu_linked e)) \<and>
       evictable lfu_clean H' p)"
proof (cases "lfu_linked e = []")
  case True
  then show ?thesis by (simp add: lfu_pop_def lfu_pop_victim_def lfu_linked_def)
next
  case False
  obtain p h where p: "p \<in> set (lfu_linked e)" "H p = Some h" "is_inited (base h)"
    "lfu_pop cms H e = Some (Some p, H(p \<mapsto> h\<lparr>hext := QNone, base := set_in_eviction False (base h)\<rparr>),
       lfu_without H e p)"
    using lfu_pop_eq [OF ok False] by metis
  with lfu_without_ok [OF ok p(1,2,3)] show ?thesis by blast
qed

lemma lfu_clear_ok:
  "lfu_ok H e \<Longrightarrow> \<exists>ps H' e'. lfu_clear_loop cms H e res = Some (res @ ps, H', e') \<and> lfu_ok H' e' \<and>
     lfu_linked e' = [] \<and> distinct ps \<and> set ps = set (lfu_linked e) \<and> heap_upd H H' (set (lfu_linked e)) \<and>
     (\<forall>p \<in> set ps. evictable lfu_clean H' p)"
proof (induction "length (lfu_linked e)" arbitrary: H e res rule: less_induct)
  case less
  show ?case
  proof (cases "lfu_linked e = []")
    case True
    then have "lfu_clear_loop cms H e res = Some (res, H, e)"
      by (subst lfu_clear_loop.simps) (simp add: lfu_is_empty_def lfu_len_def lfu_linked_def)
    with True less.prems show ?thesis by simp
  next
    case False
    with lfu_pop_ok [OF less.prems, of cms] obtain p H1 e1 where
      1: "lfu_pop cms H e = Some (Some p, H1, e1)" "lfu_ok H1 e1" "p \<in> set (lfu_linked e)"
        "set (lfu_linked e1) = set (lfu_linked e) - {p}" "heap_upd H H1 (set (lfu_linked e))"
        "evictable lfu_clean H1 p" by blast
    obtain ps H' e' where IH: "lfu_clear_loop cms H1 e1 (res @ [p]) = Some ((res @ [p]) @ ps, H', e')"
        "lfu_ok H' e'" "lfu_linked e' = []" "distinct ps" "set ps = set (lfu_linked e1)"
        "heap_upd H1 H' (set (lfu_linked e1))" "\<forall>q \<in> set ps. evictable lfu_clean H' q"
      using less.hyps [OF _ 1(2), of "res @ [p]"] lfu_pop_length [OF 1(1)] by auto
    have nonempty: "\<not> lfu_is_empty e" using False by (auto simp: lfu_is_empty_def lfu_len_def lfu_linked_def)
    have "lfu_clear_loop cms H e res = Some (res @ p # ps, H', e')"
    proof -
      have "holds_at H1 p (\<lambda>h. \<not> in_ev h \<and> hext h = QNone)"
        using 1(6) by (auto simp: evictable_iff holds_at_Some)
      then show ?thesis
        using nonempty 1(1,4) IH(1) by (subst lfu_clear_loop.simps) simp
    qed
    moreover have "heap_upd H H' (set (lfu_linked e))"
      by (rule heap_upd_trans [OF 1(5) IH(6)]) (use 1(4) in auto)
    moreover have "evictable lfu_clean H' p"
      using heap_upd_other [OF IH(6), of p] 1(4,6) by (simp add: evictable_def)
    ultimately show ?thesis
      using IH 1(3,4) by (intro exI [of _ "p # ps"] exI [of _ H'] exI [of _ e']) auto
  qed
qed

lemma lfu_reinsert_probation:
  assumes ok: "lfu_ok H e" and p: "p \<in> set (lfu_probation e)" and h: "H p = Some h"
    and lim: "charges_of H (lfu_linked e) < usize_lim"
  shows "\<exists>H' e'. lfu_reinsert cms H e p = Some (H', e') \<and> lfu_ok H' e' \<and>
    set (lfu_linked e') = set (lfu_linked e) \<and> heap_upd H H' (set (lfu_linked e))"
proof -
  have i: "lfu_inv H e" "window_charges e \<le> window_charges_capacity e" using ok by (simp_all add: lfu_ok_def)
  note inv = lfu_invD [OF i(1)]
  have pl: "p \<in> set (lfu_linked e)" using p by (simp add: lfu_linked_def)
  have hq: "lfu_in Probation h" using inv(3) [OF p] h by (simp add: holds_at_Some)
  have cp: "charge_at H p = hcharge h" using h by (simp add: heap_simps)
  have le: "hcharge h \<le> charges_of H (lfu_probation e)" using charges_of_member [OF p, of H] cp by simp
  define H1 where "H1 = H(p \<mapsto> h\<lparr>hext := Protected\<rparr>)"
  have upd: "heap_upd H H1 {p}" using h by (simp add: H1_def)
  have c1: "charge_at H1 p = hcharge h" by (simp add: H1_def)
  note ch = heap_upd_charges [OF upd]
  define q r where "q = remove1 p (lfu_probation e)" and "r = lfu_protected e @ [p]"
  have cq: "charges_of H q = charges_of H (lfu_probation e) - hcharge h"
    using p cp by (simp add: q_def heap_simps)
  have d: "p \<notin> set q" "set q = set (lfu_probation e) - {p}" "distinct q"
    using inv(1) by (auto simp: q_def lfu_linked_def)
  have np: "p \<notin> set (lfu_window e)" "p \<notin> set (lfu_protected e)"
    using inv(1) p by (auto simp: lfu_linked_def)
  let ?e1 = "e\<lparr>lfu_probation := q, probation_charges := charges_of H q,
    protected_charges := charges_of H (lfu_protected e) + hcharge h, lfu_protected := r\<rparr>"
  have i1: "lfu_inv H1 (?e1\<lparr>lfu_protected := r\<rparr>)"
    using inv hq d c1 ch p by (intro lfu_invI) (auto simp: H1_def lfu_linked_def r_def)
  have l1: "charges_of H1 (r @ lfu_probation ?e1) < usize_lim"
    using lim cq c1 ch le by (simp add: lfu_linked_def r_def)
  obtain H' e' k where l: "lfu_protected_loop H1 ?e1 r = Some (H', e')" "lfu_inv H' e'"
      "lfu_protected e' = drop k r" "lfu_probation e' = q @ take k r"
      "lfu_window e' = lfu_window e" "window_charges e' = window_charges e"
      "window_charges_capacity e' = window_charges_capacity e"
      "protected_charges_capacity e' = protected_charges_capacity e"
      "protected_charges e' \<le> protected_charges_capacity e" "heap_upd H1 H' (set r)"
    using lfu_protected_loop_ok [OF i1 l1] by auto
  have "lfu_reinsert cms H e p = lfu_protected_loop H1 ?e1 r"
    using h hq p pl le inv(6,7) lim d cq np
    by (simp add: lfu_reinsert_def checked queue_charges_defs lfu_linked_def q_def [symmetric] r_def
        H1_def Let_def)
  moreover have "set (lfu_linked e') = set (lfu_linked e)"
  proof -
    have "set (take k r) \<union> set (drop k r) = set r" by (metis append_take_drop_id set_append)
    then show ?thesis using d p unfolding lfu_linked_def l(3,4,5) by (auto simp: r_def)
  qed
  moreover have "heap_upd H H' (set (lfu_linked e))"
    by (rule heap_upd_trans [OF upd l(10)]) (use p in \<open>auto simp: lfu_linked_def r_def\<close>)
  ultimately show ?thesis using l i(2) by (auto simp: lfu_ok_def)
qed

lemma lfu_reinsert_same:
  assumes ok: "lfu_ok H e" and p: "p \<in> set (lfu_window e) \<or> p \<in> set (lfu_protected e)" and h: "H p = Some h"
  shows "\<exists>e'. lfu_reinsert cms H e p = Some (H, e') \<and> lfu_ok H e' \<and> set (lfu_linked e') = set (lfu_linked e)"
proof -
  have i: "lfu_inv H e" using ok by (simp add: lfu_ok_def)
  note inv = lfu_invD [OF i]
  have cp: "charges_of H (remove1 p xs @ [p]) = charges_of H xs" if "p \<in> set xs" for xs
    using charges_of_member [OF that, of H] that by (simp add: heap_simps)
  show ?thesis
    using p
  proof (elim disjE)
    assume w: "p \<in> set (lfu_window e)"
    have n: "p \<notin> set (remove1 p (lfu_window e) @ lfu_probation e @ lfu_protected e)"
      using w inv(1) by (auto simp: lfu_linked_def)
    let ?e = "e\<lparr>lfu_window := remove1 p (lfu_window e) @ [p]\<rparr>"
    have hq: "lfu_in Window h" using inv(2) [OF w] h by (simp add: holds_at_Some)
    have "lfu_inv H ?e"
      using inv w cp [OF w] by (intro lfu_invI) (auto simp: lfu_linked_def)
    moreover have "lfu_reinsert cms H e p = Some (H, ?e)"
      using h hq w n by (simp add: lfu_reinsert_def checked lfu_linked_def)
    ultimately show ?thesis using ok w inv(1) by (auto simp: lfu_ok_def lfu_linked_def)
  next
    assume w: "p \<in> set (lfu_protected e)"
    have n: "p \<notin> set (lfu_window e @ lfu_probation e @ remove1 p (lfu_protected e))"
      using w inv(1) by (auto simp: lfu_linked_def)
    let ?e = "e\<lparr>lfu_protected := remove1 p (lfu_protected e) @ [p]\<rparr>"
    have hq: "lfu_in Protected h" using inv(4) [OF w] h by (simp add: holds_at_Some)
    have "lfu_inv H ?e"
      using inv w cp [OF w] by (intro lfu_invI) (auto simp: lfu_linked_def)
    moreover have "lfu_reinsert cms H e p = Some (H, ?e)"
      using h hq w n by (simp add: lfu_reinsert_def checked lfu_linked_def)
    ultimately show ?thesis using ok w inv(1) by (auto simp: lfu_ok_def lfu_linked_def)
  qed
qed

text \<open>A handle that is in no queue is pushed into the window.\<close>

lemma lfu_reinsert_out:
  assumes ok: "lfu_ok H e" and p: "evictable lfu_clean H p" "p \<notin> set (lfu_linked e)"
    and lim: "charges_of H (lfu_linked e) + charge_at H p < usize_lim"
  shows "\<exists>H' e'. lfu_reinsert cms H e p = Some (H', e') \<and> lfu_ok H' e' \<and>
    set (lfu_linked e') = insert p (set (lfu_linked e)) \<and> heap_upd H H' (insert p (set (lfu_linked e)))"
proof -
  obtain H' e' where 1: "lfu_push cms H e p = Some (H', e')" "lfu_ok H' e'"
      "set (lfu_linked e') = insert p (set (lfu_linked e))" "heap_upd H H' (insert p (set (lfu_linked e)))"
    using lfu_push_ok [OF ok p lim] by blast
  obtain h' where h': "H' p = Some h'" "in_ev h'"
    by (rule lfu_take_out [OF 1(2), of p]) (use 1(3) in auto)
  obtain h where "H p = Some h" "\<not> in_ev h" "hext h = QNone" using p(1) by (auto simp: evictable_iff)
  with p(2) 1 h' have "lfu_reinsert cms H e p = Some (H', e')" by (simp add: lfu_reinsert_def)
  with 1 show ?thesis by blast
qed

lemma lfu_reinsert_ok:
  assumes ok: "lfu_ok H e" and p: "p \<in> set (lfu_linked e) \<or> evictable lfu_clean H p"
    and lim: "sum (charge_at H) (insert p (set (lfu_linked e))) < usize_lim"
  shows "\<exists>H' e'. lfu_reinsert cms H e p = Some (H', e') \<and> lfu_ok H' e' \<and>
    set (lfu_linked e') = insert p (set (lfu_linked e)) \<and> heap_upd H H' (insert p (set (lfu_linked e)))"
proof (cases "p \<in> set (lfu_linked e)")
  case True
  have d: "distinct (lfu_linked e)" using ok by (simp add: lfu_ok_def lfu_inv_def)
  with True lim have lim': "charges_of H (lfu_linked e) < usize_lim" by (simp add: charges_of_set insert_absorb)
  obtain h where h: "H p = Some h" by (rule lfu_take_out [OF ok True])
  show ?thesis
  proof (cases "p \<in> set (lfu_probation e)")
    case q: True
    show ?thesis using lfu_reinsert_probation [OF ok q h lim'] True by (simp add: insert_absorb)
  next
    case False
    with True have "p \<in> set (lfu_window e) \<or> p \<in> set (lfu_protected e)" by (simp add: lfu_linked_def)
    from lfu_reinsert_same [OF ok this h] obtain e' where
      "lfu_reinsert cms H e p = Some (H, e')" "lfu_ok H e'" "set (lfu_linked e') = set (lfu_linked e)" by blast
    with True show ?thesis by (intro exI [of _ H] exI [of _ e']) (simp add: insert_absorb)
  qed
next
  case False
  have "distinct (lfu_linked e)" using ok by (simp add: lfu_ok_def lfu_inv_def)
  with False lim have "charges_of H (lfu_linked e) + charge_at H p < usize_lim"
    by (simp add: charges_of_set)
  with lfu_reinsert_out [OF ok] p False show ?thesis by blast
qed

lemma lfu_access_ok:
  assumes ok: "lfu_ok H e" and h: "H p = Some h"
  obtains e' where "lfu_access cms H e p = Some (H, e')" "lfu_ok H e'" "lfu_linked e' = lfu_linked e"
proof -
  have i: "lfu_inv H e" using ok by (simp add: lfu_ok_def)
  obtain f s where "update_frequencies cms e (bh_hash (base h)) = Some (e\<lparr>frequencies := f, lfu_step := s\<rparr>)"
      "s < lfu_decay e \<or> s = 0"
    by (rule update_frequencies_ok [OF lfu_invD(8,9) [OF i]])
  with ok h that show thesis by (simp add: lfu_access_def lfu_ok_def lfu_inv_def lfu_linked_def)
qed

lemma lfu_new_ok:
  assumes "lfu_new rnd cms cap cfg = Some e"
  shows "lfu_ok H e \<and> lfu_linked e = []"
proof -
  have "unat w < usize_lim" for w :: "64 word" using unsigned_less [of w, where ?'a = nat] by (simp add: usize_lim_def)
  with assms show ?thesis
    by (auto simp: lfu_new_def lfu_ok_def lfu_inv_def lfu_linked_def Let_def split: if_splits)
qed

lemma lfu_frame:
  fixes H H' :: "('k, 'v) lfu_heap"
  assumes ok: "lfu_ok H e"
    and v: "\<And>p. p \<in> set (lfu_linked e) \<Longrightarrow> map_option ev_view (H' p) = map_option ev_view (H p)"
  shows "lfu_ok H' e"
proof -
  have i: "lfu_inv H e" using ok by (simp add: lfu_ok_def)
  note inv = lfu_invD [OF i]
  have same: "holds_at H' p (lfu_in q) = holds_at H p (lfu_in q)" if "p \<in> set (lfu_linked e)" for p q
    by (rule holds_at_view) (use v [OF that] in \<open>simp_all add: ev_view_def\<close>)
  have ch: "charges_of H' (lfu_window e) = charges_of H (lfu_window e)"
      "charges_of H' (lfu_probation e) = charges_of H (lfu_probation e)"
      "charges_of H' (lfu_protected e) = charges_of H (lfu_protected e)"
    by (rule charges_of_cong, rule charge_at_view, rule v, simp add: lfu_linked_def)+
  have "lfu_inv H' e"
    using inv same ch
    by (intro lfu_invI) (auto simp: lfu_linked_def)
  with ok show ?thesis by (simp add: lfu_ok_def)
qed

interpretation lfu: eviction "lfu_ops rnd cms" lfu_ok lfu_linked lfu_clean
proof (unfold_locales, goal_cases)
  case (1 H e)
  then show ?case by (simp add: lfu_ok_def lfu_inv_def)
next
  case (2 H e p)
  then show ?case using lfu_take_out [of H e p] by metis
next
  case (3 H e H')
  then show ?case by (rule lfu_frame)
next
  case 4
  show ?case by (simp add: lfu_ops_def lfu_handle_new_def bh_new_def is_inited_def)
next
  case (5 cap cfg e H)
  then show ?case by (simp add: lfu_ops_def lfu_new_ok)
next
  case (6 H e p)
  then show ?case by (simp add: lfu_ops_def lfu_push_ok)
next
  case (7 H e p)
  from lfu_reinsert_ok [OF 7, of cms] obtain H' e' where "lfu_reinsert cms H e p = Some (H', e')" "lfu_ok H' e'"
      "set (lfu_linked e') = insert p (set (lfu_linked e))" "heap_upd H H' (insert p (set (lfu_linked e)))" by blast
  then show ?case by (auto simp: lfu_ops_def)
next
  case (8 H e p)
  then obtain h where "H p = Some h" using lfu_take_out [of H e p] by (metis evictable_iff)
  with lfu_access_ok [OF 8(1), of p h cms] obtain e' where
    "lfu_access cms H e p = Some (H, e')" "lfu_ok H e'" "lfu_linked e' = lfu_linked e" by blast
  with 8(2) show ?case by (auto simp: lfu_ops_def)
next
  case (9 H e p)
  obtain h where h: "H p = Some h" "is_inited (base h)" by (rule lfu_take_out [OF 9])
  with lfu_remove_eq [OF 9 h(1)] lfu_without_ok [OF 9 h] show ?case by (auto simp: lfu_ops_def)
next
  case (10 H e)
  show ?case by (simp add: lfu_ops_def lfu_len_def lfu_linked_def)
next
  case (11 H e)
  show ?case by (auto simp: lfu_ops_def lfu_is_empty_def lfu_len_def lfu_linked_def)
next
  case (12 H e)
  then show ?case using lfu_pop_ok [OF 12(1), of cms] by (auto simp: lfu_ops_def)
next
  case (13 H e)
  then show ?case using lfu_clear_ok [OF 13(1), of cms "[]"] by (simp add: lfu_ops_def lfu_clear_def)
qed

end
