(* ===== verification/S3fifo.thy ===== *)
theory S3fifo
  imports Eviction_Spec
begin

text \<open>
  \<^verbatim>\<open>foyer-memory/src/eviction/s3fifo.rs\<close>: the S3-FIFO container with its small and main queues and
  the two-bit access counters. The theory proves that \<^verbatim>\<open>push\<close>, \<^verbatim>\<open>access\<close>, \<^verbatim>\<open>remove\<close> and the
  observers satisfy the trait's contract (interpretation \<open>s3fifo\<close>), that the eviction loops terminate
  (\<open>s3_evict_main_loop\<close> by the sum of the counters) and when a pop finds a victim. It also proves the
  two places where the code leaves the contract: a pop that finds nothing although the small queue is
  not empty, and a clear that keeps the charges of what it removed.
\<close>

section \<open>Definitions\<close>

datatype S3FifoContext = S3FifoContext

definition s3fifo_context_from :: "CacheContext \<Rightarrow> S3FifoContext" where
  "s3fifo_context_from c = S3FifoContext"

definition s3fifo_context_into :: "S3FifoContext \<Rightarrow> CacheContext" where
  "s3fifo_context_into c = Default"

datatype S3Queue = S3None | S3Main | S3Small

record s3fifo_ext =
  s3_freq :: nat
  s3_queue :: S3Queue

type_synonym ('k, 'v) S3FifoHandle = "('k, 'v, S3FifoContext, s3fifo_ext) handle"
type_synonym ('k, 'v) s3_heap = "('k, 'v, S3FifoContext, s3fifo_ext) heap"

text \<open>The counter is a \<^verbatim>\<open>u8\<close>: the addition panics at 256.\<close>

definition s3_inc :: "('k, 'v) S3FifoHandle \<Rightarrow> ('k, 'v) S3FifoHandle option" where
  "s3_inc h = do {
     ensure (s3_freq (hext h) + 1 < 2 ^ 8);
     Some (h\<lparr>hext := (hext h)\<lparr>s3_freq := min (s3_freq (hext h) + 1) 3\<rparr>\<rparr>)
   }"

definition s3_dec :: "('k, 'v) S3FifoHandle \<Rightarrow> ('k, 'v) S3FifoHandle" where
  "s3_dec h = h\<lparr>hext := (hext h)\<lparr>s3_freq := s3_freq (hext h) - 1\<rparr>\<rparr>"

definition s3_reset :: "('k, 'v) S3FifoHandle \<Rightarrow> ('k, 'v) S3FifoHandle" where
  "s3_reset h = h\<lparr>hext := (hext h)\<lparr>s3_freq := 0\<rparr>\<rparr>"

abbreviation set_s3_queue :: "S3Queue \<Rightarrow> ('k, 'v) S3FifoHandle \<Rightarrow> ('k, 'v) S3FifoHandle" where
  "set_s3_queue q h \<equiv> h\<lparr>hext := (hext h)\<lparr>s3_queue := q\<rparr>\<rparr>"

definition s3fifo_handle_new :: "('k, 'v) S3FifoHandle" where
  "s3fifo_handle_new = \<lparr>base = bh_new, hext = \<lparr>s3_freq = 0, s3_queue = S3None\<rparr>\<rparr>"

record S3FifoConfig =
  small_queue_capacity_ratio :: f64

record S3Fifo =
  small_queue :: "ptr list"
  main_queue :: "ptr list"
  small_capacity :: usize
  small_charges :: usize
  main_charges :: usize

definition s3_linked :: "S3Fifo \<Rightarrow> ptr list" where
  "s3_linked e = small_queue e @ main_queue e"

text \<open>The loop of \<^verbatim>\<open>evict_small\<close>: promote what was accessed more than once, evict the first that was
  not.\<close>

fun s3_evict_small_loop :: "('k, 'v) s3_heap \<Rightarrow> ptr list \<Rightarrow> ptr list \<Rightarrow> usize \<Rightarrow> usize \<Rightarrow>
    (ptr option \<times> ('k, 'v) s3_heap \<times> ptr list \<times> ptr list \<times> usize \<times> usize) option" where
  "s3_evict_small_loop H [] main sc mc = Some (None, H, [], main, sc, mc)"
| "s3_evict_small_loop H (p # small) main sc mc = do {
     h \<leftarrow> H p;
     (if s3_freq (hext h) > 1 then do {
        main' \<leftarrow> dl_push_back (small @ main) main p;
        H' \<leftarrow> update_handle H p (set_s3_queue S3Main);
        sc' \<leftarrow> usub sc (hcharge h);
        mc' \<leftarrow> uadd mc (hcharge h);
        s3_evict_small_loop H' small main' sc' mc'
      } else do {
        H' \<leftarrow> update_handle H p (\<lambda>h. s3_reset (set_s3_queue S3None h));
        sc' \<leftarrow> usub sc (hcharge h);
        Some (Some p, H', small, main, sc', mc)
      })
   }"

definition s3_evict_small :: "('k, 'v) s3_heap \<Rightarrow> S3Fifo \<Rightarrow> (ptr option \<times> ('k, 'v) s3_heap \<times> S3Fifo) option" where
  "s3_evict_small H e = do {
     (r, H', small, main, sc, mc) \<leftarrow>
       s3_evict_small_loop H (small_queue e) (main_queue e) (small_charges e) (main_charges e);
     Some (r, H', e\<lparr>small_queue := small, main_queue := main, small_charges := sc, main_charges := mc\<rparr>)
   }"

definition s3_freq_at :: "('k, 'v) s3_heap \<Rightarrow> ptr \<Rightarrow> nat" where
  "s3_freq_at H p = (case H p of None \<Rightarrow> 0 | Some h \<Rightarrow> s3_freq (hext h))"

text \<open>The loop of \<^verbatim>\<open>evict_main\<close>: a handle with a positive counter goes to the back of the queue with
  its counter decreased. \<open>small\<close> is the other queue, whose handles are linked as well.\<close>

function s3_evict_main_loop :: "('k, 'v) s3_heap \<Rightarrow> ptr list \<Rightarrow> ptr list \<Rightarrow> usize \<Rightarrow>
    (ptr option \<times> ('k, 'v) s3_heap \<times> ptr list \<times> usize) option" where
  "s3_evict_main_loop H small [] mc = Some (None, H, [], mc)"
| "s3_evict_main_loop H small (p # main) mc = (case H p of
       None \<Rightarrow> None
     | Some h \<Rightarrow>
       (if s3_freq (hext h) > 0 then
          (case dl_push_back (small @ main) main p of
             None \<Rightarrow> None
           | Some main' \<Rightarrow> s3_evict_main_loop (H(p \<mapsto> s3_dec h)) small main' mc)
        else do {
          mc' \<leftarrow> usub mc (hcharge h);
          Some (Some p, H(p \<mapsto> set_s3_queue S3None h), main, mc')
        }))"
  by pat_completeness auto
termination
proof (relation "measure (\<lambda>(H, small, main, mc). sum_list (map (s3_freq_at H) main))", goal_cases)
  case (2 H small p main mc h main')
  have "sum_list (map (s3_freq_at (H(p \<mapsto> s3_dec h))) main) \<le> sum_list (map (s3_freq_at H) main)"
    using 2 by (intro sum_list_mono) (auto simp: s3_freq_at_def s3_dec_def)
  with 2 show ?case
    by (auto simp: s3_freq_at_def s3_dec_def dl_push_back_def split: if_splits)
qed simp

definition s3_evict_main :: "('k, 'v) s3_heap \<Rightarrow> S3Fifo \<Rightarrow> (ptr option \<times> ('k, 'v) s3_heap \<times> S3Fifo) option" where
  "s3_evict_main H e = do {
     (r, H', main, mc) \<leftarrow> s3_evict_main_loop H (small_queue e) (main_queue e) (main_charges e);
     Some (r, H', e\<lparr>main_queue := main, main_charges := mc\<rparr>)
   }"

definition s3_evict :: "('k, 'v) s3_heap \<Rightarrow> S3Fifo \<Rightarrow> (ptr option \<times> ('k, 'v) s3_heap \<times> S3Fifo) option" where
  "s3_evict H e =
     (if small_charges e > small_capacity e then do {
        (r, H', e') \<leftarrow> s3_evict_small H e;
        (case r of Some p \<Rightarrow> Some (Some p, H', e') | None \<Rightarrow> s3_evict_main H' e')
      } else s3_evict_main H e)"

definition s3fifo_new :: "(f64 \<Rightarrow> f64) \<Rightarrow> usize \<Rightarrow> S3FifoConfig \<Rightarrow> S3Fifo option" where
  "s3fifo_new rnd capacity config =
     Some \<lparr>small_queue = [], main_queue = [],
       small_capacity = scale_capacity rnd capacity (small_queue_capacity_ratio config),
       small_charges = 0, main_charges = 0\<rparr>"

definition s3fifo_push :: "('k, 'v) s3_heap \<Rightarrow> S3Fifo \<Rightarrow> ptr \<Rightarrow> (('k, 'v) s3_heap \<times> S3Fifo) option" where
  "s3fifo_push H e p = do {
     h \<leftarrow> H p;
     q \<leftarrow> dl_push_back (s3_linked e) (small_queue e) p;
     H' \<leftarrow> update_handle H p (set_s3_queue S3Small);
     c \<leftarrow> uadd (small_charges e) (hcharge h);
     H'' \<leftarrow> update_handle H' p (\<lambda>h. h\<lparr>base := set_in_eviction True (base h)\<rparr>);
     Some (H'', e\<lparr>small_queue := q, small_charges := c\<rparr>)
   }"

definition s3fifo_is_empty :: "S3Fifo \<Rightarrow> bool" where
  "s3fifo_is_empty e \<longleftrightarrow> small_queue e = [] \<and> main_queue e = []"

definition s3fifo_pop :: "('k, 'v) s3_heap \<Rightarrow> S3Fifo \<Rightarrow> (ptr option \<times> ('k, 'v) s3_heap \<times> S3Fifo) option" where
  "s3fifo_pop H e = do {
     (r, H', e') \<leftarrow> s3_evict H e;
     (case r of
        Some p \<Rightarrow> do {
          H'' \<leftarrow> update_handle H' p (\<lambda>h. h\<lparr>base := set_in_eviction False (base h)\<rparr>);
          Some (Some p, H'', e')
        }
      | None \<Rightarrow> do {
          ensure (s3fifo_is_empty e');
          Some (None, H', e')
        })
   }"

definition s3fifo_reinsert :: "('k, 'v) s3_heap \<Rightarrow> S3Fifo \<Rightarrow> ptr \<Rightarrow> (('k, 'v) s3_heap \<times> S3Fifo) option" where
  "s3fifo_reinsert H e p = Some (H, e)"

definition s3fifo_access :: "('k, 'v) s3_heap \<Rightarrow> S3Fifo \<Rightarrow> ptr \<Rightarrow> (('k, 'v) s3_heap \<times> S3Fifo) option" where
  "s3fifo_access H e p = do {
     h \<leftarrow> H p;
     h' \<leftarrow> s3_inc h;
     Some (H(p \<mapsto> h'), e)
   }"

definition s3fifo_remove :: "('k, 'v) s3_heap \<Rightarrow> S3Fifo \<Rightarrow> ptr \<Rightarrow> (('k, 'v) s3_heap \<times> S3Fifo) option" where
  "s3fifo_remove H e p = do {
     h \<leftarrow> H p;
     (case s3_queue (hext h) of
        S3None \<Rightarrow> None
      | S3Main \<Rightarrow> do {
          q \<leftarrow> dl_remove (main_queue e) p;
          H' \<leftarrow> update_handle H p (\<lambda>h. (set_s3_queue S3None h)\<lparr>base := set_in_eviction False (base h)\<rparr>);
          c \<leftarrow> usub (main_charges e) (hcharge h);
          Some (H', e\<lparr>main_queue := q, main_charges := c\<rparr>)
        }
      | S3Small \<Rightarrow> do {
          q \<leftarrow> dl_remove (small_queue e) p;
          H' \<leftarrow> update_handle H p (\<lambda>h. (set_s3_queue S3None h)\<lparr>base := set_in_eviction False (base h)\<rparr>);
          c \<leftarrow> usub (small_charges e) (hcharge h);
          Some (H', e\<lparr>small_queue := q, small_charges := c\<rparr>)
        })
   }"

fun s3_clear_loop :: "('k, 'v) s3_heap \<Rightarrow> ptr list \<Rightarrow> ptr list \<Rightarrow> (ptr list \<times> ('k, 'v) s3_heap) option" where
  "s3_clear_loop H [] res = Some (res, H)"
| "s3_clear_loop H (p # q) res = do {
     H' \<leftarrow> update_handle H p (\<lambda>h. (set_s3_queue S3None h)\<lparr>base := set_in_eviction False (base h)\<rparr>);
     s3_clear_loop H' q (res @ [p])
   }"

definition s3fifo_clear :: "('k, 'v) s3_heap \<Rightarrow> S3Fifo \<Rightarrow> (ptr list \<times> ('k, 'v) s3_heap \<times> S3Fifo) option" where
  "s3fifo_clear H e = do {
     (res, H1) \<leftarrow> s3_clear_loop H (small_queue e) [];
     (res, H2) \<leftarrow> s3_clear_loop H1 (main_queue e) res;
     Some (res, H2, e\<lparr>small_queue := [], main_queue := []\<rparr>)
   }"

definition s3fifo_len :: "S3Fifo \<Rightarrow> usize" where
  "s3fifo_len e = length (small_queue e) + length (main_queue e)"

definition s3fifo_ops :: "(f64 \<Rightarrow> f64) \<Rightarrow>
    ('k, 'v, S3FifoContext, s3fifo_ext, S3Fifo, S3FifoConfig) eviction_ops" where
  "s3fifo_ops rnd = \<lparr>ev_handle_new = s3fifo_handle_new, ev_new = s3fifo_new rnd, ev_push = s3fifo_push,
     ev_pop = s3fifo_pop, ev_reinsert = s3fifo_reinsert, ev_access = s3fifo_access,
     ev_remove = s3fifo_remove, ev_clear = s3fifo_clear, ev_len = s3fifo_len,
     ev_is_empty = s3fifo_is_empty\<rparr>"

section \<open>The invariant\<close>

abbreviation s3_clean :: "s3fifo_ext \<Rightarrow> bool" where
  "s3_clean x \<equiv> s3_freq x \<le> 3"

abbreviation s3_in :: "S3Queue \<Rightarrow> ('k, 'v) S3FifoHandle \<Rightarrow> bool" where
  "s3_in q h \<equiv> is_inited (base h) \<and> in_ev h \<and> s3_queue (hext h) = q \<and> s3_freq (hext h) \<le> 3"

definition s3_ok :: "('k, 'v) s3_heap \<Rightarrow> S3Fifo \<Rightarrow> bool" where
  "s3_ok H e \<longleftrightarrow> distinct (s3_linked e) \<and>
     (\<forall>p \<in> set (small_queue e). holds_at H p (s3_in S3Small)) \<and>
     (\<forall>p \<in> set (main_queue e). holds_at H p (s3_in S3Main)) \<and>
     small_charges e = charges_of H (small_queue e) \<and>
     main_charges e = charges_of H (main_queue e)"

lemma s3_okI:
  assumes "distinct (s3_linked e)"
    and "\<And>p. p \<in> set (small_queue e) \<Longrightarrow> holds_at H p (s3_in S3Small)"
    and "\<And>p. p \<in> set (main_queue e) \<Longrightarrow> holds_at H p (s3_in S3Main)"
    and "small_charges e = charges_of H (small_queue e)"
    and "main_charges e = charges_of H (main_queue e)"
  shows "s3_ok H e"
  using assms by (simp add: s3_ok_def)

lemma s3_okD:
  assumes "s3_ok H e"
  shows "distinct (s3_linked e)"
    and "p \<in> set (small_queue e) \<Longrightarrow> holds_at H p (s3_in S3Small)"
    and "p \<in> set (main_queue e) \<Longrightarrow> holds_at H p (s3_in S3Main)"
    and "small_charges e = charges_of H (small_queue e)"
    and "main_charges e = charges_of H (main_queue e)"
  using assms by (simp_all add: s3_ok_def)

lemma s3_ops_core [simp]:
  "handle_core (s3_dec h) = handle_core h" "handle_core (s3_reset (h\<lparr>hext := x\<rparr>)) = handle_core h"
  "base (s3_dec h) = base h" "base (s3_reset h) = base h"
  by (simp_all add: s3_dec_def s3_reset_def handle_core_def)

abbreviation s3_out :: "('k, 'v) S3FifoHandle \<Rightarrow> bool" where
  "s3_out h \<equiv> is_inited (base h) \<and> in_ev h \<and> hext h = \<lparr>s3_freq = 0, s3_queue = S3None\<rparr>"

section \<open>The eviction loops\<close>

text \<open>\<^verbatim>\<open>evict_small\<close> promotes the longest prefix of handles accessed more than once, keeps their order,
  and takes out the first handle after that prefix.\<close>

lemma s3_evict_small_loop_spec:
  assumes "distinct (small @ main)" and "sc = charges_of H small" and "mc = charges_of H main"
    and "charges_of H (small @ main) < usize_lim"
    and "\<forall>p \<in> set small. holds_at H p (s3_in S3Small)"
    and "\<forall>p \<in> set main. holds_at H p (s3_in S3Main)"
  shows "\<exists>H' ps rest. small = ps @ rest \<and> (\<forall>p \<in> set ps. s3_freq_at H p > 1) \<and>
    (rest \<noteq> [] \<longrightarrow> s3_freq_at H (hd rest) \<le> 1 \<and> holds_at H' (hd rest) s3_out) \<and>
    s3_evict_small_loop H small main sc mc =
      Some (case rest of [] \<Rightarrow> None | p # _ \<Rightarrow> Some p, H', tl rest, main @ ps,
            charges_of H (tl rest), charges_of H (main @ ps)) \<and>
    heap_upd H H' (set small) \<and>
    (\<forall>p \<in> set (tl rest). holds_at H' p (s3_in S3Small)) \<and>
    (\<forall>p \<in> set (main @ ps). holds_at H' p (s3_in S3Main))"
  using assms
proof (induction small arbitrary: H main sc mc)
  case Nil
  then show ?case by (auto intro!: exI [of _ H])
next
  case (Cons p small)
  obtain h where h: "H p = Some h" "s3_in S3Small h" using Cons.prems by (auto elim: holds_atE)
  have cp: "charge_at H p = hcharge h" using h by (simp add: heap_simps)
  show ?case
  proof (cases "s3_freq (hext h) > 1")
    case False
    define H' where "H' = H(p \<mapsto> s3_reset (set_s3_queue S3None h))"
    have "s3_evict_small_loop H (p # small) main sc mc =
        Some (Some p, H', small, main, charges_of H small, charges_of H main)"
      using False h Cons.prems(2,3) cp by (simp add: checked H'_def)
    moreover have "heap_upd H H' (set (p # small))" using h by (simp add: H'_def)
    moreover have "holds_at H' p s3_out" using h by (simp add: H'_def s3_reset_def)
    moreover have "\<forall>q \<in> set small. holds_at H' q (s3_in S3Small)"
        "\<forall>q \<in> set main. holds_at H' q (s3_in S3Main)"
      using Cons.prems by (auto simp: H'_def)
    ultimately show ?thesis
      using False h by (intro exI [of _ H'] exI [of _ "[]"] exI [of _ "p # small"]) (simp add: s3_freq_at_def)
  next
    case True
    define H1 where "H1 = H(p \<mapsto> set_s3_queue S3Main h)"
    have ch: "charges_of H1 xs = charges_of H xs" for xs
      unfolding H1_def by (rule charges_of_upd) (use h in auto)
    have inv: "\<forall>q \<in> set small. holds_at H1 q (s3_in S3Small)"
        "\<forall>q \<in> set (main @ [p]). holds_at H1 q (s3_in S3Main)" "distinct (small @ main @ [p])"
        "charges_of H1 (small @ main @ [p]) < usize_lim"
      using Cons.prems h unfolding ch by (auto simp: H1_def)
    obtain H' ps rest where IH: "small = ps @ rest" "\<forall>q \<in> set ps. s3_freq_at H1 q > 1"
        "rest \<noteq> [] \<longrightarrow> s3_freq_at H1 (hd rest) \<le> 1 \<and> holds_at H' (hd rest) s3_out"
        "s3_evict_small_loop H1 small (main @ [p]) (charges_of H1 small) (charges_of H1 (main @ [p])) =
          Some (case rest of [] \<Rightarrow> None | p # _ \<Rightarrow> Some p, H', tl rest, (main @ [p]) @ ps,
            charges_of H1 (tl rest), charges_of H1 ((main @ [p]) @ ps))"
        "heap_upd H1 H' (set small)" "\<forall>q \<in> set (tl rest). holds_at H' q (s3_in S3Small)"
        "\<forall>q \<in> set ((main @ [p]) @ ps). holds_at H' q (s3_in S3Main)"
      using Cons.IH [OF inv(3) refl refl inv(4) inv(1,2)] by blast
    have lim: "hcharge h + charges_of H main < usize_lim"
      using Cons.prems(4) cp by simp
    have c1: "charge_at H1 p = hcharge h" by (simp add: H1_def)
    have fr: "s3_freq_at H1 q = s3_freq_at H q" for q using h by (simp add: H1_def s3_freq_at_def)
    have "s3_evict_small_loop H (p # small) main sc mc =
        s3_evict_small_loop H1 small (main @ [p]) (charges_of H1 small) (charges_of H1 (main @ [p]))"
      using True h Cons.prems(1,2,3) cp lim c1
      by (auto simp: checked H1_def [symmetric] ch add.commute)
    moreover have "heap_upd H H' (set (p # small))"
      by (rule heap_upd_trans [of H H1 "set (p # small)" _ "set small"])
        (use h IH(5) in \<open>auto simp: H1_def\<close>)
    ultimately show ?thesis
      using IH True h unfolding ch fr
      by (intro exI [of _ H'] exI [of _ "p # ps"] exI [of _ rest]) (auto simp: s3_freq_at_def)
  qed
qed

text \<open>\<^verbatim>\<open>evict_main\<close> on a non-empty queue finds a victim, whatever the counters are.\<close>

lemma s3_evict_main_loop_spec:
  assumes "distinct (small @ main)" and "mc = charges_of H main" and "main \<noteq> []"
    and "\<forall>p \<in> set main. holds_at H p (s3_in S3Main)"
  shows "\<exists>p H' main'. s3_evict_main_loop H small main mc = Some (Some p, H', main', charges_of H main') \<and>
    mset main = mset (p # main') \<and> heap_upd H H' (set main) \<and> holds_at H' p s3_out \<and>
    (\<forall>q \<in> set main'. holds_at H' q (s3_in S3Main))"
  using assms
proof (induction H small main mc rule: s3_evict_main_loop.induct)
  case (1 H small mc)
  then show ?case by simp
next
  case (2 H small p main mc)
  obtain h where h: "H p = Some h" "s3_in S3Main h" using 2 by (auto elim: holds_atE)
  have cp: "charge_at H p = hcharge h" using h by (simp add: heap_simps)
  show ?case
  proof (cases "s3_freq (hext h) > 0")
    case False
    define H' where "H' = H(p \<mapsto> set_s3_queue S3None h)"
    have "s3_evict_main_loop H small (p # main) mc = Some (Some p, H', main, charges_of H main)"
      using False h "2.prems" cp by (simp add: checked H'_def)
    moreover have "heap_upd H H' (set (p # main))" using h by (simp add: H'_def)
    moreover have "holds_at H' p s3_out" using h False by (simp add: H'_def)
    moreover have "\<forall>q \<in> set main. holds_at H' q (s3_in S3Main)"
      using "2.prems" by (auto simp: H'_def)
    ultimately show ?thesis by (intro exI [of _ p] exI [of _ H'] exI [of _ main]) simp
  next
    case True
    define H1 where "H1 = H(p \<mapsto> s3_dec h)"
    have ch: "charges_of H1 xs = charges_of H xs" for xs
      unfolding H1_def by (rule charges_of_upd) (use h in \<open>auto simp: s3_dec_def\<close>)
    have step: "dl_push_back (small @ main) main p = Some (main @ [p])"
      using "2.prems" by (auto simp: checked)
    have inv: "distinct (small @ main @ [p])" "mc = charges_of H1 (main @ [p])"
        "\<forall>q \<in> set (main @ [p]). holds_at H1 q (s3_in S3Main)"
      using "2.prems" h unfolding ch by (auto simp: H1_def s3_dec_def)
    obtain q H' main' where IH: "s3_evict_main_loop H1 small (main @ [p]) mc =
        Some (Some q, H', main', charges_of H1 main')" "mset (main @ [p]) = mset (q # main')"
        "heap_upd H1 H' (set (main @ [p]))" "holds_at H' q s3_out"
        "\<forall>q \<in> set main'. holds_at H' q (s3_in S3Main)"
      using "2.IH" [OF h(1) True step, folded H1_def, OF inv(1,2) _ inv(3)] by blast
    have "s3_evict_main_loop H small (p # main) mc = Some (Some q, H', main', charges_of H main')"
      using True h step IH(1) by (simp add: H1_def [symmetric] ch)
    moreover have "heap_upd H H' (set (p # main))"
      by (rule heap_upd_trans [of H H1 "set (p # main)" _ "set (main @ [p])"])
        (use h IH(3) in \<open>auto simp: H1_def\<close>)
    ultimately show ?thesis using IH by (intro exI [of _ q] exI [of _ H'] exI [of _ main']) auto
  qed
qed

lemma s3_evict_main_ok:
  assumes ok: "s3_ok H e" and ne: "main_queue e \<noteq> []"
  shows "\<exists>p H' e'. s3_evict_main H e = Some (Some p, H', e') \<and> s3_ok H' e' \<and> p \<in> set (main_queue e) \<and>
    set (s3_linked e') = set (s3_linked e) - {p} \<and> heap_upd H H' (set (main_queue e)) \<and>
    holds_at H' p s3_out"
proof -
  note inv = s3_okD [OF ok]
  have d: "distinct (small_queue e @ main_queue e)" using inv(1) by (simp add: s3_linked_def)
  obtain p H' main' where l: "s3_evict_main_loop H (small_queue e) (main_queue e) (main_charges e) =
        Some (Some p, H', main', charges_of H main')"
      "mset (main_queue e) = mset (p # main')" "heap_upd H H' (set (main_queue e))"
      "holds_at H' p s3_out" "\<forall>q \<in> set main'. holds_at H' q (s3_in S3Main)"
    using s3_evict_main_loop_spec [OF d inv(5) ne] inv(3) by blast
  have set: "set (main_queue e) = insert p (set main')" "distinct (p # main')"
    using l(2) d mset_eq_setD [OF l(2)] mset_eq_imp_distinct_iff [OF l(2)] by auto
  let ?e' = "e\<lparr>main_queue := main', main_charges := charges_of H main'\<rparr>"
  have small: "H' q = H q" if "q \<in> set (small_queue e)" for q
    using that d heap_upd_other [OF l(3), of q] by auto
  have "s3_ok H' ?e'"
  proof (rule s3_okI)
    show "distinct (s3_linked ?e')" using d set by (auto simp: s3_linked_def)
    fix q
    show "holds_at H' q (s3_in S3Small)" if "q \<in> set (small_queue ?e')"
      using that inv(2) [of q] small [of q] by (simp add: holds_at_def)
    show "holds_at H' q (s3_in S3Main)" if "q \<in> set (main_queue ?e')" using that l(5) by simp
  qed (use inv(4) heap_upd_charges [OF l(3)] in simp_all)
  moreover have "set (s3_linked ?e') = set (s3_linked e) - {p}"
    using d set by (auto simp: s3_linked_def)
  moreover have "s3_evict_main H e = Some (Some p, H', ?e')"
    using l(1) by (simp add: s3_evict_main_def)
  ultimately show ?thesis using l set by blast
qed

lemma s3_evict_small_ok:
  assumes ok: "s3_ok H e" and lim: "charges_of H (s3_linked e) < usize_lim"
  shows "\<exists>r H' e'. s3_evict_small H e = Some (r, H', e') \<and> heap_upd H H' (set (small_queue e)) \<and>
    (case r of
       Some p \<Rightarrow> s3_ok H' e' \<and> p \<in> set (small_queue e) \<and> set (s3_linked e') = set (s3_linked e) - {p} \<and>
         holds_at H' p s3_out
     | None \<Rightarrow> s3_ok H' e' \<and> small_queue e' = [] \<and> set (main_queue e') = set (s3_linked e))"
proof -
  note inv = s3_okD [OF ok]
  have d: "distinct (small_queue e @ main_queue e)"
      and lim': "charges_of H (small_queue e @ main_queue e) < usize_lim"
    using inv(1) lim by (simp_all add: s3_linked_def)
  obtain H' ps rest where l: "small_queue e = ps @ rest"
      "rest \<noteq> [] \<longrightarrow> holds_at H' (hd rest) s3_out"
      "s3_evict_small_loop H (small_queue e) (main_queue e) (small_charges e) (main_charges e) =
        Some (case rest of [] \<Rightarrow> None | p # _ \<Rightarrow> Some p, H', tl rest, main_queue e @ ps,
          charges_of H (tl rest), charges_of H (main_queue e @ ps))"
      "heap_upd H H' (set (small_queue e))" "\<forall>p \<in> set (tl rest). holds_at H' p (s3_in S3Small)"
      "\<forall>p \<in> set (main_queue e @ ps). holds_at H' p (s3_in S3Main)"
    using s3_evict_small_loop_spec [OF d inv(4,5) lim'] inv(2,3) by blast
  let ?e' = "e\<lparr>small_queue := tl rest, main_queue := main_queue e @ ps,
    small_charges := charges_of H (tl rest), main_charges := charges_of H (main_queue e @ ps)\<rparr>"
  have tl: "set (tl rest) \<subseteq> set rest" by (cases rest) auto
  have d': "distinct (s3_linked ?e')"
    using d l(1) tl by (cases rest) (auto simp: s3_linked_def)
  have "s3_ok H' ?e'"
    by (rule s3_okI) (use d' l(5,6) heap_upd_charges [OF l(4)] in simp_all)
  moreover have "s3_evict_small H e = Some (case rest of [] \<Rightarrow> None | p # _ \<Rightarrow> Some p, H', ?e')"
    using l(3) by (simp add: s3_evict_small_def)
  ultimately show ?thesis
    using l d by (cases rest) (auto simp: s3_linked_def)
qed

section \<open>The contract\<close>

lemma s3fifo_pop_ok:
  assumes ok: "s3_ok H e" and lim: "charges_of H (s3_linked e) < usize_lim"
    and work: "small_charges e > small_capacity e \<or> main_queue e \<noteq> []"
  shows "\<exists>p H' e'. s3fifo_pop H e = Some (Some p, H', e') \<and> s3_ok H' e' \<and> p \<in> set (s3_linked e) \<and>
    set (s3_linked e') = set (s3_linked e) - {p} \<and> heap_upd H H' (set (s3_linked e)) \<and>
    evictable s3_clean H' p"
proof -
  have "\<exists>p H' e'. s3_evict H e = Some (Some p, H', e') \<and> s3_ok H' e' \<and> p \<in> set (s3_linked e) \<and>
    set (s3_linked e') = set (s3_linked e) - {p} \<and> heap_upd H H' (set (s3_linked e)) \<and> holds_at H' p s3_out"
  proof (cases "small_charges e > small_capacity e")
    case False
    with work s3_evict_main_ok [OF ok] show ?thesis
      by (auto simp: s3_evict_def s3_linked_def elim!: heap_upd_mono)
  next
    case True
    obtain r H1 e1 where 1: "s3_evict_small H e = Some (r, H1, e1)" "heap_upd H H1 (set (small_queue e))"
      "case r of
         Some p \<Rightarrow> s3_ok H1 e1 \<and> p \<in> set (small_queue e) \<and> set (s3_linked e1) = set (s3_linked e) - {p} \<and>
           holds_at H1 p s3_out
       | None \<Rightarrow> s3_ok H1 e1 \<and> small_queue e1 = [] \<and> set (main_queue e1) = set (s3_linked e)"
      using s3_evict_small_ok [OF ok lim] by blast
    show ?thesis
    proof (cases r)
      case (Some p)
      with True 1 show ?thesis
        by (auto simp: s3_evict_def s3_linked_def elim!: heap_upd_mono)
    next
      case None
      with 1 have e1: "s3_ok H1 e1" "small_queue e1 = []" "set (main_queue e1) = set (s3_linked e)" by auto
      have "small_queue e \<noteq> []" using True s3_okD(4) [OF ok] by auto
      then have "main_queue e1 \<noteq> []" using e1(3) by (auto simp: s3_linked_def)
      from s3_evict_main_ok [OF e1(1) this] obtain p H2 e2 where
        2: "s3_evict_main H1 e1 = Some (Some p, H2, e2)" "s3_ok H2 e2" "p \<in> set (main_queue e1)"
          "set (s3_linked e2) = set (s3_linked e1) - {p}" "heap_upd H1 H2 (set (main_queue e1))"
          "holds_at H2 p s3_out" by blast
      have "heap_upd H H2 (set (s3_linked e))"
        by (rule heap_upd_trans [OF 1(2) 2(5)]) (use e1(3) in \<open>auto simp: s3_linked_def\<close>)
      then show ?thesis using True None 1(1) 2 e1(2,3) by (auto simp: s3_evict_def s3_linked_def)
    qed
  qed
  then obtain p H1 e1 where r: "s3_evict H e = Some (Some p, H1, e1)" "s3_ok H1 e1" "p \<in> set (s3_linked e)"
    "set (s3_linked e1) = set (s3_linked e) - {p}" "heap_upd H H1 (set (s3_linked e))"
    "holds_at H1 p s3_out" by blast
  then obtain h where h: "H1 p = Some h" "s3_out h" by (auto elim: holds_atE)
  define H2 where "H2 = H1(p \<mapsto> h\<lparr>base := set_in_eviction False (base h)\<rparr>)"
  have upd: "heap_upd H1 H2 {p}" using h by (simp add: H2_def)
  have "s3_ok H2 e1"
    using s3_okD [OF r(2)] r(4) heap_upd_charges [OF upd]
    by (intro s3_okI) (auto simp: H2_def s3_linked_def)
  moreover have "heap_upd H H2 (set (s3_linked e))"
    by (rule heap_upd_trans [OF r(5) upd]) (use r(3) in auto)
  ultimately show ?thesis
    using r h by (auto simp: s3fifo_pop_def H2_def evictable_iff)
qed

lemma s3fifo_push_ok:
  assumes ok: "s3_ok H e" and p: "evictable s3_clean H p" "p \<notin> set (s3_linked e)"
    and lim: "charges_of H (s3_linked e) + charge_at H p < usize_lim"
  shows "\<exists>H' e'. s3fifo_push H e p = Some (H', e') \<and> s3_ok H' e' \<and>
    set (s3_linked e') = insert p (set (s3_linked e)) \<and> heap_upd H H' (insert p (set (s3_linked e)))"
proof -
  note inv = s3_okD [OF ok]
  obtain h where h: "H p = Some h" "is_inited (base h)" "s3_clean (hext h)"
    using p(1) by (auto simp: evictable_iff)
  define H' where "H' = H(p \<mapsto> (set_s3_queue S3Small h)\<lparr>base := set_in_eviction True (base h)\<rparr>)"
  let ?e' = "e\<lparr>small_queue := small_queue e @ [p], small_charges := small_charges e + hcharge h\<rparr>"
  have upd: "heap_upd H H' {p}" using h by (simp add: H'_def)
  have "s3fifo_push H e p = Some (H', ?e')"
    using h p lim inv(4) by (simp add: s3fifo_push_def checked H'_def s3_linked_def heap_simps)
  moreover have "s3_ok H' ?e'"
    using inv p(2) h heap_upd_charges [OF upd]
    by (intro s3_okI) (auto simp: H'_def s3_linked_def heap_simps)
  ultimately show ?thesis
    using heap_upd_mono [OF upd] by (auto simp: s3_linked_def)
qed

lemma s3fifo_remove_ok:
  assumes ok: "s3_ok H e" and p: "p \<in> set (s3_linked e)"
  shows "\<exists>H' e'. s3fifo_remove H e p = Some (H', e') \<and> s3_ok H' e' \<and>
    set (s3_linked e') = set (s3_linked e) - {p} \<and> heap_upd H H' (set (s3_linked e)) \<and>
    evictable s3_clean H' p"
proof -
  note inv = s3_okD [OF ok]
  have d: "distinct (small_queue e)" "distinct (main_queue e)"
      "set (small_queue e) \<inter> set (main_queue e) = {}"
    using inv(1) by (auto simp: s3_linked_def)
  obtain h where h: "H p = Some h" "is_inited (base h)" "s3_clean (hext h)"
      "p \<in> set (small_queue e) \<and> s3_queue (hext h) = S3Small \<or>
       p \<in> set (main_queue e) \<and> s3_queue (hext h) = S3Main"
    using p inv(2,3) [of p] by (auto simp: s3_linked_def elim!: holds_atE)
  define H' where "H' = H(p \<mapsto> (set_s3_queue S3None h)\<lparr>base := set_in_eviction False (base h)\<rparr>)"
  have upd: "heap_upd H H' (set (s3_linked e))" using h p by (simp add: H'_def)
  have cp: "charge_at H p = hcharge h" using h by (simp add: heap_simps)
  let ?e' = "if s3_queue (hext h) = S3Small
    then e\<lparr>small_queue := remove1 p (small_queue e), small_charges := small_charges e - hcharge h\<rparr>
    else e\<lparr>main_queue := remove1 p (main_queue e), main_charges := main_charges e - hcharge h\<rparr>"
  have le: "p \<in> set (small_queue e) \<Longrightarrow> hcharge h \<le> small_charges e"
      "p \<in> set (main_queue e) \<Longrightarrow> hcharge h \<le> main_charges e"
    using charges_of_member [of p _ H] inv(4,5) cp by auto
  have "s3fifo_remove H e p = Some (H', ?e')"
    using h le by (auto simp: s3fifo_remove_def checked H'_def)
  moreover have "s3_ok H' ?e'"
  proof (rule s3_okI)
    show "distinct (s3_linked ?e')" using d set_remove1_subset [of p]
      by (fastforce simp: s3_linked_def)
    fix q
    show "holds_at H' q (s3_in S3Small)" if "q \<in> set (small_queue ?e')"
      using that inv(2) d h by (auto simp: H'_def split: if_splits)
    show "holds_at H' q (s3_in S3Main)" if "q \<in> set (main_queue ?e')"
      using that inv(3) d h by (auto simp: H'_def split: if_splits)
  qed (use inv(4,5) h cp heap_upd_charges [OF upd] in \<open>auto simp: heap_simps\<close>)
  moreover have "set (s3_linked ?e') = set (s3_linked e) - {p}"
    using d h by (auto simp: s3_linked_def)
  ultimately show ?thesis using upd h by (auto simp: H'_def evictable_iff)
qed

lemma s3fifo_access_ok:
  assumes ok: "s3_ok H e" and p: "p \<in> set (s3_linked e) \<or> evictable s3_clean H p"
  shows "\<exists>H'. s3fifo_access H e p = Some (H', e) \<and> s3_ok H' e \<and>
    heap_upd H H' (insert p (set (s3_linked e))) \<and> (p \<in> set (s3_linked e) \<or> evictable s3_clean H' p)"
proof -
  note inv = s3_okD [OF ok]
  obtain h where h: "H p = Some h" "s3_clean (hext h)"
    using p inv(2,3) [of p] by (auto simp: s3_linked_def evictable_iff elim!: holds_atE)
  have at: "p \<in> set (small_queue e) \<Longrightarrow> s3_in S3Small h" "p \<in> set (main_queue e) \<Longrightarrow> s3_in S3Main h"
    using inv(2,3) [of p] h by (simp_all add: holds_at_Some [of H p h])
  define H' where "H' = H(p \<mapsto> h\<lparr>hext := (hext h)\<lparr>s3_freq := min (s3_freq (hext h) + 1) 3\<rparr>\<rparr>)"
  have upd: "heap_upd H H' {p}" using h by (simp add: H'_def)
  have "s3fifo_access H e p = Some (H', e)"
    using h by (simp add: s3fifo_access_def s3_inc_def H'_def)
  moreover have "s3_ok H' e"
    using inv at heap_upd_charges [OF upd] by (intro s3_okI) (auto simp: H'_def)
  ultimately show ?thesis
    using p h heap_upd_mono [OF upd, of "insert p (set (s3_linked e))"]
    by (auto simp: H'_def evictable_iff)
qed

interpretation s3fifo: eviction_core "s3fifo_ops rnd" s3_ok s3_linked s3_clean
proof (unfold_locales, goal_cases)
  case (2 H e p)
  then show ?case using s3_okD(2,3) [of H e p] by (auto simp: s3_linked_def elim!: holds_atE)
next
  case (3 H e H')
  have ch: "charges_of H' q = charges_of H q" if "set q \<subseteq> set (s3_linked e)" for q
    by (rule charges_of_cong, rule charge_at_view) (use 3 that in auto)
  have at: "holds_at H' p (s3_in q) = holds_at H p (s3_in q)" if "p \<in> set (s3_linked e)" for p q
    by (rule holds_at_view) (use that 3 in \<open>auto simp: ev_view_def\<close>)
  show ?case
    using s3_okD [OF 3(1)] ch at by (intro s3_okI) (auto simp: s3_linked_def)
next
  case (6 H e p)
  then show ?case using s3fifo_push_ok by (simp add: s3fifo_ops_def)
next
  case (8 H e p)
  then show ?case using s3fifo_access_ok by (fastforce simp: s3fifo_ops_def)
next
  case (9 H e p)
  then show ?case using s3fifo_remove_ok by (fastforce simp: s3fifo_ops_def)
qed (auto simp: s3fifo_ops_def s3fifo_handle_new_def s3fifo_new_def s3fifo_reinsert_def s3fifo_len_def
    s3fifo_is_empty_def s3_linked_def s3_ok_def)

section \<open>Where the code leaves the contract\<close>

lemma s3_evict_main_empty: "main_queue e = [] \<Longrightarrow> s3_evict_main H e = Some (None, H, e)"
  by (simp add: s3_evict_main_def)

lemma s3_clear_loop_ok:
  "distinct q \<Longrightarrow> \<forall>p \<in> set q. H p \<noteq> None \<Longrightarrow> \<exists>H'. s3_clear_loop H q res = Some (res @ q, H') \<and> dom H' = dom H"
proof (induction q arbitrary: H res)
  case Nil
  then show ?case by simp
next
  case (Cons p q)
  then obtain h where h: "H p = Some h" by auto
  define H1 where "H1 = H(p \<mapsto> (set_s3_queue S3None h)\<lparr>base := set_in_eviction False (base h)\<rparr>)"
  have 1: "\<forall>r \<in> set q. H1 r \<noteq> None" using Cons.prems by (simp add: H1_def)
  have "dom H1 = dom H" using h by (auto simp: H1_def)
  moreover have "s3_clear_loop H (p # q) res = s3_clear_loop H1 q (res @ [p])"
    using h by (simp add: H1_def)
  ultimately show ?case
    using Cons.IH [OF _ 1, of "res @ [p]"] Cons.prems by auto
qed

lemma s3fifo_clear_keeps_charges:
  assumes ok: "s3_ok H e"
  shows "\<exists>H' e'. s3fifo_clear H e = Some (s3_linked e, H', e') \<and> s3_linked e' = [] \<and>
    small_charges e' = small_charges e \<and> main_charges e' = main_charges e"
proof -
  note inv = s3_okD [OF ok]
  have d: "distinct (small_queue e)" "distinct (main_queue e)" using inv(1) by (auto simp: s3_linked_def)
  have "\<forall>p \<in> set (small_queue e). H p \<noteq> None" "\<forall>p \<in> set (main_queue e). H p \<noteq> None"
    using holds_at_alloc [OF inv(2)] holds_at_alloc [OF inv(3)] by auto
  moreover from this(1) obtain H1 where H1: "s3_clear_loop H (small_queue e) [] = Some (small_queue e, H1)"
      "dom H1 = dom H" using s3_clear_loop_ok [OF d(1), of H "[]"] by auto
  ultimately have "\<forall>p \<in> set (main_queue e). H1 p \<noteq> None" by auto
  then obtain H2 where "s3_clear_loop H1 (main_queue e) (small_queue e) = Some (s3_linked e, H2)"
    using s3_clear_loop_ok [OF d(2), of H1 "small_queue e"] by (auto simp: s3_linked_def)
  with H1 show ?thesis by (auto simp: s3fifo_clear_def s3_linked_def)
qed

end
