(* ===== verification/Cache.thy ===== *)
theory Cache
  imports Cache_Steps Fifo Lru Lfu S3fifo
begin

text \<open>
  \<^verbatim>\<open>foyer-memory/src/cache.rs\<close>: the four instances of the generic cache and the enum \<^verbatim>\<open>Cache\<close> that
  dispatches to them. The raw hash table, the object pools, the hasher, the rounding of floating point
  numbers and the frequency sketch stay arguments. The lemmas \<open>fifo_cache_shard\<close>, \<open>lru_cache_shard\<close> and
  \<open>lfu_cache_shard\<close> show that the locale of the generic cache applies to the first three instances over
  every hash table and pool that keep their contracts; \<open>s3fifo_cache_shard_core\<close> has the part that holds of
  the fourth. The interpretations are on the list-based table and queue of this development.
\<close>

section \<open>Instances\<close>

type_synonym ('k, 'v, 't, 'q) fifo_deps =
  "('k, 'v, FifoContext, unit, Fifo, FifoConfig, 't HashTableIndexer, 'q) cache_deps"
type_synonym ('k, 'v, 't, 'q) lru_deps =
  "('k, 'v, LruContext, lru_ext, Lru, LruConfig, 't HashTableIndexer, 'q) cache_deps"
type_synonym ('k, 'v, 't, 's, 'q) lfu_deps =
  "('k, 'v, LfuContext, LfuQueue, 's Lfu, LfuConfig, 't HashTableIndexer, 'q) cache_deps"
type_synonym ('k, 'v, 't, 'q) s3fifo_deps =
  "('k, 'v, S3FifoContext, s3fifo_ext, S3Fifo, S3FifoConfig, 't HashTableIndexer, 'q) cache_deps"

type_synonym ('k, 'v, 't, 'q) FifoCache = "('k, 'v, FifoContext, unit, Fifo, 't HashTableIndexer, 'q) GenericCache"
type_synonym ('k, 'v, 't, 'q) LruCache = "('k, 'v, LruContext, lru_ext, Lru, 't HashTableIndexer, 'q) GenericCache"
type_synonym ('k, 'v, 't, 's, 'q) LfuCache = "('k, 'v, LfuContext, LfuQueue, 's Lfu, 't HashTableIndexer, 'q) GenericCache"
type_synonym ('k, 'v, 't, 'q) S3FifoCache =
  "('k, 'v, S3FifoContext, s3fifo_ext, S3Fifo, 't HashTableIndexer, 'q) GenericCache"

definition fifo_deps :: "'t hash_table_ops \<Rightarrow> (('k, 'v, FifoContext, unit) handle, 'q) pool_ops \<Rightarrow>
    ('k \<Rightarrow> nat) \<Rightarrow> ('k, 'v, 't, 'q) fifo_deps" where
  "fifo_deps ht pool hashf = \<lparr>dep_ev = fifo_ops, dep_ix = hti_ops ht, dep_pool = pool, dep_hash = hashf,
     dep_from = fifo_context_from, dep_into = fifo_context_into\<rparr>"

definition lru_deps :: "(f64 \<Rightarrow> f64) \<Rightarrow> 't hash_table_ops \<Rightarrow> (('k, 'v, LruContext, lru_ext) handle, 'q) pool_ops \<Rightarrow>
    ('k \<Rightarrow> nat) \<Rightarrow> ('k, 'v, 't, 'q) lru_deps" where
  "lru_deps rnd ht pool hashf = \<lparr>dep_ev = lru_ops rnd, dep_ix = hti_ops ht, dep_pool = pool, dep_hash = hashf,
     dep_from = lru_context_from, dep_into = lru_context_into\<rparr>"

definition lfu_deps :: "(f64 \<Rightarrow> f64) \<Rightarrow> 's cms_ops \<Rightarrow> 't hash_table_ops \<Rightarrow>
    (('k, 'v, LfuContext, LfuQueue) handle, 'q) pool_ops \<Rightarrow> ('k \<Rightarrow> nat) \<Rightarrow> ('k, 'v, 't, 's, 'q) lfu_deps" where
  "lfu_deps rnd cms ht pool hashf = \<lparr>dep_ev = lfu_ops rnd cms, dep_ix = hti_ops ht, dep_pool = pool, dep_hash = hashf,
     dep_from = lfu_context_from, dep_into = lfu_context_into\<rparr>"

definition s3fifo_deps :: "(f64 \<Rightarrow> f64) \<Rightarrow> 't hash_table_ops \<Rightarrow>
    (('k, 'v, S3FifoContext, s3fifo_ext) handle, 'q) pool_ops \<Rightarrow> ('k \<Rightarrow> nat) \<Rightarrow> ('k, 'v, 't, 'q) s3fifo_deps" where
  "s3fifo_deps rnd ht pool hashf = \<lparr>dep_ev = s3fifo_ops rnd, dep_ix = hti_ops ht, dep_pool = pool, dep_hash = hashf,
     dep_from = s3fifo_context_from, dep_into = s3fifo_context_into\<rparr>"

section \<open>The enum of caches\<close>

datatype ('k, 'v, 't, 's, 'qf, 'qr, 'ql, 'q3) Cache =
    CFifo "('k, 'v, 't, 'qf) FifoCache"
  | CLru "('k, 'v, 't, 'qr) LruCache"
  | CLfu "('k, 'v, 't, 's, 'ql) LfuCache"
  | CS3Fifo "('k, 'v, 't, 'q3) S3FifoCache"

record ('k, 'v, 't, 's, 'qf, 'qr, 'ql, 'q3) cache_env =
  env_fifo :: "('k, 'v, 't, 'qf) fifo_deps"
  env_lru :: "('k, 'v, 't, 'qr) lru_deps"
  env_lfu :: "('k, 'v, 't, 's, 'ql) lfu_deps"
  env_s3fifo :: "('k, 'v, 't, 'q3) s3fifo_deps"

datatype CacheEntry = EFifo ptr | ELru ptr | ELfu ptr | ES3Fifo ptr

datatype Entry = EntryFifo GenericEntry | EntryLru GenericEntry | EntryLfu GenericEntry | EntryS3Fifo GenericEntry

datatype EntryState = StateHit | StateWait | StateMiss

abbreviation on_result :: "('a \<Rightarrow> 'b) \<Rightarrow> ('g \<Rightarrow> 'h) \<Rightarrow> ('a \<times> 'g) option \<Rightarrow> ('b \<times> 'h) option" where
  "on_result f c \<equiv> map_option (map_prod f c)"

definition cache_fifo :: "('k, 'v, 't, 's, 'qf, 'qr, 'ql, 'q3) cache_env \<Rightarrow> FifoConfig CacheConfig \<Rightarrow>
    ('k, 'v, 't, 's, 'qf, 'qr, 'ql, 'q3) Cache option" where
  "cache_fifo env config = map_option CFifo (gc_new (env_fifo env) config)"

definition cache_lru :: "('k, 'v, 't, 's, 'qf, 'qr, 'ql, 'q3) cache_env \<Rightarrow> LruConfig CacheConfig \<Rightarrow>
    ('k, 'v, 't, 's, 'qf, 'qr, 'ql, 'q3) Cache option" where
  "cache_lru env config = map_option CLru (gc_new (env_lru env) config)"

definition cache_lfu :: "('k, 'v, 't, 's, 'qf, 'qr, 'ql, 'q3) cache_env \<Rightarrow> LfuConfig CacheConfig \<Rightarrow>
    ('k, 'v, 't, 's, 'qf, 'qr, 'ql, 'q3) Cache option" where
  "cache_lfu env config = map_option CLfu (gc_new (env_lfu env) config)"

definition cache_s3fifo :: "('k, 'v, 't, 's, 'qf, 'qr, 'ql, 'q3) cache_env \<Rightarrow> S3FifoConfig CacheConfig \<Rightarrow>
    ('k, 'v, 't, 's, 'qf, 'qr, 'ql, 'q3) Cache option" where
  "cache_s3fifo env config = map_option CS3Fifo (gc_new (env_s3fifo env) config)"

fun cache_insert_with_context :: "('k, 'v, 't, 's, 'qf, 'qr, 'ql, 'q3) cache_env \<Rightarrow>
    ('k, 'v, 't, 's, 'qf, 'qr, 'ql, 'q3) Cache \<Rightarrow> 'k \<Rightarrow> 'v \<Rightarrow> usize \<Rightarrow> CacheContext \<Rightarrow>
    ((CacheEntry \<times> (nat \<times> ptr) list) \<times> ('k, 'v, 't, 's, 'qf, 'qr, 'ql, 'q3) Cache) option" where
  "cache_insert_with_context env (CFifo g) key value charge context =
     on_result (map_prod EFifo id) CFifo (gc_insert_with_context (env_fifo env) g key value charge context)"
| "cache_insert_with_context env (CLru g) key value charge context =
     on_result (map_prod ELru id) CLru (gc_insert_with_context (env_lru env) g key value charge context)"
| "cache_insert_with_context env (CLfu g) key value charge context =
     on_result (map_prod ELfu id) CLfu (gc_insert_with_context (env_lfu env) g key value charge context)"
| "cache_insert_with_context env (CS3Fifo g) key value charge context =
     on_result (map_prod ES3Fifo id) CS3Fifo (gc_insert_with_context (env_s3fifo env) g key value charge context)"

fun cache_insert :: "('k, 'v, 't, 's, 'qf, 'qr, 'ql, 'q3) cache_env \<Rightarrow>
    ('k, 'v, 't, 's, 'qf, 'qr, 'ql, 'q3) Cache \<Rightarrow> 'k \<Rightarrow> 'v \<Rightarrow> usize \<Rightarrow>
    ((CacheEntry \<times> (nat \<times> ptr) list) \<times> ('k, 'v, 't, 's, 'qf, 'qr, 'ql, 'q3) Cache) option" where
  "cache_insert env (CFifo g) key value charge =
     on_result (map_prod EFifo id) CFifo (gc_insert (env_fifo env) g key value charge)"
| "cache_insert env (CLru g) key value charge =
     on_result (map_prod ELru id) CLru (gc_insert (env_lru env) g key value charge)"
| "cache_insert env (CLfu g) key value charge =
     on_result (map_prod ELfu id) CLfu (gc_insert (env_lfu env) g key value charge)"
| "cache_insert env (CS3Fifo g) key value charge =
     on_result (map_prod ES3Fifo id) CS3Fifo (gc_insert (env_s3fifo env) g key value charge)"

fun cache_remove :: "('k, 'v, 't, 's, 'qf, 'qr, 'ql, 'q3) cache_env \<Rightarrow>
    ('k, 'v, 't, 's, 'qf, 'qr, 'ql, 'q3) Cache \<Rightarrow> 'k \<Rightarrow> ('k, 'v, 't, 's, 'qf, 'qr, 'ql, 'q3) Cache option" where
  "cache_remove env (CFifo g) key = map_option CFifo (gc_remove (env_fifo env) g key)"
| "cache_remove env (CLru g) key = map_option CLru (gc_remove (env_lru env) g key)"
| "cache_remove env (CLfu g) key = map_option CLfu (gc_remove (env_lfu env) g key)"
| "cache_remove env (CS3Fifo g) key = map_option CS3Fifo (gc_remove (env_s3fifo env) g key)"

fun cache_get :: "('k, 'v, 't, 's, 'qf, 'qr, 'ql, 'q3) cache_env \<Rightarrow>
    ('k, 'v, 't, 's, 'qf, 'qr, 'ql, 'q3) Cache \<Rightarrow> 'k \<Rightarrow>
    (CacheEntry option \<times> ('k, 'v, 't, 's, 'qf, 'qr, 'ql, 'q3) Cache) option" where
  "cache_get env (CFifo g) key = on_result (map_option EFifo) CFifo (gc_get (env_fifo env) g key)"
| "cache_get env (CLru g) key = on_result (map_option ELru) CLru (gc_get (env_lru env) g key)"
| "cache_get env (CLfu g) key = on_result (map_option ELfu) CLfu (gc_get (env_lfu env) g key)"
| "cache_get env (CS3Fifo g) key = on_result (map_option ES3Fifo) CS3Fifo (gc_get (env_s3fifo env) g key)"

fun cache_clear :: "('k, 'v, 't, 's, 'qf, 'qr, 'ql, 'q3) cache_env \<Rightarrow>
    ('k, 'v, 't, 's, 'qf, 'qr, 'ql, 'q3) Cache \<Rightarrow> ('k, 'v, 't, 's, 'qf, 'qr, 'ql, 'q3) Cache option" where
  "cache_clear env (CFifo g) = map_option CFifo (gc_clear (env_fifo env) g)"
| "cache_clear env (CLru g) = map_option CLru (gc_clear (env_lru env) g)"
| "cache_clear env (CLfu g) = map_option CLfu (gc_clear (env_lfu env) g)"
| "cache_clear env (CS3Fifo g) = map_option CS3Fifo (gc_clear (env_s3fifo env) g)"

fun cache_capacity :: "('k, 'v, 't, 's, 'qf, 'qr, 'ql, 'q3) Cache \<Rightarrow> usize" where
  "cache_capacity (CFifo g) = gc_capacity g"
| "cache_capacity (CLru g) = gc_capacity g"
| "cache_capacity (CLfu g) = gc_capacity g"
| "cache_capacity (CS3Fifo g) = gc_capacity g"

fun cache_usage :: "('k, 'v, 't, 's, 'qf, 'qr, 'ql, 'q3) Cache \<Rightarrow> usize option" where
  "cache_usage (CFifo g) = gc_usage g"
| "cache_usage (CLru g) = gc_usage g"
| "cache_usage (CLfu g) = gc_usage g"
| "cache_usage (CS3Fifo g) = gc_usage g"

fun cache_metrics :: "('k, 'v, 't, 's, 'qf, 'qr, 'ql, 'q3) Cache \<Rightarrow> Metrics" where
  "cache_metrics (CFifo g) = cs_metrics (gc_shared g)"
| "cache_metrics (CLru g) = cs_metrics (gc_shared g)"
| "cache_metrics (CLfu g) = cs_metrics (gc_shared g)"
| "cache_metrics (CS3Fifo g) = cs_metrics (gc_shared g)"

fun cache_entry :: "('k, 'v, 't, 's, 'qf, 'qr, 'ql, 'q3) cache_env \<Rightarrow>
    ('k, 'v, 't, 's, 'qf, 'qr, 'ql, 'q3) Cache \<Rightarrow> 'k \<Rightarrow>
    (Entry \<times> ('k, 'v, 't, 's, 'qf, 'qr, 'ql, 'q3) Cache) option" where
  "cache_entry env (CFifo g) key = on_result EntryFifo CFifo (gc_entry (env_fifo env) g key)"
| "cache_entry env (CLru g) key = on_result EntryLru CLru (gc_entry (env_lru env) g key)"
| "cache_entry env (CLfu g) key = on_result EntryLfu CLfu (gc_entry (env_lfu env) g key)"
| "cache_entry env (CS3Fifo g) key = on_result EntryS3Fifo CS3Fifo (gc_entry (env_s3fifo env) g key)"

text \<open>\<^verbatim>\<open>Entry::state\<close>: the arms of the match, \<^verbatim>\<open>unreachable!\<close> the last.\<close>

fun entry_state :: "Entry \<Rightarrow> EntryState option" where
  "entry_state (EntryFifo (Hit p)) = Some StateHit"
| "entry_state (EntryLru (Hit p)) = Some StateHit"
| "entry_state (EntryLfu (Hit p)) = Some StateHit"
| "entry_state (EntryFifo (Wait w)) = Some StateWait"
| "entry_state (EntryLru (Wait w)) = Some StateWait"
| "entry_state (EntryLfu (Wait w)) = Some StateWait"
| "entry_state (EntryFifo Miss) = Some StateMiss"
| "entry_state (EntryLru Miss) = Some StateMiss"
| "entry_state (EntryLfu Miss) = Some StateMiss"
| "entry_state e = None"

section \<open>The contracts of the instances\<close>

definition fifo_spec :: "('t \<Rightarrow> bool) \<Rightarrow> ('t \<Rightarrow> (nat \<times> ptr) set) \<Rightarrow> ('q \<Rightarrow> ('k, 'v, FifoContext, unit) handle set) \<Rightarrow>
    ('k \<Rightarrow> nat) \<Rightarrow> ('k, 'v, FifoContext, unit, Fifo, 't HashTableIndexer, 'q) cache_spec" where
  "fifo_spec ht_ok elems pc hashf = \<lparr>sp_ev_ok = fifo_ok, sp_ev_ptrs = fifo_queue, sp_clean = fifo_clean,
     sp_ix_ok = hti_ok ht_ok elems hashf, sp_ix_ptrs = hti_ptrs elems, sp_pool = pc\<rparr>"

definition lru_spec :: "('t \<Rightarrow> bool) \<Rightarrow> ('t \<Rightarrow> (nat \<times> ptr) set) \<Rightarrow> ('q \<Rightarrow> ('k, 'v, LruContext, lru_ext) handle set) \<Rightarrow>
    ('k \<Rightarrow> nat) \<Rightarrow> ('k, 'v, LruContext, lru_ext, Lru, 't HashTableIndexer, 'q) cache_spec" where
  "lru_spec ht_ok elems pc hashf = \<lparr>sp_ev_ok = lru_ok, sp_ev_ptrs = lru_linked, sp_clean = lru_clean,
     sp_ix_ok = hti_ok ht_ok elems hashf, sp_ix_ptrs = hti_ptrs elems, sp_pool = pc\<rparr>"

definition lfu_spec :: "('t \<Rightarrow> bool) \<Rightarrow> ('t \<Rightarrow> (nat \<times> ptr) set) \<Rightarrow> ('q \<Rightarrow> ('k, 'v, LfuContext, LfuQueue) handle set) \<Rightarrow>
    ('k \<Rightarrow> nat) \<Rightarrow> ('k, 'v, LfuContext, LfuQueue, 's Lfu, 't HashTableIndexer, 'q) cache_spec" where
  "lfu_spec ht_ok elems pc hashf = \<lparr>sp_ev_ok = lfu_ok, sp_ev_ptrs = lfu_linked, sp_clean = lfu_clean,
     sp_ix_ok = hti_ok ht_ok elems hashf, sp_ix_ptrs = hti_ptrs elems, sp_pool = pc\<rparr>"

definition s3fifo_spec :: "('t \<Rightarrow> bool) \<Rightarrow> ('t \<Rightarrow> (nat \<times> ptr) set) \<Rightarrow>
    ('q \<Rightarrow> ('k, 'v, S3FifoContext, s3fifo_ext) handle set) \<Rightarrow> ('k \<Rightarrow> nat) \<Rightarrow>
    ('k, 'v, S3FifoContext, s3fifo_ext, S3Fifo, 't HashTableIndexer, 'q) cache_spec" where
  "s3fifo_spec ht_ok elems pc hashf = \<lparr>sp_ev_ok = s3_ok, sp_ev_ptrs = s3_linked, sp_clean = s3_clean,
     sp_ix_ok = hti_ok ht_ok elems hashf, sp_ix_ptrs = hti_ptrs elems, sp_pool = pc\<rparr>"

lemma cache_shardI:
  assumes "eviction (dep_ev d) (sp_ev_ok a) (sp_ev_ptrs a) (sp_clean a)"
    and "indexer (dep_ix d) (dep_hash d) (sp_ix_ok a) (sp_ix_ptrs a)" and "object_pool (dep_pool d) (sp_pool a)"
  shows "cache_shard d a"
  unfolding cache_shard_def cache_shard_core_def using assms eviction.axioms(1) by blast

lemma fifo_cache_shard:
  assumes "hash_table ht ht_ok elems" "object_pool pool pc"
  shows "cache_shard (fifo_deps ht pool hashf) (fifo_spec ht_ok elems pc hashf)"
  by (rule cache_shardI) (simp_all add: fifo_deps_def fifo_spec_def assms(2) fifo.eviction_axioms
      hash_table.hti_indexer [OF assms(1)])

lemma lru_cache_shard:
  assumes "hash_table ht ht_ok elems" "object_pool pool pc"
  shows "cache_shard (lru_deps rnd ht pool hashf) (lru_spec ht_ok elems pc hashf)"
  by (rule cache_shardI) (simp_all add: lru_deps_def lru_spec_def assms(2) lru.eviction_axioms
      hash_table.hti_indexer [OF assms(1)])

lemma lfu_cache_shard:
  assumes "hash_table ht ht_ok elems" "object_pool pool pc"
  shows "cache_shard (lfu_deps rnd cms ht pool hashf) (lfu_spec ht_ok elems pc hashf)"
  by (rule cache_shardI) (simp_all add: lfu_deps_def lfu_spec_def assms(2) lfu.eviction_axioms
      hash_table.hti_indexer [OF assms(1)])

lemma s3fifo_cache_shard_core:
  assumes "hash_table ht ht_ok elems" "object_pool pool pc"
  shows "cache_shard_core (s3fifo_deps rnd ht pool hashf) (s3fifo_spec ht_ok elems pc hashf)"
  unfolding cache_shard_core_def
  by (simp add: s3fifo_deps_def s3fifo_spec_def assms(2) s3fifo.eviction_core_axioms
      hash_table.hti_indexer [OF assms(1)])

section \<open>A pool to run the model with\<close>

text \<open>A bounded queue: a push into a full queue is refused.\<close>

record 'h array_queue =
  aq_capacity :: usize
  aq_items :: "'h list"

definition aq_ops :: "('h, 'h array_queue) pool_ops" where
  "aq_ops = \<lparr>pool_new = (\<lambda>n. if n = 0 then None else Some \<lparr>aq_capacity = n, aq_items = []\<rparr>),
     pool_push = (\<lambda>q h. if length (aq_items q) < aq_capacity q then q\<lparr>aq_items := aq_items q @ [h]\<rparr> else q),
     pool_pop = (\<lambda>q. case aq_items q of [] \<Rightarrow> (None, q) | h # hs \<Rightarrow> (Some h, q\<lparr>aq_items := hs\<rparr>))\<rparr>"

definition aq_contents :: "'h array_queue \<Rightarrow> 'h set" where
  "aq_contents q = set (aq_items q)"

interpretation aq: object_pool aq_ops aq_contents
  by unfold_locales (auto simp: aq_ops_def aq_contents_def split: if_splits list.splits)

interpretation fifo_cache: cache_shard "fifo_deps al_table aq_ops hashf" "fifo_spec al_table_ok set aq_contents hashf"
  by (rule fifo_cache_shard [OF al.hash_table_axioms aq.object_pool_axioms])

interpretation lru_cache: cache_shard "lru_deps rnd al_table aq_ops hashf" "lru_spec al_table_ok set aq_contents hashf"
  by (rule lru_cache_shard [OF al.hash_table_axioms aq.object_pool_axioms])

interpretation lfu_cache: cache_shard "lfu_deps rnd cms al_table aq_ops hashf" "lfu_spec al_table_ok set aq_contents hashf"
  by (rule lfu_cache_shard [OF al.hash_table_axioms aq.object_pool_axioms])

interpretation s3fifo_cache: cache_shard_core "s3fifo_deps rnd al_table aq_ops hashf"
    "s3fifo_spec al_table_ok set aq_contents hashf"
  by (rule s3fifo_cache_shard_core [OF al.hash_table_axioms aq.object_pool_axioms])

end
