(* ===== verification/Bits_Range.thy ===== *)
theory Bits_Range
  imports Foyer_Prelude
begin

unbundle bit_operations_syntax

text \<open>
  \<^verbatim>\<open>foyer-common/src/bits.rs\<close> and \<^verbatim>\<open>foyer-common/src/range.rs\<close> at the type \<^verbatim>\<open>usize\<close>: the bit tricks for
  alignments and the normalisation of ranges. The lemmas give the arithmetic meaning of the bit tricks:
  \<open>is_pow2\<close> recognises exactly the powers of two, and aligning to a power of two rounds to the next
  multiple. \<open>None\<close> is a panic: a failed assertion, or an overflow of an unsigned number.
\<close>

section \<open>Definitions\<close>

text \<open>\<^verbatim>\<open>!v\<close> of a \<^verbatim>\<open>usize\<close>.\<close>

definition unot :: "usize \<Rightarrow> usize" where
  "unot v = nat (take_bit 64 (NOT (int v)))"

definition is_pow2 :: "usize \<Rightarrow> bool option" where
  "is_pow2 v = do {
     w \<leftarrow> usub v 1;
     Some (v AND w = 0)
   }"

definition assert_pow2 :: "usize \<Rightarrow> unit option" where
  "assert_pow2 v = do {
     w \<leftarrow> usub v 1;
     ensure (v AND w = 0)
   }"

definition is_aligned :: "usize \<Rightarrow> usize \<Rightarrow> bool option" where
  "is_aligned align v = do {
     assert_pow2 align;
     m \<leftarrow> usub align 1;
     Some (v AND m = 0)
   }"

definition assert_aligned :: "usize \<Rightarrow> usize \<Rightarrow> unit option" where
  "assert_aligned align v = do {
     assert_pow2 align;
     b \<leftarrow> is_aligned align v;
     ensure b
   }"

definition align_up :: "usize \<Rightarrow> usize \<Rightarrow> usize option" where
  "align_up align v = do {
     assert_pow2 align;
     s \<leftarrow> uadd v align;
     s1 \<leftarrow> usub s 1;
     m \<leftarrow> usub align 1;
     Some (s1 AND unot m)
   }"

definition align_down :: "usize \<Rightarrow> usize \<Rightarrow> usize option" where
  "align_down align v = do {
     assert_pow2 align;
     m \<leftarrow> usub align 1;
     Some (v AND unot m)
   }"

text \<open>Ranges: a pair of bounds, as \<^verbatim>\<open>RangeBounds\<close> gives them.\<close>

datatype 'a Bound = Included 'a | Excluded 'a | Unbounded

record RangeBounds =
  start_bound :: "usize Bound"
  end_bound :: "usize Bound"

definition range_start :: "RangeBounds \<Rightarrow> usize option option" where
  "range_start r = (case start_bound r of
       Included v \<Rightarrow> Some (Some v)
     | Excluded v \<Rightarrow> do { w \<leftarrow> uadd v 1; Some (Some w) }
     | Unbounded \<Rightarrow> Some None)"

definition range_end :: "RangeBounds \<Rightarrow> usize option option" where
  "range_end r = (case end_bound r of
       Included v \<Rightarrow> do { w \<leftarrow> uadd v 1; Some (Some w) }
     | Excluded v \<Rightarrow> Some (Some v)
     | Unbounded \<Rightarrow> Some None)"

definition start_with_bound :: "RangeBounds \<Rightarrow> usize \<Rightarrow> usize option" where
  "start_with_bound r bound = do {
     s \<leftarrow> range_start r;
     Some (case s of Some v \<Rightarrow> v | None \<Rightarrow> bound)
   }"

definition end_with_bound :: "RangeBounds \<Rightarrow> usize \<Rightarrow> usize option" where
  "end_with_bound r bound = do {
     e \<leftarrow> range_end r;
     Some (case e of Some v \<Rightarrow> v | None \<Rightarrow> bound)
   }"

definition range_bounds :: "RangeBounds \<Rightarrow> usize \<times> usize \<Rightarrow> (usize \<times> usize) option" where
  "range_bounds r rng = do {
     s \<leftarrow> start_with_bound r (fst rng);
     e \<leftarrow> end_with_bound r (snd rng);
     Some (s, e)
   }"

definition range_size :: "RangeBounds \<Rightarrow> usize option option" where
  "range_size r = do {
     s \<leftarrow> range_start r;
     (case s of
        None \<Rightarrow> Some None
      | Some start \<Rightarrow> do {
          e \<leftarrow> range_end r;
          (case e of None \<Rightarrow> Some None | Some end \<Rightarrow> do { n \<leftarrow> usub end start; Some (Some n) })
        })
   }"

definition range_is_empty :: "RangeBounds \<Rightarrow> bool option" where
  "range_is_empty r = do {
     s \<leftarrow> range_size r;
     Some (case s of Some len \<Rightarrow> len = 0 | None \<Rightarrow> False)
   }"

definition range_is_full :: "RangeBounds \<Rightarrow> bool" where
  "range_is_full r \<longleftrightarrow> start_bound r = Unbounded \<and> end_bound r = Unbounded"

definition range_map :: "(usize \<Rightarrow> 'b) \<Rightarrow> RangeBounds \<Rightarrow> 'b Bound \<times> 'b Bound" where
  "range_map f r = (map_Bound f (start_bound r), map_Bound f (end_bound r))"

text \<open>\<^verbatim>\<open>a..b\<close>, \<^verbatim>\<open>..\<close> and \<^verbatim>\<open>..b\<close>.\<close>

definition range_of :: "usize \<Rightarrow> usize \<Rightarrow> RangeBounds" where
  "range_of a b = \<lparr>start_bound = Included a, end_bound = Excluded b\<rparr>"

definition range_full :: RangeBounds where
  "range_full = \<lparr>start_bound = Unbounded, end_bound = Unbounded\<rparr>"

definition range_to :: "usize \<Rightarrow> RangeBounds" where
  "range_to b = \<lparr>start_bound = Unbounded, end_bound = Excluded b\<rparr>"

section \<open>What the bit tricks compute\<close>

lemma and_pred_even:
  fixes m :: nat
  assumes "0 < m"
  shows "(2 * m) AND (2 * m - 1) = 2 * (m AND (m - 1))"
proof -
  have "(2 * m - 1) div 2 = m - 1" using assms by (cases m) simp_all
  then show ?thesis by (subst and_rec) simp
qed

lemma and_pred_odd: "(2 * m + 1) AND (2 * m) = 2 * m" for m :: nat
  by (subst and_rec) simp

lemma and_pred_zero_iff: "0 < v \<Longrightarrow> v AND (v - 1) = 0 \<longleftrightarrow> (\<exists>k. v = 2 ^ k)" for v :: nat
proof (induction v rule: less_induct)
  case (less v)
  show ?case
  proof (cases "even v")
    case True
    then obtain m where m: "v = 2 * m" by blast
    then have m0: "0 < m" "m < v" using less.prems by auto
    have "v AND (v - 1) = 0 \<longleftrightarrow> m AND (m - 1) = 0" using and_pred_even [OF m0(1)] m by simp
    also have "\<dots> \<longleftrightarrow> (\<exists>k. m = 2 ^ k)" by (rule less.IH [OF m0(2,1)])
    also have "\<dots> \<longleftrightarrow> (\<exists>k. v = 2 ^ k)"
    proof
      assume "\<exists>k. m = 2 ^ k"
      with m show "\<exists>k. v = 2 ^ k" by (metis power_Suc)
    next
      assume "\<exists>k. v = 2 ^ k"
      then obtain k where k: "v = 2 ^ k" by blast
      with True less.prems obtain j where "k = Suc j" by (cases k) auto
      with k m show "\<exists>k. m = 2 ^ k" by auto
    qed
    finally show ?thesis .
  next
    case False
    then obtain m where m: "v = 2 * m + 1" by (auto elim: oddE)
    have "v AND (v - 1) = 0 \<longleftrightarrow> m = 0" using and_pred_odd [of m] m by simp
    also have "\<dots> \<longleftrightarrow> (\<exists>k. v = 2 ^ k)"
    proof
      assume "m = 0"
      with m show "\<exists>k. v = 2 ^ k" by (auto intro: exI [of _ 0])
    next
      assume "\<exists>k. v = 2 ^ k"
      then obtain k where k: "v = 2 ^ k" by blast
      then have "k = 0" using False by (cases k) simp_all
      with m k show "m = 0" by simp
    qed
    finally show ?thesis .
  qed
qed

lemma is_pow2_iff: "0 < v \<Longrightarrow> is_pow2 v = Some (\<exists>k. v = 2 ^ k)"
  using and_pred_zero_iff [of v] by (simp add: is_pow2_def checked)

lemma assert_pow2_Some [checked]: "assert_pow2 (2 ^ k) = Some ()"
  using and_pred_zero_iff [of "2 ^ k"] by (auto simp: assert_pow2_def checked)

lemma and_mask_nat: "v AND (2 ^ k - 1) = v mod 2 ^ k" for v :: nat
  using take_bit_eq_mask [of k v] by (simp add: take_bit_eq_mod mask_eq_exp_minus_1)

lemma and_unot_mask:
  assumes "v < usize_lim"
  shows "v AND unot (2 ^ k - 1) = v - v mod 2 ^ k"
proof -
  have v: "take_bit 64 (int v) = int v" using assms by (simp add: take_bit_int_eq_self_iff usize_lim_def)
  have "int (v AND unot (2 ^ k - 1)) = int v AND take_bit 64 (NOT (mask k))"
    by (simp add: unot_def of_nat_and_eq mask_eq_exp_minus_1 of_nat_diff)
  also have "\<dots> = take_bit 64 (int v) AND NOT (mask k)" by (auto simp: bit_eq_iff bit_simps)
  also have "\<dots> = int v AND NOT (take_bit k (int v))" unfolding v by (auto simp: bit_eq_iff bit_simps)
  also have "\<dots> = int v - take_bit k (int v)"
    by (rule disjunctive_diff_eq_and_not [symmetric]) (auto simp: bit_eq_iff bit_simps)
  also have "\<dots> = int (v - v mod 2 ^ k)" by (simp add: take_bit_eq_mod of_nat_diff zmod_int)
  finally show ?thesis by simp
qed

lemma is_aligned_iff [checked]: "is_aligned (2 ^ k) v = Some (2 ^ k dvd v)"
  using and_mask_nat [of v k] by (simp add: is_aligned_def checked dvd_eq_mod_eq_0)

lemma align_down_eq: "v < usize_lim \<Longrightarrow> align_down (2 ^ k) v = Some (v - v mod 2 ^ k)"
  using and_unot_mask [of v k] by (simp add: align_down_def checked)

lemma align_up_eq:
  assumes "v + 2 ^ k < usize_lim"
  shows "align_up (2 ^ k) v = Some ((v + 2 ^ k - 1) div 2 ^ k * 2 ^ k)"
proof -
  have "1 \<le> v + 2 ^ k" by (simp add: Suc_leI)
  then have "usub (v + 2 ^ k) 1 = Some (v + 2 ^ k - 1)" by (rule usub_Some)
  moreover have "v + 2 ^ k - 1 < usize_lim" using assms by simp
  ultimately show ?thesis
    using assms and_unot_mask [of "v + 2 ^ k - 1" k] by (simp add: align_up_def checked minus_mod_eq_div_mult)
qed

text \<open>The next multiple, as a function: what the proofs about the store use.\<close>

definition next_multiple :: "nat \<Rightarrow> nat \<Rightarrow> nat" where
  "next_multiple a v = (v + a - 1) div a * a"

lemma next_multiple_props:
  assumes "0 < a"
  shows "a dvd next_multiple a v" "v \<le> next_multiple a v" "next_multiple a v < v + a"
    "\<And>m. a dvd m \<Longrightarrow> v \<le> m \<Longrightarrow> next_multiple a v \<le> m"
proof -
  show "a dvd next_multiple a v" by (simp add: next_multiple_def)
  have q: "next_multiple a v = v + a - 1 - (v + a - 1) mod a" by (simp add: next_multiple_def minus_mod_eq_div_mult)
  have "(v + a - 1) mod a < a" using assms by simp
  with q assms show 1: "v \<le> next_multiple a v" "next_multiple a v < v + a" by linarith+
  fix m assume m: "a dvd m" "v \<le> m"
  show "next_multiple a v \<le> m"
  proof (rule ccontr)
    assume "\<not> next_multiple a v \<le> m"
    moreover obtain c where c1: "m = a * c" using m(1) by blast
    moreover define e where "e = (v + a - 1) div a"
    moreover have c: "m = a * c" "next_multiple a v = a * e" using c1 by (simp_all add: next_multiple_def e_def)
    ultimately have "c < e" by (simp add: not_le)
    then have "a * (c + 1) \<le> a * e" by (intro mult_le_mono2) simp
    with 1 m c show False by simp
  qed
qed

lemma next_multiple_self: "0 < a \<Longrightarrow> a dvd v \<Longrightarrow> next_multiple a v = v"
  using next_multiple_props [of a v] by (intro le_antisym) auto

lemma align_up_next: "v + 2 ^ k < usize_lim \<Longrightarrow> align_up (2 ^ k) v = Some (next_multiple (2 ^ k) v)"
  by (simp add: align_up_eq next_multiple_def)

section \<open>What ranges select\<close>

lemma range_bounds_of [simp]:
  "range_bounds (range_of a b) w = Some (a, b)" "range_bounds range_full w = Some w"
  "range_bounds (range_to b) w = Some (fst w, b)"
  by (simp_all add: range_bounds_def start_with_bound_def end_with_bound_def range_start_def range_end_def range_of_def
      range_full_def range_to_def)

lemma range_size_of [simp]: "a \<le> b \<Longrightarrow> range_size (range_of a b) = Some (Some (b - a))"
  by (simp add: range_size_def range_start_def range_end_def range_of_def checked)

section \<open>Properties\<close>

text \<open>Alignment. The bit operations compute what their names say: \<^verbatim>\<open>is_pow2\<close> recognises the powers of two, and for a power of two \<^verbatim>\<open>is_aligned\<close> is divisibility,
  \<^verbatim>\<open>align_down\<close> is the greatest multiple that is not above the number and \<^verbatim>\<open>align_up\<close> the least that is not below it, where it panics exactly when the
  sum overflows. Any other alignment fails an assertion.\<close>

theorem alignment_equiv:
  assumes "0 < align" and v: "v < usize_lim"
  shows "is_pow2 align = Some (\<exists>k. align = 2 ^ k) \<and>
    is_aligned align v = (if \<exists>k. align = 2 ^ k then Some (align dvd v) else None) \<and>
    align_down align v = (if \<exists>k. align = 2 ^ k then Some (GREATEST m. align dvd m \<and> m \<le> v) else None) \<and>
    align_up align v = (if (\<exists>k. align = 2 ^ k) \<and> v + align < usize_lim then Some (LEAST m. align dvd m \<and> v \<le> m) else None)"
proof (cases "\<exists>k. align = 2 ^ k")
  case True
  then obtain k where k: "align = 2 ^ k" by blast
  have least: "(LEAST m. align dvd m \<and> v \<le> m) = next_multiple align v"
    using next_multiple_props [OF assms(1), where v = v] by (intro Least_equality) auto
  have le: "m \<le> v - v mod align" if m: "align dvd m" "m \<le> v" for m
  proof -
    obtain c where c: "m = align * c" using m(1) by blast
    then have "c \<le> v div align" using m(2) assms(1) by (simp add: less_eq_div_iff_mult_less_eq mult.commute)
    then show ?thesis unfolding c by (simp add: minus_mod_eq_mult_div)
  qed
  then have greatest: "(GREATEST m. align dvd m \<and> m \<le> v) = v - v mod align" by (intro Greatest_equality) (auto simp: minus_mod_eq_mult_div)
  have up: "align_up align v = (if v + align < usize_lim then Some (next_multiple align v) else None)"
    using align_up_next [of v k] by (auto simp: k align_up_def uadd_def checked)
  show ?thesis using True up least greatest is_aligned_iff [of k v] align_down_eq [OF v, of k] is_pow2_iff [OF assms(1)] by (simp flip: k)
next
  case False
  then have "assert_pow2 align = None" using and_pred_zero_iff [OF assms(1)] assms(1) by (simp add: assert_pow2_def checked Suc_le_eq ensure_def)
  then show ?thesis using False is_pow2_iff [OF assms(1)] by (simp add: is_aligned_def align_down_def align_up_def)
qed

theorem alignment_equiv_witness: "is_pow2 4096 = Some True \<and> align_up 4096 5000 = Some 8192 \<and> align_down 6 20 = None"
proof -
  have p: "(4096 :: nat) = 2 ^ 12" by simp
  then have pow: "\<exists>k. (4096 :: nat) = 2 ^ k" by blast
  have not_pow: "\<not> (\<exists>k. (6 :: nat) = 2 ^ k)"
  proof
    assume "\<exists>k. (6 :: nat) = 2 ^ k"
    then obtain k where k: "(6 :: nat) = 2 ^ k" by blast
    consider "k = 0" | "k = 1" | j where "k = j + 2" by (metis One_nat_def add_2_eq_Suc' not0_implies_Suc)
    then show False
    proof cases
      case 3
      then have "(6 :: nat) = 4 * 2 ^ j" using k by simp
      then show ?thesis by presburger
    qed (use k in simp_all)
  qed
  have least: "(LEAST m. 4096 dvd m \<and> 5000 \<le> m) = (8192 :: nat)" by (rule Least_equality) (auto elim!: dvdE)
  have lim: "(5000 :: nat) < usize_lim" "(20 :: nat) < usize_lim" "(5000 :: nat) + 4096 < usize_lim" by (simp_all add: usize_lim_def)
  show ?thesis using alignment_equiv [of 4096 5000] alignment_equiv [of 6 20] pow not_pow lim least by simp
qed

end
