(* ===== verification/Codec.thy ===== *)
theory Codec
  imports Bits_Range
begin

text \<open>
  \<^verbatim>\<open>foyer-common/src/code.rs\<close>: how keys and values become bytes and come back. The traits \<^verbatim>\<open>Key\<close> and
  \<^verbatim>\<open>Value\<close> are the record \<open>coder\<close> of their operations; \<open>io_copy\<close> is \<^verbatim>\<open>std::io::copy\<close>, the loop by which
  the store drains a cursor into a buffer. The locale \<open>value_coder\<close> is what the store relies on: draining
  the cursor of a value gives as many bytes as announced, reading them gives the value back, and so does the
  cursor. It is interpreted on every implementation of the file: the fixed width integers, byte vectors,
  shared byte vectors and the unit type.
\<close>

section \<open>Big-endian numbers\<close>

type_synonym bytes = "8 word list"

fun put_be :: "nat \<Rightarrow> nat \<Rightarrow> bytes" where
  "put_be 0 v = []"
| "put_be (Suc n) v = put_be n (v div 256) @ [word_of_nat v]"

definition get_be :: "bytes \<Rightarrow> nat" where
  "get_be bs = foldl (\<lambda>a b. a * 256 + unat b) 0 bs"

text \<open>\<^verbatim>\<open>get_u16\<close>, \<^verbatim>\<open>get_u32\<close> and \<^verbatim>\<open>get_u64\<close> of a slice: they panic on a slice that is too short, and leave
  the rest of it.\<close>

definition buf_get :: "nat \<Rightarrow> bytes \<Rightarrow> (nat \<times> bytes) option" where
  "buf_get n buf = (if length buf < n then None else Some (get_be (take n buf), drop n buf))"

definition get_usize :: "bytes \<Rightarrow> (usize \<times> bytes) option" where
  "get_usize buf = buf_get 8 buf"

definition put_usize :: "usize \<Rightarrow> bytes" where
  "put_usize v = put_be 8 v"

lemma length_put_be [simp]: "length (put_be n v) = n"
  by (induction n v rule: put_be.induct) simp_all

lemma get_be_snoc: "get_be (bs @ [b]) = get_be bs * 256 + unat b"
  by (simp add: get_be_def)

lemma get_be_put_be: "get_be (put_be n v) = v mod 256 ^ n"
proof (induction n v rule: put_be.induct)
  case (1 v)
  then show ?case by (simp add: get_be_def)
next
  case (2 n v)
  have "unat (word_of_nat v :: 8 word) = v mod 256" by (simp add: unat_of_nat)
  with 2 show ?case by (simp add: get_be_snoc mod_mult2_eq)
qed

lemma buf_get_put [simp]:
  "buf_get n (put_be n v @ rest) = Some (v mod 256 ^ n, rest)"
  "buf_get n (put_be n v) = Some (v mod 256 ^ n, [])"
  by (simp_all add: buf_get_def get_be_put_be)

section \<open>The traits\<close>

datatype coding_error = CodingError

record ('a, 'c) coder =
  cd_weight :: "'a \<Rightarrow> usize"
  cd_serialized_len :: "'a \<Rightarrow> usize"
  cd_read :: "bytes \<Rightarrow> (coding_error + 'a) option"
  cd_into_cursor :: "'a \<Rightarrow> 'c"
  cd_cursor_read :: "'c \<Rightarrow> nat \<Rightarrow> (bytes \<times> 'c) option"
  cd_into_inner :: "'c \<Rightarrow> 'a"

text \<open>\<^verbatim>\<open>std::io::copy\<close> with a buffer of \<open>n\<close> bytes: it reads until a read gives nothing.\<close>

partial_function (option) io_copy :: "('c \<Rightarrow> nat \<Rightarrow> (bytes \<times> 'c) option) \<Rightarrow> nat \<Rightarrow> 'c \<Rightarrow> bytes \<Rightarrow> (bytes \<times> 'c) option" where
  "io_copy rd n c out = do {
     (chunk, c') \<leftarrow> rd c n;
     if chunk = [] then Some (out, c') else io_copy rd n c' (out @ chunk)
   }"

declare io_copy.simps [code]

text \<open>Cursors over bytes: the primitive cursors over \<^verbatim>\<open>to_be_bytes\<close>, with a position of type \<^verbatim>\<open>u8\<close>, and the
  cursors over byte vectors.\<close>

record 'a PrimitiveCursor =
  pc_inner :: 'a
  pc_pos :: nat

definition to_be_bytes :: "'a::len word \<Rightarrow> bytes" where
  "to_be_bytes w = put_be (LENGTH('a) div 8) (unat w)"

definition pc_new :: "'a::len word \<Rightarrow> 'a word PrimitiveCursor" where
  "pc_new w = \<lparr>pc_inner = w, pc_pos = 0\<rparr>"

definition pc_read :: "'a::len word PrimitiveCursor \<Rightarrow> nat \<Rightarrow> (bytes \<times> 'a word PrimitiveCursor) option" where
  "pc_read c n = do {
     let slice = to_be_bytes (pc_inner c);
     left \<leftarrow> usub (length slice) (pc_pos c);
     let len = min left n;
     ensure (pc_pos c + len mod 256 < 256);
     Some (take len (drop (pc_pos c) slice), c\<lparr>pc_pos := pc_pos c + len mod 256\<rparr>)
   }"

definition pc_into_inner :: "'a::len word PrimitiveCursor \<Rightarrow> 'a word" where
  "pc_into_inner c = pc_inner c"

definition prim_serialized_len :: "'a::len word \<Rightarrow> usize" where
  "prim_serialized_len w = LENGTH('a) div 8"

definition prim_read :: "bytes \<Rightarrow> (coding_error + 'a::len word) option" where
  "prim_read buf = do {
     (v, rest) \<leftarrow> buf_get (LENGTH('a) div 8) buf;
     Some (Inr (word_of_nat v))
   }"

definition prim_coder :: "('a::len word, 'a word PrimitiveCursor) coder" where
  "prim_coder = \<lparr>cd_weight = (\<lambda>_. LENGTH('a) div 8), cd_serialized_len = prim_serialized_len, cd_read = prim_read,
     cd_into_cursor = pc_new, cd_cursor_read = pc_read, cd_into_inner = pc_into_inner\<rparr>"

record ArcVecU8Cursor =
  avc_inner :: bytes
  avc_pos :: usize

definition avc_new :: "bytes \<Rightarrow> ArcVecU8Cursor" where
  "avc_new bs = \<lparr>avc_inner = bs, avc_pos = 0\<rparr>"

definition avc_read :: "ArcVecU8Cursor \<Rightarrow> nat \<Rightarrow> (bytes \<times> ArcVecU8Cursor) option" where
  "avc_read c n = do {
     left \<leftarrow> usub (length (avc_inner c)) (avc_pos c);
     let len = min left n;
     pos \<leftarrow> uadd (avc_pos c) len;
     Some (take len (drop (avc_pos c) (avc_inner c)), c\<lparr>avc_pos := pos\<rparr>)
   }"

definition avc_into_inner :: "ArcVecU8Cursor \<Rightarrow> bytes" where
  "avc_into_inner c = avc_inner c"

definition vec_read :: "bytes \<Rightarrow> (coding_error + bytes) option" where
  "vec_read buf = Some (Inr buf)"

definition arc_vec_coder :: "(bytes, ArcVecU8Cursor) coder" where
  "arc_vec_coder = \<lparr>cd_weight = length, cd_serialized_len = length, cd_read = vec_read,
     cd_into_cursor = avc_new, cd_cursor_read = avc_read, cd_into_inner = avc_into_inner\<rparr>"

text \<open>\<^verbatim>\<open>std::io::Cursor<Vec<u8>>\<close>: past the end it reads nothing.\<close>

definition std_cursor_read :: "ArcVecU8Cursor \<Rightarrow> nat \<Rightarrow> (bytes \<times> ArcVecU8Cursor) option" where
  "std_cursor_read c n = (let chunk = take n (drop (avc_pos c) (avc_inner c))
     in Some (chunk, c\<lparr>avc_pos := avc_pos c + length chunk\<rparr>))"

definition vec_coder :: "(bytes, ArcVecU8Cursor) coder" where
  "vec_coder = \<lparr>cd_weight = length, cd_serialized_len = length, cd_read = vec_read,
     cd_into_cursor = avc_new, cd_cursor_read = std_cursor_read, cd_into_inner = avc_into_inner\<rparr>"

definition void_read :: "unit \<Rightarrow> nat \<Rightarrow> (bytes \<times> unit) option" where
  "void_read c n = Some ([], c)"

definition void_coder :: "(unit, unit) coder" where
  "void_coder = \<lparr>cd_weight = (\<lambda>_. 0), cd_serialized_len = (\<lambda>_. 0), cd_read = (\<lambda>_. Some (Inr ())),
     cd_into_cursor = (\<lambda>_. ()), cd_cursor_read = void_read, cd_into_inner = (\<lambda>_. ())\<rparr>"

section \<open>What the store relies on\<close>

locale value_coder =
  fixes cd :: "('a, 'c) coder"
  assumes copy_ok: "0 < n \<Longrightarrow> cd_serialized_len cd x < usize_lim \<Longrightarrow>
    \<exists>bs c. io_copy (cd_cursor_read cd) n (cd_into_cursor cd x) out = Some (out @ bs, c) \<and>
      length bs = cd_serialized_len cd x \<and> cd_read cd bs = Some (Inr x) \<and> cd_into_inner cd c = x"

text \<open>Draining a cursor whose reads are the successive pieces of a list.\<close>

lemma io_copy_pieces:
  assumes rd: "\<And>c. I c \<Longrightarrow> \<exists>c'. rd c n = Some (take n (rest c), c') \<and> rest c' = drop n (rest c) \<and> I c' \<and> val c' = val c"
    and I: "I c" and n: "0 < n"
  shows "\<exists>c'. io_copy rd n c out = Some (out @ rest c, c') \<and> val c' = val c"
  using I
proof (induction "length (rest c)" arbitrary: c out rule: less_induct)
  case less
  obtain c' where c': "rd c n = Some (take n (rest c), c')" "rest c' = drop n (rest c)" "I c'" "val c' = val c"
    using rd [OF less.prems] by blast
  show ?case
  proof (cases "rest c = []")
    case True
    with c' show ?thesis by (subst io_copy.simps) simp
  next
    case False
    then have "length (rest c') < length (rest c)" using c'(2) n by simp
    from less.hyps [OF this c'(3), of "out @ take n (rest c)"] obtain c'' where
      "io_copy rd n c' (out @ take n (rest c)) = Some ((out @ take n (rest c)) @ rest c', c'')" "val c'' = val c'" by blast
    with c' False n show ?thesis by (subst io_copy.simps) simp
  qed
qed

lemma length_to_be_bytes [simp]: "length (to_be_bytes (w :: 'a::len word)) = LENGTH('a) div 8"
  by (simp add: to_be_bytes_def)

lemma pc_read_pieces:
  fixes c :: "'a::len word PrimitiveCursor"
  assumes "pc_pos c \<le> LENGTH('a) div 8" "LENGTH('a) div 8 < 256"
  shows "\<exists>c'. pc_read c n = Some (take n (drop (pc_pos c) (to_be_bytes (pc_inner c))), c') \<and>
    drop (pc_pos c') (to_be_bytes (pc_inner c')) = drop n (drop (pc_pos c) (to_be_bytes (pc_inner c))) \<and>
    pc_pos c' \<le> LENGTH('a) div 8 \<and> pc_inner c' = pc_inner c"
proof -
  obtain m where m: "LENGTH('a) div 8 = m" by blast
  show ?thesis
  proof (cases "m - pc_pos c \<le> n")
    case True
    with assms m show ?thesis by (simp add: pc_read_def checked Let_def min_def)
  next
    case False
    then have "n + pc_pos c \<le> m" "n + pc_pos c < 256" "n mod 256 = n" using assms m by simp_all
    with False assms m show ?thesis by (simp add: pc_read_def checked Let_def min_def add.commute)
  qed
qed

lemma prim_read_bytes:
  assumes "8 dvd LENGTH('a::len)"
  shows "prim_read (to_be_bytes w) = Some (Inr (w :: 'a word))"
proof -
  obtain k where k: "LENGTH('a) = 8 * k" using assms by blast
  have "(256 :: nat) ^ k = 2 ^ LENGTH('a)" by (simp add: k power_mult)
  moreover have "unat w < 2 ^ LENGTH('a)" by simp
  ultimately have "unat w mod 256 ^ (LENGTH('a) div 8) = unat w" using k by simp
  then show ?thesis by (simp add: prim_read_def to_be_bytes_def)
qed

lemma prim_value_coder:
  assumes "8 dvd LENGTH('a::len)" "LENGTH('a) div 8 < 256"
  shows "value_coder (prim_coder :: ('a word, 'a word PrimitiveCursor) coder)"
proof
  fix n and x :: "'a word" and out assume n: "(0 :: nat) < n"
  let ?I = "\<lambda>c :: 'a word PrimitiveCursor. pc_pos c \<le> LENGTH('a) div 8"
  let ?rest = "\<lambda>c :: 'a word PrimitiveCursor. drop (pc_pos c) (to_be_bytes (pc_inner c))"
  have "\<exists>c'. io_copy pc_read n (pc_new x) out = Some (out @ ?rest (pc_new x), c') \<and> pc_inner c' = pc_inner (pc_new x)"
    by (rule io_copy_pieces [where I = ?I and rest = ?rest and val = pc_inner], rule pc_read_pieces)
      (simp_all add: assms(2) n pc_new_def)
  then show "\<exists>bs c. io_copy (cd_cursor_read prim_coder) n (cd_into_cursor prim_coder x) out = Some (out @ bs, c) \<and>
      length bs = cd_serialized_len prim_coder x \<and> cd_read prim_coder bs = Some (Inr x) \<and> cd_into_inner prim_coder c = x"
    using prim_read_bytes [OF assms(1), of x]
    by (auto simp: prim_coder_def pc_new_def prim_serialized_len_def pc_into_inner_def)
qed

interpretation u8: value_coder "prim_coder :: (8 word, 8 word PrimitiveCursor) coder"
  by (rule prim_value_coder) simp_all

interpretation u16: value_coder "prim_coder :: (16 word, 16 word PrimitiveCursor) coder"
  by (rule prim_value_coder) simp_all

interpretation u32: value_coder "prim_coder :: (32 word, 32 word PrimitiveCursor) coder"
  by (rule prim_value_coder) simp_all

interpretation u64: value_coder "prim_coder :: (64 word, 64 word PrimitiveCursor) coder"
  by (rule prim_value_coder) simp_all

lemma avc_read_pieces:
  assumes "avc_pos c \<le> length (avc_inner c)" "length (avc_inner c) < usize_lim"
  shows "\<exists>c'. avc_read c n = Some (take n (drop (avc_pos c) (avc_inner c)), c') \<and>
    drop (avc_pos c') (avc_inner c') = drop n (drop (avc_pos c) (avc_inner c)) \<and>
    (avc_pos c' \<le> length (avc_inner c') \<and> length (avc_inner c') < usize_lim) \<and> avc_inner c' = avc_inner c"
proof (cases "length (avc_inner c) - avc_pos c \<le> n")
  case True
  with assms show ?thesis by (simp add: avc_read_def checked Let_def min_def)
next
  case False
  with assms show ?thesis by (simp add: avc_read_def checked Let_def min_def add.commute)
qed

lemma std_cursor_pieces:
  assumes "avc_pos c \<le> length (avc_inner c)"
  shows "\<exists>c'. std_cursor_read c n = Some (take n (drop (avc_pos c) (avc_inner c)), c') \<and>
    drop (avc_pos c') (avc_inner c') = drop n (drop (avc_pos c) (avc_inner c)) \<and>
    avc_pos c' \<le> length (avc_inner c') \<and> avc_inner c' = avc_inner c"
  using assms by (auto simp: std_cursor_read_def Let_def min_def add.commute)

interpretation arc_vec: value_coder arc_vec_coder
proof
  fix n x out assume n: "(0 :: nat) < n" and len: "cd_serialized_len arc_vec_coder x < usize_lim"
  have "\<exists>c'. io_copy avc_read n (avc_new x) out = Some (out @ drop (avc_pos (avc_new x)) (avc_inner (avc_new x)), c') \<and>
      avc_inner c' = avc_inner (avc_new x)"
    by (rule io_copy_pieces [where I = "\<lambda>c. avc_pos c \<le> length (avc_inner c) \<and> length (avc_inner c) < usize_lim"
          and val = avc_inner])
      (use avc_read_pieces n len in \<open>auto simp: avc_new_def arc_vec_coder_def\<close>)
  then show "\<exists>bs c. io_copy (cd_cursor_read arc_vec_coder) n (cd_into_cursor arc_vec_coder x) out = Some (out @ bs, c) \<and>
      length bs = cd_serialized_len arc_vec_coder x \<and> cd_read arc_vec_coder bs = Some (Inr x) \<and>
      cd_into_inner arc_vec_coder c = x"
    by (auto simp: arc_vec_coder_def avc_new_def vec_read_def avc_into_inner_def)
qed

interpretation vec: value_coder vec_coder
proof
  fix n x out assume n: "(0 :: nat) < n"
  have "\<exists>c'. io_copy std_cursor_read n (avc_new x) out = Some (out @ drop (avc_pos (avc_new x)) (avc_inner (avc_new x)), c') \<and>
      avc_inner c' = avc_inner (avc_new x)"
    by (rule io_copy_pieces [where I = "\<lambda>c. avc_pos c \<le> length (avc_inner c)" and val = avc_inner])
      (use std_cursor_pieces n in \<open>auto simp: avc_new_def\<close>)
  then show "\<exists>bs c. io_copy (cd_cursor_read vec_coder) n (cd_into_cursor vec_coder x) out = Some (out @ bs, c) \<and>
      length bs = cd_serialized_len vec_coder x \<and> cd_read vec_coder bs = Some (Inr x) \<and> cd_into_inner vec_coder c = x"
    by (auto simp: vec_coder_def avc_new_def vec_read_def avc_into_inner_def)
qed

interpretation void: value_coder void_coder
proof
  fix n x out assume "(0 :: nat) < n"
  show "\<exists>bs c. io_copy (cd_cursor_read void_coder) n (cd_into_cursor void_coder x) out = Some (out @ bs, c) \<and>
      length bs = cd_serialized_len void_coder x \<and> cd_read void_coder bs = Some (Inr x) \<and> cd_into_inner void_coder c = x"
    by (subst io_copy.simps) (simp add: void_coder_def void_read_def)
qed

end
