(* ===== verification/Entry_Format.thy ===== *)
theory Entry_Format
  imports Codec
begin

unbundle bit_operations_syntax

text \<open>
  The bytes of the disk cache: \<^verbatim>\<open>Compression\<close> of \<^verbatim>\<open>foyer-storage/src/compress.rs\<close>, \<^verbatim>\<open>RegionHeader\<close> of
  \<^verbatim>\<open>region.rs\<close>, and \<^verbatim>\<open>EntryHeader\<close> and \<^verbatim>\<open>read_entry\<close> of \<^verbatim>\<open>generic.rs\<close>. The compression algorithms (the crates
  \<^verbatim>\<open>zstd\<close> and \<^verbatim>\<open>lz4\<close>) and the checksum (\<^verbatim>\<open>XxHash64\<close>) are parameters. \<open>None\<close> is a panic, \<open>Inl\<close> an error that
  the code returns. The lemmas are round trips: what is written as a header or an entry is read back, and
  only what carries the magic number is accepted.
\<close>

section \<open>Definitions\<close>

datatype store_error = NotSupported | MagicMismatch | ChecksumMismatch | RegionMagicMismatch | InvalidVersion
  | Coding coding_error | DeviceError | Cancelled

datatype Compression = CompressionNone | Zstd | Lz4

fun compression_to_u8 :: "Compression \<Rightarrow> 8 word" where
  "compression_to_u8 CompressionNone = 0"
| "compression_to_u8 Zstd = 1"
| "compression_to_u8 Lz4 = 2"

fun compression_to_str :: "Compression \<Rightarrow> string" where
  "compression_to_str CompressionNone = ''none''"
| "compression_to_str Zstd = ''zstd''"
| "compression_to_str Lz4 = ''lz4''"

text \<open>The conversions \<^verbatim>\<open>From<Compression>\<close>.\<close>

fun u8_from_compression :: "Compression \<Rightarrow> 8 word" where
  "u8_from_compression CompressionNone = 0"
| "u8_from_compression Zstd = 1"
| "u8_from_compression Lz4 = 2"

fun str_from_compression :: "Compression \<Rightarrow> string" where
  "str_from_compression CompressionNone = ''none''"
| "str_from_compression Zstd = ''zstd''"
| "str_from_compression Lz4 = ''lz4''"

definition compression_try_from_u8 :: "8 word \<Rightarrow> store_error + Compression" where
  "compression_try_from_u8 v = (if v = 0 then Inr CompressionNone else if v = 1 then Inr Zstd
     else if v = 2 then Inr Lz4 else Inl NotSupported)"

definition compression_try_from_str :: "string \<Rightarrow> store_error + Compression" where
  "compression_try_from_str s = (if s = ''none'' then Inr CompressionNone else if s = ''zstd'' then Inr Zstd
     else if s = ''lz4'' then Inr Lz4 else Inl NotSupported)"

definition compression_try_from_string :: "string \<Rightarrow> store_error + Compression" where
  "compression_try_from_string s = compression_try_from_str s"

definition REGION_MAGIC :: "64 word" where
  "REGION_MAGIC = 0x19970327"

datatype Version = V1

definition version_latest :: Version where
  "version_latest = V1"

fun version_to_u64 :: "Version \<Rightarrow> 64 word" where
  "version_to_u64 V1 = 1"

fun u64_from_version :: "Version \<Rightarrow> 64 word" where
  "u64_from_version V1 = 1"

definition version_try_from :: "64 word \<Rightarrow> store_error + Version" where
  "version_try_from v = (if v = 1 then Inr V1 else Inl InvalidVersion)"

record RegionHeader =
  rh_magic :: "64 word"
  rh_version :: Version

text \<open>Writing into a slice: \<^verbatim>\<open>put_u64\<close> on \<^verbatim>\<open>&mut [u8]\<close> overwrites its beginning and panics when it is too
  short.\<close>

definition overwrite :: "bytes \<Rightarrow> bytes \<Rightarrow> bytes option" where
  "overwrite bs buf = (if length buf < length bs then None else Some (bs @ drop (length bs) buf))"

definition region_header_write :: "RegionHeader \<Rightarrow> bytes \<Rightarrow> bytes option" where
  "region_header_write h buf = overwrite (to_be_bytes (rh_magic h) @ to_be_bytes (version_to_u64 (rh_version h))) buf"

definition region_header_read :: "bytes \<Rightarrow> (store_error + RegionHeader) option" where
  "region_header_read buf = do {
     (magic, buf1) \<leftarrow> buf_get 8 buf;
     if word_of_nat magic \<noteq> REGION_MAGIC then Some (Inl RegionMagicMismatch) else do {
       (v, buf2) \<leftarrow> buf_get 8 buf1;
       Some (case version_try_from (word_of_nat v) of
           Inl e \<Rightarrow> Inl e
         | Inr version \<Rightarrow> Inr \<lparr>rh_magic = word_of_nat magic, rh_version = version\<rparr>)
     }
   }"

definition ENTRY_MAGIC :: "32 word" where
  "ENTRY_MAGIC = 0x97032700"

definition ENTRY_MAGIC_MASK :: "32 word" where
  "ENTRY_MAGIC_MASK = 0xFFFFFF00"

record EntryHeader =
  eh_key_len :: "32 word"
  eh_value_len :: "32 word"
  eh_sequence :: "64 word"
  eh_checksum :: "64 word"
  eh_compression :: Compression

definition eh_serialized_len :: usize where
  "eh_serialized_len = 4 + 4 + 8 + 8 + 4"

definition eh_bytes :: "EntryHeader \<Rightarrow> bytes" where
  "eh_bytes h = to_be_bytes (eh_key_len h) @ to_be_bytes (eh_value_len h) @ to_be_bytes (eh_sequence h) @
     to_be_bytes (eh_checksum h) @ to_be_bytes (ENTRY_MAGIC OR ucast (compression_to_u8 (eh_compression h)))"

definition eh_write :: "EntryHeader \<Rightarrow> bytes \<Rightarrow> bytes option" where
  "eh_write h buf = overwrite (eh_bytes h) buf"

definition eh_read :: "bytes \<Rightarrow> (store_error + EntryHeader) option" where
  "eh_read buf = do {
     (key_len, buf1) \<leftarrow> buf_get 4 buf;
     (value_len, buf2) \<leftarrow> buf_get 4 buf1;
     (sequence, buf3) \<leftarrow> buf_get 8 buf2;
     (checksum, buf4) \<leftarrow> buf_get 8 buf3;
     (v, buf5) \<leftarrow> buf_get 4 buf4;
     if (word_of_nat v :: 32 word) AND ENTRY_MAGIC_MASK \<noteq> ENTRY_MAGIC then Some (Inl MagicMismatch) else
     Some (case compression_try_from_u8 (ucast (word_of_nat v :: 32 word)) of
         Inl e \<Rightarrow> Inl e
       | Inr compression \<Rightarrow> Inr \<lparr>eh_key_len = word_of_nat key_len, eh_value_len = word_of_nat value_len,
           eh_sequence = word_of_nat sequence, eh_checksum = word_of_nat checksum, eh_compression = compression\<rparr>)
   }"

text \<open>\<^verbatim>\<open>&buf[a..b]\<close>\<close>

definition slice :: "bytes \<Rightarrow> nat \<Rightarrow> nat \<Rightarrow> bytes option" where
  "slice buf a b = (if a \<le> b \<and> b \<le> length buf then Some (take (b - a) (drop a buf)) else None)"

text \<open>What the store uses of the compression crates and of the hasher: \<open>st_encode\<close> is what is appended to the
  buffer, with the error that ended it if there was one; \<open>st_copy_buf\<close> the size of the buffer of
  \<^verbatim>\<open>std::io::copy\<close>; \<open>st_uninit\<close> the bytes that \<^verbatim>\<open>set_len\<close> exposes.\<close>

record store_ops =
  st_encode :: "Compression \<Rightarrow> bytes \<Rightarrow> bytes \<times> store_error option"
  st_decode :: "Compression \<Rightarrow> bytes \<Rightarrow> store_error + bytes"
  st_checksum :: "bytes \<Rightarrow> 64 word"
  st_copy_buf :: nat
  st_uninit :: "nat \<Rightarrow> 8 word"

abbreviation coding :: "(coding_error + 'a) option \<Rightarrow> (store_error + 'a) option" where
  "coding r \<equiv> map_option (map_sum Coding id) r"

definition decompress :: "store_ops \<Rightarrow> Compression \<Rightarrow> bytes \<Rightarrow> store_error + bytes" where
  "decompress ops c bs = (case c of CompressionNone \<Rightarrow> Inr bs | _ \<Rightarrow> st_decode ops c bs)"

definition read_entry :: "('k, 'kc) coder \<Rightarrow> ('v, 'vc) coder \<Rightarrow> store_ops \<Rightarrow> bytes \<Rightarrow> (store_error + 'k \<times> 'v) option" where
  "read_entry kc vc ops buf = do {
     header \<leftarrow> eh_read buf;
     (case header of Inl e \<Rightarrow> Some (Inl e) | Inr h \<Rightarrow> do {
        compressed \<leftarrow> slice buf eh_serialized_len (eh_serialized_len + unat (eh_value_len h));
        let offset = eh_serialized_len + unat (eh_value_len h);
        (case decompress ops (eh_compression h) compressed of Inl e \<Rightarrow> Some (Inl e) | Inr decompressed \<Rightarrow> do {
           value \<leftarrow> coding (cd_read vc decompressed);
           (case value of Inl e \<Rightarrow> Some (Inl e) | Inr v \<Rightarrow> do {
              kslice \<leftarrow> slice buf offset (offset + unat (eh_key_len h));
              key \<leftarrow> coding (cd_read kc kslice);
              (case key of Inl e \<Rightarrow> Some (Inl e) | Inr k \<Rightarrow> do {
                 payload \<leftarrow> slice buf eh_serialized_len (offset + unat (eh_key_len h));
                 if st_checksum ops payload \<noteq> eh_checksum h then Some (Inl ChecksumMismatch) else Some (Inr (k, v))
              })
           })
        })
     })
   }"

section \<open>Round trips\<close>

lemma compression_round_trip:
  "compression_try_from_u8 (compression_to_u8 c) = Inr c" "compression_try_from_str (compression_to_str c) = Inr c"
  "compression_try_from_u8 (u8_from_compression c) = Inr c" "compression_try_from_string (str_from_compression c) = Inr c"
  by (cases c; simp add: compression_try_from_u8_def compression_try_from_str_def compression_try_from_string_def)+

lemma buf_get_word:
  fixes w :: "'a::len word"
  assumes "LENGTH('a) = 8 * n"
  shows "buf_get n (to_be_bytes w @ rest) = Some (unat w, rest)"
proof -
  have "(256 :: nat) ^ n = 2 ^ LENGTH('a)" by (simp add: assms power_mult)
  moreover have "unat w < 2 ^ LENGTH('a)" by simp
  ultimately show ?thesis by (simp add: to_be_bytes_def assms)
qed

lemma region_header_round_trip:
  assumes "length buf \<ge> 16"
  obtains bs where "region_header_write \<lparr>rh_magic = REGION_MAGIC, rh_version = version_latest\<rparr> buf = Some bs"
    "length bs = length buf" "region_header_read (bs @ rest) = Some (Inr \<lparr>rh_magic = REGION_MAGIC, rh_version = version_latest\<rparr>)"
proof -
  let ?h = "to_be_bytes REGION_MAGIC @ to_be_bytes (version_to_u64 version_latest)"
  have "region_header_read (?h @ drop 16 buf @ rest) = Some (Inr \<lparr>rh_magic = REGION_MAGIC, rh_version = version_latest\<rparr>)"
    by (simp add: region_header_read_def buf_get_word version_latest_def version_try_from_def)
  then show thesis
    using assms that [of "?h @ drop 16 buf"] by (simp add: region_header_write_def overwrite_def)
qed

lemma magic_word:
  "(ENTRY_MAGIC OR ucast (compression_to_u8 c)) AND ENTRY_MAGIC_MASK = ENTRY_MAGIC"
  "(ucast (ENTRY_MAGIC OR ucast (compression_to_u8 c) :: 32 word) :: 8 word) = compression_to_u8 c"
  by (cases c; simp add: ENTRY_MAGIC_def ENTRY_MAGIC_MASK_def)+

lemma length_eh_bytes [simp]: "length (eh_bytes h) = 28"
  by (simp add: eh_bytes_def)

lemma eh_round_trip: "eh_read (eh_bytes h @ rest) = Some (Inr h)"
  by (simp add: eh_read_def eh_bytes_def buf_get_word magic_word compression_round_trip)

lemma slice_append:
  "a = length xs \<Longrightarrow> b = length xs + length ys \<Longrightarrow> slice (xs @ ys @ zs) a b = Some ys"
  by (simp add: slice_def)

text \<open>The bytes of an entry: header, value, key and whatever follows.\<close>

lemma read_entry_round_trip:
  assumes v: "decompress ops c vb = Inr vd" "cd_read vc vd = Some (Inr v)" and k: "cd_read kc kb = Some (Inr k)"
    and len: "length vb < 2 ^ 32" "length kb < 2 ^ 32"
  shows "read_entry kc vc ops (eh_bytes \<lparr>eh_key_len = word_of_nat (length kb), eh_value_len = word_of_nat (length vb),
      eh_sequence = sq, eh_checksum = st_checksum ops (vb @ kb), eh_compression = c\<rparr> @ vb @ kb @ rest) = Some (Inr (k, v))"
proof -
  let ?h = "\<lparr>eh_key_len = word_of_nat (length kb), eh_value_len = word_of_nat (length vb),
      eh_sequence = sq, eh_checksum = st_checksum ops (vb @ kb), eh_compression = c\<rparr>"
  have n: "unat (word_of_nat (length vb) :: 32 word) = length vb" "unat (word_of_nat (length kb) :: 32 word) = length kb"
    using len by (simp_all add: unat_of_nat)
  have s: "slice (eh_bytes ?h @ vb @ kb @ rest) 28 (28 + length vb) = Some vb"
    "slice (eh_bytes ?h @ vb @ kb @ rest) (28 + length vb) (28 + length vb + length kb) = Some kb"
    "slice (eh_bytes ?h @ vb @ kb @ rest) 28 (28 + length vb + length kb) = Some (vb @ kb)"
    using slice_append [of 28 "eh_bytes ?h" "28 + length vb" vb "kb @ rest"]
      slice_append [of "28 + length vb" "eh_bytes ?h @ vb" "28 + length vb + length kb" kb rest]
      slice_append [of 28 "eh_bytes ?h" "28 + length vb + length kb" "vb @ kb" rest] by simp_all
  show ?thesis
    using s v k by (simp add: read_entry_def eh_round_trip eh_serialized_len_def n)
qed

end
