(* ===== verification/Device.thy ===== *)
theory Device
  imports Entry_Format
begin

unbundle bit_operations_syntax

text \<open>
  \<^verbatim>\<open>foyer-storage/src/device/mod.rs\<close> and \<^verbatim>\<open>device/fs.rs\<close>: the trait \<^verbatim>\<open>Device\<close> is the record \<open>device_ops\<close> over
  the state \<open>'d\<close> of the device, \<open>device_load\<close> is the loop of \<^verbatim>\<open>DeviceExt::load\<close>, and \<open>fs_ops\<close> the device on files.
  The system calls (\<^verbatim>\<open>mkdir\<close>, \<^verbatim>\<open>open\<close>, \<^verbatim>\<open>pread\<close>, \<^verbatim>\<open>pwrite\<close>) are a record \<open>file_ops\<close> whose documented behaviour
  is the locale \<open>posix_files\<close>: a write may be short, and says so. The lemma \<open>fs_device\<close> shows that a file system
  device that opens is then a \<open>device\<close>: what was written is what later reads of the region see, and a write
  changes no other region.
\<close>

section \<open>Definitions\<close>

record 'd device_ops =
  dv_write :: "'d \<Rightarrow> bytes \<Rightarrow> nat \<Rightarrow> usize \<Rightarrow> ((store_error + usize) \<times> 'd) option"
  dv_read :: "'d \<Rightarrow> usize \<Rightarrow> nat \<Rightarrow> usize \<Rightarrow> (store_error + bytes) option"
  dv_capacity :: usize
  dv_regions :: usize
  dv_align :: usize
  dv_io_size :: usize

definition dv_region_size :: "'d device_ops \<Rightarrow> usize option" where
  "dv_region_size dev = do {
     ensure (dv_regions dev \<noteq> 0);
     ensure (dv_capacity dev mod dv_regions dev = 0);
     Some (dv_capacity dev div dv_regions dev)
   }"

partial_function (option) load_loop :: "'d device_ops \<Rightarrow> 'd \<Rightarrow> nat \<Rightarrow> usize \<Rightarrow> usize \<Rightarrow> bytes \<Rightarrow> (store_error + bytes) option" where
  "load_loop dev d region start sz buf =
     (if length buf < sz then do {
        let len = min (dv_io_size dev) (sz - length buf);
        res \<leftarrow> dv_read dev d len region (start + length buf);
        (case res of
           Inl e \<Rightarrow> Some (Inl e)
         | Inr chunk \<Rightarrow> if length chunk \<noteq> len then Some (Inr (buf @ chunk))
             else load_loop dev d region start sz (buf @ chunk))
      } else Some (Inr buf))"

declare load_loop.simps [code]

definition device_load :: "'d device_ops \<Rightarrow> 'd \<Rightarrow> nat \<Rightarrow> RangeBounds \<Rightarrow> (store_error + bytes) option" where
  "device_load dev d region rng = do {
     region_size \<leftarrow> dv_region_size dev;
     (start, end) \<leftarrow> range_bounds rng (0, region_size);
     sz \<leftarrow> usub end start;
     mask \<leftarrow> usub (dv_align dev) 1;
     ensure (sz AND mask = 0);
     load_loop dev d region start sz []
   }"

text \<open>The device on files.\<close>

record FsDeviceConfig =
  fs_capacity :: usize
  fs_file_capacity :: usize
  fs_align :: usize
  fs_io_size :: usize

definition fs_verify :: "FsDeviceConfig \<Rightarrow> unit option" where
  "fs_verify config = do {
     ensure (fs_align config \<noteq> 0 \<and> fs_align config AND (fs_align config - 1) = 0);
     ensure (fs_align config \<noteq> 0 \<and> fs_file_capacity config mod fs_align config = 0);
     ensure (fs_file_capacity config \<noteq> 0 \<and> fs_capacity config mod fs_file_capacity config = 0)
   }"

record 'w file_ops =
  f_create_dir :: "'w \<Rightarrow> store_error option \<times> 'w"
  f_open :: "'w \<Rightarrow> nat \<Rightarrow> store_error option \<times> 'w"
  f_pwrite :: "'w \<Rightarrow> nat \<Rightarrow> bytes \<Rightarrow> usize \<Rightarrow> (store_error + usize) \<times> 'w"
  f_pread :: "'w \<Rightarrow> nat \<Rightarrow> usize \<Rightarrow> usize \<Rightarrow> store_error + bytes"

definition fs_write :: "'w file_ops \<Rightarrow> FsDeviceConfig \<Rightarrow> 'w \<Rightarrow> bytes \<Rightarrow> nat \<Rightarrow> usize \<Rightarrow> ((store_error + usize) \<times> 'w) option" where
  "fs_write fo config w buf region offset = do {
     end \<leftarrow> uadd offset (length buf);
     ensure (end \<le> fs_file_capacity config);
     ensure (region < fs_capacity config div fs_file_capacity config);
     Some (f_pwrite fo w region buf offset)
   }"

definition fs_read :: "'w file_ops \<Rightarrow> FsDeviceConfig \<Rightarrow> 'w \<Rightarrow> usize \<Rightarrow> nat \<Rightarrow> usize \<Rightarrow> (store_error + bytes) option" where
  "fs_read fo config w len region offset = do {
     end \<leftarrow> uadd offset len;
     ensure (end \<le> fs_file_capacity config);
     ensure (region < fs_capacity config div fs_file_capacity config);
     Some (f_pread fo w region len offset)
   }"

definition fs_ops :: "'w file_ops \<Rightarrow> FsDeviceConfig \<Rightarrow> 'w device_ops" where
  "fs_ops fo config = \<lparr>dv_write = fs_write fo config, dv_read = fs_read fo config, dv_capacity = fs_capacity config,
     dv_regions = fs_capacity config div fs_file_capacity config, dv_align = fs_align config, dv_io_size = fs_io_size config\<rparr>"

text \<open>The files of the regions are opened in order; the first error ends it.\<close>

fun open_files :: "'w file_ops \<Rightarrow> 'w \<Rightarrow> nat list \<Rightarrow> store_error option \<times> 'w" where
  "open_files fo w [] = (None, w)"
| "open_files fo w (i # is) = (case f_open fo w i of
       (Some e, w') \<Rightarrow> (Some e, w')
     | (None, w') \<Rightarrow> open_files fo w' is)"

definition fs_open :: "'w file_ops \<Rightarrow> FsDeviceConfig \<Rightarrow> 'w \<Rightarrow> ((store_error + 'w device_ops) \<times> 'w) option" where
  "fs_open fo config w = do {
     fs_verify config;
     Some (case f_create_dir fo w of
         (Some e, w1) \<Rightarrow> (Inl e, w1)
       | (None, w1) \<Rightarrow> (case open_files fo w1 [0..<fs_capacity config div fs_file_capacity config] of
             (Some e, w2) \<Rightarrow> (Inl e, w2)
           | (None, w2) \<Rightarrow> (Inr (fs_ops fo config), w2)))
   }"

section \<open>Bytes at an offset\<close>

definition write_at :: "bytes \<Rightarrow> nat \<Rightarrow> bytes \<Rightarrow> bytes" where
  "write_at old off bs = take off (old @ replicate (off - length old) 0) @ bs @ drop (off + length bs) old"

definition read_at :: "bytes \<Rightarrow> nat \<Rightarrow> nat \<Rightarrow> bytes" where
  "read_at bs off len = take len (drop off bs)"

lemma length_write_at: "length (write_at old off bs) = max (length old) (off + length bs)"
  by (auto simp: write_at_def)

lemma read_write_same: "read_at (write_at old off bs) off (length bs) = bs"
  by (simp add: read_at_def write_at_def)

lemma read_write_part:
  assumes "off \<le> a" "a + n \<le> off + length bs"
  shows "read_at (write_at old off bs) a n = read_at bs (a - off) n"
proof -
  have l: "length (take off (old @ replicate (off - length old) 0)) = off" by simp
  have "drop a (write_at old off bs) = drop (a - off) bs @ drop (a - off - length bs) (drop (off + length bs) old)"
    unfolding write_at_def drop_append l using assms by simp
  with assms show ?thesis by (simp add: read_at_def)
qed

lemma read_write_before:
  assumes "a + n \<le> off" "a + n \<le> length old"
  shows "read_at (write_at old off bs) a n = read_at old a n"
proof -
  have "take (a + n) (write_at old off bs) = take (a + n) old" using assms by (simp add: write_at_def min_def)
  then have "drop a (take (a + n) (write_at old off bs)) = drop a (take (a + n) old)" by simp
  then show ?thesis by (simp add: read_at_def drop_take)
qed

lemma read_at_split: "read_at bs a (m + n) = read_at bs a m @ read_at bs (a + m) n"
  by (simp add: read_at_def take_add add.commute)

lemma length_read_at [simp]: "length (read_at bs a n) = min n (length bs - a)"
  by (simp add: read_at_def)

lemma read_at_of_read_at: "a + m \<le> n \<Longrightarrow> read_at (read_at bs off n) a m = read_at bs (off + a) m"
  by (simp add: read_at_def drop_take add.commute)

section \<open>What the store relies on\<close>

locale device =
  fixes dev :: "'d device_ops"
    and fdata :: "'d \<Rightarrow> nat \<Rightarrow> bytes"
    and rsize :: usize
    and abits :: nat
  assumes region_size: "dv_region_size dev = Some rsize" "rsize < usize_lim" "2 ^ abits dvd rsize"
    and align: "dv_align dev = 2 ^ abits"
    and io: "0 < dv_io_size dev"
    and write_ok: "region < dv_regions dev \<Longrightarrow> offset + length buf \<le> rsize \<Longrightarrow>
      \<exists>res d'. dv_write dev d buf region offset = Some (res, d') \<and> (\<forall>r. r \<noteq> region \<longrightarrow> fdata d' r = fdata d r) \<and>
        (\<forall>n. res = Inr n \<longrightarrow> n \<le> length buf \<and> fdata d' region = write_at (fdata d region) offset (take n buf))"
    and write_fail: "dv_write dev d buf region offset = Some (Inl e, d') \<Longrightarrow> region < dv_regions dev \<Longrightarrow>
      fdata d' region = fdata d region \<or> (\<exists>bs. length bs \<le> length buf \<and> fdata d' region = write_at (fdata d region) offset bs)"
    and read_ok: "region < dv_regions dev \<Longrightarrow> offset + len \<le> rsize \<Longrightarrow>
      \<exists>res. dv_read dev d len region offset = Some res \<and>
        (\<forall>bs. res = Inr bs \<longrightarrow> bs = read_at (fdata d region) offset len)"
begin

text \<open>A load returns; when no read fails it gives the bytes of the range, as far as the file has them.\<close>

lemma load_loop_ok:
  assumes "region < dv_regions dev" "start + sz \<le> rsize" "length buf \<le> sz" "buf = read_at (fdata d region) start (length buf)"
  shows "\<exists>res. load_loop dev d region start sz buf = Some res \<and>
    (\<forall>bs. res = Inr bs \<longrightarrow> bs = read_at (fdata d region) start sz)"
  using assms
proof (induction "sz - length buf" arbitrary: buf rule: less_induct)
  case less
  show ?case
  proof (cases "length buf < sz")
    case False
    with less.prems show ?thesis by (subst load_loop.simps) simp
  next
    case True
    define len where "len = min (dv_io_size dev) (sz - length buf)"
    have len: "0 < len" "length buf + len \<le> sz" using True io by (auto simp: len_def)
    obtain res where res: "dv_read dev d len region (start + length buf) = Some res"
      "\<forall>bs. res = Inr bs \<longrightarrow> bs = read_at (fdata d region) (start + length buf) len"
      using read_ok [OF less.prems(1), of "start + length buf" len d] len less.prems(2) by auto
    show ?thesis
    proof (cases res)
      case (Inl e)
      with res True show ?thesis by (subst load_loop.simps) (simp add: len_def [symmetric])
    next
      case (Inr chunk)
      with res have chunk: "chunk = read_at (fdata d region) (start + length buf) len" by simp
      have app: "buf @ chunk = read_at (fdata d region) start (length buf + len)"
        using less.prems(4) chunk by (simp add: read_at_split)
      show ?thesis
      proof (cases "length chunk = len")
        case True': True
        have "\<exists>res. load_loop dev d region start sz (buf @ chunk) = Some res \<and>
            (\<forall>bs. res = Inr bs \<longrightarrow> bs = read_at (fdata d region) start sz)"
        proof (rule less.hyps)
          have l: "length (buf @ chunk) = length buf + len" using True' by simp
          show "sz - length (buf @ chunk) < sz - length buf" "length (buf @ chunk) \<le> sz" using l len by simp_all
          show "buf @ chunk = read_at (fdata d region) start (length (buf @ chunk))" unfolding l by (rule app)
        qed (use less.prems in simp_all)
        with res Inr True True' show ?thesis by (subst load_loop.simps) (simp add: len_def [symmetric])
      next
        case short: False
        have "length (fdata d region) < start + length buf + len" using short chunk by (auto simp: min_def split: if_splits)
        then have "read_at (fdata d region) start (length buf + len) = read_at (fdata d region) start sz"
          using len by (simp add: read_at_def)
        with app have "buf @ chunk = read_at (fdata d region) start sz" by simp
        moreover have "load_loop dev d region start sz buf = Some (Inr (buf @ chunk))"
          by (subst load_loop.simps) (use res(1) Inr True short in \<open>simp add: len_def [symmetric] del: length_read_at\<close>)
        ultimately show ?thesis by simp
      qed
    qed
  qed
qed

lemma device_load_ok:
  assumes "region < dv_regions dev" "2 ^ abits dvd b - a" "a \<le> b" "b \<le> rsize"
  shows "\<exists>res. device_load dev d region (range_of a b) = Some res \<and>
    (\<forall>bs. res = Inr bs \<longrightarrow> bs = read_at (fdata d region) a (b - a))"
proof -
  have "(b - a) AND (2 ^ abits - 1) = 0" using assms(2) and_mask_nat [of "b - a" abits] by (simp add: dvd_eq_mod_eq_0)
  then have "device_load dev d region (range_of a b) = load_loop dev d region a (b - a) []"
    using region_size align assms(3) by (simp add: device_load_def checked)
  with load_loop_ok [of region a "b - a" "[]" d] assms show ?thesis by (simp add: read_at_def)
qed

end

section \<open>Files\<close>

locale posix_files =
  fixes fo :: "'w file_ops" and fdata :: "'w \<Rightarrow> nat \<Rightarrow> bytes"
  assumes pwrite_other: "f_pwrite fo w fd bs off = (res, w') \<Longrightarrow> fd' \<noteq> fd \<Longrightarrow> fdata w' fd' = fdata w fd'"
    and pwrite_done: "f_pwrite fo w fd bs off = (Inr n, w') \<Longrightarrow>
      n \<le> length bs \<and> fdata w' fd = write_at (fdata w fd) off (take n bs)"
    and pwrite_fail: "f_pwrite fo w fd bs off = (Inl e, w') \<Longrightarrow>
      fdata w' fd = fdata w fd \<or> (\<exists>bs'. length bs' \<le> length bs \<and> fdata w' fd = write_at (fdata w fd) off bs')"
    and pread_done: "f_pread fo w fd len off = Inr bs \<Longrightarrow> bs = read_at (fdata w fd) off len"
    and create_dir_keeps: "fdata (snd (f_create_dir fo w)) = fdata w"
    and open_keeps: "fdata (snd (f_open fo w fd)) = fdata w"
begin

lemma open_files_keeps: "fdata (snd (open_files fo w is)) = fdata w"
proof (induction "is" arbitrary: w)
  case (Cons i "is")
  then show ?case using open_keeps [of w i] by (auto split: prod.split option.split)
qed simp

text \<open>Opening changes no file that is there.\<close>

lemma fs_open_keeps:
  assumes "fs_open fo config w = Some (res, w')"
  shows "fdata w' = fdata w"
proof -
  obtain e1 w1 where d: "f_create_dir fo w = (e1, w1)" by force
  obtain e2 w2 where f: "open_files fo w1 [0..<fs_capacity config div fs_file_capacity config] = (e2, w2)" by force
  have "w' = w1 \<or> w' = w2"
    using assms d f by (auto simp: fs_open_def fs_verify_def split: option.splits if_splits)
  then show ?thesis
    using create_dir_keeps [of w] open_files_keeps [of w1] d f by (metis snd_conv)
qed

lemma fs_device:
  assumes opened: "fs_open fo config w0 = Some (Inr dev, w1)" and io: "0 < fs_io_size config" and cap: "fs_file_capacity config < usize_lim"
    "0 < fs_capacity config"
  obtains k where "device dev fdata (fs_file_capacity config) k"
proof -
  have v: "fs_align config \<noteq> 0" "fs_align config AND (fs_align config - 1) = 0" "fs_file_capacity config mod fs_align config = 0"
    "fs_file_capacity config \<noteq> 0" "fs_capacity config mod fs_file_capacity config = 0" and dev: "dev = fs_ops fo config"
    using opened by (auto simp: fs_open_def fs_verify_def split: if_splits prod.splits option.splits)
  obtain k where k: "fs_align config = 2 ^ k" using and_pred_zero_iff [of "fs_align config"] v(1,2) by auto
  obtain m where m: "fs_capacity config = m * fs_file_capacity config" using v(5) by (metis div_mult_mod_eq add.right_neutral)
  have m0: "m \<noteq> 0" "fs_capacity config div fs_file_capacity config = m" using m cap(2) v(4) by auto
  have "device dev fdata (fs_file_capacity config) k"
  proof
    show "dv_region_size dev = Some (fs_file_capacity config)"
      using m m0 v(4) by (simp add: dv_region_size_def dev fs_ops_def)
    show "2 ^ k dvd fs_file_capacity config" using v(3) k by (simp add: dvd_eq_mod_eq_0)
    show "dv_align dev = 2 ^ k" "0 < dv_io_size dev" using k io by (simp_all add: dev fs_ops_def)
  next
    fix region offset and buf :: bytes and d
    assume "region < dv_regions dev" "offset + length buf \<le> fs_file_capacity config"
    then show "\<exists>res d'. dv_write dev d buf region offset = Some (res, d') \<and> (\<forall>r. r \<noteq> region \<longrightarrow> fdata d' r = fdata d r) \<and>
        (\<forall>n. res = Inr n \<longrightarrow> n \<le> length buf \<and> fdata d' region = write_at (fdata d region) offset (take n buf))"
      using cap(1) pwrite_other [of d region buf offset] pwrite_done [of d region buf offset]
      by (cases "f_pwrite fo d region buf offset") (auto simp: dev fs_ops_def fs_write_def checked)
  next
    fix region offset e d' and buf :: bytes and d
    assume "dv_write dev d buf region offset = Some (Inl e, d')"
    then show "fdata d' region = fdata d region \<or> (\<exists>bs. length bs \<le> length buf \<and> fdata d' region = write_at (fdata d region) offset bs)"
      using pwrite_fail [of d region buf offset] by (auto simp: dev fs_ops_def fs_write_def split: bind_splits if_splits prod.splits)
  next
    fix region offset len d
    assume "region < dv_regions dev" "offset + len \<le> fs_file_capacity config"
    then show "\<exists>res. dv_read dev d len region offset = Some res \<and>
        (\<forall>bs. res = Inr bs \<longrightarrow> bs = read_at (fdata d region) offset len)"
      using cap(1) pread_done [of d region len offset] by (auto simp: dev fs_ops_def fs_read_def checked)
  qed (use cap in simp)
  then show thesis by (rule that)
qed

end

text \<open>Files in memory, to run the model with.\<close>

definition mem_files :: "(nat \<Rightarrow> bytes) file_ops" where
  "mem_files = \<lparr>f_create_dir = (\<lambda>w. (None, w)), f_open = (\<lambda>w fd. (None, w)), f_pwrite = (\<lambda>w fd bs off. (Inr (length bs), w(fd := write_at (w fd) off bs))),
     f_pread = (\<lambda>w fd len off. Inr (read_at (w fd) off len))\<rparr>"

interpretation mem: posix_files mem_files "\<lambda>w. w"
  by unfold_locales (auto simp: mem_files_def)

definition demo_fs :: FsDeviceConfig where
  "demo_fs = \<lparr>fs_capacity = 1024, fs_file_capacity = 256, fs_align = 32, fs_io_size = 64\<rparr>"

interpretation demo_device: device "fs_ops mem_files demo_fs" "\<lambda>w. w" 256 5
  by unfold_locales (auto simp: fs_ops_def demo_fs_def dv_region_size_def usize_lim_def fs_write_def fs_read_def
      mem_files_def checked split: bind_splits if_splits)

end
