(* ===== verification/Flush_Buffer.thy ===== *)
theory Flush_Buffer
  imports Device
begin

text \<open>
  \<^verbatim>\<open>foyer-storage/src/buffer.rs\<close>: the buffer of a flusher. It collects the encoded entries of the region that is
  being written and hands them to the device in aligned writes. An operation returns the result of the code
  (\<open>Inl\<close> the error), the buffer and the device; \<open>None\<close> is a panic.

  The lemmas of the locale \<open>store_io\<close> show the promise of the component: whatever \<^verbatim>\<open>write\<close>, \<^verbatim>\<open>flush\<close> and
  \<^verbatim>\<open>rotate\<close> return as fully flushed can be read back from the device, at the place and with the length that
  the returned entry carries.
\<close>

section \<open>Definitions\<close>

record ('k, 'v) FlushEntry =
  fe_key :: 'k
  fe_value :: 'v
  fe_sequence :: "64 word"
  fe_compression :: Compression

record ('k, 'v) PositionedEntry =
  pe_entry :: "('k, 'v) FlushEntry"
  pe_region :: nat
  pe_offset :: usize
  pe_len :: usize

datatype ('k, 'v) BufferError = NeedRotate "('k, 'v) FlushEntry" | BufferDevice store_error | BufferOther store_error

record ('k, 'v) FlushBuffer =
  fb_buffer :: bytes
  fb_region :: "nat option"
  fb_offset :: usize
  fb_entries :: "('k, 'v) PositionedEntry list"
  fb_default_capacity :: usize

text \<open>\<^verbatim>\<open>Vec::set_len\<close>: it shortens, or exposes what was in the memory.\<close>

definition set_len :: "store_ops \<Rightarrow> bytes \<Rightarrow> nat \<Rightarrow> bytes" where
  "set_len ops buf n = take n buf @ map (st_uninit ops) [length buf..<n]"

definition fb_new :: "'d device_ops \<Rightarrow> ('k, 'v) FlushBuffer option" where
  "fb_new dev = do {
     s \<leftarrow> uadd (dv_io_size dev) (dv_io_size dev div 2);
     cap \<leftarrow> align_up (dv_align dev) s;
     Some \<lparr>fb_buffer = [], fb_region = None, fb_offset = 0, fb_entries = [], fb_default_capacity = cap\<rparr>
   }"

definition fb_remaining :: "'d device_ops \<Rightarrow> ('k, 'v) FlushBuffer \<Rightarrow> usize option" where
  "fb_remaining dev b = (case fb_region b of
       None \<Rightarrow> Some 0
     | Some _ \<Rightarrow> do {
         region_size \<leftarrow> dv_region_size dev;
         s \<leftarrow> uadd (fb_offset b) (length (fb_buffer b));
         Some (region_size - s)
       })"

definition fb_flush :: "store_ops \<Rightarrow> 'd device_ops \<Rightarrow> ('k, 'v) FlushBuffer \<Rightarrow> 'd \<Rightarrow>
    ((store_error + ('k, 'v) PositionedEntry list) \<times> ('k, 'v) FlushBuffer \<times> 'd) option" where
  "fb_flush ops dev b d = (case fb_region b of
       None \<Rightarrow> do {
         ensure (fb_entries b = []);
         Some (Inr [], b, d)
       }
     | Some region \<Rightarrow> do {
         len \<leftarrow> align_up (dv_align dev) (length (fb_buffer b));
         let buf = set_len ops (fb_buffer b) len;
         end \<leftarrow> uadd (fb_offset b) (length buf);
         region_size \<leftarrow> dv_region_size dev;
         ensure (end \<le> region_size);
         let b1 = b\<lparr>fb_buffer := []\<rparr>;
         (res, d') \<leftarrow> dv_write dev d buf region (fb_offset b);
         (case res of
            Inl e \<Rightarrow> Some (Inl e, b1, d')
          | Inr _ \<Rightarrow> do {
              offset \<leftarrow> uadd (fb_offset b) len;
              Some (Inr (fb_entries b), b1\<lparr>fb_offset := offset,
                fb_region := (if offset = region_size then None else Some region), fb_entries := []\<rparr>, d')
            })
       })"

definition fb_rotate :: "store_ops \<Rightarrow> 'd device_ops \<Rightarrow> ('k, 'v) FlushBuffer \<Rightarrow> 'd \<Rightarrow> nat \<Rightarrow>
    ((store_error + ('k, 'v) PositionedEntry list) \<times> ('k, 'v) FlushBuffer \<times> 'd) option" where
  "fb_rotate ops dev b d region = do {
     (res, b1, d1) \<leftarrow> fb_flush ops dev b d;
     (case res of
        Inl e \<Rightarrow> Some (Inl e, b1, d1)
      | Inr entries \<Rightarrow> do {
          ensure (fb_buffer b1 = []);
          buf \<leftarrow> region_header_write \<lparr>rh_magic = REGION_MAGIC, rh_version = version_latest\<rparr>
            (set_len ops (fb_buffer b1) (dv_align dev));
          ensure (length buf = dv_align dev);
          Some (Inr entries, b1\<lparr>fb_region := Some region, fb_offset := 0, fb_buffer := buf\<rparr>, d1)
        })
   }"

text \<open>The three ways to append a value to the buffer.\<close>

definition write_value :: "store_ops \<Rightarrow> ('v, 'vc) coder \<Rightarrow> Compression \<Rightarrow> 'v \<Rightarrow> bytes \<Rightarrow>
    (store_error option \<times> bytes \<times> 'vc) option" where
  "write_value ops vc compression value buf = (case compression of
       CompressionNone \<Rightarrow> do {
         (buf', c) \<leftarrow> io_copy (cd_cursor_read vc) (st_copy_buf ops) (cd_into_cursor vc value) buf;
         Some (None, buf', c)
       }
     | _ \<Rightarrow> do {
         (bs, c) \<leftarrow> io_copy (cd_cursor_read vc) (st_copy_buf ops) (cd_into_cursor vc value) [];
         (case st_encode ops compression bs of (out, err) \<Rightarrow> Some (err, buf @ out, c))
       })"

text \<open>The second half of \<^verbatim>\<open>write\<close>, once the entry is in \<open>buf\<close> after the position \<open>old\<close>.\<close>

definition fb_commit :: "store_ops \<Rightarrow> 'd device_ops \<Rightarrow> ('k, 'v) FlushEntry \<Rightarrow> nat \<Rightarrow> bytes \<Rightarrow>
    ('k, 'v) FlushBuffer \<Rightarrow> 'd \<Rightarrow>
    ((('k, 'v) BufferError + ('k, 'v) PositionedEntry list) \<times> ('k, 'v) FlushBuffer \<times> 'd) option" where
  "fb_commit ops dev entry old buf b d = do {
     end \<leftarrow> uadd (fb_offset b) (length buf);
     region_size \<leftarrow> dv_region_size dev;
     if end > region_size then Some (Inl (NeedRotate entry), b\<lparr>fb_buffer := set_len ops buf old\<rparr>, d) else do {
       target \<leftarrow> align_up (dv_align dev) (length buf);
       let buf' = set_len ops buf target;
       region \<leftarrow> fb_region b;
       offset \<leftarrow> uadd (fb_offset b) old;
       let b1 = b\<lparr>fb_buffer := buf', fb_entries := fb_entries b @
         [\<lparr>pe_entry = entry, pe_region = region, pe_offset = offset, pe_len = length buf' - old\<rparr>]\<rparr>;
       remaining \<leftarrow> fb_remaining dev b1;
       if length buf' \<ge> dv_io_size dev \<or> remaining = 0 then do {
         (res, b2, d2) \<leftarrow> fb_flush ops dev b1 d;
         Some (map_sum BufferDevice id res, b2, d2)
       } else Some (Inr [], b1, d)
     }
   }"

definition fb_write :: "store_ops \<Rightarrow> ('k, 'kc) coder \<Rightarrow> ('v, 'vc) coder \<Rightarrow> 'd device_ops \<Rightarrow> ('k, 'v) FlushEntry \<Rightarrow>
    ('k, 'v) FlushBuffer \<Rightarrow> 'd \<Rightarrow>
    ((('k, 'v) BufferError + ('k, 'v) PositionedEntry list) \<times> ('k, 'v) FlushBuffer \<times> 'd) option" where
  "fb_write ops kc vc dev entry b d =
     (if fb_region b = None then Some (Inl (NeedRotate entry), b, d) else do {
        let old = length (fb_buffer b);
        aligned \<leftarrow> is_aligned (dv_align dev) old;
        ensure aligned;
        s1 \<leftarrow> uadd eh_serialized_len (cd_serialized_len kc (fe_key entry));
        s2 \<leftarrow> uadd s1 (cd_serialized_len vc (fe_value entry));
        uncompressed \<leftarrow> align_up (dv_align dev) s2;
        reserve \<leftarrow> uadd old uncompressed;
        let buf0 = set_len ops (fb_buffer b) (old + eh_serialized_len);
        (err, buf1, vcursor) \<leftarrow> write_value ops vc (fe_compression entry) (fe_value entry) buf0;
        (case err of
           Some e \<Rightarrow> Some (Inl (BufferDevice e), b\<lparr>fb_buffer := buf1\<rparr>, d)
         | None \<Rightarrow> do {
             (buf2, kcursor) \<leftarrow> io_copy (cd_cursor_read kc) (st_copy_buf ops) (cd_into_cursor kc (fe_key entry)) buf1;
             let value_len = length buf1 - length buf0;
             let key_len = length buf2 - length buf1;
             payload \<leftarrow> slice buf2 (length buf0) (length buf0 + value_len + key_len);
             header \<leftarrow> eh_write \<lparr>eh_key_len = word_of_nat key_len, eh_value_len = word_of_nat value_len,
               eh_sequence = fe_sequence entry, eh_checksum = st_checksum ops payload,
               eh_compression = fe_compression entry\<rparr> (drop old buf2);
             fb_commit ops dev (entry\<lparr>fe_key := cd_into_inner kc kcursor, fe_value := cd_into_inner vc vcursor\<rparr>)
               old (take old buf2 @ header) b d
           })
      })"

section \<open>Entries in the buffer and on the device\<close>

definition holds :: "('k, 'kc) coder \<Rightarrow> ('v, 'vc) coder \<Rightarrow> store_ops \<Rightarrow> nat \<Rightarrow> bytes \<Rightarrow> ('k, 'v) FlushEntry \<Rightarrow> bool" where
  "holds kc vc ops al bs e \<longleftrightarrow> (\<exists>vb kb vd pad. bs = eh_bytes \<lparr>eh_key_len = word_of_nat (length kb), eh_value_len = word_of_nat (length vb),
      eh_sequence = fe_sequence e, eh_checksum = st_checksum ops (vb @ kb), eh_compression = fe_compression e\<rparr> @ vb @ kb @ pad \<and>
     decompress ops (fe_compression e) vb = Inr vd \<and> cd_read vc vd = Some (Inr (fe_value e)) \<and> cd_read kc kb = Some (Inr (fe_key e)) \<and>
     length kb = cd_serialized_len kc (fe_key e) \<and> length vb + length kb < 2 ^ 32 \<and> length pad < al)"

lemma holds_read: "holds kc vc ops al bs e \<Longrightarrow> read_entry kc vc ops bs = Some (Inr (fe_key e, fe_value e))"
  unfolding holds_def
proof (elim exE conjE)
  fix vb kb vd pad
  assume bs: "bs = eh_bytes \<lparr>eh_key_len = word_of_nat (length kb), eh_value_len = word_of_nat (length vb),
      eh_sequence = fe_sequence e, eh_checksum = st_checksum ops (vb @ kb), eh_compression = fe_compression e\<rparr> @ vb @ kb @ pad"
    and rd: "decompress ops (fe_compression e) vb = Inr vd" "cd_read vc vd = Some (Inr (fe_value e))" "cd_read kc kb = Some (Inr (fe_key e))"
    and len: "length vb + length kb < 2 ^ 32"
  show "read_entry kc vc ops bs = Some (Inr (fe_key e, fe_value e))"
    unfolding bs by (rule read_entry_round_trip [OF rd]) (use len in simp_all)
qed

text \<open>Every entry in the buffer can be read at its place.\<close>

definition fb_inv :: "('k, 'kc) coder \<Rightarrow> ('v, 'vc) coder \<Rightarrow> store_ops \<Rightarrow> 'd device_ops \<Rightarrow> ('k, 'v) FlushBuffer \<Rightarrow> bool" where
  "fb_inv kc vc ops dev b \<longleftrightarrow> (case fb_region b of
       None \<Rightarrow> fb_buffer b = [] \<and> fb_entries b = []
     | Some r \<Rightarrow> r < dv_regions dev \<and> dv_align dev dvd fb_offset b \<and> dv_align dev dvd length (fb_buffer b) \<and>
         fb_offset b + length (fb_buffer b) \<le> the (dv_region_size dev) \<and>
         (\<forall>pe \<in> set (fb_entries b). pe_region pe = r \<and> fb_offset b \<le> pe_offset pe \<and> dv_align dev dvd pe_len pe \<and>
            pe_offset pe + pe_len pe \<le> fb_offset b + length (fb_buffer b) \<and>
            holds kc vc ops (dv_align dev) (read_at (fb_buffer b) (pe_offset pe - fb_offset b) (pe_len pe)) (pe_entry pe)))"

text \<open>An entry is on the device.\<close>

definition flushed :: "('k, 'kc) coder \<Rightarrow> ('v, 'vc) coder \<Rightarrow> store_ops \<Rightarrow> nat \<Rightarrow> (nat \<Rightarrow> bytes) \<Rightarrow> ('k, 'v) PositionedEntry \<Rightarrow> bool" where
  "flushed kc vc ops al disk pe \<longleftrightarrow> pe_offset pe + pe_len pe \<le> length (disk (pe_region pe)) \<and>
     holds kc vc ops al (read_at (disk (pe_region pe)) (pe_offset pe) (pe_len pe)) (pe_entry pe)"

text \<open>The device can fail a write with this error.\<close>

definition write_fails :: "'d device_ops \<Rightarrow> 'd \<Rightarrow> store_error \<Rightarrow> bool" where
  "write_fails dev d e \<longleftrightarrow> (\<exists>buf r off d'. dv_write dev d buf r off = Some (Inl e, d'))"

text \<open>The place of an entry is one that \<^verbatim>\<open>load\<close> accepts.\<close>

definition placed :: "'d device_ops \<Rightarrow> ('k, 'v) PositionedEntry \<Rightarrow> bool" where
  "placed dev pe \<longleftrightarrow> pe_region pe < dv_regions dev \<and> dv_align dev dvd pe_len pe \<and>
     pe_offset pe + pe_len pe \<le> the (dv_region_size dev)"

text \<open>A successful write has appended the block of the entry to the buffer, and has flushed it or not.\<close>

definition appended :: "store_ops \<Rightarrow> 'd device_ops \<Rightarrow> ('k, 'v) FlushBuffer \<Rightarrow> 'd \<Rightarrow> ('k, 'v) FlushEntry \<Rightarrow> ('k, 'v) PositionedEntry \<Rightarrow>
    bytes \<Rightarrow> ('k, 'v) PositionedEntry list \<Rightarrow> ('k, 'v) FlushBuffer \<Rightarrow> 'd \<Rightarrow> bool" where
  "appended ops dev b d e pe blk es b' d' \<longleftrightarrow> fb_region b \<noteq> None \<and>
     pe = \<lparr>pe_entry = e, pe_region = the (fb_region b), pe_offset = fb_offset b + length (fb_buffer b), pe_len = length blk\<rparr> \<and>
     (let b1 = b\<lparr>fb_buffer := fb_buffer b @ blk, fb_entries := fb_entries b @ [pe]\<rparr> in
        (es = [] \<and> b' = b1 \<and> d' = d) \<or> fb_flush ops dev b1 d = Some (Inr es, b', d'))"

text \<open>Whatever the outcome, nothing before the offset of the buffer changes on the device.\<close>

definition written_behind :: "(nat \<Rightarrow> bytes) \<Rightarrow> (nat \<Rightarrow> bytes) \<Rightarrow> nat option \<Rightarrow> nat \<Rightarrow> bool" where
  "written_behind disk disk' region off \<longleftrightarrow> (\<forall>r. disk' r = disk r \<or> (region = Some r \<and> (\<exists>bs. disk' r = write_at (disk r) off bs)))"

text \<open>An operation that went well: the device has only been appended to behind the offset of the buffer, and
  the entries \<open>es\<close> that are returned are on it.\<close>

definition fb_appends :: "('k, 'kc) coder \<Rightarrow> ('v, 'vc) coder \<Rightarrow> store_ops \<Rightarrow> 'd device_ops \<Rightarrow> (nat \<Rightarrow> bytes) \<Rightarrow> (nat \<Rightarrow> bytes) \<Rightarrow>
    ('k, 'v) FlushBuffer \<Rightarrow> ('k, 'v) FlushBuffer \<Rightarrow> ('k, 'v) PositionedEntry list \<Rightarrow> bool" where
  "fb_appends kc vc ops dev disk disk' b b' es \<longleftrightarrow> fb_inv kc vc ops dev b' \<and>
     (\<forall>pe \<in> set es. flushed kc vc ops (dv_align dev) disk' pe \<and> fb_region b = Some (pe_region pe) \<and> pe_offset pe + pe_len pe \<le> fb_offset b' \<and>
        placed dev pe) \<and>
     (\<forall>r. disk' r \<noteq> disk r \<longrightarrow> fb_region b = Some r \<and> (\<exists>bs. disk' r = write_at (disk r) (fb_offset b) bs)) \<and>
     (fb_region b' = fb_region b \<or> fb_region b' = None) \<and> fb_offset b \<le> fb_offset b'"

lemma length_set_len [simp]: "length (set_len ops buf n) = n"
  by (simp add: set_len_def)

lemma set_len_ge: "length buf \<le> n \<Longrightarrow> set_len ops buf n = buf @ map (st_uninit ops) [length buf..<n]"
  by (simp add: set_len_def)

lemma set_len_le: "n \<le> length buf \<Longrightarrow> set_len ops buf n = take n buf"
  by (simp add: set_len_def)

lemma set_len_same [simp]: "set_len ops buf (length buf) = buf"
  by (simp add: set_len_def)

lemma read_at_append: "a + n \<le> length xs \<Longrightarrow> read_at (xs @ ys) a n = read_at xs a n"
  by (simp add: read_at_def)

lemma flushed_write_before:
  assumes "flushed kc vc ops (dv_align dev) disk pe" "pe_offset pe + pe_len pe \<le> off" "disk' (pe_region pe) = write_at (disk (pe_region pe)) off bs"
  shows "flushed kc vc ops (dv_align dev) disk' pe"
  using assms by (simp add: flushed_def read_write_before length_write_at)

lemma flushed_cong: "disk' (pe_region pe) = disk (pe_region pe) \<Longrightarrow> flushed kc vc ops (dv_align dev) disk' pe = flushed kc vc ops (dv_align dev) disk pe"
  by (simp add: flushed_def)

section \<open>What is flushed can be read\<close>

text \<open>Besides the device: the coders, the compression crates (what they encode they decode, and they do not
  blow it up), a device that does not accept writes in part, blocks that hold the headers, and regions whose
  offsets fit the 32 bits the code keeps them in.\<close>

locale store_io = device dev fdata rsize abits
  for dev :: "'d device_ops" and fdata :: "'d \<Rightarrow> nat \<Rightarrow> bytes" and rsize abits +
  fixes ops :: store_ops and kc :: "('k, 'kc) coder" and vc :: "('v, 'vc) coder"
  assumes kcoder: "value_coder kc" and vcoder: "value_coder vc"
    and encode: "c \<noteq> CompressionNone \<Longrightarrow> st_encode ops c bs = (out, None) \<Longrightarrow> st_decode ops c out = Inr bs"
    and encode_len: "length (fst (st_encode ops c bs)) \<le> 2 * length bs + 2 ^ 20"
    and copy_buf: "0 < st_copy_buf ops" and header_fits: "28 \<le> (2 :: nat) ^ abits" and u32: "rsize < 2 ^ 32"
    and rsize_pos: "0 < rsize"
    and full_writes: "dv_write dev d buf region offset = Some (Inr n, d') \<Longrightarrow> n = length buf"
begin

lemma align_le: "(2 :: nat) ^ abits \<le> rsize"
  using region_size(3) rsize_pos by (auto dest: dvd_imp_le)

lemma u64: "v \<le> 4 * 2 ^ 62 - 1 \<Longrightarrow> v < usize_lim"
  by (simp add: usize_lim_def)

lemma align_up_ok: "v \<le> rsize \<Longrightarrow> align_up (dv_align dev) v = Some (next_multiple (2 ^ abits) v)"
  using align_up_next [of v abits] align align_le u32 by (simp add: usize_lim_def)

lemma flush_ok:
  assumes inv: "fb_inv kc vc ops dev b"
  shows "\<exists>res b' d'. fb_flush ops dev b d = Some (res, b', d') \<and> (\<forall>r. fb_region b \<noteq> Some r \<longrightarrow> fdata d' r = fdata d r) \<and>
    (\<forall>e. res = Inl e \<longrightarrow> write_fails dev d e) \<and>
    (\<forall>es. res = Inr es \<longrightarrow> es = fb_entries b \<and> fb_inv kc vc ops dev b' \<and> fb_buffer b' = [] \<and> fb_entries b' = [] \<and>
       (fb_region b' = fb_region b \<or> fb_region b' = None) \<and>
       (fb_region b \<noteq> None \<longrightarrow> fb_offset b' = fb_offset b + length (fb_buffer b) \<and>
          fdata d' (the (fb_region b)) = write_at (fdata d (the (fb_region b))) (fb_offset b) (fb_buffer b)) \<and>
       (\<forall>pe \<in> set es. flushed kc vc ops (dv_align dev) (fdata d') pe))"
proof (cases "fb_region b")
  case None
  with inv show ?thesis by (simp add: fb_flush_def fb_inv_def)
next
  case (Some r)
  have b: "r < dv_regions dev" "2 ^ abits dvd fb_offset b" "2 ^ abits dvd length (fb_buffer b)"
    "fb_offset b + length (fb_buffer b) \<le> rsize" and
    es: "\<And>pe. pe \<in> set (fb_entries b) \<Longrightarrow> pe_region pe = r \<and> fb_offset b \<le> pe_offset pe \<and>
            pe_offset pe + pe_len pe \<le> fb_offset b + length (fb_buffer b) \<and>
            holds kc vc ops (dv_align dev) (read_at (fb_buffer b) (pe_offset pe - fb_offset b) (pe_len pe)) (pe_entry pe)"
    using inv Some align region_size(1) by (auto simp: fb_inv_def)
  obtain res d' where w: "dv_write dev d (fb_buffer b) r (fb_offset b) = Some (res, d')"
    "\<forall>r'. r' \<noteq> r \<longrightarrow> fdata d' r' = fdata d r'"
    "\<forall>n. res = Inr n \<longrightarrow> n \<le> length (fb_buffer b) \<and> fdata d' r = write_at (fdata d r) (fb_offset b) (take n (fb_buffer b))"
    using write_ok [of r "fb_offset b" "fb_buffer b" d] b by blast
  have len: "align_up (dv_align dev) (length (fb_buffer b)) = Some (length (fb_buffer b))"
    using b align_up_ok [of "length (fb_buffer b)"] by (simp add: next_multiple_self)
  have lim: "fb_offset b + length (fb_buffer b) < usize_lim" using b region_size(2) by simp
  show ?thesis
  proof (cases res)
    case (Inl e)
    then have "write_fails dev d e" using w(1) by (auto simp: write_fails_def)
    then show ?thesis
      using Inl Some w len lim b region_size(1) by (simp add: fb_flush_def checked)
  next
    case (Inr n)
    have n: "n = length (fb_buffer b)" using full_writes w(1) Inr by blast
    let ?off = "fb_offset b + length (fb_buffer b)"
    let ?b = "b\<lparr>fb_buffer := [], fb_offset := ?off, fb_region := (if ?off = rsize then None else Some r), fb_entries := []\<rparr>"
    have fl: "fb_flush ops dev b d = Some (Inr (fb_entries b), ?b, d')"
      using Some w len lim b region_size(1) Inr by (simp add: fb_flush_def checked)
    have data: "fdata d' r = write_at (fdata d r) (fb_offset b) (fb_buffer b)" using w(3) Inr n by simp
    have "flushed kc vc ops (dv_align dev) (fdata d') pe" if "pe \<in> set (fb_entries b)" for pe
      using es [OF that] data by (simp add: flushed_def read_write_part length_write_at le_max_iff_disj)
    moreover have "fb_inv kc vc ops dev ?b" using b align region_size(1) by (simp add: fb_inv_def)
    ultimately show ?thesis using fl w(2) data Some by simp
  qed
qed

lemma rotate_ok:
  assumes inv: "fb_inv kc vc ops dev b" and region: "region < dv_regions dev"
  shows "\<exists>res b' d'. fb_rotate ops dev b d region = Some (res, b', d') \<and>
    (\<forall>r. fb_region b \<noteq> Some r \<longrightarrow> fdata d' r = fdata d r) \<and> (\<forall>e. res = Inl e \<longrightarrow> write_fails dev d e) \<and>
    (\<forall>es. res = Inr es \<longrightarrow> es = fb_entries b \<and> fb_inv kc vc ops dev b' \<and> fb_region b' = Some region \<and> fb_offset b' = 0 \<and>
       fb_entries b' = [] \<and> length (fb_buffer b') = dv_align dev \<and>
       region_header_read (fb_buffer b') = Some (Inr \<lparr>rh_magic = REGION_MAGIC, rh_version = version_latest\<rparr>) \<and>
       (fb_region b \<noteq> None \<longrightarrow>
          fdata d' (the (fb_region b)) = write_at (fdata d (the (fb_region b))) (fb_offset b) (fb_buffer b)) \<and>
       (\<forall>pe \<in> set es. flushed kc vc ops (dv_align dev) (fdata d') pe))"
proof -
  obtain res b1 d1 where fl: "fb_flush ops dev b d = Some (res, b1, d1)" "\<forall>r. fb_region b \<noteq> Some r \<longrightarrow> fdata d1 r = fdata d r"
    "\<forall>e. res = Inl e \<longrightarrow> write_fails dev d e"
    and ok: "\<forall>es. res = Inr es \<longrightarrow> es = fb_entries b \<and> fb_inv kc vc ops dev b1 \<and> fb_buffer b1 = [] \<and> fb_entries b1 = [] \<and>
       (fb_region b1 = fb_region b \<or> fb_region b1 = None) \<and>
       (fb_region b \<noteq> None \<longrightarrow> fb_offset b1 = fb_offset b + length (fb_buffer b) \<and>
          fdata d1 (the (fb_region b)) = write_at (fdata d (the (fb_region b))) (fb_offset b) (fb_buffer b)) \<and>
       (\<forall>pe \<in> set es. flushed kc vc ops (dv_align dev) (fdata d1) pe)"
    using flush_ok [OF inv, of d] by (elim exE conjE)
  show ?thesis
  proof (cases res)
    case (Inl e)
    with fl show ?thesis by (simp add: fb_rotate_def)
  next
    case (Inr es)
    obtain buf where buf: "region_header_write \<lparr>rh_magic = REGION_MAGIC, rh_version = version_latest\<rparr>
        (set_len ops [] (dv_align dev)) = Some buf" "length buf = dv_align dev"
      "region_header_read (buf @ []) = Some (Inr \<lparr>rh_magic = REGION_MAGIC, rh_version = version_latest\<rparr>)"
      by (rule region_header_round_trip [of "set_len ops [] (dv_align dev)" "[]"])
        (use header_fits align in simp_all)
    let ?b = "b1\<lparr>fb_region := Some region, fb_offset := 0, fb_buffer := buf\<rparr>"
    have "fb_rotate ops dev b d region = Some (Inr es, ?b, d1)"
      using fl(1) Inr ok buf(1,2) by (simp add: fb_rotate_def)
    moreover have "fb_inv kc vc ops dev ?b"
      using ok Inr region buf(2) align align_le region_size(1) by (simp add: fb_inv_def)
    ultimately show ?thesis using fl(2) ok Inr buf(2,3) by simp
  qed
qed

lemma write_value_ok:
  assumes "cd_serialized_len vc v < 2 ^ 60"
  shows "\<exists>err vb c. write_value ops vc cm v buf = Some (err, buf @ vb, c) \<and> cd_into_inner vc c = v \<and> length vb < 2 ^ 62 \<and>
    (cm = CompressionNone \<longrightarrow> err = None \<and> length vb = cd_serialized_len vc v) \<and>
    (err = None \<longrightarrow> (\<exists>vd. decompress ops cm vb = Inr vd \<and> cd_read vc vd = Some (Inr v)))"
proof -
  have lim: "cd_serialized_len vc v < usize_lim" using assms by (simp add: usize_lim_def)
  note copy = value_coder.copy_ok [OF vcoder copy_buf lim]
  show ?thesis
  proof (cases "cm = CompressionNone")
    case True
    obtain bs c where c: "io_copy (cd_cursor_read vc) (st_copy_buf ops) (cd_into_cursor vc v) buf = Some (buf @ bs, c)"
      "length bs = cd_serialized_len vc v" "cd_read vc bs = Some (Inr v)" "cd_into_inner vc c = v"
      using copy [of buf] by auto
    have "write_value ops vc cm v buf = Some (None, buf @ bs, c)" using True c(1) by (simp add: write_value_def)
    with True c assms show ?thesis by (simp add: decompress_def)
  next
    case False
    obtain bs c where c: "io_copy (cd_cursor_read vc) (st_copy_buf ops) (cd_into_cursor vc v) [] = Some (bs, c)"
      "length bs = cd_serialized_len vc v" "cd_read vc bs = Some (Inr v)" "cd_into_inner vc c = v"
      using copy [of "[]"] by auto
    obtain out err where e: "st_encode ops cm bs = (out, err)" by force
    have "write_value ops vc cm v buf = Some (err, buf @ out, c)"
      using False c(1) e by (cases cm) (simp_all add: write_value_def)
    moreover have "length out < 2 ^ 62" using encode_len [of cm bs] e c(2) assms by simp
    moreover have "decompress ops cm out = Inr bs" if "err = None"
      using encode [OF False] e that False by (cases cm) (simp_all add: decompress_def)
    ultimately show ?thesis using c False by blast
  qed
qed

text \<open>The bytes that \<^verbatim>\<open>write\<close> appends for an entry.\<close>

lemma write_ok_bytes:
  assumes inv: "fb_inv kc vc ops dev b" and r: "fb_region b = Some r"
    and len: "cd_serialized_len kc (fe_key e) < 2 ^ 60" "cd_serialized_len vc (fe_value e) < 2 ^ 60"
  shows "(\<exists>err b'. fb_write ops kc vc dev e b d = Some (Inl (BufferDevice err), b', d) \<and> fe_compression e \<noteq> CompressionNone) \<or>
    (\<exists>eb. fb_write ops kc vc dev e b d = fb_commit ops dev e (length (fb_buffer b)) (fb_buffer b @ eb) b d \<and>
       28 \<le> length eb \<and> length eb < 2 ^ 63 \<and>
       (fe_compression e = CompressionNone \<longrightarrow> length eb = 28 + cd_serialized_len kc (fe_key e) + cd_serialized_len vc (fe_value e)) \<and>
       (length eb < 2 ^ 32 \<longrightarrow> (\<forall>rest. length rest < dv_align dev \<longrightarrow> holds kc vc ops (dv_align dev) (eb @ rest) e)))"
proof -
  let ?old = "length (fb_buffer b)"
  let ?buf0 = "set_len ops (fb_buffer b) (?old + 28)"
  have al: "2 ^ abits dvd ?old" "?old \<le> rsize" using inv r align region_size(1) by (auto simp: fb_inv_def)
  have pre: "is_aligned (dv_align dev) ?old = Some True"
    using al align is_aligned_iff [of abits ?old] by simp
  have up: "align_up (dv_align dev) (28 + cd_serialized_len kc (fe_key e) + cd_serialized_len vc (fe_value e)) =
      Some (next_multiple (2 ^ abits) (28 + cd_serialized_len kc (fe_key e) + cd_serialized_len vc (fe_value e)))" (is "_ = Some ?up")
    using align_up_next [of "28 + cd_serialized_len kc (fe_key e) + cd_serialized_len vc (fe_value e)" abits] align align_le u32 len
    by (simp add: usize_lim_def)
  have up_le: "?up < 28 + cd_serialized_len kc (fe_key e) + cd_serialized_len vc (fe_value e) + 2 ^ abits"
    using next_multiple_props(3) [of "2 ^ abits"] by simp
  have lims: "28 + cd_serialized_len kc (fe_key e) < usize_lim"
    "28 + cd_serialized_len kc (fe_key e) + cd_serialized_len vc (fe_value e) < usize_lim" "?old + ?up < usize_lim"
    using up_le len al(2) align_le u32 by (simp_all add: usize_lim_def)
  obtain err vb c where v: "write_value ops vc (fe_compression e) (fe_value e) ?buf0 = Some (err, ?buf0 @ vb, c)"
    "cd_into_inner vc c = fe_value e" "length vb < 2 ^ 62"
    "fe_compression e = CompressionNone \<longrightarrow> err = None \<and> length vb = cd_serialized_len vc (fe_value e)"
    "err = None \<longrightarrow> (\<exists>vd. decompress ops (fe_compression e) vb = Inr vd \<and> cd_read vc vd = Some (Inr (fe_value e)))"
    using write_value_ok [OF len(2), of "fe_compression e" ?buf0] by (elim exE conjE)
  have klim: "cd_serialized_len kc (fe_key e) < usize_lim" using len(1) by (simp add: usize_lim_def)
  obtain kb c' where k: "io_copy (cd_cursor_read kc) (st_copy_buf ops) (cd_into_cursor kc (fe_key e)) (?buf0 @ vb) = Some (?buf0 @ vb @ kb, c')"
    "cd_into_inner kc c' = fe_key e" "length kb = cd_serialized_len kc (fe_key e)" "cd_read kc kb = Some (Inr (fe_key e))"
    using value_coder.copy_ok [OF kcoder copy_buf klim, of "?buf0 @ vb"] by auto
  note step = r pre up lims eh_serialized_len_def v(1) k(1) checked
  show ?thesis
  proof (cases err)
    case (Some e')
    then have "fb_write ops kc vc dev e b d = Some (Inl (BufferDevice e'), b\<lparr>fb_buffer := ?buf0 @ vb\<rparr>, d)"
      by (simp add: fb_write_def step)
    moreover have "fe_compression e \<noteq> CompressionNone" using Some v(4) by auto
    ultimately show ?thesis by blast
  next
    case None
    let ?h = "\<lparr>eh_key_len = word_of_nat (length kb), eh_value_len = word_of_nat (length vb),
      eh_sequence = fe_sequence e, eh_checksum = st_checksum ops (vb @ kb), eh_compression = fe_compression e\<rparr>"
    let ?eb = "eh_bytes ?h @ vb @ kb"
    have sl: "slice (?buf0 @ vb @ kb) (?old + 28) (?old + 28 + length vb + length kb) = Some (vb @ kb)"
      using slice_append [of "?old + 28" ?buf0 "?old + 28 + length vb + length kb" "vb @ kb" "[]"] by simp
    have dr: "eh_write ?h (drop ?old (?buf0 @ vb @ kb)) = Some ?eb"
      by (simp add: eh_write_def overwrite_def set_len_ge)
    have tk: "take ?old (?buf0 @ vb @ kb) = fb_buffer b" by (simp add: set_len_ge)
    have upd: "e\<lparr>fe_key := cd_into_inner kc c', fe_value := cd_into_inner vc c\<rparr> = e" using v(2) k(2) by simp
    have "fb_write ops kc vc dev e b d = fb_commit ops dev e ?old (fb_buffer b @ ?eb) b d"
      using None sl dr tk upd by (simp add: fb_write_def step)
    moreover have "length ?eb < 2 ^ 63" using v(3) k(3) len(1) by simp
    moreover have "holds kc vc ops (dv_align dev) (?eb @ rest) e" if "length ?eb < 2 ^ 32" "length rest < dv_align dev" for rest
    proof -
      obtain vd where vd: "decompress ops (fe_compression e) vb = Inr vd" "cd_read vc vd = Some (Inr (fe_value e))" using v(5) None by blast
      show ?thesis unfolding holds_def
        by (rule exI [of _ vb], rule exI [of _ kb], rule exI [of _ vd], rule exI [of _ rest]) (use vd k(3,4) that in simp)
    qed
    moreover have "28 \<le> length ?eb" by simp
    moreover have "length ?eb = 28 + cd_serialized_len kc (fe_key e) + cd_serialized_len vc (fe_value e)"
      if "fe_compression e = CompressionNone" using v(4) k(3) that by simp
    ultimately show ?thesis by (intro disjI2 exI [of _ ?eb] conjI allI impI)
  qed
qed

lemma flush_appends:
  assumes inv: "fb_inv kc vc ops dev b"
  shows "\<exists>res b' d'. fb_flush ops dev b d = Some (res, b', d') \<and> (\<forall>r. fb_region b \<noteq> Some r \<longrightarrow> fdata d' r = fdata d r) \<and>
    (\<forall>e. res = Inl e \<longrightarrow> write_fails dev d e) \<and>
    (\<forall>es. res = Inr es \<longrightarrow> es = fb_entries b \<and> fb_entries b' = [] \<and> fb_appends kc vc ops dev (fdata d) (fdata d') b b' es)"
proof -
  obtain res b' d' where fl: "fb_flush ops dev b d = Some (res, b', d')" "\<forall>r. fb_region b \<noteq> Some r \<longrightarrow> fdata d' r = fdata d r"
    "\<forall>e. res = Inl e \<longrightarrow> write_fails dev d e"
    and ok: "\<forall>es. res = Inr es \<longrightarrow> es = fb_entries b \<and> fb_inv kc vc ops dev b' \<and> fb_buffer b' = [] \<and> fb_entries b' = [] \<and>
       (fb_region b' = fb_region b \<or> fb_region b' = None) \<and>
       (fb_region b \<noteq> None \<longrightarrow> fb_offset b' = fb_offset b + length (fb_buffer b) \<and>
          fdata d' (the (fb_region b)) = write_at (fdata d (the (fb_region b))) (fb_offset b) (fb_buffer b)) \<and>
       (\<forall>pe \<in> set es. flushed kc vc ops (dv_align dev) (fdata d') pe)"
    using flush_ok [OF inv, of d] by (elim exE conjE)
  have "fb_appends kc vc ops dev (fdata d) (fdata d') b b' es" if "res = Inr es" for es
  proof (cases "fb_region b")
    case None
    then have "b' = b" "es = []" using fl(1) that inv by (auto simp: fb_flush_def fb_inv_def)
    with None fl(2) inv show ?thesis by (simp add: fb_appends_def)
  next
    case (Some r)
    have "pe_region pe = r \<and> pe_offset pe + pe_len pe \<le> fb_offset b + length (fb_buffer b) \<and> placed dev pe"
      if "pe \<in> set (fb_entries b)" for pe
      using inv Some that by (auto simp: fb_inv_def placed_def)
    moreover have "\<forall>x. fdata d' x \<noteq> fdata d x \<longrightarrow> r = x \<and> (\<exists>bs. fdata d' x = write_at (fdata d x) (fb_offset b) bs)"
    proof (intro allI impI)
      fix x assume "fdata d' x \<noteq> fdata d x"
      then have "x = r" using fl(2) Some by auto
      then show "r = x \<and> (\<exists>bs. fdata d' x = write_at (fdata d x) (fb_offset b) bs)" using ok that Some by auto
    qed
    ultimately show ?thesis using ok that Some by (simp add: fb_appends_def)
  qed
  with fl ok show ?thesis by blast
qed

lemma commit_ok:
  assumes inv: "fb_inv kc vc ops dev b" and r: "fb_region b = Some r"
    and eb: "28 \<le> length eb" "length eb < 2 ^ 63" "length eb < 2 ^ 32 \<longrightarrow> (\<forall>rest. length rest < dv_align dev \<longrightarrow> holds kc vc ops (dv_align dev) (eb @ rest) e)"
  shows "\<exists>res b' d'. fb_commit ops dev e (length (fb_buffer b)) (fb_buffer b @ eb) b d = Some (res, b', d') \<and>
    (\<forall>r. fb_region b \<noteq> Some r \<longrightarrow> fdata d' r = fdata d r) \<and> (\<forall>x. res \<noteq> Inl (BufferOther x)) \<and>
    (\<forall>x. res = Inl (BufferDevice x) \<longrightarrow> write_fails dev d x) \<and>
    (\<forall>e'. res = Inl (NeedRotate e') \<longrightarrow> e' = e \<and> b' = b \<and> d' = d \<and> rsize < fb_offset b + length (fb_buffer b) + length eb) \<and>
    (\<forall>es. res = Inr es \<longrightarrow> fb_appends kc vc ops dev (fdata d) (fdata d') b b' es \<and>
       (\<exists>pe blk. pe_entry pe = e \<and> es @ fb_entries b' = fb_entries b @ [pe] \<and> appended ops dev b d e pe blk es b' d' \<and>
          holds kc vc ops (dv_align dev) blk e \<and>
          fb_inv kc vc ops dev (b\<lparr>fb_buffer := fb_buffer b @ blk, fb_entries := fb_entries b @ [pe]\<rparr>)))"
proof -
  let ?old = "length (fb_buffer b)" and ?buf = "fb_buffer b @ eb"
  have b: "r < dv_regions dev" "2 ^ abits dvd fb_offset b" "2 ^ abits dvd ?old" "fb_offset b + ?old \<le> rsize"
    using inv r align region_size(1) by (auto simp: fb_inv_def)
  have lim: "fb_offset b + length ?buf < usize_lim" using b(4) eb(2) u32 by (simp add: usize_lim_def)
  show ?thesis
  proof (cases "fb_offset b + length ?buf > rsize")
    case True
    then have "fb_commit ops dev e ?old ?buf b d = Some (Inl (NeedRotate e), b, d)"
      using lim region_size(1) by (simp add: fb_commit_def checked set_len_le)
    then show ?thesis using True by simp
  next
    case False
    let ?t = "next_multiple (2 ^ abits) (length ?buf)"
    let ?buf' = "set_len ops ?buf ?t"
    let ?pe = "\<lparr>pe_entry = e, pe_region = r, pe_offset = fb_offset b + ?old, pe_len = ?t - ?old\<rparr>"
    let ?b = "b\<lparr>fb_buffer := ?buf', fb_entries := fb_entries b @ [?pe]\<rparr>"
    have up: "align_up (dv_align dev) (length ?buf) = Some ?t" using align_up_ok [of "length ?buf"] False by simp
    note nm = next_multiple_props [of "2 ^ abits" "length ?buf"]
    have dvd: "2 ^ abits dvd rsize - fb_offset b" using region_size(3) b(2) by (rule dvd_diff_nat)
    have "length ?buf \<le> rsize - fb_offset b" using False by simp
    with dvd have "?t \<le> rsize - fb_offset b" by (intro next_multiple_props(4)) simp_all
    then have t: "length ?buf \<le> ?t" "2 ^ abits dvd ?t" "fb_offset b + ?t \<le> rsize" using nm(1,2) b(4) by simp_all
    have small: "length eb < 2 ^ 32" using False u32 by simp
    have pad: "length (map (st_uninit ops) [length ?buf..<?t]) < dv_align dev" using nm(3) t(1) align by simp
    have "read_at ?buf' ?old (?t - ?old) = eb @ map (st_uninit ops) [length ?buf..<?t]"
      using t(1) by (simp add: read_at_def set_len_ge)
    then have pe: "holds kc vc ops (dv_align dev) (read_at ?buf' ?old (?t - ?old)) e"
      using eb(3) [rule_format, OF small pad] by simp
    have keep: "read_at ?buf' a n = read_at (fb_buffer b) a n" if "a + n \<le> ?old" for a n
      using that t(1) by (simp add: set_len_ge read_at_append)
    have inv1: "fb_inv kc vc ops dev ?b"
    proof -
      have "holds kc vc ops (dv_align dev) (read_at ?buf' (pe_offset x - fb_offset b) (pe_len x)) (pe_entry x) \<and> pe_region x = r \<and> fb_offset b \<le> pe_offset x \<and>
          dv_align dev dvd pe_len x \<and> pe_offset x + pe_len x \<le> fb_offset b + ?t"
        if "x \<in> set (fb_entries b)" for x
      proof -
        have x: "holds kc vc ops (dv_align dev) (read_at (fb_buffer b) (pe_offset x - fb_offset b) (pe_len x)) (pe_entry x)" "pe_region x = r"
          "dv_align dev dvd pe_len x" "fb_offset b \<le> pe_offset x" "pe_offset x + pe_len x \<le> fb_offset b + ?old"
          using inv r that by (auto simp: fb_inv_def)
        then show ?thesis using keep [of "pe_offset x - fb_offset b" "pe_len x"] t(1) by simp
      qed
      moreover have "2 ^ abits dvd ?t - ?old" using t(2) b(3) by (rule dvd_diff_nat)
      ultimately show ?thesis using r b t pe align region_size(1) by (simp add: fb_inv_def)
    qed
    have rem: "fb_remaining dev ?b = Some (rsize - (fb_offset b + ?t))"
      using r t(3) region_size by (simp add: fb_remaining_def checked)
    let ?blk = "eb @ map (st_uninit ops) [length ?buf..<?t]"
    have blk: "?buf' = fb_buffer b @ ?blk" "length ?blk = ?t - ?old" using t(1) by (simp_all add: set_len_ge)
    have hblk: "holds kc vc ops (dv_align dev) ?blk e \<and>
        fb_inv kc vc ops dev (b\<lparr>fb_buffer := fb_buffer b @ ?blk, fb_entries := fb_entries b @ [?pe]\<rparr>)"
      using eb(3) [rule_format, OF small pad] inv1 unfolding blk(1) by simp
    have start: "fb_commit ops dev e ?old ?buf b d =
        (if ?t \<ge> dv_io_size dev \<or> rsize - (fb_offset b + ?t) = 0 then do {
           (res, b2, d2) \<leftarrow> fb_flush ops dev ?b d;
           Some (map_sum BufferDevice id res, b2, d2)
         } else Some (Inr [], ?b, d))"
      using False lim up rem r region_size b(4) by (simp add: fb_commit_def checked)
    show ?thesis
    proof (cases "?t \<ge> dv_io_size dev \<or> rsize - (fb_offset b + ?t) = 0")
      case nf: False
      have "fb_appends kc vc ops dev (fdata d) (fdata d) b ?b []" using inv1 by (simp add: fb_appends_def)
      moreover have "appended ops dev b d e ?pe ?blk [] ?b d" using r blk by (simp add: appended_def Let_def)
      ultimately show ?thesis using nf start hblk by auto
    next
      case fl: True
      obtain res b' d' where f: "fb_flush ops dev ?b d = Some (res, b', d')" "\<forall>r. fb_region ?b \<noteq> Some r \<longrightarrow> fdata d' r = fdata d r"
        "\<forall>e. res = Inl e \<longrightarrow> write_fails dev d e" "\<forall>es. res = Inr es \<longrightarrow> es = fb_entries ?b \<and> fb_entries b' = [] \<and> fb_appends kc vc ops dev (fdata d) (fdata d') ?b b' es"
        using flush_appends [OF inv1, of d] by (elim exE conjE)
      have "fb_appends kc vc ops dev (fdata d) (fdata d') b b' es" if "res = Inr es" for es
        using f(4) that by (simp add: fb_appends_def)
      moreover have "appended ops dev b d e ?pe ?blk es b' d'" if "res = Inr es" for es
        using r blk f(1) that by (simp add: appended_def Let_def)
      ultimately show ?thesis
        by (intro exI [of _ "map_sum BufferDevice id res"] exI [of _ b'] exI [of _ d']) (use f fl start hblk in \<open>cases res; auto\<close>)
    qed
  qed
qed

lemma write_appends:
  assumes inv: "fb_inv kc vc ops dev b"
    and len: "cd_serialized_len kc (fe_key e) < 2 ^ 60" "cd_serialized_len vc (fe_value e) < 2 ^ 60"
  shows "\<exists>res b' d'. fb_write ops kc vc dev e b d = Some (res, b', d') \<and>
    (\<forall>r. fb_region b \<noteq> Some r \<longrightarrow> fdata d' r = fdata d r) \<and> (\<forall>x. res \<noteq> Inl (BufferOther x)) \<and>
    (\<forall>x. res = Inl (BufferDevice x) \<longrightarrow> write_fails dev d x \<or> fe_compression e \<noteq> CompressionNone) \<and>
    (\<forall>e'. res = Inl (NeedRotate e') \<longrightarrow> e' = e \<and> b' = b \<and> d' = d \<and> (fb_region b \<noteq> None \<longrightarrow> fe_compression e = CompressionNone \<longrightarrow>
       rsize < fb_offset b + length (fb_buffer b) + 28 + cd_serialized_len kc (fe_key e) + cd_serialized_len vc (fe_value e))) \<and>
    (\<forall>es. res = Inr es \<longrightarrow> fb_appends kc vc ops dev (fdata d) (fdata d') b b' es \<and>
       (\<exists>pe blk. pe_entry pe = e \<and> es @ fb_entries b' = fb_entries b @ [pe] \<and> appended ops dev b d e pe blk es b' d' \<and>
          holds kc vc ops (dv_align dev) blk e \<and>
          fb_inv kc vc ops dev (b\<lparr>fb_buffer := fb_buffer b @ blk, fb_entries := fb_entries b @ [pe]\<rparr>)))"
proof (cases "fb_region b")
  case None
  then show ?thesis by (simp add: fb_write_def)
next
  case (Some r)
  from write_ok_bytes [OF inv Some len, of d] show ?thesis
  proof (elim disjE exE conjE)
    fix err b' assume "fb_write ops kc vc dev e b d = Some (Inl (BufferDevice err), b', d)" "fe_compression e \<noteq> CompressionNone"
    then show ?thesis by simp
  next
    fix eb assume w: "fb_write ops kc vc dev e b d = fb_commit ops dev e (length (fb_buffer b)) (fb_buffer b @ eb) b d"
      and eb: "28 \<le> length eb" "length eb < 2 ^ 63" "length eb < 2 ^ 32 \<longrightarrow> (\<forall>rest. length rest < dv_align dev \<longrightarrow> holds kc vc ops (dv_align dev) (eb @ rest) e)"
      and ln: "fe_compression e = CompressionNone \<longrightarrow> length eb = 28 + cd_serialized_len kc (fe_key e) + cd_serialized_len vc (fe_value e)"
    show ?thesis unfolding w using commit_ok [OF inv Some eb, of d] ln
      by (elim exE conjE) (simp add: add.assoc, auto)
  qed
qed

lemma flush_behind:
  assumes fl: "fb_flush ops dev b d = Some (res, b', d')" and r: "\<forall>r. fb_region b = Some r \<longrightarrow> r < dv_regions dev"
  shows "written_behind (fdata d) (fdata d') (fb_region b) (fb_offset b)"
proof (cases "fb_region b")
  case None
  with fl show ?thesis by (auto simp: fb_flush_def written_behind_def split: bind_splits if_splits)
next
  case (Some r)
  obtain buf res' where w: "dv_write dev d buf r (fb_offset b) = Some (res', d')" and len: "fb_offset b + length buf \<le> rsize"
    using fl Some region_size(1) by (auto simp: fb_flush_def Let_def uadd_def split: bind_splits if_splits sum.splits)
  have rr: "r < dv_regions dev" using assms(2) Some by blast
  have oth: "\<forall>q. q \<noteq> r \<longrightarrow> fdata d' q = fdata d q" "\<forall>n. res' = Inr n \<longrightarrow> fdata d' r = write_at (fdata d r) (fb_offset b) (take n buf)"
    using write_ok [OF rr len, of d] w by auto
  have "fdata d' r = fdata d r \<or> (\<exists>bs. fdata d' r = write_at (fdata d r) (fb_offset b) bs)"
    using oth(2) write_fail [of d buf r "fb_offset b"] w rr by (cases res') auto
  then show ?thesis using oth(1) Some by (auto simp: written_behind_def)
qed

lemma written_behind_refl [simp]: "written_behind disk disk region off"
  by (simp add: written_behind_def)

lemma commit_behind:
  assumes "fb_commit ops dev e old buf b d = Some (res, b', d')" and "\<forall>r. fb_region b = Some r \<longrightarrow> r < dv_regions dev"
  shows "written_behind (fdata d) (fdata d') (fb_region b) (fb_offset b)"
proof -
  consider "d' = d" | b1 res1 where "fb_flush ops dev b1 d = Some (res1, b', d')" "fb_region b1 = fb_region b" "fb_offset b1 = fb_offset b"
    using assms(1) by (auto simp: fb_commit_def Let_def split: bind_splits if_splits)
  then show ?thesis
  proof cases
    case 1
    then show ?thesis by simp
  next
    case 2
    then show ?thesis using flush_behind [OF 2(1)] assms(2) by simp
  qed
qed

lemma write_behind:
  assumes "fb_write ops kc vc dev e b d = Some (res, b', d')" and "\<forall>r. fb_region b = Some r \<longrightarrow> r < dv_regions dev"
  shows "written_behind (fdata d) (fdata d') (fb_region b) (fb_offset b)"
proof -
  consider "d' = d" | e' old buf where "fb_commit ops dev e' old buf b d = Some (res, b', d')"
    using assms(1) by (auto simp: fb_write_def Let_def split: bind_splits if_splits option.splits)
  then show ?thesis using commit_behind [OF _ assms(2)] by cases simp_all
qed

lemma rotate_behind:
  assumes "fb_rotate ops dev b d region = Some (res, b', d')" and "\<forall>r. fb_region b = Some r \<longrightarrow> r < dv_regions dev"
  shows "written_behind (fdata d) (fdata d') (fb_region b) (fb_offset b)"
proof -
  obtain res1 b1 where "fb_flush ops dev b d = Some (res1, b1, d')"
    using assms(1) by (auto simp: fb_rotate_def split: bind_splits sum.splits if_splits)
  then show ?thesis by (rule flush_behind [OF _ assms(2)])
qed

end

section \<open>Sequences of operations\<close>

text \<open>A flush buffer in use: a sequence of operations of which none fails, with the entries that were returned
  as flushed and whose region has not been taken again since.\<close>

inductive fb_session :: "store_ops \<Rightarrow> ('k, 'kc) coder \<Rightarrow> ('v, 'vc) coder \<Rightarrow> 'd device_ops \<Rightarrow>
    ('k, 'v) FlushBuffer \<Rightarrow> 'd \<Rightarrow> ('k, 'v) PositionedEntry list \<Rightarrow> bool"
  for ops :: store_ops and kc :: "('k, 'kc) coder" and vc :: "('v, 'vc) coder" and dev :: "'d device_ops"
where
  session_new: "fb_new dev = Some b \<Longrightarrow> fb_session ops kc vc dev b d []"
| session_write: "fb_session ops kc vc dev b d L \<Longrightarrow> cd_serialized_len kc (fe_key e) < 2 ^ 60 \<Longrightarrow>
    cd_serialized_len vc (fe_value e) < 2 ^ 60 \<Longrightarrow> fb_write ops kc vc dev e b d = Some (Inr es, b', d') \<Longrightarrow>
    fb_session ops kc vc dev b' d' (L @ es)"
| session_full: "fb_session ops kc vc dev b d L \<Longrightarrow> cd_serialized_len kc (fe_key e) < 2 ^ 60 \<Longrightarrow>
    cd_serialized_len vc (fe_value e) < 2 ^ 60 \<Longrightarrow> fb_write ops kc vc dev e b d = Some (Inl (NeedRotate e'), b', d') \<Longrightarrow>
    fb_session ops kc vc dev b' d' L"
| session_flush: "fb_session ops kc vc dev b d L \<Longrightarrow> fb_flush ops dev b d = Some (Inr es, b', d') \<Longrightarrow>
    fb_session ops kc vc dev b' d' (L @ es)"
| session_rotate: "fb_session ops kc vc dev b d L \<Longrightarrow> region < dv_regions dev \<Longrightarrow>
    fb_rotate ops dev b d region = Some (Inr es, b', d') \<Longrightarrow>
    fb_session ops kc vc dev b' d' (filter (\<lambda>pe. pe_region pe \<noteq> region) (L @ es))"

text \<open>The entries of a session: they are on the device, before the place where the buffer writes.\<close>

definition session_ok :: "('k, 'kc) coder \<Rightarrow> ('v, 'vc) coder \<Rightarrow> store_ops \<Rightarrow> 'd device_ops \<Rightarrow> (nat \<Rightarrow> bytes) \<Rightarrow>
    ('k, 'v) FlushBuffer \<Rightarrow> ('k, 'v) PositionedEntry list \<Rightarrow> bool" where
  "session_ok kc vc ops dev disk b L \<longleftrightarrow> fb_inv kc vc ops dev b \<and> (\<forall>pe \<in> set L. flushed kc vc ops (dv_align dev) disk pe \<and> placed dev pe \<and>
     (fb_region b = Some (pe_region pe) \<longrightarrow> pe_offset pe + pe_len pe \<le> fb_offset b))"

lemma session_ok_appends:
  assumes ok: "session_ok kc vc ops dev disk b L" and ap: "fb_appends kc vc ops dev disk disk' b b' es"
  shows "session_ok kc vc ops dev disk' b' (L @ es)"
proof -
  have keep: "flushed kc vc ops (dv_align dev) disk' pe \<and> placed dev pe \<and> (fb_region b' = Some (pe_region pe) \<longrightarrow> pe_offset pe + pe_len pe \<le> fb_offset b')"
    if "pe \<in> set L" for pe
  proof -
    have pe: "flushed kc vc ops (dv_align dev) disk pe" "placed dev pe" "fb_region b = Some (pe_region pe) \<longrightarrow> pe_offset pe + pe_len pe \<le> fb_offset b"
      using ok that by (auto simp: session_ok_def)
    have "flushed kc vc ops (dv_align dev) disk' pe"
    proof (cases "disk' (pe_region pe) = disk (pe_region pe)")
      case True
      show ?thesis using flushed_cong [of disk' pe disk, OF True] pe(1) by blast
    next
      case False
      then obtain bs where "fb_region b = Some (pe_region pe)" "disk' (pe_region pe) = write_at (disk (pe_region pe)) (fb_offset b) bs"
        using ap unfolding fb_appends_def by blast
      with pe show ?thesis by (intro flushed_write_before [OF pe(1)]) auto
    qed
    moreover have "fb_region b' = Some (pe_region pe) \<Longrightarrow> fb_region b = Some (pe_region pe)" "fb_offset b \<le> fb_offset b'"
      using ap unfolding fb_appends_def by (elim conjE disjE; simp)+
    ultimately show ?thesis using pe by auto
  qed
  moreover have "fb_inv kc vc ops dev b'" "\<And>pe. pe \<in> set es \<Longrightarrow> flushed kc vc ops (dv_align dev) disk' pe \<and> placed dev pe \<and> pe_offset pe + pe_len pe \<le> fb_offset b'"
    using ap by (simp_all add: fb_appends_def)
  ultimately show ?thesis by (simp add: session_ok_def ball_Un)
qed

context store_io
begin

lemma new_ok:
  assumes "fb_new dev = Some b"
  shows "fb_inv kc vc ops dev b"
  using assms by (auto simp: fb_new_def fb_inv_def split: bind_splits)

lemma session_inv:
  assumes "fb_session ops kc vc dev b d L"
  shows "session_ok kc vc ops dev (fdata d) b L"
  using assms
proof (induction rule: fb_session.induct)
  case (session_new b d)
  then show ?case by (simp add: session_ok_def new_ok)
next
  case (session_write b d L e es b' d')
  have inv: "fb_inv kc vc ops dev b" using session_write.IH by (simp add: session_ok_def)
  from write_appends [OF inv session_write.hyps(2,3), of d] session_write.hyps(4)
  have "fb_appends kc vc ops dev (fdata d) (fdata d') b b' es" by auto
  with session_write.IH show ?case by (rule session_ok_appends)
next
  case (session_full b d L e e' b' d')
  have inv: "fb_inv kc vc ops dev b" using session_full.IH by (simp add: session_ok_def)
  from write_appends [OF inv session_full.hyps(2,3), of d] session_full.hyps(4) have "b' = b" "d' = d" by auto
  with session_full.IH show ?case by simp
next
  case (session_flush b d L es b' d')
  have inv: "fb_inv kc vc ops dev b" using session_flush.IH by (simp add: session_ok_def)
  from flush_appends [OF inv, of d] session_flush.hyps(2)
  have "fb_appends kc vc ops dev (fdata d) (fdata d') b b' es" by auto
  with session_flush.IH show ?case by (rule session_ok_appends)
next
  case (session_rotate b d L region es b' d')
  have inv: "fb_inv kc vc ops dev b" using session_rotate.IH by (simp add: session_ok_def)
  obtain res b1 d1 where fl: "fb_flush ops dev b d = Some (res, b1, d1)"
    "\<forall>es. res = Inr es \<longrightarrow> es = fb_entries b \<and> fb_entries b1 = [] \<and> fb_appends kc vc ops dev (fdata d) (fdata d1) b b1 es"
    using flush_appends [OF inv, of d] by (elim exE conjE)
  have rot: "fb_inv kc vc ops dev b' \<and> fb_region b' = Some region"
    using rotate_ok [OF inv session_rotate.hyps(2), of d] session_rotate.hyps(3) by auto
  have same: "res = Inr es" "d' = d1"
    using session_rotate.hyps(3) unfolding fb_rotate_def fl(1) by (cases res; auto split: bind_splits if_splits)+
  have "session_ok kc vc ops dev (fdata d') b1 (L @ es)"
    unfolding same(2) by (rule session_ok_appends [OF session_rotate.IH]) (use fl(2) same(1) in blast)
  with rot show ?case by (auto simp: session_ok_def)
qed

text \<open>Reading an entry of a session back.\<close>

lemma session_read:
  assumes "fb_session ops kc vc dev b d L" "pe \<in> set L"
  shows "\<exists>res. device_load dev d (pe_region pe) (range_of (pe_offset pe) (pe_offset pe + pe_len pe)) = Some res \<and>
    (\<forall>bs. res = Inr bs \<longrightarrow> read_entry kc vc ops bs = Some (Inr (fe_key (pe_entry pe), fe_value (pe_entry pe))))"
proof -
  have pe: "flushed kc vc ops (dv_align dev) (fdata d) pe" "placed dev pe" using session_inv [OF assms(1)] assms(2) by (auto simp: session_ok_def)
  show ?thesis
    using device_load_ok [of "pe_region pe" "pe_offset pe + pe_len pe" "pe_offset pe" d] pe align region_size(1)
    by (auto simp: flushed_def placed_def dest: holds_read)
qed

end

section \<open>A buffer on files in memory\<close>

definition demo_ops :: store_ops where
  "demo_ops = \<lparr>st_encode = (\<lambda>c bs. (bs, None)), st_decode = (\<lambda>c bs. Inr bs), st_checksum = (\<lambda>bs. word_of_nat (get_be bs)),
     st_copy_buf = 8, st_uninit = (\<lambda>i. 0)\<rparr>"

definition demo_dev :: "(nat \<Rightarrow> bytes) device_ops" where
  "demo_dev = fs_ops mem_files demo_fs"

definition demo_kc :: "(64 word, 64 word PrimitiveCursor) coder" where
  "demo_kc = prim_coder"

definition demo_entry :: "(64 word, bytes) FlushEntry" where
  "demo_entry = \<lparr>fe_key = 7, fe_value = [1, 2, 3], fe_sequence = 1, fe_compression = CompressionNone\<rparr>"

lemma demo_dev_write: "dv_write demo_dev d buf region offset = Some (res, d') \<Longrightarrow> res = Inr (length buf)"
  by (auto simp: demo_dev_def fs_ops_def fs_write_def mem_files_def split: bind_splits if_splits)

interpretation demo_store: store_io demo_dev "\<lambda>w. w" 256 5 demo_ops demo_kc vec_coder
  unfolding demo_kc_def demo_dev_def
  by unfold_locales (auto simp: demo_ops_def u64.copy_ok vec.copy_ok dest: demo_dev_write [unfolded demo_dev_def])

lemma demo_no_failure: "\<not> write_fails demo_dev d e"
  by (auto simp: write_fails_def dest: demo_dev_write)

lemma demo_len: "cd_serialized_len demo_kc (fe_key demo_entry) = 8" "cd_serialized_len vec_coder (fe_value demo_entry) = 3"
    "fe_compression demo_entry = CompressionNone"
  by (simp_all add: demo_kc_def demo_entry_def prim_coder_def prim_serialized_len_def vec_coder_def)

lemma demo_small: "cd_serialized_len demo_kc (fe_key demo_entry) < 2 ^ 60" "cd_serialized_len vec_coder (fe_value demo_entry) < 2 ^ 60"
  by (simp_all add: demo_len)

lemma demo_regions: "0 < dv_regions demo_dev"
  by (simp add: demo_dev_def fs_ops_def demo_fs_def)

text \<open>A session in which an entry has been flushed, into a region that was not used before.\<close>

lemma demo_flush:
  assumes "fb_inv demo_kc vec_coder demo_ops demo_dev b"
  obtains b' d' where "fb_flush demo_ops demo_dev b d = Some (Inr (fb_entries b), b', d')" "fb_buffer b' = []" "fb_entries b' = []"
    "fb_region b' = fb_region b \<or> fb_region b' = None" "\<forall>r. fb_region b \<noteq> Some r \<longrightarrow> d' r = d r"
    "fb_region b \<noteq> None \<longrightarrow> fb_offset b' = fb_offset b + length (fb_buffer b) \<and>
       d' (the (fb_region b)) = write_at (d (the (fb_region b))) (fb_offset b) (fb_buffer b)"
  using demo_store.flush_ok [OF assms, of d]
proof (elim exE conjE, goal_cases)
  case (1 res b' d')
  then obtain es where "res = Inr es" using demo_no_failure by (cases res) auto
  with 1 show ?case by (intro 1(1) [of b' d']) simp_all
qed

lemma demo_appended:
  assumes ap: "appended demo_ops demo_dev b1 d1 demo_entry pe blk es b2 d2"
    and inv: "fb_inv demo_kc vec_coder demo_ops demo_dev (b1\<lparr>fb_buffer := fb_buffer b1 @ blk, fb_entries := fb_entries b1 @ [pe]\<rparr>)"
    and b1: "fb_region b1 = Some 0" "fb_offset b1 = 0" "length (fb_buffer b1) = 32" "fb_entries b1 = []" "d1 0 = []"
    and inv2: "fb_inv demo_kc vec_coder demo_ops demo_dev b2"
  obtains b3 d3 where "fb_flush demo_ops demo_dev b2 d2 = Some (Inr (fb_entries b2), b3, d3)" "es @ fb_entries b2 = [pe]"
    "fb_buffer b3 = []" "fb_entries b3 = []" "length (d3 0) = 32 + pe_len pe"
proof -
  let ?b = "b1\<lparr>fb_buffer := fb_buffer b1 @ blk, fb_entries := fb_entries b1 @ [pe]\<rparr>"
  have pe: "pe_len pe = length blk" using ap by (simp add: appended_def)
  obtain b3 d3 where f: "fb_flush demo_ops demo_dev b2 d2 = Some (Inr (fb_entries b2), b3, d3)" "fb_buffer b3 = []" "fb_entries b3 = []"
    "\<forall>r. fb_region b2 \<noteq> Some r \<longrightarrow> d3 r = d2 r"
    "fb_region b2 \<noteq> None \<longrightarrow> fb_offset b3 = fb_offset b2 + length (fb_buffer b2) \<and>
       d3 (the (fb_region b2)) = write_at (d2 (the (fb_region b2))) (fb_offset b2) (fb_buffer b2)"
    by (rule demo_flush [OF inv2])
  from ap consider "es = []" "b2 = ?b" "d2 = d1" | "fb_flush demo_ops demo_dev ?b d1 = Some (Inr es, b2, d2)" by (auto simp: appended_def Let_def)
  then show thesis
  proof cases
    case 1
    then show ?thesis using f b1 pe by (intro that [of b3 d3]) (simp_all add: length_write_at)
  next
    case 2
    obtain b2' d2' where g: "fb_flush demo_ops demo_dev ?b d1 = Some (Inr (fb_entries ?b), b2', d2')" "fb_buffer b2' = []" "fb_entries b2' = []"
      "fb_region b2' = fb_region ?b \<or> fb_region b2' = None"
      "fb_region ?b \<noteq> None \<longrightarrow> fb_offset b2' = fb_offset ?b + length (fb_buffer ?b) \<and>
         d2' (the (fb_region ?b)) = write_at (d1 (the (fb_region ?b))) (fb_offset ?b) (fb_buffer ?b)"
      by (rule demo_flush [OF inv])
    have eq: "es = [pe]" "b2' = b2" "d2' = d2" using g(1) 2 b1 by simp_all
    have len: "length (d2 0) = 32 + length blk" "fb_offset b2 = 32 + length blk" using g(5) eq b1 by (simp_all add: length_write_at)
    have "length (d3 0) = 32 + length blk" using f(4,5) g(2-4) eq b1 len by (auto simp: length_write_at)
    then show ?thesis using f g eq pe by (intro that [of b3 d3]) simp_all
  qed
qed

lemma demo_session:
  obtains b d L pe where "fb_session demo_ops demo_kc vec_coder demo_dev b d L" "pe \<in> set L" "pe_entry pe = demo_entry"
    "L = [pe]" "pe_region pe = 0" "pe_offset pe = 32" "fb_buffer b = []" "fb_entries b = []" "length (d 0) = 32 + pe_len pe"
proof -
  let ?S = "fb_session demo_ops demo_kc vec_coder demo_dev"
  note inv = demo_store.session_inv [unfolded session_ok_def, THEN conjunct1]
  obtain b :: "(64 word, bytes) FlushBuffer" where b: "fb_new demo_dev = Some b" "fb_region b = None" "fb_entries b = []"
    by (simp add: fb_new_def demo_dev_def fs_ops_def demo_fs_def checked align_up_def usize_lim_def is_pow2_def assert_pow2_def unot_def)
  then have s0: "?S b (\<lambda>_. []) []" by (intro fb_session.session_new)
  obtain es b1 d1 where r: "fb_rotate demo_ops demo_dev b (\<lambda>_. []) 0 = Some (Inr es, b1, d1)" and b1: "fb_region b1 = Some 0"
      "fb_offset b1 = 0" "length (fb_buffer b1) = dv_align demo_dev" "fb_entries b1 = []" "es = []"
    using demo_store.rotate_ok [OF inv [OF s0] demo_regions, of "\<lambda>_. []"]
  proof (elim exE conjE, goal_cases)
    case (1 res b' d')
    then obtain es where "res = Inr es" using demo_no_failure by (cases res) auto
    with 1 b show ?case by (intro 1(1) [of es b' d']) simp_all
  qed
  have d1: "d1 = (\<lambda>_. [])" using r b(2) by (auto simp: fb_rotate_def fb_flush_def split: bind_splits sum.splits if_splits)
  have s1: "?S b1 d1 []" using fb_session.session_rotate [OF s0 demo_regions r] b1(5) by simp
  have al: "dv_align demo_dev = 32" by (simp add: demo_dev_def fs_ops_def demo_fs_def)
  obtain es2 b2 d2 pe blk where w: "fb_write demo_ops demo_kc vec_coder demo_dev demo_entry b1 d1 = Some (Inr es2, b2, d2)"
      "pe_entry pe = demo_entry" "appended demo_ops demo_dev b1 d1 demo_entry pe blk es2 b2 d2"
      "fb_inv demo_kc vec_coder demo_ops demo_dev (b1\<lparr>fb_buffer := fb_buffer b1 @ blk, fb_entries := fb_entries b1 @ [pe]\<rparr>)"
    using demo_store.write_appends [OF inv [OF s1] demo_small, of d1]
  proof (elim exE conjE, goal_cases)
    case (1 res b2 d2)
    obtain es2 where es2: "res = Inr es2"
    proof (cases res)
      case (Inl e)
      then show ?thesis using 1(2-) demo_no_failure b1 al by (cases e) (simp_all add: demo_len)
    qed (rule that)
    with 1 show ?case by blast
  qed
  have s2: "?S b2 d2 es2" using fb_session.session_write [OF s1 _ _ w(1)] by (simp add: demo_len)
  obtain b3 d3 where f: "fb_flush demo_ops demo_dev b2 d2 = Some (Inr (fb_entries b2), b3, d3)" "es2 @ fb_entries b2 = [pe]"
    "fb_buffer b3 = []" "fb_entries b3 = []" "length (d3 0) = 32 + pe_len pe"
    by (rule demo_appended [OF w(3,4) b1(1,2) _ b1(4) _ inv [OF s2]]) (use b1 al d1 in simp_all)
  have "?S b3 d3 [pe]" using fb_session.session_flush [OF s2 f(1)] f(2) by simp
  moreover have "pe_region pe = 0" "pe_offset pe = 32" using w(3) b1 al by (simp_all add: appended_def)
  ultimately show thesis using w(2) f by (intro that [of b3 d3 "[pe]" pe]) simp_all
qed

section \<open>Properties\<close>





end
