(* ===== verification/Region.thy ===== *)
theory Region
  imports Device
begin

text \<open>
  \<^verbatim>\<open>foyer-storage/src/region.rs\<close>: a region of the device, the views of its entries and the loading of ranges.
  The counter \<^verbatim>\<open>refs\<close> of a region is shared by all its views; \<open>counters\<close> holds the counters of all regions, and
  making, cloning and dropping a view are steps on it, with the wrap-around of \<^verbatim>\<open>fetch_add\<close> and \<^verbatim>\<open>fetch_sub\<close>.
  Loading has two steps with the read of the device between them: \<open>region_join\<close> under the lock, where a task
  becomes the one that reads or joins the waiters of the same range, and \<open>region_finish\<close>, where the result goes
  to all of them. A channel is a number, a message of the code an element of a list.
\<close>

section \<open>Definitions\<close>

record RegionView =
  rv_id :: nat
  rv_offset :: "32 word"
  rv_len :: "32 word"

type_synonym counters = "nat \<Rightarrow> usize"

definition fetch_add_1 :: "usize \<Rightarrow> usize" where
  "fetch_add_1 n = (n + 1) mod usize_lim"

definition fetch_sub_1 :: "usize \<Rightarrow> usize" where
  "fetch_sub_1 n = (n + usize_lim - 1) mod usize_lim"

record Region =
  rg_id :: nat
  rg_waits :: "usize \<times> usize \<rightharpoonup> nat list"

definition region_new :: "nat \<Rightarrow> Region" where
  "region_new rid = \<lparr>rg_id = rid, rg_waits = Map.empty\<rparr>"

definition region_view :: "Region \<Rightarrow> 32 word \<Rightarrow> 32 word \<Rightarrow> counters \<Rightarrow> RegionView \<times> counters" where
  "region_view rg offset len rf = (\<lparr>rv_id = rg_id rg, rv_offset = offset, rv_len = len\<rparr>, rf(rg_id rg := fetch_add_1 (rf (rg_id rg))))"

definition view_clone :: "RegionView \<Rightarrow> counters \<Rightarrow> RegionView \<times> counters" where
  "view_clone v rf = (v, rf(rv_id v := fetch_add_1 (rf (rv_id v))))"

definition view_drop :: "RegionView \<Rightarrow> counters \<Rightarrow> counters" where
  "view_drop v rf = rf(rv_id v := fetch_sub_1 (rf (rv_id v)))"

text \<open>Sending on a oneshot channel fails when its receiver is gone, and the code unwraps; \<open>alive\<close> says which
  receivers are there.\<close>

definition send_all :: "(nat \<Rightarrow> bool) \<Rightarrow> nat list \<Rightarrow> 'm \<Rightarrow> (nat \<times> 'm) list option" where
  "send_all alive chs m = (if list_all alive chs then Some (map (\<lambda>ch. (ch, m)) chs) else None)"

datatype load_turn = Lead | Join nat

definition region_join :: "Region \<Rightarrow> usize \<times> usize \<Rightarrow> nat \<Rightarrow> load_turn \<times> Region" where
  "region_join rg rng ch = (case rg_waits rg rng of
       None \<Rightarrow> (Lead, rg\<lparr>rg_waits := (rg_waits rg)(rng \<mapsto> [])\<rparr>)
     | Some chs \<Rightarrow> (Join ch, rg\<lparr>rg_waits := (rg_waits rg)(rng \<mapsto> chs @ [ch])\<rparr>))"

definition region_cleanup :: "(nat \<Rightarrow> bool) \<Rightarrow> Region \<Rightarrow> usize \<times> usize \<Rightarrow> ((nat \<times> (store_error + bytes)) list \<times> Region) option" where
  "region_cleanup alive rg rng = (case rg_waits rg rng of
       None \<Rightarrow> Some ([], rg)
     | Some chs \<Rightarrow> do {
         msgs \<leftarrow> send_all alive chs (Inl Cancelled);
         Some (msgs, rg\<lparr>rg_waits := (rg_waits rg)(rng := None)\<rparr>)
       })"

definition region_finish :: "(nat \<Rightarrow> bool) \<Rightarrow> Region \<Rightarrow> usize \<times> usize \<Rightarrow> store_error + bytes \<Rightarrow>
    ((store_error + bytes option) \<times> (nat \<times> (store_error + bytes)) list \<times> Region) option" where
  "region_finish alive rg rng res = (case res of
       Inl e \<Rightarrow> do {
         (msgs, rg') \<leftarrow> region_cleanup alive rg rng;
         Some (Inl e, msgs, rg')
       }
     | Inr buf \<Rightarrow>
         if length buf \<noteq> snd rng - fst rng then do {
           (msgs, rg') \<leftarrow> region_cleanup alive rg rng;
           Some (Inr None, msgs, rg')
         } else (case rg_waits rg rng of
             None \<Rightarrow> Some (Inr (Some buf), [], rg)
           | Some chs \<Rightarrow> do {
               msgs \<leftarrow> send_all alive chs (Inr buf);
               Some (Inr (Some buf), msgs, rg\<lparr>rg_waits := (rg_waits rg)(rng := None)\<rparr>)
             }))"

text \<open>What a task that joined returns for the message it gets.\<close>

definition joined_result :: "store_error + bytes \<Rightarrow> store_error + bytes option" where
  "joined_result m = (case m of Inl e \<Rightarrow> Inl e | Inr buf \<Rightarrow> Inr (Some buf))"

text \<open>\<^verbatim>\<open>load_range\<close> of a task that nobody joins: the two steps and the read between them. A task that meets a
  running load of the range waits, \<open>None\<close> here.\<close>

definition region_load_range :: "'d device_ops \<Rightarrow> Region \<Rightarrow> 'd \<Rightarrow> RangeBounds \<Rightarrow> (store_error + bytes option) option" where
  "region_load_range dev rg d rng = do {
     region_size \<leftarrow> dv_region_size dev;
     (start, end) \<leftarrow> range_bounds rng (0, region_size);
     (case region_join rg (start, end) 0 of
        (Join ch, rg') \<Rightarrow> None
      | (Lead, rg') \<Rightarrow> do {
          res \<leftarrow> device_load dev d (rg_id rg) (range_of start end);
          (r, msgs, rg'') \<leftarrow> region_finish (\<lambda>ch. True) rg' (start, end) res;
          Some r
        })
   }"

definition region_load :: "'d device_ops \<Rightarrow> Region \<Rightarrow> 'd \<Rightarrow> RegionView \<Rightarrow> counters \<Rightarrow> ((store_error + bytes option) \<times> counters) option" where
  "region_load dev rg d v rf = do {
     end \<leftarrow> uadd (unat (rv_offset v)) (unat (rv_len v));
     r \<leftarrow> region_load_range dev rg d (range_of (unat (rv_offset v)) end);
     Some (r, view_drop v rf)
   }"

section \<open>Counters\<close>

lemma fetch_sub_add: "fetch_sub_1 ((n + 1) mod usize_lim) = n mod usize_lim"
proof -
  have "(n + 1) mod usize_lim + usize_lim - 1 = (n + 1) mod usize_lim + (usize_lim - 1)" by (simp add: usize_lim_def)
  then have "fetch_sub_1 ((n + 1) mod usize_lim) = ((n + 1) + (usize_lim - 1)) mod usize_lim"
    by (simp only: fetch_sub_1_def mod_add_left_eq)
  also have "(n + 1) + (usize_lim - 1) = n + usize_lim" by (simp add: usize_lim_def)
  finally show ?thesis by simp
qed

lemma fetch_add_mod: "fetch_add_1 (n mod usize_lim) = (n + 1) mod usize_lim"
  by (simp add: fetch_add_1_def mod_Suc_eq)

section \<open>A load on its own\<close>

context device
begin

lemma load_range_ok:
  assumes "rg_id rg < dv_regions dev" "2 ^ abits dvd b - a" "a \<le> b" "b \<le> rsize" "rg_waits rg (a, b) = None"
  shows "\<exists>res. region_load_range dev rg d (range_of a b) = Some res \<and>
    (\<forall>o'. res = Inr o' \<longrightarrow> o' = (if b \<le> length (fdata d (rg_id rg)) \<or> a = b then Some (read_at (fdata d (rg_id rg)) a (b - a)) else None))"
proof -
  obtain res where res: "device_load dev d (rg_id rg) (range_of a b) = Some res"
    "\<forall>bs. res = Inr bs \<longrightarrow> bs = read_at (fdata d (rg_id rg)) a (b - a)"
    using device_load_ok [OF assms(1-4), of d] by blast
  have start: "region_load_range dev rg d (range_of a b) = do {
      (r, msgs, rg'') \<leftarrow> region_finish (\<lambda>ch. True) (rg\<lparr>rg_waits := (rg_waits rg)((a, b) \<mapsto> [])\<rparr>) (a, b) res;
      Some r }"
    using res(1) assms(5) region_size(1) by (simp add: region_load_range_def region_join_def)
  show ?thesis
  proof (cases res)
    case (Inl e)
    then show ?thesis by (simp add: start region_finish_def region_cleanup_def send_all_def)
  next
    case (Inr bs)
    then have bs: "bs = read_at (fdata d (rg_id rg)) a (b - a)" using res(2) by simp
    show ?thesis using assms(3)
      by (auto simp: start Inr region_finish_def region_cleanup_def send_all_def bs)
  qed
qed

end

section \<open>Tasks that load the same range\<close>

text \<open>Tasks on one region: the ranges that are being read, the tasks that wait (channel and range) and the
  messages that were delivered.\<close>

record load_state =
  ls_region :: Region
  ls_reading :: "(usize \<times> usize) multiset"
  ls_waiting :: "(nat \<times> (usize \<times> usize)) list"
  ls_sent :: "(nat \<times> (store_error + bytes)) list"
  ls_next :: nat

inductive load_step :: "load_state \<Rightarrow> load_state \<Rightarrow> bool" where
  step_lead: "region_join (ls_region s) rng (ls_next s) = (Lead, rg) \<Longrightarrow>
    load_step s (s\<lparr>ls_region := rg, ls_reading := add_mset rng (ls_reading s), ls_next := Suc (ls_next s)\<rparr>)"
| step_join: "region_join (ls_region s) rng (ls_next s) = (Join ch, rg) \<Longrightarrow>
    load_step s (s\<lparr>ls_region := rg, ls_waiting := ls_waiting s @ [(ch, rng)], ls_next := Suc (ls_next s)\<rparr>)"
| step_finish: "rng \<in># ls_reading s \<Longrightarrow> region_finish (\<lambda>ch. ch \<in> fst ` set (ls_waiting s)) (ls_region s) rng res = Some (r, msgs, rg) \<Longrightarrow>
    load_step s (s\<lparr>ls_region := rg, ls_reading := ls_reading s - {#rng#},
      ls_waiting := filter (\<lambda>w. fst w \<notin> fst ` set msgs) (ls_waiting s), ls_sent := ls_sent s @ msgs\<rparr>)"

definition load_init :: "nat \<Rightarrow> load_state" where
  "load_init rid = \<lparr>ls_region = region_new rid, ls_reading = {#}, ls_waiting = [], ls_sent = [], ls_next = 0\<rparr>"

inductive load_reachable :: "nat \<Rightarrow> load_state \<Rightarrow> bool" for rid where
  load_start: "load_reachable rid (load_init rid)"
| load_next: "load_reachable rid s \<Longrightarrow> load_step s s' \<Longrightarrow> load_reachable rid s'"

text \<open>The waits of the region are exactly the ranges that are being read, once each, and they hold exactly the
  channels of the tasks that wait, in order.\<close>

definition waits_ok :: "load_state \<Rightarrow> usize \<times> usize \<Rightarrow> bool" where
  "waits_ok s rng \<longleftrightarrow> (case rg_waits (ls_region s) rng of
       None \<Rightarrow> count (ls_reading s) rng = 0 \<and> (\<forall>w \<in> set (ls_waiting s). snd w \<noteq> rng)
     | Some chs \<Rightarrow> count (ls_reading s) rng = 1 \<and> chs = map fst (filter (\<lambda>w. snd w = rng) (ls_waiting s)))"

definition load_inv :: "load_state \<Rightarrow> bool" where
  "load_inv s \<longleftrightarrow> (\<forall>rng. waits_ok s rng) \<and>
     distinct (map fst (ls_waiting s)) \<and> (\<forall>w \<in> set (ls_waiting s). fst w < ls_next s)"

lemma finish_msgs:
  assumes "region_finish alive rg rng res = Some (r, msgs, rg')" "rg_waits rg rng = Some chs"
  shows "map fst msgs = chs \<and> rg' = rg\<lparr>rg_waits := (rg_waits rg)(rng := None)\<rparr> \<and>
    (\<forall>m \<in> snd ` set msgs. (case r of Inr (Some buf) \<Rightarrow> m = Inr buf | _ \<Rightarrow> m = Inl Cancelled))"
  using assms by (auto simp: region_finish_def region_cleanup_def send_all_def o_def split: sum.splits if_splits)

lemma finish_defined:
  assumes "list_all alive chs" "rg_waits rg rng = Some chs"
  shows "\<exists>r msgs rg'. region_finish alive rg rng res = Some (r, msgs, rg')"
  using assms by (auto simp: region_finish_def region_cleanup_def send_all_def split: sum.split)

lemma load_invD:
  assumes "load_inv s"
  shows "rg_waits (ls_region s) rng = None \<Longrightarrow> count (ls_reading s) rng = 0"
    "rg_waits (ls_region s) rng = None \<Longrightarrow> w \<in> set (ls_waiting s) \<Longrightarrow> snd w \<noteq> rng"
    "rg_waits (ls_region s) rng = Some chs \<Longrightarrow> count (ls_reading s) rng = 1"
    "rg_waits (ls_region s) rng = Some chs \<Longrightarrow> chs = map fst (filter (\<lambda>w. snd w = rng) (ls_waiting s))"
    "distinct (map fst (ls_waiting s))" "w \<in> set (ls_waiting s) \<Longrightarrow> fst w < ls_next s"
proof -
  have c: "waits_ok s rng" using assms unfolding load_inv_def by (elim conjE allE [of _ rng])
  show "rg_waits (ls_region s) rng = None \<Longrightarrow> count (ls_reading s) rng = 0"
    "rg_waits (ls_region s) rng = None \<Longrightarrow> w \<in> set (ls_waiting s) \<Longrightarrow> snd w \<noteq> rng"
    "rg_waits (ls_region s) rng = Some chs \<Longrightarrow> count (ls_reading s) rng = 1"
    "rg_waits (ls_region s) rng = Some chs \<Longrightarrow> chs = map fst (filter (\<lambda>w. snd w = rng) (ls_waiting s))"
    using c by (auto simp: waits_ok_def)
qed (use assms in \<open>simp_all add: load_inv_def\<close>)

lemma load_invI:
  "(\<And>rng. waits_ok s rng) \<Longrightarrow> distinct (map fst (ls_waiting s)) \<Longrightarrow> (\<And>w. w \<in> set (ls_waiting s) \<Longrightarrow> fst w < ls_next s) \<Longrightarrow> load_inv s"
  by (simp add: load_inv_def)

lemma reading_waits: "load_inv s \<Longrightarrow> rng \<in># ls_reading s \<Longrightarrow> \<exists>chs. rg_waits (ls_region s) rng = Some chs"
  using load_invD(1) [of s rng] by (cases "rg_waits (ls_region s) rng") (auto simp: count_eq_zero_iff)

text \<open>The messages of a finished read go to the tasks that wait for its range.\<close>

lemma served_waiters:
  assumes inv: "load_inv s" and chs: "rg_waits (ls_region s) rng = Some chs" and w: "w \<in> set (ls_waiting s)"
  shows "fst w \<in> set chs \<longleftrightarrow> snd w = rng"
proof
  assume "fst w \<in> set chs"
  then obtain w' where "w' \<in> set (ls_waiting s)" "snd w' = rng" "fst w' = fst w" using load_invD(4) [OF inv chs] by auto
  with w load_invD(5) [OF inv] show "snd w = rng" by (metis eq_key_imp_eq_value prod.collapse)
qed (use w load_invD(4) [OF inv chs] in auto)

lemma load_inv_finish:
  assumes inv: "load_inv s" and chs: "rg_waits (ls_region s) rng = Some chs" and msgs: "map fst msgs = chs"
  shows "load_inv (s\<lparr>ls_region := (ls_region s)\<lparr>rg_waits := (rg_waits (ls_region s))(rng := None)\<rparr>, ls_reading := ls_reading s - {#rng#},
      ls_waiting := filter (\<lambda>w. fst w \<notin> fst ` set msgs) (ls_waiting s), ls_sent := ls_sent s @ msgs\<rparr>)"
proof -
  have set: "fst ` set msgs = set chs" using msgs by (metis list.set_map)
  have flt: "filter (\<lambda>w. fst w \<notin> fst ` set msgs) (ls_waiting s) = filter (\<lambda>w. snd w \<noteq> rng) (ls_waiting s)"
    using served_waiters [OF inv chs] by (intro filter_cong) (simp_all add: set)
  have cnt: "count (ls_reading s) rng = 1" by (rule load_invD(3) [OF inv chs])
  have other: "filter (\<lambda>w. snd w = r) (filter (\<lambda>w. snd w \<noteq> rng) (ls_waiting s)) = filter (\<lambda>w. snd w = r) (ls_waiting s)"
    if "r \<noteq> rng" for r using that by (simp add: conj_commute) (rule filter_cong, auto)
  show ?thesis
  proof (rule load_invI, goal_cases)
    case (1 r)
    show ?case
    proof (cases "r = rng")
      case True
      then show ?thesis using cnt by (simp add: waits_ok_def flt)
    next
      case False
      then show ?thesis
        using load_invD(1-4) [OF inv, of r] other [OF False] by (cases "rg_waits (ls_region s) r") (auto simp: waits_ok_def flt)
    qed
  next
    case 2
    show ?case using load_invD(5) [OF inv] by (simp add: distinct_map_filter)
  qed (use load_invD(6) [OF inv] in auto)
qed

lemma load_step_inv:
  assumes "load_step s s'" and inv: "load_inv s"
  shows "load_inv s'"
  using assms(1)
proof (cases rule: load_step.cases)
  case (step_lead rng rg)
  then have "rg_waits (ls_region s) rng = None" "rg = (ls_region s)\<lparr>rg_waits := (rg_waits (ls_region s))(rng \<mapsto> [])\<rparr>"
    by (auto simp: region_join_def split: option.splits)
  note rg = this
  show ?thesis unfolding step_lead(1)
  proof (rule load_invI, goal_cases)
    case (1 r)
    show ?case using rg load_invD(1-4) [OF inv, of r]
      by (cases "rg_waits (ls_region s) r"; cases "r = rng") (auto simp: waits_ok_def filter_empty_conv)
  qed (use load_invD(5,6) [OF inv] in \<open>auto simp: less_SucI\<close>)
next
  case (step_join rng ch rg)
  then obtain chs where chs: "rg_waits (ls_region s) rng = Some chs" "ch = ls_next s"
      "rg = (ls_region s)\<lparr>rg_waits := (rg_waits (ls_region s))(rng \<mapsto> chs @ [ch])\<rparr>"
    by (auto simp: region_join_def split: option.splits)
  have "ch \<notin> fst ` set (ls_waiting s)" using load_invD(6) [OF inv] chs(2) by (metis image_iff less_irrefl)
  then have d: "distinct (map fst (ls_waiting s @ [(ch, rng)]))" using load_invD(5) [OF inv] by simp
  show ?thesis unfolding step_join(1)
  proof (rule load_invI, goal_cases)
    case (1 r)
    show ?case using chs load_invD(1-4) [OF inv, of r]
      by (cases "rg_waits (ls_region s) r"; cases "r = rng") (auto simp: waits_ok_def)
  next
    case 2
    show ?case using d by simp
  qed (use load_invD(6) [OF inv] chs(2) in \<open>auto simp: less_SucI\<close>)
next
  case (step_finish rng res r msgs rg)
  obtain chs where chs: "rg_waits (ls_region s) rng = Some chs" using reading_waits [OF inv step_finish(2)] by blast
  have m: "map fst msgs = chs \<and> rg = (ls_region s)\<lparr>rg_waits := (rg_waits (ls_region s))(rng := None)\<rparr>"
    using finish_msgs [OF step_finish(3) chs] by blast
  show ?thesis unfolding step_finish(1) using load_inv_finish [OF inv chs, of msgs] m by blast
qed

lemma load_reachable_inv: "load_reachable rid s \<Longrightarrow> load_inv s"
proof (induction rule: load_reachable.induct)
  case load_start
  then show ?case by (rule load_invI) (simp_all add: waits_ok_def load_init_def region_new_def)
next
  case (load_next s s')
  then show ?case using load_step_inv by blast
qed

section \<open>Properties\<close>



end
