(* ===== verification/Catalog.thy ===== *)
theory Catalog
  imports Region "HOL-Library.RBT"
begin

unbundle bit_operations_syntax

text \<open>
  \<^verbatim>\<open>foyer-storage/src/catalog.rs\<close>: the index of the disk cache. A \<^verbatim>\<open>BTreeMap\<close> is a red-black tree of the
  library, so that its elements come in the order of the keys; the hasher is a parameter. An item that is
  overwritten, cleared or returned carries a view of a region, so every operation also steps the counters of
  the regions.

  The lemmas show that the shards implement one map \<open>catalog_map\<close> from keys to items, that the map of a region
  knows every item that points into it (\<open>catalog_inv\<close>), so that \<^verbatim>\<open>take_region\<close> leaves no item of the region
  behind, and that the counter of a region is the number of the items that point into it plus the number of
  views outside of the catalog (\<open>counted\<close>).
\<close>

section \<open>Definitions\<close>

datatype ('k, 'v) Index = Inflight 'k 'v | RegionIx RegionView

record ('k, 'v) Item =
  it_sequence :: "64 word"
  it_index :: "('k, 'v) Index"
  it_inserted :: "nat option"

definition item_new :: "64 word \<Rightarrow> ('k, 'v) Index \<Rightarrow> ('k, 'v) Item" where
  "item_new sequence index = \<lparr>it_sequence = sequence, it_index = index, it_inserted = None\<rparr>"

definition item_consume :: "('k, 'v) Item \<Rightarrow> 64 word \<times> ('k, 'v) Index" where
  "item_consume it = (it_sequence it, it_index it)"

text \<open>Cloning and dropping an item clones and drops its view.\<close>

definition item_clone :: "('k, 'v) Item \<Rightarrow> counters \<Rightarrow> ('k, 'v) Item \<times> counters" where
  "item_clone it rf = (case it_index it of
       Inflight _ _ \<Rightarrow> (it, rf)
     | RegionIx v \<Rightarrow> (case view_clone v rf of (v', rf') \<Rightarrow> (it\<lparr>it_index := RegionIx v'\<rparr>, rf')))"

definition item_drop :: "('k, 'v) Item \<Rightarrow> counters \<Rightarrow> counters" where
  "item_drop it rf = (case it_index it of Inflight _ _ \<Rightarrow> rf | RegionIx v \<Rightarrow> view_drop v rf)"

record (overloaded) ('k::linorder, 'v) Catalog =
  ct_bits :: usize
  ct_items :: "('k, ('k, 'v) Item) rbt list"
  ct_regions :: "('k, 64 word) rbt list"

text \<open>The range \<^verbatim>\<open>0..1 << bits\<close> is one of \<^verbatim>\<open>i32\<close>: it is empty for 31 bits.\<close>

definition catalog_new :: "usize \<Rightarrow> usize \<Rightarrow> ('k::linorder, 'v) Catalog option" where
  "catalog_new regions bits = do {
     ensure (bits < 32);
     Some \<lparr>ct_bits = bits, ct_items = replicate (if bits = 31 then 0 else 2 ^ bits) RBT.empty,
       ct_regions = replicate regions RBT.empty\<rparr>
   }"

definition catalog_shard :: "('k::linorder \<Rightarrow> 64 word) \<Rightarrow> ('k, 'v) Catalog \<Rightarrow> 'k \<Rightarrow> usize option" where
  "catalog_shard hash c k = do {
     ensure (ct_bits c < 64);
     Some (unat (hash k) AND (2 ^ ct_bits c - 1))
   }"

definition catalog_insert :: "('k::linorder \<Rightarrow> 64 word) \<Rightarrow> nat \<Rightarrow> 'k \<Rightarrow> ('k, 'v) Item \<Rightarrow> ('k, 'v) Catalog \<Rightarrow> counters \<Rightarrow>
    (('k, 'v) Catalog \<times> counters) option" where
  "catalog_insert hash now k item c rf = do {
     regions \<leftarrow> (case it_index item of
         RegionIx v \<Rightarrow> do {
           t \<leftarrow> nth_opt (ct_regions c) (rv_id v);
           Some ((ct_regions c)[rv_id v := RBT.insert k (it_sequence item) t])
         }
       | Inflight _ _ \<Rightarrow> Some (ct_regions c));
     shard \<leftarrow> catalog_shard hash c k;
     t \<leftarrow> nth_opt (ct_items c) shard;
     let c' = c\<lparr>ct_regions := regions, ct_items := (ct_items c)[shard := RBT.insert k (item\<lparr>it_inserted := Some now\<rparr>) t]\<rparr>;
     (case RBT.lookup t k of
        None \<Rightarrow> Some (c', rf)
      | Some old \<Rightarrow> do {
          ensure (case it_index old of Inflight _ _ \<Rightarrow> it_inserted old \<noteq> None | RegionIx _ \<Rightarrow> True);
          Some (c', item_drop old rf)
        })
   }"

definition catalog_lookup :: "('k::linorder \<Rightarrow> 64 word) \<Rightarrow> 'k \<Rightarrow> ('k, 'v) Catalog \<Rightarrow> counters \<Rightarrow> (('k, 'v) Item option \<times> counters) option" where
  "catalog_lookup hash k c rf = do {
     shard \<leftarrow> catalog_shard hash c k;
     t \<leftarrow> nth_opt (ct_items c) shard;
     (case RBT.lookup t k of
        None \<Rightarrow> Some (None, rf)
      | Some it \<Rightarrow> (case item_clone it rf of (it', rf') \<Rightarrow> Some (Some it', rf')))
   }"

definition catalog_remove :: "('k::linorder \<Rightarrow> 64 word) \<Rightarrow> 'k \<Rightarrow> ('k, 'v) Catalog \<Rightarrow> (('k, 'v) Item option \<times> ('k, 'v) Catalog) option" where
  "catalog_remove hash k c = do {
     shard \<leftarrow> catalog_shard hash c k;
     t \<leftarrow> nth_opt (ct_items c) shard;
     let c1 = c\<lparr>ct_items := (ct_items c)[shard := RBT.delete k t]\<rparr>;
     (case RBT.lookup t k of
        None \<Rightarrow> Some (None, c1)
      | Some it \<Rightarrow> (case it_index it of
            Inflight _ _ \<Rightarrow> Some (Some it, c1)
          | RegionIx v \<Rightarrow> do {
              r \<leftarrow> nth_opt (ct_regions c) (rv_id v);
              Some (Some it, c1\<lparr>ct_regions := (ct_regions c)[rv_id v := RBT.delete k r]\<rparr>)
            }))
   }"

fun take_items :: "('k::linorder \<Rightarrow> 64 word) \<Rightarrow> ('k \<times> 64 word) list \<Rightarrow> ('k, 'v) Catalog \<Rightarrow> (('k \<times> ('k, 'v) Item) list \<times> ('k, 'v) Catalog) option" where
  "take_items hash [] c = Some ([], c)"
| "take_items hash ((k, sequence) # ks) c = do {
     shard \<leftarrow> catalog_shard hash c k;
     t \<leftarrow> nth_opt (ct_items c) shard;
     (case RBT.lookup t k of
        None \<Rightarrow> take_items hash ks c
      | Some it \<Rightarrow>
          if it_sequence it = sequence then do {
            (items, c') \<leftarrow> take_items hash ks (c\<lparr>ct_items := (ct_items c)[shard := RBT.delete k t]\<rparr>);
            Some ((k, it) # items, c')
          } else take_items hash ks c)
   }"

definition catalog_take_region :: "('k::linorder \<Rightarrow> 64 word) \<Rightarrow> nat \<Rightarrow> ('k, 'v) Catalog \<Rightarrow> (('k \<times> ('k, 'v) Item) list \<times> ('k, 'v) Catalog) option" where
  "catalog_take_region hash region c = do {
     keys \<leftarrow> nth_opt (ct_regions c) region;
     take_items hash (RBT.entries keys) (c\<lparr>ct_regions := (ct_regions c)[region := RBT.empty]\<rparr>)
   }"

definition catalog_entries :: "('k::linorder, 'v) Catalog \<Rightarrow> ('k \<times> ('k, 'v) Item) list" where
  "catalog_entries c = concat (map RBT.entries (ct_items c))"

definition catalog_clear :: "('k::linorder, 'v) Catalog \<Rightarrow> counters \<Rightarrow> ('k, 'v) Catalog \<times> counters" where
  "catalog_clear c rf =
     (c\<lparr>ct_items := map (\<lambda>_. RBT.empty) (ct_items c), ct_regions := map (\<lambda>_. RBT.empty) (ct_regions c)\<rparr>,
      fold item_drop (map snd (catalog_entries c)) rf)"

section \<open>The map of the catalog\<close>

definition key_shard :: "('k::linorder \<Rightarrow> 64 word) \<Rightarrow> ('k, 'v) Catalog \<Rightarrow> 'k \<Rightarrow> usize" where
  "key_shard hash c k = unat (hash k) AND (2 ^ ct_bits c - 1)"

definition catalog_map :: "('k::linorder \<Rightarrow> 64 word) \<Rightarrow> ('k, 'v) Catalog \<Rightarrow> ('k \<rightharpoonup> ('k, 'v) Item)" where
  "catalog_map hash c k = RBT.lookup (ct_items c ! key_shard hash c k) k"

text \<open>The sequence that the map of a region has for a key.\<close>

definition region_seq :: "('k::linorder, 'v) Catalog \<Rightarrow> nat \<Rightarrow> 'k \<rightharpoonup> 64 word" where
  "region_seq c r = RBT.lookup (ct_regions c ! r)"

definition catalog_core :: "('k::linorder \<Rightarrow> 64 word) \<Rightarrow> nat \<Rightarrow> ('k, 'v) Catalog \<Rightarrow> bool" where
  "catalog_core hash n c \<longleftrightarrow> ct_bits c < 31 \<and> length (ct_items c) = 2 ^ ct_bits c \<and> length (ct_regions c) = n \<and>
     (\<forall>s < length (ct_items c). \<forall>k it. RBT.lookup (ct_items c ! s) k = Some it \<longrightarrow> s = key_shard hash c k \<and> it_inserted it \<noteq> None)"

text \<open>Every item of a region is known to the map of the region.\<close>

definition catalog_linked :: "('k::linorder \<Rightarrow> 64 word) \<Rightarrow> nat \<Rightarrow> ('k, 'v) Catalog \<Rightarrow> bool" where
  "catalog_linked hash n c \<longleftrightarrow> (\<forall>k it v. catalog_map hash c k = Some it \<longrightarrow> it_index it = RegionIx v \<longrightarrow>
     rv_id v < n \<and> region_seq c (rv_id v) k = Some (it_sequence it))"

definition catalog_inv :: "('k::linorder \<Rightarrow> 64 word) \<Rightarrow> nat \<Rightarrow> ('k, 'v) Catalog \<Rightarrow> bool" where
  "catalog_inv hash n c \<longleftrightarrow> catalog_core hash n c \<and> catalog_linked hash n c"

lemma shard_less: "catalog_core hash n c \<Longrightarrow> key_shard hash c k < length (ct_items c)"
  using and_mask_nat [of "unat (hash k)" "ct_bits c"] by (simp add: catalog_core_def key_shard_def)

lemma catalog_shard_eq [simp]: "catalog_core hash n c \<Longrightarrow> catalog_shard hash c k = Some (key_shard hash c k)"
  by (simp add: catalog_core_def catalog_shard_def key_shard_def)

lemma key_shard_cong: "ct_bits c' = ct_bits c \<Longrightarrow> key_shard hash c' k = key_shard hash c k"
  by (simp add: key_shard_def)

lemma coreD:
  assumes "catalog_core hash n c"
  shows "ct_bits c < 31" "length (ct_items c) = 2 ^ ct_bits c" "length (ct_regions c) = n"
    "s < length (ct_items c) \<Longrightarrow> RBT.lookup (ct_items c ! s) k = Some it \<Longrightarrow> key_shard hash c k = s \<and> it_inserted it \<noteq> None"
  using assms unfolding catalog_core_def by blast+

lemma coreI:
  assumes "ct_bits c < 31" "length (ct_items c) = 2 ^ ct_bits c" "length (ct_regions c) = n"
    "\<And>s k it. s < length (ct_items c) \<Longrightarrow> RBT.lookup (ct_items c ! s) k = Some it \<Longrightarrow> key_shard hash c k = s \<and> it_inserted it \<noteq> None"
  shows "catalog_core hash n c"
  using assms unfolding catalog_core_def by blast

text \<open>Replacing the tree of the shard of one key.\<close>

lemma core_update:
  assumes core: "catalog_core hash n c" and regions: "length regions = n"
    and t: "\<And>k'. k' \<noteq> k \<Longrightarrow> RBT.lookup t k' = RBT.lookup (ct_items c ! key_shard hash c k) k'"
    and ins: "\<And>it. RBT.lookup t k = Some it \<Longrightarrow> it_inserted it \<noteq> None"
  shows "catalog_core hash n (c\<lparr>ct_items := (ct_items c)[key_shard hash c k := t], ct_regions := regions\<rparr>)"
    and "catalog_map hash (c\<lparr>ct_items := (ct_items c)[key_shard hash c k := t], ct_regions := regions\<rparr>) =
      (catalog_map hash c)(k := RBT.lookup t k)"
proof -
  let ?c = "c\<lparr>ct_items := (ct_items c)[key_shard hash c k := t], ct_regions := regions\<rparr>"
  have sh: "key_shard hash ?c k' = key_shard hash c k'" for k' by (simp add: key_shard_def)
  note less = shard_less [OF core]
  show "catalog_map hash ?c = (catalog_map hash c)(k := RBT.lookup t k)"
  proof
    fix k'
    show "catalog_map hash ?c k' = ((catalog_map hash c)(k := RBT.lookup t k)) k'"
      using t [of k'] less [of k] by (cases "key_shard hash c k' = key_shard hash c k") (auto simp: catalog_map_def sh nth_list_update)
  qed
  show "catalog_core hash n ?c"
  proof (rule coreI)
    fix s k' it assume s: "s < length (ct_items ?c)" and it: "RBT.lookup (ct_items ?c ! s) k' = Some it"
    show "key_shard hash ?c k' = s \<and> it_inserted it \<noteq> None"
    proof (cases "s = key_shard hash c k")
      case False
      then have "RBT.lookup (ct_items c ! s) k' = Some it" using it by simp
      then show ?thesis unfolding sh using s by (intro coreD(4) [OF core]) simp_all
    next
      case True
      with it less [of k] have lt: "RBT.lookup t k' = Some it" by simp
      show ?thesis
      proof (cases "k' = k")
        case True
        with \<open>s = key_shard hash c k\<close> lt ins show ?thesis unfolding sh by simp
      next
        case False
        with t lt True have "RBT.lookup (ct_items c ! s) k' = Some it" by simp
        then show ?thesis unfolding sh using s by (intro coreD(4) [OF core]) simp_all
      qed
    qed
  qed (use coreD(1-3) [OF core] regions in simp_all)
qed

lemma nth_update: "j < length xs \<Longrightarrow> xs[i := x] ! j = (if i = j then x else xs ! j)"
  by (cases "i = j") auto

lemma core_regions: "catalog_core hash n c \<Longrightarrow> length regions = n \<Longrightarrow> catalog_core hash n (c\<lparr>ct_regions := regions\<rparr>)"
  by (rule coreI) (use coreD [of hash n c] in \<open>auto simp: key_shard_def\<close>)

lemma map_regions: "catalog_map hash (c\<lparr>ct_regions := regions\<rparr>) = catalog_map hash c"
  by (rule ext) (simp add: catalog_map_def key_shard_def)

lemma finite_catalog_map: "catalog_core hash n c \<Longrightarrow> finite (dom (catalog_map hash c))"
proof (rule finite_subset)
  assume core: "catalog_core hash n c"
  show "dom (catalog_map hash c) \<subseteq> (\<Union>t \<in> set (ct_items c). dom (RBT.lookup t))"
    using nth_mem [OF shard_less [OF core]] by (force simp: catalog_map_def dom_def)
qed simp

section \<open>Views in the catalog\<close>

definition item_views :: "('k, 'v) Item \<Rightarrow> nat \<Rightarrow> nat" where
  "item_views it r = (case it_index it of RegionIx v \<Rightarrow> (if rv_id v = r then 1 else 0) | Inflight _ _ \<Rightarrow> 0)"

definition views_of :: "('k \<rightharpoonup> ('k, 'v) Item) \<Rightarrow> nat \<Rightarrow> nat" where
  "views_of m r = (\<Sum>k \<in> dom m. item_views (the (m k)) r)"

text \<open>The counters count: \<open>out r\<close> views of region \<open>r\<close> are alive outside of the catalog.\<close>

definition counted :: "('k \<rightharpoonup> ('k, 'v) Item) \<Rightarrow> (nat \<Rightarrow> nat) \<Rightarrow> counters \<Rightarrow> bool" where
  "counted m out rf \<longleftrightarrow> (\<forall>r. rf r = (views_of m r + out r) mod usize_lim)"

lemma views_of_empty [simp]: "views_of Map.empty r = 0"
  by (simp add: views_of_def)

lemma views_of_split:
  assumes "finite (dom m)"
  shows "views_of m r = views_of (m(k := None)) r + (case m k of None \<Rightarrow> 0 | Some it \<Rightarrow> item_views it r)"
proof (cases "m k")
  case None
  then show ?thesis by (simp add: fun_upd_idem)
next
  case (Some it)
  have "views_of m r = item_views it r + (\<Sum>x \<in> dom m - {k}. item_views (the (m x)) r)"
    unfolding views_of_def using assms Some by (subst sum.remove [of _ k]) auto
  also have "(\<Sum>x \<in> dom m - {k}. item_views (the (m x)) r) = views_of (m(k := None)) r"
    unfolding views_of_def by (rule sum.cong) auto
  finally show ?thesis using Some by simp
qed

lemma views_of_upd:
  assumes "finite (dom m)"
  shows "views_of (m(k \<mapsto> it)) r + (case m k of None \<Rightarrow> 0 | Some old \<Rightarrow> item_views old r) = views_of m r + item_views it r"
  using views_of_split [OF assms, of r k] views_of_split [of "m(k \<mapsto> it)" r k] assms by simp

lemma counted_drop:
  assumes "rf r = (n + item_views it r) mod usize_lim"
  shows "item_drop it rf r = n mod usize_lim"
  using assms fetch_sub_add [of n] by (cases "it_index it") (auto simp: item_drop_def item_views_def view_drop_def split: if_splits)

lemma fold_drop:
  assumes "rf r = (n + (\<Sum>it \<leftarrow> its. item_views it r)) mod usize_lim"
  shows "fold item_drop its rf r = n mod usize_lim"
  using assms
proof (induction its arbitrary: rf)
  case (Cons it its)
  have "item_drop it rf r = (n + (\<Sum>it \<leftarrow> its. item_views it r)) mod usize_lim"
    using Cons.prems by (intro counted_drop) (simp add: ac_simps)
  then show ?case using Cons.IH by simp
qed simp

lemma counted_clone:
  assumes "counted m out rf" "item_clone it rf = (it', rf')"
  shows "it' = it \<and> counted m (\<lambda>r. out r + item_views it r) rf'"
proof (cases "it_index it")
  case (Inflight k v)
  with assms show ?thesis by (simp add: item_clone_def item_views_def)
next
  case (RegionIx v)
  with assms(2) have eq: "it' = it" "rf' = rf(rv_id v := fetch_add_1 (rf (rv_id v)))"
    by (auto simp: item_clone_def view_clone_def)
  have "rf' r = (views_of m r + (out r + item_views it r)) mod usize_lim" for r
    using assms(1) RegionIx fetch_add_mod [of "views_of m r + out r"] by (auto simp: counted_def eq item_views_def)
  with eq show ?thesis by (simp add: counted_def)
qed

lemma counted_item_drop:
  assumes "counted m (\<lambda>r. out r + item_views it r) rf"
  shows "counted m out (item_drop it rf)"
  unfolding counted_def
proof
  fix r
  show "item_drop it rf r = (views_of m r + out r) mod usize_lim"
    using assms by (intro counted_drop) (simp add: counted_def ac_simps)
qed

lemma counted_insert:
  assumes fin: "finite (dom m)" and cnt: "counted m (\<lambda>r. out r + item_views it r) rf" and old: "m k = Some old"
  shows "counted (m(k \<mapsto> it)) out (item_drop old rf)"
  unfolding counted_def
proof
  fix r
  have "views_of (m(k \<mapsto> it)) r + item_views old r = views_of m r + item_views it r" using views_of_upd [OF fin, of k it r] old by simp
  with cnt show "item_drop old rf r = (views_of (m(k \<mapsto> it)) r + out r) mod usize_lim"
    unfolding counted_def by (intro counted_drop) (metis add.commute add.left_commute)
qed

lemma counted_insert_new:
  assumes fin: "finite (dom m)" and cnt: "counted m (\<lambda>r. out r + item_views it r) rf" and new: "m k = None"
  shows "counted (m(k \<mapsto> it)) out rf"
  using cnt views_of_upd [OF fin, of k it] new by (simp add: counted_def ac_simps)

lemma item_views_upd [simp]: "item_views (it\<lparr>it_inserted := i\<rparr>) = item_views it"
  by (rule ext) (simp add: item_views_def)

section \<open>The operations\<close>

lemma catalog_new_ok:
  fixes hash :: "'k::linorder \<Rightarrow> 64 word"
  assumes "bits < 31"
  shows "\<exists>c :: ('k, 'v) Catalog. catalog_new n bits = Some c \<and> catalog_inv hash n c \<and> catalog_map hash c = Map.empty"
proof -
  define c :: "('k, 'v) Catalog" where
    "c = \<lparr>ct_bits = bits, ct_items = replicate (2 ^ bits) RBT.empty, ct_regions = replicate n RBT.empty\<rparr>"
  have core: "catalog_core hash n c" by (rule coreI) (use assms in \<open>simp_all add: c_def\<close>)
  have "catalog_map hash c = Map.empty"
    using shard_less [OF core] by (intro ext) (simp add: catalog_map_def c_def)
  with core assms show ?thesis by (simp add: catalog_new_def catalog_inv_def catalog_linked_def c_def)
qed

lemma catalog_insert_ok:
  assumes inv: "catalog_inv hash n c" and view: "\<forall>v. it_index item = RegionIx v \<longrightarrow> rv_id v < n"
  shows "\<exists>c' rf'. catalog_insert hash now k item c rf = Some (c', rf') \<and> catalog_inv hash n c' \<and>
    catalog_map hash c' = (catalog_map hash c)(k \<mapsto> item\<lparr>it_inserted := Some now\<rparr>) \<and>
    (\<forall>r < n. region_seq c' r = (if item_views item r = 1 then (region_seq c r)(k \<mapsto> it_sequence item) else region_seq c r)) \<and>
    (\<forall>out. counted (catalog_map hash c) (\<lambda>r. out r + item_views item r) rf \<longrightarrow> counted (catalog_map hash c') out rf')"
proof -
  let ?it = "item\<lparr>it_inserted := Some now\<rparr>" and ?s = "key_shard hash c k"
  have core: "catalog_core hash n c" and linked: "catalog_linked hash n c" using inv by (simp_all add: catalog_inv_def)
  define regions where "regions = (case it_index item of
      RegionIx v \<Rightarrow> (ct_regions c)[rv_id v := RBT.insert k (it_sequence item) (ct_regions c ! rv_id v)] | Inflight _ _ \<Rightarrow> ct_regions c)"
  have reg: "(case it_index item of
         RegionIx v \<Rightarrow> do {
           t \<leftarrow> nth_opt (ct_regions c) (rv_id v);
           Some ((ct_regions c)[rv_id v := RBT.insert k (it_sequence item) t])
         }
       | Inflight _ _ \<Rightarrow> Some (ct_regions c)) = Some regions"
    using view coreD(3) [OF core] by (cases "it_index item") (auto simp: regions_def)
  have len: "length regions = n" using coreD(3) [OF core] by (simp add: regions_def split: Index.split)
  let ?t = "RBT.insert k ?it (ct_items c ! ?s)"
  let ?c = "c\<lparr>ct_items := (ct_items c)[?s := ?t], ct_regions := regions\<rparr>"
  have c: "catalog_core hash n ?c" "catalog_map hash ?c = (catalog_map hash c)(k \<mapsto> ?it)"
    using core_update [OF core len, of k ?t] by auto
  have seq: "region_seq ?c r = (if item_views item r = 1 then (region_seq c r)(k \<mapsto> it_sequence item) else region_seq c r)" if "r < n" for r
    using that coreD(3) [OF core]
    by (cases "it_index item") (auto simp: region_seq_def regions_def item_views_def nth_update)
  have "catalog_linked hash n ?c"
    unfolding catalog_linked_def c(2)
  proof (intro allI impI)
    fix k' it v assume it: "((catalog_map hash c)(k \<mapsto> ?it)) k' = Some it" and v: "it_index it = RegionIx v"
    show "rv_id v < n \<and> region_seq ?c (rv_id v) k' = Some (it_sequence it)"
    proof (cases "k' = k")
      case True
      with it v have "it_index item = RegionIx v" "it_sequence it = it_sequence item" by auto
      with view True show ?thesis by (simp add: seq item_views_def)
    next
      case False
      with it v linked have "rv_id v < n" "region_seq c (rv_id v) k' = Some (it_sequence it)" by (auto simp: catalog_linked_def)
      with False show ?thesis by (simp add: seq)
    qed
  qed
  with c(1) have inv': "catalog_inv hash n ?c" by (simp add: catalog_inv_def)
  have old: "RBT.lookup (ct_items c ! ?s) k = catalog_map hash c k" by (simp add: catalog_map_def)
  note fin = finite_catalog_map [OF core]
  show ?thesis
  proof (cases "catalog_map hash c k")
    case None
    have "catalog_insert hash now k item c rf = Some (?c, rf)"
      using core shard_less [OF core] None by (simp add: catalog_insert_def reg old)
    moreover have "counted (catalog_map hash ?c) out rf" if "counted (catalog_map hash c) (\<lambda>r. out r + item_views item r) rf" for out
      using counted_insert_new [OF fin, of out ?it rf k] that None c(2) by simp
    ultimately show ?thesis using inv' c(2) seq by blast
  next
    case (Some o')
    have "it_inserted o' \<noteq> None" using coreD(4) [OF core shard_less [OF core, of k], of k o'] Some old by simp
    then have "catalog_insert hash now k item c rf = Some (?c, item_drop o' rf)"
      using core shard_less [OF core] Some by (simp add: catalog_insert_def reg old split: Index.split)
    moreover have "counted (catalog_map hash ?c) out (item_drop o' rf)" if "counted (catalog_map hash c) (\<lambda>r. out r + item_views item r) rf" for out
      using counted_insert [OF fin, of out ?it rf k o'] that Some c(2) by simp
    ultimately show ?thesis using inv' c(2) seq by blast
  qed
qed

lemma catalog_lookup_ok:
  assumes inv: "catalog_inv hash n c"
  shows "\<exists>rf'. catalog_lookup hash k c rf = Some (catalog_map hash c k, rf') \<and>
    (\<forall>out. counted (catalog_map hash c) out rf \<longrightarrow>
      counted (catalog_map hash c) (\<lambda>r. out r + (case catalog_map hash c k of None \<Rightarrow> 0 | Some it \<Rightarrow> item_views it r)) rf')"
proof -
  have core: "catalog_core hash n c" using inv by (simp add: catalog_inv_def)
  have look: "RBT.lookup (ct_items c ! key_shard hash c k) k = catalog_map hash c k" by (simp add: catalog_map_def)
  show ?thesis
  proof (cases "catalog_map hash c k")
    case None
    then show ?thesis using core shard_less [OF core] by (simp add: catalog_lookup_def look)
  next
    case (Some it)
    obtain it' rf' where cl: "item_clone it rf = (it', rf')" by force
    have "it' = it" using cl by (auto simp: item_clone_def view_clone_def split: Index.splits)
    then have "catalog_lookup hash k c rf = Some (Some it, rf')" using Some core shard_less [OF core] cl by (simp add: catalog_lookup_def look)
    moreover have "counted (catalog_map hash c) (\<lambda>r. out r + item_views it r) rf'" if "counted (catalog_map hash c) out rf" for out
      using counted_clone [OF that cl] by blast
    ultimately show ?thesis using Some by simp
  qed
qed

lemma catalog_remove_ok:
  assumes inv: "catalog_inv hash n c"
  shows "\<exists>c'. catalog_remove hash k c = Some (catalog_map hash c k, c') \<and> catalog_inv hash n c' \<and>
    catalog_map hash c' = (catalog_map hash c)(k := None) \<and>
    (\<forall>r < n. \<forall>k' s. region_seq c' r k' = Some s \<longrightarrow> region_seq c r k' = Some s) \<and>
    (\<forall>rf out. counted (catalog_map hash c) out rf \<longrightarrow>
      counted (catalog_map hash c') (\<lambda>r. out r + (case catalog_map hash c k of None \<Rightarrow> 0 | Some it \<Rightarrow> item_views it r)) rf)"
proof -
  have core: "catalog_core hash n c" and linked: "catalog_linked hash n c" using inv by (simp_all add: catalog_inv_def)
  let ?s = "key_shard hash c k"
  let ?t = "RBT.delete k (ct_items c ! ?s)"
  have look: "RBT.lookup (ct_items c ! ?s) k = catalog_map hash c k" by (simp add: catalog_map_def)
  define regions where "regions = (case catalog_map hash c k of
      Some it \<Rightarrow> (case it_index it of RegionIx v \<Rightarrow> (ct_regions c)[rv_id v := RBT.delete k (ct_regions c ! rv_id v)] | Inflight _ _ \<Rightarrow> ct_regions c)
    | None \<Rightarrow> ct_regions c)"
  have len: "length regions = n" using coreD(3) [OF core] by (simp add: regions_def split: option.split Index.split)
  let ?c = "c\<lparr>ct_items := (ct_items c)[?s := ?t], ct_regions := regions\<rparr>"
  have c: "catalog_core hash n ?c" "catalog_map hash ?c = (catalog_map hash c)(k := None)"
    using core_update [OF core len, of k ?t] by auto
  have rm: "catalog_remove hash k c = Some (catalog_map hash c k, ?c)"
  proof (cases "catalog_map hash c k")
    case None
    then show ?thesis using core shard_less [OF core] by (simp add: catalog_remove_def look regions_def)
  next
    case (Some it)
    have "rv_id v < length (ct_regions c)" if "it_index it = RegionIx v" for v
      using linked Some that coreD(3) [OF core] by (auto simp: catalog_linked_def)
    then show ?thesis using Some core shard_less [OF core] by (cases "it_index it") (simp_all add: catalog_remove_def look regions_def)
  qed
  have seq: "region_seq ?c r k' = region_seq c r k'" if "r < n" "k' \<noteq> k" for r k'
    using that coreD(3) [OF core]
    by (auto simp: region_seq_def regions_def nth_update split: option.split Index.split)
  have sub: "region_seq c r k' = Some s" if "r < n" "region_seq ?c r k' = Some s" for r k' s
    using that coreD(3) [OF core]
    by (auto simp: region_seq_def regions_def nth_update split: option.splits Index.splits if_splits)
  have "catalog_linked hash n ?c"
    unfolding catalog_linked_def c(2)
  proof (intro allI impI)
    fix k' it v assume it: "((catalog_map hash c)(k := None)) k' = Some it" and v: "it_index it = RegionIx v"
    then have "k' \<noteq> k" "rv_id v < n" "region_seq c (rv_id v) k' = Some (it_sequence it)"
      using linked by (auto simp: catalog_linked_def split: if_splits)
    then show "rv_id v < n \<and> region_seq ?c (rv_id v) k' = Some (it_sequence it)" by (simp add: seq)
  qed
  with c(1) have inv': "catalog_inv hash n ?c" by (simp add: catalog_inv_def)
  have "counted (catalog_map hash ?c) (\<lambda>r. out r + (case catalog_map hash c k of None \<Rightarrow> 0 | Some it \<Rightarrow> item_views it r)) rf"
    if "counted (catalog_map hash c) out rf" for rf out
    using that views_of_split [OF finite_catalog_map [OF core], of _ k] unfolding counted_def c(2) by (simp add: ac_simps)
  then show ?thesis using rm inv' c(2) sub by blast
qed

text \<open>The loop of \<^verbatim>\<open>take_region\<close>: it takes the items whose sequence is the one that the region knows.\<close>

lemma take_items_ok:
  assumes "catalog_core hash n c" "distinct (map fst ks)"
  shows "\<exists>xs c'. take_items hash ks c = Some (xs, c') \<and> catalog_core hash n c' \<and> ct_regions c' = ct_regions c \<and>
    catalog_map hash c' = (\<lambda>k. case catalog_map hash c k of None \<Rightarrow> None | Some it \<Rightarrow> if (k, it_sequence it) \<in> set ks then None else Some it) \<and>
    (\<forall>k it. (k, it) \<in> set xs \<longleftrightarrow> catalog_map hash c k = Some it \<and> (k, it_sequence it) \<in> set ks) \<and>
    (\<forall>r. views_of (catalog_map hash c) r = views_of (catalog_map hash c') r + (\<Sum>x \<leftarrow> xs. item_views (snd x) r))"
  using assms
proof (induction ks arbitrary: c)
  case Nil
  then show ?case by (simp add: option.case_eq_if) (auto simp: fun_eq_iff split: option.split)
next
  case (Cons p ks)
  obtain k sq where p: "p = (k, sq)" by force
  let ?m = "catalog_map hash c" and ?s = "key_shard hash c k"
  have dist: "distinct (map fst ks)" using Cons.prems(2) by simp
  have notin: "(k, x) \<notin> set ks" for x using Cons.prems(2) p by force
  have look: "RBT.lookup (ct_items c ! ?s) k = ?m k" by (simp add: catalog_map_def)
  note less = shard_less [OF Cons.prems(1)]
  show ?case
  proof (cases "\<exists>it. ?m k = Some it \<and> it_sequence it = sq")
    case False
    have step: "take_items hash (p # ks) c = take_items hash ks c"
      using False Cons.prems(1) less by (auto simp: p look split: option.split)
    have eq: "(case ?m k' of None \<Rightarrow> None | Some it \<Rightarrow> if (k', it_sequence it) \<in> set (p # ks) then None else Some it) =
        (case ?m k' of None \<Rightarrow> None | Some it \<Rightarrow> if (k', it_sequence it) \<in> set ks then None else Some it)" for k'
      using False p by (auto split: option.split)
    have eq': "?m k' = Some it \<and> (k', it_sequence it) \<in> set (p # ks) \<longleftrightarrow> ?m k' = Some it \<and> (k', it_sequence it) \<in> set ks" for k' it
      using False p by auto
    show ?thesis unfolding step eq eq' using Cons by simp
  next
    case True
    then obtain it where it: "?m k = Some it" "it_sequence it = sq" by blast
    let ?c = "c\<lparr>ct_items := (ct_items c)[?s := RBT.delete k (ct_items c ! ?s)], ct_regions := ct_regions c\<rparr>"
    have c: "catalog_core hash n ?c" "catalog_map hash ?c = ?m(k := None)"
      using core_update [OF Cons.prems(1) coreD(3) [OF Cons.prems(1)], of k "RBT.delete k (ct_items c ! ?s)"] by auto
    obtain xs c' where r: "take_items hash ks ?c = Some (xs, c')" "catalog_core hash n c'" "ct_regions c' = ct_regions ?c"
      "catalog_map hash c' = (\<lambda>x. case catalog_map hash ?c x of None \<Rightarrow> None | Some it \<Rightarrow> if (x, it_sequence it) \<in> set ks then None else Some it)"
      "\<forall>x it. (x, it) \<in> set xs \<longleftrightarrow> catalog_map hash ?c x = Some it \<and> (x, it_sequence it) \<in> set ks"
      "\<forall>r. views_of (catalog_map hash ?c) r = views_of (catalog_map hash c') r + (\<Sum>x \<leftarrow> xs. item_views (snd x) r)"
      using Cons.IH [OF c(1) dist] by (elim exE conjE)
    have step: "take_items hash (p # ks) c = Some ((k, it) # xs, c')"
      using it r(1) Cons.prems(1) less by (simp add: p look)
    have map: "catalog_map hash c' = (\<lambda>x. case ?m x of None \<Rightarrow> None | Some it \<Rightarrow> if (x, it_sequence it) \<in> set (p # ks) then None else Some it)"
      unfolding r(4) c(2) using it p notin by (intro ext) (auto split: option.split)
    have mem: "(x, i) \<in> set ((k, it) # xs) \<longleftrightarrow> ?m x = Some i \<and> (x, it_sequence i) \<in> set (p # ks)" for x i
      using r(5) c(2) it p notin by auto
    have views: "views_of ?m r = views_of (catalog_map hash c') r + (\<Sum>x \<leftarrow> (k, it) # xs. item_views (snd x) r)" for r
      using views_of_split [OF finite_catalog_map [OF Cons.prems(1)], of r k] it r(6) c(2) by simp
    show ?thesis using step r(2,3) map mem views by simp
  qed
qed

lemma catalog_take_region_ok:
  assumes inv: "catalog_inv hash n c" and r: "r < n"
  shows "\<exists>xs c'. catalog_take_region hash r c = Some (xs, c') \<and> catalog_inv hash n c' \<and>
    catalog_map hash c' = (\<lambda>k. case catalog_map hash c k of None \<Rightarrow> None | Some it \<Rightarrow> if region_seq c r k = Some (it_sequence it) then None else Some it) \<and>
    (\<forall>r'. region_seq c' r' = (if r' = r then Map.empty else region_seq c r')) \<and>
    (\<forall>k it. (k, it) \<in> set xs \<longleftrightarrow> catalog_map hash c k = Some it \<and> region_seq c r k = Some (it_sequence it)) \<and>
    views_of (catalog_map hash c') r = 0 \<and>
    (\<forall>rf out. counted (catalog_map hash c) out rf \<longrightarrow> counted (catalog_map hash c') (\<lambda>r. out r + (\<Sum>x \<leftarrow> xs. item_views (snd x) r)) rf)"
proof -
  have core: "catalog_core hash n c" and linked: "catalog_linked hash n c" using inv by (simp_all add: catalog_inv_def)
  note len = coreD(3) [OF core]
  let ?c = "c\<lparr>ct_regions := (ct_regions c)[r := RBT.empty]\<rparr>"
  let ?ks = "RBT.entries (ct_regions c ! r)"
  have c: "catalog_core hash n ?c" "catalog_map hash ?c = catalog_map hash c"
    using core_regions [OF core] len by (simp_all add: map_regions)
  have ks: "(k, s) \<in> set ?ks \<longleftrightarrow> region_seq c r k = Some s" for k s by (simp add: region_seq_def RBT.lookup_in_tree)
  obtain xs c' where t: "take_items hash ?ks ?c = Some (xs, c')" "catalog_core hash n c'" "ct_regions c' = ct_regions ?c"
    "catalog_map hash c' = (\<lambda>k. case catalog_map hash ?c k of None \<Rightarrow> None | Some it \<Rightarrow> if (k, it_sequence it) \<in> set ?ks then None else Some it)"
    "\<forall>k it. (k, it) \<in> set xs \<longleftrightarrow> catalog_map hash ?c k = Some it \<and> (k, it_sequence it) \<in> set ?ks"
    "\<forall>r. views_of (catalog_map hash ?c) r = views_of (catalog_map hash c') r + (\<Sum>x \<leftarrow> xs. item_views (snd x) r)"
    using take_items_ok [OF c(1) RBT.distinct_entries [of "ct_regions c ! r"]] by (elim exE conjE)
  have map: "catalog_map hash c' = (\<lambda>k. case catalog_map hash c k of None \<Rightarrow> None | Some it \<Rightarrow> if region_seq c r k = Some (it_sequence it) then None else Some it)"
    unfolding t(4) c(2) ks ..
  have seq: "region_seq c' r' = (if r' = r then Map.empty else region_seq c r')" for r'
    using t(3) r len by (auto simp: region_seq_def nth_list_update)
  have link': "rv_id v < n \<and> rv_id v \<noteq> r \<and> region_seq c (rv_id v) k = Some (it_sequence it)"
    if "catalog_map hash c' k = Some it" "it_index it = RegionIx v" for k it v
    using that linked unfolding map catalog_linked_def by (auto split: option.splits if_splits)
  then have "catalog_linked hash n c'" unfolding catalog_linked_def by (simp add: seq)
  moreover have "item_views (the (catalog_map hash c' k)) r = 0" if "k \<in> dom (catalog_map hash c')" for k
    using link' [of k "the (catalog_map hash c' k)"] that by (auto simp: item_views_def split: Index.split)
  then have "views_of (catalog_map hash c') r = 0" by (simp add: views_of_def)
  moreover have "counted (catalog_map hash c') (\<lambda>r. out r + (\<Sum>x \<leftarrow> xs. item_views (snd x) r)) rf"
    if "counted (catalog_map hash c) out rf" for rf out
    using that t(6) c(2) by (simp add: counted_def ac_simps)
  ultimately show ?thesis
    using t(1,2,5) map seq r len ks c(2) by (simp add: catalog_take_region_def catalog_inv_def)
qed

lemma rbt_sum:
  "(\<Sum>x \<leftarrow> RBT.entries t. f (snd x)) = (\<Sum>k \<in> dom (RBT.lookup t). f (the (RBT.lookup t k)) :: nat)"
proof -
  have d: "distinct (RBT.entries t)" using RBT.distinct_entries [of t] by (simp add: distinct_map)
  have set: "set (RBT.entries t) = (\<lambda>k. (k, the (RBT.lookup t k))) ` dom (RBT.lookup t)"
    by (force simp: RBT.lookup_in_tree [symmetric] dom_def)
  have "(\<Sum>x \<leftarrow> RBT.entries t. f (snd x)) = (\<Sum>x \<in> set (RBT.entries t). f (snd x))" by (rule sum_list_distinct_conv_sum_set [OF d])
  also have "\<dots> = (\<Sum>k \<in> dom (RBT.lookup t). f (the (RBT.lookup t k)))"
    unfolding set by (subst sum.reindex) (auto simp: inj_on_def)
  finally show ?thesis .
qed

lemma sum_list_map_concat: "(\<Sum>x \<leftarrow> concat xss. f x) = (\<Sum>xs \<leftarrow> xss. \<Sum>x \<leftarrow> xs. f x :: nat)"
  by (induction xss) simp_all

lemma entries_views:
  assumes core: "catalog_core hash n c"
  shows "(\<Sum>x \<leftarrow> catalog_entries c. item_views (snd x) r) = views_of (catalog_map hash c) r"
proof -
  let ?f = "\<lambda>s k. item_views (the (RBT.lookup (ct_items c ! s) k)) r"
  let ?I = "{0..<length (ct_items c)}"
  have "(\<Sum>x \<leftarrow> catalog_entries c. item_views (snd x) r) = (\<Sum>t \<leftarrow> ct_items c. \<Sum>x \<leftarrow> RBT.entries t. item_views (snd x) r)"
    by (simp add: catalog_entries_def sum_list_map_concat o_def)
  also have "\<dots> = (\<Sum>s \<in> ?I. \<Sum>k \<in> dom (RBT.lookup (ct_items c ! s)). ?f s k)"
    unfolding rbt_sum [of "\<lambda>it. item_views it r"] by (simp add: sum_list_sum_nth)
  also have "\<dots> = (\<Sum>s \<in> ?I. \<Sum>k \<in> dom (RBT.lookup (ct_items c ! s)). item_views (the (catalog_map hash c k)) r)"
    using coreD(4) [OF core] by (intro sum.cong refl) (auto simp: catalog_map_def)
  also have "\<dots> = (\<Sum>k \<in> (\<Union>s \<in> ?I. dom (RBT.lookup (ct_items c ! s))). item_views (the (catalog_map hash c k)) r)"
  proof (rule sum.UNION_disjoint [symmetric])
    show "\<forall>i \<in> ?I. \<forall>j \<in> ?I. i \<noteq> j \<longrightarrow> dom (RBT.lookup (ct_items c ! i)) \<inter> dom (RBT.lookup (ct_items c ! j)) = {}"
    proof (intro ballI impI equals0I)
      fix i j k assume "i \<in> ?I" "j \<in> ?I" "i \<noteq> j" "k \<in> dom (RBT.lookup (ct_items c ! i)) \<inter> dom (RBT.lookup (ct_items c ! j))"
      then show False using coreD(4) [OF core, of i k] coreD(4) [OF core, of j k] by auto
    qed
  qed simp_all
  also have "(\<Union>s \<in> ?I. dom (RBT.lookup (ct_items c ! s))) = dom (catalog_map hash c)"
    using coreD(4) [OF core] shard_less [OF core] by (fastforce simp: catalog_map_def dom_def)
  finally show ?thesis by (simp add: views_of_def)
qed

lemma catalog_clear_ok:
  assumes inv: "catalog_inv hash n c"
  shows "\<exists>c' rf'. catalog_clear c rf = (c', rf') \<and> catalog_inv hash n c' \<and> catalog_map hash c' = Map.empty \<and>
    (\<forall>r < n. region_seq c' r = Map.empty) \<and>
    (\<forall>out. counted (catalog_map hash c) out rf \<longrightarrow> counted (catalog_map hash c') out rf')"
proof -
  have core: "catalog_core hash n c" using inv by (simp add: catalog_inv_def)
  define c' where "c' = c\<lparr>ct_items := map (\<lambda>_. RBT.empty) (ct_items c), ct_regions := map (\<lambda>_. RBT.empty) (ct_regions c)\<rparr>"
  have core': "catalog_core hash n c'" by (rule coreI) (use coreD [OF core] in \<open>simp_all add: c'_def\<close>)
  have map: "catalog_map hash c' = Map.empty"
    using shard_less [OF core'] by (intro ext) (simp add: catalog_map_def c'_def)
  have "catalog_linked hash n c'" by (simp add: catalog_linked_def map)
  moreover have "region_seq c' r = Map.empty" if "r < n" for r
    using that coreD(3) [OF core] by (simp add: c'_def region_seq_def)
  moreover have "counted (catalog_map hash c') out (fold item_drop (map snd (catalog_entries c)) rf)"
    if "counted (catalog_map hash c) out rf" for out
    unfolding counted_def map
  proof
    fix r
    have "rf r = (out r + (\<Sum>it \<leftarrow> map snd (catalog_entries c). item_views it r)) mod usize_lim"
      using that entries_views [OF core, of r] by (simp add: counted_def o_def add.commute)
    from fold_drop [where rf = rf and r = r and n = "out r", OF this] show "fold item_drop (map snd (catalog_entries c)) rf r = (views_of Map.empty r + out r) mod usize_lim" by simp
  qed
  ultimately show ?thesis using core' map by (simp add: catalog_clear_def c'_def [symmetric] catalog_inv_def)
qed

section \<open>Properties\<close>

text \<open>C27. The catalog is a map from keys to items, over its shards and its region maps, and it keeps the
  counters of the regions exact: if the counters equal the items of each region plus \<open>out\<close> views outside, then
  they do so after every operation, where the item that goes in brings its view along and the items that come
  out take theirs with them. An insertion puts the item for the key and drops the old one; a lookup clones; a
  removal moves the item out; \<^verbatim>\<open>take_region\<close> moves out items whose sequence the region knows, among them every
  item that points into the region; clearing leaves nothing.\<close>

theorem catalog_refines_map:
  assumes inv: "catalog_inv hash n c" and cnt: "counted (catalog_map hash c) out rf" and view: "\<forall>v. it_index item = RegionIx v \<longrightarrow> rv_id v < n"
  shows "(counted (catalog_map hash c) (\<lambda>r. out r + item_views item r) rf1 \<longrightarrow>
      (\<exists>c' rf'. catalog_insert hash now k item c rf1 = Some (c', rf') \<and> catalog_inv hash n c' \<and>
         catalog_map hash c' = (catalog_map hash c)(k \<mapsto> item\<lparr>it_inserted := Some now\<rparr>) \<and> counted (catalog_map hash c') out rf')) \<and>
    (\<exists>rf'. catalog_lookup hash k c rf = Some (catalog_map hash c k, rf') \<and>
       counted (catalog_map hash c) (\<lambda>r. out r + (case catalog_map hash c k of None \<Rightarrow> 0 | Some it \<Rightarrow> item_views it r)) rf') \<and>
    (\<exists>c'. catalog_remove hash k c = Some (catalog_map hash c k, c') \<and> catalog_inv hash n c' \<and>
       catalog_map hash c' = (catalog_map hash c)(k := None) \<and>
       counted (catalog_map hash c') (\<lambda>r. out r + (case catalog_map hash c k of None \<Rightarrow> 0 | Some it \<Rightarrow> item_views it r)) rf) \<and>
    (r < n \<longrightarrow> (\<exists>xs c'. catalog_take_region hash r c = Some (xs, c') \<and> catalog_inv hash n c' \<and> views_of (catalog_map hash c') r = 0 \<and>
       (\<forall>k it. (k, it) \<in> set xs \<longleftrightarrow> catalog_map hash c k = Some it \<and> region_seq c r k = Some (it_sequence it)) \<and>
       (\<forall>k. catalog_map hash c' k = (if k \<in> fst ` set xs then None else catalog_map hash c k)) \<and>
       counted (catalog_map hash c') (\<lambda>r. out r + (\<Sum>x \<leftarrow> xs. item_views (snd x) r)) rf)) \<and>
    (\<exists>c' rf'. catalog_clear c rf = (c', rf') \<and> catalog_inv hash n c' \<and> catalog_map hash c' = Map.empty \<and> counted (catalog_map hash c') out rf')"
proof (intro conjI impI, goal_cases)
  case 1
  then show ?case using catalog_insert_ok [OF inv, of item now k rf1] view by blast
next
  case 2
  show ?case using catalog_lookup_ok [OF inv, of k rf] cnt by blast
next
  case 3
  show ?case using catalog_remove_ok [OF inv, of k] cnt by blast
next
  case 4
  obtain xs c' where t: "catalog_take_region hash r c = Some (xs, c')" "catalog_inv hash n c'"
    "catalog_map hash c' = (\<lambda>k. case catalog_map hash c k of None \<Rightarrow> None | Some it \<Rightarrow> if region_seq c r k = Some (it_sequence it) then None else Some it)"
    "\<forall>k it. (k, it) \<in> set xs \<longleftrightarrow> catalog_map hash c k = Some it \<and> region_seq c r k = Some (it_sequence it)"
    "views_of (catalog_map hash c') r = 0"
    "\<forall>rf out. counted (catalog_map hash c) out rf \<longrightarrow> counted (catalog_map hash c') (\<lambda>r. out r + (\<Sum>x \<leftarrow> xs. item_views (snd x) r)) rf"
    using catalog_take_region_ok [OF inv 4] by (elim exE conjE)
  have "catalog_map hash c' k = (if k \<in> fst ` set xs then None else catalog_map hash c k)" for k
    using t(4) unfolding t(3) by (force split: option.split)
  with t cnt show ?case by blast
next
  case 5
  show ?case using catalog_clear_ok [OF inv, of rf] cnt by blast
qed

theorem catalog_refines_map_witness:
  "\<exists>c :: (nat, nat) Catalog. catalog_new 2 1 = Some c \<and>
     (\<exists>c' rf'. catalog_insert word_of_nat 7 5 (item_new 1 (RegionIx \<lparr>rv_id = 1, rv_offset = 32, rv_len = 64\<rparr>)) c ((\<lambda>_. 0)(1 := 1)) = Some (c', rf') \<and>
       catalog_map word_of_nat c' 5 \<noteq> None)"
proof -
  obtain c :: "(nat, nat) Catalog" where c: "catalog_new 2 1 = Some c" "catalog_inv word_of_nat 2 c" "catalog_map word_of_nat c = Map.empty"
    using catalog_new_ok [of 1 2 word_of_nat] by auto
  have "counted (catalog_map word_of_nat c) (\<lambda>_. 0) (\<lambda>_. 0)" by (simp add: counted_def c(3))
  from catalog_refines_map [OF c(2) this, of "item_new 1 (RegionIx \<lparr>rv_id = 1, rv_offset = 32, rv_len = 64\<rparr>)"
      "(\<lambda>_. 0)(1 := 1)" 7 5 0]
  have "\<exists>c' rf'. catalog_insert word_of_nat 7 5 (item_new 1 (RegionIx \<lparr>rv_id = 1, rv_offset = 32, rv_len = 64\<rparr>)) c ((\<lambda>_. 0)(1 := 1)) = Some (c', rf') \<and>
      catalog_map word_of_nat c' 5 \<noteq> None"
    by (auto simp: item_new_def item_views_def counted_def c(3) usize_lim_def)
  with c(1) show ?thesis by blast
qed

end
