(* ===== verification/Async_Queue.thy ===== *)
theory Async_Queue
  imports Foyer_Prelude
begin

text \<open>
  \<^verbatim>\<open>foyer-common/src/async_queue.rs\<close>: the queue of the clean regions. \<open>aq_watch\<close> is the value of the watch channel.
  Of \<^verbatim>\<open>tokio::sync::Notify\<close> the documented behaviour is modelled: \<^verbatim>\<open>notify_one\<close> wakes the task that waits longest
  or, when no task waits, stores one permit, and the next await takes it. The operations of the code are the
  definitions; \<^verbatim>\<open>acquire\<close> is a loop with an await, so its two halves are \<open>try_acquire\<close> under the lock and
  \<open>notify_await\<close>. The step relation lets any number of tasks run them in any order. The invariant gives that no
  wake-up is lost.
\<close>

section \<open>Definitions\<close>

record 'a AsyncQueue =
  aq_queue :: "'a list"
  aq_permit :: bool
  aq_waiters :: "nat list"
  aq_watch :: usize

definition async_queue_new :: "'a AsyncQueue" where
  "async_queue_new = \<lparr>aq_queue = [], aq_permit = False, aq_waiters = [], aq_watch = 0\<rparr>"

text \<open>\<^verbatim>\<open>notify_one\<close>, with the task it wakes.\<close>

definition notify_one :: "'a AsyncQueue \<Rightarrow> nat option \<times> 'a AsyncQueue" where
  "notify_one q = (case aq_waiters q of
       [] \<Rightarrow> (None, q\<lparr>aq_permit := True\<rparr>)
     | t # ts \<Rightarrow> (Some t, q\<lparr>aq_waiters := ts\<rparr>))"

definition try_acquire :: "'a AsyncQueue \<Rightarrow> 'a option \<times> nat option \<times> 'a AsyncQueue" where
  "try_acquire q = (case aq_queue q of
       [] \<Rightarrow> (None, None, q)
     | x # xs \<Rightarrow> (let q1 = q\<lparr>aq_queue := xs\<rparr>;
         (woken, q2) = (if xs \<noteq> [] then notify_one q1 else (None, q1))
       in (Some x, woken, q2\<lparr>aq_watch := length xs\<rparr>)))"

text \<open>\<^verbatim>\<open>notified.await\<close> of a task: it takes the permit and goes on, or joins the waiters.\<close>

definition notify_await :: "'a AsyncQueue \<Rightarrow> nat \<Rightarrow> bool \<times> 'a AsyncQueue" where
  "notify_await q t = (if aq_permit q then (True, q\<lparr>aq_permit := False\<rparr>) else (False, q\<lparr>aq_waiters := aq_waiters q @ [t]\<rparr>))"

definition release :: "'a AsyncQueue \<Rightarrow> 'a \<Rightarrow> nat option \<times> 'a AsyncQueue" where
  "release q x = notify_one (q\<lparr>aq_queue := aq_queue q @ [x], aq_watch := length (aq_queue q @ [x])\<rparr>)"

definition queue_len :: "'a AsyncQueue \<Rightarrow> usize" where
  "queue_len q = aq_watch q"

definition queue_is_empty :: "'a AsyncQueue \<Rightarrow> bool" where
  "queue_is_empty q \<longleftrightarrow> queue_len q = 0"

definition flash :: "'a AsyncQueue \<Rightarrow> 'a AsyncQueue" where
  "flash q = q\<lparr>aq_watch := queue_len q\<rparr>"

section \<open>Tasks on the queue\<close>

text \<open>The tasks that are about to look into the queue (\<open>qs_ready\<close>), those that found it empty and have not yet
  awaited (\<open>qs_pending\<close>), what has been released and what each task has acquired, in order.\<close>

record 'a queue_state =
  qs_queue :: "'a AsyncQueue"
  qs_ready :: "nat set"
  qs_pending :: "nat set"
  qs_released :: "'a list"
  qs_acquired :: "'a list"

definition wake :: "nat option \<Rightarrow> nat set \<Rightarrow> nat set" where
  "wake w R = (case w of None \<Rightarrow> R | Some t \<Rightarrow> insert t R)"

inductive queue_step :: "'a queue_state \<Rightarrow> 'a queue_state \<Rightarrow> bool" where
  queue_start: "t \<notin> qs_ready s \<union> qs_pending s \<union> set (aq_waiters (qs_queue s)) \<Longrightarrow>
    queue_step s (s\<lparr>qs_ready := insert t (qs_ready s)\<rparr>)"
| queue_take: "t \<in> qs_ready s \<Longrightarrow> try_acquire (qs_queue s) = (Some x, w, q) \<Longrightarrow>
    queue_step s (s\<lparr>qs_queue := q, qs_ready := wake w (qs_ready s - {t}), qs_acquired := qs_acquired s @ [x]\<rparr>)"
| queue_miss: "t \<in> qs_ready s \<Longrightarrow> try_acquire (qs_queue s) = (None, w, q) \<Longrightarrow>
    queue_step s (s\<lparr>qs_queue := q, qs_ready := qs_ready s - {t}, qs_pending := insert t (qs_pending s)\<rparr>)"
| queue_await: "t \<in> qs_pending s \<Longrightarrow> notify_await (qs_queue s) t = (go, q) \<Longrightarrow>
    queue_step s (s\<lparr>qs_queue := q, qs_pending := qs_pending s - {t}, qs_ready := (if go then insert t (qs_ready s) else qs_ready s)\<rparr>)"
| queue_release: "release (qs_queue s) x = (w, q) \<Longrightarrow>
    queue_step s (s\<lparr>qs_queue := q, qs_ready := wake w (qs_ready s), qs_released := qs_released s @ [x]\<rparr>)"
| queue_try: "try_acquire (qs_queue s) = (Some x, w, q) \<Longrightarrow>
    queue_step s (s\<lparr>qs_queue := q, qs_ready := wake w (qs_ready s), qs_acquired := qs_acquired s @ [x]\<rparr>)"

inductive queue_reachable :: "'a queue_state \<Rightarrow> bool" where
  queue_init: "queue_reachable \<lparr>qs_queue = async_queue_new, qs_ready = {}, qs_pending = {}, qs_released = [], qs_acquired = []\<rparr>"
| queue_next: "queue_reachable s \<Longrightarrow> queue_step s s' \<Longrightarrow> queue_reachable s'"

definition queue_inv :: "'a queue_state \<Rightarrow> bool" where
  "queue_inv s \<longleftrightarrow> (let q = qs_queue s in
     aq_watch q = length (aq_queue q) \<and> (aq_permit q \<longrightarrow> aq_waiters q = []) \<and>
     (aq_queue q \<noteq> [] \<and> (qs_pending s \<noteq> {} \<or> aq_waiters q \<noteq> []) \<longrightarrow> aq_permit q \<or> qs_ready s \<noteq> {}) \<and>
     qs_released s = qs_acquired s @ aq_queue q)"

lemma queue_step_inv:
  assumes "queue_step s s'" "queue_inv s"
  shows "queue_inv s'"
  using assms
  by (induction rule: queue_step.induct)
    (auto simp: queue_inv_def Let_def wake_def try_acquire_def release_def notify_one_def notify_await_def
      split: list.splits option.splits if_splits prod.splits)

lemma queue_reachable_inv: "queue_reachable s \<Longrightarrow> queue_inv s"
proof (induction rule: queue_reachable.induct)
  case queue_init
  show ?case by (simp add: queue_inv_def Let_def async_queue_new_def)
next
  case (queue_next s s')
  then show ?case using queue_step_inv by blast
qed

section \<open>Properties\<close>

text \<open>C28. The queue of the clean regions is first in first out and loses no wake-up: in every state that tasks
  can reach, what was released is what was acquired followed by what is in the queue, the published length is
  its length, and when there is an item in the queue and a task waits, then some task is awake and will look
  into the queue.\<close>

theorem no_lost_wakeup:
  assumes "queue_reachable s"
  shows "qs_released s = qs_acquired s @ aq_queue (qs_queue s) \<and> queue_len (qs_queue s) = length (aq_queue (qs_queue s)) \<and>
    (aq_queue (qs_queue s) \<noteq> [] \<and> aq_waiters (qs_queue s) \<noteq> [] \<longrightarrow> qs_ready s \<noteq> {})"
  using queue_reachable_inv [OF assms] by (auto simp: queue_inv_def Let_def queue_len_def)

theorem no_lost_wakeup_witness:
  "\<exists>s :: nat queue_state. queue_reachable s \<and> aq_queue (qs_queue s) = [4] \<and> qs_released s = [4] \<and> queue_len (qs_queue s) = 1"
proof -
  define s :: "nat queue_state" where "s = \<lparr>qs_queue = \<lparr>aq_queue = [4], aq_permit = True, aq_waiters = [], aq_watch = 1\<rparr>,
    qs_ready = {}, qs_pending = {}, qs_released = [4], qs_acquired = []\<rparr>"
  have "queue_step \<lparr>qs_queue = async_queue_new, qs_ready = {}, qs_pending = {}, qs_released = [], qs_acquired = []\<rparr> s"
    using queue_release [of "\<lparr>qs_queue = async_queue_new, qs_ready = {}, qs_pending = {}, qs_released = [], qs_acquired = []\<rparr>" 4 None "qs_queue s"]
    by (simp add: s_def release_def notify_one_def async_queue_new_def wake_def)
  then have r: "queue_reachable s" by (rule queue_next [OF queue_init])
  from no_lost_wakeup [OF r] have "queue_len (qs_queue s) = 1" by (simp add: s_def)
  with r show ?thesis by (intro exI [of _ s]) (simp add: s_def)
qed

end
