(* ===== verification/Region_Manager.thy ===== *)
theory Region_Manager
  imports Region Async_Queue
begin

text \<open>
  \<^verbatim>\<open>foyer-storage/src/region_manager.rs\<close>, with the interface \<^verbatim>\<open>EvictionPolicy\<close> of
  \<^verbatim>\<open>foyer-intrusive/src/eviction/mod.rs\<close> that it relies on and the policy \<^verbatim>\<open>Fifo\<close> of \<^verbatim>\<open>eviction/fifo.rs\<close>. An
  intrusive pointer to the item of a region is the id of the region, and the links of the items are the
  contents of the policy, so \<^verbatim>\<open>is_linked\<close> asks whether the id is in it. The locale \<open>eviction_policy\<close> is what the
  manager relies on; \<open>rfifo\<close> interprets it.
\<close>

section \<open>Eviction policies\<close>

record 'e ep_ops =
  ep_insert :: "'e \<Rightarrow> nat \<Rightarrow> 'e option"
  ep_remove :: "'e \<Rightarrow> nat \<Rightarrow> 'e option"
  ep_access :: "'e \<Rightarrow> nat \<Rightarrow> 'e option"
  ep_first :: "'e \<Rightarrow> nat option"
  ep_len :: "'e \<Rightarrow> usize"
  ep_linked :: "'e \<Rightarrow> nat \<Rightarrow> bool"

definition ep_push :: "'e ep_ops \<Rightarrow> 'e \<Rightarrow> nat \<Rightarrow> 'e option" where
  "ep_push ep e x = ep_insert ep e x"

definition ep_pop :: "'e ep_ops \<Rightarrow> 'e \<Rightarrow> (nat option \<times> 'e) option" where
  "ep_pop ep e = (case ep_first ep e of
       None \<Rightarrow> Some (None, e)
     | Some x \<Rightarrow> do {
         e' \<leftarrow> ep_remove ep e x;
         Some (Some x, e')
       })"

definition ep_peek :: "'e ep_ops \<Rightarrow> 'e \<Rightarrow> nat option" where
  "ep_peek ep e = ep_first ep e"

definition ep_is_empty :: "'e ep_ops \<Rightarrow> 'e \<Rightarrow> bool" where
  "ep_is_empty ep e \<longleftrightarrow> ep_len ep e = 0"

locale eviction_policy =
  fixes ep :: "'e ep_ops" and ok :: "'e \<Rightarrow> bool" and members :: "'e \<Rightarrow> nat set"
  assumes insert_ok: "ok e \<Longrightarrow> x \<notin> members e \<Longrightarrow> card (members e) < 2 ^ 32 \<Longrightarrow>
      \<exists>e'. ep_insert ep e x = Some e' \<and> ok e' \<and> members e' = insert x (members e)"
    and remove_ok: "ok e \<Longrightarrow> ep_first ep e = Some x \<Longrightarrow> \<exists>e'. ep_remove ep e x = Some e' \<and> ok e' \<and> members e' = members e - {x}"
    and access_ok: "ok e \<Longrightarrow> x \<in> members e \<Longrightarrow> \<exists>e'. ep_access ep e x = Some e' \<and> ok e' \<and> members e' = members e"
    and first_ok: "ok e \<Longrightarrow> (case ep_first ep e of None \<Rightarrow> members e = {} | Some x \<Rightarrow> x \<in> members e)"
    and len_ok: "ok e \<Longrightarrow> ep_len ep e = card (members e)"
    and linked_ok: "ok e \<Longrightarrow> ep_linked ep e x \<longleftrightarrow> x \<in> members e"
    and finite_members: "ok e \<Longrightarrow> finite (members e)"
begin

lemma pop_ok:
  assumes "ok e"
  shows "\<exists>r e'. ep_pop ep e = Some (r, e') \<and> ok e' \<and>
    (case r of None \<Rightarrow> members e = {} \<and> e' = e | Some x \<Rightarrow> x \<in> members e \<and> members e' = members e - {x})"
proof (cases "ep_first ep e")
  case None
  then show ?thesis using first_ok [OF assms] assms by (simp add: ep_pop_def)
next
  case (Some x)
  then have x: "x \<in> members e" using first_ok [OF assms] by simp
  then obtain e' where "ep_remove ep e x = Some e'" "ok e'" "members e' = members e - {x}" using remove_ok [OF assms Some] by blast
  with Some x show ?thesis by (intro exI [of _ "Some x"] exI [of _ e']) (simp add: ep_pop_def)
qed

end

text \<open>The policy \<^verbatim>\<open>Fifo\<close>.\<close>

record RFifo =
  rf_queue :: "nat list"
  rf_len :: usize

definition rfifo_new :: RFifo where
  "rfifo_new = \<lparr>rf_queue = [], rf_len = 0\<rparr>"

definition rfifo_insert :: "RFifo \<Rightarrow> nat \<Rightarrow> RFifo option" where
  "rfifo_insert f x = do {
     ensure (x \<notin> set (rf_queue f));
     n \<leftarrow> uadd (rf_len f) 1;
     Some (f\<lparr>rf_queue := rf_queue f @ [x], rf_len := n\<rparr>)
   }"

definition rfifo_remove :: "RFifo \<Rightarrow> nat \<Rightarrow> RFifo option" where
  "rfifo_remove f x = do {
     ensure (x \<in> set (rf_queue f));
     n \<leftarrow> usub (rf_len f) 1;
     Some (f\<lparr>rf_queue := remove1 x (rf_queue f), rf_len := n\<rparr>)
   }"

definition rfifo_access :: "RFifo \<Rightarrow> nat \<Rightarrow> RFifo option" where
  "rfifo_access f x = Some f"

definition rfifo_first :: "RFifo \<Rightarrow> nat option" where
  "rfifo_first f = (case rf_queue f of [] \<Rightarrow> None | x # xs \<Rightarrow> Some x)"

definition rfifo_ops :: "RFifo ep_ops" where
  "rfifo_ops = \<lparr>ep_insert = rfifo_insert, ep_remove = rfifo_remove, ep_access = rfifo_access, ep_first = rfifo_first,
     ep_len = rf_len, ep_linked = (\<lambda>f x. x \<in> set (rf_queue f))\<rparr>"

definition rfifo_ok :: "RFifo \<Rightarrow> bool" where
  "rfifo_ok f \<longleftrightarrow> distinct (rf_queue f) \<and> rf_len f = length (rf_queue f)"

lemma rfifo_remove_ok:
  assumes "rfifo_ok f" "x \<in> set (rf_queue f)"
  shows "\<exists>f'. rfifo_remove f x = Some f' \<and> rfifo_ok f' \<and> set (rf_queue f') = set (rf_queue f) - {x}"
proof -
  have "1 \<le> rf_len f" using assms length_pos_if_in_set [OF assms(2)] by (simp add: rfifo_ok_def Suc_le_eq)
  then have "usub (rf_len f) 1 = Some (rf_len f - 1)" by (rule usub_Some)
  with assms show ?thesis by (simp add: rfifo_remove_def rfifo_ok_def length_remove1)
qed

interpretation rfifo: eviction_policy rfifo_ops rfifo_ok "\<lambda>f. set (rf_queue f)"
proof
  fix f x assume ok: "rfifo_ok f" "ep_first rfifo_ops f = Some x"
  then have "x \<in> set (rf_queue f)" by (auto simp: rfifo_ops_def rfifo_first_def split: list.splits)
  with ok(1) show "\<exists>f'. ep_remove rfifo_ops f x = Some f' \<and> rfifo_ok f' \<and> set (rf_queue f') = set (rf_queue f) - {x}"
    using rfifo_remove_ok by (simp add: rfifo_ops_def)
qed (auto simp: rfifo_ops_def rfifo_insert_def rfifo_remove_def rfifo_access_def rfifo_first_def rfifo_ok_def checked distinct_card
      length_remove1 Suc_le_eq set_remove1_eq length_pos_if_in_set usize_lim_def split: list.splits)

section \<open>The manager\<close>

record 'e RegionManager =
  rm_clean_regions :: "nat AsyncQueue"
  rm_regions :: "Region list"
  rm_eviction :: 'e

definition rm_new :: "nat \<Rightarrow> 'e \<Rightarrow> 'e RegionManager" where
  "rm_new region_count eviction = \<lparr>rm_clean_regions = async_queue_new, rm_regions = map region_new [0..<region_count], rm_eviction = eviction\<rparr>"

definition rm_region :: "'e RegionManager \<Rightarrow> nat \<Rightarrow> Region option" where
  "rm_region rm rid = (if rid < length (rm_regions rm) then Some (rm_regions rm ! rid) else None)"

definition record_access :: "'e ep_ops \<Rightarrow> 'e RegionManager \<Rightarrow> nat \<Rightarrow> 'e RegionManager option" where
  "record_access ep rm rid = do {
     ensure (rid < length (rm_regions rm));
     if ep_linked ep (rm_eviction rm) rid then do {
       e \<leftarrow> ep_access ep (rm_eviction rm) rid;
       Some (rm\<lparr>rm_eviction := e\<rparr>)
     } else Some rm
   }"

definition eviction_push :: "'e ep_ops \<Rightarrow> 'e RegionManager \<Rightarrow> nat \<Rightarrow> 'e RegionManager option" where
  "eviction_push ep rm rid = do {
     ensure (rid < length (rm_regions rm));
     e \<leftarrow> ep_push ep (rm_eviction rm) rid;
     Some (rm\<lparr>rm_eviction := e\<rparr>)
   }"

definition eviction_pop :: "'e ep_ops \<Rightarrow> 'e RegionManager \<Rightarrow> (nat option \<times> 'e RegionManager) option" where
  "eviction_pop ep rm = do {
     (r, e) \<leftarrow> ep_pop ep (rm_eviction rm);
     Some (r, rm\<lparr>rm_eviction := e\<rparr>)
   }"

text \<open>The clean regions are distinct, no clean region can be evicted, and the regions carry their ids.\<close>

definition rm_ok :: "('e \<Rightarrow> bool) \<Rightarrow> ('e \<Rightarrow> nat set) \<Rightarrow> nat \<Rightarrow> 'e RegionManager \<Rightarrow> bool" where
  "rm_ok ok members n rm \<longleftrightarrow> ok (rm_eviction rm) \<and> n < 2 ^ 32 \<and> length (rm_regions rm) = n \<and>
     (\<forall>i < n. rg_id (rm_regions rm ! i) = i \<and> rg_waits (rm_regions rm ! i) = Map.empty) \<and>
     members (rm_eviction rm) \<subseteq> {..<n}"

context eviction_policy
begin

lemma rm_new_ok: "ok e \<Longrightarrow> members e = {} \<Longrightarrow> n < 2 ^ 32 \<Longrightarrow> rm_ok ok members n (rm_new n e)"
  by (simp add: rm_ok_def rm_new_def region_new_def)

lemma rm_region_ok:
  "rm_ok ok members n rm \<Longrightarrow> rid < n \<Longrightarrow> \<exists>rg. rm_region rm rid = Some rg \<and> rg_id rg = rid \<and> rg_waits rg = Map.empty"
  by (simp add: rm_ok_def rm_region_def)

lemma record_access_ok:
  assumes "rm_ok ok members n rm" "rid < n"
  shows "\<exists>rm'. record_access ep rm rid = Some rm' \<and> rm_ok ok members n rm' \<and> members (rm_eviction rm') = members (rm_eviction rm) \<and>
    rm_clean_regions rm' = rm_clean_regions rm \<and> rm_regions rm' = rm_regions rm"
  using assms access_ok [of "rm_eviction rm" rid] linked_ok [of "rm_eviction rm" rid]
  by (auto simp: record_access_def rm_ok_def)

lemma members_card:
  assumes "rm_ok ok members n rm"
  shows "card (members (rm_eviction rm)) < 2 ^ 32"
proof -
  have "card (members (rm_eviction rm)) \<le> card {..<n}" using assms by (intro card_mono) (simp_all add: rm_ok_def)
  then show ?thesis using assms by (simp add: rm_ok_def)
qed

lemma eviction_push_ok:
  assumes "rm_ok ok members n rm" "rid < n" "rid \<notin> members (rm_eviction rm)"
  shows "\<exists>rm'. eviction_push ep rm rid = Some rm' \<and> rm_ok ok members n rm' \<and> members (rm_eviction rm') = insert rid (members (rm_eviction rm)) \<and>
    rm_clean_regions rm' = rm_clean_regions rm \<and> rm_regions rm' = rm_regions rm"
proof -
  have "ok (rm_eviction rm)" using assms(1) by (simp add: rm_ok_def)
  then obtain e where "ep_insert ep (rm_eviction rm) rid = Some e" "ok e" "members e = insert rid (members (rm_eviction rm))"
    using insert_ok [OF _ assms(3) members_card [OF assms(1)]] by blast
  then show ?thesis using assms by (simp add: eviction_push_def ep_push_def rm_ok_def)
qed

lemma eviction_pop_ok:
  assumes "rm_ok ok members n rm"
  shows "\<exists>r rm'. eviction_pop ep rm = Some (r, rm') \<and> rm_ok ok members n rm' \<and>
    rm_clean_regions rm' = rm_clean_regions rm \<and> rm_regions rm' = rm_regions rm \<and>
    (case r of None \<Rightarrow> members (rm_eviction rm) = {} \<and> rm' = rm
     | Some x \<Rightarrow> x < n \<and> x \<in> members (rm_eviction rm) \<and> members (rm_eviction rm') = members (rm_eviction rm) - {x})"
proof -
  have "ok (rm_eviction rm)" using assms by (simp add: rm_ok_def)
  then obtain r e where "ep_pop ep (rm_eviction rm) = Some (r, e)" "ok e"
    "case r of None \<Rightarrow> members (rm_eviction rm) = {} \<and> e = rm_eviction rm | Some x \<Rightarrow> x \<in> members (rm_eviction rm) \<and> members e = members (rm_eviction rm) - {x}"
    using pop_ok by blast
  then show ?thesis using assms by (auto simp: eviction_pop_def rm_ok_def split: option.splits)
qed

end

end
