(* ===== verification/Flusher.thy ===== *)
theory Flusher
  imports Flush_Buffer Catalog Region_Manager
begin

text \<open>
  \<^verbatim>\<open>foyer-storage/src/flusher.rs\<close>. A flusher takes entries from its channel and writes them through its flush
  buffer; what has been flushed goes into the catalog. \<open>handle\<close> awaits a clean region between its two halves,
  so it is \<open>flusher_write\<close>, up to the await, and \<open>flusher_rotate\<close> behind it. The metrics of the flusher are left
  out. \<open>None\<close> is a panic; the code has one for an entry that does not fit into an empty region.
\<close>

section \<open>Definitions\<close>

record ('k, 'v) Flusher =
  fl_buffer :: "('k, 'v) FlushBuffer"

definition flusher_new :: "'d device_ops \<Rightarrow> ('k, 'v) Flusher option" where
  "flusher_new dev = do {
     buffer \<leftarrow> fb_new dev;
     Some \<lparr>fl_buffer = buffer\<rparr>
   }"

text \<open>One round of the loop of \<^verbatim>\<open>update_catalog\<close>, and the loop, which also sums up the flushed bytes.\<close>

definition publish_entry :: "('k::linorder \<Rightarrow> 64 word) \<Rightarrow> nat \<Rightarrow> 'e RegionManager \<Rightarrow> ('k, 'v) PositionedEntry \<Rightarrow> ('k, 'v) Catalog \<Rightarrow> counters \<Rightarrow>
    (('k, 'v) Catalog \<times> counters) option" where
  "publish_entry hash now rm pe c rf = do {
     rg \<leftarrow> rm_region rm (pe_region pe);
     let (view, rf1) = region_view rg (word_of_nat (pe_offset pe)) (word_of_nat (pe_len pe)) rf;
     catalog_insert hash now (fe_key (pe_entry pe)) (item_new (fe_sequence (pe_entry pe)) (RegionIx view)) c rf1
   }"

fun update_catalog :: "('k::linorder \<Rightarrow> 64 word) \<Rightarrow> nat \<Rightarrow> 'e RegionManager \<Rightarrow> ('k, 'v) PositionedEntry list \<Rightarrow> usize \<Rightarrow>
    ('k, 'v) Catalog \<Rightarrow> counters \<Rightarrow> (usize \<times> ('k, 'v) Catalog \<times> counters) option" where
  "update_catalog hash now rm [] bytes c rf = Some (bytes, c, rf)"
| "update_catalog hash now rm (pe # es) bytes c rf = do {
     bytes' \<leftarrow> uadd bytes (pe_len pe);
     (c', rf') \<leftarrow> publish_entry hash now rm pe c rf;
     update_catalog hash now rm es bytes' c' rf'
   }"

text \<open>The first half of \<^verbatim>\<open>handle\<close>: the entries that were flushed, the entry for which a clean region is needed, or an
  error.\<close>

datatype ('k, 'v) flush_outcome = Flushed "('k, 'v) PositionedEntry list" | NeedRegion "('k, 'v) FlushEntry" | FlushFailed store_error

definition flusher_write :: "store_ops \<Rightarrow> ('k, 'kc) coder \<Rightarrow> ('v, 'vc) coder \<Rightarrow> 'd device_ops \<Rightarrow> ('k, 'v) FlushEntry \<Rightarrow>
    ('k, 'v) Flusher \<Rightarrow> 'd \<Rightarrow> (('k, 'v) flush_outcome \<times> ('k, 'v) Flusher \<times> 'd) option" where
  "flusher_write ops kc vc dev entry f d = do {
     (res, b, d') \<leftarrow> fb_write ops kc vc dev entry (fl_buffer f) d;
     Some (case res of
         Inr entries \<Rightarrow> Flushed entries
       | Inl (NeedRotate entry') \<Rightarrow> NeedRegion entry'
       | Inl (BufferDevice e) \<Rightarrow> FlushFailed e
       | Inl (BufferOther e) \<Rightarrow> FlushFailed e, f\<lparr>fl_buffer := b\<rparr>, d')
   }"

text \<open>The second half, with the clean region: rotate, publish, hand over the old region, and write again.\<close>

definition flusher_push_old :: "'e ep_ops \<Rightarrow> 'e RegionManager \<Rightarrow> nat option \<Rightarrow> 'e RegionManager option" where
  "flusher_push_old ep rm old = (case old of None \<Rightarrow> Some rm | Some region \<Rightarrow> eviction_push ep rm region)"

definition flusher_retry :: "store_ops \<Rightarrow> ('k, 'kc) coder \<Rightarrow> ('v, 'vc) coder \<Rightarrow> 'd device_ops \<Rightarrow> ('k, 'v) FlushEntry \<Rightarrow>
    ('k, 'v) Flusher \<Rightarrow> 'd \<Rightarrow> ((store_error + ('k, 'v) PositionedEntry list) \<times> ('k, 'v) Flusher \<times> 'd) option" where
  "flusher_retry ops kc vc dev entry f d = do {
     (out, f', d') \<leftarrow> flusher_write ops kc vc dev entry f d;
     (case out of
        NeedRegion _ \<Rightarrow> None
      | Flushed entries \<Rightarrow> Some (Inr entries, f', d')
      | FlushFailed e \<Rightarrow> Some (Inl e, f', d'))
   }"

definition flusher_rotate :: "store_ops \<Rightarrow> ('k::linorder, 'kc) coder \<Rightarrow> ('v, 'vc) coder \<Rightarrow> 'd device_ops \<Rightarrow> 'e ep_ops \<Rightarrow> ('k \<Rightarrow> 64 word) \<Rightarrow> nat \<Rightarrow>
    nat option \<Rightarrow> nat \<Rightarrow> ('k, 'v) FlushEntry \<Rightarrow> ('k, 'v) Flusher \<Rightarrow> 'd \<Rightarrow> 'e RegionManager \<Rightarrow> ('k, 'v) Catalog \<Rightarrow> counters \<Rightarrow>
    ((store_error + unit) \<times> ('k, 'v) Flusher \<times> 'd \<times> 'e RegionManager \<times> ('k, 'v) Catalog \<times> counters) option" where
  "flusher_rotate ops kc vc dev ep hash now old new_region entry f d rm c rf = do {
     (res, b, d1) \<leftarrow> fb_rotate ops dev (fl_buffer f) d new_region;
     let f1 = f\<lparr>fl_buffer := b\<rparr>;
     (case res of
        Inl e \<Rightarrow> Some (Inl e, f1, d1, rm, c, rf)
      | Inr entries \<Rightarrow> do {
          (bytes, c1, rf1) \<leftarrow> update_catalog hash now rm entries 0 c rf;
          rm1 \<leftarrow> flusher_push_old ep rm old;
          (res2, f2, d2) \<leftarrow> flusher_retry ops kc vc dev entry f1 d1;
          (case res2 of
             Inl e \<Rightarrow> Some (Inl e, f2, d2, rm1, c1, rf1)
           | Inr entries2 \<Rightarrow> do {
               (bytes2, c2, rf2) \<leftarrow> update_catalog hash now rm1 entries2 0 c1 rf1;
               Some (Inr (), f2, d2, rm1, c2, rf2)
             })
        })
   }"

text \<open>The whole of \<^verbatim>\<open>handle\<close>, for a flusher that nothing runs beside: the clean region, where one is needed, is taken
  from the queue; \<open>None\<close> is here also the wait for one.\<close>

definition flusher_handle :: "store_ops \<Rightarrow> ('k::linorder, 'kc) coder \<Rightarrow> ('v, 'vc) coder \<Rightarrow> 'd device_ops \<Rightarrow> 'e ep_ops \<Rightarrow> ('k \<Rightarrow> 64 word) \<Rightarrow> nat \<Rightarrow>
    ('k, 'v) FlushEntry \<Rightarrow> ('k, 'v) Flusher \<Rightarrow> 'd \<Rightarrow> 'e RegionManager \<Rightarrow> ('k, 'v) Catalog \<Rightarrow> counters \<Rightarrow>
    ((store_error + unit) \<times> ('k, 'v) Flusher \<times> 'd \<times> 'e RegionManager \<times> ('k, 'v) Catalog \<times> counters) option" where
  "flusher_handle ops kc vc dev ep hash now entry f d rm c rf = do {
     let old_region = fb_region (fl_buffer f);
     (out, f1, d1) \<leftarrow> flusher_write ops kc vc dev entry f d;
     (case out of
        FlushFailed e \<Rightarrow> Some (Inl e, f1, d1, rm, c, rf)
      | Flushed entries \<Rightarrow> do {
          (bytes, c1, rf1) \<leftarrow> update_catalog hash now rm entries 0 c rf;
          Some (Inr (), f1, d1, rm, c1, rf1)
        }
      | NeedRegion entry' \<Rightarrow> (case try_acquire (rm_clean_regions rm) of
            (None, _, _) \<Rightarrow> None
          | (Some new_region, _, q) \<Rightarrow>
              flusher_rotate ops kc vc dev ep hash now old_region new_region entry' f1 d1 (rm\<lparr>rm_clean_regions := q\<rparr>) c rf))
   }"

text \<open>The end of \<^verbatim>\<open>run\<close>: a last flush, whose entries go nowhere.\<close>

definition flusher_exit :: "store_ops \<Rightarrow> 'd device_ops \<Rightarrow> ('k, 'v) Flusher \<Rightarrow> 'd \<Rightarrow> ((store_error + unit) \<times> 'd) option" where
  "flusher_exit ops dev f d = do {
     (res, b, d') \<leftarrow> fb_flush ops dev (fl_buffer f) d;
     Some (case res of Inl e \<Rightarrow> Inl e | Inr _ \<Rightarrow> Inr (), d')
   }"

section \<open>Publishing\<close>

definition published_item :: "nat \<Rightarrow> ('k, 'v) PositionedEntry \<Rightarrow> ('k, 'v) Item" where
  "published_item now pe = \<lparr>it_sequence = fe_sequence (pe_entry pe),
     it_index = RegionIx \<lparr>rv_id = pe_region pe, rv_offset = word_of_nat (pe_offset pe), rv_len = word_of_nat (pe_len pe)\<rparr>, it_inserted = Some now\<rparr>"

lemma publish_entry_ok:
  assumes inv: "catalog_inv hash n c" and cnt: "counted (catalog_map hash c) out rf" and rm: "rm_ok ok members n rm" and r: "pe_region pe < n"
  shows "\<exists>c' rf'. publish_entry hash now rm pe c rf = Some (c', rf') \<and> catalog_inv hash n c' \<and> counted (catalog_map hash c') out rf' \<and>
    catalog_map hash c' = (catalog_map hash c)(fe_key (pe_entry pe) \<mapsto> published_item now pe)"
proof -
  define item :: "('a, 'b) Item" where "item = item_new (fe_sequence (pe_entry pe)) (RegionIx \<lparr>rv_id = pe_region pe, rv_offset = word_of_nat (pe_offset pe), rv_len = word_of_nat (pe_len pe)\<rparr>)"
  define rf1 where "rf1 = rf(pe_region pe := fetch_add_1 (rf (pe_region pe)))"
  obtain rg where rg: "rm_region rm (pe_region pe) = Some rg" "rg_id rg = pe_region pe" using rm r by (auto simp: rm_ok_def rm_region_def)
  have pub: "publish_entry hash now rm pe c rf = catalog_insert hash now (fe_key (pe_entry pe)) item c rf1"
    using rg by (simp add: publish_entry_def region_view_def item_def rf1_def)
  have iv: "item_views item r = (if r = pe_region pe then 1 else 0)" for r by (simp add: item_def item_new_def item_views_def)
  have "counted (catalog_map hash c) (\<lambda>r. out r + item_views item r) rf1" using cnt fetch_add_mod by (auto simp: counted_def rf1_def iv)
  moreover have "\<forall>v. it_index item = RegionIx v \<longrightarrow> rv_id v < n" using r by (simp add: item_def item_new_def)
  moreover have "item\<lparr>it_inserted := Some now\<rparr> = published_item now pe" by (simp add: item_def item_new_def published_item_def)
  ultimately show ?thesis unfolding pub using catalog_insert_ok [OF inv, of item now "fe_key (pe_entry pe)" rf1] by auto
qed

text \<open>C38. Publishing. After a flush \<^verbatim>\<open>update_catalog\<close> returns, sums up the flushed bytes and makes the last flushed entry of each key the item of the key, with a view of the
  place where it was written; the counters of the regions stay exact. It does so whatever the catalog had: an entry with a larger sequence is
  overwritten, and a key that was removed while its entry waited for the flush is back.\<close>

theorem update_catalog_spec:
  assumes inv: "catalog_inv hash n c" and cnt: "counted (catalog_map hash c) out rf" and rm: "rm_ok ok members n rm"
    and r: "\<forall>pe \<in> set es. pe_region pe < n" and lim: "bytes + (\<Sum>pe \<leftarrow> es. pe_len pe) < usize_lim"
  shows "\<exists>c' rf'. update_catalog hash now rm es bytes c rf = Some (bytes + (\<Sum>pe \<leftarrow> es. pe_len pe), c', rf') \<and> catalog_inv hash n c' \<and>
    counted (catalog_map hash c') out rf' \<and>
    catalog_map hash c' = catalog_map hash c ++ map_of (rev (map (\<lambda>pe. (fe_key (pe_entry pe), published_item now pe)) es))"
  using assms
proof (induction es arbitrary: bytes c rf)
  case (Cons pe es)
  obtain c1 rf1 where p: "publish_entry hash now rm pe c rf = Some (c1, rf1)" "catalog_inv hash n c1" "counted (catalog_map hash c1) out rf1"
    "catalog_map hash c1 = (catalog_map hash c)(fe_key (pe_entry pe) \<mapsto> published_item now pe)"
    using publish_entry_ok [OF Cons.prems(1-3), of pe now] Cons.prems(4) by auto
  have a: "uadd bytes (pe_len pe) = Some (bytes + pe_len pe)" using Cons.prems(5) by (simp add: checked)
  have m: "catalog_map hash c1 ++ map_of (rev (map (\<lambda>pe. (fe_key (pe_entry pe), published_item now pe)) es)) =
      catalog_map hash c ++ map_of (rev (map (\<lambda>pe. (fe_key (pe_entry pe), published_item now pe)) (pe # es)))"
    unfolding p(4) by (rule ext) (simp add: map_add_def split: option.split)
  obtain c' rf' where u: "update_catalog hash now rm es (bytes + pe_len pe) c1 rf1 = Some (bytes + pe_len pe + (\<Sum>pe \<leftarrow> es. pe_len pe), c', rf')"
      "catalog_inv hash n c'" "counted (catalog_map hash c') out rf'"
      "catalog_map hash c' = catalog_map hash c1 ++ map_of (rev (map (\<lambda>pe. (fe_key (pe_entry pe), published_item now pe)) es))"
    using Cons.IH [OF p(2,3) Cons.prems(3), of "bytes + pe_len pe"] Cons.prems(4,5) by (auto simp: add.assoc)
  have "update_catalog hash now rm (pe # es) bytes c rf = Some (bytes + (\<Sum>pe \<leftarrow> pe # es. pe_len pe), c', rf')"
    using a p(1) u(1) by (simp add: add.assoc)
  then show ?case using u(2,3) u(4) [unfolded m] by blast
qed simp

text \<open>A catalog without the key 5, which was removed: the flushed entry of the key is back.\<close>

theorem update_catalog_spec_witness:
  "\<exists>c c' rf'. catalog_new 2 1 = Some c \<and> update_catalog word_of_nat 7 (rm_new 2 rfifo_new)
      [\<lparr>pe_entry = \<lparr>fe_key = 5 :: nat, fe_value = 6 :: nat, fe_sequence = 1, fe_compression = CompressionNone\<rparr>, pe_region = 1, pe_offset = 32, pe_len = 64\<rparr>] 0 c (\<lambda>_. 0) = Some (64, c', rf') \<and>
     catalog_map word_of_nat c 5 = None \<and> catalog_map word_of_nat c' 5 \<noteq> None"
proof -
  obtain c :: "(nat, nat) Catalog" where c: "catalog_new 2 1 = Some c" "catalog_inv word_of_nat 2 c" "catalog_map word_of_nat c = Map.empty"
    using catalog_new_ok [of 1 2 word_of_nat] by auto
  have cnt: "counted (catalog_map word_of_nat c) (\<lambda>_. 0) (\<lambda>_. 0)" by (simp add: counted_def c(3))
  have rm: "rm_ok rfifo_ok (\<lambda>f. set (rf_queue f)) 2 (rm_new 2 rfifo_new)" by (rule rfifo.rm_new_ok) (simp_all add: rfifo_new_def rfifo_ok_def)
  let ?es = "[\<lparr>pe_entry = \<lparr>fe_key = 5 :: nat, fe_value = 6 :: nat, fe_sequence = 1, fe_compression = CompressionNone\<rparr>, pe_region = 1, pe_offset = 32, pe_len = 64\<rparr>]"
  have "\<forall>pe \<in> set ?es. pe_region pe < 2" "0 + (\<Sum>pe \<leftarrow> ?es. pe_len pe) < usize_lim" by (simp_all add: usize_lim_def)
  from update_catalog_spec [OF c(2) cnt rm this, of 7] obtain c' rf' where
    u: "update_catalog word_of_nat 7 (rm_new 2 rfifo_new) ?es 0 c (\<lambda>_. 0) = Some (0 + (\<Sum>pe \<leftarrow> ?es. pe_len pe), c', rf')"
      "catalog_map word_of_nat c' = catalog_map word_of_nat c ++ map_of (rev (map (\<lambda>pe. (fe_key (pe_entry pe), published_item 7 pe)) ?es))" by blast
  have "0 + (\<Sum>pe \<leftarrow> ?es. pe_len pe) = 64" "catalog_map word_of_nat c' 5 \<noteq> None" using u(2) c(3) by simp_all
  then show ?thesis
    by - (rule exI [of _ c], rule exI [of _ c'], rule exI [of _ rf'], use u(1) c in \<open>simp del: update_catalog.simps\<close>)
qed

end
