(* ===== verification/Judges.thy ===== *)
theory Judges
  imports Foyer_Prelude
begin

unbundle bit_operations_syntax

text \<open>
  \<^verbatim>\<open>foyer-storage/src/judge.rs\<close>: the verdicts of the admission or reinsertion policies about an entry. The bit
  sets are those of the crate \<^verbatim>\<open>bitmaps\<close>, a record of operations whose documented behaviour is the locale
  \<open>bitmap\<close>; it is interpreted on 64-bit words. The lemmas say when an entry is admitted: exactly when no policy
  in the mask rejects it, with one exception, 64 policies, where the shift of the code wraps around and the
  msk is empty.
\<close>

section \<open>Bit sets\<close>

record 'b bitmap_ops =
  bm_default :: 'b
  bm_from_value :: "64 word \<Rightarrow> 'b"
  bm_invert :: "'b \<Rightarrow> 'b"
  bm_and :: "'b \<Rightarrow> 'b \<Rightarrow> 'b"
  bm_or :: "'b \<Rightarrow> 'b \<Rightarrow> 'b"
  bm_get :: "'b \<Rightarrow> nat \<Rightarrow> bool option"
  bm_set :: "'b \<Rightarrow> nat \<Rightarrow> bool \<Rightarrow> 'b option"
  bm_is_full :: "'b \<Rightarrow> bool"

text \<open>An index from 64 on is refused by an assertion.\<close>

locale bitmap =
  fixes bm :: "'b bitmap_ops" and has_bit :: "'b \<Rightarrow> nat \<Rightarrow> bool"
  assumes default_bit: "i < 64 \<Longrightarrow> \<not> has_bit (bm_default bm) i"
    and from_value_bit: "i < 64 \<Longrightarrow> has_bit (bm_from_value bm w) i \<longleftrightarrow> bit w i"
    and invert_bit: "i < 64 \<Longrightarrow> has_bit (bm_invert bm b) i \<longleftrightarrow> \<not> has_bit b i"
    and and_bit: "i < 64 \<Longrightarrow> has_bit (bm_and bm b c) i \<longleftrightarrow> has_bit b i \<and> has_bit c i"
    and or_bit: "i < 64 \<Longrightarrow> has_bit (bm_or bm b c) i \<longleftrightarrow> has_bit b i \<or> has_bit c i"
    and get_ok: "i < 64 \<Longrightarrow> bm_get bm b i = Some (has_bit b i)"
    and set_ok: "i < 64 \<Longrightarrow> \<exists>b'. bm_set bm b i v = Some b' \<and> (\<forall>j<64. has_bit b' j = (if j = i then v else has_bit b j))"
    and is_full_ok: "bm_is_full bm b \<longleftrightarrow> (\<forall>i<64. has_bit b i)"

definition word_bitmap :: "64 word bitmap_ops" where
  "word_bitmap = \<lparr>bm_default = 0, bm_from_value = (\<lambda>w. w), bm_invert = NOT, bm_and = (AND), bm_or = (OR),
     bm_get = (\<lambda>b i. if i < 64 then Some (bit b i) else None),
     bm_set = (\<lambda>b i v. if i < 64 then Some (if v then set_bit i b else unset_bit i b) else None),
     bm_is_full = (\<lambda>b. b = - 1)\<rparr>"

interpretation wbm: bitmap word_bitmap bit
proof
  fix b :: "64 word"
  show "bm_is_full word_bitmap b \<longleftrightarrow> (\<forall>i<64. bit b i)"
    by (auto simp: word_bitmap_def intro: bit_word_eqI)
qed (auto simp: word_bitmap_def bit_simps)

section \<open>Definitions\<close>

record 'b Judges =
  js_judge :: 'b
  js_umask :: 'b

definition judges_with_mask :: "'b bitmap_ops \<Rightarrow> usize \<Rightarrow> 'b \<Rightarrow> 'b Judges" where
  "judges_with_mask bm n msk = \<lparr>js_judge = bm_default bm,
     js_umask = bm_invert bm (bm_and bm msk (bm_from_value bm (push_bit ((n mod 2 ^ 32) mod 64) 1 - 1)))\<rparr>"

definition judges_new :: "'b bitmap_ops \<Rightarrow> usize \<Rightarrow> 'b Judges" where
  "judges_new bm n = judges_with_mask bm n (bm_invert bm (bm_default bm))"

definition judges_get :: "'b bitmap_ops \<Rightarrow> 'b Judges \<Rightarrow> usize \<Rightarrow> bool option" where
  "judges_get bm js i = bm_get bm (js_judge js) i"

definition judges_set :: "'b bitmap_ops \<Rightarrow> 'b Judges \<Rightarrow> usize \<Rightarrow> bool \<Rightarrow> 'b Judges option" where
  "judges_set bm js i v = do {
     b \<leftarrow> bm_set bm (js_judge js) i v;
     Some (js\<lparr>js_judge := b\<rparr>)
   }"

definition judges_apply :: "'b Judges \<Rightarrow> 'b \<Rightarrow> 'b Judges" where
  "judges_apply js judge = js\<lparr>js_judge := judge\<rparr>"

definition judges_set_mask :: "'b bitmap_ops \<Rightarrow> 'b Judges \<Rightarrow> 'b \<Rightarrow> 'b Judges" where
  "judges_set_mask bm js msk = js\<lparr>js_umask := bm_invert bm msk\<rparr>"

definition judges_judge :: "'b bitmap_ops \<Rightarrow> 'b Judges \<Rightarrow> bool" where
  "judges_judge bm js = bm_is_full bm (bm_or bm (js_judge js) (js_umask js))"

text \<open>Asking the policies one after the other, as \<^verbatim>\<open>judge_inner\<close> and the reclaimer do.\<close>

fun judges_fill :: "'b bitmap_ops \<Rightarrow> 'b Judges \<Rightarrow> nat \<Rightarrow> bool list \<Rightarrow> 'b Judges option" where
  "judges_fill bm js i [] = Some js"
| "judges_fill bm js i (v # vs) = do {
     js' \<leftarrow> judges_set bm js i v;
     judges_fill bm js' (Suc i) vs
   }"

section \<open>Verdicts\<close>

lemma low_mask_bit: "n < 64 \<Longrightarrow> bit (push_bit n 1 - 1 :: 64 word) i \<longleftrightarrow> i < n"
  using bit_mask_iff [where 'a = "64 word", of n i] by (auto simp: mask_eq_decr_exp push_bit_of_1)

context bitmap
begin

lemma with_mask_bit:
  assumes "i < 64"
  shows "has_bit (js_umask (judges_with_mask bm n msk)) i \<longleftrightarrow> \<not> (has_bit msk i \<and> i < (n mod 2 ^ 32) mod 64)"
  using assms low_mask_bit [of "(n mod 2 ^ 32) mod 64" i] by (simp add: judges_with_mask_def invert_bit and_bit from_value_bit)

lemma judge_iff: "judges_judge bm js \<longleftrightarrow> (\<forall>i<64. has_bit (js_umask js) i \<or> has_bit (js_judge js) i)"
  by (auto simp: judges_judge_def is_full_ok or_bit)

lemma fill_ok:
  assumes "i + length vs \<le> 64"
  shows "\<exists>js'. judges_fill bm js i vs = Some js' \<and> js_umask js' = js_umask js \<and>
    (\<forall>j<64. has_bit (js_judge js') j = (if i \<le> j \<and> j < i + length vs then vs ! (j - i) else has_bit (js_judge js) j))"
  using assms
proof (induction vs arbitrary: js i)
  case Nil
  then show ?case by auto
next
  case (Cons v vs)
  then have "i < 64" by simp
  then obtain b where b: "bm_set bm (js_judge js) i v = Some b" "\<forall>j<64. has_bit b j = (if j = i then v else has_bit (js_judge js) j)"
    using set_ok [of i "js_judge js" v] by blast
  obtain js' where js': "judges_fill bm (js\<lparr>js_judge := b\<rparr>) (Suc i) vs = Some js'" "js_umask js' = js_umask js"
    "\<forall>j<64. has_bit (js_judge js') j = (if Suc i \<le> j \<and> j < Suc i + length vs then vs ! (j - Suc i) else has_bit b j)"
    using Cons.IH [of "Suc i" "js\<lparr>js_judge := b\<rparr>"] Cons.prems by auto
  have "has_bit (js_judge js') j = (if i \<le> j \<and> j < i + length (v # vs) then (v # vs) ! (j - i) else has_bit (js_judge js) j)"
    if "j < 64" for j
    using js'(3) b(2) that by (cases "j = i") (auto simp: nth_Cons' Suc_diff_Suc)
  with js'(1,2) b(1) show ?case by (simp add: judges_set_def)
qed

text \<open>The verdict over up to 63 policies, with a mask.\<close>

lemma masked_verdict:
  assumes "length vs < 64"
  shows "\<exists>js'. judges_fill bm (judges_with_mask bm (length vs) msk) 0 vs = Some js' \<and>
    (judges_judge bm js' \<longleftrightarrow> (\<forall>i < length vs. has_bit msk i \<longrightarrow> vs ! i)) \<and>
    (\<forall>i < length vs. judges_get bm js' i = Some (vs ! i))"
proof -
  let ?js = "judges_with_mask bm (length vs) msk"
  obtain js' where js': "judges_fill bm ?js 0 vs = Some js'" "js_umask js' = js_umask ?js"
    "\<forall>j<64. has_bit (js_judge js') j = (if 0 \<le> j \<and> j < 0 + length vs then vs ! (j - 0) else has_bit (js_judge ?js) j)"
    using fill_ok [of 0 vs ?js] assms by auto
  have n: "(length vs mod 2 ^ 32) mod 64 = length vs" using assms by simp
  have "judges_judge bm js' \<longleftrightarrow> (\<forall>i < length vs. has_bit msk i \<longrightarrow> vs ! i)"
    using assms js'(3) by (auto simp: judge_iff js'(2) with_mask_bit n)
  moreover have "judges_get bm js' i = Some (vs ! i)" if "i < length vs" for i
    using that assms js'(3) by (simp add: judges_get_def get_ok)
  ultimately show ?thesis using js'(1) by blast
qed

lemma new_verdict:
  assumes "length vs < 64"
  shows "\<exists>js'. judges_fill bm (judges_new bm (length vs)) 0 vs = Some js' \<and> (judges_judge bm js' \<longleftrightarrow> (\<forall>v \<in> set vs. v)) \<and>
    (\<forall>i < length vs. judges_get bm js' i = Some (vs ! i))"
  unfolding judges_new_def using masked_verdict [OF assms, of "bm_invert bm (bm_default bm)"] assms
  by (auto simp: invert_bit default_bit set_conv_nth)

text \<open>With 64 policies every entry is admitted.\<close>

lemma full_verdict: "judges_judge bm (judges_new bm 64)"
  by (simp add: judge_iff judges_new_def with_mask_bit)

text \<open>An empty mask admits every entry.\<close>

lemma force_verdict: "judges_judge bm (judges_set_mask bm js (bm_default bm))"
  by (simp add: judge_iff judges_set_mask_def invert_bit default_bit)

end

section \<open>Properties\<close>

text \<open>C25. The verdict of the policies: with fewer than 64 policies an entry is admitted exactly when no policy
  whose bit is in the mask rejects it, and each single verdict can be read back; a writer with an empty mask
  admits everything. With 64 policies the mask comes out empty and everything is admitted whatever the
  policies say.\<close>

theorem judges_spec:
  assumes "bitmap bm has_bit"
  shows "(length vs < 64 \<longrightarrow> (\<exists>js. judges_fill bm (judges_with_mask bm (length vs) msk) 0 vs = Some js \<and>
      (judges_judge bm js \<longleftrightarrow> (\<forall>i < length vs. has_bit msk i \<longrightarrow> vs ! i)) \<and>
      (\<forall>i < length vs. judges_get bm js i = Some (vs ! i)))) \<and>
    (length us = 64 \<longrightarrow> (\<exists>js. judges_fill bm (judges_new bm (length us)) 0 us = Some js \<and> judges_judge bm js)) \<and>
    judges_judge bm (judges_set_mask bm js0 (bm_default bm))"
proof (intro conjI impI)
  assume "length us = 64"
  then obtain js where js: "judges_fill bm (judges_new bm 64) 0 us = Some js" "js_umask js = js_umask (judges_new bm 64)"
    using bitmap.fill_ok [OF assms, of 0 us "judges_new bm 64"] by auto
  have "judges_judge bm js"
    using js(2) bitmap.judge_iff [OF assms] bitmap.with_mask_bit [OF assms, of _ 64] by (simp add: judges_new_def)
  with js(1) \<open>length us = 64\<close> show "\<exists>js. judges_fill bm (judges_new bm (length us)) 0 us = Some js \<and> judges_judge bm js" by simp
qed (use bitmap.masked_verdict [OF assms] bitmap.force_verdict [OF assms] in blast)+

theorem judges_spec_witness:
  "\<exists>js. judges_fill word_bitmap (judges_with_mask word_bitmap 2 1) 0 [True, False] = Some js \<and> judges_judge word_bitmap js"
  using judges_spec [OF wbm.bitmap_axioms, of "[True, False]" 1 "[]" "judges_new word_bitmap 0"]
  by (auto simp: less_Suc_eq numeral_2_eq_2)

end
