(* ===== verification/Region_Iter.thy ===== *)
theory Region_Iter
  imports Flush_Buffer Catalog
begin

text \<open>
  The iterator over the entries of a region, \<^verbatim>\<open>RegionEntryIter\<close> of \<^verbatim>\<open>foyer-storage/src/generic.rs\<close>, which
  recovery and the reclaimer use. \<open>None\<close> is a panic: besides assertions, an overflow of the sum of the two 32-bit
  lengths of a header. The lemmas show that the iterator reads what the flush buffer has written: standing at
  the block of an entry it returns the key, the sequence and the place of the entry, and moves to the next block.
\<close>

section \<open>Definitions\<close>

record RegionEntryIter =
  ri_region :: Region
  ri_cursor :: usize

definition iter_open :: "'d device_ops \<Rightarrow> Region \<Rightarrow> 'd \<Rightarrow> (store_error + RegionEntryIter option) option" where
  "iter_open dev rg d = do {
     res \<leftarrow> region_load_range dev rg d (range_to (dv_align dev));
     (case res of
        Inl e \<Rightarrow> Some (Inl e)
      | Inr None \<Rightarrow> Some (Inr None)
      | Inr (Some s) \<Rightarrow> do {
          header \<leftarrow> region_header_read s;
          Some (case header of
              Inl _ \<Rightarrow> Inr None
            | Inr _ \<Rightarrow> Inr (Some \<lparr>ri_region = rg, ri_cursor = dv_align dev\<rparr>))
        })
   }"

definition u32add :: "32 word \<Rightarrow> 32 word \<Rightarrow> 32 word option" where
  "u32add a b = (if unat a + unat b < 2 ^ 32 then Some (a + b) else None)"

text \<open>The key of the entry at the cursor, with its header in \<open>block\<close>; the key is between \<open>abs_start\<close> and
  \<open>abs_end\<close>.\<close>

definition iter_key :: "'d device_ops \<Rightarrow> ('k, 'kc) coder \<Rightarrow> RegionEntryIter \<Rightarrow> 'd \<Rightarrow> bytes \<Rightarrow> EntryHeader \<Rightarrow> usize \<Rightarrow> usize \<Rightarrow>
    (store_error + 'k option) option" where
  "iter_key dev kc it d block header abs_start abs_end = do {
     align_start \<leftarrow> align_down (dv_align dev) abs_start;
     align_end \<leftarrow> align_up (dv_align dev) abs_end;
     prev \<leftarrow> usub (ri_cursor it) (dv_align dev);
     if align_start = prev \<and> align_end = ri_cursor it then do {
       let rel_start = eh_serialized_len + unat (eh_value_len header);
       let rel_end = rel_start + unat (eh_key_len header);
       s \<leftarrow> slice block rel_start rel_end;
       key \<leftarrow> cd_read kc s;
       Some (case key of Inl _ \<Rightarrow> Inr None | Inr k \<Rightarrow> Inr (Some k))
     } else do {
       res \<leftarrow> region_load_range dev (ri_region it) d (range_of align_start align_end);
       (case res of
          Inl e \<Rightarrow> Some (Inl e)
        | Inr None \<Rightarrow> Some (Inr None)
        | Inr (Some s) \<Rightarrow> do {
            rel_start \<leftarrow> usub abs_start align_start;
            rel_end \<leftarrow> usub abs_end align_start;
            sl \<leftarrow> slice s rel_start rel_end;
            key \<leftarrow> cd_read kc sl;
            Some (case key of Inl _ \<Rightarrow> Inr None | Inr k \<Rightarrow> Inr (Some k))
          })
     }
   }"

definition iter_next :: "'d device_ops \<Rightarrow> ('k, 'kc) coder \<Rightarrow> RegionEntryIter \<Rightarrow> 'd \<Rightarrow> counters \<Rightarrow>
    ((store_error + ('k \<times> ('k, 'v) Item) option) \<times> RegionEntryIter \<times> counters) option" where
  "iter_next dev kc it d rf = do {
     region_size \<leftarrow> dv_region_size dev;
     end \<leftarrow> uadd (ri_cursor it) (dv_align dev);
     if end \<ge> region_size then Some (Inr None, it, rf) else do {
       res \<leftarrow> region_load_range dev (ri_region it) d (range_of (ri_cursor it) end);
       (case res of
          Inl e \<Rightarrow> Some (Inl e, it, rf)
        | Inr None \<Rightarrow> Some (Inr None, it, rf)
        | Inr (Some block) \<Rightarrow> do {
            hdr \<leftarrow> eh_read block;
            (case hdr of
               Inl _ \<Rightarrow> Some (Inr None, it, rf)
             | Inr header \<Rightarrow> do {
                 vk \<leftarrow> u32add (eh_value_len header) (eh_key_len header);
                 n \<leftarrow> uadd (unat vk) eh_serialized_len;
                 entry_len \<leftarrow> align_up (dv_align dev) n;
                 s0 \<leftarrow> uadd (ri_cursor it) eh_serialized_len;
                 abs_start \<leftarrow> uadd s0 (unat (eh_value_len header));
                 kv \<leftarrow> u32add (eh_key_len header) (eh_value_len header);
                 abs_end \<leftarrow> uadd s0 (unat kv);
                 if abs_start \<ge> abs_end \<or> abs_end > region_size then Some (Inr None, it, rf) else do {
                   key \<leftarrow> iter_key dev kc it d block header abs_start abs_end;
                   (case key of
                      Inl e \<Rightarrow> Some (Inl e, it, rf)
                    | Inr None \<Rightarrow> Some (Inr None, it, rf)
                    | Inr (Some k) \<Rightarrow> do {
                        let (view, rf') = region_view (ri_region it) (word_of_nat (ri_cursor it)) (word_of_nat entry_len) rf;
                        cursor \<leftarrow> uadd (ri_cursor it) entry_len;
                        Some (Inr (Some (k, item_new (eh_sequence header) (RegionIx view))), it\<lparr>ri_cursor := cursor\<rparr>, rf')
                      })
                 }
               })
          })
     }
   }"

definition iter_next_kv :: "'d device_ops \<Rightarrow> ('k, 'kc) coder \<Rightarrow> ('v, 'vc) coder \<Rightarrow> store_ops \<Rightarrow> RegionEntryIter \<Rightarrow> 'd \<Rightarrow> counters \<Rightarrow>
    ((store_error + ('k \<times> 'v) option) \<times> RegionEntryIter \<times> counters) option" where
  "iter_next_kv dev kc vc ops it d rf = do {
     (res, it', rf') \<leftarrow> iter_next dev kc it d rf;
     (case res of
        Inl e \<Rightarrow> Some (Inl e, it', rf')
      | Inr None \<Rightarrow> Some (Inr None, it', rf')
      | Inr (Some (k, item)) \<Rightarrow> (case it_index (item :: ('k, 'v) Item) of
            Inflight _ _ \<Rightarrow> None
          | RegionIx view \<Rightarrow> do {
              let start = unat (rv_offset view);
              end \<leftarrow> uadd start (unat (rv_len view));
              load \<leftarrow> region_load_range dev (ri_region it') d (range_of start end);
              (case load of
                 Inl e \<Rightarrow> Some (Inl e, it', item_drop item rf')
               | Inr None \<Rightarrow> Some (Inr None, it', item_drop item rf')
               | Inr (Some s) \<Rightarrow> do {
                   kv \<leftarrow> read_entry kc vc ops s;
                   Some (Inr (case kv of Inl _ \<Rightarrow> None | Inr kv \<Rightarrow> Some kv), it', item_drop item rf')
                 })
            }))
   }"

section \<open>Standing at the block of an entry\<close>

lemma slice_read_at:
  assumes "a \<le> b" "b \<le> n" "off + n \<le> length bs"
  shows "slice (read_at bs off n) a b = Some (read_at bs (off + a) (b - a))"
  using assms by (simp add: slice_def read_at_def drop_take add.commute)

text \<open>The parts of a block that holds an entry.\<close>

lemma holds_parts:
  assumes "holds kc vc ops al bs e"
  obtains h vb kb pad where "bs = eh_bytes h @ vb @ kb @ pad" "cd_read kc kb = Some (Inr (fe_key e))" "eh_sequence h = fe_sequence e"
    "unat (eh_value_len h) = length vb" "unat (eh_key_len h) = length kb" "length vb + length kb < 2 ^ 32"
    "length kb = cd_serialized_len kc (fe_key e)" "length pad < al"
proof -
  obtain vb kb vd pad where p: "bs = eh_bytes \<lparr>eh_key_len = word_of_nat (length kb), eh_value_len = word_of_nat (length vb),
      eh_sequence = fe_sequence e, eh_checksum = st_checksum ops (vb @ kb), eh_compression = fe_compression e\<rparr> @ vb @ kb @ pad"
     "cd_read kc kb = Some (Inr (fe_key e))" "length kb = cd_serialized_len kc (fe_key e)" "length vb + length kb < 2 ^ 32" "length pad < al"
    using assms unfolding holds_def by blast
  then show thesis by (intro that [OF p(1,2) _ _ _ p(4,3,5)]) (simp_all add: unat_of_nat)
qed

lemma next_multiple_unique:
  assumes "a dvd m" "v \<le> m" "m < v + a"
  shows "next_multiple a v = m"
proof -
  have a: "0 < a" using assms by (cases a) auto
  note p = next_multiple_props [OF a, of v]
  have "a dvd m - next_multiple a v" using assms(1) p(1) by (rule dvd_diff_nat)
  moreover have "m - next_multiple a v < a" using p(2) assms(3) a by arith
  ultimately have "m - next_multiple a v = 0" by (metis dvd_imp_le neq0_conv not_le)
  with next_multiple_props(4) [OF a assms(1,2)] show ?thesis by simp
qed

context store_io
begin

lemma iter_next_ok:
  fixes e :: "('k, 'v) FlushEntry" and it :: RegionEntryIter and d :: 'd
  defines "D \<equiv> fdata d (rg_id (ri_region it))"
  assumes rg: "rg_id (ri_region it) < dv_regions dev" "rg_waits (ri_region it) = Map.empty"
    and cur: "2 ^ abits dvd ri_cursor it" "2 ^ abits \<le> ri_cursor it" "ri_cursor it + 2 ^ abits < rsize"
    and len: "ri_cursor it + len \<le> rsize" "ri_cursor it + len \<le> length D" "2 ^ abits dvd len"
    and blk: "holds kc vc ops (dv_align dev) (read_at D (ri_cursor it) len) e" and key: "0 < cd_serialized_len kc (fe_key e)"
  shows "\<exists>res it' rf'. iter_next dev kc it d rf = Some (res, it', rf') \<and> (\<forall>e. res = Inl e \<longrightarrow> it' = it \<and> rf' = rf) \<and>
    (\<forall>x. res = Inr x \<longrightarrow> x = Some (fe_key e, item_new (fe_sequence e)
        (RegionIx \<lparr>rv_id = rg_id (ri_region it), rv_offset = word_of_nat (ri_cursor it), rv_len = word_of_nat len\<rparr>)) \<and>
      it' = it\<lparr>ri_cursor := ri_cursor it + len\<rparr> \<and> rf' = rf(rg_id (ri_region it) := fetch_add_1 (rf (rg_id (ri_region it)))))"
proof -
  let ?a = "2 ^ abits :: nat" and ?c = "ri_cursor it"
  obtain h vb kb pad where b: "read_at D ?c len = eh_bytes h @ vb @ kb @ pad" "cd_read kc kb = Some (Inr (fe_key e))" "eh_sequence h = fe_sequence e"
    "unat (eh_value_len h) = length vb" "unat (eh_key_len h) = length kb" "length vb + length kb < 2 ^ 32"
    "length kb = cd_serialized_len kc (fe_key e)" "length pad < ?a"
    using holds_parts [OF blk] align by metis
  have "length (read_at D ?c len) = len" using len(2) by simp
  then have l: "len = 28 + length vb + length kb + length pad" using b(1) by simp
  have nm: "next_multiple ?a (length vb + length kb + 28) = len"
    by (rule next_multiple_unique) (use l len(3) b(8) in simp_all)
  have alen: "?a \<le> len" using len(3) l by (auto dest: dvd_imp_le)
  have lim: "v < usize_lim" if "v \<le> 2 * rsize + 2 ^ 33" for v using that u32 by (simp add: usize_lim_def)
  have s0: "?c + 28 + length vb + length kb \<le> ?c + len" using l by simp
  define block where "block = read_at D ?c ?a"
  have blockeq: "block = take ?a (eh_bytes h @ vb @ kb @ pad)" unfolding block_def b(1) [symmetric] using alen by (simp add: read_at_def min_def)
  have hdr: "eh_read block = Some (Inr h)"
    using eh_round_trip [of h "take (?a - 28) (vb @ kb @ pad)"] header_fits unfolding blockeq by simp
  obtain res where res: "region_load_range dev (ri_region it) d (range_of ?c (?c + ?a)) = Some res"
    "\<forall>o'. res = Inr o' \<longrightarrow> o' = Some block"
    using load_range_ok [of "ri_region it" "?c + ?a" ?c d] rg cur len alen by (auto simp: block_def D_def)
  have u: "u32add (eh_value_len h) (eh_key_len h) = Some (eh_value_len h + eh_key_len h)"
    "u32add (eh_key_len h) (eh_value_len h) = Some (eh_key_len h + eh_value_len h)"
    "unat (eh_value_len h + eh_key_len h) = length vb + length kb" "unat (eh_key_len h + eh_value_len h) = length vb + length kb"
    using b(4-6) by (simp_all add: u32add_def unat_add_lem [THEN iffD1])
  define as where "as = ?c + 28 + length vb - (?c + 28 + length vb) mod ?a"
  define ae where "ae = next_multiple ?a (?c + 28 + length vb + length kb)"
  have as_mod: "as = (?c + 28 + length vb) div ?a * ?a" by (simp add: as_def minus_mod_eq_div_mult)
  have "?c div ?a * ?a \<le> (?c + 28 + length vb) div ?a * ?a" by (intro mult_le_mono1 div_le_mono) simp
  then have as: "?c \<le> as" "as \<le> ?c + 28 + length vb" "?a dvd as" using cur(1) as_mod by (simp_all add: as_def)
  have "?a dvd ?c + len" using cur(1) len(3) by simp
  then have ae: "?c + 28 + length vb + length kb \<le> ae" "ae \<le> ?c + len" "?a dvd ae"
    using next_multiple_props [of ?a "?c + 28 + length vb + length kb"] s0 unfolding ae_def
    by (simp_all add: next_multiple_props(4))
  have al: "align_down (dv_align dev) (?c + 28 + length vb) = Some as"
    "align_up (dv_align dev) (?c + 28 + length vb + length kb) = Some ae"
    using align_down_eq [of "?c + 28 + length vb" abits] align_up_ok [of "?c + 28 + length vb + length kb"] lim [of "?c + 28 + length vb"]
      s0 len(1) align by (simp_all add: as_def ae_def)
  have kb: "read_at D (?c + 28 + length vb) (length kb) = kb"
  proof -
    have "read_at D (?c + (28 + length vb)) (length kb) = read_at (read_at D ?c len) (28 + length vb) (length kb)"
      using l by (intro read_at_of_read_at [symmetric]) simp
    also have "\<dots> = kb" unfolding b(1) by (simp add: read_at_def)
    finally show ?thesis by (simp add: add.assoc)
  qed
  obtain res2 where res2: "region_load_range dev (ri_region it) d (range_of as ae) = Some res2"
    "\<forall>o'. res2 = Inr o' \<longrightarrow> o' = Some (read_at D as (ae - as))"
    using load_range_ok [of "ri_region it" ae as d] rg as ae len dvd_diff_nat [of ?a ae as] by (auto simp: D_def)
  have sl: "slice (read_at D as (ae - as)) (?c + 28 + length vb - as) (?c + 28 + length vb + length kb - as) = Some kb"
    using slice_read_at [of "?c + 28 + length vb - as" "?c + 28 + length vb + length kb - as" "ae - as" as D] as ae len kb by simp
  have ik: "iter_key dev kc it d block h (?c + 28 + length vb) (?c + 28 + length vb + length kb) =
      Some (case res2 of Inl e \<Rightarrow> Inl e | Inr _ \<Rightarrow> Inr (Some (fe_key e)))"
  proof -
    have "0 < ?a" by simp
    then have ne: "as \<noteq> ?c - ?a" using as(1) cur(2) by arith
    show ?thesis
    proof (cases res2)
      case (Inl x)
      then show ?thesis using al ne cur(2) res2 align by (simp add: iter_key_def checked)
    next
      case (Inr y)
      then have "y = Some (read_at D as (ae - as))" using res2 by simp
      then show ?thesis using Inr al ne cur(2) res2 align as sl b(2) by (simp add: iter_key_def checked)
    qed
  qed
  have lims: "?c + ?a < usize_lim" "length vb + length kb + 28 < usize_lim" "?c + 28 < usize_lim" "?c + 28 + length vb < usize_lim"
    "?c + 28 + length vb + length kb < usize_lim" "?c + len < usize_lim" "length vb + length kb + 28 + ?a < usize_lim"
    using cur(3) len(1) l align_le by (auto intro!: lim)
  have up: "align_up (dv_align dev) (length vb + length kb + 28) = Some len"
    using align_up_next [of "length vb + length kb + 28" abits] lims(7) align nm by simp
  have kpos: "0 < length kb" using key b(7) by simp
  show ?thesis
  proof (cases res)
    case (Inl x)
    then show ?thesis using res(1) cur(3) lims(1) region_size(1) align by (simp add: iter_next_def checked)
  next
    case (Inr y)
    then have y: "res = Inr (Some block)" using res(2) by simp
    have run: "iter_next dev kc it d rf = do {
        key \<leftarrow> iter_key dev kc it d block h (?c + 28 + length vb) (?c + 28 + length vb + length kb);
        (case key of
           Inl e \<Rightarrow> Some (Inl e, it, rf)
         | Inr None \<Rightarrow> Some (Inr None, it, rf)
         | Inr (Some k) \<Rightarrow> do {
             let (view, rf') = region_view (ri_region it) (word_of_nat ?c) (word_of_nat len) rf;
             cursor \<leftarrow> uadd ?c len;
             Some (Inr (Some (k, item_new (eh_sequence h) (RegionIx view))), it\<lparr>ri_cursor := cursor\<rparr>, rf')
           })
      }"
      using res(1) y cur(3) lims region_size(1) align hdr u up b(4,5) kpos s0 len(1)
      by (simp add: iter_next_def checked eh_serialized_len_def add.assoc)
    show ?thesis
      using lims(6) b(3) by (cases res2) (simp_all add: run ik region_view_def checked)
  qed
qed

end

end
