(* ===== verification/Region_Stream.thy ===== *)
theory Region_Stream
  imports Flush_Buffer
begin

text \<open>
  The layout of a region that the flush buffer writes: a header block and behind it the blocks of the entries,
  one after the other without a gap. \<open>stream_ok\<close> says it of a sequence of bytes; the lemmas show that in every
  session of a flush buffer it holds of what a region has on the device together with what is still in the
  buffer. Recovery reads regions in this layout.
\<close>

section \<open>Chains of entries\<close>

fun chain :: "nat \<Rightarrow> ('k, 'v) PositionedEntry list \<Rightarrow> nat \<Rightarrow> bool" where
  "chain off [] fin \<longleftrightarrow> off = fin"
| "chain off (pe # es) fin \<longleftrightarrow> pe_offset pe = off \<and> chain (off + pe_len pe) es fin"

lemma chain_append: "chain a (xs @ ys) c \<longleftrightarrow> (\<exists>b. chain a xs b \<and> chain b ys c)"
  by (induction xs arbitrary: a) auto

lemma chain_le: "chain a xs c \<Longrightarrow> a \<le> c"
  by (induction xs arbitrary: a) (auto dest: add_leD1)

lemma chain_end: "chain a xs c \<Longrightarrow> pe \<in> set xs \<Longrightarrow> a \<le> pe_offset pe \<and> pe_offset pe + pe_len pe \<le> c"
proof (induction xs arbitrary: a)
  case (Cons x xs)
  then have "chain (a + pe_len x) xs c" "a + pe_len x \<le> c" using chain_le by auto
  with Cons show ?case by (force)
qed simp

lemma chain_sum: "chain a xs c \<Longrightarrow> c = a + sum_list (map pe_len xs)"
  by (induction xs arbitrary: a) fastforce+

lemma chain_last: "chain a xs c \<Longrightarrow> xs \<noteq> [] \<Longrightarrow> \<exists>pe \<in> set xs. pe_offset pe + pe_len pe = c"
proof (induction xs arbitrary: a)
  case (Cons x xs)
  then show ?case by (cases xs) auto
qed simp

definition stream_ok :: "('k, 'kc) coder \<Rightarrow> ('v, 'vc) coder \<Rightarrow> store_ops \<Rightarrow> nat \<Rightarrow> bytes \<Rightarrow> ('k, 'v) PositionedEntry list \<Rightarrow> bool" where
  "stream_ok kc vc ops al bs es \<longleftrightarrow>
     region_header_read (take al bs) = Some (Inr \<lparr>rh_magic = REGION_MAGIC, rh_version = version_latest\<rparr>) \<and>
     al \<le> length bs \<and> chain al es (length bs) \<and>
     (\<forall>pe \<in> set es. holds kc vc ops al (read_at bs (pe_offset pe) (pe_len pe)) (pe_entry pe) \<and> al dvd pe_len pe)"

lemma stream_ok_append:
  assumes ok: "stream_ok kc vc ops al bs es" and blk: "holds kc vc ops al blk (pe_entry pe)" "al dvd length blk"
    and pe: "pe_offset pe = length bs" "pe_len pe = length blk"
  shows "stream_ok kc vc ops al (bs @ blk) (es @ [pe])"
proof -
  have "read_at (bs @ blk) (pe_offset x) (pe_len x) = read_at bs (pe_offset x) (pe_len x)" if "x \<in> set es" for x
    using ok chain_end [OF _ that] by (intro read_at_append) (auto simp: stream_ok_def)
  moreover have "read_at (bs @ blk) (pe_offset pe) (pe_len pe) = blk" using pe by (simp add: read_at_def)
  ultimately show ?thesis using ok blk pe by (auto simp: stream_ok_def chain_append)
qed

section \<open>The regions of a session\<close>

definition entries_in :: "nat \<Rightarrow> ('k, 'v) PositionedEntry list \<Rightarrow> ('k, 'v) PositionedEntry list" where
  "entries_in r L = filter (\<lambda>pe. pe_region pe = r) L"

definition region_stream :: "('k, 'kc) coder \<Rightarrow> ('v, 'vc) coder \<Rightarrow> store_ops \<Rightarrow> nat \<Rightarrow> (nat \<Rightarrow> bytes) \<Rightarrow>
    ('k, 'v) FlushBuffer \<Rightarrow> ('k, 'v) PositionedEntry list \<Rightarrow> nat \<Rightarrow> bool" where
  "region_stream kc vc ops al disk b L r \<longleftrightarrow>
     (if fb_region b = Some r
      then fb_offset b \<le> length (disk r) \<and> stream_ok kc vc ops al (take (fb_offset b) (disk r) @ fb_buffer b) (entries_in r L @ fb_entries b)
      else entries_in r L \<noteq> [] \<longrightarrow> (\<exists>m \<le> length (disk r). stream_ok kc vc ops al (take m (disk r)) (entries_in r L)))"

lemma entries_in_append [simp]: "entries_in r (xs @ ys) = entries_in r xs @ entries_in r ys"
  by (simp add: entries_in_def)

lemma entries_in_all: "(\<And>pe. pe \<in> set xs \<Longrightarrow> pe_region pe = r) \<Longrightarrow> entries_in r xs = xs"
  by (simp add: entries_in_def)

lemma entries_in_none: "(\<And>pe. pe \<in> set xs \<Longrightarrow> pe_region pe \<noteq> r) \<Longrightarrow> entries_in r xs = []"
  by (simp add: entries_in_def filter_empty_conv)

lemma entries_in_filter: "entries_in r (filter (\<lambda>pe. pe_region pe \<noteq> q) xs) = (if r = q then [] else entries_in r xs)"
  by (auto simp: entries_in_def filter_empty_conv intro: filter_cong)

lemma take_write_at: "off \<le> length old \<Longrightarrow> take (off + length bs) (write_at old off bs) = take off old @ bs"
  by (simp add: write_at_def)

context store_io
begin

lemma inv_entries_region:
  "fb_inv kc vc ops dev b \<Longrightarrow> pe \<in> set (fb_entries b) \<Longrightarrow> fb_region b = Some (pe_region pe)"
  by (auto simp: fb_inv_def split: option.splits)

lemma flush_stream:
  assumes inv: "fb_inv kc vc ops dev b" and fl: "fb_flush ops dev b d = Some (Inr es, b', d')"
    and st: "\<And>r. region_stream kc vc ops (dv_align dev) (fdata d) b L r"
  shows "region_stream kc vc ops (dv_align dev) (fdata d') b' (L @ es) r"
proof (cases "fb_region b")
  case None
  then have "b' = b" "d' = d" "es = []" using fl by (auto simp: fb_flush_def split: if_splits)
  with st show ?thesis by simp
next
  case (Some q)
  from flush_ok [OF inv, of d] fl have es: "es = fb_entries b" and b': "fb_buffer b' = []" "fb_entries b' = []"
      "fb_region b' = fb_region b \<or> fb_region b' = None" "fb_offset b' = fb_offset b + length (fb_buffer b)"
    and disk: "fdata d' q = write_at (fdata d q) (fb_offset b) (fb_buffer b)" "\<forall>r. r \<noteq> q \<longrightarrow> fdata d' r = fdata d r"
    using Some by auto
  have reg: "pe_region pe = q" if "pe \<in> set es" for pe using inv_entries_region [OF inv] that Some es by auto
  show ?thesis
  proof (cases "r = q")
    case True
    have s: "fb_offset b \<le> length (fdata d q)" "stream_ok kc vc ops (dv_align dev) (take (fb_offset b) (fdata d q) @ fb_buffer b) (entries_in q L @ fb_entries b)"
      using st [of q] Some by (simp_all add: region_stream_def)
    have t: "take (fb_offset b') (fdata d' q) = take (fb_offset b) (fdata d q) @ fb_buffer b"
      unfolding disk(1) b'(4) by (rule take_write_at [OF s(1)])
    have len: "fb_offset b' \<le> length (fdata d' q)" unfolding disk(1) b'(4) by (simp add: length_write_at)
    have e: "entries_in q (L @ es) = entries_in q L @ fb_entries b" using entries_in_all [of es q] reg es by simp
    show ?thesis unfolding region_stream_def True e using t s(2) b'(1,2) len by auto
  next
    case False
    have "entries_in r es = []" using reg False by (intro entries_in_none) auto
    with st [of r] False Some b'(3) disk(2) show ?thesis by (auto simp: region_stream_def)
  qed
qed

lemma write_stream:
  assumes inv: "fb_inv kc vc ops dev b" and len: "cd_serialized_len kc (fe_key e) < 2 ^ 60" "cd_serialized_len vc (fe_value e) < 2 ^ 60"
    and w: "fb_write ops kc vc dev e b d = Some (Inr es, b', d')"
    and st: "\<And>r. region_stream kc vc ops (dv_align dev) (fdata d) b L r"
  shows "region_stream kc vc ops (dv_align dev) (fdata d') b' (L @ es) r"
proof -
  obtain pe blk where ap: "appended ops dev b d e pe blk es b' d'" and hb: "holds kc vc ops (dv_align dev) blk e" "pe_entry pe = e"
    and inv1: "fb_inv kc vc ops dev (b\<lparr>fb_buffer := fb_buffer b @ blk, fb_entries := fb_entries b @ [pe]\<rparr>)" (is "fb_inv _ _ _ _ ?b")
    using write_appends [OF inv len, of d] w by auto
  obtain q where q: "fb_region b = Some q" using ap by (auto simp: appended_def)
  have pe: "pe_offset pe = fb_offset b + length (fb_buffer b)" "pe_len pe = length blk" "pe_region pe = q"
    using ap q by (auto simp: appended_def)
  have dvd: "dv_align dev dvd length blk"
  proof -
    have "dv_align dev dvd length (fb_buffer b)" "dv_align dev dvd length (fb_buffer b) + length blk"
      using inv inv1 q by (simp_all add: fb_inv_def)
    then show ?thesis by (simp add: dvd_add_right_iff)
  qed
  have st1: "region_stream kc vc ops (dv_align dev) (fdata d) ?b L r" for r
  proof (cases "r = q")
    case True
    have s: "fb_offset b \<le> length (fdata d q)" "stream_ok kc vc ops (dv_align dev) (take (fb_offset b) (fdata d q) @ fb_buffer b) (entries_in q L @ fb_entries b)"
      using st [of q] q by (simp_all add: region_stream_def)
    have "stream_ok kc vc ops (dv_align dev) ((take (fb_offset b) (fdata d q) @ fb_buffer b) @ blk) ((entries_in q L @ fb_entries b) @ [pe])"
      by (rule stream_ok_append [OF s(2) _ dvd]) (use hb pe s(1) in simp_all)
    then show ?thesis using True q s(1) by (simp add: region_stream_def)
  next
    case False
    with st [of r] q show ?thesis by (simp add: region_stream_def)
  qed
  from ap consider "es = []" "b' = ?b" "d' = d" | "fb_flush ops dev ?b d = Some (Inr es, b', d')" by (auto simp: appended_def Let_def)
  then show ?thesis
  proof cases
    case 1
    then show ?thesis using st1 by simp
  next
    case 2
    then show ?thesis by (rule flush_stream [OF inv1 _ st1])
  qed
qed

lemma rotate_stream:
  assumes inv: "fb_inv kc vc ops dev b" and region: "region < dv_regions dev"
    and ro: "fb_rotate ops dev b d region = Some (Inr es, b', d')"
    and st: "\<And>r. region_stream kc vc ops (dv_align dev) (fdata d) b L r"
  shows "region_stream kc vc ops (dv_align dev) (fdata d') b' (filter (\<lambda>pe. pe_region pe \<noteq> region) (L @ es)) r"
proof -
  from rotate_ok [OF inv region, of d] ro have b': "fb_region b' = Some region" "fb_offset b' = 0" "fb_entries b' = []"
      "length (fb_buffer b') = dv_align dev"
      "region_header_read (fb_buffer b') = Some (Inr \<lparr>rh_magic = REGION_MAGIC, rh_version = version_latest\<rparr>)" by auto
  obtain b1 where fl: "fb_flush ops dev b d = Some (Inr es, b1, d')"
    using ro by (auto simp: fb_rotate_def split: bind_splits sum.splits if_splits)
  have b1: "fb_buffer b1 = []" "fb_entries b1 = []" using flush_ok [OF inv, of d] fl by auto
  have st1: "region_stream kc vc ops (dv_align dev) (fdata d') b1 (L @ es) r" by (rule flush_stream [OF inv fl st])
  show ?thesis
  proof (cases "r = region")
    case True
    then show ?thesis using b' by (simp add: region_stream_def entries_in_filter stream_ok_def)
  next
    case False
    then have e: "entries_in r (filter (\<lambda>pe. pe_region pe \<noteq> region) (L @ es)) = entries_in r (L @ es)" by (simp only: entries_in_filter if_False)
    show ?thesis using st1 b' b1 False unfolding region_stream_def e by (auto split: if_splits)
  qed
qed

lemma session_stream:
  assumes "fb_session ops kc vc dev b d L"
  shows "region_stream kc vc ops (dv_align dev) (fdata d) b L r"
  using assms
proof (induction arbitrary: r rule: fb_session.induct)
  case (session_new b d)
  then show ?case by (auto simp: region_stream_def fb_new_def entries_in_def split: bind_splits)
next
  case (session_write b d L e es b' d')
  have inv: "fb_inv kc vc ops dev b" using session_inv [OF session_write.hyps(1)] by (simp add: session_ok_def)
  show ?case by (rule write_stream [OF inv session_write.hyps(2-4) session_write.IH])
next
  case (session_full b d L e e' b' d')
  have inv: "fb_inv kc vc ops dev b" using session_inv [OF session_full.hyps(1)] by (simp add: session_ok_def)
  from write_appends [OF inv session_full.hyps(2,3), of d] session_full.hyps(4) have "b' = b" "d' = d" by auto
  with session_full.IH show ?case by simp
next
  case (session_flush b d L es b' d')
  have inv: "fb_inv kc vc ops dev b" using session_inv [OF session_flush.hyps(1)] by (simp add: session_ok_def)
  show ?case by (rule flush_stream [OF inv session_flush.hyps(2) session_flush.IH])
next
  case (session_rotate b d L region es b' d')
  have inv: "fb_inv kc vc ops dev b" using session_inv [OF session_rotate.hyps(1)] by (simp add: session_ok_def)
  show ?case by (rule rotate_stream [OF inv session_rotate.hyps(2,3) session_rotate.IH])
qed

end

end
