(* ===== verification/Recovery.thy ===== *)
theory Recovery
  imports Region_Iter Region_Stream Region_Manager
begin

text \<open>
  Recovery, \<^verbatim>\<open>recover_region\<close> and \<^verbatim>\<open>recover\<close> of \<^verbatim>\<open>foyer-storage/src/generic.rs\<close>: what is found in the regions goes into
  the catalog. The loop over the entries of a region is a partial function, \<open>None\<close> also stands for a loop that
  does not end. The tasks of \<^verbatim>\<open>recover\<close> run one region each; \<open>order\<close> is the order in which they run. The lemmas show
  that recovery of a region that a flush buffer has written restores the items of all its entries.
\<close>

section \<open>Definitions\<close>

partial_function (option) recover_loop :: "'d device_ops \<Rightarrow> ('k::linorder, 'kc) coder \<Rightarrow> ('k \<Rightarrow> 64 word) \<Rightarrow> nat \<Rightarrow>
    RegionEntryIter \<Rightarrow> 'd \<Rightarrow> 64 word \<Rightarrow> ('k, 'v) Catalog \<Rightarrow> counters \<Rightarrow> ((store_error + 64 word) \<times> ('k, 'v) Catalog \<times> counters) option" where
  "recover_loop dev kc hash now it d sequence c rf = do {
     (res, it', rf1) \<leftarrow> iter_next dev kc it d rf;
     (case res of
        Inl e \<Rightarrow> Some (Inl e, c, rf1)
      | Inr None \<Rightarrow> Some (Inr sequence, c, rf1)
      | Inr (Some (key, item)) \<Rightarrow> do {
          (c', rf2) \<leftarrow> catalog_insert hash now key item c rf1;
          recover_loop dev kc hash now it' d (max sequence (it_sequence item)) c' rf2
        })
   }"

declare recover_loop.simps [code]

definition recover_region :: "'e ep_ops \<Rightarrow> 'd device_ops \<Rightarrow> ('k::linorder, 'kc) coder \<Rightarrow> ('k \<Rightarrow> 64 word) \<Rightarrow> nat \<Rightarrow> nat \<Rightarrow> 'd \<Rightarrow>
    'e RegionManager \<Rightarrow> ('k, 'v) Catalog \<Rightarrow> counters \<Rightarrow>
    ((store_error + 64 word option) \<times> 'e RegionManager \<times> ('k, 'v) Catalog \<times> counters) option" where
  "recover_region ep dev kc hash now rid d rm c rf = do {
     rg \<leftarrow> rm_region rm rid;
     opened \<leftarrow> iter_open dev rg d;
     (case opened of
        Inl e \<Rightarrow> Some (Inl e, rm, c, rf)
      | Inr None \<Rightarrow> Some (Inr None, rm\<lparr>rm_clean_regions := snd (release (rm_clean_regions rm) rid)\<rparr>, c, rf)
      | Inr (Some it) \<Rightarrow> do {
          (res, c', rf') \<leftarrow> recover_loop dev kc hash now it d 0 c rf;
          (case res of
             Inl e \<Rightarrow> Some (Inl e, rm, c', rf')
           | Inr sequence \<Rightarrow> do {
               rm' \<leftarrow> eviction_push ep rm rid;
               Some (Inr (Some sequence), rm', c', rf')
             })
        })
   }"

fun recover_regions :: "'e ep_ops \<Rightarrow> 'd device_ops \<Rightarrow> ('k::linorder, 'kc) coder \<Rightarrow> ('k \<Rightarrow> 64 word) \<Rightarrow> nat \<Rightarrow> nat list \<Rightarrow> 'd \<Rightarrow>
    'e RegionManager \<Rightarrow> ('k, 'v) Catalog \<Rightarrow> counters \<Rightarrow>
    ((nat \<times> (store_error + 64 word option)) list \<times> 'e RegionManager \<times> ('k, 'v) Catalog \<times> counters) option" where
  "recover_regions ep dev kc hash now [] d rm c rf = Some ([], rm, c, rf)"
| "recover_regions ep dev kc hash now (rid # order) d rm c rf = do {
     (res, rm1, c1, rf1) \<leftarrow> recover_region ep dev kc hash now rid d rm c rf;
     (results, rm2, c2, rf2) \<leftarrow> recover_regions ep dev kc hash now order d rm1 c1 rf1;
     Some ((rid, res) # results, rm2, c2, rf2)
   }"

text \<open>Going through the results in the order of the regions: the number of regions that were recovered and the
  largest sequence, or the first error.\<close>

fun recover_collect :: "(store_error + 64 word option) list \<Rightarrow> usize \<Rightarrow> 64 word \<Rightarrow> store_error + (usize \<times> 64 word)" where
  "recover_collect [] recovered sequence = Inr (recovered, sequence)"
| "recover_collect (Inl e # rs) recovered sequence = Inl e"
| "recover_collect (Inr None # rs) recovered sequence = recover_collect rs recovered sequence"
| "recover_collect (Inr (Some s) # rs) recovered sequence = recover_collect rs (recovered + 1) (max sequence s)"

definition recover :: "'e ep_ops \<Rightarrow> 'd device_ops \<Rightarrow> ('k::linorder, 'kc) coder \<Rightarrow> ('k \<Rightarrow> 64 word) \<Rightarrow> nat \<Rightarrow> nat list \<Rightarrow> 'd \<Rightarrow>
    'e RegionManager \<Rightarrow> ('k, 'v) Catalog \<Rightarrow> counters \<Rightarrow>
    ((store_error + 64 word) \<times> 'e RegionManager \<times> ('k, 'v) Catalog \<times> counters) option" where
  "recover ep dev kc hash now order d rm c rf = do {
     (results, rm1, c1, rf1) \<leftarrow> recover_regions ep dev kc hash now order d rm c rf;
     (case recover_collect (map (\<lambda>rid. the (map_of results rid)) [0..<dv_regions dev]) 0 0 of
        Inl e \<Rightarrow> Some (Inl e, rm1, c1, rf1)
      | Inr (recovered, sequence) \<Rightarrow>
          Some (Inr sequence,
            (if recovered = dv_regions dev then rm1\<lparr>rm_clean_regions := flash (rm_clean_regions rm1)\<rparr> else rm1), c1, rf1))
   }"

section \<open>The items of a region\<close>

definition recovered_item :: "nat \<Rightarrow> nat \<Rightarrow> ('k, 'v) PositionedEntry \<Rightarrow> ('k, 'v) Item" where
  "recovered_item now r pe = \<lparr>it_sequence = fe_sequence (pe_entry pe),
     it_index = RegionIx \<lparr>rv_id = r, rv_offset = word_of_nat (pe_offset pe), rv_len = word_of_nat (pe_len pe)\<rparr>, it_inserted = Some now\<rparr>"

definition recovered_items :: "nat \<Rightarrow> nat \<Rightarrow> ('k, 'v) PositionedEntry list \<Rightarrow> ('k \<times> ('k, 'v) Item) list" where
  "recovered_items now r es = map (\<lambda>pe. (fe_key (pe_entry pe), recovered_item now r pe)) es"

definition max_sequence :: "64 word \<Rightarrow> ('k, 'v) PositionedEntry list \<Rightarrow> 64 word" where
  "max_sequence s es = fold (\<lambda>pe s. max s (fe_sequence (pe_entry pe))) es s"

text \<open>Behind the entries there is nothing that looks like an entry.\<close>

definition stream_ends :: "'d device_ops \<Rightarrow> bytes \<Rightarrow> nat \<Rightarrow> bool" where
  "stream_ends dev disk m \<longleftrightarrow> the (dv_region_size dev) \<le> m + dv_align dev \<or> length disk < m + dv_align dev \<or>
     (\<exists>e. eh_read (read_at disk m (dv_align dev)) = Some (Inl e))"

text \<open>What a region holds: nothing, or a header and these entries. An entry in the last block of a region is not
  found, nor one with an empty key.\<close>

definition region_layout :: "'d device_ops \<Rightarrow> ('k, 'kc) coder \<Rightarrow> ('v, 'vc) coder \<Rightarrow> store_ops \<Rightarrow> bytes \<Rightarrow> ('k, 'v) PositionedEntry list option \<Rightarrow> bool" where
  "region_layout dev kc vc ops disk x \<longleftrightarrow> (case x of
       None \<Rightarrow> length disk < dv_align dev \<or> (\<exists>e. region_header_read (take (dv_align dev) disk) = Some (Inl e))
     | Some es \<Rightarrow> (\<exists>m \<le> length disk. m \<le> the (dv_region_size dev) \<and> stream_ok kc vc ops (dv_align dev) (take m disk) es \<and>
         stream_ends dev disk m \<and>
         (\<forall>pe \<in> set es. pe_offset pe + dv_align dev < the (dv_region_size dev) \<and> 0 < cd_serialized_len kc (fe_key (pe_entry pe)))))"

definition recovered_map :: "nat \<Rightarrow> nat \<Rightarrow> ('k, 'v) PositionedEntry list option \<Rightarrow> 'k \<rightharpoonup> ('k, 'v) Item" where
  "recovered_map now r x = (case x of None \<Rightarrow> Map.empty | Some es \<Rightarrow> map_of (rev (recovered_items now r es)))"

lemma read_at_take: "a + n \<le> m \<Longrightarrow> read_at (take m bs) a n = read_at bs a n"
  by (simp add: read_at_def take_drop add.commute min_def)

lemma stream_ok_Cons:
  assumes "chain a (pe # es) c" "\<forall>x \<in> set (pe # es). P x"
  shows "pe_offset pe = a" "chain (a + pe_len pe) es c" "\<forall>x \<in> set es. P x" "P pe"
  using assms by auto

lemma max_sequence_append: "max_sequence s (xs @ ys) = max_sequence (max_sequence s xs) ys"
  by (simp add: max_sequence_def)

lemma max_sequence_max: "max_sequence (max s t) xs = max s (max_sequence t xs)"
  by (induction xs arbitrary: t) (simp_all add: max_sequence_def max.assoc)

lemma recover_collect_Inr: "recover_collect rs n s = Inr x \<Longrightarrow> \<forall>r \<in> set rs. \<exists>y. r = Inr y"
  by (induction rs n s rule: recover_collect.induct) auto

lemma recover_collect_max:
  "\<exists>n'. recover_collect (map (\<lambda>rid. Inr (map_option (max_sequence 0) (es rid))) rids) n s = Inr (n', max_sequence s (concat (List.map_filter es rids)))"
proof (induction rids arbitrary: n s)
  case (Cons rid rids)
  show ?case
  proof (cases "es rid")
    case (Some xs)
    have "max_sequence s xs = max s (max_sequence 0 xs)" using max_sequence_max [of s 0 xs] by simp
    with Some Cons show ?thesis by (simp add: map_filter_simps max_sequence_append)
  qed (use Cons in \<open>simp add: map_filter_simps\<close>)
qed (simp add: map_filter_simps max_sequence_def)

context store_io
begin

lemma iter_open_ok:
  assumes "rg_id rg < dv_regions dev" "rg_waits rg = Map.empty" "dv_align dev \<le> length (fdata d (rg_id rg))"
    "region_header_read (take (dv_align dev) (fdata d (rg_id rg))) = Some (Inr h)"
  shows "\<exists>res. iter_open dev rg d = Some res \<and> (\<forall>x. res = Inr x \<longrightarrow> x = Some \<lparr>ri_region = rg, ri_cursor = dv_align dev\<rparr>)"
proof -
  have eq: "region_load_range dev rg d (range_to (dv_align dev)) = region_load_range dev rg d (range_of 0 (dv_align dev))"
    using region_size(1) by (simp add: region_load_range_def)
  obtain res where res: "region_load_range dev rg d (range_of 0 (dv_align dev)) = Some res"
    "\<forall>o'. res = Inr o' \<longrightarrow> o' = Some (take (dv_align dev) (fdata d (rg_id rg)))"
    using load_range_ok [of rg "dv_align dev" 0 d] assms align align_le by (auto simp: read_at_def)
  show ?thesis using res assms(4) by (cases res) (auto simp: iter_open_def eq)
qed

lemma iter_next_end:
  assumes rg: "rg_id (ri_region it) < dv_regions dev" "rg_waits (ri_region it) = Map.empty"
    and cur: "2 ^ abits dvd ri_cursor it" "ri_cursor it \<le> rsize"
    and fin: "stream_ends dev (fdata d (rg_id (ri_region it))) (ri_cursor it)"
  shows "\<exists>res. iter_next dev kc it d rf = Some (res, it, rf) \<and> (\<forall>x. res = Inr x \<longrightarrow> x = None)"
proof -
  have lim: "ri_cursor it + dv_align dev < usize_lim" using cur(2) align align_le u32 by (simp add: usize_lim_def)
  show ?thesis
  proof (cases "rsize \<le> ri_cursor it + dv_align dev")
    case True
    then show ?thesis using lim region_size(1) by (simp add: iter_next_def checked)
  next
    case False
    obtain res where res: "region_load_range dev (ri_region it) d (range_of (ri_cursor it) (ri_cursor it + dv_align dev)) = Some res"
      "\<forall>o'. res = Inr o' \<longrightarrow> o' = (if ri_cursor it + dv_align dev \<le> length (fdata d (rg_id (ri_region it)))
         then Some (read_at (fdata d (rg_id (ri_region it))) (ri_cursor it) (dv_align dev)) else None)"
      using load_range_ok [of "ri_region it" "ri_cursor it + 2 ^ abits" "ri_cursor it" d] rg cur False unfolding align by (auto cong: if_cong)
    show ?thesis
    proof (cases "\<exists>x. res = Inr (Some x)")
      case True
      then obtain e where "res = Inr (Some (read_at (fdata d (rg_id (ri_region it))) (ri_cursor it) (dv_align dev)))"
        "eh_read (read_at (fdata d (rg_id (ri_region it))) (ri_cursor it) (dv_align dev)) = Some (Inl e)"
        using res(2) fin False region_size(1) by (auto simp: stream_ends_def split: if_splits)
      then show ?thesis using res(1) lim False region_size(1) by (simp add: iter_next_def checked)
    next
      case nb: False
      then show ?thesis using res(1) lim False region_size(1)
        by (cases res) (auto simp: iter_next_def checked split: option.splits)
    qed
  qed
qed

end

text \<open>A store on a device: its keys are ordered, as the trees of the catalog need, and it has an eviction policy for
  its regions.\<close>

locale disk_store = store_io dev fdata rsize abits ops kc vc + eviction_policy ep ok members
  for dev :: "'d device_ops" and fdata rsize abits ops and kc :: "('k::linorder, 'kc) coder" and vc :: "('v, 'vc) coder"
    and ep :: "'e ep_ops" and ok members +
  fixes hash :: "'k \<Rightarrow> 64 word"
  assumes few_regions: "dv_regions dev < 2 ^ 32"
begin

lemma recover_loop_ok:
  fixes c :: "('k, 'v) Catalog"
  assumes "catalog_inv hash (dv_regions dev) c"
    and "rg_id (ri_region it) = r" "r < dv_regions dev" "rg_waits (ri_region it) = Map.empty"
    and "2 ^ abits dvd ri_cursor it" "2 ^ abits \<le> ri_cursor it"
    and "chain (ri_cursor it) es m" "m \<le> length (fdata d r)" "m \<le> rsize"
    and "\<forall>pe \<in> set es. holds kc vc ops (dv_align dev) (read_at (fdata d r) (pe_offset pe) (pe_len pe)) (pe_entry pe) \<and>
      2 ^ abits dvd pe_len pe \<and> pe_offset pe + 2 ^ abits < rsize \<and> 0 < cd_serialized_len kc (fe_key (pe_entry pe))"
    and fin: "stream_ends dev (fdata d r) m"
  shows "\<exists>res c' rf'. recover_loop dev kc hash now it d s c rf = Some (res, c', rf') \<and> catalog_inv hash (dv_regions dev) c' \<and>
    (\<forall>x. res = Inr x \<longrightarrow> x = max_sequence s es \<and> catalog_map hash c' = catalog_map hash c ++ map_of (rev (recovered_items now r es))) \<and>
    (\<forall>out. counted (catalog_map hash c) out rf \<longrightarrow> counted (catalog_map hash c') out rf')"
  using assms(1-10)
proof (induction es arbitrary: it s c rf)
  case Nil
  then have cm: "ri_cursor it = m" by simp
  from iter_next_end [of it d rf] Nil cm fin obtain res :: "store_error + ('k \<times> ('k, 'v) Item) option"
    where "iter_next dev kc it d rf = Some (res, it, rf)" "\<forall>x. res = Inr x \<longrightarrow> x = None"
    by auto
  with Nil show ?case by (subst recover_loop.simps) (cases res; simp add: max_sequence_def recovered_items_def)
next
  case (Cons pe es)
  note c1 = stream_ok_Cons [OF Cons.prems(7) Cons.prems(10)]
  have le: "ri_cursor it + pe_len pe \<le> m" using chain_le [OF c1(2)] .
  let ?item = "item_new (fe_sequence (pe_entry pe))
        (RegionIx \<lparr>rv_id = r, rv_offset = word_of_nat (pe_offset pe), rv_len = word_of_nat (pe_len pe)\<rparr>) :: ('k, 'v) Item"
  obtain res :: "store_error + ('k \<times> ('k, 'v) Item) option" and it' rf1 where nx: "iter_next dev kc it d rf = Some (res, it', rf1)"
    "\<forall>e. res = Inl e \<longrightarrow> it' = it \<and> rf1 = rf"
    "\<forall>x. res = Inr x \<longrightarrow> x = Some (fe_key (pe_entry pe), ?item) \<and> it' = it\<lparr>ri_cursor := ri_cursor it + pe_len pe\<rparr> \<and>
      rf1 = rf(r := fetch_add_1 (rf r))"
    using iter_next_ok [of it "pe_len pe" d "pe_entry pe" rf] Cons.prems(2-6,8,9) c1(1,4) le by auto
  show ?case
  proof (cases res)
    case (Inl e)
    with nx Cons.prems(1) show ?thesis by (subst recover_loop.simps) simp
  next
    case (Inr x)
    then have x: "res = Inr (Some (fe_key (pe_entry pe), ?item))" "it' = it\<lparr>ri_cursor := ri_cursor it + pe_len pe\<rparr>"
      "rf1 = rf(r := fetch_add_1 (rf r))" using nx(3) by auto
    have view: "\<forall>v. it_index ?item = RegionIx v \<longrightarrow> rv_id v < dv_regions dev" using Cons.prems(3) by (auto simp: item_new_def)
    have ri: "?item\<lparr>it_inserted := Some now\<rparr> = recovered_item now r pe" by (simp add: item_new_def recovered_item_def)
    obtain c' rf2 where ins: "catalog_insert hash now (fe_key (pe_entry pe)) ?item c rf1 = Some (c', rf2)"
      "catalog_inv hash (dv_regions dev) c'" "catalog_map hash c' = (catalog_map hash c)(fe_key (pe_entry pe) \<mapsto> ?item\<lparr>it_inserted := Some now\<rparr>)"
      "\<forall>out. counted (catalog_map hash c) (\<lambda>q. out q + item_views ?item q) rf1 \<longrightarrow> counted (catalog_map hash c') out rf2"
      using catalog_insert_ok [where item = ?item and now = now and k = "fe_key (pe_entry pe)" and rf = rf1, OF Cons.prems(1) view] by (elim exE conjE)
    obtain res' c'' rf' where rest: "recover_loop dev kc hash now it' d (max s (fe_sequence (pe_entry pe))) c' rf2 = Some (res', c'', rf')"
      "catalog_inv hash (dv_regions dev) c''"
      "\<forall>x. res' = Inr x \<longrightarrow> x = max_sequence (max s (fe_sequence (pe_entry pe))) es \<and> catalog_map hash c'' = catalog_map hash c' ++ map_of (rev (recovered_items now r es))"
      "\<forall>out. counted (catalog_map hash c') out rf2 \<longrightarrow> counted (catalog_map hash c'') out rf'"
      using Cons.IH [OF ins(2), of it' "max s (fe_sequence (pe_entry pe))" rf2] Cons.prems(2-6,8,9) c1 x(2) by auto
    have run: "recover_loop dev kc hash now it d s c rf = Some (res', c'', rf')"
      using nx(1) x(1) ins(1) rest(1) by (subst recover_loop.simps) (simp add: item_new_def)
    have map: "catalog_map hash c' ++ map_of (rev (recovered_items now r es)) = catalog_map hash c ++ map_of (rev (recovered_items now r (pe # es)))"
      unfolding ins(3) ri by (simp add: recovered_items_def map_add_upd_left)
    have cnt: "counted (catalog_map hash c'') out rf'" if "counted (catalog_map hash c) out rf" for out
    proof -
      have "counted (catalog_map hash c) (\<lambda>q. out q + item_views ?item q) rf1"
        using that fetch_add_mod by (auto simp: counted_def x(3) item_views_def item_new_def)
      then show ?thesis using ins(4) rest(4) by blast
    qed
    show ?thesis using run rest(2,3) map cnt by (simp add: max_sequence_def)
  qed
qed

lemma recover_region_ok:
  fixes c :: "('k, 'v) Catalog"
  assumes rm: "rm_ok ok members (dv_regions dev) rm" and r: "r < dv_regions dev" "r \<notin> members (rm_eviction rm)"
    and c: "catalog_inv hash (dv_regions dev) c"
    and st: "stream_ok kc vc ops (dv_align dev) (take m (fdata d r)) es" "m \<le> length (fdata d r)" "m \<le> rsize"
    and pos: "\<forall>pe \<in> set es. pe_offset pe + 2 ^ abits < rsize \<and> 0 < cd_serialized_len kc (fe_key (pe_entry pe))"
    and fin: "stream_ends dev (fdata d r) m"
  shows "\<exists>res rm' c' rf'. recover_region ep dev kc hash now r d rm c rf = Some (res, rm', c', rf') \<and> catalog_inv hash (dv_regions dev) c' \<and>
    (\<forall>x. res = Inr x \<longrightarrow> x = Some (max_sequence 0 es) \<and> catalog_map hash c' = catalog_map hash c ++ map_of (rev (recovered_items now r es)) \<and>
      members (rm_eviction rm') = insert r (members (rm_eviction rm))) \<and>
    rm_ok ok members (dv_regions dev) rm' \<and> members (rm_eviction rm') \<subseteq> insert r (members (rm_eviction rm)) \<and>
    rm_clean_regions rm' = rm_clean_regions rm \<and> (\<forall>out. counted (catalog_map hash c) out rf \<longrightarrow> counted (catalog_map hash c') out rf')"
proof -
  obtain rg where rg: "rm_region rm r = Some rg" "rg_id rg = r" "rg_waits rg = Map.empty" using rm_region_ok [OF rm r(1)] by blast
  have len: "length (take m (fdata d r)) = m" using st(2) by simp
  have s: "dv_align dev \<le> m" "chain (dv_align dev) es m"
      "region_header_read (take (dv_align dev) (take m (fdata d r))) = Some (Inr \<lparr>rh_magic = REGION_MAGIC, rh_version = version_latest\<rparr>)"
      "\<forall>pe \<in> set es. holds kc vc ops (dv_align dev) (read_at (take m (fdata d r)) (pe_offset pe) (pe_len pe)) (pe_entry pe) \<and> dv_align dev dvd pe_len pe"
    using st(1) unfolding stream_ok_def len by auto
  have hdr: "region_header_read (take (dv_align dev) (fdata d r)) = Some (Inr \<lparr>rh_magic = REGION_MAGIC, rh_version = version_latest\<rparr>)"
    using s(1,3) by (simp add: take_take min_def)
  obtain op where op: "iter_open dev rg d = Some op" "\<forall>x. op = Inr x \<longrightarrow> x = Some \<lparr>ri_region = rg, ri_cursor = dv_align dev\<rparr>"
    using iter_open_ok [of rg d] rg r(1) s(1) st(2) hdr by (metis order_trans)
  show ?thesis
  proof (cases op)
    case (Inl e)
    with op rg rm c show ?thesis by (auto simp: recover_region_def)
  next
    case (Inr x)
    then have x: "op = Inr (Some \<lparr>ri_region = rg, ri_cursor = dv_align dev\<rparr>)" using op(2) by simp
    have hold: "\<forall>pe \<in> set es. holds kc vc ops (dv_align dev) (read_at (fdata d r) (pe_offset pe) (pe_len pe)) (pe_entry pe) \<and>
        2 ^ abits dvd pe_len pe \<and> pe_offset pe + 2 ^ abits < rsize \<and> 0 < cd_serialized_len kc (fe_key (pe_entry pe))"
      using s(4) pos chain_end [OF s(2)] by (auto simp: align read_at_take)
    obtain res c' rf' where lp: "recover_loop dev kc hash now \<lparr>ri_region = rg, ri_cursor = dv_align dev\<rparr> d 0 c rf = Some (res, c', rf')"
      "catalog_inv hash (dv_regions dev) c'"
      "\<forall>x. res = Inr x \<longrightarrow> x = max_sequence 0 es \<and> catalog_map hash c' = catalog_map hash c ++ map_of (rev (recovered_items now r es))"
      "\<forall>out. counted (catalog_map hash c) out rf \<longrightarrow> counted (catalog_map hash c') out rf'"
      using recover_loop_ok [where it = "\<lparr>ri_region = rg, ri_cursor = dv_align dev\<rparr>" and r = r and m = m and es = es and d = d and s = 0 and rf = rf and now = now,
        OF c _ r(1) _ _ _ _ st(2,3) hold fin] rg s(2) by (auto simp: align)
    obtain rm' where pu: "eviction_push ep rm r = Some rm'" "rm_ok ok members (dv_regions dev) rm'" "members (rm_eviction rm') = insert r (members (rm_eviction rm))"
      "rm_clean_regions rm' = rm_clean_regions rm"
      using eviction_push_ok [OF rm r] by blast
    show ?thesis using lp pu op(1) x rg(1) rm by (cases res) (auto simp: recover_region_def)
  qed
qed

lemma iter_open_none:
  assumes "rg_id rg < dv_regions dev" "rg_waits rg = Map.empty"
    "length (fdata d (rg_id rg)) < dv_align dev \<or> (\<exists>e. region_header_read (take (dv_align dev) (fdata d (rg_id rg))) = Some (Inl e))"
  shows "\<exists>res. iter_open dev rg d = Some res \<and> (\<forall>x. res = Inr x \<longrightarrow> x = None)"
proof -
  have eq: "region_load_range dev rg d (range_to (dv_align dev)) = region_load_range dev rg d (range_of 0 (dv_align dev))"
    using region_size(1) by (simp add: region_load_range_def)
  obtain res where res: "region_load_range dev rg d (range_of 0 (dv_align dev)) = Some res"
    "\<forall>o'. res = Inr o' \<longrightarrow> o' = (if dv_align dev \<le> length (fdata d (rg_id rg)) then Some (read_at (fdata d (rg_id rg)) 0 (dv_align dev)) else None)"
    using load_range_ok [of rg "dv_align dev" 0 d] assms(1,2) align align_le by (auto cong: if_cong)
  show ?thesis using res assms(3) by (cases res) (auto simp: iter_open_def eq read_at_def split: if_splits)
qed

lemma recover_region_layout:
  fixes c :: "('k, 'v) Catalog"
  assumes rm: "rm_ok ok members (dv_regions dev) rm" and r: "r < dv_regions dev" "r \<notin> members (rm_eviction rm)"
    and c: "catalog_inv hash (dv_regions dev) c" and lay: "region_layout dev kc vc ops (fdata d r) x"
  shows "\<exists>res rm' c' rf'. recover_region ep dev kc hash now r d rm c rf = Some (res, rm', c', rf') \<and> catalog_inv hash (dv_regions dev) c' \<and>
    rm_ok ok members (dv_regions dev) rm' \<and> members (rm_eviction rm') \<subseteq> insert r (members (rm_eviction rm)) \<and>
    (\<forall>y. res = Inr y \<longrightarrow> y = map_option (max_sequence 0) x \<and> catalog_map hash c' = catalog_map hash c ++ recovered_map now r x \<and>
      members (rm_eviction rm') = members (rm_eviction rm) \<union> (if x = None then {} else {r}) \<and>
      aq_queue (rm_clean_regions rm') = aq_queue (rm_clean_regions rm) @ (if x = None then [r] else [])) \<and>
    (\<forall>out. counted (catalog_map hash c) out rf \<longrightarrow> counted (catalog_map hash c') out rf')"
proof (cases x)
  case None
  obtain rg where rg: "rm_region rm r = Some rg" "rg_id rg = r" "rg_waits rg = Map.empty" using rm_region_ok [OF rm r(1)] by blast
  obtain op where op: "iter_open dev rg d = Some op" "\<forall>x. op = Inr x \<longrightarrow> x = None"
    using iter_open_none [of rg d] rg r(1) lay None by (auto simp: region_layout_def)
  have q: "aq_queue (snd (release qu r)) = aq_queue qu @ [r]" for qu
    by (simp add: release_def notify_one_def split: list.splits)
  show ?thesis
  proof (cases op)
    case (Inl e)
    with rg op rm c show ?thesis by (auto simp: recover_region_def)
  next
    case (Inr y)
    with op have "op = Inr None" by simp
    with rg op rm c None q show ?thesis by (auto simp: recover_region_def recovered_map_def rm_ok_def)
  qed
next
  case (Some es)
  obtain m where m: "m \<le> length (fdata d r)" "m \<le> rsize" "stream_ok kc vc ops (dv_align dev) (take m (fdata d r)) es" "stream_ends dev (fdata d r) m"
      "\<forall>pe \<in> set es. pe_offset pe + 2 ^ abits < rsize \<and> 0 < cd_serialized_len kc (fe_key (pe_entry pe))"
    using lay Some region_size(1) align by (auto simp: region_layout_def)
  from recover_region_ok [OF rm r c m(3,1,2,5,4), of now rf] show ?thesis using Some by (auto simp: recovered_map_def)
qed

lemma recover_regions_ok:
  fixes c :: "('k, 'v) Catalog"
  assumes "rm_ok ok members (dv_regions dev) rm" "catalog_inv hash (dv_regions dev) c" "distinct order" "set order \<subseteq> {..<dv_regions dev}"
    and "members (rm_eviction rm) \<inter> set order = {}" "\<forall>r \<in> set order. region_layout dev kc vc ops (fdata d r) (es r)"
  shows "\<exists>results rm' c' rf'. recover_regions ep dev kc hash now order d rm c rf = Some (results, rm', c', rf') \<and> map fst results = order \<and>
    catalog_inv hash (dv_regions dev) c' \<and> rm_ok ok members (dv_regions dev) rm' \<and>
    (\<forall>r y. (r, Inr y) \<in> set results \<longrightarrow> y = map_option (max_sequence 0) (es r)) \<and>
    ((\<forall>r e. (r, Inl e) \<notin> set results) \<longrightarrow>
      catalog_map hash c' = fold (\<lambda>r m. m ++ recovered_map now r (es r)) order (catalog_map hash c) \<and>
      members (rm_eviction rm') = members (rm_eviction rm) \<union> {r \<in> set order. es r \<noteq> None} \<and>
      aq_queue (rm_clean_regions rm') = aq_queue (rm_clean_regions rm) @ filter (\<lambda>r. es r = None) order) \<and>
    (\<forall>out. counted (catalog_map hash c) out rf \<longrightarrow> counted (catalog_map hash c') out rf')"
  using assms
proof (induction order arbitrary: rm c rf)
  case Nil
  then show ?case by simp
next
  case (Cons r order)
  have r: "r < dv_regions dev" "r \<notin> members (rm_eviction rm)" "region_layout dev kc vc ops (fdata d r) (es r)" using Cons.prems by auto
  obtain res rm1 c1 rf1 where one: "recover_region ep dev kc hash now r d rm c rf = Some (res, rm1, c1, rf1)" "catalog_inv hash (dv_regions dev) c1"
    "rm_ok ok members (dv_regions dev) rm1" "members (rm_eviction rm1) \<subseteq> insert r (members (rm_eviction rm))"
    "\<forall>y. res = Inr y \<longrightarrow> y = map_option (max_sequence 0) (es r) \<and> catalog_map hash c1 = catalog_map hash c ++ recovered_map now r (es r) \<and>
      members (rm_eviction rm1) = members (rm_eviction rm) \<union> (if es r = None then {} else {r}) \<and>
      aq_queue (rm_clean_regions rm1) = aq_queue (rm_clean_regions rm) @ (if es r = None then [r] else [])"
    "\<forall>out. counted (catalog_map hash c) out rf \<longrightarrow> counted (catalog_map hash c1) out rf1"
    using recover_region_layout [OF Cons.prems(1) r(1,2) Cons.prems(2) r(3), of now rf] by (elim exE conjE)
  have dis: "members (rm_eviction rm1) \<inter> set order = {}" using one(4) Cons.prems(3,5) by auto
  have ord: "distinct order" "set order \<subseteq> {..<dv_regions dev}" and lay: "\<forall>r \<in> set order. region_layout dev kc vc ops (fdata d r) (es r)"
    using Cons.prems(3,4,6) by auto
  obtain results rm2 c2 rf2 where rest: "recover_regions ep dev kc hash now order d rm1 c1 rf1 = Some (results, rm2, c2, rf2)" "map fst results = order"
    "catalog_inv hash (dv_regions dev) c2" "rm_ok ok members (dv_regions dev) rm2"
    "\<forall>r y. (r, Inr y) \<in> set results \<longrightarrow> y = map_option (max_sequence 0) (es r)"
    "(\<forall>r e. (r, Inl e) \<notin> set results) \<longrightarrow>
      catalog_map hash c2 = fold (\<lambda>r m. m ++ recovered_map now r (es r)) order (catalog_map hash c1) \<and>
      members (rm_eviction rm2) = members (rm_eviction rm1) \<union> {r \<in> set order. es r \<noteq> None} \<and>
      aq_queue (rm_clean_regions rm2) = aq_queue (rm_clean_regions rm1) @ filter (\<lambda>r. es r = None) order"
    "\<forall>out. counted (catalog_map hash c1) out rf1 \<longrightarrow> counted (catalog_map hash c2) out rf2"
    using Cons.IH [OF one(3,2) ord dis lay, of rf1] by (elim exE conjE)
  have run: "recover_regions ep dev kc hash now (r # order) d rm c rf = Some ((r, res) # results, rm2, c2, rf2)"
    using one(1) rest(1) by simp
  have ok: "catalog_map hash c2 = fold (\<lambda>r m. m ++ recovered_map now r (es r)) (r # order) (catalog_map hash c) \<and>
      members (rm_eviction rm2) = members (rm_eviction rm) \<union> {q \<in> set (r # order). es q \<noteq> None} \<and>
      aq_queue (rm_clean_regions rm2) = aq_queue (rm_clean_regions rm) @ filter (\<lambda>r. es r = None) (r # order)"
    if good: "\<forall>q e. (q, Inl e) \<notin> set ((r, res) # results)"
  proof -
    obtain y where "res = Inr y" using good by (cases res) auto
    moreover have "{q \<in> set (r # order). es q \<noteq> None} = (if es r = None then {} else {r}) \<union> {q \<in> set order. es q \<noteq> None}" by auto
    ultimately show ?thesis using one(5) rest(6) good by (auto simp: Un_assoc)
  qed
  show ?case by (intro exI conjI) (rule run, use rest one ok in auto)
qed

lemma recover_ok:
  fixes c :: "('k, 'v) Catalog"
  assumes rm: "rm_ok ok members (dv_regions dev) rm" "members (rm_eviction rm) = {}" and c: "catalog_inv hash (dv_regions dev) c"
    and order: "distinct order" "set order = {..<dv_regions dev}"
    and lay: "\<forall>r < dv_regions dev. region_layout dev kc vc ops (fdata d r) (es r)"
  shows "\<exists>res rm' c' rf'. recover ep dev kc hash now order d rm c rf = Some (res, rm', c', rf') \<and> catalog_inv hash (dv_regions dev) c' \<and>
    rm_ok ok members (dv_regions dev) rm' \<and>
    (\<forall>s. res = Inr s \<longrightarrow> s = max_sequence 0 (concat (List.map_filter es [0..<dv_regions dev])) \<and>
      catalog_map hash c' = fold (\<lambda>r m. m ++ recovered_map now r (es r)) order (catalog_map hash c) \<and>
      members (rm_eviction rm') = {r. r < dv_regions dev \<and> es r \<noteq> None} \<and>
      aq_queue (rm_clean_regions rm') = aq_queue (rm_clean_regions rm) @ filter (\<lambda>r. es r = None) order) \<and>
    (\<forall>out. counted (catalog_map hash c) out rf \<longrightarrow> counted (catalog_map hash c') out rf')"
proof -
  have dis: "members (rm_eviction rm) \<inter> set order = {}" and sub: "set order \<subseteq> {..<dv_regions dev}"
    and lay': "\<forall>r \<in> set order. region_layout dev kc vc ops (fdata d r) (es r)" using rm(2) order(2) lay by auto
  obtain results rm1 c1 rf1 where rs: "recover_regions ep dev kc hash now order d rm c rf = Some (results, rm1, c1, rf1)" "map fst results = order"
    "catalog_inv hash (dv_regions dev) c1" "rm_ok ok members (dv_regions dev) rm1"
    "\<forall>r y. (r, Inr y) \<in> set results \<longrightarrow> y = map_option (max_sequence 0) (es r)"
    "(\<forall>r e. (r, Inl e) \<notin> set results) \<longrightarrow>
      catalog_map hash c1 = fold (\<lambda>r m. m ++ recovered_map now r (es r)) order (catalog_map hash c) \<and>
      members (rm_eviction rm1) = members (rm_eviction rm) \<union> {r \<in> set order. es r \<noteq> None} \<and>
      aq_queue (rm_clean_regions rm1) = aq_queue (rm_clean_regions rm) @ filter (\<lambda>r. es r = None) order"
    "\<forall>out. counted (catalog_map hash c) out rf \<longrightarrow> counted (catalog_map hash c1) out rf1"
    using recover_regions_ok [OF rm(1) c order(1) sub dis lay', of now rf] by (elim exE conjE)
  define col where "col = recover_collect (map (\<lambda>rid. the (map_of results rid)) [0..<dv_regions dev]) 0 0"
  have good: "(\<forall>r e. (r, Inl e) \<notin> set results) \<and> snd x = max_sequence 0 (concat (List.map_filter es [0..<dv_regions dev]))" if "col = Inr x" for x
  proof -
    have all: "\<forall>rid < dv_regions dev. \<exists>y. the (map_of results rid) = Inr y"
      using recover_collect_Inr [OF that [unfolded col_def]] by simp
    have bind: "map_of results rid = Some (the (map_of results rid))" if "rid < dv_regions dev" for rid
      using that order(2) rs(2) map_of_eq_None_iff [of results rid] by (cases "map_of results rid") force+
    have eq: "the (map_of results rid) = Inr (map_option (max_sequence 0) (es rid))" if "rid < dv_regions dev" for rid
      using all that rs(5) map_of_SomeD [OF bind [OF that]] by metis
    have no: "(r, Inl e) \<notin> set results" for r e
    proof
      assume m: "(r, Inl e) \<in> set results"
      then have "r \<in> set order" using rs(2) by force
      then show False using m map_of_is_SomeI [OF _ m] rs(2) order eq [of r] by simp
    qed
    have "map (\<lambda>rid. the (map_of results rid)) [0..<dv_regions dev] = map (\<lambda>rid. Inr (map_option (max_sequence 0) (es rid))) [0..<dv_regions dev]"
      using eq by simp
    then have "\<exists>n'. col = Inr (n', max_sequence 0 (concat (List.map_filter es [0..<dv_regions dev])))"
      using recover_collect_max [of es "[0..<dv_regions dev]" 0 0] by (simp only: col_def)
    then show ?thesis using that no by auto
  qed
  show ?thesis
  proof (cases col)
    case (Inl e)
    then have "recover ep dev kc hash now order d rm c rf = Some (Inl e, rm1, c1, rf1)" using rs(1) by (simp add: recover_def col_def)
    then show ?thesis using rs(3,4,7) by (intro exI conjI) (assumption | simp)+
  next
    case (Inr x)
    define rm' where "rm' = (if fst x = dv_regions dev then rm1\<lparr>rm_clean_regions := flash (rm_clean_regions rm1)\<rparr> else rm1)"
    have run: "recover ep dev kc hash now order d rm c rf = Some (Inr (snd x), rm', c1, rf1)"
      using rs(1) Inr by (simp add: recover_def col_def rm'_def split: prod.splits)
    have rm': "rm_ok ok members (dv_regions dev) rm'" "rm_eviction rm' = rm_eviction rm1" "aq_queue (rm_clean_regions rm') = aq_queue (rm_clean_regions rm1)"
      using rs(4) by (simp_all add: rm'_def rm_ok_def flash_def)
    show ?thesis using run rs(3,6,7) rm' good [OF Inr] rm(2) order(2) by (intro exI conjI) (assumption | auto)+
  qed
qed

lemma session_layout:
  assumes s: "fb_session ops kc vc dev b d L" and buf: "fb_region b = Some r \<longrightarrow> fb_buffer b = [] \<and> fb_entries b = []"
    and es: "entries_in r L \<noteq> []"
    and pos: "\<forall>pe \<in> set (entries_in r L). pe_offset pe + dv_align dev < rsize \<and> 0 < cd_serialized_len kc (fe_key (pe_entry pe))"
    and fin: "stream_ends dev (fdata d r) (dv_align dev + sum_list (map pe_len (entries_in r L)))"
  shows "region_layout dev kc vc ops (fdata d r) (Some (entries_in r L))"
proof -
  obtain m where m: "m \<le> length (fdata d r)" "stream_ok kc vc ops (dv_align dev) (take m (fdata d r)) (entries_in r L)"
    using session_stream [OF s, of r] es buf by (auto simp: region_stream_def split: if_splits)
  have ch: "chain (dv_align dev) (entries_in r L) m" using m by (simp add: stream_ok_def)
  obtain pe where pe: "pe \<in> set (entries_in r L)" "pe_offset pe + pe_len pe = m" using chain_last [OF ch es] by blast
  have "placed dev pe" using session_inv [OF s] pe(1) by (auto simp: session_ok_def entries_in_def)
  then have "m \<le> rsize" using pe(2) region_size(1) by (simp add: placed_def)
  then show ?thesis using m pos fin chain_sum [OF ch] region_size(1) by (auto simp: region_layout_def)
qed

end

section \<open>Properties\<close>

interpretation demo_disk: disk_store demo_dev "\<lambda>w. w" 256 5 demo_ops demo_kc vec_coder rfifo_ops rfifo_ok "\<lambda>f. set (rf_queue f)" "\<lambda>k. k"
  by (intro disk_store.intro demo_store.store_io_axioms rfifo.eviction_policy_axioms disk_store_axioms.intro)
    (simp add: demo_dev_def fs_ops_def demo_fs_def)





end
