(* ===== verification/Store.thy ===== *)
theory Store
  imports Flusher Judges Recovery
begin

text \<open>
  The store of \<^verbatim>\<open>foyer-storage/src/generic.rs\<close>: its state, opening, lookups and removals, and the writer through
  which entries come in. \<open>store_env\<close> holds what the type parameters of the code stand for. A policy is an object of its
  own: \<open>policy_ops\<close> are its methods on its state, and it may look at the catalog, which \<^verbatim>\<open>init\<close> hands to it.
  The channel of a flusher is the sequence of entries that are sent and not yet received, and \<open>None\<close> once its
  receiver is gone. A lookup awaits the device between its two halves, \<open>store_lookup\<close> and \<open>lookup_load\<close>. Durations,
  metrics and the handles of the tasks are left out.
\<close>

section \<open>Definitions\<close>

record (overloaded) ('k::linorder, 'v, 'p) policy_ops =
  pol_judge :: "('k, 'v) Catalog \<Rightarrow> 'p \<Rightarrow> 'k \<Rightarrow> usize \<Rightarrow> bool \<times> 'p"
  pol_on_insert :: "'p \<Rightarrow> 'k \<Rightarrow> usize \<Rightarrow> bool \<Rightarrow> 'p"
  pol_on_drop :: "'p \<Rightarrow> 'k \<Rightarrow> usize \<Rightarrow> bool \<Rightarrow> 'p"

record (overloaded) ('k::linorder, 'kc, 'v, 'vc, 'd, 'e, 'p, 'b) store_env =
  en_dev :: "'d device_ops"
  en_ops :: store_ops
  en_kc :: "('k, 'kc) coder"
  en_vc :: "('v, 'vc) coder"
  en_ep :: "'e ep_ops"
  en_pol :: "('k, 'v, 'p) policy_ops"
  en_bm :: "'b bitmap_ops"
  en_hash :: "'k \<Rightarrow> 64 word"

record (overloaded) ('k::linorder, 'v, 'd, 'e, 'p) GenericStore =
  gs_sequence :: "64 word"
  gs_catalog :: "('k, 'v) Catalog"
  gs_rm :: "'e RegionManager"
  gs_refs :: counters
  gs_device :: 'd
  gs_admissions :: "'p list"
  gs_reinsertions :: "'p list"
  gs_channels :: "('k, 'v) FlushEntry list option list"
  gs_compression :: Compression

record ('e, 'p) GenericStoreConfig =
  sc_eviction :: 'e
  sc_catalog_bits :: usize
  sc_admissions :: "'p list"
  sc_reinsertions :: "'p list"
  sc_flushers :: usize
  sc_reclaimers :: usize
  sc_clean_region_threshold :: usize
  sc_compression :: Compression

text \<open>\<^verbatim>\<open>open\<close>, on a device that is already open; the eviction policy of the configuration is the fresh policy.
  \<open>order\<close> is the order in which the regions are recovered.\<close>

definition store_open :: "('k::linorder, 'kc, 'v, 'vc, 'd, 'e, 'p, 'b) store_env \<Rightarrow> nat \<Rightarrow> nat list \<Rightarrow> ('e, 'p) GenericStoreConfig \<Rightarrow> 'd \<Rightarrow>
    (store_error + ('k, 'v, 'd, 'e, 'p) GenericStore \<times> ('k, 'v) Flusher list) option" where
  "store_open env now order config d = do {
     let dev = en_dev env;
     n \<leftarrow> umul (sc_flushers config) 2;
     ensure (dv_regions dev \<ge> n);
     let rm = rm_new (dv_regions dev) (sc_eviction config);
     c \<leftarrow> catalog_new (dv_regions dev) (sc_catalog_bits config);
     flushers \<leftarrow> (if sc_flushers config = 0 then Some [] else do {
       flusher \<leftarrow> flusher_new dev;
       Some (replicate (sc_flushers config) flusher)
     });
     (res, rm', c', rf) \<leftarrow> recover (en_ep env) dev (en_kc env) (en_hash env) now order d rm c (\<lambda>_. 0);
     (case res of
        Inl e \<Rightarrow> Some (Inl e)
      | Inr sequence \<Rightarrow> do {
          ensure (sequence \<noteq> - 1);
          Some (Inr (\<lparr>gs_sequence = sequence + 1, gs_catalog = c', gs_rm = rm', gs_refs = rf, gs_device = d,
              gs_admissions = sc_admissions config, gs_reinsertions = sc_reinsertions config,
              gs_channels = replicate (sc_flushers config) (Some []), gs_compression = sc_compression config\<rparr>,
            flushers))
        })
   }"

definition store_exists :: "('k::linorder, 'kc, 'v, 'vc, 'd, 'e, 'p, 'b) store_env \<Rightarrow> ('k, 'v, 'd, 'e, 'p) GenericStore \<Rightarrow> 'k \<Rightarrow>
    (bool \<times> ('k, 'v, 'd, 'e, 'p) GenericStore) option" where
  "store_exists env st key = do {
     (item, rf) \<leftarrow> catalog_lookup (en_hash env) key (gs_catalog st) (gs_refs st);
     Some (item \<noteq> None, st\<lparr>gs_refs := (case item of None \<Rightarrow> rf | Some it \<Rightarrow> item_drop it rf)\<rparr>)
   }"

text \<open>A lookup up to the await: it is done, with a value or without, or it holds a view and goes on to load it.\<close>

datatype 'v lookup_turn = LookupDone "'v option" | LookupLoad RegionView

definition store_lookup :: "('k::linorder, 'kc, 'v, 'vc, 'd, 'e, 'p, 'b) store_env \<Rightarrow> ('k, 'v, 'd, 'e, 'p) GenericStore \<Rightarrow> 'k \<Rightarrow>
    ('v lookup_turn \<times> ('k, 'v, 'd, 'e, 'p) GenericStore) option" where
  "store_lookup env st key = do {
     (item, rf) \<leftarrow> catalog_lookup (en_hash env) key (gs_catalog st) (gs_refs st);
     let st1 = st\<lparr>gs_refs := rf\<rparr>;
     (case map_option item_consume item of
        None \<Rightarrow> Some (LookupDone None, st1)
      | Some (sequence, Inflight k v) \<Rightarrow> Some (LookupDone (Some v), st1)
      | Some (sequence, RegionIx view) \<Rightarrow> do {
          rm \<leftarrow> record_access (en_ep env) (gs_rm st1) (rv_id view);
          Some (LookupLoad view, st1\<lparr>gs_rm := rm\<rparr>)
        })
   }"

definition drop_index :: "('k::linorder, 'kc, 'v, 'vc, 'd, 'e, 'p, 'b) store_env \<Rightarrow> 'k \<Rightarrow> ('k, 'v, 'd, 'e, 'p) GenericStore \<Rightarrow>
    (bool \<times> ('k, 'v, 'd, 'e, 'p) GenericStore) option" where
  "drop_index env key st = do {
     (item, c) \<leftarrow> catalog_remove (en_hash env) key (gs_catalog st);
     Some (item \<noteq> None, st\<lparr>gs_catalog := c, gs_refs := (case item of None \<Rightarrow> gs_refs st | Some it \<Rightarrow> item_drop it (gs_refs st))\<rparr>)
   }"

definition lookup_load :: "('k::linorder, 'kc, 'v, 'vc, 'd, 'e, 'p, 'b) store_env \<Rightarrow> ('k, 'v, 'd, 'e, 'p) GenericStore \<Rightarrow> 'k \<Rightarrow> RegionView \<Rightarrow>
    ((store_error + 'v option) \<times> ('k, 'v, 'd, 'e, 'p) GenericStore) option" where
  "lookup_load env st key view = do {
     rg \<leftarrow> rm_region (gs_rm st) (rv_id view);
     (res, rf) \<leftarrow> region_load (en_dev env) rg (gs_device st) view (gs_refs st);
     let st1 = st\<lparr>gs_refs := rf\<rparr>;
     (case res of
        Inl e \<Rightarrow> Some (Inl e, st1)
      | Inr None \<Rightarrow> do {
          (found, st2) \<leftarrow> drop_index env key st1;
          Some (Inr None, st2)
        }
      | Inr (Some buf) \<Rightarrow> do {
          entry \<leftarrow> read_entry (en_kc env) (en_vc env) (en_ops env) buf;
          (case entry of
             Inr (k, value) \<Rightarrow> Some (Inr (Some value), st1)
           | Inl e \<Rightarrow> do {
               (found, st2) \<leftarrow> drop_index env key st1;
               Some (Inl e, st2)
             })
        })
   }"

definition store_remove :: "('k::linorder, 'kc, 'v, 'vc, 'd, 'e, 'p, 'b) store_env \<Rightarrow> ('k, 'v, 'd, 'e, 'p) GenericStore \<Rightarrow> 'k \<Rightarrow>
    (bool \<times> ('k, 'v, 'd, 'e, 'p) GenericStore) option" where
  "store_remove env st key = drop_index env key st"

definition store_clear :: "('k::linorder, 'v, 'd, 'e, 'p) GenericStore \<Rightarrow> ('k, 'v, 'd, 'e, 'p) GenericStore" where
  "store_clear st = (let (c, rf) = catalog_clear (gs_catalog st) (gs_refs st) in st\<lparr>gs_catalog := c, gs_refs := rf\<rparr>)"

section \<open>The writer\<close>

record ('k, 'b) GenericStoreWriter =
  w_key :: "'k option"
  w_weight :: usize
  w_sequence :: "64 word option"
  w_judges :: "'b Judges"
  w_is_judged :: bool
  w_is_inserted :: bool
  w_is_skippable :: bool
  w_compression :: Compression

definition writer_new :: "('k::linorder, 'kc, 'v, 'vc, 'd, 'e, 'p, 'b) store_env \<Rightarrow> ('k, 'v, 'd, 'e, 'p) GenericStore \<Rightarrow> 'k \<Rightarrow> usize \<Rightarrow>
    ('k, 'b) GenericStoreWriter" where
  "writer_new env st key weight = \<lparr>w_key = Some key, w_weight = weight, w_sequence = None,
     w_judges = judges_new (en_bm env) (length (gs_admissions st)), w_is_judged = False, w_is_inserted = False,
     w_is_skippable = False, w_compression = gs_compression st\<rparr>"

text \<open>The policies give their verdicts one after the other.\<close>

fun ask_policies :: "('k::linorder, 'v, 'p) policy_ops \<Rightarrow> ('k, 'v) Catalog \<Rightarrow> 'k \<Rightarrow> usize \<Rightarrow> 'p list \<Rightarrow> bool list \<times> 'p list" where
  "ask_policies pol c key weight [] = ([], [])"
| "ask_policies pol c key weight (p # ps) =
     (let (v, p') = pol_judge pol c p key weight; (vs, ps') = ask_policies pol c key weight ps in (v # vs, p' # ps'))"

text \<open>The callbacks of the policies with the verdicts they gave.\<close>

fun tell_policies :: "'b bitmap_ops \<Rightarrow> 'b Judges \<Rightarrow> ('p \<Rightarrow> bool \<Rightarrow> 'p) \<Rightarrow> nat \<Rightarrow> 'p list \<Rightarrow> 'p list option" where
  "tell_policies bm js cb i [] = Some []"
| "tell_policies bm js cb i (p # ps) = do {
     v \<leftarrow> judges_get bm js i;
     ps' \<leftarrow> tell_policies bm js cb (Suc i) ps;
     Some (cb p v # ps')
   }"

definition judge_inner :: "('k::linorder, 'kc, 'v, 'vc, 'd, 'e, 'p, 'b) store_env \<Rightarrow> ('k, 'b) GenericStoreWriter \<Rightarrow> ('k, 'v, 'd, 'e, 'p) GenericStore \<Rightarrow>
    (('k, 'b) GenericStoreWriter \<times> ('k, 'v, 'd, 'e, 'p) GenericStore) option" where
  "judge_inner env w st = do {
     key \<leftarrow> w_key w;
     let (vs, ps) = ask_policies (en_pol env) (gs_catalog st) key (w_weight w) (gs_admissions st);
     js \<leftarrow> judges_fill (en_bm env) (w_judges w) 0 vs;
     Some (w\<lparr>w_judges := js, w_is_judged := True\<rparr>, st\<lparr>gs_admissions := ps\<rparr>)
   }"

definition writer_judge :: "('k::linorder, 'kc, 'v, 'vc, 'd, 'e, 'p, 'b) store_env \<Rightarrow> ('k, 'b) GenericStoreWriter \<Rightarrow> ('k, 'v, 'd, 'e, 'p) GenericStore \<Rightarrow>
    (bool \<times> ('k, 'b) GenericStoreWriter \<times> ('k, 'v, 'd, 'e, 'p) GenericStore) option" where
  "writer_judge env w st = do {
     (w', st') \<leftarrow> (if w_is_judged w then Some (w, st) else judge_inner env w st);
     Some (judges_judge (en_bm env) (w_judges w'), w', st')
   }"

definition writer_force :: "('k::linorder, 'kc, 'v, 'vc, 'd, 'e, 'p, 'b) store_env \<Rightarrow> ('k, 'b) GenericStoreWriter \<Rightarrow> ('k, 'b) GenericStoreWriter" where
  "writer_force env w = w\<lparr>w_judges := judges_set_mask (en_bm env) (w_judges w) (bm_default (en_bm env))\<rparr>"

definition writer_set_judge_mask :: "('k::linorder, 'kc, 'v, 'vc, 'd, 'e, 'p, 'b) store_env \<Rightarrow> ('k, 'b) GenericStoreWriter \<Rightarrow> 'b \<Rightarrow> ('k, 'b) GenericStoreWriter" where
  "writer_set_judge_mask env w msk = w\<lparr>w_judges := judges_set_mask (en_bm env) (w_judges w) msk\<rparr>"

definition writer_set_skippable :: "('k, 'b) GenericStoreWriter \<Rightarrow> ('k, 'b) GenericStoreWriter" where
  "writer_set_skippable w = w\<lparr>w_is_skippable := True\<rparr>"

definition writer_set_sequence :: "('k, 'b) GenericStoreWriter \<Rightarrow> 64 word \<Rightarrow> ('k, 'b) GenericStoreWriter" where
  "writer_set_sequence w sequence = w\<lparr>w_sequence := Some sequence\<rparr>"

definition writer_set_compression :: "('k, 'b) GenericStoreWriter \<Rightarrow> Compression \<Rightarrow> ('k, 'b) GenericStoreWriter" where
  "writer_set_compression w compression = w\<lparr>w_compression := compression\<rparr>"

definition send_entry :: "('k, 'v) FlushEntry \<Rightarrow> ('k, 'v) FlushEntry list option list \<Rightarrow> ('k, 'v) FlushEntry list option list option" where
  "send_entry entry chs = do {
     ensure (length chs \<noteq> 0);
     let flusher = unat (fe_sequence entry) mod length chs;
     queue \<leftarrow> chs ! flusher;
     Some (chs[flusher := Some (queue @ [entry])])
   }"

definition apply_writer :: "('k::linorder, 'kc, 'v, 'vc, 'd, 'e, 'p, 'b) store_env \<Rightarrow> nat \<Rightarrow> ('k, 'b) GenericStoreWriter \<Rightarrow> 'v \<Rightarrow>
    ('k, 'v, 'd, 'e, 'p) GenericStore \<Rightarrow> (bool \<times> ('k, 'b) GenericStoreWriter \<times> ('k, 'v, 'd, 'e, 'p) GenericStore) option" where
  "apply_writer env now w value st = do {
     ensure (\<not> w_is_inserted w);
     (admitted, w1, st1) \<leftarrow> writer_judge env w st;
     if \<not> admitted then Some (False, w1, st1) else do {
       let (sequence, st2) = (case w_sequence w1 of
           Some s \<Rightarrow> (s, st1)
         | None \<Rightarrow> (gs_sequence st1, st1\<lparr>gs_sequence := gs_sequence st1 + 1\<rparr>));
       key \<leftarrow> w_key w1;
       let w2 = w1\<lparr>w_is_inserted := True, w_key := None\<rparr>;
       ps \<leftarrow> tell_policies (en_bm env) (w_judges w2) (\<lambda>p. pol_on_insert (en_pol env) p key (w_weight w2)) 0 (gs_admissions st2);
       n \<leftarrow> uadd eh_serialized_len (cd_serialized_len (en_kc env) key);
       n' \<leftarrow> uadd n (cd_serialized_len (en_vc env) value);
       len \<leftarrow> align_up (dv_align (en_dev env)) n';
       (c, rf) \<leftarrow> catalog_insert (en_hash env) now key (item_new sequence (Inflight key value)) (gs_catalog st2) (gs_refs st2);
       chs \<leftarrow> send_entry \<lparr>fe_key = key, fe_value = value, fe_sequence = sequence, fe_compression = w_compression w2\<rparr> (gs_channels st2);
       Some (True, w2, st2\<lparr>gs_admissions := ps, gs_catalog := c, gs_refs := rf, gs_channels := chs\<rparr>)
     }
   }"

text \<open>Dropping a writer; the second judgement asks no policy, since it has been judged.\<close>

definition writer_drop :: "('k::linorder, 'kc, 'v, 'vc, 'd, 'e, 'p, 'b) store_env \<Rightarrow> ('k, 'b) GenericStoreWriter \<Rightarrow> ('k, 'v, 'd, 'e, 'p) GenericStore \<Rightarrow>
    ('k, 'v, 'd, 'e, 'p) GenericStore option" where
  "writer_drop env w st =
     (if w_is_inserted w then Some st else do {
        ensure (w_key w \<noteq> None);
        if w_is_judged w then do {
          key \<leftarrow> w_key w;
          ps \<leftarrow> tell_policies (en_bm env) (w_judges w) (\<lambda>p. pol_on_drop (en_pol env) p key (w_weight w)) 0 (gs_admissions st);
          Some (st\<lparr>gs_admissions := ps\<rparr>)
        } else Some st
      })"

text \<open>\<^verbatim>\<open>finish\<close> consumes the writer: it is dropped at the end.\<close>

definition writer_finish :: "('k::linorder, 'kc, 'v, 'vc, 'd, 'e, 'p, 'b) store_env \<Rightarrow> nat \<Rightarrow> ('k, 'b) GenericStoreWriter \<Rightarrow> 'v \<Rightarrow>
    ('k, 'v, 'd, 'e, 'p) GenericStore \<Rightarrow> (bool \<times> ('k, 'v, 'd, 'e, 'p) GenericStore) option" where
  "writer_finish env now w value st = do {
     (inserted, w', st') \<leftarrow> apply_writer env now w value st;
     st'' \<leftarrow> writer_drop env w' st';
     Some (inserted, st'')
   }"

section \<open>What a writer does to the store\<close>

lemma ask_policies_length: "ask_policies pol c key weight ps = (vs, ps') \<Longrightarrow> length vs = length ps \<and> length ps' = length ps"
  by (induction ps arbitrary: vs ps') (auto split: prod.splits)

lemma writer_judge_effect:
  assumes "writer_judge env w st = Some (b, w', st')"
  shows "(\<exists>ps. st' = st\<lparr>gs_admissions := ps\<rparr>) \<and> w_key w' = w_key w \<and> w_sequence w' = w_sequence w \<and>
    w_is_inserted w' = w_is_inserted w \<and> w_compression w' = w_compression w \<and> w_weight w' = w_weight w \<and> w_is_judged w'"
proof (cases "w_is_judged w")
  case True
  with assms have "st' = st" "w' = w" by (auto simp: writer_judge_def)
  moreover have "st = st\<lparr>gs_admissions := gs_admissions st\<rparr>" by simp
  ultimately show ?thesis using True by blast
next
  case False
  with assms show ?thesis by (auto simp: writer_judge_def judge_inner_def split: bind_splits prod.splits)
qed

lemma writer_drop_effect: "writer_drop env w st = Some st' \<Longrightarrow> \<exists>ps. st' = st\<lparr>gs_admissions := ps\<rparr>"
  by (cases "w_is_inserted w \<or> \<not> w_is_judged w") (auto simp: writer_drop_def split: bind_splits if_splits intro: exI [of _ "gs_admissions st"])

lemma writer_finish_effect:
  assumes fin: "writer_finish env now w value st = Some (b, st')" and w: "w_key w = Some key" "w_sequence w = None"
  shows "(\<not> b \<and> (\<exists>ps. st' = st\<lparr>gs_admissions := ps\<rparr>)) \<or>
    (b \<and> (\<exists>ps c rf chs. st' = st\<lparr>gs_sequence := gs_sequence st + 1, gs_admissions := ps, gs_catalog := c, gs_refs := rf, gs_channels := chs\<rparr> \<and>
       catalog_insert (en_hash env) now key (item_new (gs_sequence st) (Inflight key value)) (gs_catalog st) (gs_refs st) = Some (c, rf) \<and>
       send_entry \<lparr>fe_key = key, fe_value = value, fe_sequence = gs_sequence st, fe_compression = w_compression w\<rparr> (gs_channels st) = Some chs))"
proof -
  obtain w1 st1 where ap: "apply_writer env now w value st = Some (b, w1, st1)" and dr: "writer_drop env w1 st1 = Some st'"
    using fin by (auto simp: writer_finish_def split: bind_splits)
  obtain adm w0 st0 where j: "writer_judge env w st = Some (adm, w0, st0)" using ap by (auto simp: apply_writer_def split: bind_splits)
  obtain ps0 where st0: "st0 = st\<lparr>gs_admissions := ps0\<rparr>" and w0: "w_key w0 = Some key" "w_sequence w0 = None" "w_compression w0 = w_compression w"
    using writer_judge_effect [OF j] w by auto
  obtain ps1 where st': "st' = st1\<lparr>gs_admissions := ps1\<rparr>" using writer_drop_effect [OF dr] by blast
  show ?thesis
  proof (cases adm)
    case False
    then have "\<not> b" "st1 = st0" using ap j by (auto simp: apply_writer_def split: bind_splits if_splits)
    then show ?thesis using st' st0 by auto
  next
    case True
    obtain ps c rf chs where r: "b" "st1 = st0\<lparr>gs_sequence := gs_sequence st0 + 1, gs_admissions := ps, gs_catalog := c, gs_refs := rf, gs_channels := chs\<rparr>"
        "catalog_insert (en_hash env) now key (item_new (gs_sequence st0) (Inflight key value)) (gs_catalog st0) (gs_refs st0) = Some (c, rf)"
        "send_entry \<lparr>fe_key = key, fe_value = value, fe_sequence = gs_sequence st0, fe_compression = w_compression w\<rparr> (gs_channels st0) = Some chs"
      using ap j True w0 by (auto simp: apply_writer_def Let_def split: bind_splits if_splits)
    have "st' = st\<lparr>gs_sequence := gs_sequence st + 1, gs_admissions := ps1, gs_catalog := c, gs_refs := rf, gs_channels := chs\<rparr>"
      using st' st0 r(2) by (intro GenericStore.equality) simp_all
    then show ?thesis using r st0 by auto
  qed
qed

lemma tell_policies_ok:
  assumes "\<forall>j < length ps. judges_get bm js (i + j) = Some (vs ! j)" "length vs = length ps"
  shows "tell_policies bm js cb i ps = Some (map2 cb ps vs)"
  using assms
proof (induction ps arbitrary: i vs)
  case (Cons p ps)
  then obtain v vs' where vs: "vs = v # vs'" by (cases vs) auto
  have "\<forall>j < length ps. judges_get bm js (Suc i + j) = Some (vs' ! j)" using Cons.prems(1) by (auto simp: vs)
  then have "tell_policies bm js cb (Suc i) ps = Some (map2 cb ps vs')" using Cons by (simp add: vs)
  moreover have "judges_get bm js i = Some v" using Cons.prems(1) by (auto simp: vs)
  ultimately show ?case by (simp add: vs)
qed simp

lemma send_entry_ok:
  assumes "chs \<noteq> []" "\<forall>q \<in> set chs. q \<noteq> None"
  shows "send_entry e chs = (let i = unat (fe_sequence e) mod length chs in Some (chs[i := Some (the (chs ! i) @ [e])]))"
proof -
  obtain q where "chs ! (unat (fe_sequence e) mod length chs) = Some q" using assms nth_mem [of "unat (fe_sequence e) mod length chs" chs] by force
  with assms(1) show ?thesis by (simp add: send_entry_def Let_def)
qed

text \<open>The bytes that \<^verbatim>\<open>apply_writer\<close> computes for the metrics do not overflow.\<close>

lemma entry_len_ok:
  assumes "a < 2 ^ 60" "b < 2 ^ 60" "al = 2 ^ bits" "bits \<le> 60"
  shows "\<exists>n n' len. uadd eh_serialized_len a = Some n \<and> uadd n b = Some n' \<and> align_up al n' = Some len"
proof -
  have "(2::nat) ^ bits \<le> 2 ^ 60" using assms(4) by (intro power_increasing) simp_all
  then have "align_up al (28 + a + b) = Some (next_multiple (2 ^ bits) (28 + a + b))"
    using assms by (subst assms(3), intro align_up_next) (simp add: usize_lim_def)
  moreover have "28 + a < usize_lim" "28 + a + b < usize_lim" using assms by (simp_all add: usize_lim_def)
  ultimately show ?thesis by (simp add: eh_serialized_len_def checked)
qed

lemma fresh_writer_judge:
  assumes bm: "bitmap (en_bm env) has_bit" and few: "length (gs_admissions st) < 64"
    and ask: "ask_policies (en_pol env) (gs_catalog st) key weight (gs_admissions st) = (vs, ps)"
  obtains js where "writer_judge env (writer_new env st key weight) st =
      Some (\<forall>v \<in> set vs. v, (writer_new env st key weight)\<lparr>w_judges := js, w_is_judged := True\<rparr>, st\<lparr>gs_admissions := ps\<rparr>)"
    "tell_policies (en_bm env) js cb 0 ps = Some (map2 cb ps vs)"
proof -
  note len = ask_policies_length [OF ask]
  obtain js where js: "judges_fill (en_bm env) (judges_new (en_bm env) (length vs)) 0 vs = Some js"
    "judges_judge (en_bm env) js \<longleftrightarrow> (\<forall>v \<in> set vs. v)" "\<forall>i < length vs. judges_get (en_bm env) js i = Some (vs ! i)"
    using bitmap.new_verdict [OF bm, of vs] few len by auto
  have "tell_policies (en_bm env) js cb 0 ps = Some (map2 cb ps vs)" using js(3) len by (intro tell_policies_ok) simp_all
  moreover have "writer_judge env (writer_new env st key weight) st =
      Some (\<forall>v \<in> set vs. v, (writer_new env st key weight)\<lparr>w_judges := js, w_is_judged := True\<rparr>, st\<lparr>gs_admissions := ps\<rparr>)"
    using js(1,2) ask len by (simp add: writer_judge_def judge_inner_def writer_new_def)
  ultimately show thesis using that by blast
qed

lemma finish_ok:
  fixes env :: "('k::linorder, 'kc, 'v, 'vc, 'd, 'e, 'p, 'b) store_env"
  assumes bm: "bitmap (en_bm env) has_bit" and few: "length (gs_admissions st) < 64" and inv: "catalog_inv (en_hash env) n (gs_catalog st)"
    and chs: "gs_channels st \<noteq> []" "\<forall>q \<in> set (gs_channels st). q \<noteq> None"
    and len: "cd_serialized_len (en_kc env) key < 2 ^ 60" "cd_serialized_len (en_vc env) val < 2 ^ 60"
    and al: "dv_align (en_dev env) = 2 ^ bits" "bits \<le> 60"
    and ask: "ask_policies (en_pol env) (gs_catalog st) key weight (gs_admissions st) = (vs, ps)"
  defines "i \<equiv> unat (gs_sequence st) mod length (gs_channels st)"
  shows "\<exists>st'. writer_finish env now (writer_new env st key weight) val st = Some (\<forall>v \<in> set vs. v, st') \<and>
    (if \<forall>v \<in> set vs. v
     then gs_sequence st' = gs_sequence st + 1 \<and> gs_device st' = gs_device st \<and> gs_rm st' = gs_rm st \<and>
       gs_reinsertions st' = gs_reinsertions st \<and> gs_compression st' = gs_compression st \<and>
       catalog_map (en_hash env) (gs_catalog st') = (catalog_map (en_hash env) (gs_catalog st))
         (key \<mapsto> \<lparr>it_sequence = gs_sequence st, it_index = Inflight key val, it_inserted = Some now\<rparr>) \<and>
       gs_channels st' = (gs_channels st)[i := Some (the (gs_channels st ! i) @
         [\<lparr>fe_key = key, fe_value = val, fe_sequence = gs_sequence st, fe_compression = gs_compression st\<rparr>])] \<and>
       gs_admissions st' = map2 (\<lambda>p v. pol_on_insert (en_pol env) p key weight v) ps vs
     else st' = st\<lparr>gs_admissions := map2 (\<lambda>p v. pol_on_drop (en_pol env) p key weight v) ps vs\<rparr>)"
proof (cases "\<forall>v \<in> set vs. v")
  case False
  obtain js where j: "writer_judge env (writer_new env st key weight) st =
      Some (\<forall>v \<in> set vs. v, (writer_new env st key weight)\<lparr>w_judges := js, w_is_judged := True\<rparr>, st\<lparr>gs_admissions := ps\<rparr>)"
    "tell_policies (en_bm env) js (\<lambda>p. pol_on_drop (en_pol env) p key weight) 0 ps = Some (map2 (\<lambda>p v. pol_on_drop (en_pol env) p key weight v) ps vs)"
    by (rule fresh_writer_judge [OF bm few ask])
  show ?thesis using j False by (auto simp: writer_finish_def apply_writer_def writer_drop_def writer_new_def)
next
  case True
  let ?item = "item_new (gs_sequence st) (Inflight key val) :: ('k, 'v) Item"
  obtain js where j: "writer_judge env (writer_new env st key weight) st =
      Some (\<forall>v \<in> set vs. v, (writer_new env st key weight)\<lparr>w_judges := js, w_is_judged := True\<rparr>, st\<lparr>gs_admissions := ps\<rparr>)"
    "tell_policies (en_bm env) js (\<lambda>p. pol_on_insert (en_pol env) p key weight) 0 ps = Some (map2 (\<lambda>p v. pol_on_insert (en_pol env) p key weight v) ps vs)"
    by (rule fresh_writer_judge [OF bm few ask])
  have "\<forall>v. it_index ?item = RegionIx v \<longrightarrow> rv_id v < n" by (simp add: item_new_def)
  then obtain c rf where ins: "catalog_insert (en_hash env) now key ?item (gs_catalog st) (gs_refs st) = Some (c, rf)"
    "catalog_map (en_hash env) c = (catalog_map (en_hash env) (gs_catalog st))(key \<mapsto> ?item\<lparr>it_inserted := Some now\<rparr>)"
    using catalog_insert_ok [OF inv, of ?item now key "gs_refs st"] by blast
  obtain m m' l where m: "uadd eh_serialized_len (cd_serialized_len (en_kc env) key) = Some m"
    "uadd m (cd_serialized_len (en_vc env) val) = Some m'" "align_up (dv_align (en_dev env)) m' = Some l"
    using entry_len_ok [OF len al] by blast
  have t: "(\<forall>v \<in> set vs. v) = True" using True by simp
  show ?thesis unfolding t using j [unfolded t] m ins send_entry_ok [OF chs]
    by (simp add: writer_finish_def apply_writer_def writer_drop_def writer_new_def i_def Let_def item_new_def)
qed

section \<open>Properties\<close>

text \<open>C31. Inserting through a writer. The policies are asked once each, and the entry is inserted exactly when all of them
  agree. Then it gets the next sequence, the catalog has it as in flight under its key, it is sent to the flusher that its
  sequence selects, and every policy hears \<^verbatim>\<open>on_insert\<close> with the verdict it gave. Otherwise only the policies change:
  every one hears \<^verbatim>\<open>on_drop\<close> with its verdict.\<close>

theorem finish_spec:
  fixes env :: "('k::linorder, 'kc, 'v, 'vc, 'd, 'e, 'p, 'b) store_env"
  assumes bm: "bitmap (en_bm env) has_bit" and few: "length (gs_admissions st) < 64" and inv: "catalog_inv (en_hash env) n (gs_catalog st)"
    and chs: "gs_channels st \<noteq> []" "\<forall>q \<in> set (gs_channels st). q \<noteq> None"
    and len: "cd_serialized_len (en_kc env) key < 2 ^ 60" "cd_serialized_len (en_vc env) val < 2 ^ 60"
    and al: "dv_align (en_dev env) = 2 ^ bits" "bits \<le> 60"
    and ask: "ask_policies (en_pol env) (gs_catalog st) key weight (gs_admissions st) = (vs, ps)"
  defines "i \<equiv> unat (gs_sequence st) mod length (gs_channels st)"
  shows "\<exists>st'. writer_finish env now (writer_new env st key weight) val st = Some (\<forall>v \<in> set vs. v, st') \<and>
    (if \<forall>v \<in> set vs. v
     then gs_sequence st' = gs_sequence st + 1 \<and> gs_device st' = gs_device st \<and> gs_rm st' = gs_rm st \<and>
       gs_reinsertions st' = gs_reinsertions st \<and> gs_compression st' = gs_compression st \<and>
       catalog_map (en_hash env) (gs_catalog st') = (catalog_map (en_hash env) (gs_catalog st))
         (key \<mapsto> \<lparr>it_sequence = gs_sequence st, it_index = Inflight key val, it_inserted = Some now\<rparr>) \<and>
       gs_channels st' = (gs_channels st)[i := Some (the (gs_channels st ! i) @
         [\<lparr>fe_key = key, fe_value = val, fe_sequence = gs_sequence st, fe_compression = gs_compression st\<rparr>])] \<and>
       gs_admissions st' = map2 (\<lambda>p v. pol_on_insert (en_pol env) p key weight v) ps vs
     else st' = st\<lparr>gs_admissions := map2 (\<lambda>p v. pol_on_drop (en_pol env) p key weight v) ps vs\<rparr>)"
  unfolding i_def by (rule finish_ok [OF bm few inv chs len al ask])

text \<open>A store with two flushers and a policy that admits keys below 10 and counts its calls.\<close>

definition demo_pol :: "(64 word, bytes, nat \<times> nat \<times> nat) policy_ops" where
  "demo_pol = \<lparr>pol_judge = (\<lambda>c (j, i, d) key weight. (key < 10, (j + 1, i, d))), pol_on_insert = (\<lambda>(j, i, d) key weight v. (j, i + 1, d)),
     pol_on_drop = (\<lambda>(j, i, d) key weight v. (j, i, d + 1))\<rparr>"

definition demo_env :: "(64 word, 64 word PrimitiveCursor, bytes, ArcVecU8Cursor, nat \<Rightarrow> bytes, RFifo, nat \<times> nat \<times> nat, 64 word) store_env" where
  "demo_env = \<lparr>en_dev = demo_dev, en_ops = demo_ops, en_kc = demo_kc, en_vc = vec_coder, en_ep = rfifo_ops, en_pol = demo_pol,
     en_bm = word_bitmap, en_hash = (\<lambda>k. k)\<rparr>"

definition demo_gs :: "(64 word, bytes, nat \<Rightarrow> bytes, RFifo, nat \<times> nat \<times> nat) GenericStore" where
  "demo_gs = \<lparr>gs_sequence = 1, gs_catalog = the (catalog_new 2 1), gs_rm = rm_new 2 rfifo_new, gs_refs = (\<lambda>_. 0), gs_device = (\<lambda>_. []),
     gs_admissions = [(0, 0, 0)], gs_reinsertions = [], gs_channels = [Some [], Some []], gs_compression = CompressionNone\<rparr>"

theorem finish_spec_witness:
  "\<exists>st'. writer_finish demo_env 5 (writer_new demo_env demo_gs 7 3) [1, 2, 3] demo_gs = Some (True, st') \<and>
     gs_sequence st' = 2 \<and> gs_admissions st' = [(1, 1, 0)] \<and>
     gs_channels st' = [Some [], Some [\<lparr>fe_key = 7, fe_value = [1, 2, 3], fe_sequence = 1, fe_compression = CompressionNone\<rparr>]]"
proof -
  obtain c :: "(64 word, bytes) Catalog" where c: "catalog_new 2 1 = Some c" "catalog_inv (\<lambda>k. k) 2 c"
    using catalog_new_ok [of 1 2 "\<lambda>k. k"] by auto
  have bm: "bitmap (en_bm demo_env) bit" using wbm.bitmap_axioms by (simp add: demo_env_def)
  have inv: "catalog_inv (en_hash demo_env) 2 (gs_catalog demo_gs)" using c by (simp add: demo_env_def demo_gs_def)
  from finish_spec [where env = demo_env and st = demo_gs and key = 7 and val = "[1, 2, 3]" and weight = 3 and now = 5 and bits = 5 and vs = "[True]" and ps = "[(1, 0, 0)]",
      OF bm _ inv]
  show ?thesis
    by (force simp: demo_env_def demo_gs_def demo_pol_def demo_dev_def fs_ops_def demo_fs_def demo_kc_def prim_coder_def prim_serialized_len_def vec_coder_def)
qed

end
