(* ===== verification/Reclaimer.thy ===== *)
theory Reclaimer
  imports Store
begin

text \<open>
  \<^verbatim>\<open>foyer-storage/src/reclaimer.rs\<close>. \<^verbatim>\<open>handle\<close> waits in two places, for a region that can be evicted and for the readers of
  the region, and awaits the device; its parts are \<open>reclaim_take\<close>, \<open>reclaim_ready\<close>, \<open>reinsert_region\<close>, \<open>reclaim_wipe\<close> and
  \<open>reclaim_release\<close>. The items that were taken out of the catalog live until the end of \<^verbatim>\<open>handle\<close>, \<open>reclaim_drop\<close>. The
  loop of the reinsertion is a partial function. \<open>exist_policy\<close> is the policy \<^verbatim>\<open>reinsertion/exist.rs\<close>.
\<close>

section \<open>Definitions\<close>

text \<open>Nothing to do, no region to evict, for which the code sleeps and tries again, or a region and its items.\<close>

datatype ('k, 'v) reclaim_turn = EnoughClean | NoVictim | Victim nat "('k \<times> ('k, 'v) Item) list"

definition reclaim_take :: "('k::linorder, 'kc, 'v, 'vc, 'd, 'e, 'p, 'b) store_env \<Rightarrow> usize \<Rightarrow> ('k, 'v, 'd, 'e, 'p) GenericStore \<Rightarrow>
    (('k, 'v) reclaim_turn \<times> ('k, 'v, 'd, 'e, 'p) GenericStore) option" where
  "reclaim_take env threshold st =
     (if queue_len (rm_clean_regions (gs_rm st)) \<ge> threshold then Some (EnoughClean, st) else do {
        (victim, rm) \<leftarrow> eviction_pop (en_ep env) (gs_rm st);
        (case victim of
           None \<Rightarrow> Some (NoVictim, st\<lparr>gs_rm := rm\<rparr>)
         | Some region \<Rightarrow> do {
             rg \<leftarrow> rm_region rm region;
             (items, c) \<leftarrow> catalog_take_region (en_hash env) region (gs_catalog st);
             Some (Victim region items, st\<lparr>gs_rm := rm, gs_catalog := c\<rparr>)
           })
      })"

definition reclaim_ready :: "nat \<Rightarrow> ('k \<times> ('k, 'v) Item) list \<Rightarrow> counters \<Rightarrow> bool" where
  "reclaim_ready region items rf \<longleftrightarrow> \<not> rf region > length items"

text \<open>One entry of the region: the verdicts of the reinsertion policies, and a writer of the store. The result says
  whether to go on.\<close>

definition reinsert_entry :: "('k::linorder, 'kc, 'v, 'vc, 'd, 'e, 'p, 'b) store_env \<Rightarrow> nat \<Rightarrow> 'k \<Rightarrow> 'v \<Rightarrow> ('k, 'v, 'd, 'e, 'p) GenericStore \<Rightarrow>
    (bool \<times> ('k, 'v, 'd, 'e, 'p) GenericStore) option" where
  "reinsert_entry env now key value st = do {
     weight \<leftarrow> uadd (cd_serialized_len (en_kc env) key) (cd_serialized_len (en_vc env) value);
     let (vs, ps) = ask_policies (en_pol env) (gs_catalog st) key weight (gs_reinsertions st);
     js \<leftarrow> judges_fill (en_bm env) (judges_new (en_bm env) (length (gs_reinsertions st))) 0 vs;
     let st1 = st\<lparr>gs_reinsertions := ps\<rparr>;
     let tell = (\<lambda>cb s. map_option (\<lambda>ps. s\<lparr>gs_reinsertions := ps\<rparr>) (tell_policies (en_bm env) js cb 0 (gs_reinsertions s)));
     if \<not> judges_judge (en_bm env) js then do {
       st2 \<leftarrow> tell (\<lambda>p. pol_on_drop (en_pol env) p key weight) st1;
       Some (True, st2)
     } else do {
       let w = writer_set_skippable (writer_new env st1 key weight);
       (admitted, w1, st2) \<leftarrow> writer_judge env w st1;
       if \<not> admitted then do {
         st3 \<leftarrow> writer_drop env w1 st2;
         Some (True, st3)
       } else do {
         (inserted, st3) \<leftarrow> writer_finish env now w1 value st2;
         if inserted then do {
           st4 \<leftarrow> tell (\<lambda>p. pol_on_insert (en_pol env) p key weight) st3;
           Some (True, st4)
         } else do {
           st4 \<leftarrow> tell (\<lambda>p. pol_on_drop (en_pol env) p key weight) st3;
           Some (False, st4)
         }
       }
     }
   }"

partial_function (option) reinsert_loop :: "('k::linorder, 'kc, 'v, 'vc, 'd, 'e, 'p, 'b) store_env \<Rightarrow> nat \<Rightarrow> RegionEntryIter \<Rightarrow>
    ('k, 'v, 'd, 'e, 'p) GenericStore \<Rightarrow> ((store_error + bool) \<times> ('k, 'v, 'd, 'e, 'p) GenericStore) option" where
  "reinsert_loop env now it st = do {
     (res, it', rf) \<leftarrow> iter_next_kv (en_dev env) (en_kc env) (en_vc env) (en_ops env) it (gs_device st) (gs_refs st);
     let st1 = st\<lparr>gs_refs := rf\<rparr>;
     (case res of
        Inl e \<Rightarrow> Some (Inl e, st1)
      | Inr None \<Rightarrow> Some (Inr True, st1)
      | Inr (Some (key, value)) \<Rightarrow> do {
          (go, st2) \<leftarrow> reinsert_entry env now key value st1;
          if go then reinsert_loop env now it' st2 else Some (Inr False, st2)
        })
   }"

declare reinsert_loop.simps [code]

definition reinsert_region :: "('k::linorder, 'kc, 'v, 'vc, 'd, 'e, 'p, 'b) store_env \<Rightarrow> nat \<Rightarrow> nat \<Rightarrow>
    ('k, 'v, 'd, 'e, 'p) GenericStore \<Rightarrow> ((store_error + bool) \<times> ('k, 'v, 'd, 'e, 'p) GenericStore) option" where
  "reinsert_region env now region st = do {
     rg \<leftarrow> rm_region (gs_rm st) region;
     opened \<leftarrow> iter_open (en_dev env) rg (gs_device st);
     (case opened of
        Inl e \<Rightarrow> Some (Inl e, st)
      | Inr None \<Rightarrow> Some (Inr True, st)
      | Inr (Some it) \<Rightarrow> reinsert_loop env now it st)
   }"

definition reclaim_wipe :: "('k::linorder, 'kc, 'v, 'vc, 'd, 'e, 'p, 'b) store_env \<Rightarrow> nat \<Rightarrow> ('k, 'v, 'd, 'e, 'p) GenericStore \<Rightarrow>
    ((store_error + unit) \<times> ('k, 'v, 'd, 'e, 'p) GenericStore) option" where
  "reclaim_wipe env region st = do {
     (res, d) \<leftarrow> dv_write (en_dev env) (gs_device st) (replicate (dv_align (en_dev env)) 0) region 0;
     Some (case res of Inl e \<Rightarrow> Inl e | Inr _ \<Rightarrow> Inr (), st\<lparr>gs_device := d\<rparr>)
   }"

definition reclaim_release :: "nat \<Rightarrow> ('k::linorder, 'v, 'd, 'e, 'p) GenericStore \<Rightarrow> ('k, 'v, 'd, 'e, 'p) GenericStore" where
  "reclaim_release region st = st\<lparr>gs_rm := (gs_rm st)\<lparr>rm_clean_regions := snd (release (rm_clean_regions (gs_rm st)) region)\<rparr>\<rparr>"

definition reclaim_drop :: "('k \<times> ('k, 'v) Item) list \<Rightarrow> ('k::linorder, 'v, 'd, 'e, 'p) GenericStore \<Rightarrow> ('k, 'v, 'd, 'e, 'p) GenericStore" where
  "reclaim_drop items st = st\<lparr>gs_refs := fold item_drop (map snd items) (gs_refs st)\<rparr>"

text \<open>The whole of \<^verbatim>\<open>handle\<close>, for a reclaimer that nothing runs beside; \<open>None\<close> also stands for waiting.\<close>

definition reclaimer_handle :: "('k::linorder, 'kc, 'v, 'vc, 'd, 'e, 'p, 'b) store_env \<Rightarrow> nat \<Rightarrow> usize \<Rightarrow> ('k, 'v, 'd, 'e, 'p) GenericStore \<Rightarrow>
    ((store_error + unit) \<times> ('k, 'v, 'd, 'e, 'p) GenericStore) option" where
  "reclaimer_handle env now threshold st = do {
     (turn, st1) \<leftarrow> reclaim_take env threshold st;
     (case turn of
        EnoughClean \<Rightarrow> Some (Inr (), st1)
      | NoVictim \<Rightarrow> None
      | Victim region items \<Rightarrow> do {
          ensure (reclaim_ready region items (gs_refs st1));
          (res, st2) \<leftarrow> (if gs_reinsertions st1 = [] then Some (Inr True, st1) else reinsert_region env now region st1);
          (wiped, st3) \<leftarrow> reclaim_wipe env region st2;
          (case wiped of
             Inl e \<Rightarrow> Some (Inl e, reclaim_drop items st3)
           | Inr _ \<Rightarrow> Some (Inr (), reclaim_drop items (reclaim_release region st3)))
        })
   }"

text \<open>The policy that reinserts what the catalog still knows. Its lookup clones the item and drops it again.\<close>

definition exist_judge :: "('k::linorder \<Rightarrow> 64 word) \<Rightarrow> ('k, 'v) Catalog \<Rightarrow> 'p \<Rightarrow> 'k \<Rightarrow> usize \<Rightarrow> bool \<times> 'p" where
  "exist_judge hash c p key weight = ((case catalog_lookup hash key c (\<lambda>_. 0) of Some (Some it, rf) \<Rightarrow> True | _ \<Rightarrow> False), p)"

definition exist_policy :: "('k::linorder \<Rightarrow> 64 word) \<Rightarrow> ('k, 'v, 'p) policy_ops" where
  "exist_policy hash = \<lparr>pol_judge = exist_judge hash, pol_on_insert = (\<lambda>p key weight judge. p), pol_on_drop = (\<lambda>p key weight judge. p)\<rparr>"

section \<open>Reinsertion\<close>

text \<open>A writer that has been judged finishes as if it had not, and the flag for skipping has no effect.\<close>

lemma finish_judged:
  assumes "writer_judge env w st = Some (adm, w1, st1)"
  shows "writer_finish env now w1 val st1 = writer_finish env now w val st"
proof -
  have "w_is_judged w1" "w_is_inserted w1 = w_is_inserted w" using writer_judge_effect [OF assms] by simp_all
  moreover have "adm = judges_judge (en_bm env) (w_judges w1)" using assms by (auto simp: writer_judge_def split: bind_splits)
  ultimately have "writer_judge env w1 st1 = Some (adm, w1, st1)" by (simp add: writer_judge_def)
  with assms \<open>w_is_inserted w1 = w_is_inserted w\<close> show ?thesis by (simp add: writer_finish_def apply_writer_def)
qed

lemma skippable_sel:
  "w_key (writer_set_skippable w) = w_key w" "w_sequence (writer_set_skippable w) = w_sequence w" "w_judges (writer_set_skippable w) = w_judges w"
  "w_weight (writer_set_skippable w) = w_weight w" "w_compression (writer_set_skippable w) = w_compression w"
  "w_is_inserted (writer_set_skippable w) = w_is_inserted w" "w_is_judged (writer_set_skippable w) = w_is_judged w"
  "(writer_set_skippable w)\<lparr>w_is_inserted := b, w_key := k\<rparr> = writer_set_skippable (w\<lparr>w_is_inserted := b, w_key := k\<rparr>)"
  "(writer_set_skippable w)\<lparr>w_judges := js, w_is_judged := b\<rparr> = writer_set_skippable (w\<lparr>w_judges := js, w_is_judged := b\<rparr>)"
  by (simp_all add: writer_set_skippable_def)

lemma judge_skippable:
  "writer_judge env (writer_set_skippable w) st = map_option (\<lambda>(adm, w1, st1). (adm, writer_set_skippable w1, st1)) (writer_judge env w st)"
  by (cases "w_is_judged w") (auto simp: writer_judge_def judge_inner_def skippable_sel split: prod.splits option.splits bind_splits)

lemma drop_skippable: "writer_drop env (writer_set_skippable w) st = writer_drop env w st"
  by (simp add: writer_drop_def skippable_sel)

lemma apply_skippable:
  "apply_writer env now (writer_set_skippable w) val st = map_option (\<lambda>(b, w1, st1). (b, writer_set_skippable w1, st1)) (apply_writer env now w val st)"
proof (cases "writer_judge env w st")
  case None
  then show ?thesis by (simp add: apply_writer_def judge_skippable skippable_sel)
next
  case (Some r)
  then obtain adm w1 st1 where j: "writer_judge env w st = Some (adm, w1, st1)" by (cases r) auto
  then have j': "writer_judge env (writer_set_skippable w) st = Some (adm, writer_set_skippable w1, st1)" by (simp add: judge_skippable)
  obtain sequence st2 where s: "(case w_sequence w1 of Some s \<Rightarrow> (s, st1) | None \<Rightarrow> (gs_sequence st1, st1\<lparr>gs_sequence := gs_sequence st1 + 1\<rparr>)) = (sequence, st2)"
    by (cases "w_sequence w1") auto
  show ?thesis by (auto simp: apply_writer_def j j' s skippable_sel Let_def split: bind_splits)
qed

lemma finish_skippable: "writer_finish env now (writer_set_skippable w) val st = writer_finish env now w val st"
  by (cases "apply_writer env now w val st") (auto simp: writer_finish_def apply_skippable drop_skippable)

lemma skippable_judge_finish:
  assumes "writer_judge env w st = Some (adm, w1, st1)"
  shows "writer_judge env (writer_set_skippable w) st = Some (adm, writer_set_skippable w1, st1)"
    and "writer_finish env now (writer_set_skippable w1) val st1 = writer_finish env now w val st"
    and "\<not> adm \<Longrightarrow> \<not> w_is_inserted w \<Longrightarrow> writer_finish env now w val st = map_option (\<lambda>st'. (False, st')) (writer_drop env (writer_set_skippable w1) st1)"
proof -
  show "writer_judge env (writer_set_skippable w) st = Some (adm, writer_set_skippable w1, st1)" using assms by (simp add: judge_skippable)
  show "writer_finish env now (writer_set_skippable w1) val st1 = writer_finish env now w val st" by (simp add: finish_skippable finish_judged [OF assms])
  show "writer_finish env now w val st = map_option (\<lambda>st'. (False, st')) (writer_drop env (writer_set_skippable w1) st1)" if "\<not> adm" "\<not> w_is_inserted w"
    using assms that by (cases "writer_drop env w1 st1") (simp_all add: writer_finish_def apply_writer_def drop_skippable)
qed

lemma reinsert_verdicts:
  assumes bm: "bitmap (en_bm env) has_bit" and few: "length (gs_reinsertions st) < 64"
    and ask: "ask_policies (en_pol env) c key weight (gs_reinsertions st) = (rs, rps)"
  shows "\<exists>js. judges_fill (en_bm env) (judges_new (en_bm env) (length (gs_reinsertions st))) 0 rs = Some js \<and>
    (judges_judge (en_bm env) js \<longleftrightarrow> (\<forall>r \<in> set rs. r)) \<and> (\<forall>cb. tell_policies (en_bm env) js cb 0 rps = Some (map2 cb rps rs))"
proof -
  note len = ask_policies_length [OF ask]
  obtain js where js: "judges_fill (en_bm env) (judges_new (en_bm env) (length rs)) 0 rs = Some js"
    "judges_judge (en_bm env) js \<longleftrightarrow> (\<forall>r \<in> set rs. r)" "\<forall>i < length rs. judges_get (en_bm env) js i = Some (rs ! i)"
    using bitmap.new_verdict [OF bm, of rs] few len by auto
  have "tell_policies (en_bm env) js cb 0 rps = Some (map2 cb rps rs)" for cb using js(3) len by (intro tell_policies_ok) simp_all
  with js show ?thesis using len by auto
qed

text \<open>C40. Reinserting an entry of a reclaimed region. Each reinsertion policy is asked once. If one refuses, all of them hear \<^verbatim>\<open>on_drop\<close> and nothing else changes. If they agree
  and an admission policy refuses, the admission policies hear \<^verbatim>\<open>on_drop\<close>, but the reinsertion policies hear nothing. If all agree, the entry goes in with
  the next sequence and becomes the item of its key whatever the catalog has for the key, a newer value included. The reinsertion always goes on to the next entry: the branch
  that stops it is never taken.\<close>

theorem reinsert_entry_spec:
  fixes env :: "('k::linorder, 'kc, 'v, 'vc, 'd, 'e, 'p, 'b) store_env"
  assumes bm: "bitmap (en_bm env) has_bit" and few: "length (gs_admissions st) < 64" "length (gs_reinsertions st) < 64"
    and inv: "catalog_inv (en_hash env) n (gs_catalog st)"
    and chs: "gs_channels st \<noteq> []" "\<forall>q \<in> set (gs_channels st). q \<noteq> None"
    and len: "cd_serialized_len (en_kc env) key < 2 ^ 60" "cd_serialized_len (en_vc env) val < 2 ^ 60"
    and al: "dv_align (en_dev env) = 2 ^ bits" "bits \<le> 60"
    and weight: "weight = cd_serialized_len (en_kc env) key + cd_serialized_len (en_vc env) val"
    and askr: "ask_policies (en_pol env) (gs_catalog st) key weight (gs_reinsertions st) = (rs, rps)"
    and ask: "ask_policies (en_pol env) (gs_catalog st) key weight (gs_admissions st) = (vs, ps)"
  defines "i \<equiv> unat (gs_sequence st) mod length (gs_channels st)"
  shows "\<exists>st'. reinsert_entry env now key val st = Some (True, st') \<and>
    (if \<not> (\<forall>r \<in> set rs. r) then st' = st\<lparr>gs_reinsertions := map2 (\<lambda>p v. pol_on_drop (en_pol env) p key weight v) rps rs\<rparr>
     else if \<not> (\<forall>v \<in> set vs. v) then st' = st\<lparr>gs_reinsertions := rps, gs_admissions := map2 (\<lambda>p v. pol_on_drop (en_pol env) p key weight v) ps vs\<rparr>
     else gs_sequence st' = gs_sequence st + 1 \<and> gs_device st' = gs_device st \<and> gs_rm st' = gs_rm st \<and>
       catalog_map (en_hash env) (gs_catalog st') = (catalog_map (en_hash env) (gs_catalog st))
         (key \<mapsto> \<lparr>it_sequence = gs_sequence st, it_index = Inflight key val, it_inserted = Some now\<rparr>) \<and>
       gs_channels st' = (gs_channels st)[i := Some (the (gs_channels st ! i) @
         [\<lparr>fe_key = key, fe_value = val, fe_sequence = gs_sequence st, fe_compression = gs_compression st\<rparr>])] \<and>
       gs_reinsertions st' = map2 (\<lambda>p v. pol_on_insert (en_pol env) p key weight v) rps rs \<and>
       gs_admissions st' = map2 (\<lambda>p v. pol_on_insert (en_pol env) p key weight v) ps vs)"
proof -
  define st1 where "st1 = st\<lparr>gs_reinsertions := rps\<rparr>"
  have w: "uadd (cd_serialized_len (en_kc env) key) (cd_serialized_len (en_vc env) val) = Some weight" using len by (simp add: weight checked usize_lim_def)
  obtain js where js: "judges_fill (en_bm env) (judges_new (en_bm env) (length (gs_reinsertions st))) 0 rs = Some js"
    "judges_judge (en_bm env) js \<longleftrightarrow> (\<forall>r \<in> set rs. r)" "\<forall>cb. tell_policies (en_bm env) js cb 0 rps = Some (map2 cb rps rs)"
    using reinsert_verdicts [OF bm few(2) askr] by blast
  have few1: "length (gs_admissions st1) < 64" and ask1: "ask_policies (en_pol env) (gs_catalog st1) key weight (gs_admissions st1) = (vs, ps)"
    using few(1) ask by (simp_all add: st1_def)
  define w0 where "w0 = writer_new env st1 key weight"
  obtain js1 where j: "writer_judge env w0 st1 = Some (\<forall>v \<in> set vs. v, w0\<lparr>w_judges := js1, w_is_judged := True\<rparr>, st1\<lparr>gs_admissions := ps\<rparr>)"
    unfolding w0_def by (rule fresh_writer_judge [OF bm few1 ask1])
  note sk = skippable_judge_finish [OF j]
  have i1: "i = unat (gs_sequence st1) mod length (gs_channels st1)" by (simp add: i_def st1_def)
  have 1: "catalog_inv (en_hash env) n (gs_catalog st1)" "gs_channels st1 \<noteq> []" "\<forall>q \<in> set (gs_channels st1). q \<noteq> None" using inv chs by (simp_all add: st1_def)
  obtain st' where fin: "writer_finish env now w0 val st1 = Some (\<forall>v \<in> set vs. v, st')"
    "if \<forall>v \<in> set vs. v
     then gs_sequence st' = gs_sequence st1 + 1 \<and> gs_device st' = gs_device st1 \<and> gs_rm st' = gs_rm st1 \<and> gs_reinsertions st' = gs_reinsertions st1 \<and> gs_compression st' = gs_compression st1 \<and>
       catalog_map (en_hash env) (gs_catalog st') = (catalog_map (en_hash env) (gs_catalog st1))
         (key \<mapsto> \<lparr>it_sequence = gs_sequence st1, it_index = Inflight key val, it_inserted = Some now\<rparr>) \<and>
       gs_channels st' = (gs_channels st1)[i := Some (the (gs_channels st1 ! i) @
         [\<lparr>fe_key = key, fe_value = val, fe_sequence = gs_sequence st1, fe_compression = gs_compression st1\<rparr>])] \<and>
       gs_admissions st' = map2 (\<lambda>p v. pol_on_insert (en_pol env) p key weight v) ps vs
     else st' = st1\<lparr>gs_admissions := map2 (\<lambda>p v. pol_on_drop (en_pol env) p key weight v) ps vs\<rparr>"
    using finish_ok [OF bm few1 1 len al ask1, of now] unfolding w0_def i1 by (elim exE conjE)
  have r1: "gs_reinsertions st1 = rps" "\<And>x. st1\<lparr>gs_reinsertions := x\<rparr> = st\<lparr>gs_reinsertions := x\<rparr>" by (simp_all add: st1_def)
  define R V where "R \<longleftrightarrow> (\<forall>r \<in> set rs. r)" and "V \<longleftrightarrow> (\<forall>v \<in> set vs. v)"
  note j = js [folded R_def] and sk = sk [folded V_def] and fin = fin [folded V_def]
  have "\<not> V \<Longrightarrow> writer_drop env (writer_set_skippable (w0\<lparr>w_judges := js1, w_is_judged := True\<rparr>)) (st1\<lparr>gs_admissions := ps\<rparr>) = Some st'"
    using sk(3) [of now val] fin(1) by (auto simp: w0_def writer_new_def)
  then have start: "reinsert_entry env now key val st =
      Some (True, if \<not> R then st\<lparr>gs_reinsertions := map2 (\<lambda>p. pol_on_drop (en_pol env) p key weight) rps rs\<rparr>
        else if V then st'\<lparr>gs_reinsertions := map2 (\<lambda>p. pol_on_insert (en_pol env) p key weight) rps rs\<rparr> else st')"
    using fin sk(1,2) by (cases R; cases V) (simp_all add: reinsert_entry_def w askr j r1 Let_def flip: st1_def w0_def)
  show ?thesis unfolding start R_def [symmetric] V_def [symmetric] using fin(2) by (cases R; cases V) (simp_all add: st1_def)
qed

text \<open>The catalog has a newer value \<open>[9]\<close> of the key 7, and the old value \<open>[1, 2, 3]\<close> is reinserted over it.\<close>

definition demo_reinsert :: "(64 word, bytes) Catalog \<Rightarrow> (64 word, bytes, nat \<Rightarrow> bytes, RFifo, nat \<times> nat \<times> nat) GenericStore" where
  "demo_reinsert c = demo_gs\<lparr>gs_catalog := c, gs_reinsertions := [(0, 0, 0)]\<rparr>"

theorem reinsert_entry_spec_witness:
  "\<exists>c st'. catalog_map (\<lambda>k. k) c = [7 \<mapsto> \<lparr>it_sequence = 0, it_index = Inflight 7 [9], it_inserted = Some 4\<rparr>] \<and>
     reinsert_entry demo_env 5 7 [1, 2, 3] (demo_reinsert c) = Some (True, st') \<and> gs_reinsertions st' = [(1, 1, 0)] \<and>
     catalog_map (\<lambda>k. k) (gs_catalog st') = [7 \<mapsto> \<lparr>it_sequence = 1, it_index = Inflight 7 [1, 2, 3], it_inserted = Some 5\<rparr>]"
proof -
  obtain c0 :: "(64 word, bytes) Catalog" where c0: "catalog_inv (\<lambda>k. k) 2 c0" "catalog_map (\<lambda>k. k) c0 = Map.empty"
    using catalog_new_ok [of 1 2 "\<lambda>k. k"] by auto
  have "\<forall>v. it_index (item_new 0 (Inflight 7 [9]) :: (64 word, bytes) Item) = RegionIx v \<longrightarrow> rv_id v < 2" by (simp add: item_new_def)
  from catalog_insert_ok [OF c0(1) this, of 4 7 "\<lambda>_. 0"] obtain c :: "(64 word, bytes) Catalog" where c: "catalog_inv (\<lambda>k. k) 2 c"
    "catalog_map (\<lambda>k. k) c = [7 \<mapsto> \<lparr>it_sequence = 0, it_index = Inflight 7 [9], it_inserted = Some 4\<rparr>]"
    using c0(2) by (auto simp: item_new_def)
  have bm: "bitmap (en_bm demo_env) bit" using wbm.bitmap_axioms by (simp add: demo_env_def)
  have inv: "catalog_inv (en_hash demo_env) 2 (gs_catalog (demo_reinsert c))" using c by (simp add: demo_env_def demo_reinsert_def)
  have len: "cd_serialized_len (en_kc demo_env) 7 < 2 ^ 60" "cd_serialized_len (en_vc demo_env) [1, 2, 3] < 2 ^ 60" "dv_align (en_dev demo_env) = 2 ^ 5"
    by (simp_all add: demo_env_def demo_dev_def fs_ops_def demo_fs_def demo_kc_def prim_coder_def prim_serialized_len_def vec_coder_def)
  have ask: "ask_policies (en_pol demo_env) c' 7 w [(0, 0, 0)] = ([True], [(1, 0, 0)])" for c' w by (simp add: demo_env_def demo_pol_def)
  have "\<exists>st'. reinsert_entry demo_env 5 7 [1, 2, 3] (demo_reinsert c) = Some (True, st') \<and> gs_reinsertions st' = [(1, 1, 0)] \<and>
     catalog_map (\<lambda>k. k) (gs_catalog st') = [7 \<mapsto> \<lparr>it_sequence = 1, it_index = Inflight 7 [1, 2, 3], it_inserted = Some 5\<rparr>]"
    using reinsert_entry_spec [where rs = "[True]" and rps = "[(1, 0, 0)]" and vs = "[True]" and ps = "[(1, 0, 0)]" and now = 5, OF bm _ _ inv _ _ len _ refl] ask c(2)
    by (auto simp: demo_reinsert_def demo_gs_def demo_env_def demo_pol_def fun_eq_iff)
  with c(2) show ?thesis by blast
qed

end
