(* ===== verification/Store_System.thy ===== *)
theory Store_System
  imports Reclaimer "HOL-Library.Multiset"
begin

text \<open>
  The store with its tasks: clients that insert, look up, remove and clear, the flushers and the reclaimers, which
  interleave wherever the code awaits, and in \<^verbatim>\<open>update_catalog\<close> after every entry. An operation of the catalog or of the
  region manager is one step, and a lookup has two, so that a reader holds the view of an entry while other tasks
  run. The steps are the definitions of the components. The store is opened on a device without recoverable regions and has no
  reinsertion policies; sequences are left to the store. \<open>ss_inserted\<close> is the history of the insertions.
\<close>

section \<open>The system\<close>

datatype ('k, 'v) flush_phase =
    FIdle
  | FAcquire "nat option" "('k, 'v) FlushEntry"
  | FRotate "nat option" nat "('k, 'v) FlushEntry"
  | FPublish "('k, 'v) PositionedEntry list" "(nat option \<times> ('k, 'v) FlushEntry) option"
  | FRetry "('k, 'v) FlushEntry"
  | FStopped

datatype ('k, 'v) reclaim_phase =
    RIdle
  | RWait nat "('k \<times> ('k, 'v) Item) list"
  | RReady nat "('k \<times> ('k, 'v) Item) list"
  | RWiped nat "('k \<times> ('k, 'v) Item) list"
  | RDrop "('k \<times> ('k, 'v) Item) list" bool
  | RStopped

type_synonym ('k, 'v) flush_task = "('k, 'v) Flusher \<times> ('k, 'v) flush_phase"

record (overloaded) ('k::linorder, 'v, 'd, 'e, 'p) store_sys =
  ss_store :: "('k, 'v, 'd, 'e, 'p) GenericStore"
  ss_flushers :: "('k, 'v) flush_task list"
  ss_readers :: "('k \<times> RegionView) list"
  ss_reclaimers :: "('k, 'v) reclaim_phase list"
  ss_inserted :: "('k \<times> 'v) set"

definition flush_turn :: "('k, 'v) flush_outcome \<Rightarrow> nat option \<Rightarrow> ('k, 'v) flush_phase" where
  "flush_turn out old = (case out of Flushed es \<Rightarrow> FPublish es None | NeedRegion e \<Rightarrow> FAcquire old e | FlushFailed e \<Rightarrow> FStopped)"

definition small_entry :: "('k, 'kc) coder \<Rightarrow> ('v, 'vc) coder \<Rightarrow> 'k \<Rightarrow> 'v \<Rightarrow> bool" where
  "small_entry kc vc k v \<longleftrightarrow> cd_serialized_len kc k < 2 ^ 60 \<and> cd_serialized_len vc v < 2 ^ 60"

text \<open>A flusher that fails or stops drops the receiver of its channel.\<close>

definition set_flusher :: "nat \<Rightarrow> ('k, 'v) flush_task \<Rightarrow> ('k::linorder, 'v, 'd, 'e, 'p) store_sys \<Rightarrow> ('k, 'v, 'd, 'e, 'p) store_sys" where
  "set_flusher i t s = s\<lparr>ss_flushers := (ss_flushers s)[i := t],
     ss_store := (if snd t = FStopped then (ss_store s)\<lparr>gs_channels := (gs_channels (ss_store s))[i := None]\<rparr> else ss_store s)\<rparr>"

definition set_reclaimer :: "nat \<Rightarrow> ('k, 'v) reclaim_phase \<Rightarrow> ('k::linorder, 'v, 'd, 'e, 'p) store_sys \<Rightarrow> ('k, 'v, 'd, 'e, 'p) store_sys" where
  "set_reclaimer j ph s = s\<lparr>ss_reclaimers := (ss_reclaimers s)[j := ph]\<rparr>"

inductive client_op :: "('k::linorder, 'kc, 'v, 'vc, 'd, 'e, 'p, 'b) store_env \<Rightarrow> ('k, 'v, 'd, 'e, 'p) store_sys \<Rightarrow> ('k, 'v, 'd, 'e, 'p) store_sys \<Rightarrow> bool"
  for env where
  op_finish: "writer_finish env now w val (ss_store s) = Some (b, st) \<Longrightarrow> w_key w = Some key \<Longrightarrow> w_sequence w = None \<Longrightarrow>
    gs_sequence (ss_store s) \<noteq> - 1 \<Longrightarrow> small_entry (en_kc env) (en_vc env) key val \<Longrightarrow>
    client_op env s (s\<lparr>ss_store := st, ss_inserted := (if b then insert (key, val) (ss_inserted s) else ss_inserted s)\<rparr>)"
| op_judge: "writer_judge env w (ss_store s) = Some (b, w', st) \<Longrightarrow> client_op env s (s\<lparr>ss_store := st\<rparr>)"
| op_drop: "writer_drop env w (ss_store s) = Some st \<Longrightarrow> client_op env s (s\<lparr>ss_store := st\<rparr>)"
| op_exists: "store_exists env (ss_store s) key = Some (b, st) \<Longrightarrow> client_op env s (s\<lparr>ss_store := st\<rparr>)"
| op_remove: "store_remove env (ss_store s) key = Some (b, st) \<Longrightarrow> client_op env s (s\<lparr>ss_store := st\<rparr>)"
| op_clear: "client_op env s (s\<lparr>ss_store := store_clear (ss_store s)\<rparr>)"
| op_lookup: "store_lookup env (ss_store s) key = Some (LookupDone r, st) \<Longrightarrow> client_op env s (s\<lparr>ss_store := st\<rparr>)"
| op_lookup_load: "store_lookup env (ss_store s) key = Some (LookupLoad v, st) \<Longrightarrow>
    client_op env s (s\<lparr>ss_store := st, ss_readers := (key, v) # ss_readers s\<rparr>)"
| op_load: "(key, v) \<in> set (ss_readers s) \<Longrightarrow> lookup_load env (ss_store s) key v = Some (res, st) \<Longrightarrow>
    client_op env s (s\<lparr>ss_store := st, ss_readers := remove1 (key, v) (ss_readers s)\<rparr>)"

inductive flusher_op :: "('k::linorder, 'kc, 'v, 'vc, 'd, 'e, 'p, 'b) store_env \<Rightarrow> nat \<Rightarrow> ('k, 'v, 'd, 'e, 'p) store_sys \<Rightarrow> ('k, 'v, 'd, 'e, 'p) store_sys \<Rightarrow> bool"
  for env i where
  fl_take: "i < length (ss_flushers s) \<Longrightarrow> ss_flushers s ! i = (f, FIdle) \<Longrightarrow> gs_channels (ss_store s) ! i = Some (e # q) \<Longrightarrow>
    flusher_write (en_ops env) (en_kc env) (en_vc env) (en_dev env) e f (gs_device (ss_store s)) = Some (out, f', d) \<Longrightarrow>
    flusher_op env i s (set_flusher i (f', flush_turn out (fb_region (fl_buffer f)))
      (s\<lparr>ss_store := (ss_store s)\<lparr>gs_device := d, gs_channels := (gs_channels (ss_store s))[i := Some q]\<rparr>\<rparr>))"
| fl_acquire: "i < length (ss_flushers s) \<Longrightarrow> ss_flushers s ! i = (f, FAcquire old e) \<Longrightarrow>
    try_acquire (rm_clean_regions (gs_rm (ss_store s))) = (Some r, woken, q) \<Longrightarrow>
    flusher_op env i s (set_flusher i (f, FRotate old r e)
      (s\<lparr>ss_store := (ss_store s)\<lparr>gs_rm := (gs_rm (ss_store s))\<lparr>rm_clean_regions := q\<rparr>\<rparr>\<rparr>))"
| fl_rotate: "i < length (ss_flushers s) \<Longrightarrow> ss_flushers s ! i = (f, FRotate old r e) \<Longrightarrow>
    fb_rotate (en_ops env) (en_dev env) (fl_buffer f) (gs_device (ss_store s)) r = Some (res, b, d) \<Longrightarrow>
    flusher_op env i s (set_flusher i (f\<lparr>fl_buffer := b\<rparr>, case res of Inl _ \<Rightarrow> FStopped | Inr es \<Rightarrow> FPublish es (Some (old, e)))
      (s\<lparr>ss_store := (ss_store s)\<lparr>gs_device := d\<rparr>\<rparr>))"
| fl_publish: "i < length (ss_flushers s) \<Longrightarrow> ss_flushers s ! i = (f, FPublish (pe # es) nx) \<Longrightarrow>
    publish_entry (en_hash env) now (gs_rm (ss_store s)) pe (gs_catalog (ss_store s)) (gs_refs (ss_store s)) = Some (c, rf) \<Longrightarrow>
    flusher_op env i s (set_flusher i (f, FPublish es nx) (s\<lparr>ss_store := (ss_store s)\<lparr>gs_catalog := c, gs_refs := rf\<rparr>\<rparr>))"
| fl_done: "i < length (ss_flushers s) \<Longrightarrow> ss_flushers s ! i = (f, FPublish [] None) \<Longrightarrow> flusher_op env i s (set_flusher i (f, FIdle) s)"
| fl_push: "i < length (ss_flushers s) \<Longrightarrow> ss_flushers s ! i = (f, FPublish [] (Some (old, e))) \<Longrightarrow>
    flusher_push_old (en_ep env) (gs_rm (ss_store s)) old = Some rm \<Longrightarrow>
    flusher_op env i s (set_flusher i (f, FRetry e) (s\<lparr>ss_store := (ss_store s)\<lparr>gs_rm := rm\<rparr>\<rparr>))"
| fl_retry: "i < length (ss_flushers s) \<Longrightarrow> ss_flushers s ! i = (f, FRetry e) \<Longrightarrow>
    flusher_retry (en_ops env) (en_kc env) (en_vc env) (en_dev env) e f (gs_device (ss_store s)) = Some (res, f', d) \<Longrightarrow>
    flusher_op env i s (set_flusher i (f', case res of Inl _ \<Rightarrow> FStopped | Inr es \<Rightarrow> FPublish es None)
      (s\<lparr>ss_store := (ss_store s)\<lparr>gs_device := d\<rparr>\<rparr>))"
| fl_exit: "i < length (ss_flushers s) \<Longrightarrow> ss_flushers s ! i = (f, FIdle) \<Longrightarrow> gs_channels (ss_store s) ! i = Some [] \<Longrightarrow>
    flusher_exit (en_ops env) (en_dev env) f (gs_device (ss_store s)) = Some (res, d) \<Longrightarrow>
    flusher_op env i s (set_flusher i (f, FStopped) (s\<lparr>ss_store := (ss_store s)\<lparr>gs_device := d\<rparr>\<rparr>))"

inductive reclaimer_op :: "('k::linorder, 'kc, 'v, 'vc, 'd, 'e, 'p, 'b) store_env \<Rightarrow> usize \<Rightarrow> nat \<Rightarrow> ('k, 'v, 'd, 'e, 'p) store_sys \<Rightarrow> ('k, 'v, 'd, 'e, 'p) store_sys \<Rightarrow> bool"
  for env threshold j where
  rc_none: "j < length (ss_reclaimers s) \<Longrightarrow> ss_reclaimers s ! j = RIdle \<Longrightarrow>
    reclaim_take env threshold (ss_store s) = Some (turn, st) \<Longrightarrow> turn = EnoughClean \<or> turn = NoVictim \<Longrightarrow>
    reclaimer_op env threshold j s (s\<lparr>ss_store := st\<rparr>)"
| rc_take: "j < length (ss_reclaimers s) \<Longrightarrow> ss_reclaimers s ! j = RIdle \<Longrightarrow>
    reclaim_take env threshold (ss_store s) = Some (Victim r items, st) \<Longrightarrow>
    reclaimer_op env threshold j s (set_reclaimer j (RWait r items) (s\<lparr>ss_store := st\<rparr>))"
| rc_ready: "j < length (ss_reclaimers s) \<Longrightarrow> ss_reclaimers s ! j = RWait r items \<Longrightarrow> reclaim_ready r items (gs_refs (ss_store s)) \<Longrightarrow>
    reclaimer_op env threshold j s (set_reclaimer j (RReady r items) s)"
| rc_wipe: "j < length (ss_reclaimers s) \<Longrightarrow> ss_reclaimers s ! j = RReady r items \<Longrightarrow> reclaim_wipe env r (ss_store s) = Some (res, st) \<Longrightarrow>
    reclaimer_op env threshold j s (set_reclaimer j (case res of Inl _ \<Rightarrow> RDrop items False | Inr _ \<Rightarrow> RWiped r items) (s\<lparr>ss_store := st\<rparr>))"
| rc_release: "j < length (ss_reclaimers s) \<Longrightarrow> ss_reclaimers s ! j = RWiped r items \<Longrightarrow>
    reclaimer_op env threshold j s (set_reclaimer j (RDrop items True) (s\<lparr>ss_store := reclaim_release r (ss_store s)\<rparr>))"
| rc_drop: "j < length (ss_reclaimers s) \<Longrightarrow> ss_reclaimers s ! j = RDrop items go \<Longrightarrow>
    reclaimer_op env threshold j s (set_reclaimer j (if go then RIdle else RStopped) (s\<lparr>ss_store := reclaim_drop items (ss_store s)\<rparr>))"

text \<open>The views that are alive outside of the catalog. The counters have 64 bits; \<open>views_fit\<close> says that the views of a
  region do not wrap them around.\<close>

definition reclaim_items :: "('k, 'v) reclaim_phase \<Rightarrow> ('k \<times> ('k, 'v) Item) list" where
  "reclaim_items ph = (case ph of RWait r its \<Rightarrow> its | RReady r its \<Rightarrow> its | RWiped r its \<Rightarrow> its | RDrop its go \<Rightarrow> its | _ \<Rightarrow> [])"

definition views_out :: "('k::linorder, 'v, 'd, 'e, 'p) store_sys \<Rightarrow> nat \<Rightarrow> nat" where
  "views_out s r = length (filter (\<lambda>x. rv_id (snd x) = r) (ss_readers s)) +
     (\<Sum>x \<leftarrow> concat (map reclaim_items (ss_reclaimers s)). item_views (snd x) r)"

definition views_fit :: "('k::linorder \<Rightarrow> 64 word) \<Rightarrow> ('k, 'v, 'd, 'e, 'p) store_sys \<Rightarrow> bool" where
  "views_fit hash s \<longleftrightarrow> (\<forall>r. views_of (catalog_map hash (gs_catalog (ss_store s))) r + views_out s r < usize_lim)"

definition sys_init :: "('k::linorder, 'v, 'd, 'e, 'p) GenericStore \<Rightarrow> ('k, 'v) Flusher list \<Rightarrow> nat \<Rightarrow> ('k, 'v, 'd, 'e, 'p) store_sys" where
  "sys_init st fls n = \<lparr>ss_store = st, ss_flushers = map (\<lambda>f. (f, FIdle)) fls, ss_readers = [], ss_reclaimers = replicate n RIdle, ss_inserted = {}\<rparr>"

inductive store_reachable :: "('k::linorder, 'kc, 'v, 'vc, 'd, 'e, 'p, 'b) store_env \<Rightarrow> ('e, 'p) GenericStoreConfig \<Rightarrow> 'd \<Rightarrow> ('k, 'v, 'd, 'e, 'p) store_sys \<Rightarrow> bool"
  for env config d where
  sys_open: "store_open env now order config d = Some (Inr (st, fls)) \<Longrightarrow> distinct order \<Longrightarrow> set order = {..<dv_regions (en_dev env)} \<Longrightarrow>
    store_reachable env config d (sys_init st fls (sc_reclaimers config))"
| sys_client: "store_reachable env config d s \<Longrightarrow> views_fit (en_hash env) s \<Longrightarrow> client_op env s s' \<Longrightarrow> store_reachable env config d s'"
| sys_flusher: "store_reachable env config d s \<Longrightarrow> views_fit (en_hash env) s \<Longrightarrow> flusher_op env i s s' \<Longrightarrow> store_reachable env config d s'"
| sys_reclaimer: "store_reachable env config d s \<Longrightarrow> views_fit (en_hash env) s \<Longrightarrow> reclaimer_op env (sc_clean_region_threshold config) j s s' \<Longrightarrow>
    store_reachable env config d s'"

end
