(* ===== verification/Store_Inv.thy ===== *)
theory Store_Inv
  imports Store_System
begin

text \<open>
  The invariant of the store with its tasks. It has four parts: every region belongs to one place (\<open>own_inv\<close>), a sequence
  is in one place (\<open>seq_inv\<close>), every place on the device that someone can read holds an entry that was inserted under
  its key and lies before every offset that someone may write at (\<open>disk_inv\<close>), and the counters of the regions count the
  views (\<open>counted\<close>).
\<close>

section \<open>Where a region is\<close>

datatype place = Clean | Evictable | Flushing nat | Reclaiming nat

definition phase_held :: "('k, 'v) flush_phase \<Rightarrow> nat set" where
  "phase_held ph = (case ph of FAcquire old e \<Rightarrow> set_option old | FRotate old r e \<Rightarrow> insert r (set_option old)
     | FPublish es nx \<Rightarrow> pe_region ` set es \<union> (case nx of None \<Rightarrow> {} | Some (old, e) \<Rightarrow> set_option old) | _ \<Rightarrow> {})"

definition task_held :: "('k, 'v) flush_task \<Rightarrow> nat set" where
  "task_held t = (if snd t = FStopped then {} else set_option (fb_region (fl_buffer (fst t))) \<union> phase_held (snd t))"

definition reclaim_held :: "('k, 'v) reclaim_phase \<Rightarrow> nat set" where
  "reclaim_held ph = (case ph of RWait r its \<Rightarrow> {r} | RReady r its \<Rightarrow> {r} | RWiped r its \<Rightarrow> {r} | _ \<Rightarrow> {})"

definition regions_held :: "('e \<Rightarrow> nat set) \<Rightarrow> ('k::linorder, 'v, 'd, 'e, 'p) store_sys \<Rightarrow> place \<Rightarrow> nat set" where
  "regions_held members s p = (case p of
       Clean \<Rightarrow> set (aq_queue (rm_clean_regions (gs_rm (ss_store s))))
     | Evictable \<Rightarrow> members (rm_eviction (gs_rm (ss_store s)))
     | Flushing i \<Rightarrow> (if i < length (ss_flushers s) then task_held (ss_flushers s ! i) else {})
     | Reclaiming j \<Rightarrow> (if j < length (ss_reclaimers s) then reclaim_held (ss_reclaimers s ! j) else {}))"

definition own_inv :: "nat \<Rightarrow> (place \<Rightarrow> nat set) \<Rightarrow> bool" where
  "own_inv n H \<longleftrightarrow> (\<forall>p q. p \<noteq> q \<longrightarrow> H p \<inter> H q = {}) \<and> (\<forall>p. H p \<subseteq> {..<n})"

lemma own_move:
  assumes inv: "own_inv n H" and sub: "\<And>p. H' p \<subseteq> H p \<union> (if p = dst then X else {})" and X: "X \<subseteq> H src"
    and out: "src \<noteq> dst \<Longrightarrow> H' src \<inter> X = {}"
  shows "own_inv n H'"
proof -
  have D: "x \<in> H p \<Longrightarrow> x \<in> H q \<Longrightarrow> p = q" and B: "x \<in> H p \<Longrightarrow> x < n" for x p q using inv unfolding own_inv_def by blast+
  have S: "x \<in> H p \<or> p = dst \<and> x \<in> X" if "x \<in> H' p" for x p using sub [of p] that by (auto split: if_splits)
  have "p = q" if p: "x \<in> H' p" and q: "x \<in> H' q" for x p q
  proof (cases "x \<in> X")
    case True
    then have "x \<in> H src" using X by blast
    then have "p = src \<or> p = dst" "q = src \<or> q = dst" using S [OF p] S [OF q] D [of x] by metis+
    then show ?thesis using True out p q by blast
  next
    case False
    then show ?thesis using S [OF p] S [OF q] D by blast
  qed
  moreover have "x < n" if "x \<in> H' p" for x p using S [OF that] X B by blast
  ultimately show ?thesis unfolding own_inv_def by blast
qed

lemma own_shrink: "own_inv n H \<Longrightarrow> (\<And>p. H' p \<subseteq> H p) \<Longrightarrow> own_inv n H'"
  by (rule own_move [where X = "{}" and src = Clean and dst = Clean]) auto

lemma own_lt: "own_inv n H \<Longrightarrow> r \<in> H p \<Longrightarrow> r < n"
  unfolding own_inv_def by blast

lemma own_one: "own_inv n H \<Longrightarrow> r \<in> H p \<Longrightarrow> r \<in> H q \<Longrightarrow> p = q"
  unfolding own_inv_def by blast

section \<open>Where a sequence is\<close>

definition phase_entries :: "('k, 'v) flush_phase \<Rightarrow> ('k, 'v) FlushEntry list" where
  "phase_entries ph = (case ph of FAcquire old e \<Rightarrow> [e] | FRotate old r e \<Rightarrow> [e] | FRetry e \<Rightarrow> [e]
     | FPublish es nx \<Rightarrow> map pe_entry es @ (case nx of None \<Rightarrow> [] | Some (old, e) \<Rightarrow> [e]) | _ \<Rightarrow> [])"

definition task_entries :: "('k, 'v) flush_task \<Rightarrow> ('k, 'v) FlushEntry list" where
  "task_entries t = (if snd t = FStopped then [] else map pe_entry (fb_entries (fl_buffer (fst t))) @ phase_entries (snd t))"

definition channel_entries :: "('k, 'v) FlushEntry list option \<Rightarrow> ('k, 'v) FlushEntry list" where
  "channel_entries q = (case q of None \<Rightarrow> [] | Some q \<Rightarrow> q)"

definition sys_entries :: "('k::linorder, 'v, 'd, 'e, 'p) store_sys \<Rightarrow> ('k, 'v) FlushEntry multiset" where
  "sys_entries s = mset (concat (map channel_entries (gs_channels (ss_store s)))) + mset (concat (map task_entries (ss_flushers s)))"

definition seq_inv :: "('k::linorder \<Rightarrow> 64 word) \<Rightarrow> nat \<Rightarrow> ('k, 'v) Catalog \<Rightarrow> 64 word \<Rightarrow> 64 word multiset \<Rightarrow> bool" where
  "seq_inv hash n c g M \<longleftrightarrow> (\<forall>x. count M x \<le> 1) \<and> (\<forall>x \<in># M. x < g) \<and>
     (\<forall>r < n. \<forall>k x. region_seq c r k = Some x \<longrightarrow> x < g \<and> x \<notin># M \<and> (\<forall>q < n. region_seq c q k = Some x \<longrightarrow> q = r)) \<and>
     (\<forall>k it. catalog_map hash c k = Some it \<longrightarrow> it_sequence it < g \<and>
        (\<forall>r < n. region_seq c r k = Some (it_sequence it) \<longrightarrow> item_views it r = 1))"

lemma concat_update:
  assumes "i < length xs"
  shows "mset (concat (map f (xs[i := y]))) + mset (f (xs ! i)) = mset (concat (map f xs)) + mset (f y)"
  using assms
proof (induction xs arbitrary: i)
  case (Cons x xs)
  then show ?case by (cases i) (simp_all add: ac_simps)
qed simp

lemma seq_shrink:
  assumes inv: "seq_inv hash n c g M" and M: "M' \<subseteq># M" and m: "catalog_map hash c' \<subseteq>\<^sub>m catalog_map hash c"
    and seq: "\<forall>r < n. \<forall>k x. region_seq c' r k = Some x \<longrightarrow> region_seq c r k = Some x"
  shows "seq_inv hash n c' g M'"
proof -
  have "count M' x \<le> count M x" for x using M by (simp add: mset_subset_eq_count)
  moreover have "x \<in># M" if "x \<in># M'" for x using M that by (rule mset_subset_eqD)
  moreover have "catalog_map hash c k = Some it" if "catalog_map hash c' k = Some it" for k it using m that by (simp add: map_le_def dom_def)
  ultimately show ?thesis using inv seq unfolding seq_inv_def by (meson order_trans)
qed

lemma word_less_succ: "(g :: 64 word) \<noteq> - 1 \<Longrightarrow> g < g + 1"
  using unatSuc [of g] by (simp add: word_less_nat_alt add.commute eq_neg_iff_add_eq_0)

lemma seq_fresh:
  assumes inv: "seq_inv hash n c g M" and g: "g \<noteq> - 1" and m: "catalog_map hash c' = (catalog_map hash c)(k \<mapsto> it)"
    and it: "it_sequence it = g" and seq: "\<forall>r < n. region_seq c' r = region_seq c r"
  shows "seq_inv hash n c' (g + 1) (add_mset g M)"
proof -
  have up: "x < g + 1" if "x < g" for x using that word_less_succ [OF g] by (rule less_trans)
  have M: "\<And>x. count M x \<le> 1" "\<And>x. x \<in># M \<Longrightarrow> x < g"
    and R: "\<And>r k x. r < n \<Longrightarrow> region_seq c r k = Some x \<Longrightarrow> x < g \<and> x \<notin># M \<and> (\<forall>q < n. region_seq c q k = Some x \<longrightarrow> q = r)"
    and C: "\<And>k it. catalog_map hash c k = Some it \<Longrightarrow> it_sequence it < g \<and> (\<forall>r < n. region_seq c r k = Some (it_sequence it) \<longrightarrow> item_views it r = 1)"
    using inv unfolding seq_inv_def by blast+
  have fresh: "g \<notin># M" "count M g = 0" using M(2) [of g] by (auto simp: count_eq_zero_iff)
  show ?thesis unfolding seq_inv_def
  proof (intro conjI allI impI ballI)
    fix x show "count (add_mset g M) x \<le> 1" using M(1) [of x] fresh by auto
    show "x < g + 1" if "x \<in># add_mset g M" using that M(2) up word_less_succ [OF g] by auto
  next
    fix r k' x assume r: "r < n" "region_seq c' r k' = Some x"
    then have x: "x < g" "x \<notin># M" "\<forall>q < n. region_seq c q k' = Some x \<longrightarrow> q = r" using R [of r k' x] seq by auto
    show "x < g + 1" "x \<notin># add_mset g M" using x up by auto
    fix q assume "q < n" "region_seq c' q k' = Some x"
    then show "q = r" using x(3) seq by simp
  next
    fix k' it' assume k: "catalog_map hash c' k' = Some it'"
    show "it_sequence it' < g + 1" using k C up word_less_succ [OF g] it by (auto simp: m split: if_splits)
    fix r assume r: "r < n" "region_seq c' r k' = Some (it_sequence it')"
    show "item_views it' r = 1"
    proof (cases "k' = k")
      case True
      then have "region_seq c r k = Some g" using r k it seq by (simp add: m)
      then show ?thesis using R [OF r(1)] by blast
    next
      case False
      then show ?thesis using k r C [of k' it'] seq by (simp add: m)
    qed
  qed
qed

lemma seq_publish:
  assumes inv: "seq_inv hash n c g (add_mset x M)" and m: "catalog_map hash c' = (catalog_map hash c)(k \<mapsto> it)"
    and it: "it_sequence it = x" "item_views it r0 = 1" and r0: "r0 < n"
    and seq: "\<forall>r < n. region_seq c' r = (if r = r0 then (region_seq c r)(k \<mapsto> x) else region_seq c r)"
  shows "seq_inv hash n c' g M"
proof -
  have M: "\<And>y. count (add_mset x M) y \<le> 1" "\<And>y. y \<in># add_mset x M \<Longrightarrow> y < g"
    and R: "\<And>r k y. r < n \<Longrightarrow> region_seq c r k = Some y \<Longrightarrow> y < g \<and> y \<notin># add_mset x M \<and> (\<forall>q < n. region_seq c q k = Some y \<longrightarrow> q = r)"
    and C: "\<And>k it. catalog_map hash c k = Some it \<Longrightarrow> it_sequence it < g \<and> (\<forall>r < n. region_seq c r k = Some (it_sequence it) \<longrightarrow> item_views it r = 1)"
    using inv unfolding seq_inv_def by blast+
  have x: "x < g" "x \<notin># M" using M(2) [of x] M(1) [of x] by (auto simp: not_in_iff)
  have new: "region_seq c q k' \<noteq> Some x" if "q < n" for q k' using R [OF that, of k' x] by auto
  show ?thesis unfolding seq_inv_def
  proof (intro conjI allI impI ballI)
    fix y show "count M y \<le> 1" using M(1) [of y] by (auto split: if_splits)
    show "y < g" if "y \<in># M" using that M(2) by simp
  next
    fix r k' y assume r: "r < n" "region_seq c' r k' = Some y"
    have cases: "(r = r0 \<and> k' = k \<and> y = x) \<or> region_seq c r k' = Some y" using r seq by (auto split: if_splits)
    show "y < g" "y \<notin># M" using cases x R [OF r(1), of k' y] by auto
    fix q assume q: "q < n" "region_seq c' q k' = Some y"
    then have "(q = r0 \<and> k' = k \<and> y = x) \<or> region_seq c q k' = Some y" using seq by (auto split: if_splits)
    then show "q = r" using cases new q(1) r(1) R [OF r(1), of k' y] by auto
  next
    fix k' it' assume k: "catalog_map hash c' k' = Some it'"
    show "it_sequence it' < g" using k C it x by (auto simp: m split: if_splits)
    fix r assume r: "r < n" "region_seq c' r k' = Some (it_sequence it')"
    show "item_views it' r = 1"
    proof (cases "k' = k")
      case True
      then have "r = r0" using r k it seq new by (auto simp: m split: if_splits)
      then show ?thesis using k it True by (simp add: m)
    next
      case False
      then show ?thesis using k r C [of k' it'] seq by (auto simp: m split: if_splits)
    qed
  qed
qed

section \<open>What can be read and what can be written\<close>

definition view_of :: "('k, 'v) PositionedEntry \<Rightarrow> RegionView" where
  "view_of pe = \<lparr>rv_id = pe_region pe, rv_offset = word_of_nat (pe_offset pe), rv_len = word_of_nat (pe_len pe)\<rparr>"

definition view_end :: "RegionView \<Rightarrow> nat" where
  "view_end v = unat (rv_offset v) + unat (rv_len v)"

definition good_view :: "('k, 'kc) coder \<Rightarrow> ('v, 'vc) coder \<Rightarrow> store_ops \<Rightarrow> 'd device_ops \<Rightarrow> (nat \<Rightarrow> bytes) \<Rightarrow> ('k \<times> 'v) set \<Rightarrow> 'k \<Rightarrow> RegionView \<Rightarrow> bool" where
  "good_view kc vc ops dev disk ins k v \<longleftrightarrow> rv_id v < dv_regions dev \<and> dv_align dev dvd unat (rv_len v) \<and>
     view_end v \<le> the (dv_region_size dev) \<and> view_end v \<le> length (disk (rv_id v)) \<and>
     (\<exists>e. holds kc vc ops (dv_align dev) (read_at (disk (rv_id v)) (unat (rv_offset v)) (unat (rv_len v))) e \<and> fe_key e = k \<and> (k, fe_value e) \<in> ins)"

definition catalog_spots :: "('k \<rightharpoonup> ('k, 'v) Item) \<Rightarrow> ('k \<times> RegionView) set" where
  "catalog_spots m = {(k, v). \<exists>it. m k = Some it \<and> it_index it = RegionIx v}"

definition task_spots :: "('k, 'v) flush_task \<Rightarrow> ('k \<times> RegionView) set" where
  "task_spots t = (case snd t of FPublish es nx \<Rightarrow> (\<lambda>pe. (fe_key (pe_entry pe), view_of pe)) ` set es | _ \<Rightarrow> {})"

definition sys_spots :: "('k::linorder \<Rightarrow> 64 word) \<Rightarrow> ('k, 'v, 'd, 'e, 'p) store_sys \<Rightarrow> ('k \<times> RegionView) set" where
  "sys_spots hash s = catalog_spots (catalog_map hash (gs_catalog (ss_store s))) \<union> set (ss_readers s) \<union> (\<Union>t \<in> set (ss_flushers s). task_spots t)"

definition task_writes :: "('k, 'v) flush_task \<Rightarrow> (nat \<times> nat) set" where
  "task_writes t = (if snd t = FStopped then {} else
     (case fb_region (fl_buffer (fst t)) of None \<Rightarrow> {} | Some r \<Rightarrow> {(r, fb_offset (fl_buffer (fst t)))}) \<union>
     (case snd t of FRotate old r e \<Rightarrow> {(r, 0)} | _ \<Rightarrow> {}))"

definition reclaim_writes :: "('k, 'v) reclaim_phase \<Rightarrow> (nat \<times> nat) set" where
  "reclaim_writes ph = (case ph of RReady r its \<Rightarrow> {(r, 0)} | RWiped r its \<Rightarrow> {(r, 0)} | _ \<Rightarrow> {})"

definition sys_writes :: "('k::linorder, 'v, 'd, 'e, 'p) store_sys \<Rightarrow> (nat \<times> nat) set" where
  "sys_writes s = (\<lambda>r. (r, 0)) ` set (aq_queue (rm_clean_regions (gs_rm (ss_store s)))) \<union>
     (\<Union>t \<in> set (ss_flushers s). task_writes t) \<union> (\<Union>ph \<in> set (ss_reclaimers s). reclaim_writes ph)"

definition disk_inv :: "('k, 'kc) coder \<Rightarrow> ('v, 'vc) coder \<Rightarrow> store_ops \<Rightarrow> 'd device_ops \<Rightarrow> (nat \<Rightarrow> bytes) \<Rightarrow> ('k \<times> 'v) set \<Rightarrow>
    ('k \<times> RegionView) set \<Rightarrow> (nat \<times> nat) set \<Rightarrow> bool" where
  "disk_inv kc vc ops dev disk ins S W \<longleftrightarrow> (\<forall>(k, v) \<in> S. good_view kc vc ops dev disk ins k v \<and> (\<forall>off. (rv_id v, off) \<in> W \<longrightarrow> view_end v \<le> off))"

lemma disk_invD:
  assumes "disk_inv kc vc ops dev disk ins S W" "(k, v) \<in> S"
  shows "good_view kc vc ops dev disk ins k v" "(rv_id v, off) \<in> W \<Longrightarrow> view_end v \<le> off"
  using assms unfolding disk_inv_def by blast+

lemma disk_invI:
  assumes "\<And>k v. (k, v) \<in> S \<Longrightarrow> good_view kc vc ops dev disk ins k v \<and> (\<forall>off. (rv_id v, off) \<in> W \<longrightarrow> view_end v \<le> off)"
  shows "disk_inv kc vc ops dev disk ins S W"
  using assms unfolding disk_inv_def by blast

lemma good_view_mono: "good_view kc vc ops dev disk ins k v \<Longrightarrow> ins \<subseteq> ins' \<Longrightarrow> good_view kc vc ops dev disk ins' k v"
  unfolding good_view_def by blast

text \<open>Fewer places to read, and fewer or later places to write.\<close>

lemma disk_mono:
  assumes inv: "disk_inv kc vc ops dev disk ins S W" and "S' \<subseteq> S" "W' \<subseteq> W" "ins \<subseteq> ins'"
  shows "disk_inv kc vc ops dev disk ins' S' W'"
  using assms good_view_mono [OF _ \<open>ins \<subseteq> ins'\<close>] unfolding disk_inv_def by blast

lemma good_view_written:
  assumes good: "good_view kc vc ops dev disk ins k v" and w: "written_behind disk disk' region off"
    and before: "region = Some (rv_id v) \<Longrightarrow> view_end v \<le> off"
  shows "good_view kc vc ops dev disk' ins k v"
proof (cases "disk' (rv_id v) = disk (rv_id v)")
  case True
  then show ?thesis using good by (simp add: good_view_def)
next
  case False
  then obtain bs where d: "region = Some (rv_id v)" "disk' (rv_id v) = write_at (disk (rv_id v)) off bs"
    using w by (auto simp: written_behind_def)
  have "view_end v \<le> off" "view_end v \<le> length (disk (rv_id v))" using before d(1) good by (auto simp: good_view_def)
  then have "read_at (disk' (rv_id v)) (unat (rv_offset v)) (unat (rv_len v)) = read_at (disk (rv_id v)) (unat (rv_offset v)) (unat (rv_len v))"
    unfolding d(2) by (intro read_write_before) (simp_all add: view_end_def)
  then show ?thesis using good d(2) unfolding good_view_def by (auto simp: length_write_at)
qed

section \<open>The invariant\<close>

definition task_ok :: "('k, 'kc) coder \<Rightarrow> ('v, 'vc) coder \<Rightarrow> store_ops \<Rightarrow> 'd device_ops \<Rightarrow> ('k, 'v) flush_task \<Rightarrow> bool" where
  "task_ok kc vc ops dev t \<longleftrightarrow> snd t = FStopped \<or> fb_inv kc vc ops dev (fl_buffer (fst t)) \<and> (case snd t of
       FAcquire old e \<Rightarrow> old = fb_region (fl_buffer (fst t))
     | FRotate old r e \<Rightarrow> old = fb_region (fl_buffer (fst t)) \<and> old \<noteq> Some r
     | FPublish es (Some (old, e)) \<Rightarrow> old = None \<or> old \<noteq> fb_region (fl_buffer (fst t))
     | _ \<Rightarrow> True)"

definition reclaim_ok :: "('k \<times> RegionView) set \<Rightarrow> ('k, 'v) reclaim_phase \<Rightarrow> bool" where
  "reclaim_ok C ph \<longleftrightarrow> (case ph of RWait r its \<Rightarrow> (\<forall>(k, v) \<in> C. rv_id v \<noteq> r) \<and> (\<forall>x \<in> set its. item_views (snd x) r = 1) | _ \<Rightarrow> True)"

definition entry_ok :: "('k, 'kc) coder \<Rightarrow> ('v, 'vc) coder \<Rightarrow> ('k \<times> 'v) set \<Rightarrow> ('k, 'v) FlushEntry \<Rightarrow> bool" where
  "entry_ok kc vc ins e \<longleftrightarrow> (fe_key e, fe_value e) \<in> ins \<and> small_entry kc vc (fe_key e) (fe_value e)"

definition inflight_ok :: "('k \<rightharpoonup> ('k, 'v) Item) \<Rightarrow> ('k \<times> 'v) set \<Rightarrow> bool" where
  "inflight_ok m ins \<longleftrightarrow> (\<forall>k it k' v. m k = Some it \<longrightarrow> it_index it = Inflight k' v \<longrightarrow> k' = k \<and> (k, v) \<in> ins)"

definition sys_inv :: "('k::linorder, 'kc, 'v, 'vc, 'd, 'e, 'p, 'b) store_env \<Rightarrow> ('d \<Rightarrow> nat \<Rightarrow> bytes) \<Rightarrow> ('e \<Rightarrow> bool) \<Rightarrow> ('e \<Rightarrow> nat set) \<Rightarrow>
    ('k, 'v, 'd, 'e, 'p) store_sys \<Rightarrow> bool" where
  "sys_inv env fdata ok members s \<longleftrightarrow> (let st = ss_store s; m = catalog_map (en_hash env) (gs_catalog st); n = dv_regions (en_dev env) in
     catalog_inv (en_hash env) n (gs_catalog st) \<and> rm_ok ok members n (gs_rm st) \<and>
     own_inv n (regions_held members s) \<and> distinct (aq_queue (rm_clean_regions (gs_rm st))) \<and>
     (\<forall>t \<in> set (ss_flushers s). task_ok (en_kc env) (en_vc env) (en_ops env) (en_dev env) t) \<and>
     (\<forall>ph \<in> set (ss_reclaimers s). reclaim_ok (catalog_spots m) ph) \<and>
     (\<forall>e \<in># sys_entries s. entry_ok (en_kc env) (en_vc env) (ss_inserted s) e) \<and>
     seq_inv (en_hash env) n (gs_catalog st) (gs_sequence st) (image_mset fe_sequence (sys_entries s)) \<and>
     inflight_ok m (ss_inserted s) \<and>
     disk_inv (en_kc env) (en_vc env) (en_ops env) (en_dev env) (fdata (gs_device st)) (ss_inserted s) (sys_spots (en_hash env) s) (sys_writes s) \<and>
     counted m (views_out s) (gs_refs st) \<and> length (gs_channels st) = length (ss_flushers s))"

lemma sys_invD:
  assumes "sys_inv env fdata ok members s"
  shows "catalog_inv (en_hash env) (dv_regions (en_dev env)) (gs_catalog (ss_store s))"
    "rm_ok ok members (dv_regions (en_dev env)) (gs_rm (ss_store s))"
    "own_inv (dv_regions (en_dev env)) (regions_held members s)"
    "distinct (aq_queue (rm_clean_regions (gs_rm (ss_store s))))"
    "t \<in> set (ss_flushers s) \<Longrightarrow> task_ok (en_kc env) (en_vc env) (en_ops env) (en_dev env) t"
    "ph \<in> set (ss_reclaimers s) \<Longrightarrow> reclaim_ok (catalog_spots (catalog_map (en_hash env) (gs_catalog (ss_store s)))) ph"
    "e \<in># sys_entries s \<Longrightarrow> entry_ok (en_kc env) (en_vc env) (ss_inserted s) e"
    "seq_inv (en_hash env) (dv_regions (en_dev env)) (gs_catalog (ss_store s)) (gs_sequence (ss_store s)) (image_mset fe_sequence (sys_entries s))"
    "inflight_ok (catalog_map (en_hash env) (gs_catalog (ss_store s))) (ss_inserted s)"
    "disk_inv (en_kc env) (en_vc env) (en_ops env) (en_dev env) (fdata (gs_device (ss_store s))) (ss_inserted s) (sys_spots (en_hash env) s) (sys_writes s)"
    "counted (catalog_map (en_hash env) (gs_catalog (ss_store s))) (views_out s) (gs_refs (ss_store s))"
    "length (gs_channels (ss_store s)) = length (ss_flushers s)"
  using assms unfolding sys_inv_def Let_def by blast+

lemma sys_invI:
  assumes "catalog_inv (en_hash env) (dv_regions (en_dev env)) (gs_catalog (ss_store s))"
    "rm_ok ok members (dv_regions (en_dev env)) (gs_rm (ss_store s))"
    "own_inv (dv_regions (en_dev env)) (regions_held members s)"
    "distinct (aq_queue (rm_clean_regions (gs_rm (ss_store s))))"
    "\<And>t. t \<in> set (ss_flushers s) \<Longrightarrow> task_ok (en_kc env) (en_vc env) (en_ops env) (en_dev env) t"
    "\<And>ph. ph \<in> set (ss_reclaimers s) \<Longrightarrow> reclaim_ok (catalog_spots (catalog_map (en_hash env) (gs_catalog (ss_store s)))) ph"
    "\<And>e. e \<in># sys_entries s \<Longrightarrow> entry_ok (en_kc env) (en_vc env) (ss_inserted s) e"
    "seq_inv (en_hash env) (dv_regions (en_dev env)) (gs_catalog (ss_store s)) (gs_sequence (ss_store s)) (image_mset fe_sequence (sys_entries s))"
    "inflight_ok (catalog_map (en_hash env) (gs_catalog (ss_store s))) (ss_inserted s)"
    "disk_inv (en_kc env) (en_vc env) (en_ops env) (en_dev env) (fdata (gs_device (ss_store s))) (ss_inserted s) (sys_spots (en_hash env) s) (sys_writes s)"
    "counted (catalog_map (en_hash env) (gs_catalog (ss_store s))) (views_out s) (gs_refs (ss_store s))"
    "length (gs_channels (ss_store s)) = length (ss_flushers s)"
  shows "sys_inv env fdata ok members s"
  using assms unfolding sys_inv_def Let_def by blast

lemma catalog_spots_mono: "m' \<subseteq>\<^sub>m m \<Longrightarrow> catalog_spots m' \<subseteq> catalog_spots m"
  unfolding catalog_spots_def map_le_def dom_def by fastforce

lemma reclaim_ok_mono: "reclaim_ok C ph \<Longrightarrow> C' \<subseteq> C \<Longrightarrow> reclaim_ok C' ph"
  by (cases ph) (auto simp: reclaim_ok_def)

lemma inflight_mono: "inflight_ok m ins \<Longrightarrow> m' \<subseteq>\<^sub>m m \<Longrightarrow> ins \<subseteq> ins' \<Longrightarrow> inflight_ok m' ins'"
  unfolding inflight_ok_def map_le_def dom_def by fastforce

text \<open>Steps of clients that only take things out of the catalog or hold on to what is there.\<close>

lemma client_frame:
  assumes inv: "sys_inv env fdata ok members s"
    and same: "ss_flushers s' = ss_flushers s" "ss_reclaimers s' = ss_reclaimers s" "ss_inserted s' = ss_inserted s"
      "gs_device (ss_store s') = gs_device (ss_store s)" "gs_channels (ss_store s') = gs_channels (ss_store s)"
      "gs_sequence (ss_store s') = gs_sequence (ss_store s)"
    and rm: "rm_ok ok members (dv_regions (en_dev env)) (gs_rm (ss_store s'))"
      "members (rm_eviction (gs_rm (ss_store s'))) = members (rm_eviction (gs_rm (ss_store s)))"
      "rm_clean_regions (gs_rm (ss_store s')) = rm_clean_regions (gs_rm (ss_store s))"
    and cat: "catalog_inv (en_hash env) (dv_regions (en_dev env)) (gs_catalog (ss_store s'))"
      "catalog_map (en_hash env) (gs_catalog (ss_store s')) \<subseteq>\<^sub>m catalog_map (en_hash env) (gs_catalog (ss_store s))"
      "\<forall>r < dv_regions (en_dev env). \<forall>k x. region_seq (gs_catalog (ss_store s')) r k = Some x \<longrightarrow> region_seq (gs_catalog (ss_store s)) r k = Some x"
    and readers: "set (ss_readers s') \<subseteq> set (ss_readers s) \<union> catalog_spots (catalog_map (en_hash env) (gs_catalog (ss_store s)))"
    and cnt: "counted (catalog_map (en_hash env) (gs_catalog (ss_store s'))) (views_out s') (gs_refs (ss_store s'))"
  shows "sys_inv env fdata ok members s'"
proof -
  note I = sys_invD [OF inv]
  note spots = catalog_spots_mono [OF cat(2)]
  have ent: "sys_entries s' = sys_entries s" by (simp add: sys_entries_def same)
  have h: "regions_held members s' = regions_held members s" by (rule ext) (simp add: regions_held_def same rm(2,3) split: place.split)
  have w: "sys_writes s' = sys_writes s" by (simp add: sys_writes_def same rm(3))
  have sp: "sys_spots (en_hash env) s' \<subseteq> sys_spots (en_hash env) s" using spots readers unfolding sys_spots_def same by blast
  show ?thesis
  proof (rule sys_invI)
    show "own_inv (dv_regions (en_dev env)) (regions_held members s')" using I(3) h by simp
    show "distinct (aq_queue (rm_clean_regions (gs_rm (ss_store s'))))" using I(4) rm(3) by simp
    show "length (gs_channels (ss_store s')) = length (ss_flushers s')" using I(12) same by simp
    show "inflight_ok (catalog_map (en_hash env) (gs_catalog (ss_store s'))) (ss_inserted s')" using inflight_mono [OF I(9) cat(2)] same by simp
    show "seq_inv (en_hash env) (dv_regions (en_dev env)) (gs_catalog (ss_store s')) (gs_sequence (ss_store s')) (image_mset fe_sequence (sys_entries s'))"
      using seq_shrink [OF I(8) _ cat(2,3)] ent same by simp
    show "disk_inv (en_kc env) (en_vc env) (en_ops env) (en_dev env) (fdata (gs_device (ss_store s'))) (ss_inserted s') (sys_spots (en_hash env) s') (sys_writes s')"
      using disk_mono [OF I(10) sp, of "sys_writes s'" "ss_inserted s'"] w same by simp
    show "reclaim_ok (catalog_spots (catalog_map (en_hash env) (gs_catalog (ss_store s')))) ph" if "ph \<in> set (ss_reclaimers s')" for ph
      using reclaim_ok_mono [OF I(6) spots] that same by simp
  qed (use I(5,7) same ent rm cat cnt in simp_all)
qed

end
