(* ===== verification/Store_Steps.thy ===== *)
theory Store_Steps
  imports Store_Inv
begin

text \<open>
  Every step of the store and its tasks keeps the invariant. The locale \<open>store_system\<close> is what the store relies on: a device,
  coders and compression as in \<open>store_io\<close>, and an eviction policy.
\<close>

locale store_system = disk_store "en_dev env" fdata rsize abits "en_ops env" "en_kc env" "en_vc env" "en_ep env" ok members "en_hash env"
  for env :: "('k::linorder, 'kc, 'v, 'vc, 'd, 'e, 'p, 'b) store_env" and fdata rsize abits ok members

section \<open>Clients\<close>

lemma length_filter_remove1: "x \<in> set xs \<Longrightarrow> length (filter P xs) = length (filter P (remove1 x xs)) + (if P x then 1 else 0)"
  by (induction xs) auto

lemma views_out_update [simp]:
  "views_out (s\<lparr>ss_store := st\<rparr>) = views_out s" "views_out (s\<lparr>ss_inserted := ins\<rparr>) = views_out s"
  "views_out (s\<lparr>ss_flushers := fl\<rparr>) = views_out s"
  by (simp_all add: views_out_def fun_eq_iff)

lemma drop_index_effect:
  assumes inv: "catalog_inv (en_hash env) n (gs_catalog st)" and d: "drop_index env key st = Some (b, st')"
  shows "\<exists>c rf. st' = st\<lparr>gs_catalog := c, gs_refs := rf\<rparr> \<and> catalog_inv (en_hash env) n c \<and>
    catalog_map (en_hash env) c \<subseteq>\<^sub>m catalog_map (en_hash env) (gs_catalog st) \<and>
    (\<forall>r < n. \<forall>k x. region_seq c r k = Some x \<longrightarrow> region_seq (gs_catalog st) r k = Some x) \<and>
    (\<forall>out. counted (catalog_map (en_hash env) (gs_catalog st)) out (gs_refs st) \<longrightarrow> counted (catalog_map (en_hash env) c) out rf)"
proof -
  let ?m = "catalog_map (en_hash env) (gs_catalog st)"
  obtain c where c: "catalog_remove (en_hash env) key (gs_catalog st) = Some (?m key, c)" "catalog_inv (en_hash env) n c"
    "catalog_map (en_hash env) c = ?m(key := None)" "\<forall>r < n. \<forall>k' s. region_seq c r k' = Some s \<longrightarrow> region_seq (gs_catalog st) r k' = Some s"
    "\<forall>rf out. counted ?m out rf \<longrightarrow> counted (catalog_map (en_hash env) c) (\<lambda>r. out r + (case ?m key of None \<Rightarrow> 0 | Some it \<Rightarrow> item_views it r)) rf"
    using catalog_remove_ok [OF inv, of key] by (elim exE conjE)
  define rf where "rf = (case ?m key of None \<Rightarrow> gs_refs st | Some it \<Rightarrow> item_drop it (gs_refs st))"
  have st': "st' = st\<lparr>gs_catalog := c, gs_refs := rf\<rparr>" using d c(1) by (auto simp: drop_index_def rf_def)
  have "counted (catalog_map (en_hash env) c) out rf" if "counted ?m out (gs_refs st)" for out
    using c(5) that unfolding rf_def by (cases "?m key") (auto intro: counted_item_drop)
  moreover have "?m(key := None) \<subseteq>\<^sub>m ?m" by (auto simp: map_le_def)
  ultimately show ?thesis using st' c(2-4) by (intro exI [of _ c] exI [of _ rf]) simp
qed

context store_system
begin

lemma admissions_frame:
  assumes inv: "sys_inv env fdata ok members s"
  shows "sys_inv env fdata ok members (s\<lparr>ss_store := (ss_store s)\<lparr>gs_admissions := ps\<rparr>\<rparr>)"
  by (rule client_frame [OF inv]) (use sys_invD [OF inv] in simp_all)

lemma exists_inv:
  assumes inv: "sys_inv env fdata ok members s" and e: "store_exists env (ss_store s) key = Some (b, st)"
  shows "sys_inv env fdata ok members (s\<lparr>ss_store := st\<rparr>)"
proof -
  note I = sys_invD [OF inv]
  let ?m = "catalog_map (en_hash env) (gs_catalog (ss_store s))"
  obtain rf where l: "catalog_lookup (en_hash env) key (gs_catalog (ss_store s)) (gs_refs (ss_store s)) = Some (?m key, rf)"
    "\<forall>out. counted ?m out (gs_refs (ss_store s)) \<longrightarrow> counted ?m (\<lambda>r. out r + (case ?m key of None \<Rightarrow> 0 | Some it \<Rightarrow> item_views it r)) rf"
    using catalog_lookup_ok [OF I(1), of key "gs_refs (ss_store s)"] by blast
  have st: "st = (ss_store s)\<lparr>gs_refs := (case ?m key of None \<Rightarrow> rf | Some it \<Rightarrow> item_drop it rf)\<rparr>"
    using e l(1) by (simp add: store_exists_def)
  have "counted ?m (views_out s) (gs_refs st)" using l(2) I(11) unfolding st by (cases "?m key") (auto intro: counted_item_drop)
  then show ?thesis by (intro client_frame [OF inv]) (use I st in simp_all)
qed

lemma remove_inv:
  assumes inv: "sys_inv env fdata ok members s" and e: "drop_index env key (ss_store s) = Some (b, st)"
  shows "sys_inv env fdata ok members (s\<lparr>ss_store := st\<rparr>)"
proof -
  note I = sys_invD [OF inv]
  obtain c rf where st: "st = (ss_store s)\<lparr>gs_catalog := c, gs_refs := rf\<rparr>" "catalog_inv (en_hash env) (dv_regions (en_dev env)) c"
    "catalog_map (en_hash env) c \<subseteq>\<^sub>m catalog_map (en_hash env) (gs_catalog (ss_store s))"
    "\<forall>r < dv_regions (en_dev env). \<forall>k x. region_seq c r k = Some x \<longrightarrow> region_seq (gs_catalog (ss_store s)) r k = Some x"
    "\<forall>out. counted (catalog_map (en_hash env) (gs_catalog (ss_store s))) out (gs_refs (ss_store s)) \<longrightarrow> counted (catalog_map (en_hash env) c) out rf"
    using drop_index_effect [OF I(1) e] by (elim exE conjE)
  show ?thesis by (rule client_frame [OF inv]) (use I st in simp_all)
qed

lemma clear_inv:
  assumes inv: "sys_inv env fdata ok members s"
  shows "sys_inv env fdata ok members (s\<lparr>ss_store := store_clear (ss_store s)\<rparr>)"
proof -
  note I = sys_invD [OF inv]
  obtain c rf where c: "catalog_clear (gs_catalog (ss_store s)) (gs_refs (ss_store s)) = (c, rf)" "catalog_inv (en_hash env) (dv_regions (en_dev env)) c"
    "catalog_map (en_hash env) c = Map.empty" "\<forall>r < dv_regions (en_dev env). region_seq c r = Map.empty"
    "\<forall>out. counted (catalog_map (en_hash env) (gs_catalog (ss_store s))) out (gs_refs (ss_store s)) \<longrightarrow> counted (catalog_map (en_hash env) c) out rf"
    using catalog_clear_ok [OF I(1), of "gs_refs (ss_store s)"] by (elim exE conjE)
  have st: "store_clear (ss_store s) = (ss_store s)\<lparr>gs_catalog := c, gs_refs := rf\<rparr>" using c(1) by (simp add: store_clear_def)
  show ?thesis unfolding st
  proof (rule client_frame [OF inv], goal_cases)
    case 14
    show ?case using c(5) I(11) by simp
  qed (use I c in simp_all)
qed

lemma lookup_cases:
  assumes inv: "sys_inv env fdata ok members s" and l: "store_lookup env (ss_store s) key = Some (turn, st)"
  obtains rf where "st = (ss_store s)\<lparr>gs_refs := rf\<rparr>" "\<forall>v. turn \<noteq> LookupLoad v"
      "counted (catalog_map (en_hash env) (gs_catalog (ss_store s))) (views_out s) rf"
    | rf rm v where "st = (ss_store s)\<lparr>gs_refs := rf, gs_rm := rm\<rparr>" "turn = LookupLoad v"
      "(key, v) \<in> catalog_spots (catalog_map (en_hash env) (gs_catalog (ss_store s)))"
      "record_access (en_ep env) (gs_rm (ss_store s)) (rv_id v) = Some rm" "rv_id v < dv_regions (en_dev env)"
      "counted (catalog_map (en_hash env) (gs_catalog (ss_store s))) (\<lambda>r. views_out s r + (if rv_id v = r then 1 else 0)) rf"
proof -
  note I = sys_invD [OF inv]
  let ?m = "catalog_map (en_hash env) (gs_catalog (ss_store s))"
  obtain rf where rf: "catalog_lookup (en_hash env) key (gs_catalog (ss_store s)) (gs_refs (ss_store s)) = Some (?m key, rf)"
    "\<forall>out. counted ?m out (gs_refs (ss_store s)) \<longrightarrow> counted ?m (\<lambda>r. out r + (case ?m key of None \<Rightarrow> 0 | Some it \<Rightarrow> item_views it r)) rf"
    using catalog_lookup_ok [OF I(1), of key "gs_refs (ss_store s)"] by blast
  have cnt: "counted ?m (\<lambda>r. views_out s r + (case ?m key of None \<Rightarrow> 0 | Some it \<Rightarrow> item_views it r)) rf" using rf(2) I(11) by blast
  show thesis
  proof (cases "\<exists>it v. ?m key = Some it \<and> it_index it = RegionIx v")
    case True
    then obtain it v where it: "?m key = Some it" "it_index it = RegionIx v" by blast
    then have lt: "rv_id v < dv_regions (en_dev env)" using I(1) by (auto simp: catalog_inv_def catalog_linked_def)
    obtain rm where rm: "record_access (en_ep env) (gs_rm (ss_store s)) (rv_id v) = Some rm" using record_access_ok [OF I(2) lt] by blast
    show ?thesis
      by (rule that(2) [where rf = rf and rm = rm and v = v]) (use l rf(1) it rm lt cnt in \<open>auto simp: store_lookup_def item_consume_def catalog_spots_def item_views_def\<close>)
  next
    case False
    show ?thesis
    proof (cases "?m key")
      case None
      then show ?thesis by (intro that(1) [of rf]) (use l rf(1) cnt in \<open>auto simp: store_lookup_def\<close>)
    next
      case (Some it)
      with False obtain k v where "it_index it = Inflight k v" by (cases "it_index it") auto
      with Some show ?thesis by (intro that(1) [of rf]) (use l rf(1) cnt in \<open>auto simp: store_lookup_def item_consume_def item_views_def\<close>)
    qed
  qed
qed

lemma lookup_inv:
  assumes inv: "sys_inv env fdata ok members s" and l: "store_lookup env (ss_store s) key = Some (LookupDone x, st)"
  shows "sys_inv env fdata ok members (s\<lparr>ss_store := st\<rparr>)"
  using inv l
proof (cases rule: lookup_cases)
  case (1 rf)
  then show ?thesis by (intro client_frame [OF inv]) (use sys_invD [OF inv] in simp_all)
qed simp

lemma lookup_load_inv:
  assumes inv: "sys_inv env fdata ok members s" and l: "store_lookup env (ss_store s) key = Some (LookupLoad v, st)"
  shows "sys_inv env fdata ok members (s\<lparr>ss_store := st, ss_readers := (key, v) # ss_readers s\<rparr>)"
  using inv l
proof (cases rule: lookup_cases)
  case (2 rf rm v')
  note I = sys_invD [OF inv]
  have v: "v' = v" using 2 by simp
  have out: "views_out (s\<lparr>ss_store := st', ss_readers := (key, v) # ss_readers s\<rparr>) = (\<lambda>r. views_out s r + (if rv_id v = r then 1 else 0))" for st'
    by (rule ext) (simp add: views_out_def)
  obtain rm' where rm: "record_access (en_ep env) (gs_rm (ss_store s)) (rv_id v) = Some rm'" "rm_ok ok members (dv_regions (en_dev env)) rm'"
    "members (rm_eviction rm') = members (rm_eviction (gs_rm (ss_store s)))" "rm_clean_regions rm' = rm_clean_regions (gs_rm (ss_store s))"
    using record_access_ok [OF I(2) 2(5)] v by auto
  show ?thesis by (rule client_frame [OF inv]) (use I rm 2 v in \<open>simp_all add: out subset_eq\<close>)
qed simp

lemma load_reader:
  assumes inv: "sys_inv env fdata ok members s" and v: "(key, v) \<in> set (ss_readers s)"
  obtains rg res where "rm_region (gs_rm (ss_store s)) (rv_id v) = Some rg"
    "region_load (en_dev env) rg (gs_device (ss_store s)) v (gs_refs (ss_store s)) = Some (res, view_drop v (gs_refs (ss_store s)))"
    "\<forall>x. res = Inr x \<longrightarrow> (\<exists>bs e. x = Some bs \<and> holds (en_kc env) (en_vc env) (en_ops env) (dv_align (en_dev env)) bs e \<and> fe_key e = key \<and> (key, fe_value e) \<in> ss_inserted s)"
proof -
  note I = sys_invD [OF inv]
  let ?d = "fdata (gs_device (ss_store s))" and ?a = "unat (rv_offset v)" and ?n = "unat (rv_len v)"
  have good: "good_view (en_kc env) (en_vc env) (en_ops env) (en_dev env) ?d (ss_inserted s) key v"
    by (rule disk_invD(1) [OF I(10)]) (use v in \<open>simp add: sys_spots_def\<close>)
  then have g: "rv_id v < dv_regions (en_dev env)" "2 ^ abits dvd ?n" "?a + ?n \<le> rsize" "?a + ?n \<le> length (?d (rv_id v))"
    using region_size(1) align by (auto simp: good_view_def view_end_def)
  obtain e where e: "holds (en_kc env) (en_vc env) (en_ops env) (dv_align (en_dev env)) (read_at (?d (rv_id v)) ?a ?n) e" "fe_key e = key" "(key, fe_value e) \<in> ss_inserted s"
    using good by (auto simp: good_view_def)
  obtain rg where rg: "rm_region (gs_rm (ss_store s)) (rv_id v) = Some rg" "rg_id rg = rv_id v" "rg_waits rg = Map.empty"
    using rm_region_ok [OF I(2) g(1)] by blast
  obtain res where res: "region_load_range (en_dev env) rg (gs_device (ss_store s)) (range_of ?a (?a + ?n)) = Some res"
    "\<forall>x. res = Inr x \<longrightarrow> x = Some (read_at (?d (rv_id v)) ?a ?n)"
    using load_range_ok [of rg "?a + ?n" ?a "gs_device (ss_store s)"] rg g by auto
  have lim: "?a + ?n < usize_lim" using g(3) region_size(2) by simp
  show thesis
    by (rule that [OF rg(1), of res]) (use res e lim in \<open>auto simp: region_load_def checked\<close>)
qed

lemma load_inv:
  assumes inv: "sys_inv env fdata ok members s" and v: "(key, v) \<in> set (ss_readers s)" and l: "lookup_load env (ss_store s) key v = Some (res, st)"
  shows "sys_inv env fdata ok members (s\<lparr>ss_store := st, ss_readers := remove1 (key, v) (ss_readers s)\<rparr>)"
proof -
  note I = sys_invD [OF inv]
  define s1 where "s1 = s\<lparr>ss_store := (ss_store s)\<lparr>gs_refs := view_drop v (gs_refs (ss_store s))\<rparr>, ss_readers := remove1 (key, v) (ss_readers s)\<rparr>"
  have out: "views_out s = (\<lambda>r. views_out s1 r + item_views (item_new 0 (RegionIx v) :: ('k, 'v) Item) r)"
  proof
    fix r
    have "length (filter (\<lambda>x. rv_id (snd x) = r) (ss_readers s)) =
        length (filter (\<lambda>x. rv_id (snd x) = r) (remove1 (key, v) (ss_readers s))) + (if rv_id v = r then 1 else 0)"
      using length_filter_remove1 [OF v, of "\<lambda>x. rv_id (snd x) = r"] by simp
    then show "views_out s r = views_out s1 r + item_views (item_new 0 (RegionIx v) :: ('k, 'v) Item) r"
      by (simp add: views_out_def s1_def item_views_def item_new_def)
  qed
  have "counted (catalog_map (en_hash env) (gs_catalog (ss_store s))) (views_out s1) (view_drop v (gs_refs (ss_store s)))"
    using counted_item_drop [OF I(11) [unfolded out]] by (simp add: item_drop_def item_new_def)
  then have inv1: "sys_inv env fdata ok members s1"
    by (intro client_frame [OF inv]) (use I in \<open>simp_all add: s1_def subset_trans [OF set_remove1_subset]\<close>)
  obtain rg res0 where r: "rm_region (gs_rm (ss_store s)) (rv_id v) = Some rg"
    "region_load (en_dev env) rg (gs_device (ss_store s)) v (gs_refs (ss_store s)) = Some (res0, view_drop v (gs_refs (ss_store s)))"
    by (rule load_reader [OF inv v])
  have "st = ss_store s1 \<or> (\<exists>b. drop_index env key (ss_store s1) = Some (b, st))"
    using l r by (cases res0) (auto simp: lookup_load_def s1_def Let_def split: bind_splits sum.splits option.splits)
  then show ?thesis
  proof
    assume "st = ss_store s1"
    then have "s\<lparr>ss_store := st, ss_readers := remove1 (key, v) (ss_readers s)\<rparr> = s1" by (simp add: s1_def)
    then show ?thesis using inv1 by simp
  next
    assume "\<exists>b. drop_index env key (ss_store s1) = Some (b, st)"
    then have "sys_inv env fdata ok members (s1\<lparr>ss_store := st\<rparr>)" using remove_inv [OF inv1] by blast
    moreover have "s1\<lparr>ss_store := st\<rparr> = s\<lparr>ss_store := st, ss_readers := remove1 (key, v) (ss_readers s)\<rparr>" by (simp add: s1_def)
    ultimately show ?thesis by simp
  qed
qed

lemma insert_inv:
  assumes inv: "sys_inv env fdata ok members s"
    and st: "st = (ss_store s)\<lparr>gs_sequence := gs_sequence (ss_store s) + 1, gs_admissions := ps, gs_catalog := c, gs_refs := rf, gs_channels := chs\<rparr>"
    and ins: "catalog_insert (en_hash env) now key (item_new (gs_sequence (ss_store s)) (Inflight key val)) (gs_catalog (ss_store s)) (gs_refs (ss_store s)) = Some (c, rf)"
    and snd: "send_entry e (gs_channels (ss_store s)) = Some chs"
    and e: "fe_key e = key" "fe_value e = val" "fe_sequence e = gs_sequence (ss_store s)"
    and g: "gs_sequence (ss_store s) \<noteq> - 1" and sm: "small_entry (en_kc env) (en_vc env) key val"
  shows "sys_inv env fdata ok members (s\<lparr>ss_store := st, ss_inserted := insert (key, val) (ss_inserted s)\<rparr>)" (is "sys_inv _ _ _ _ ?s")
proof -
  note I = sys_invD [OF inv]
  let ?m = "catalog_map (en_hash env) (gs_catalog (ss_store s))"
  define item where "item = (item_new (gs_sequence (ss_store s)) (Inflight key val) :: ('k, 'v) Item)"
  have iv: "item_views item r = 0" for r by (simp add: item_def item_new_def item_views_def)
  have nv: "\<forall>v. it_index item = RegionIx v \<longrightarrow> rv_id v < dv_regions (en_dev env)" by (simp add: item_def item_new_def)
  have c: "catalog_inv (en_hash env) (dv_regions (en_dev env)) c" "catalog_map (en_hash env) c = ?m(key \<mapsto> item\<lparr>it_inserted := Some now\<rparr>)"
    "\<forall>r < dv_regions (en_dev env). region_seq c r = region_seq (gs_catalog (ss_store s)) r"
    "\<forall>out. counted ?m out (gs_refs (ss_store s)) \<longrightarrow> counted (catalog_map (en_hash env) c) out rf"
    using catalog_insert_ok [where now = now and k = key and rf = "gs_refs (ss_store s)", OF I(1) nv] ins by (auto simp: iv item_def [symmetric])
  obtain i q where i: "i < length (gs_channels (ss_store s))" "gs_channels (ss_store s) ! i = Some q" "chs = (gs_channels (ss_store s))[i := Some (q @ [e])]"
  proof (rule that [of "unat (fe_sequence e) mod length (gs_channels (ss_store s))"])
    show "gs_channels (ss_store s) ! (unat (fe_sequence e) mod length (gs_channels (ss_store s))) =
        Some (the (gs_channels (ss_store s) ! (unat (fe_sequence e) mod length (gs_channels (ss_store s)))))"
      using snd by (auto simp: send_entry_def Let_def split: bind_splits if_splits)
  qed (use snd in \<open>auto simp: send_entry_def Let_def split: bind_splits if_splits\<close>)
  have "mset (concat (map channel_entries chs)) = add_mset e (mset (concat (map channel_entries (gs_channels (ss_store s)))))"
    using concat_update [OF i(1), of channel_entries "Some (q @ [e])"] i(2) by (simp add: i(3) channel_entries_def)
  then have ent: "sys_entries ?s = add_mset e (sys_entries s)" by (simp add: sys_entries_def st)
  have spots: "catalog_spots (catalog_map (en_hash env) c) \<subseteq> catalog_spots ?m"
    by (auto simp: catalog_spots_def c(2) item_def item_new_def split: if_splits)
  have infl: "inflight_ok (catalog_map (en_hash env) c) (insert (key, val) (ss_inserted s))"
    using I(9) unfolding inflight_ok_def c(2) by (auto simp: item_def item_new_def split: if_splits)
  show ?thesis
  proof (rule sys_invI)
    show "own_inv (dv_regions (en_dev env)) (regions_held members ?s)"
      by (rule own_shrink [OF I(3)]) (simp add: regions_held_def st split: place.split)
    show "reclaim_ok (catalog_spots (catalog_map (en_hash env) (gs_catalog (ss_store ?s)))) ph" if "ph \<in> set (ss_reclaimers ?s)" for ph
      using reclaim_ok_mono [OF I(6) spots] that st by simp
    show "seq_inv (en_hash env) (dv_regions (en_dev env)) (gs_catalog (ss_store ?s)) (gs_sequence (ss_store ?s)) (image_mset fe_sequence (sys_entries ?s))"
      unfolding ent using seq_fresh [OF I(8) g c(2) _ c(3)] by (simp add: st e item_def item_new_def)
    show "disk_inv (en_kc env) (en_vc env) (en_ops env) (en_dev env) (fdata (gs_device (ss_store ?s))) (ss_inserted ?s) (sys_spots (en_hash env) ?s) (sys_writes ?s)"
      using disk_mono [OF I(10), of "sys_spots (en_hash env) ?s" "sys_writes ?s" "ss_inserted ?s"] spots
      by (auto simp: sys_spots_def sys_writes_def st)
    show "entry_ok (en_kc env) (en_vc env) (ss_inserted ?s) x" if "x \<in># sys_entries ?s" for x
      using that I(7) [of x] e sm by (auto simp: ent entry_ok_def)
    show "length (gs_channels (ss_store ?s)) = length (ss_flushers ?s)" using I(12) i(3) by (simp add: st)
  qed (use I(2,4,5,11) st c infl in simp_all)
qed

lemma client_inv:
  assumes inv: "sys_inv env fdata ok members s" and op: "client_op env s s'"
  shows "sys_inv env fdata ok members s'"
  using op
proof cases
  case (op_finish now w val b st key)
  from writer_finish_effect [OF op_finish(2,3,4)] show ?thesis
  proof (elim disjE conjE exE)
    fix ps assume "\<not> b" "st = (ss_store s)\<lparr>gs_admissions := ps\<rparr>"
    then show ?thesis using admissions_frame [OF inv, of ps] op_finish(1) by simp
  next
    fix ps c rf chs assume "b" "st = (ss_store s)\<lparr>gs_sequence := gs_sequence (ss_store s) + 1, gs_admissions := ps, gs_catalog := c, gs_refs := rf, gs_channels := chs\<rparr>"
      "catalog_insert (en_hash env) now key (item_new (gs_sequence (ss_store s)) (Inflight key val)) (gs_catalog (ss_store s)) (gs_refs (ss_store s)) = Some (c, rf)"
      "send_entry \<lparr>fe_key = key, fe_value = val, fe_sequence = gs_sequence (ss_store s), fe_compression = w_compression w\<rparr> (gs_channels (ss_store s)) = Some chs"
    then show ?thesis using insert_inv [OF inv, where st = st and ps = ps and c = c and rf = rf and chs = chs and now = now and key = key and val = val] op_finish(1,5,6) by simp
  qed
next
  case (op_judge w b w' st)
  then obtain ps where "st = (ss_store s)\<lparr>gs_admissions := ps\<rparr>" using writer_judge_effect [OF op_judge(2)] by blast
  then show ?thesis using admissions_frame [OF inv] op_judge(1) by simp
next
  case (op_drop w st)
  then obtain ps where "st = (ss_store s)\<lparr>gs_admissions := ps\<rparr>" using writer_drop_effect [OF op_drop(2)] by blast
  then show ?thesis using admissions_frame [OF inv] op_drop(1) by simp
qed (use exists_inv [OF inv] remove_inv [OF inv] clear_inv [OF inv] lookup_inv [OF inv] lookup_load_inv [OF inv] load_inv [OF inv] in
    \<open>simp_all add: store_remove_def\<close>)

end

section \<open>Flushers\<close>

lemma task_writes_held: "(r, off) \<in> task_writes t \<Longrightarrow> r \<in> task_held t"
  by (cases "snd t") (auto simp: task_writes_def task_held_def phase_held_def split: option.splits if_splits)

lemma reclaim_writes_held: "(r, off) \<in> reclaim_writes ph \<Longrightarrow> r \<in> reclaim_held ph"
  by (cases ph) (auto simp: reclaim_writes_def reclaim_held_def)

lemma task_writes_sys: "i < length (ss_flushers s) \<Longrightarrow> task_writes (ss_flushers s ! i) \<subseteq> sys_writes s"
  using nth_mem [of i "ss_flushers s"] by (auto simp: sys_writes_def)

text \<open>Only the owner of a region writes it.\<close>

lemma writes_owner:
  assumes own: "own_inv n (regions_held members s)" and w: "(r, off) \<in> sys_writes s" and i: "i < length (ss_flushers s)" "r \<in> task_held (ss_flushers s ! i)"
  shows "(r, off) \<in> task_writes (ss_flushers s ! i)"
proof -
  have h: "r \<in> regions_held members s (Flushing i)" using i by (simp add: regions_held_def)
  note one = own_one [OF own h]
  from w consider "r \<in> set (aq_queue (rm_clean_regions (gs_rm (ss_store s))))" | t where "t \<in> set (ss_flushers s)" "(r, off) \<in> task_writes t"
    | ph where "ph \<in> set (ss_reclaimers s)" "(r, off) \<in> reclaim_writes ph"
    unfolding sys_writes_def by blast
  then show ?thesis
  proof cases
    case 1
    then show ?thesis using one [of Clean] by (simp add: regions_held_def)
  next
    case 2
    then obtain j where j: "j < length (ss_flushers s)" "ss_flushers s ! j = t" by (auto simp: in_set_conv_nth)
    then have "j = i" using one [of "Flushing j"] task_writes_held [OF 2(2)] by (simp add: regions_held_def)
    then show ?thesis using j 2 by simp
  next
    case 3
    then obtain j where "j < length (ss_reclaimers s)" "ss_reclaimers s ! j = ph" by (auto simp: in_set_conv_nth)
    then show ?thesis using one [of "Reclaiming j"] reclaim_writes_held [OF 3(2)] by (simp add: regions_held_def)
  qed
qed

lemma task_frame:
  assumes inv: "sys_inv env fdata ok members s" and i: "i < length (ss_flushers s)" "ss_flushers s ! i = t" "snd t \<noteq> FStopped"
    and same: "ss_flushers s' = (ss_flushers s)[i := t']" "ss_readers s' = ss_readers s" "ss_reclaimers s' = ss_reclaimers s"
      "ss_inserted s' = ss_inserted s" "gs_catalog (ss_store s') = gs_catalog (ss_store s)" "gs_refs (ss_store s') = gs_refs (ss_store s)"
      "gs_sequence (ss_store s') = gs_sequence (ss_store s)" "length (gs_channels (ss_store s')) = length (gs_channels (ss_store s))"
    and rm: "rm_ok ok members (dv_regions (en_dev env)) (gs_rm (ss_store s'))" "distinct (aq_queue (rm_clean_regions (gs_rm (ss_store s'))))"
      "set (aq_queue (rm_clean_regions (gs_rm (ss_store s')))) \<subseteq> set (aq_queue (rm_clean_regions (gs_rm (ss_store s))))"
    and own: "own_inv (dv_regions (en_dev env)) (regions_held members s')" and ent: "sys_entries s' \<subseteq># sys_entries s"
    and t': "task_ok (en_kc env) (en_vc env) (en_ops env) (en_dev env) t'"
    and wr: "\<And>r off. (r, off) \<in> task_writes t' \<Longrightarrow> \<exists>off0. off0 \<le> off \<and> (r, off0) \<in> sys_writes s"
    and disk: "written_behind (fdata (gs_device (ss_store s))) (fdata (gs_device (ss_store s'))) (fb_region (fl_buffer (fst t))) (fb_offset (fl_buffer (fst t)))"
    and sp: "\<And>k v. (k, v) \<in> task_spots t' \<Longrightarrow> (k, v) \<in> task_spots t \<or>
      good_view (en_kc env) (en_vc env) (en_ops env) (en_dev env) (fdata (gs_device (ss_store s'))) (ss_inserted s) k v \<and> rv_id v \<in> task_held t' \<and>
      (\<forall>off. (rv_id v, off) \<in> task_writes t' \<longrightarrow> view_end v \<le> off)"
  shows "sys_inv env fdata ok members s'"
proof -
  note I = sys_invD [OF inv]
  have fl: "set (ss_flushers s') \<subseteq> insert t' (set (ss_flushers s))" unfolding same by (rule set_update_subset_insert)
  have ti: "t \<in> set (ss_flushers s)" using i by auto
  have nth: "ss_flushers s' ! i = t'" "i < length (ss_flushers s')" using i same(1) by simp_all
  have W: "\<exists>off0. off0 \<le> off \<and> (r, off0) \<in> sys_writes s" if "(r, off) \<in> sys_writes s'" for r off
  proof -
    from that consider "r \<in> set (aq_queue (rm_clean_regions (gs_rm (ss_store s))))" "off = 0" | "(r, off) \<in> task_writes t'"
      | x where "x \<in> set (ss_flushers s)" "(r, off) \<in> task_writes x" | ph where "ph \<in> set (ss_reclaimers s)" "(r, off) \<in> reclaim_writes ph"
      using fl rm(3) unfolding sys_writes_def same(3) by auto
    then show ?thesis
    proof cases
      case 2
      then show ?thesis by (rule wr)
    qed (auto simp: sys_writes_def)
  qed
  have "disk_inv (en_kc env) (en_vc env) (en_ops env) (en_dev env) (fdata (gs_device (ss_store s'))) (ss_inserted s') (sys_spots (en_hash env) s') (sys_writes s')"
  proof (rule disk_invI)
    fix k v assume "(k, v) \<in> sys_spots (en_hash env) s'"
    then consider "(k, v) \<in> sys_spots (en_hash env) s" | "good_view (en_kc env) (en_vc env) (en_ops env) (en_dev env) (fdata (gs_device (ss_store s'))) (ss_inserted s) k v"
        "rv_id v \<in> task_held t'" "\<forall>off. (rv_id v, off) \<in> task_writes t' \<longrightarrow> view_end v \<le> off"
    proof -
      from \<open>(k, v) \<in> sys_spots (en_hash env) s'\<close> have "(k, v) \<in> sys_spots (en_hash env) s \<or> (k, v) \<in> task_spots t'"
        using fl unfolding sys_spots_def same by auto
      moreover have "(k, v) \<in> sys_spots (en_hash env) s" if "(k, v) \<in> task_spots t" using that ti by (auto simp: sys_spots_def)
      ultimately show thesis using sp [of k v] that by blast
    qed
    then show "good_view (en_kc env) (en_vc env) (en_ops env) (en_dev env) (fdata (gs_device (ss_store s'))) (ss_inserted s') k v \<and>
        (\<forall>off. (rv_id v, off) \<in> sys_writes s' \<longrightarrow> view_end v \<le> off)"
    proof cases
      case 1
      note D = disk_invD [OF I(10) 1]
      have "view_end v \<le> fb_offset (fl_buffer (fst t))" if "fb_region (fl_buffer (fst t)) = Some (rv_id v)"
      proof (rule D(2))
        have "(rv_id v, fb_offset (fl_buffer (fst t))) \<in> task_writes t" using that i(3) by (simp add: task_writes_def)
        then show "(rv_id v, fb_offset (fl_buffer (fst t))) \<in> sys_writes s" using ti by (auto simp: sys_writes_def)
      qed
      then have "good_view (en_kc env) (en_vc env) (en_ops env) (en_dev env) (fdata (gs_device (ss_store s'))) (ss_inserted s') k v"
        using good_view_written [OF D(1) disk] same(4) by simp
      moreover have "view_end v \<le> off" if "(rv_id v, off) \<in> sys_writes s'" for off
        using W [OF that] D(2) by (auto intro: order_trans)
      ultimately show ?thesis by blast
    next
      case 2
      then show ?thesis using writes_owner [OF own _ nth(2)] nth(1) same(4) by auto
    qed
  qed
  then show ?thesis
  proof (intro sys_invI)
    show "seq_inv (en_hash env) (dv_regions (en_dev env)) (gs_catalog (ss_store s')) (gs_sequence (ss_store s')) (image_mset fe_sequence (sys_entries s'))"
      using seq_shrink [OF I(8) image_mset_subseteq_mono [OF ent] map_le_refl] same by simp
    show "task_ok (en_kc env) (en_vc env) (en_ops env) (en_dev env) x" if "x \<in> set (ss_flushers s')" for x
      using that fl t' I(5) by blast
    show "entry_ok (en_kc env) (en_vc env) (ss_inserted s') e" if "e \<in># sys_entries s'" for e
      using I(7) mset_subset_eqD [OF ent that] same(4) by simp
    have "views_out s' = views_out s" by (rule ext) (simp add: views_out_def same)
    then show "counted (catalog_map (en_hash env) (gs_catalog (ss_store s'))) (views_out s') (gs_refs (ss_store s'))" using I(11) same by simp
    show "reclaim_ok (catalog_spots (catalog_map (en_hash env) (gs_catalog (ss_store s')))) ph" if "ph \<in> set (ss_reclaimers s')" for ph
      using that I(6) same by simp
  qed (use I(1,9,12) same rm own in simp_all)
qed

lemma entries_update:
  assumes "i < length (ss_flushers s)" "length (gs_channels (ss_store s)) = length (ss_flushers s)"
    and "ss_flushers s' = (ss_flushers s)[i := t']" "gs_channels (ss_store s') = (gs_channels (ss_store s))[i := q']"
  shows "sys_entries s' + (mset (channel_entries (gs_channels (ss_store s) ! i)) + mset (task_entries (ss_flushers s ! i))) =
    sys_entries s + (mset (channel_entries q') + mset (task_entries t'))"
  using concat_update [OF assms(1), of task_entries t'] concat_update [of i "gs_channels (ss_store s)" channel_entries q'] assms
  unfolding sys_entries_def by (simp add: union_ac)

lemma entries_subset:
  assumes "i < length (ss_flushers s)" "length (gs_channels (ss_store s)) = length (ss_flushers s)"
    and "ss_flushers s' = (ss_flushers s)[i := t']" "gs_channels (ss_store s') = (gs_channels (ss_store s))[i := q']"
    and "mset (channel_entries q') + mset (task_entries t') \<subseteq># mset (channel_entries (gs_channels (ss_store s) ! i)) + mset (task_entries (ss_flushers s ! i))"
  shows "sys_entries s' \<subseteq># sys_entries s"
proof -
  note e = entries_update [OF assms(1-4)]
  have "sys_entries s' + (mset (channel_entries q') + mset (task_entries t')) \<subseteq># sys_entries s + (mset (channel_entries q') + mset (task_entries t'))"
    unfolding e [symmetric] using assms(5) by (rule subset_mset.add_left_mono)
  then show ?thesis by simp
qed

lemma entries_member:
  assumes "i < length (ss_flushers s)" "e \<in> set (task_entries (ss_flushers s ! i)) \<or> i < length (gs_channels (ss_store s)) \<and> e \<in> set (channel_entries (gs_channels (ss_store s) ! i))"
  shows "e \<in># sys_entries s"
  using assms nth_mem [of i "ss_flushers s"] nth_mem [of i "gs_channels (ss_store s)"] unfolding sys_entries_def by auto

lemma held_flusher:
  assumes "i < length (ss_flushers s)" "ss_flushers s' = (ss_flushers s)[i := t']" "ss_reclaimers s' = ss_reclaimers s"
    "gs_rm (ss_store s') = gs_rm (ss_store s)" "task_held t' \<subseteq> task_held (ss_flushers s ! i)"
  shows "regions_held members s' p \<subseteq> regions_held members s p"
  using assms by (cases p) (auto simp: regions_held_def nth_list_update split: if_splits)

context store_system
begin

lemma view_of_good:
  assumes fl: "flushed (en_kc env) (en_vc env) (en_ops env) (dv_align (en_dev env)) disk pe" and pl: "placed (en_dev env) pe"
    and ins: "(fe_key (pe_entry pe), fe_value (pe_entry pe)) \<in> ins"
  shows "good_view (en_kc env) (en_vc env) (en_ops env) (en_dev env) disk ins (fe_key (pe_entry pe)) (view_of pe)"
    "view_end (view_of pe) = pe_offset pe + pe_len pe" "rv_id (view_of pe) = pe_region pe"
proof -
  have lt: "pe_offset pe + pe_len pe < 2 ^ 32" using pl u32 region_size(1) by (simp add: placed_def)
  then have u: "unat (word_of_nat (pe_offset pe) :: 32 word) = pe_offset pe" "unat (word_of_nat (pe_len pe) :: 32 word) = pe_len pe"
    by (simp_all add: unat_of_nat)
  show "view_end (view_of pe) = pe_offset pe + pe_len pe" "rv_id (view_of pe) = pe_region pe" by (simp_all add: view_end_def view_of_def u)
  then show "good_view (en_kc env) (en_vc env) (en_ops env) (en_dev env) disk ins (fe_key (pe_entry pe)) (view_of pe)"
    using fl pl ins by (auto simp: good_view_def flushed_def placed_def view_of_def u)
qed

lemma task_inv: "sys_inv env fdata ok members s \<Longrightarrow> i < length (ss_flushers s) \<Longrightarrow> ss_flushers s ! i = (f, ph) \<Longrightarrow> ph \<noteq> FStopped \<Longrightarrow>
    fb_inv (en_kc env) (en_vc env) (en_ops env) (en_dev env) (fl_buffer f) \<and> (\<forall>r. fb_region (fl_buffer f) = Some r \<longrightarrow> r < dv_regions (en_dev env))"
  using sys_invD(5) [of env fdata ok members s "(f, ph)"] nth_mem [of i "ss_flushers s"]
  by (auto simp: task_ok_def fb_inv_def split: option.splits)

lemma write_step:
  assumes inv: "sys_inv env fdata ok members s" and i: "i < length (ss_flushers s)" "ss_flushers s ! i = (f, ph)" "ph = FIdle \<or> ph = FRetry e"
    and e: "entry_ok (en_kc env) (en_vc env) (ss_inserted s) e"
    and w: "fb_write (en_ops env) (en_kc env) (en_vc env) (en_dev env) e (fl_buffer f) (gs_device (ss_store s)) = Some (res, b, d)"
    and ph': "ph' = (case res of Inr es \<Rightarrow> FPublish es None | Inl (NeedRotate e') \<Rightarrow> FAcquire (fb_region (fl_buffer f)) e' | Inl _ \<Rightarrow> FStopped)"
    and s': "s' = s\<lparr>ss_store := (ss_store s)\<lparr>gs_device := d, gs_channels := (gs_channels (ss_store s))[i := q]\<rparr>,
      ss_flushers := (ss_flushers s)[i := (f\<lparr>fl_buffer := b\<rparr>, ph')]\<rparr>"
    and q: "mset (channel_entries q) + {#e#} \<subseteq># mset (channel_entries (gs_channels (ss_store s) ! i)) + mset (phase_entries ph)"
  shows "sys_inv env fdata ok members s'"
proof -
  note I = sys_invD [OF inv]
  have ns: "ph \<noteq> FStopped" using i(3) by auto
  note B = task_inv [OF inv i(1,2) ns]
  have sm: "cd_serialized_len (en_kc env) (fe_key e) < 2 ^ 60" "cd_serialized_len (en_vc env) (fe_value e) < 2 ^ 60"
    using e by (simp_all add: entry_ok_def small_entry_def)
  have A: "\<forall>x. res \<noteq> Inl (BufferOther x)" "\<forall>e'. res = Inl (NeedRotate e') \<longrightarrow> e' = e \<and> b = fl_buffer f \<and> d = gs_device (ss_store s)"
    "\<forall>es. res = Inr es \<longrightarrow> fb_appends (en_kc env) (en_vc env) (en_ops env) (en_dev env) (fdata (gs_device (ss_store s))) (fdata d) (fl_buffer f) b es \<and>
       (\<exists>pe. pe_entry pe = e \<and> es @ fb_entries b = fb_entries (fl_buffer f) @ [pe])"
    using write_appends [OF conjunct1 [OF B] sm, of "gs_device (ss_store s)"] w by auto
  have res: "(\<exists>x. res = Inl (BufferDevice x)) \<or> res = Inl (NeedRotate e) \<and> b = fl_buffer f \<and> d = gs_device (ss_store s) \<or>
    (\<exists>es pe. res = Inr es \<and> fb_appends (en_kc env) (en_vc env) (en_ops env) (en_dev env) (fdata (gs_device (ss_store s))) (fdata d) (fl_buffer f) b es \<and>
       pe_entry pe = e \<and> es @ fb_entries b = fb_entries (fl_buffer f) @ [pe])"
  proof (cases res)
    case (Inl x)
    then show ?thesis using A(1,2) by (cases x) simp_all
  next
    case (Inr es)
    then show ?thesis using A(3) by simp
  qed
  note disk = write_behind [OF w conjunct2 [OF B]]
  have tw: "task_writes (f, ph) \<subseteq> sys_writes s" using task_writes_sys [OF i(1)] i(2) by simp
  have reg: "(r, fb_offset (fl_buffer f)) \<in> sys_writes s" if "fb_region (fl_buffer f) = Some r" for r
    using that tw ns by (auto simp: task_writes_def)
  have ent: "sys_entries s' \<subseteq># sys_entries s" if "mset (task_entries (f\<lparr>fl_buffer := b\<rparr>, ph')) \<subseteq># mset (map pe_entry (fb_entries (fl_buffer f))) + {#e#}"
  proof (rule entries_subset [OF i(1) I(12)])
    have "mset (channel_entries q) + mset (task_entries (f\<lparr>fl_buffer := b\<rparr>, ph')) \<subseteq># mset (channel_entries q) + (mset (map pe_entry (fb_entries (fl_buffer f))) + {#e#})"
      using that by simp
    also have "\<dots> \<subseteq># mset (map pe_entry (fb_entries (fl_buffer f))) + (mset (channel_entries (gs_channels (ss_store s) ! i)) + mset (phase_entries ph))"
      using q by (simp add: union_ac)
    finally show "mset (channel_entries q) + mset (task_entries (f\<lparr>fl_buffer := b\<rparr>, ph')) \<subseteq># mset (channel_entries (gs_channels (ss_store s) ! i)) + mset (task_entries (ss_flushers s ! i))"
      using ns by (simp add: i(2) task_entries_def union_ac)
  qed (simp_all add: s')
  show ?thesis
    using res
  proof (elim disjE exE conjE)
    fix x assume "res = Inl (BufferDevice x)"
    then have st: "ph' = FStopped" by (simp add: ph')
    show ?thesis
    proof (rule task_frame [OF inv i(1,2), where t' = "(f\<lparr>fl_buffer := b\<rparr>, ph')"])
      show "own_inv (dv_regions (en_dev env)) (regions_held members s')"
        by (rule own_shrink [OF I(3)], rule held_flusher [OF i(1), where t' = "(f\<lparr>fl_buffer := b\<rparr>, ph')"]) (simp_all add: s' st task_held_def)
    qed (use I ns disk ent in \<open>simp_all add: s' st task_entries_def task_ok_def task_writes_def task_spots_def\<close>)
  next
    assume r: "res = Inl (NeedRotate e)" "b = fl_buffer f" "d = gs_device (ss_store s)"
    have st: "ph' = FAcquire (fb_region (fl_buffer f)) e" by (simp add: ph' r)
    show ?thesis
    proof (rule task_frame [OF inv i(1,2), where t' = "(f\<lparr>fl_buffer := b\<rparr>, ph')"])
      show "own_inv (dv_regions (en_dev env)) (regions_held members s')"
        by (rule own_shrink [OF I(3)], rule held_flusher [OF i(1), where t' = "(f\<lparr>fl_buffer := b\<rparr>, ph')"]) (use ns in \<open>auto simp: s' st task_held_def phase_held_def i r\<close>)
    qed (use I ns disk ent B reg in \<open>auto simp: s' st r task_entries_def phase_entries_def task_ok_def task_writes_def task_spots_def split: option.splits\<close>)
  next
    fix es pe assume r: "res = Inr es" "fb_appends (en_kc env) (en_vc env) (en_ops env) (en_dev env) (fdata (gs_device (ss_store s))) (fdata d) (fl_buffer f) b es"
      "pe_entry pe = e" "es @ fb_entries b = fb_entries (fl_buffer f) @ [pe]"
    have st: "ph' = FPublish es None" by (simp add: ph' r)
    have ap: "fb_inv (en_kc env) (en_vc env) (en_ops env) (en_dev env) b" "fb_region b = fb_region (fl_buffer f) \<or> fb_region b = None"
      "fb_offset (fl_buffer f) \<le> fb_offset b"
      "\<And>x. x \<in> set es \<Longrightarrow> flushed (en_kc env) (en_vc env) (en_ops env) (dv_align (en_dev env)) (fdata d) x \<and> fb_region (fl_buffer f) = Some (pe_region x) \<and>
         pe_offset x + pe_len x \<le> fb_offset b \<and> placed (en_dev env) x"
      using r(2) unfolding fb_appends_def by simp_all
    have "mset (map pe_entry es) + mset (map pe_entry (fb_entries b)) = mset (map pe_entry (fb_entries (fl_buffer f))) + {#e#}"
      using arg_cong [OF r(4), of "\<lambda>xs. mset (map pe_entry xs)"] r(3) by simp
    then have ent1: "mset (task_entries (f\<lparr>fl_buffer := b\<rparr>, ph')) = mset (map pe_entry (fb_entries (fl_buffer f))) + {#e#}"
      by (simp add: task_entries_def st phase_entries_def union_ac)
    have ins: "(fe_key (pe_entry x), fe_value (pe_entry x)) \<in> ss_inserted s" if "x \<in> set es" for x
    proof -
      have "pe_entry x \<in> set (map pe_entry (fb_entries (fl_buffer f) @ [pe]))" using that unfolding r(4) [symmetric] by simp
      then show ?thesis using entries_member [OF i(1), of "pe_entry x"] I(7) [of "pe_entry x"] e ns r(3) by (auto simp: i(2) task_entries_def entry_ok_def)
    qed
    show ?thesis
    proof (rule task_frame [OF inv i(1,2), where t' = "(f\<lparr>fl_buffer := b\<rparr>, ph')"])
      show "own_inv (dv_regions (en_dev env)) (regions_held members s')"
        by (rule own_shrink [OF I(3)], rule held_flusher [OF i(1), where t' = "(f\<lparr>fl_buffer := b\<rparr>, ph')"]) (use ns ap in \<open>auto simp: s' st task_held_def phase_held_def i\<close>)
      show "sys_entries s' \<subseteq># sys_entries s" by (rule ent) (simp add: ent1)
      show "\<exists>off0. off0 \<le> off \<and> (r, off0) \<in> sys_writes s" if "(r, off) \<in> task_writes (f\<lparr>fl_buffer := b\<rparr>, ph')" for r off
        using that ap(2,3) reg by (auto simp: task_writes_def st split: option.splits)
    next
      fix k v assume "(k, v) \<in> task_spots (f\<lparr>fl_buffer := b\<rparr>, ph')"
      then obtain x where x: "x \<in> set es" "k = fe_key (pe_entry x)" "v = view_of x" by (auto simp: task_spots_def st)
      have "good_view (en_kc env) (en_vc env) (en_ops env) (en_dev env) (fdata d) (ss_inserted s) k v" "view_end v = pe_offset x + pe_len x" "rv_id v = pe_region x"
        using view_of_good [OF _ _ ins [OF x(1)], of "fdata d"] ap(4) [OF x(1)] x by auto
      then show "(k, v) \<in> task_spots (f, ph) \<or>
          good_view (en_kc env) (en_vc env) (en_ops env) (en_dev env) (fdata (gs_device (ss_store s'))) (ss_inserted s) k v \<and>
          rv_id v \<in> task_held (f\<lparr>fl_buffer := b\<rparr>, ph') \<and> (\<forall>off. (rv_id v, off) \<in> task_writes (f\<lparr>fl_buffer := b\<rparr>, ph') \<longrightarrow> view_end v \<le> off)"
        using x(1) ap(2) ap(4) [OF x(1)] by (auto simp: s' st task_held_def phase_held_def task_writes_def split: option.splits)
    qed (use I ns disk ap(1) in \<open>simp_all add: s' st task_ok_def\<close>)
  qed
qed

lemma take_inv:
  assumes inv: "sys_inv env fdata ok members s" and i: "i < length (ss_flushers s)" "ss_flushers s ! i = (f, FIdle)" "gs_channels (ss_store s) ! i = Some (e # q)"
    and w: "flusher_write (en_ops env) (en_kc env) (en_vc env) (en_dev env) e f (gs_device (ss_store s)) = Some (out, f', d)"
  shows "sys_inv env fdata ok members (set_flusher i (f', flush_turn out (fb_region (fl_buffer f)))
    (s\<lparr>ss_store := (ss_store s)\<lparr>gs_device := d, gs_channels := (gs_channels (ss_store s))[i := Some q]\<rparr>\<rparr>))"
proof -
  note I = sys_invD [OF inv]
  obtain res b where r: "fb_write (en_ops env) (en_kc env) (en_vc env) (en_dev env) e (fl_buffer f) (gs_device (ss_store s)) = Some (res, b, d)"
    "f' = f\<lparr>fl_buffer := b\<rparr>"
    "out = (case res of Inr entries \<Rightarrow> Flushed entries | Inl (NeedRotate entry') \<Rightarrow> NeedRegion entry' | Inl (BufferDevice e) \<Rightarrow> FlushFailed e | Inl (BufferOther e) \<Rightarrow> FlushFailed e)"
    using w by (auto simp: flusher_write_def split: bind_splits)
  have "e \<in># sys_entries s" using entries_member [OF i(1), of e] i(1,3) I(12) by (simp add: channel_entries_def)
  then have e: "entry_ok (en_kc env) (en_vc env) (ss_inserted s) e" by (rule I(7))
  have ph: "flush_turn out (fb_region (fl_buffer f)) = (case res of Inr es \<Rightarrow> FPublish es None | Inl (NeedRotate e') \<Rightarrow> FAcquire (fb_region (fl_buffer f)) e' | Inl _ \<Rightarrow> FStopped)"
    unfolding r(3) flush_turn_def by (simp split: sum.split BufferError.split)
  show ?thesis
    by (rule write_step [OF inv i(1,2) _ e r(1) ph, where q = "if flush_turn out (fb_region (fl_buffer f)) = FStopped then None else Some q"])
      (simp_all add: set_flusher_def r(2) i(3) channel_entries_def phase_entries_def)
qed

lemma retry_inv:
  assumes inv: "sys_inv env fdata ok members s" and i: "i < length (ss_flushers s)" "ss_flushers s ! i = (f, FRetry e)"
    and w: "flusher_retry (en_ops env) (en_kc env) (en_vc env) (en_dev env) e f (gs_device (ss_store s)) = Some (res, f', d)"
  shows "sys_inv env fdata ok members (set_flusher i (f', case res of Inl _ \<Rightarrow> FStopped | Inr es \<Rightarrow> FPublish es None)
    (s\<lparr>ss_store := (ss_store s)\<lparr>gs_device := d\<rparr>\<rparr>))"
proof -
  note I = sys_invD [OF inv]
  let ?ph = "case res of Inl _ \<Rightarrow> FStopped | Inr es \<Rightarrow> FPublish es None"
  obtain res0 b where r: "fb_write (en_ops env) (en_kc env) (en_vc env) (en_dev env) e (fl_buffer f) (gs_device (ss_store s)) = Some (res0, b, d)"
    "f' = f\<lparr>fl_buffer := b\<rparr>"
    "?ph = (case res0 of Inr es \<Rightarrow> FPublish es None | Inl (NeedRotate e') \<Rightarrow> FAcquire (fb_region (fl_buffer f)) e' | Inl _ \<Rightarrow> FStopped)"
    using w by (auto simp: flusher_retry_def flusher_write_def split: bind_splits sum.splits BufferError.splits flush_outcome.splits)
  have "e \<in># sys_entries s" by (rule entries_member [OF i(1)]) (simp add: i(2) task_entries_def phase_entries_def)
  then have e: "entry_ok (en_kc env) (en_vc env) (ss_inserted s) e" by (rule I(7))
  show ?thesis
    by (rule write_step [OF inv i(1,2) _ e r(1,3), where q = "if ?ph = FStopped then None else gs_channels (ss_store s) ! i"])
      (simp_all add: set_flusher_def r(2) channel_entries_def phase_entries_def)
qed

lemma rotate_inv:
  assumes inv: "sys_inv env fdata ok members s" and i: "i < length (ss_flushers s)" "ss_flushers s ! i = (f, FRotate old r e)"
    and w: "fb_rotate (en_ops env) (en_dev env) (fl_buffer f) (gs_device (ss_store s)) r = Some (res, b, d)"
  shows "sys_inv env fdata ok members (set_flusher i (f\<lparr>fl_buffer := b\<rparr>, case res of Inl _ \<Rightarrow> FStopped | Inr es \<Rightarrow> FPublish es (Some (old, e)))
    (s\<lparr>ss_store := (ss_store s)\<lparr>gs_device := d\<rparr>\<rparr>))" (is "sys_inv _ _ _ _ ?s")
proof -
  note I = sys_invD [OF inv]
  have t: "task_ok (en_kc env) (en_vc env) (en_ops env) (en_dev env) (f, FRotate old r e)" using I(5) nth_mem [OF i(1)] i(2) by simp
  then have old: "old = fb_region (fl_buffer f)" "old \<noteq> Some r" and B: "fb_inv (en_kc env) (en_vc env) (en_ops env) (en_dev env) (fl_buffer f)" by (auto simp: task_ok_def)
  have lt: "\<forall>r. fb_region (fl_buffer f) = Some r \<longrightarrow> r < dv_regions (en_dev env)" using task_inv [OF inv i] by simp
  have "r \<in> regions_held members s (Flushing i)" using i by (simp add: regions_held_def task_held_def phase_held_def)
  then have rn: "r < dv_regions (en_dev env)" using I(3) unfolding own_inv_def by blast
  note disk = rotate_behind [OF w lt]
  have w0: "(r, 0) \<in> sys_writes s" using task_writes_sys [OF i(1)] i(2) by (auto simp: task_writes_def)
  show ?thesis
  proof (cases res)
    case (Inl x)
    show ?thesis
    proof (rule task_frame [OF inv i, where t' = "(f\<lparr>fl_buffer := b\<rparr>, FStopped)"])
      show "own_inv (dv_regions (en_dev env)) (regions_held members ?s)"
        by (rule own_shrink [OF I(3)], rule held_flusher [OF i(1), where t' = "(f\<lparr>fl_buffer := b\<rparr>, FStopped)"]) (simp_all add: Inl set_flusher_def task_held_def)
      show "sys_entries ?s \<subseteq># sys_entries s"
        by (rule entries_subset [OF i(1) I(12), where t' = "(f\<lparr>fl_buffer := b\<rparr>, FStopped)" and q' = None])
          (simp_all add: Inl set_flusher_def channel_entries_def task_entries_def)
    qed (use I disk in \<open>simp_all add: Inl set_flusher_def task_ok_def task_writes_def task_spots_def\<close>)
  next
    case (Inr es)
    let ?t = "(f\<lparr>fl_buffer := b\<rparr>, FPublish es (Some (old, e)))"
    have b: "es = fb_entries (fl_buffer f)" "fb_inv (en_kc env) (en_vc env) (en_ops env) (en_dev env) b" "fb_region b = Some r" "fb_offset b = 0" "fb_entries b = []"
      "\<And>pe. pe \<in> set es \<Longrightarrow> flushed (en_kc env) (en_vc env) (en_ops env) (dv_align (en_dev env)) (fdata d) pe"
      using rotate_ok [OF B rn, of "gs_device (ss_store s)"] w Inr by auto
    have pe: "old = Some (pe_region x)" "placed (en_dev env) x" if "x \<in> set es" for x
      using B that b(1) old(1) by (auto simp: fb_inv_def placed_def split: option.splits)
    have ins: "(fe_key (pe_entry x), fe_value (pe_entry x)) \<in> ss_inserted s" if "x \<in> set es" for x
      using entries_member [OF i(1), of "pe_entry x"] I(7) [of "pe_entry x"] that b(1) by (auto simp: i(2) task_entries_def entry_ok_def)
    show ?thesis
    proof (rule task_frame [OF inv i, where t' = ?t])
      show "own_inv (dv_regions (en_dev env)) (regions_held members ?s)"
        by (rule own_shrink [OF I(3)], rule held_flusher [OF i(1), where t' = ?t])
          (use b pe in \<open>auto simp: Inr set_flusher_def task_held_def phase_held_def i(2)\<close>)
      show "sys_entries ?s \<subseteq># sys_entries s"
        by (rule entries_subset [OF i(1) I(12), where t' = ?t and q' = "gs_channels (ss_store s) ! i"])
          (simp_all add: Inr set_flusher_def task_entries_def phase_entries_def i(2) b(1,5))
      show "\<exists>off0. off0 \<le> off \<and> (r', off0) \<in> sys_writes s" if "(r', off) \<in> task_writes ?t" for r' off
        using that w0 b(3,4) by (auto simp: task_writes_def)
    next
      fix k v assume "(k, v) \<in> task_spots ?t"
      then obtain x where x: "x \<in> set es" "k = fe_key (pe_entry x)" "v = view_of x" by (auto simp: task_spots_def)
      have "good_view (en_kc env) (en_vc env) (en_ops env) (en_dev env) (fdata d) (ss_inserted s) k v" "rv_id v = pe_region x"
        using view_of_good [OF b(6) [OF x(1)] pe(2) [OF x(1)] ins [OF x(1)]] x by auto
      then show "(k, v) \<in> task_spots (f, FRotate old r e) \<or>
          good_view (en_kc env) (en_vc env) (en_ops env) (en_dev env) (fdata (gs_device (ss_store ?s))) (ss_inserted s) k v \<and>
          rv_id v \<in> task_held ?t \<and> (\<forall>off. (rv_id v, off) \<in> task_writes ?t \<longrightarrow> view_end v \<le> off)"
        using x(1) pe(1) [OF x(1)] old(2) b(3) by (auto simp: Inr set_flusher_def task_held_def phase_held_def task_writes_def)
    qed (use I disk b old in \<open>simp_all add: Inr set_flusher_def task_ok_def\<close>)
  qed
qed

lemma exit_inv:
  assumes inv: "sys_inv env fdata ok members s" and i: "i < length (ss_flushers s)" "ss_flushers s ! i = (f, FIdle)"
    and w: "flusher_exit (en_ops env) (en_dev env) f (gs_device (ss_store s)) = Some (res, d)"
  shows "sys_inv env fdata ok members (set_flusher i (f, FStopped) (s\<lparr>ss_store := (ss_store s)\<lparr>gs_device := d\<rparr>\<rparr>))" (is "sys_inv _ _ _ _ ?s")
proof -
  note I = sys_invD [OF inv]
  obtain res0 b where "fb_flush (en_ops env) (en_dev env) (fl_buffer f) (gs_device (ss_store s)) = Some (res0, b, d)"
    using w by (auto simp: flusher_exit_def split: bind_splits)
  then have disk: "written_behind (fdata (gs_device (ss_store s))) (fdata d) (fb_region (fl_buffer f)) (fb_offset (fl_buffer f))"
    using flush_behind task_inv [OF inv i] by blast
  show ?thesis
  proof (rule task_frame [OF inv i, where t' = "(f, FStopped)"])
    show "own_inv (dv_regions (en_dev env)) (regions_held members ?s)"
      by (rule own_shrink [OF I(3)], rule held_flusher [OF i(1), where t' = "(f, FStopped)"]) (simp_all add: set_flusher_def task_held_def)
    show "sys_entries ?s \<subseteq># sys_entries s"
      by (rule entries_subset [OF i(1) I(12), where t' = "(f, FStopped)" and q' = None]) (simp_all add: set_flusher_def channel_entries_def task_entries_def)
  qed (use I disk in \<open>simp_all add: set_flusher_def task_ok_def task_writes_def task_spots_def\<close>)
qed

lemma done_inv:
  assumes inv: "sys_inv env fdata ok members s" and i: "i < length (ss_flushers s)" "ss_flushers s ! i = (f, FPublish [] None)"
  shows "sys_inv env fdata ok members (set_flusher i (f, FIdle) s)" (is "sys_inv _ _ _ _ ?s")
proof -
  note I = sys_invD [OF inv]
  show ?thesis
  proof (rule task_frame [OF inv i, where t' = "(f, FIdle)"])
    show "own_inv (dv_regions (en_dev env)) (regions_held members ?s)"
      by (rule own_shrink [OF I(3)], rule held_flusher [OF i(1), where t' = "(f, FIdle)"]) (simp_all add: set_flusher_def task_held_def phase_held_def i(2))
    show "sys_entries ?s \<subseteq># sys_entries s"
      by (rule entries_subset [OF i(1) I(12), where t' = "(f, FIdle)" and q' = "gs_channels (ss_store s) ! i"])
        (simp_all add: set_flusher_def task_entries_def phase_entries_def i(2))
    show "\<exists>off0. off0 \<le> off \<and> (r, off0) \<in> sys_writes s" if "(r, off) \<in> task_writes (f, FIdle)" for r off
      using that task_writes_sys [OF i(1)] i(2) by (auto simp: task_writes_def split: option.splits)
  qed (use I task_inv [OF inv i] in \<open>simp_all add: set_flusher_def task_ok_def task_spots_def\<close>)
qed

end

end
