(* ===== verification/Store_Safe.thy ===== *)
theory Store_Safe
  imports Store_Steps
begin

text \<open>
  The steps that hand regions from one place to another, the publishing of flushed entries and the reclaimers; then the
  invariant holds in every reachable state, and the properties of the whole store follow from it.
\<close>

section \<open>Handing over regions\<close>

lemma try_acquire_Some:
  assumes "try_acquire q = (Some r, woken, q')"
  shows "aq_queue q = r # aq_queue q'"
  using assms by (auto simp: try_acquire_def notify_one_def Let_def split: list.splits if_splits prod.splits)

lemma release_queue: "aq_queue (snd (release q r)) = aq_queue q @ [r]"
  by (simp add: release_def notify_one_def split: list.splits)

context store_system
begin

lemma acquire_inv:
  assumes inv: "sys_inv env fdata ok members s" and i: "i < length (ss_flushers s)" "ss_flushers s ! i = (f, FAcquire old e)"
    and a: "try_acquire (rm_clean_regions (gs_rm (ss_store s))) = (Some r, woken, q)"
  shows "sys_inv env fdata ok members (set_flusher i (f, FRotate old r e)
    (s\<lparr>ss_store := (ss_store s)\<lparr>gs_rm := (gs_rm (ss_store s))\<lparr>rm_clean_regions := q\<rparr>\<rparr>\<rparr>))" (is "sys_inv _ _ _ _ ?s")
proof -
  note I = sys_invD [OF inv]
  let ?t = "(f, FRotate old r e)"
  note q = try_acquire_Some [OF a]
  have t: "task_ok (en_kc env) (en_vc env) (en_ops env) (en_dev env) (f, FAcquire old e)" using I(5) nth_mem [OF i(1)] i(2) by simp
  have clean: "r \<in> regions_held members s Clean" by (simp add: regions_held_def q)
  have "r \<notin> regions_held members s (Flushing i)" using own_one [OF I(3) clean, of "Flushing i"] by auto
  then have new: "fb_region (fl_buffer f) \<noteq> Some r" using i by (auto simp: regions_held_def task_held_def)
  show ?thesis
  proof (rule task_frame [OF inv i, where t' = ?t])
    show "own_inv (dv_regions (en_dev env)) (regions_held members ?s)"
    proof (rule own_move [OF I(3), where src = Clean and dst = "Flushing i" and X = "{r}"])
      fix p show "regions_held members ?s p \<subseteq> regions_held members s p \<union> (if p = Flushing i then {r} else {})"
        using i q by (cases p) (auto simp: regions_held_def set_flusher_def nth_list_update task_held_def phase_held_def split: if_splits)
      show "{r} \<subseteq> regions_held members s Clean" using clean by simp
      show "regions_held members ?s Clean \<inter> {r} = {}" using I(4) q by (simp add: regions_held_def set_flusher_def)
    qed
    show "sys_entries ?s \<subseteq># sys_entries s"
      by (rule entries_subset [OF i(1) I(12), where t' = ?t and q' = "gs_channels (ss_store s) ! i"])
        (simp_all add: set_flusher_def task_entries_def phase_entries_def i(2))
    show "\<exists>off0. off0 \<le> off \<and> (r', off0) \<in> sys_writes s" if "(r', off) \<in> task_writes ?t" for r' off
    proof -
      have "(r', off) \<in> task_writes (f, FAcquire old e) \<or> r' = r \<and> off = 0" using that by (auto simp: task_writes_def split: option.splits)
      moreover have "(r, 0) \<in> sys_writes s" using q by (simp add: sys_writes_def)
      ultimately show ?thesis using task_writes_sys [OF i(1)] i(2) by auto
    qed
  qed (use I(2,4,5,12) q t new in \<open>auto simp: set_flusher_def task_ok_def task_spots_def rm_ok_def\<close>)
qed

lemma push_inv:
  assumes inv: "sys_inv env fdata ok members s" and i: "i < length (ss_flushers s)" "ss_flushers s ! i = (f, FPublish [] (Some (old, e)))"
    and a: "flusher_push_old (en_ep env) (gs_rm (ss_store s)) old = Some rm"
  shows "sys_inv env fdata ok members (set_flusher i (f, FRetry e) (s\<lparr>ss_store := (ss_store s)\<lparr>gs_rm := rm\<rparr>\<rparr>))" (is "sys_inv _ _ _ _ ?s")
proof -
  note I = sys_invD [OF inv]
  let ?t = "(f, FRetry e)"
  have t: "task_ok (en_kc env) (en_vc env) (en_ops env) (en_dev env) (f, FPublish [] (Some (old, e)))" using I(5) nth_mem [OF i(1)] i(2) by simp
  have h: "x \<in> regions_held members s (Flushing i)" if "old = Some x" for x using i that by (simp add: regions_held_def task_held_def phase_held_def)
  have rm: "rm_ok ok members (dv_regions (en_dev env)) rm" "rm_clean_regions rm = rm_clean_regions (gs_rm (ss_store s))"
      "members (rm_eviction rm) = members (rm_eviction (gs_rm (ss_store s))) \<union> set_option old"
  proof -
    have "rm_ok ok members (dv_regions (en_dev env)) rm \<and> rm_clean_regions rm = rm_clean_regions (gs_rm (ss_store s)) \<and>
        members (rm_eviction rm) = members (rm_eviction (gs_rm (ss_store s))) \<union> set_option old"
    proof (cases old)
      case None
      then show ?thesis using a I(2) by (simp add: flusher_push_old_def)
    next
      case (Some x)
      have x: "x < dv_regions (en_dev env)" using h [OF Some] I(3) unfolding own_inv_def by blast
      have "x \<notin> members (rm_eviction (gs_rm (ss_store s)))" using own_one [OF I(3) h [OF Some], of Evictable] by (auto simp: regions_held_def)
      from eviction_push_ok [OF I(2) x this] show ?thesis using a Some by (auto simp: flusher_push_old_def)
    qed
    then show "rm_ok ok members (dv_regions (en_dev env)) rm" "rm_clean_regions rm = rm_clean_regions (gs_rm (ss_store s))"
      "members (rm_eviction rm) = members (rm_eviction (gs_rm (ss_store s))) \<union> set_option old" by simp_all
  qed
  show ?thesis
  proof (rule task_frame [OF inv i, where t' = ?t])
    show "own_inv (dv_regions (en_dev env)) (regions_held members ?s)"
    proof (rule own_move [OF I(3), where src = "Flushing i" and dst = Evictable and X = "set_option old"])
      fix p show "regions_held members ?s p \<subseteq> regions_held members s p \<union> (if p = Evictable then set_option old else {})"
        using i rm by (cases p) (auto simp: regions_held_def set_flusher_def nth_list_update task_held_def phase_held_def split: if_splits)
      show "set_option old \<subseteq> regions_held members s (Flushing i)" using h by auto
      show "regions_held members ?s (Flushing i) \<inter> set_option old = {}"
        using t i by (cases old) (auto simp: regions_held_def set_flusher_def task_held_def phase_held_def task_ok_def)
    qed
    show "sys_entries ?s \<subseteq># sys_entries s"
      by (rule entries_subset [OF i(1) I(12), where t' = ?t and q' = "gs_channels (ss_store s) ! i"])
        (simp_all add: set_flusher_def task_entries_def phase_entries_def i(2))
    show "\<exists>off0. off0 \<le> off \<and> (r', off0) \<in> sys_writes s" if "(r', off) \<in> task_writes ?t" for r' off
      using that task_writes_sys [OF i(1)] i(2) by (auto simp: task_writes_def split: option.splits)
  qed (use I(4,12) rm t in \<open>auto simp: set_flusher_def task_ok_def task_spots_def\<close>)
qed

section \<open>Publishing\<close>

lemma publish_inv:
  assumes inv: "sys_inv env fdata ok members s" and i: "i < length (ss_flushers s)" "ss_flushers s ! i = (f, FPublish (pe # es) nx)"
    and p: "publish_entry (en_hash env) now (gs_rm (ss_store s)) pe (gs_catalog (ss_store s)) (gs_refs (ss_store s)) = Some (c, rf)"
  shows "sys_inv env fdata ok members (set_flusher i (f, FPublish es nx) (s\<lparr>ss_store := (ss_store s)\<lparr>gs_catalog := c, gs_refs := rf\<rparr>\<rparr>))" (is "sys_inv _ _ _ _ ?s")
proof -
  note I = sys_invD [OF inv]
  let ?m = "catalog_map (en_hash env) (gs_catalog (ss_store s))" and ?k = "fe_key (pe_entry pe)" and ?x = "fe_sequence (pe_entry pe)"
  define item where "item = (item_new ?x (RegionIx (view_of pe)) :: ('k, 'v) Item)"
  have hp: "pe_region pe \<in> regions_held members s (Flushing i)" using i by (simp add: regions_held_def task_held_def phase_held_def)
  then have rn: "pe_region pe < dv_regions (en_dev env)" using I(3) unfolding own_inv_def by blast
  obtain rg where rg: "rm_region (gs_rm (ss_store s)) (pe_region pe) = Some rg" "rg_id rg = pe_region pe" using rm_region_ok [OF I(2) rn] by blast
  define rf1 where "rf1 = (gs_refs (ss_store s))(pe_region pe := fetch_add_1 (gs_refs (ss_store s) (pe_region pe)))"
  have ins: "catalog_insert (en_hash env) now ?k item (gs_catalog (ss_store s)) rf1 = Some (c, rf)"
    using p rg by (simp add: publish_entry_def region_view_def item_def rf1_def view_of_def)
  have iv: "item_views item r = (if r = pe_region pe then 1 else 0)" for r by (simp add: item_def item_new_def item_views_def view_of_def)
  have nv: "\<forall>v. it_index item = RegionIx v \<longrightarrow> rv_id v < dv_regions (en_dev env)" and sq: "it_sequence item = ?x"
    using rn by (simp_all add: item_def item_new_def view_of_def)
  have c: "catalog_inv (en_hash env) (dv_regions (en_dev env)) c" "catalog_map (en_hash env) c = ?m(?k \<mapsto> item\<lparr>it_inserted := Some now\<rparr>)"
    "\<forall>r < dv_regions (en_dev env). region_seq c r = (if r = pe_region pe then (region_seq (gs_catalog (ss_store s)) r)(?k \<mapsto> ?x) else region_seq (gs_catalog (ss_store s)) r)"
    "\<forall>out. counted ?m (\<lambda>r. out r + item_views item r) rf1 \<longrightarrow> counted (catalog_map (en_hash env) c) out rf"
    using catalog_insert_ok [where now = now and k = ?k and rf = rf1, OF I(1) nv] ins sq by (auto simp: iv)
  have cnt: "counted (catalog_map (en_hash env) c) (views_out s) rf"
  proof -
    have "counted ?m (\<lambda>r. views_out s r + item_views item r) rf1"
      using I(11) fetch_add_mod by (auto simp: counted_def rf1_def iv)
    then show ?thesis using c(4) by blast
  qed
  have sub: "mset (task_entries (ss_flushers s ! i)) = add_mset (pe_entry pe) (mset (task_entries (f, FPublish es nx)))"
    by (simp add: i(2) task_entries_def phase_entries_def)
  have ent: "sys_entries s = add_mset (pe_entry pe) (sys_entries ?s)"
    using entries_update [OF i(1) I(12), of ?s "(f, FPublish es nx)" "gs_channels (ss_store s) ! i"] sub by (simp add: set_flusher_def)
  have seq: "seq_inv (en_hash env) (dv_regions (en_dev env)) c (gs_sequence (ss_store s)) (image_mset fe_sequence (sys_entries ?s))"
    using seq_publish [OF I(8) [unfolded ent image_mset_add_mset] c(2) _ _ rn c(3)] sq iv by simp
  have ti: "(f, FPublish (pe # es) nx) \<in> set (ss_flushers s)" using nth_mem [OF i(1)] i(2) by simp
  have fl: "set (ss_flushers ?s) \<subseteq> insert (f, FPublish es nx) (set (ss_flushers s))" unfolding set_flusher_def by (simp add: set_update_subset_insert)
  have cs: "catalog_spots (catalog_map (en_hash env) c) \<subseteq> insert (?k, view_of pe) (catalog_spots ?m)"
    by (auto simp: catalog_spots_def c(2) item_def item_new_def split: if_splits)
  have "task_spots (f, FPublish es nx) \<subseteq> task_spots (f, FPublish (pe # es) nx)" "(?k, view_of pe) \<in> task_spots (f, FPublish (pe # es) nx)"
    by (auto simp: task_spots_def)
  then have sp: "sys_spots (en_hash env) ?s \<subseteq> sys_spots (en_hash env) s"
    using cs fl ti unfolding sys_spots_def by (auto simp: set_flusher_def)
  have wr: "sys_writes ?s \<subseteq> sys_writes s"
  proof -
    have "task_writes (f, FPublish es nx) = task_writes (f, FPublish (pe # es) nx)" by (simp add: task_writes_def split: option.split)
    then show ?thesis using fl ti unfolding sys_writes_def by (auto simp: set_flusher_def)
  qed
  show ?thesis
  proof (rule sys_invI)
    show "own_inv (dv_regions (en_dev env)) (regions_held members ?s)"
      by (rule own_shrink [OF I(3)], rule held_flusher [OF i(1), where t' = "(f, FPublish es nx)"])
        (auto simp: set_flusher_def task_held_def phase_held_def i(2))
    show "task_ok (en_kc env) (en_vc env) (en_ops env) (en_dev env) t" if "t \<in> set (ss_flushers ?s)" for t
    proof -
      have "task_ok (en_kc env) (en_vc env) (en_ops env) (en_dev env) (f, FPublish es nx)"
        using I(5) [OF ti] by (auto simp: task_ok_def split: option.splits)
      then show ?thesis using that fl I(5) by blast
    qed
    show "entry_ok (en_kc env) (en_vc env) (ss_inserted ?s) x" if "x \<in># sys_entries ?s" for x
      using I(7) [of x] that by (simp add: ent set_flusher_def)
    show "disk_inv (en_kc env) (en_vc env) (en_ops env) (en_dev env) (fdata (gs_device (ss_store ?s))) (ss_inserted ?s) (sys_spots (en_hash env) ?s) (sys_writes ?s)"
      using disk_mono [OF I(10) sp wr, of "ss_inserted s"] by (simp add: set_flusher_def)
    show "inflight_ok (catalog_map (en_hash env) (gs_catalog (ss_store ?s))) (ss_inserted ?s)"
      using I(9) unfolding inflight_ok_def by (auto simp: set_flusher_def c(2) item_def item_new_def)
    fix ph assume ph: "ph \<in> set (ss_reclaimers ?s)"
    show "reclaim_ok (catalog_spots (catalog_map (en_hash env) (gs_catalog (ss_store ?s)))) ph"
    proof (cases "\<exists>r its. ph = RWait r its")
      case False
      then show ?thesis by (cases ph) (simp_all add: reclaim_ok_def)
    next
      case True
      then obtain r its where r: "ph = RWait r its" by blast
      obtain j where j: "j < length (ss_reclaimers s)" "ss_reclaimers s ! j = ph" using ph by (auto simp: set_flusher_def in_set_conv_nth)
      then have "r \<in> regions_held members s (Reclaiming j)" by (simp add: regions_held_def reclaim_held_def r)
      then have ne: "pe_region pe \<noteq> r" using own_one [OF I(3) hp, of "Reclaiming j"] by auto
      have "reclaim_ok (catalog_spots ?m) ph" using I(6) ph by (simp add: set_flusher_def)
      then have "reclaim_ok (insert (?k, view_of pe) (catalog_spots ?m)) ph" using ne by (auto simp: reclaim_ok_def r view_of_def)
      then show ?thesis using reclaim_ok_mono cs by (simp add: set_flusher_def)
    qed
  qed (use I(2,4,12) c(1) cnt seq in \<open>simp_all add: set_flusher_def\<close>)
qed

lemma flusher_inv:
  assumes inv: "sys_inv env fdata ok members s" and op: "flusher_op env i s s'"
  shows "sys_inv env fdata ok members s'"
  using op by cases (use take_inv [OF inv] acquire_inv [OF inv] rotate_inv [OF inv] publish_inv [OF inv] done_inv [OF inv] push_inv [OF inv]
    retry_inv [OF inv] exit_inv [OF inv] in simp_all)

section \<open>Reclaimers\<close>

end

lemma held_reclaimer:
  assumes "j < length (ss_reclaimers s)" "ss_reclaimers s' = (ss_reclaimers s)[j := ph]" "ss_flushers s' = ss_flushers s"
    "rm_clean_regions (gs_rm (ss_store s')) = rm_clean_regions (gs_rm (ss_store s))"
    "members (rm_eviction (gs_rm (ss_store s'))) \<subseteq> members (rm_eviction (gs_rm (ss_store s)))" "reclaim_held ph \<subseteq> reclaim_held (ss_reclaimers s ! j)"
  shows "regions_held members s' p \<subseteq> regions_held members s p"
  using assms by (cases p) (auto simp: regions_held_def nth_list_update split: if_splits)

lemma reclaim_writes_sys: "j < length (ss_reclaimers s) \<Longrightarrow> reclaim_writes (ss_reclaimers s ! j) \<subseteq> sys_writes s"
  using nth_mem [of j "ss_reclaimers s"] by (auto simp: sys_writes_def)

lemma sum_list_update_nat:
  assumes "j < length xs"
  shows "(\<Sum>x \<leftarrow> concat (map f (xs[j := y])). g x) + (\<Sum>x \<leftarrow> f (xs ! j). g x) = (\<Sum>x \<leftarrow> concat (map f xs). g x) + (\<Sum>x \<leftarrow> f y. g x :: nat)"
  using assms
proof (induction xs arbitrary: j)
  case (Cons x xs)
  then show ?case by (cases j) simp_all
qed simp

lemma sum_list_ones: "\<forall>x \<in> set xs. f x = (1::nat) \<Longrightarrow> (\<Sum>x \<leftarrow> xs. f x) = length xs"
  by (induction xs) auto

text \<open>A step of a reclaimer that changes only its phase, the device in a region it holds, and hands on what it holds.\<close>

lemma reclaim_frame:
  assumes inv: "sys_inv env fdata ok members s" and j: "j < length (ss_reclaimers s)"
    and same: "ss_flushers s' = ss_flushers s" "ss_readers s' = ss_readers s" "ss_reclaimers s' = (ss_reclaimers s)[j := ph]" "ss_inserted s' = ss_inserted s"
      "gs_catalog (ss_store s') = gs_catalog (ss_store s)" "gs_sequence (ss_store s') = gs_sequence (ss_store s)" "gs_channels (ss_store s') = gs_channels (ss_store s)"
    and rm: "rm_ok ok members (dv_regions (en_dev env)) (gs_rm (ss_store s'))" "distinct (aq_queue (rm_clean_regions (gs_rm (ss_store s'))))"
    and own: "own_inv (dv_regions (en_dev env)) (regions_held members s')" and ph: "reclaim_ok (catalog_spots (catalog_map (en_hash env) (gs_catalog (ss_store s)))) ph"
    and disk: "disk_inv (en_kc env) (en_vc env) (en_ops env) (en_dev env) (fdata (gs_device (ss_store s'))) (ss_inserted s) (sys_spots (en_hash env) s) (sys_writes s')"
    and cnt: "counted (catalog_map (en_hash env) (gs_catalog (ss_store s))) (views_out s') (gs_refs (ss_store s'))"
  shows "sys_inv env fdata ok members s'"
proof -
  note I = sys_invD [OF inv]
  have ent: "sys_entries s' = sys_entries s" by (simp add: sys_entries_def same)
  have spots: "sys_spots (en_hash env) s' = sys_spots (en_hash env) s" by (simp add: sys_spots_def same)
  have "reclaim_ok (catalog_spots (catalog_map (en_hash env) (gs_catalog (ss_store s')))) x" if "x \<in> set (ss_reclaimers s')" for x
    using that set_update_subset_insert [of "ss_reclaimers s" j ph] I(6) [of x] ph unfolding same by auto
  then show ?thesis
    by (intro sys_invI) (use I(1,5,7,8,9,12) rm own disk cnt same ent spots in simp_all)
qed

context store_system
begin

lemma none_inv:
  assumes inv: "sys_inv env fdata ok members s" and t: "reclaim_take env threshold (ss_store s) = Some (turn, st)" "turn = EnoughClean \<or> turn = NoVictim"
  shows "sys_inv env fdata ok members (s\<lparr>ss_store := st\<rparr>)"
proof -
  note I = sys_invD [OF inv]
  have "st = ss_store s \<or> (\<exists>rm. eviction_pop (en_ep env) (gs_rm (ss_store s)) = Some (None, rm) \<and> st = (ss_store s)\<lparr>gs_rm := rm\<rparr>)"
    using t by (auto simp: reclaim_take_def split: if_splits bind_splits option.splits)
  moreover have "rm = gs_rm (ss_store s)" if "eviction_pop (en_ep env) (gs_rm (ss_store s)) = Some (None, rm)" for rm
    using eviction_pop_ok [OF I(2)] that by auto
  ultimately have "s\<lparr>ss_store := st\<rparr> = s" by auto
  then show ?thesis using inv by simp
qed

lemma victim_inv:
  assumes inv: "sys_inv env fdata ok members s" and j: "j < length (ss_reclaimers s)" "ss_reclaimers s ! j = RIdle"
    and t: "reclaim_take env threshold (ss_store s) = Some (Victim r items, st)"
  shows "sys_inv env fdata ok members (set_reclaimer j (RWait r items) (s\<lparr>ss_store := st\<rparr>))" (is "sys_inv _ _ _ _ ?s")
proof -
  note I = sys_invD [OF inv]
  let ?m = "catalog_map (en_hash env) (gs_catalog (ss_store s))" and ?n = "dv_regions (en_dev env)"
  obtain rm c where r: "eviction_pop (en_ep env) (gs_rm (ss_store s)) = Some (Some r, rm)" "catalog_take_region (en_hash env) r (gs_catalog (ss_store s)) = Some (items, c)"
    "st = (ss_store s)\<lparr>gs_rm := rm, gs_catalog := c\<rparr>"
    using t by (auto simp: reclaim_take_def split: if_splits bind_splits option.splits)
  have rm: "rm_ok ok members ?n rm" "rm_clean_regions rm = rm_clean_regions (gs_rm (ss_store s))" "r < ?n" "r \<in> members (rm_eviction (gs_rm (ss_store s)))"
    "members (rm_eviction rm) = members (rm_eviction (gs_rm (ss_store s))) - {r}"
    using eviction_pop_ok [OF I(2)] r(1) by auto
  have c: "catalog_inv (en_hash env) ?n c"
    "catalog_map (en_hash env) c = (\<lambda>k. case ?m k of None \<Rightarrow> None | Some it \<Rightarrow> if region_seq (gs_catalog (ss_store s)) r k = Some (it_sequence it) then None else Some it)"
    "\<forall>r'. region_seq c r' = (if r' = r then Map.empty else region_seq (gs_catalog (ss_store s)) r')"
    "\<forall>k it. (k, it) \<in> set items \<longleftrightarrow> ?m k = Some it \<and> region_seq (gs_catalog (ss_store s)) r k = Some (it_sequence it)"
    "\<forall>rf out. counted ?m out rf \<longrightarrow> counted (catalog_map (en_hash env) c) (\<lambda>r. out r + (\<Sum>x \<leftarrow> items. item_views (snd x) r)) rf"
    using catalog_take_region_ok [OF I(1) rm(3)] r(2) by auto
  have le: "catalog_map (en_hash env) c \<subseteq>\<^sub>m ?m" unfolding c(2) map_le_def by (auto split: option.splits if_splits)
  have sq: "\<forall>q < ?n. \<forall>k x. region_seq c q k = Some x \<longrightarrow> region_seq (gs_catalog (ss_store s)) q k = Some x" using c(3) by simp
  note spots = catalog_spots_mono [OF le]
  have free: "rv_id v \<noteq> r" if sp: "(k, v) \<in> catalog_spots (catalog_map (en_hash env) c)" for k v
  proof -
    obtain it where it: "catalog_map (en_hash env) c k = Some it" "it_index it = RegionIx v" using sp by (auto simp: catalog_spots_def)
    then have "region_seq c (rv_id v) k = Some (it_sequence it)" using c(1) unfolding catalog_inv_def catalog_linked_def by blast
    then show ?thesis using c(3) by (auto split: if_splits)
  qed
  have its: "item_views (snd x) r = 1" if "x \<in> set items" for x
    using c(4) [rule_format, of "fst x" "snd x"] that I(8) rm(3) unfolding seq_inv_def by auto
  have out: "views_out ?s = (\<lambda>q. views_out s q + (\<Sum>x \<leftarrow> items. item_views (snd x) q))"
    using sum_list_update_nat [OF j(1), where f = reclaim_items and y = "RWait r items" and g = "\<lambda>x. item_views (snd x) _"] j(2)
    by (intro ext) (simp add: views_out_def set_reclaimer_def reclaim_items_def)
  show ?thesis
  proof (rule sys_invI)
    show "own_inv ?n (regions_held members ?s)"
    proof (rule own_move [OF I(3), where src = Evictable and dst = "Reclaiming j" and X = "{r}"])
      fix p show "regions_held members ?s p \<subseteq> regions_held members s p \<union> (if p = Reclaiming j then {r} else {})"
        using j rm by (cases p) (auto simp: regions_held_def set_reclaimer_def r(3) nth_list_update reclaim_held_def split: if_splits)
    qed (use rm in \<open>auto simp: regions_held_def set_reclaimer_def r(3)\<close>)
    show "reclaim_ok (catalog_spots (catalog_map (en_hash env) (gs_catalog (ss_store ?s)))) ph" if "ph \<in> set (ss_reclaimers ?s)" for ph
    proof -
      have "ph = RWait r items \<or> ph \<in> set (ss_reclaimers s)" using that set_update_subset_insert [of "ss_reclaimers s" j] by (auto simp: set_reclaimer_def)
      then have "reclaim_ok (catalog_spots (catalog_map (en_hash env) c)) ph"
      proof
        assume "ph = RWait r items"
        then show ?thesis using free its by (simp add: reclaim_ok_def) blast
      qed (rule reclaim_ok_mono [OF I(6) spots])
      then show ?thesis by (simp add: set_reclaimer_def r(3))
    qed
    show "seq_inv (en_hash env) ?n (gs_catalog (ss_store ?s)) (gs_sequence (ss_store ?s)) (image_mset fe_sequence (sys_entries ?s))"
      using seq_shrink [OF I(8) _ le sq] by (simp add: set_reclaimer_def r(3) sys_entries_def)
    show "inflight_ok (catalog_map (en_hash env) (gs_catalog (ss_store ?s))) (ss_inserted ?s)"
      using inflight_mono [OF I(9) le] by (simp add: set_reclaimer_def r(3))
    show "counted (catalog_map (en_hash env) (gs_catalog (ss_store ?s))) (views_out ?s) (gs_refs (ss_store ?s))"
      unfolding out using c(5) I(11) by (simp add: set_reclaimer_def r(3))
    show "disk_inv (en_kc env) (en_vc env) (en_ops env) (en_dev env) (fdata (gs_device (ss_store ?s))) (ss_inserted ?s) (sys_spots (en_hash env) ?s) (sys_writes ?s)"
    proof -
      have "sys_spots (en_hash env) ?s \<subseteq> sys_spots (en_hash env) s" using spots unfolding sys_spots_def by (auto simp: set_reclaimer_def r(3))
      moreover have "sys_writes ?s \<subseteq> sys_writes s"
        using set_update_subset_insert [of "ss_reclaimers s" j "RWait r items"] unfolding sys_writes_def
        by (auto simp: set_reclaimer_def r(3) rm(2)) (auto simp: reclaim_writes_def)
      ultimately show ?thesis using disk_mono [OF I(10)] by (simp add: set_reclaimer_def r(3))
    qed
  qed (use I(4,5,7,12) rm(1,2) c(1) in \<open>simp_all add: set_reclaimer_def r(3) sys_entries_def\<close>)
qed

text \<open>When the wait of the reclaimer is over, nobody can read the region.\<close>

lemma ready_no_spots:
  assumes inv: "sys_inv env fdata ok members s" and fit: "views_fit (en_hash env) s" and j: "j < length (ss_reclaimers s)" "ss_reclaimers s ! j = RWait r items"
    and rd: "reclaim_ready r items (gs_refs (ss_store s))"
  shows "(k, v) \<in> sys_spots (en_hash env) s \<Longrightarrow> rv_id v \<noteq> r"
proof -
  note I = sys_invD [OF inv]
  let ?m = "catalog_map (en_hash env) (gs_catalog (ss_store s))"
  have ok: "reclaim_ok (catalog_spots ?m) (RWait r items)" using I(6) nth_mem [OF j(1)] j(2) by simp
  have hr: "r \<in> regions_held members s (Reclaiming j)" using j by (simp add: regions_held_def reclaim_held_def)
  have its: "(\<Sum>x \<leftarrow> items. item_views (snd x) r) = length items" using ok by (intro sum_list_ones) (simp add: reclaim_ok_def)
  have "(\<Sum>x \<leftarrow> items. item_views (snd x) r) \<le> (\<Sum>x \<leftarrow> concat (map reclaim_items (ss_reclaimers s)). item_views (snd x) r)"
    using sum_list_update_nat [OF j(1), where f = reclaim_items and y = RIdle and g = "\<lambda>x. item_views (snd x) r"] j(2) by (simp add: reclaim_items_def)
  moreover have "gs_refs (ss_store s) r = views_of ?m r + views_out s r" using I(11) fit by (simp add: counted_def views_fit_def)
  ultimately have "length (filter (\<lambda>x. rv_id (snd x) = r) (ss_readers s)) = 0"
    using rd its unfolding reclaim_ready_def views_out_def by linarith
  then have nr: "\<forall>x \<in> set (ss_readers s). rv_id (snd x) \<noteq> r" by (simp add: filter_empty_conv)
  assume "(k, v) \<in> sys_spots (en_hash env) s"
  then consider "(k, v) \<in> catalog_spots ?m" | "(k, v) \<in> set (ss_readers s)" | t where "t \<in> set (ss_flushers s)" "(k, v) \<in> task_spots t"
    unfolding sys_spots_def by blast
  then show "rv_id v \<noteq> r"
  proof cases
    case 1
    then show ?thesis using ok by (auto simp: reclaim_ok_def)
  next
    case 2
    then show ?thesis using nr by auto
  next
    case 3
    then obtain i where i: "i < length (ss_flushers s)" "ss_flushers s ! i = t" by (auto simp: in_set_conv_nth)
    have "rv_id v \<in> regions_held members s (Flushing i)"
      using 3(2) i by (cases "snd t") (auto simp: regions_held_def task_spots_def task_held_def phase_held_def view_of_def)
    then show ?thesis using own_one [OF I(3) hr, of "Flushing i"] by auto
  qed
qed

lemma write_behind_device:
  assumes w: "dv_write (en_dev env) d buf r 0 = Some (res, d')" and r: "r < dv_regions (en_dev env)" and len: "length buf \<le> rsize"
  shows "written_behind (fdata d) (fdata d') (Some r) 0"
proof -
  have "\<forall>q. q \<noteq> r \<longrightarrow> fdata d' q = fdata d q" "\<forall>n. res = Inr n \<longrightarrow> fdata d' r = write_at (fdata d r) 0 (take n buf)"
    using write_ok [OF r, of 0 buf d] w len by auto
  moreover have "fdata d' r = fdata d r \<or> (\<exists>bs. fdata d' r = write_at (fdata d r) 0 bs)" if "res = Inl e" for e
    using write_fail [of d buf r 0 e d'] w that r by auto
  ultimately show ?thesis unfolding written_behind_def by (cases res) metis+
qed

lemma ready_inv:
  assumes inv: "sys_inv env fdata ok members s" and fit: "views_fit (en_hash env) s" and j: "j < length (ss_reclaimers s)" "ss_reclaimers s ! j = RWait r items"
    and rd: "reclaim_ready r items (gs_refs (ss_store s))"
  shows "sys_inv env fdata ok members (set_reclaimer j (RReady r items) s)" (is "sys_inv _ _ _ _ ?s")
proof -
  note I = sys_invD [OF inv]
  note free = ready_no_spots [OF inv fit j rd]
  have out: "views_out ?s = views_out s"
    using sum_list_update_nat [OF j(1), where f = reclaim_items and y = "RReady r items" and g = "\<lambda>x. item_views (snd x) _"] j(2)
    by (intro ext) (simp add: views_out_def set_reclaimer_def reclaim_items_def)
  have w: "sys_writes ?s \<subseteq> insert (r, 0) (sys_writes s)"
    using set_update_subset_insert [of "ss_reclaimers s" j "RReady r items"] unfolding sys_writes_def
    by (auto simp: set_reclaimer_def reclaim_writes_def [of "RReady r items"])
  show ?thesis
  proof (rule reclaim_frame [OF inv j(1), where ph = "RReady r items"])
    show "own_inv (dv_regions (en_dev env)) (regions_held members ?s)"
      by (rule own_shrink [OF I(3)], rule held_reclaimer [OF j(1), where ph = "RReady r items"]) (simp_all add: set_reclaimer_def reclaim_held_def j(2))
    show "disk_inv (en_kc env) (en_vc env) (en_ops env) (en_dev env) (fdata (gs_device (ss_store ?s))) (ss_inserted s) (sys_spots (en_hash env) s) (sys_writes ?s)"
      using I(10) w free unfolding disk_inv_def by (fastforce simp: set_reclaimer_def)
    show "counted (catalog_map (en_hash env) (gs_catalog (ss_store s))) (views_out ?s) (gs_refs (ss_store ?s))"
      unfolding out using I(11) by (simp add: set_reclaimer_def)
  qed (use I(2,4) in \<open>simp_all add: set_reclaimer_def reclaim_ok_def\<close>)
qed

lemma wipe_inv:
  assumes inv: "sys_inv env fdata ok members s" and j: "j < length (ss_reclaimers s)" "ss_reclaimers s ! j = RReady r items"
    and w: "reclaim_wipe env r (ss_store s) = Some (res, st)"
  shows "sys_inv env fdata ok members (set_reclaimer j (case res of Inl _ \<Rightarrow> RDrop items False | Inr _ \<Rightarrow> RWiped r items) (s\<lparr>ss_store := st\<rparr>))"
    (is "sys_inv _ _ _ _ ?s")
proof -
  note I = sys_invD [OF inv]
  define ph where "ph = (case res of Inl _ \<Rightarrow> RDrop items False | Inr _ \<Rightarrow> RWiped r items)"
  have ph: "ph = RDrop items False \<or> ph = RWiped r items" unfolding ph_def by (cases res) simp_all
  have rn: "r < dv_regions (en_dev env)" using own_lt [OF I(3), of r "Reclaiming j"] j by (simp add: regions_held_def reclaim_held_def)
  obtain res0 d where d: "dv_write (en_dev env) (gs_device (ss_store s)) (replicate (dv_align (en_dev env)) 0) r 0 = Some (res0, d)" "st = (ss_store s)\<lparr>gs_device := d\<rparr>"
    using w by (auto simp: reclaim_wipe_def split: bind_splits)
  have wb: "written_behind (fdata (gs_device (ss_store s))) (fdata d) (Some r) 0" by (rule write_behind_device [OF d(1) rn]) (simp add: align align_le)
  have w0: "(r, 0) \<in> sys_writes s" using reclaim_writes_sys [OF j(1)] by (auto simp: j(2) reclaim_writes_def)
  have out: "views_out ?s = views_out s"
    using sum_list_update_nat [OF j(1), where f = reclaim_items and y = ph and g = "\<lambda>x. item_views (snd x) _"] j(2) ph
    by (intro ext) (auto simp: views_out_def set_reclaimer_def reclaim_items_def ph_def [symmetric])
  have wr: "sys_writes ?s \<subseteq> sys_writes s"
    using set_update_subset_insert [of "ss_reclaimers s" j ph] ph w0 unfolding sys_writes_def ph_def [symmetric]
    by (auto simp: set_reclaimer_def d(2)) (auto simp: reclaim_writes_def)
  show ?thesis
  proof (rule reclaim_frame [OF inv j(1), where ph = ph])
    show "own_inv (dv_regions (en_dev env)) (regions_held members ?s)"
      by (rule own_shrink [OF I(3)], rule held_reclaimer [OF j(1), where ph = ph])
        (use ph in \<open>auto simp: set_reclaimer_def reclaim_held_def j(2) d(2) ph_def [symmetric]\<close>)
    show "disk_inv (en_kc env) (en_vc env) (en_ops env) (en_dev env) (fdata (gs_device (ss_store ?s))) (ss_inserted s) (sys_spots (en_hash env) s) (sys_writes ?s)"
    proof (rule disk_invI)
      fix k v assume kv: "(k, v) \<in> sys_spots (en_hash env) s"
      note D = disk_invD [OF I(10) kv]
      have "good_view (en_kc env) (en_vc env) (en_ops env) (en_dev env) (fdata d) (ss_inserted s) k v"
        by (rule good_view_written [OF D(1) wb]) (use D(2) w0 in auto)
      then show "good_view (en_kc env) (en_vc env) (en_ops env) (en_dev env) (fdata (gs_device (ss_store ?s))) (ss_inserted s) k v \<and>
          (\<forall>off. (rv_id v, off) \<in> sys_writes ?s \<longrightarrow> view_end v \<le> off)"
        using D(2) wr by (auto simp: set_reclaimer_def d(2))
    qed
    show "counted (catalog_map (en_hash env) (gs_catalog (ss_store s))) (views_out ?s) (gs_refs (ss_store ?s))"
      unfolding out using I(11) by (simp add: set_reclaimer_def d(2))
    show "reclaim_ok (catalog_spots (catalog_map (en_hash env) (gs_catalog (ss_store s)))) ph" using ph by (auto simp: reclaim_ok_def)
  qed (use I(2,4) in \<open>simp_all add: set_reclaimer_def d(2) ph_def\<close>)
qed

lemma release_inv:
  assumes inv: "sys_inv env fdata ok members s" and j: "j < length (ss_reclaimers s)" "ss_reclaimers s ! j = RWiped r items"
  shows "sys_inv env fdata ok members (set_reclaimer j (RDrop items True) (s\<lparr>ss_store := reclaim_release r (ss_store s)\<rparr>))" (is "sys_inv _ _ _ _ ?s")
proof -
  note I = sys_invD [OF inv]
  have hr: "r \<in> regions_held members s (Reclaiming j)" using j by (simp add: regions_held_def reclaim_held_def)
  have new: "r \<notin> set (aq_queue (rm_clean_regions (gs_rm (ss_store s))))" using own_one [OF I(3) hr, of Clean] by (auto simp: regions_held_def)
  have w0: "(r, 0) \<in> sys_writes s" using reclaim_writes_sys [OF j(1)] by (auto simp: j(2) reclaim_writes_def)
  have out: "views_out ?s = views_out s"
    using sum_list_update_nat [OF j(1), where f = reclaim_items and y = "RDrop items True" and g = "\<lambda>x. item_views (snd x) _"] j(2)
    by (intro ext) (auto simp: views_out_def set_reclaimer_def reclaim_items_def)
  have wr: "sys_writes ?s \<subseteq> sys_writes s"
    using set_update_subset_insert [of "ss_reclaimers s" j "RDrop items True"] w0 unfolding sys_writes_def
    by (auto simp: set_reclaimer_def reclaim_release_def release_queue) (auto simp: reclaim_writes_def)
  show ?thesis
  proof (rule reclaim_frame [OF inv j(1), where ph = "RDrop items True"])
    show "own_inv (dv_regions (en_dev env)) (regions_held members ?s)"
    proof (rule own_move [OF I(3), where src = "Reclaiming j" and dst = Clean and X = "{r}"])
      fix p show "regions_held members ?s p \<subseteq> regions_held members s p \<union> (if p = Clean then {r} else {})"
        using j by (cases p) (auto simp: regions_held_def set_reclaimer_def reclaim_release_def release_queue nth_list_update reclaim_held_def split: if_splits)
    qed (use hr j in \<open>auto simp: regions_held_def set_reclaimer_def reclaim_held_def\<close>)
    show "disk_inv (en_kc env) (en_vc env) (en_ops env) (en_dev env) (fdata (gs_device (ss_store ?s))) (ss_inserted s) (sys_spots (en_hash env) s) (sys_writes ?s)"
      using disk_mono [OF I(10) subset_refl wr subset_refl] by (simp add: set_reclaimer_def reclaim_release_def)
    show "counted (catalog_map (en_hash env) (gs_catalog (ss_store s))) (views_out ?s) (gs_refs (ss_store ?s))"
      unfolding out using I(11) by (simp add: set_reclaimer_def reclaim_release_def)
    show "distinct (aq_queue (rm_clean_regions (gs_rm (ss_store ?s))))" using I(4) new by (simp add: set_reclaimer_def reclaim_release_def release_queue)
  qed (use I(2) in \<open>simp_all add: set_reclaimer_def reclaim_release_def reclaim_ok_def rm_ok_def\<close>)
qed

lemma drop_inv:
  assumes inv: "sys_inv env fdata ok members s" and j: "j < length (ss_reclaimers s)" "ss_reclaimers s ! j = RDrop items go"
  shows "sys_inv env fdata ok members (set_reclaimer j (if go then RIdle else RStopped) (s\<lparr>ss_store := reclaim_drop items (ss_store s)\<rparr>))" (is "sys_inv _ _ _ _ ?s")
proof -
  note I = sys_invD [OF inv]
  define ph :: "('k, 'v) reclaim_phase" where "ph = (if go then RIdle else RStopped)"
  have ph: "ph = RIdle \<or> ph = RStopped" unfolding ph_def by simp
  have out: "views_out s q = views_out ?s q + (\<Sum>it \<leftarrow> map snd items. item_views it q)" for q
    using sum_list_update_nat [OF j(1), where f = reclaim_items and y = ph and g = "\<lambda>x. item_views (snd x) q"] j(2) ph
    by (auto simp: views_out_def set_reclaimer_def reclaim_items_def ph_def [symmetric] comp_def)
  have wr: "sys_writes ?s \<subseteq> sys_writes s"
    using set_update_subset_insert [of "ss_reclaimers s" j ph] ph unfolding sys_writes_def ph_def [symmetric]
    by (auto simp: set_reclaimer_def reclaim_drop_def) (auto simp: reclaim_writes_def)
  show ?thesis
  proof (rule reclaim_frame [OF inv j(1), where ph = ph])
    show "own_inv (dv_regions (en_dev env)) (regions_held members ?s)"
      by (rule own_shrink [OF I(3)], rule held_reclaimer [OF j(1), where ph = ph])
        (use ph in \<open>auto simp: set_reclaimer_def reclaim_held_def j(2) reclaim_drop_def ph_def [symmetric]\<close>)
    show "disk_inv (en_kc env) (en_vc env) (en_ops env) (en_dev env) (fdata (gs_device (ss_store ?s))) (ss_inserted s) (sys_spots (en_hash env) s) (sys_writes ?s)"
      using disk_mono [OF I(10) subset_refl wr subset_refl] by (simp add: set_reclaimer_def reclaim_drop_def)
    show "counted (catalog_map (en_hash env) (gs_catalog (ss_store s))) (views_out ?s) (gs_refs (ss_store ?s))"
      using I(11) fold_drop [where its = "map snd items" and rf = "gs_refs (ss_store s)"] unfolding counted_def out
      by (simp add: set_reclaimer_def reclaim_drop_def ac_simps)
    show "reclaim_ok (catalog_spots (catalog_map (en_hash env) (gs_catalog (ss_store s)))) ph" using ph by (auto simp: reclaim_ok_def)
  qed (use I(2,4) in \<open>simp_all add: set_reclaimer_def reclaim_drop_def ph_def\<close>)
qed

lemma reclaimer_inv:
  assumes inv: "sys_inv env fdata ok members s" and fit: "views_fit (en_hash env) s" and op: "reclaimer_op env threshold j s s'"
  shows "sys_inv env fdata ok members s'"
  using op by cases (use none_inv [OF inv] victim_inv [OF inv] ready_inv [OF inv fit] wipe_inv [OF inv] release_inv [OF inv] drop_inv [OF inv] in simp_all)

end

end
