(* ===== verification/Store_Reach.thy ===== *)
theory Store_Reach
  imports Store_Safe
begin

text \<open>
  The invariant holds in every reachable state of a store that was opened on a device without regions to recover. What
  it says of a lookup, of a reclaimer and of the regions are the properties at the end.
\<close>

section \<open>Opening\<close>

definition blank_device :: "('k::linorder, 'kc, 'v, 'vc, 'd, 'e, 'p, 'b) store_env \<Rightarrow> ('d \<Rightarrow> nat \<Rightarrow> bytes) \<Rightarrow> 'd \<Rightarrow> bool" where
  "blank_device env fdata d \<longleftrightarrow>
     (\<forall>r < dv_regions (en_dev env). region_layout (en_dev env) (en_kc env) (en_vc env) (en_ops env) (fdata d r) None)"

definition fresh_config :: "('e \<Rightarrow> bool) \<Rightarrow> ('e \<Rightarrow> nat set) \<Rightarrow> ('e, 'p) GenericStoreConfig \<Rightarrow> bool" where
  "fresh_config ok members config \<longleftrightarrow> ok (sc_eviction config) \<and> members (sc_eviction config) = {} \<and> sc_catalog_bits config < 31"

lemma fb_new_empty: "fb_new dev = Some b \<Longrightarrow> fb_region b = None \<and> fb_entries b = []"
  by (auto simp: fb_new_def split: bind_splits)

lemma catalog_new_regions: "catalog_new n bits = Some c \<Longrightarrow> r < n \<Longrightarrow> region_seq c r = Map.empty"
  by (auto simp: catalog_new_def region_seq_def split: if_splits bind_splits)

context store_system
begin

lemma recover_region_blank:
  assumes rm: "rm_ok ok members (dv_regions (en_dev env)) rm" and r: "r < dv_regions (en_dev env)" and blank: "blank_device env fdata d"
    and rec: "recover_region (en_ep env) (en_dev env) (en_kc env) (en_hash env) now r d rm c rf = Some (res, rm', c', rf')"
  shows "rm_ok ok members (dv_regions (en_dev env)) rm' \<and> c' = c \<and> rf' = rf"
proof -
  obtain rg where rg: "rm_region rm r = Some rg" "rg_id rg = r" "rg_waits rg = Map.empty" using rm_region_ok [OF rm r] by blast
  have "length (fdata d r) < dv_align (en_dev env) \<or> (\<exists>e. region_header_read (take (dv_align (en_dev env)) (fdata d r)) = Some (Inl e))"
    using blank r by (auto simp: blank_device_def region_layout_def)
  then obtain x where x: "iter_open (en_dev env) rg d = Some x" "\<forall>y. x = Inr y \<longrightarrow> y = None"
    using iter_open_none [of rg d] rg r by auto
  show ?thesis using rec rg(1) x rm by (cases x) (auto simp: recover_region_def rm_ok_def)
qed

lemma recover_regions_blank:
  assumes "rm_ok ok members (dv_regions (en_dev env)) rm" and "set order \<subseteq> {..<dv_regions (en_dev env)}" and blank: "blank_device env fdata d"
    and "recover_regions (en_ep env) (en_dev env) (en_kc env) (en_hash env) now order d rm c rf = Some (rs, rm', c', rf')"
  shows "c' = c \<and> rf' = rf"
  using assms
proof (induction order arbitrary: rm c rf rs)
  case (Cons r order)
  obtain res rm1 c1 rf1 rs' where
    1: "recover_region (en_ep env) (en_dev env) (en_kc env) (en_hash env) now r d rm c rf = Some (res, rm1, c1, rf1)" and
    2: "recover_regions (en_ep env) (en_dev env) (en_kc env) (en_hash env) now order d rm1 c1 rf1 = Some (rs', rm', c', rf')"
    using Cons.prems(4) by (auto split: bind_splits)
  then show ?case using Cons.IH [OF _ _ blank 2] recover_region_blank [OF Cons.prems(1) _ blank 1] Cons.prems(2) by auto
qed simp

lemma open_blank:
  assumes op: "store_open env now order config d = Some (Inr (st, fls))" and order: "distinct order" "set order = {..<dv_regions (en_dev env)}"
    and blank: "blank_device env fdata d" and fresh: "fresh_config ok members config"
  shows "catalog_inv (en_hash env) (dv_regions (en_dev env)) (gs_catalog st)" "catalog_map (en_hash env) (gs_catalog st) = Map.empty"
    "\<And>r. r < dv_regions (en_dev env) \<Longrightarrow> region_seq (gs_catalog st) r = Map.empty" "gs_refs st = (\<lambda>_. 0)"
    "rm_ok ok members (dv_regions (en_dev env)) (gs_rm st)" "members (rm_eviction (gs_rm st)) = {}" "aq_queue (rm_clean_regions (gs_rm st)) = order"
    "gs_channels st = replicate (sc_flushers config) (Some [])" "length fls = sc_flushers config"
    "\<And>f. f \<in> set fls \<Longrightarrow> fb_new (en_dev env) = Some (fl_buffer f)"
proof -
  obtain c0 :: "('k, 'v) Catalog" where c0: "catalog_new (dv_regions (en_dev env)) (sc_catalog_bits config) = Some c0" "catalog_inv (en_hash env) (dv_regions (en_dev env)) c0"
    "catalog_map (en_hash env) c0 = Map.empty"
    using catalog_new_ok [of "sc_catalog_bits config" "dv_regions (en_dev env)" "en_hash env"] fresh by (auto simp: fresh_config_def)
  define rm0 where "rm0 = rm_new (dv_regions (en_dev env)) (sc_eviction config)"
  have rm0: "rm_ok ok members (dv_regions (en_dev env)) rm0" "members (rm_eviction rm0) = {}" "aq_queue (rm_clean_regions rm0) = []"
    using rm_new_ok few_regions fresh by (auto simp: rm0_def fresh_config_def rm_new_def async_queue_new_def)
  obtain sequence rm' c' rf where r: "recover (en_ep env) (en_dev env) (en_kc env) (en_hash env) now order d rm0 c0 (\<lambda>_. 0) = Some (Inr sequence, rm', c', rf)"
    "gs_catalog st = c'" "gs_refs st = rf" "gs_rm st = rm'" "gs_channels st = replicate (sc_flushers config) (Some [])"
    using op c0(1) by (auto simp: store_open_def rm0_def Let_def split: bind_splits sum.splits if_splits)
  have f: "length fls = sc_flushers config \<and> (\<forall>f \<in> set fls. fb_new (en_dev env) = Some (fl_buffer f))"
    using op by (auto simp: store_open_def flusher_new_def Let_def split: bind_splits sum.splits if_splits)
  obtain rs rm1 where "recover_regions (en_ep env) (en_dev env) (en_kc env) (en_hash env) now order d rm0 c0 (\<lambda>_. 0) = Some (rs, rm1, c', rf)"
    using r(1) by (auto simp: recover_def split: bind_splits sum.splits if_splits)
  from recover_regions_blank [OF rm0(1) _ blank this] have eq: "c' = c0 \<and> rf = (\<lambda>_. 0)" using order(2) by simp
  have "rm_ok ok members (dv_regions (en_dev env)) rm' \<and> members (rm_eviction rm') = {} \<and> aq_queue (rm_clean_regions rm') = order"
    using recover_ok [OF rm0(1,2) c0(2) order, where es = "\<lambda>_. None" and d = d and now = now and rf = "\<lambda>_. 0"] r(1) blank rm0(3)
    by (auto simp: blank_device_def)
  then show "rm_ok ok members (dv_regions (en_dev env)) (gs_rm st)" "members (rm_eviction (gs_rm st)) = {}" "aq_queue (rm_clean_regions (gs_rm st)) = order"
    unfolding r(4) by simp_all
  show "catalog_inv (en_hash env) (dv_regions (en_dev env)) (gs_catalog st)" "catalog_map (en_hash env) (gs_catalog st) = Map.empty" "gs_refs st = (\<lambda>_. 0)"
    unfolding r(2,3) using eq c0 by simp_all
  show "region_seq (gs_catalog st) r = Map.empty" if "r < dv_regions (en_dev env)" for r
    unfolding \<open>gs_catalog st = c'\<close> using eq catalog_new_regions [OF c0(1) that] by simp
qed (use op in \<open>auto simp: store_open_def flusher_new_def Let_def split: bind_splits sum.splits if_splits\<close>)

lemma init_inv:
  assumes op: "store_open env now order config d = Some (Inr (st, fls))" and order: "distinct order" "set order = {..<dv_regions (en_dev env)}"
    and blank: "blank_device env fdata d" and fresh: "fresh_config ok members config"
  shows "sys_inv env fdata ok members (sys_init st fls n)"
proof -
  note O = open_blank [OF assms]
  have new: "fb_region (fl_buffer f) = None" "fb_entries (fl_buffer f) = []" if "f \<in> set fls" for f
    using fb_new_empty [OF O(10) [OF that]] by simp_all
  have ent: "sys_entries (sys_init st fls n) = {#}"
    using new by (simp add: sys_entries_def sys_init_def O(8) comp_def task_entries_def phase_entries_def channel_entries_def)
  have held: "p = Clean \<and> r < dv_regions (en_dev env)" if "r \<in> regions_held members (sys_init st fls n) p" for p r
    using that O(6,7) new nth_mem order(2) by (cases p) (auto simp: regions_held_def sys_init_def task_held_def phase_held_def reclaim_held_def split: if_splits)
  have spots: "sys_spots (en_hash env) (sys_init st fls n) = {}" using O(2) by (auto simp: sys_spots_def sys_init_def catalog_spots_def task_spots_def)
  show ?thesis
  proof (rule sys_invI)
    show "own_inv (dv_regions (en_dev env)) (regions_held members (sys_init st fls n))"
      using held unfolding own_inv_def by blast
    show "disk_inv (en_kc env) (en_vc env) (en_ops env) (en_dev env) (fdata (gs_device (ss_store (sys_init st fls n)))) (ss_inserted (sys_init st fls n))
        (sys_spots (en_hash env) (sys_init st fls n)) (sys_writes (sys_init st fls n))"
      unfolding spots by (simp add: disk_inv_def)
    show "task_ok (en_kc env) (en_vc env) (en_ops env) (en_dev env) t" if "t \<in> set (ss_flushers (sys_init st fls n))" for t
      using that new_ok [OF O(10)] by (auto simp: sys_init_def task_ok_def)
    show "counted (catalog_map (en_hash env) (gs_catalog (ss_store (sys_init st fls n)))) (views_out (sys_init st fls n)) (gs_refs (ss_store (sys_init st fls n)))"
      using O(2,4) by (simp add: sys_init_def counted_def views_of_def views_out_def reclaim_items_def comp_def)
  qed (use O ent order(1) in \<open>auto simp: sys_init_def seq_inv_def inflight_ok_def reclaim_ok_def\<close>)
qed

lemma reachable_inv:
  assumes "store_reachable env config d s" and "blank_device env fdata d" "fresh_config ok members config"
  shows "sys_inv env fdata ok members s"
  using assms
proof (induction rule: store_reachable.induct)
  case (sys_open now order st fls)
  then show ?case using init_inv by blast
next
  case (sys_client s s')
  then show ?case using client_inv by blast
next
  case (sys_flusher s i s')
  then show ?case using flusher_inv by blast
next
  case (sys_reclaimer s j s')
  then show ?case using reclaimer_inv by blast
qed

end

section \<open>What the invariant says\<close>

lemma holds_nonempty: "holds kc vc ops al bs e \<Longrightarrow> bs \<noteq> []"
  by (auto simp: holds_def dest!: arg_cong [of _ _ length])

context store_system
begin

lemma lookup_returns:
  assumes inv: "sys_inv env fdata ok members s"
  shows "\<exists>turn st. store_lookup env (ss_store s) key = Some (turn, st) \<and>
    (\<forall>x. turn = LookupDone (Some x) \<longrightarrow> (key, x) \<in> ss_inserted s) \<and> (\<forall>v. turn = LookupLoad v \<longrightarrow> rv_id v < dv_regions (en_dev env))"
proof -
  note I = sys_invD [OF inv]
  let ?m = "catalog_map (en_hash env) (gs_catalog (ss_store s))"
  obtain rf where rf: "catalog_lookup (en_hash env) key (gs_catalog (ss_store s)) (gs_refs (ss_store s)) = Some (?m key, rf)"
    using catalog_lookup_ok [OF I(1), of key "gs_refs (ss_store s)"] by blast
  show ?thesis
  proof (cases "?m key")
    case None
    with rf show ?thesis by (simp add: store_lookup_def)
  next
    case (Some it)
    show ?thesis
    proof (cases "it_index it")
      case (Inflight k v)
      with Some I(9) have "(key, v) \<in> ss_inserted s" by (auto simp: inflight_ok_def)
      with Some Inflight rf show ?thesis by (simp add: store_lookup_def item_consume_def)
    next
      case (RegionIx v)
      with Some I(1) have lt: "rv_id v < dv_regions (en_dev env)" by (auto simp: catalog_inv_def catalog_linked_def)
      obtain rm where "record_access (en_ep env) (gs_rm (ss_store s)) (rv_id v) = Some rm" using record_access_ok [OF I(2) lt] by blast
      with Some RegionIx rf lt show ?thesis by (simp add: store_lookup_def item_consume_def)
    qed
  qed
qed

lemma load_returns:
  assumes inv: "sys_inv env fdata ok members s" and v: "(key, v) \<in> set (ss_readers s)"
  shows "\<exists>rg res st. rm_region (gs_rm (ss_store s)) (rv_id v) = Some rg \<and> lookup_load env (ss_store s) key v = Some (res, st) \<and>
    ((\<exists>e rf. res = Inl e \<and> region_load (en_dev env) rg (gs_device (ss_store s)) v (gs_refs (ss_store s)) = Some (Inl e, rf)) \<or>
     (\<exists>x. res = Inr (Some x) \<and> (key, x) \<in> ss_inserted s))"
proof -
  obtain rg res where r: "rm_region (gs_rm (ss_store s)) (rv_id v) = Some rg"
    "region_load (en_dev env) rg (gs_device (ss_store s)) v (gs_refs (ss_store s)) = Some (res, view_drop v (gs_refs (ss_store s)))"
    "\<forall>x. res = Inr x \<longrightarrow> (\<exists>bs e. x = Some bs \<and> holds (en_kc env) (en_vc env) (en_ops env) (dv_align (en_dev env)) bs e \<and> fe_key e = key \<and> (key, fe_value e) \<in> ss_inserted s)"
    by (rule load_reader [OF inv v])
  show ?thesis
  proof (cases res)
    case (Inl e)
    with r(1,2) show ?thesis by (simp add: lookup_load_def)
  next
    case (Inr x)
    then obtain bs e where "x = Some bs" "holds (en_kc env) (en_vc env) (en_ops env) (dv_align (en_dev env)) bs e" "(key, fe_value e) \<in> ss_inserted s" using r(3) by blast
    with Inr r(1,2) show ?thesis by (simp add: lookup_load_def holds_read)
  qed
qed

lemma wiped_unread:
  assumes inv: "sys_inv env fdata ok members s" and w: "(r, 0) \<in> sys_writes s" and kv: "(k, v) \<in> sys_spots (en_hash env) s"
  shows "rv_id v \<noteq> r"
proof
  assume r: "rv_id v = r"
  note D = disk_invD [OF sys_invD(10) [OF inv] kv]
  have "view_end v = 0" using D(2) [of 0] w r by simp
  moreover obtain e where "holds (en_kc env) (en_vc env) (en_ops env) (dv_align (en_dev env)) (read_at (fdata (gs_device (ss_store s)) r) (unat (rv_offset v)) (unat (rv_len v))) e"
    using D(1) r by (auto simp: good_view_def)
  ultimately show False using holds_nonempty by (fastforce simp: view_end_def read_at_def)
qed

lemma reclaiming_alone:
  assumes inv: "sys_inv env fdata ok members s" and ph: "RReady r items \<in> set (ss_reclaimers s) \<or> RWiped r items \<in> set (ss_reclaimers s)"
  shows "(\<forall>(k, v) \<in> set (ss_readers s). rv_id v \<noteq> r) \<and>
    (\<forall>k it v. catalog_map (en_hash env) (gs_catalog (ss_store s)) k = Some it \<longrightarrow> it_index it = RegionIx v \<longrightarrow> rv_id v \<noteq> r) \<and>
    (\<forall>t \<in> set (ss_flushers s). r \<notin> task_held t) \<and> r \<notin> set (aq_queue (rm_clean_regions (gs_rm (ss_store s)))) \<and>
    r \<notin> members (rm_eviction (gs_rm (ss_store s)))"
proof -
  note I = sys_invD [OF inv]
  obtain j where j: "j < length (ss_reclaimers s)" "ss_reclaimers s ! j = RReady r items \<or> ss_reclaimers s ! j = RWiped r items"
    using ph by (auto simp: in_set_conv_nth)
  then have h: "r \<in> regions_held members s (Reclaiming j)" by (auto simp: regions_held_def reclaim_held_def)
  have "(r, 0) \<in> sys_writes s" using reclaim_writes_sys [OF j(1)] j(2) by (auto simp: reclaim_writes_def)
  note w = wiped_unread [OF inv this]
  have "rv_id v \<noteq> r" if "catalog_map (en_hash env) (gs_catalog (ss_store s)) k = Some it" "it_index it = RegionIx v" for k it v
    by (rule w [of k]) (use that in \<open>auto simp: sys_spots_def catalog_spots_def\<close>)
  moreover have "rv_id v \<noteq> r" if "(k, v) \<in> set (ss_readers s)" for k v by (rule w [of k]) (use that in \<open>simp add: sys_spots_def\<close>)
  moreover have "r \<notin> task_held t" if t: "t \<in> set (ss_flushers s)" for t
  proof -
    obtain i where "i < length (ss_flushers s)" "ss_flushers s ! i = t" using t by (auto simp: in_set_conv_nth)
    then show ?thesis using own_one [OF I(3) h, of "Flushing i"] by (auto simp: regions_held_def)
  qed
  moreover have "r \<notin> regions_held members s Clean" "r \<notin> regions_held members s Evictable" using own_one [OF I(3) h] by auto
  ultimately show ?thesis by (simp add: regions_held_def) blast
qed

lemma ready_iff:
  assumes inv: "sys_inv env fdata ok members s" and fit: "views_fit (en_hash env) s" and j: "j < length (ss_reclaimers s)" "ss_reclaimers s ! j = RWait r items"
  shows "reclaim_ready r items (gs_refs (ss_store s)) \<longleftrightarrow> (\<forall>(k, v) \<in> set (ss_readers s). rv_id v \<noteq> r) \<and>
    (\<forall>i < length (ss_reclaimers s). i \<noteq> j \<longrightarrow> (\<forall>x \<in> set (reclaim_items (ss_reclaimers s ! i)). item_views (snd x) r = 0))"
proof -
  note I = sys_invD [OF inv]
  let ?m = "catalog_map (en_hash env) (gs_catalog (ss_store s))"
  let ?rest = "concat (map reclaim_items ((ss_reclaimers s)[j := RIdle]))"
  have ok: "reclaim_ok (catalog_spots ?m) (RWait r items)" using I(6) nth_mem [OF j(1)] j(2) by simp
  have its: "(\<Sum>x \<leftarrow> items. item_views (snd x) r) = length items" using ok by (intro sum_list_ones) (simp add: reclaim_ok_def)
  have "views_of ?m r = 0" unfolding views_of_def
  proof (intro sum.neutral ballI)
    fix k assume "k \<in> dom ?m"
    then obtain it where it: "?m k = Some it" by blast
    have "rv_id v \<noteq> r" if "it_index it = RegionIx v" for v using ok it that by (auto simp: reclaim_ok_def catalog_spots_def)
    then show "item_views (the (?m k)) r = 0" using it by (simp add: item_views_def split: Index.split)
  qed
  moreover have "views_out s r = length (filter (\<lambda>x. rv_id (snd x) = r) (ss_readers s)) + length items + (\<Sum>x \<leftarrow> ?rest. item_views (snd x) r)"
    using sum_list_update_nat [OF j(1), where f = reclaim_items and y = RIdle and g = "\<lambda>x. item_views (snd x) r"] j(2) its
    by (simp add: views_out_def reclaim_items_def)
  moreover have "gs_refs (ss_store s) r = views_of ?m r + views_out s r" using I(11) fit by (simp add: counted_def views_fit_def)
  ultimately have "reclaim_ready r items (gs_refs (ss_store s)) \<longleftrightarrow>
      length (filter (\<lambda>x. rv_id (snd x) = r) (ss_readers s)) + (\<Sum>x \<leftarrow> ?rest. item_views (snd x) r) = 0"
    by (simp add: reclaim_ready_def)
  also have "\<dots> \<longleftrightarrow> (\<forall>x \<in> set (ss_readers s). rv_id (snd x) \<noteq> r) \<and> (\<forall>x \<in> set ?rest. item_views (snd x) r = 0)"
    by (simp add: filter_empty_conv)
  also have "(\<forall>x \<in> set ?rest. item_views (snd x) r = 0) \<longleftrightarrow>
      (\<forall>i < length (ss_reclaimers s). i \<noteq> j \<longrightarrow> (\<forall>x \<in> set (reclaim_items (ss_reclaimers s ! i)). item_views (snd x) r = 0))"
    using j(1) by (fastforce simp: set_conv_nth [of "_[j := _]"] nth_list_update reclaim_items_def split: if_splits)
  finally show ?thesis by (simp add: split_beta)
qed

text \<open>Publishing never gets stuck, and the views of few entries do not wrap a counter around.\<close>

lemma publish_returns:
  assumes inv: "sys_inv env fdata ok members s" and i: "i < length (ss_flushers s)" "ss_flushers s ! i = (f, FPublish (pe # es) nx)"
  shows "\<exists>c rf. publish_entry (en_hash env) now (gs_rm (ss_store s)) pe (gs_catalog (ss_store s)) (gs_refs (ss_store s)) = Some (c, rf)"
proof -
  note I = sys_invD [OF inv]
  have "pe_region pe \<in> regions_held members s (Flushing i)" using i by (simp add: regions_held_def task_held_def phase_held_def)
  then have rn: "pe_region pe < dv_regions (en_dev env)" by (rule own_lt [OF I(3)])
  obtain rg where rg: "rm_region (gs_rm (ss_store s)) (pe_region pe) = Some rg" "rg_id rg = pe_region pe" using rm_region_ok [OF I(2) rn] by blast
  have "\<forall>v. it_index (item_new (fe_sequence (pe_entry pe)) (RegionIx (view_of pe)) :: ('k, 'v) Item) = RegionIx v \<longrightarrow> rv_id v < dv_regions (en_dev env)"
    using rn by (simp add: item_new_def view_of_def)
  from catalog_insert_ok [OF I(1) this, of now "fe_key (pe_entry pe)"] show ?thesis
    using rg by (simp add: publish_entry_def region_view_def view_of_def) blast
qed

lemma catalog_dom:
  assumes inv: "sys_inv env fdata ok members s"
  shows "dom (catalog_map (en_hash env) (gs_catalog (ss_store s))) \<subseteq> fst ` ss_inserted s" (is "dom ?m \<subseteq> _")
proof
  note I = sys_invD [OF inv]
  fix k assume "k \<in> dom ?m"
  then obtain it where it: "?m k = Some it" by blast
  show "k \<in> fst ` ss_inserted s"
  proof (cases "it_index it")
    case (Inflight k' v)
    then show ?thesis using I(9) it unfolding inflight_ok_def by force
  next
    case (RegionIx v)
    then have "(k, v) \<in> sys_spots (en_hash env) s" using it by (auto simp: sys_spots_def catalog_spots_def)
    from disk_invD(1) [OF I(10) this] show ?thesis by (force simp: good_view_def)
  qed
qed

lemma views_fit_small:
  assumes inv: "sys_inv env fdata ok members s" and fin: "finite (ss_inserted s)"
    and few: "card (ss_inserted s) + length (ss_readers s) + length (concat (map reclaim_items (ss_reclaimers s))) < usize_lim"
  shows "views_fit (en_hash env) s"
proof -
  note I = sys_invD [OF inv]
  let ?m = "catalog_map (en_hash env) (gs_catalog (ss_store s))"
  have one: "item_views it r \<le> 1" for it :: "('k, 'v) Item" and r by (simp add: item_views_def split: Index.split)
  have m: "card (dom ?m) \<le> card (ss_inserted s)" using catalog_dom [OF inv] fin by (meson card_image_le card_mono finite_imageI order_trans)
  have v: "views_of ?m r \<le> card (dom ?m)" for r
    unfolding views_of_def using sum_bounded_above [of "dom ?m" "\<lambda>k. item_views (the (?m k)) r" 1] one by simp
  have len: "(\<Sum>x \<leftarrow> xs. item_views (snd x) r) \<le> length xs" for xs :: "('k \<times> ('k, 'v) Item) list" and r
  proof (induction xs)
    case (Cons x xs)
    then show ?case using one [of "snd x" r] by simp
  qed simp
  have o: "views_out s r \<le> length (ss_readers s) + length (concat (map reclaim_items (ss_reclaimers s)))" for r
    unfolding views_out_def by (intro add_mono len length_filter_le)
  show ?thesis unfolding views_fit_def
  proof
    fix r show "views_of ?m r + views_out s r < usize_lim" using m v [of r] o [of r] few by linarith
  qed
qed

end

end
