(* ===== verification/Store_Demo.thy ===== *)
theory Store_Demo
  imports Store_Reach
begin

text \<open>
  A store on files in memory, and states that it reaches; the properties of the store are applied to them.
\<close>

section \<open>A store in memory\<close>

interpretation demo_sys: store_system demo_env "\<lambda>w. w" 256 5 rfifo_ok "\<lambda>f. set (rf_queue f)"
  using demo_disk.disk_store_axioms by (simp add: store_system_def demo_env_def)

definition demo_config :: "(RFifo, nat \<times> nat \<times> nat) GenericStoreConfig" where
  "demo_config = \<lparr>sc_eviction = rfifo_new, sc_catalog_bits = 1, sc_admissions = [(0, 0, 0)], sc_reinsertions = [], sc_flushers = 1,
     sc_reclaimers = 1, sc_clean_region_threshold = 4, sc_compression = CompressionNone\<rparr>"

definition demo_cat :: "(64 word, bytes) Catalog" where
  "demo_cat = the (catalog_new 4 1)"

lemma demo_dev_sel: "dv_regions demo_dev = 4" "dv_align demo_dev = 32" "dv_io_size demo_dev = 64" "dv_region_size demo_dev = Some 256"
  by (simp_all add: demo_dev_def fs_ops_def demo_fs_def dv_region_size_def)

lemma demo_read: "region < 4 \<Longrightarrow> off + len \<le> 256 \<Longrightarrow> dv_read demo_dev d len region off = Some (Inr (read_at (d region) off len))"
  by (simp add: demo_dev_def fs_ops_def demo_fs_def fs_read_def mem_files_def checked usize_lim_def)

lemma demo_iter: "r < 4 \<Longrightarrow> iter_open demo_dev (region_new r) (\<lambda>_. []) = Some (Inr None)"
  by (simp add: iter_open_def region_load_range_def region_new_def demo_dev_sel demo_read region_join_def device_load_def load_loop.simps
      region_finish_def read_at_def region_cleanup_def send_all_def checked usize_lim_def)

lemma demo_cat: "catalog_new 4 1 = Some demo_cat" "catalog_inv (\<lambda>k. k) 4 demo_cat" "catalog_map (\<lambda>k. k) demo_cat = Map.empty"
proof -
  obtain c :: "(64 word, bytes) Catalog" where "catalog_new 4 1 = Some c" "catalog_inv (\<lambda>k. k) 4 c" "catalog_map (\<lambda>k. k) c = Map.empty"
    using catalog_new_ok [of 1 4 "\<lambda>k. k"] by auto
  then show "catalog_new 4 1 = Some demo_cat" "catalog_inv (\<lambda>k. k) 4 demo_cat" "catalog_map (\<lambda>k. k) demo_cat = Map.empty"
    by (simp_all add: demo_cat_def)
qed

lemma demo_fb_new: "\<exists>b :: (64 word, bytes) FlushBuffer. fb_new demo_dev = Some b"
  by (simp add: fb_new_def demo_dev_def fs_ops_def demo_fs_def checked align_up_def usize_lim_def is_pow2_def assert_pow2_def unot_def)

lemma demo_open:
  obtains rm rf f where "store_open demo_env 5 [0, 1, 2, 3] demo_config (\<lambda>_. []) =
    Some (Inr (\<lparr>gs_sequence = 1, gs_catalog = demo_cat, gs_rm = rm, gs_refs = rf, gs_device = (\<lambda>_. []), gs_admissions = [(0, 0, 0)], gs_reinsertions = [],
      gs_channels = [Some []], gs_compression = CompressionNone\<rparr>, [f]))"
proof -
  obtain b :: "(64 word, bytes) FlushBuffer" where b: "fb_new demo_dev = Some b" using demo_fb_new by blast
  have four: "[0..<4] = [0, 1, 2, 3::nat]" by code_simp
  show thesis
    by (rule that) (simp add: store_open_def demo_env_def demo_config_def demo_dev_sel demo_cat(1) [simplified] recover_def recover_region_def rm_region_def
      rm_new_def nth_opt_def demo_iter four flusher_new_def b checked usize_lim_def)
qed

text \<open>The store after one insertion.\<close>

lemma demo_inserted:
  obtains s where "store_reachable demo_env demo_config (\<lambda>_. []) s" "ss_inserted s = {(7, [1, 2, 3])}"
    "catalog_map (\<lambda>k. k) (gs_catalog (ss_store s)) = [7 \<mapsto> \<lparr>it_sequence = 1, it_index = Inflight 7 [1, 2, 3], it_inserted = Some 5\<rparr>]"
    "ss_readers s = []" "ss_reclaimers s = [RIdle]"
proof -
  obtain rm rf f where op: "store_open demo_env 5 [0, 1, 2, 3] demo_config (\<lambda>_. []) =
    Some (Inr (\<lparr>gs_sequence = 1, gs_catalog = demo_cat, gs_rm = rm, gs_refs = rf, gs_device = (\<lambda>_. []), gs_admissions = [(0, 0, 0)], gs_reinsertions = [],
      gs_channels = [Some []], gs_compression = CompressionNone\<rparr>, [f]))"
    by (rule demo_open)
  define st where "st = \<lparr>gs_sequence = 1, gs_catalog = demo_cat, gs_rm = rm, gs_refs = rf, gs_device = (\<lambda>_ :: nat. [] :: bytes), gs_admissions = [(0::nat, 0::nat, 0::nat)], gs_reinsertions = [],
      gs_channels = [Some []], gs_compression = CompressionNone\<rparr>"
  define s0 where "s0 = sys_init st [f] 1"
  have "set [0, 1, 2, 3] = {..<dv_regions (en_dev demo_env)}" by (auto simp: demo_env_def demo_dev_sel)
  then have r0: "store_reachable demo_env demo_config (\<lambda>_. []) s0"
    unfolding s0_def st_def using store_reachable.sys_open [OF op] by (simp add: demo_config_def)
  have fit: "views_fit (en_hash demo_env) s0"
    by (simp add: views_fit_def s0_def sys_init_def st_def demo_env_def demo_cat(3) views_of_def views_out_def reclaim_items_def usize_lim_def)
  have bm: "bitmap (en_bm demo_env) bit" using wbm.bitmap_axioms by (simp add: demo_env_def)
  have inv: "catalog_inv (en_hash demo_env) 4 (gs_catalog st)" using demo_cat(2) by (simp add: demo_env_def st_def)
  obtain st' where f: "writer_finish demo_env 5 (writer_new demo_env st 7 3) [1, 2, 3] st = Some (True, st')"
    "catalog_map (\<lambda>k. k) (gs_catalog st') = [7 \<mapsto> \<lparr>it_sequence = 1, it_index = Inflight 7 [1, 2, 3], it_inserted = Some 5\<rparr>]"
    using finish_ok [where env = demo_env and st = st and key = 7 and val = "[1, 2, 3]" and weight = 3 and now = 5 and bits = 5 and vs = "[True]" and ps = "[(1, 0, 0)]",
      OF bm _ inv]
    by (force simp: demo_env_def st_def demo_cat(3) demo_pol_def demo_dev_sel demo_kc_def prim_coder_def prim_serialized_len_def vec_coder_def)
  have "client_op demo_env s0 (s0\<lparr>ss_store := st', ss_inserted := (if True then insert (7, [1, 2, 3]) (ss_inserted s0) else ss_inserted s0)\<rparr>)"
    by (rule client_op.op_finish [where w = "writer_new demo_env st 7 3" and now = 5])
      (use f(1) in \<open>simp_all add: s0_def sys_init_def writer_new_def st_def small_entry_def demo_env_def demo_kc_def prim_coder_def prim_serialized_len_def vec_coder_def\<close>)
  from store_reachable.sys_client [OF r0 fit this] show thesis
    by (rule that) (use f(2) in \<open>simp_all add: s0_def sys_init_def\<close>)
qed

lemma demo_blank: "blank_device demo_env (\<lambda>w. w) (\<lambda>_. [])"
  by (simp add: blank_device_def region_layout_def demo_env_def demo_dev_sel)

lemma demo_fresh: "fresh_config rfifo_ok (\<lambda>f. set (rf_queue f)) demo_config"
  by (simp add: fresh_config_def demo_config_def rfifo_new_def rfifo_ok_def)

section \<open>A run of the store\<close>

text \<open>Two entries are inserted. The flusher writes the first one into region 0; the second one does not fit there, so it takes region 1 and
  hands region 0 to the eviction policy, from where the reclaimer takes it.\<close>

abbreviation demo_reach :: "(64 word, bytes, nat \<Rightarrow> bytes, RFifo, nat \<times> nat \<times> nat) store_sys \<Rightarrow> bool" where
  "demo_reach s \<equiv> store_reachable demo_env demo_config (\<lambda>_. []) s"

definition demo_big :: "(64 word, bytes) FlushEntry" where
  "demo_big = \<lparr>fe_key = 8, fe_value = replicate 150 0, fe_sequence = 2, fe_compression = CompressionNone\<rparr>"

definition demo_both :: "(64 word \<times> bytes) set" where
  "demo_both = {(7, [1, 2, 3]), (8, replicate 150 0)}"

definition demo_at :: "(64 word, bytes, nat \<Rightarrow> bytes, RFifo, nat \<times> nat \<times> nat) store_sys \<Rightarrow> (64 word, bytes) Flusher \<Rightarrow> (64 word, bytes) flush_phase \<Rightarrow>
    nat list \<Rightarrow> nat list \<Rightarrow> (64 word, bytes) FlushEntry list \<Rightarrow> bool" where
  "demo_at s f ph clean evict q \<longleftrightarrow> demo_reach s \<and> ss_flushers s = [(f, ph)] \<and> aq_queue (rm_clean_regions (gs_rm (ss_store s))) = clean \<and>
     rf_queue (rm_eviction (gs_rm (ss_store s))) = evict \<and> gs_channels (ss_store s) = [Some q] \<and> ss_readers s = [] \<and> ss_reclaimers s = [RIdle] \<and>
     ss_inserted s = demo_both \<and> (length clean < 4 \<longrightarrow> aq_watch (rm_clean_regions (gs_rm (ss_store s))) = length clean)"

lemma demo_env_sel: "en_dev demo_env = demo_dev" "en_ops demo_env = demo_ops" "en_kc demo_env = demo_kc" "en_vc demo_env = vec_coder"
  "en_ep demo_env = rfifo_ops" "en_bm demo_env = word_bitmap" "en_hash demo_env = (\<lambda>k. k)" "en_pol demo_env = demo_pol"
  by (simp_all add: demo_env_def)

lemmas demo_inv = demo_sys.reachable_inv [OF _ demo_blank demo_fresh, unfolded demo_env_sel]

lemma demo_fit:
  assumes "demo_reach s" "ss_inserted s \<subseteq> demo_both" "ss_readers s = []" "length (concat (map reclaim_items (ss_reclaimers s))) < 2 ^ 60"
  shows "views_fit (\<lambda>k. k) s"
proof -
  have fin: "finite demo_both" "card demo_both \<le> 2" by (simp_all add: demo_both_def card_insert_if)
  have "card (ss_inserted s) \<le> 2" using card_mono [OF fin(1) assms(2)] fin(2) by simp
  then show ?thesis
    using demo_sys.views_fit_small [OF demo_inv [OF assms(1)]] assms(3,4) finite_subset [OF assms(2) fin(1)] by (simp add: demo_env_sel usize_lim_def)
qed

lemma demo_insert:
  assumes s: "demo_reach s" "ss_readers s = []" "ss_reclaimers s = [RIdle]" "ss_inserted s \<subseteq> demo_both"
    and st: "gs_channels (ss_store s) = [Some q]" "gs_admissions (ss_store s) = [p]" "gs_compression (ss_store s) = CompressionNone" "gs_sequence (ss_store s) \<noteq> - 1"
    and k: "k < 10" "length val < 2 ^ 60"
  obtains st' p' where "demo_reach (s\<lparr>ss_store := st', ss_inserted := insert (k, val) (ss_inserted s)\<rparr>)" "gs_rm st' = gs_rm (ss_store s)" "gs_admissions st' = [p']"
    "gs_compression st' = CompressionNone" "gs_sequence st' = gs_sequence (ss_store s) + 1"
    "gs_channels st' = [Some (q @ [\<lparr>fe_key = k, fe_value = val, fe_sequence = gs_sequence (ss_store s), fe_compression = CompressionNone\<rparr>])]"
proof -
  have bm: "bitmap (en_bm demo_env) bit" using wbm.bitmap_axioms by (simp add: demo_env_sel)
  have inv: "catalog_inv (en_hash demo_env) (dv_regions demo_dev) (gs_catalog (ss_store s))" using sys_invD(1) [OF demo_inv [OF s(1)]] by (simp add: demo_env_sel)
  obtain j i d where p: "p = (j, i, d)" by (cases p)
  have ask: "ask_policies (en_pol demo_env) (gs_catalog (ss_store s)) k 3 (gs_admissions (ss_store s)) = ([True], [(j + 1, i, d)])"
    using k(1) by (simp add: st(2) p demo_env_sel demo_pol_def)
  have len: "cd_serialized_len (en_kc demo_env) k < 2 ^ 60" "cd_serialized_len (en_vc demo_env) val < 2 ^ 60"
    using k(2) by (simp_all add: demo_env_sel demo_kc_def prim_coder_def prim_serialized_len_def vec_coder_def)
  obtain st' where f: "writer_finish demo_env 5 (writer_new demo_env (ss_store s) k 3) val (ss_store s) = Some (True, st')"
    "gs_sequence st' = gs_sequence (ss_store s) + 1" "gs_rm st' = gs_rm (ss_store s)" "gs_compression st' = CompressionNone"
    "gs_channels st' = [Some (q @ [\<lparr>fe_key = k, fe_value = val, fe_sequence = gs_sequence (ss_store s), fe_compression = CompressionNone\<rparr>])]"
    "gs_admissions st' = [(j + 1, i + 1, d)]"
    using finish_ok [where now = 5 and bits = 5, OF bm _ inv _ _ len _ _ ask] st by (auto simp: demo_env_sel demo_dev_sel demo_pol_def)
  have op: "client_op demo_env s (s\<lparr>ss_store := st', ss_inserted := (if True then insert (k, val) (ss_inserted s) else ss_inserted s)\<rparr>)"
    by (rule client_op.op_finish [where w = "writer_new demo_env (ss_store s) k 3" and now = 5]) (use f(1) st(4) len in \<open>simp_all add: writer_new_def small_entry_def\<close>)
  have fit: "views_fit (en_hash demo_env) s" unfolding demo_env_sel by (rule demo_fit) (use s in \<open>simp_all add: reclaim_items_def\<close>)
  from store_reachable.sys_client [OF s(1) fit op] show thesis by (intro that [of st' "(j + 1, i + 1, d)"]) (use f in simp_all)
qed

lemma demo_start:
  obtains s f where "demo_at s f FIdle [0, 1, 2, 3] [] [demo_entry, demo_big]" "fb_region (fl_buffer f) = None" "fb_entries (fl_buffer f) = []"
proof -
  obtain rm rf f where op: "store_open demo_env 5 [0, 1, 2, 3] demo_config (\<lambda>_. []) =
    Some (Inr (\<lparr>gs_sequence = 1, gs_catalog = demo_cat, gs_rm = rm, gs_refs = rf, gs_device = (\<lambda>_. []), gs_admissions = [(0, 0, 0)], gs_reinsertions = [],
      gs_channels = [Some []], gs_compression = CompressionNone\<rparr>, [f]))"
    by (rule demo_open)
  define s0 where "s0 = sys_init \<lparr>gs_sequence = 1, gs_catalog = demo_cat, gs_rm = rm, gs_refs = rf, gs_device = (\<lambda>_ :: nat. [] :: bytes),
      gs_admissions = [(0::nat, 0::nat, 0::nat)], gs_reinsertions = [], gs_channels = [Some []], gs_compression = CompressionNone\<rparr> [f] 1"
  have order: "distinct [0, 1, 2, 3 :: nat]" "set [0, 1, 2, 3] = {..<dv_regions (en_dev demo_env)}" by (auto simp: demo_env_sel demo_dev_sel)
  note O = demo_sys.open_blank [OF op order demo_blank demo_fresh]
  have r0: "demo_reach s0" unfolding s0_def using store_reachable.sys_open [OF op order] by (simp add: demo_config_def)
  obtain st1 p1 where 1: "demo_reach (s0\<lparr>ss_store := st1, ss_inserted := insert (7, [1, 2, 3]) (ss_inserted s0)\<rparr>)" "gs_rm st1 = rm" "gs_admissions st1 = [p1]"
    "gs_compression st1 = CompressionNone" "gs_sequence st1 = 2" "gs_channels st1 = [Some [demo_entry]]"
    by (rule demo_insert [OF r0, where q = "[]" and p = "(0, 0, 0)" and k = 7 and val = "[1, 2, 3]"]) (simp_all add: s0_def sys_init_def demo_both_def demo_entry_def)
  let ?s1 = "s0\<lparr>ss_store := st1, ss_inserted := insert (7, [1, 2, 3]) (ss_inserted s0)\<rparr>"
  obtain st2 p2 where 2: "demo_reach (?s1\<lparr>ss_store := st2, ss_inserted := insert (8, replicate 150 0) (ss_inserted ?s1)\<rparr>)" "gs_rm st2 = rm"
    "gs_channels st2 = [Some [demo_entry, demo_big]]"
    by (rule demo_insert [OF 1(1), where q = "[demo_entry]" and p = p1 and k = 8 and val = "replicate 150 0"])
      (use 1 in \<open>simp_all add: s0_def sys_init_def demo_both_def demo_big_def\<close>)
  have b: "fb_new demo_dev = Some (fl_buffer f)" using O(10) [of f] by (simp add: demo_env_sel)
  show thesis
    by (rule that [of "?s1\<lparr>ss_store := st2, ss_inserted := insert (8, replicate 150 0) (ss_inserted ?s1)\<rparr>" f])
      (use 2 O(6,7) fb_new_empty [OF b] in \<open>simp_all add: demo_at_def s0_def sys_init_def demo_both_def insert_commute\<close>)
qed

text \<open>A step of the flusher is a step of the store.\<close>

lemma demo_step:
  assumes "demo_at s f ph clean evict q" "flusher_op demo_env 0 s s'"
  shows "demo_reach s'"
proof (rule store_reachable.sys_flusher [OF _ _ assms(2)])
  show "demo_reach s" "views_fit (en_hash demo_env) s"
    using assms(1) demo_fit [of s] by (simp_all add: demo_at_def demo_env_sel reclaim_items_def)
qed

lemma demo_rotate:
  assumes inv: "fb_inv demo_kc vec_coder demo_ops demo_dev b" and e: "fb_entries b = []" and r: "r < 4"
  obtains b' d' where "fb_rotate demo_ops demo_dev b d r = Some (Inr [], b', d')" "fb_region b' = Some r" "fb_offset b' = 0" "length (fb_buffer b') = 32"
    "fb_entries b' = []" "fb_inv demo_kc vec_coder demo_ops demo_dev b'"
proof -
  have "r < dv_regions demo_dev" using r by (simp add: demo_dev_sel)
  from demo_store.rotate_ok [OF inv this, of d] show thesis
  proof (elim exE conjE, goal_cases)
    case (1 res b' d')
    obtain es where "res = Inr es" using 1 demo_no_failure by (cases res) auto
    with 1 e show ?case by (intro that [of b' d']) (simp_all add: demo_dev_sel)
  qed
qed

lemma demo_align: "align_up 32 71 = Some 96" "align_up 32 96 = Some 96"
  using align_up_next [of 71 5] align_up_next [of 96 5] by (simp_all add: next_multiple_def usize_lim_def)

lemma demo_dev_writes: "r < 4 \<Longrightarrow> off + length buf \<le> 256 \<Longrightarrow> dv_write demo_dev d buf r off = Some (Inr (length buf), d(r := write_at (d r) off buf))"
  by (simp add: demo_dev_def fs_ops_def demo_fs_def fs_write_def mem_files_def checked usize_lim_def)

lemma demo_fits:
  assumes inv: "fb_inv demo_kc vec_coder demo_ops demo_dev b" and b: "fb_region b = Some 0" "fb_offset b = 0" "length (fb_buffer b) = 32" "fb_entries b = []"
  obtains pe b' d' where "fb_write demo_ops demo_kc vec_coder demo_dev demo_entry b d = Some (Inr [pe], b', d')" "fb_region b' = Some 0" "fb_offset b' = 96"
    "fb_buffer b' = []" "fb_entries b' = []"
proof -
  obtain eb where eb: "fb_write demo_ops demo_kc vec_coder demo_dev demo_entry b d = fb_commit demo_ops demo_dev demo_entry 32 (fb_buffer b @ eb) b d" "length eb = 39"
    using demo_store.write_ok_bytes [OF inv b(1) demo_small, of d] b(3) demo_len by auto
  show thesis
    by (rule that [where b' = "b\<lparr>fb_buffer := [], fb_offset := 96, fb_region := Some 0, fb_entries := []\<rparr>"], subst eb(1)) (use b eb(2) in \<open>simp_all add: fb_commit_def fb_remaining_def fb_flush_def demo_dev_sel demo_align demo_dev_writes checked usize_lim_def\<close>)
qed

lemma demo_big_len: "cd_serialized_len demo_kc (fe_key demo_big) = 8" "cd_serialized_len vec_coder (fe_value demo_big) = 150" "fe_compression demo_big = CompressionNone"
  by (simp_all add: demo_kc_def demo_big_def prim_coder_def prim_serialized_len_def vec_coder_def)

lemma demo_turned_away:
  assumes inv: "fb_inv demo_kc vec_coder demo_ops demo_dev b" and b: "fb_region b = Some 0" "fb_offset b = 96" "fb_buffer b = []"
  shows "fb_write demo_ops demo_kc vec_coder demo_dev demo_big b d = Some (Inl (NeedRotate demo_big), b, d)"
proof -
  obtain eb where eb: "fb_write demo_ops demo_kc vec_coder demo_dev demo_big b d = fb_commit demo_ops demo_dev demo_big 0 eb b d" "length eb = 186"
    using demo_store.write_ok_bytes [OF inv b(1), of demo_big d] b(3) demo_big_len by auto
  show ?thesis unfolding eb(1) using b eb(2) by (simp add: fb_commit_def demo_dev_sel checked usize_lim_def set_len_def)
qed

lemma demo_take:
  assumes at: "demo_at s f FIdle clean evict (e # q)"
    and w: "fb_write demo_ops demo_kc vec_coder demo_dev e (fl_buffer f) (gs_device (ss_store s)) = Some (Inl (NeedRotate e), fl_buffer f, gs_device (ss_store s))"
  obtains s' where "demo_at s' f (FAcquire (fb_region (fl_buffer f)) e) clean evict q"
proof -
  have fw: "flusher_write (en_ops demo_env) (en_kc demo_env) (en_vc demo_env) (en_dev demo_env) e f (gs_device (ss_store s)) = Some (NeedRegion e, f, gs_device (ss_store s))"
    using w by (simp add: flusher_write_def demo_env_sel)
  show thesis
    by (rule that, unfold demo_at_def, intro conjI, rule demo_step [OF at], rule flusher_op.fl_take [OF _ _ _ fw])
      (use at in \<open>simp_all add: demo_at_def set_flusher_def flush_turn_def\<close>)
qed

lemma demo_acquire:
  assumes at: "demo_at s f (FAcquire old e) (r # clean) evict q"
  obtains s' where "demo_at s' f (FRotate old r e) clean evict q"
proof -
  obtain woken q' where a: "try_acquire (rm_clean_regions (gs_rm (ss_store s))) = (Some r, woken, q')"
    using at by (cases "try_acquire (rm_clean_regions (gs_rm (ss_store s)))") (auto simp: demo_at_def try_acquire_def Let_def split: prod.splits)
  have q: "aq_queue q' = clean" using try_acquire_Some [OF a] at by (simp add: demo_at_def)
  have w: "aq_watch q' = length clean" using a at by (auto simp: demo_at_def try_acquire_def Let_def split: prod.splits)
  show thesis
    by (rule that, unfold demo_at_def, intro conjI, rule demo_step [OF at], rule flusher_op.fl_acquire [OF _ _ a])
      (use at q w in \<open>simp_all add: demo_at_def set_flusher_def\<close>)
qed

lemma demo_rotated:
  assumes at: "demo_at s f (FRotate old r e) clean evict q" and e: "fb_entries (fl_buffer f) = []" and r: "r < 4"
  obtains s' b where "demo_at s' (f\<lparr>fl_buffer := b\<rparr>) (FPublish [] (Some (old, e))) clean evict q" "fb_region b = Some r" "fb_offset b = 0" "length (fb_buffer b) = 32"
    "fb_entries b = []" "fb_inv demo_kc vec_coder demo_ops demo_dev b"
proof -
  have reach: "demo_reach s" "(f, FRotate old r e) \<in> set (ss_flushers s)" using at by (simp_all add: demo_at_def)
  have inv: "fb_inv demo_kc vec_coder demo_ops demo_dev (fl_buffer f)"
    using sys_invD(5) [OF demo_inv [OF reach(1)] reach(2)] by (simp add: task_ok_def demo_env_sel)
  obtain b d' where b: "fb_rotate demo_ops demo_dev (fl_buffer f) (gs_device (ss_store s)) r = Some (Inr [], b, d')" "fb_region b = Some r" "fb_offset b = 0"
    "length (fb_buffer b) = 32" "fb_entries b = []" "fb_inv demo_kc vec_coder demo_ops demo_dev b"
    by (rule demo_rotate [OF inv e r])
  then have ro: "fb_rotate (en_ops demo_env) (en_dev demo_env) (fl_buffer f) (gs_device (ss_store s)) r = Some (Inr [], b, d')" by (simp add: demo_env_sel)
  show thesis
    by (rule that [OF _ b(2-6)], unfold demo_at_def, intro conjI, rule demo_step [OF at], rule flusher_op.fl_rotate [OF _ _ ro])
      (use at in \<open>simp_all add: demo_at_def set_flusher_def\<close>)
qed

lemma demo_push:
  assumes at: "demo_at s f (FPublish [] (Some (old, e))) clean [] q" and old: "\<forall>r. old = Some r \<longrightarrow> r < 4"
  obtains s' where "demo_at s' f (FRetry e) clean (case old of None \<Rightarrow> [] | Some r \<Rightarrow> [r]) q"
proof -
  obtain rm where rm: "flusher_push_old (en_ep demo_env) (gs_rm (ss_store s)) old = Some rm" "rm_clean_regions rm = rm_clean_regions (gs_rm (ss_store s))"
    "rf_queue (rm_eviction rm) = (case old of None \<Rightarrow> [] | Some r \<Rightarrow> [r])"
  proof (cases old)
    case None
    then show ?thesis using at that by (simp add: flusher_push_old_def demo_at_def)
  next
    case (Some r)
    have "rfifo_ok (rm_eviction (gs_rm (ss_store s)))" "r < length (rm_regions (gs_rm (ss_store s)))"
      using sys_invD(2) [OF demo_inv [of s]] at old Some by (simp_all add: demo_at_def rm_ok_def demo_env_sel demo_dev_sel)
    then show ?thesis using at that Some
      by (simp add: flusher_push_old_def demo_at_def demo_env_sel eviction_push_def ep_push_def rfifo_ops_def rfifo_insert_def rfifo_ok_def checked usize_lim_def)
  qed
  show thesis
    by (rule that, unfold demo_at_def, intro conjI, rule demo_step [OF at], rule flusher_op.fl_push [OF _ _ rm(1)])
      (use at rm in \<open>simp_all add: demo_at_def set_flusher_def\<close>)
qed

lemma demo_retry:
  assumes at: "demo_at s f (FRetry demo_entry) clean evict q" and inv: "fb_inv demo_kc vec_coder demo_ops demo_dev (fl_buffer f)"
    and b: "fb_region (fl_buffer f) = Some 0" "fb_offset (fl_buffer f) = 0" "length (fb_buffer (fl_buffer f)) = 32" "fb_entries (fl_buffer f) = []"
  obtains s' pe f' where "demo_at s' f' (FPublish [pe] None) clean evict q" "fb_region (fl_buffer f') = Some 0" "fb_offset (fl_buffer f') = 96"
    "fb_buffer (fl_buffer f') = []" "fb_entries (fl_buffer f') = []"
proof -
  obtain pe b' d' where w: "fb_write demo_ops demo_kc vec_coder demo_dev demo_entry (fl_buffer f) (gs_device (ss_store s)) = Some (Inr [pe], b', d')" "fb_region b' = Some 0"
    "fb_offset b' = 96" "fb_buffer b' = []" "fb_entries b' = []"
    by (rule demo_fits [OF inv b])
  have fw: "flusher_retry (en_ops demo_env) (en_kc demo_env) (en_vc demo_env) (en_dev demo_env) demo_entry f (gs_device (ss_store s)) = Some (Inr [pe], f\<lparr>fl_buffer := b'\<rparr>, d')"
    using w(1) by (simp add: flusher_retry_def flusher_write_def demo_env_sel)
  show thesis
    by (rule that [of _ "f\<lparr>fl_buffer := b'\<rparr>" pe], unfold demo_at_def, intro conjI, rule demo_step [OF at], rule flusher_op.fl_retry [OF _ _ fw])
      (use at w in \<open>simp_all add: demo_at_def set_flusher_def\<close>)
qed

lemma demo_publish:
  assumes at: "demo_at s f (FPublish [pe] None) clean evict q"
  obtains s' where "demo_at s' f FIdle clean evict q"
proof -
  have fl: "0 < length (ss_flushers s)" "ss_flushers s ! 0 = (f, FPublish [pe] None)" and reach: "demo_reach s" using at by (simp_all add: demo_at_def)
  obtain c rf where p: "publish_entry (en_hash demo_env) 5 (gs_rm (ss_store s)) pe (gs_catalog (ss_store s)) (gs_refs (ss_store s)) = Some (c, rf)"
    using demo_sys.publish_returns [OF demo_inv [OF reach] fl, where now = 5] by blast
  define s1 where "s1 = set_flusher 0 (f, FPublish [] None) (s\<lparr>ss_store := (ss_store s)\<lparr>gs_catalog := c, gs_refs := rf\<rparr>\<rparr>)"
  have "demo_reach s1" unfolding s1_def by (rule demo_step [OF at flusher_op.fl_publish [OF fl p]])
  then have s1: "demo_at s1 f (FPublish [] None) clean evict q" using at by (simp add: demo_at_def s1_def set_flusher_def)
  show thesis
    by (rule that, unfold demo_at_def, intro conjI, rule demo_step [OF s1], rule flusher_op.fl_done) (use s1 in \<open>simp_all add: demo_at_def set_flusher_def\<close>)
qed

lemma demo_evictable:
  obtains s f where "demo_at s f (FRetry demo_big) [2, 3] [0] []"
proof -
  obtain s0 f0 where 0: "demo_at s0 f0 FIdle [0, 1, 2, 3] [] [demo_entry, demo_big]" "fb_region (fl_buffer f0) = None" "fb_entries (fl_buffer f0) = []" by (rule demo_start)
  obtain s1 where 1: "demo_at s1 f0 (FAcquire None demo_entry) [0, 1, 2, 3] [] [demo_big]"
    by (rule demo_take [OF 0(1)]) (use 0(2) in \<open>simp_all add: fb_write_def\<close>)
  obtain s2 where 2: "demo_at s2 f0 (FRotate None 0 demo_entry) [1, 2, 3] [] [demo_big]" by (rule demo_acquire [OF 1])
  obtain s3 b where 3: "demo_at s3 (f0\<lparr>fl_buffer := b\<rparr>) (FPublish [] (Some (None, demo_entry))) [1, 2, 3] [] [demo_big]"
    "fb_region b = Some 0" "fb_offset b = 0" "length (fb_buffer b) = 32" "fb_entries b = []" "fb_inv demo_kc vec_coder demo_ops demo_dev b"
    by (rule demo_rotated [OF 2 0(3)]) simp_all
  obtain s4 where 4: "demo_at s4 (f0\<lparr>fl_buffer := b\<rparr>) (FRetry demo_entry) [1, 2, 3] [] [demo_big]" by (rule demo_push [OF 3(1)]) simp_all
  obtain s5 pe f5 where 5: "demo_at s5 f5 (FPublish [pe] None) [1, 2, 3] [] [demo_big]" "fb_region (fl_buffer f5) = Some 0" "fb_offset (fl_buffer f5) = 96"
    "fb_buffer (fl_buffer f5) = []" "fb_entries (fl_buffer f5) = []"
    by (rule demo_retry [OF 4]) (use 3 in simp_all)
  obtain s6 where 6: "demo_at s6 f5 FIdle [1, 2, 3] [] [demo_big]" by (rule demo_publish [OF 5(1)])
  have t: "demo_reach s6" "(f5, FIdle) \<in> set (ss_flushers s6)" using 6 by (simp_all add: demo_at_def)
  have inv: "fb_inv demo_kc vec_coder demo_ops demo_dev (fl_buffer f5)"
    using sys_invD(5) [OF demo_inv [OF t(1)] t(2)] by (simp add: task_ok_def demo_env_sel)
  obtain s7 where 7: "demo_at s7 f5 (FAcquire (Some 0) demo_big) [1, 2, 3] [] []"
    by (rule demo_take [OF 6 demo_turned_away [OF inv 5(2-4)]]) (simp add: 5(2))
  obtain s8 where 8: "demo_at s8 f5 (FRotate (Some 0) 1 demo_big) [2, 3] [] []" by (rule demo_acquire [OF 7])
  obtain s9 b9 where 9: "demo_at s9 (f5\<lparr>fl_buffer := b9\<rparr>) (FPublish [] (Some (Some 0, demo_big))) [2, 3] [] []" by (rule demo_rotated [OF 8 5(5)]) simp_all
  show thesis by (rule demo_push [OF 9]) (use that in simp_all)
qed

text \<open>The reclaimer waits for the readers of region 0, and it does not wait for long.\<close>

lemma take_items_keys:
  assumes "take_items hash ks c = Some (xs, c')" "distinct (map fst ks)"
  shows "distinct (map fst xs) \<and> fst ` set xs \<subseteq> fst ` set ks"
  using assms
proof (induction ks arbitrary: c xs)
  case (Cons p ks)
  obtain k sq where p: "p = (k, sq)" by force
  have "(\<exists>c1. take_items hash ks c1 = Some (xs, c')) \<or> (\<exists>c1 it ys. take_items hash ks c1 = Some (ys, c') \<and> xs = (k, it) # ys)"
    using Cons.prems(1) by (auto simp: p split: bind_splits option.splits if_splits)
  then show ?case
  proof (elim disjE exE conjE)
    fix c1 assume "take_items hash ks c1 = Some (xs, c')"
    then show ?thesis using Cons.IH Cons.prems(2) by auto
  next
    fix c1 it ys assume "take_items hash ks c1 = Some (ys, c')" "xs = (k, it) # ys"
    then show ?thesis using Cons.IH [of c1 ys] Cons.prems(2) p by auto
  qed
qed simp

lemma take_region_keys: "catalog_take_region hash r c = Some (xs, c') \<Longrightarrow> distinct (map fst xs)"
  by (auto simp: catalog_take_region_def split: bind_splits dest: take_items_keys [OF _ RBT.distinct_entries])

lemma demo_waiting:
  obtains s items where "demo_reach s" "views_fit (\<lambda>k. k) s" "ss_reclaimers s = [RWait 0 items]" "ss_readers s = []"
proof -
  obtain s f where at: "demo_at s f (FRetry demo_big) [2, 3] [0] []" by (rule demo_evictable)
  have reach: "demo_reach s" using at by (simp add: demo_at_def)
  note I = sys_invD [OF demo_inv [OF reach], unfolded demo_env_sel]
  obtain r rm where ev: "eviction_pop rfifo_ops (gs_rm (ss_store s)) = Some (r, rm)" "rm_ok rfifo_ok (\<lambda>f. set (rf_queue f)) (dv_regions demo_dev) rm"
    "case r of None \<Rightarrow> set (rf_queue (rm_eviction (gs_rm (ss_store s)))) = {} \<and> rm = gs_rm (ss_store s)
      | Some x \<Rightarrow> x < dv_regions demo_dev \<and> x \<in> set (rf_queue (rm_eviction (gs_rm (ss_store s)))) \<and> set (rf_queue (rm_eviction rm)) = set (rf_queue (rm_eviction (gs_rm (ss_store s)))) - {x}"
    using rfifo.eviction_pop_ok [OF I(2)] by blast
  have r: "r = Some 0" using ev(3) at by (auto simp: demo_at_def split: option.splits)
  have zero: "0 < dv_regions demo_dev" by (simp add: demo_dev_sel)
  obtain items c where c: "catalog_take_region (\<lambda>k. k) 0 (gs_catalog (ss_store s)) = Some (items, c)"
    using catalog_take_region_ok [OF I(1) zero] by blast
  obtain rg where rg: "rm_region rm 0 = Some rg" using rfifo.rm_region_ok [OF ev(2) zero] by blast
  define s' where "s' = set_reclaimer 0 (RWait 0 items) (s\<lparr>ss_store := (ss_store s)\<lparr>gs_rm := rm, gs_catalog := c\<rparr>\<rparr>)"
  have op: "reclaimer_op demo_env (sc_clean_region_threshold demo_config) 0 s s'" unfolding s'_def
    by (rule reclaimer_op.rc_take) (use at ev(1) c rg r in \<open>simp_all add: demo_at_def reclaim_take_def demo_env_sel demo_config_def queue_len_def\<close>)
  have fit: "views_fit (\<lambda>k. k) s" by (rule demo_fit) (use at in \<open>simp_all add: demo_at_def reclaim_items_def\<close>)
  have reach': "demo_reach s'" by (rule store_reachable.sys_reclaimer [OF reach _ op]) (use fit in \<open>simp add: demo_env_sel\<close>)
  show thesis
  proof (rule that [OF reach'])
    show "ss_reclaimers s' = [RWait 0 items]" "ss_readers s' = []" using at by (simp_all add: s'_def set_reclaimer_def demo_at_def)
    have "fst ` set items \<subseteq> fst ` demo_both"
      using catalog_take_region_ok [OF I(1) zero] c demo_sys.catalog_dom [OF demo_inv [OF reach]] at by (force simp: demo_at_def demo_env_sel)
    then have "card (fst ` set items) \<le> 2" using card_mono [of "fst ` demo_both" "fst ` set items"] by (simp add: demo_both_def)
    then have "length items \<le> 2" using distinct_card [OF take_region_keys [OF c]] by simp
    then show "views_fit (\<lambda>k. k) s'" by (intro demo_fit [OF reach']) (use at in \<open>simp_all add: s'_def set_reclaimer_def demo_at_def reclaim_items_def\<close>)
  qed
qed

lemma demo_ready:
  obtains s items where "demo_reach s" "ss_reclaimers s = [RReady 0 items]"
proof -
  obtain s items where s: "demo_reach s" "views_fit (\<lambda>k. k) s" "ss_reclaimers s = [RWait 0 items]" "ss_readers s = []" by (rule demo_waiting)
  have j: "0 < length (ss_reclaimers s)" "ss_reclaimers s ! 0 = RWait 0 items" using s(3) by simp_all
  have fit: "views_fit (en_hash demo_env) s" using s(2) by (simp add: demo_env_sel)
  have "reclaim_ready 0 items (gs_refs (ss_store s))" using demo_sys.ready_iff [OF demo_inv [OF s(1)] fit j] s(3,4) by simp
  from store_reachable.sys_reclaimer [OF s(1) fit reclaimer_op.rc_ready [OF j this]] have "demo_reach (set_reclaimer 0 (RReady 0 items) s)" .
  then show thesis by (rule that) (simp add: set_reclaimer_def s(3))
qed

end
