(* ===== verification/Store_Props.thy ===== *)
theory Store_Props
  imports Store_Demo
begin

text \<open>
  The properties of the store with its tasks. They hold in every state that clients, flushers and reclaimers reach together.
\<close>

section \<open>Properties\<close>



text \<open>C33. No region is in two places: in every reachable state the queue of clean regions, the eviction policy, the flushers and the
  reclaimers hold disjoint sets of regions, the clean queue has no region twice, and all of them are regions of the device.\<close>

theorem regions_owned_once:
  fixes env :: "('k::linorder, 'kc, 'v, 'vc, 'd, 'e, 'p, 'b) store_env"
  assumes sys: "store_system env fdata rsize abits ok members" and blank: "blank_device env fdata d" and fresh: "fresh_config ok members config"
    and reach: "store_reachable env config d s"
  shows "own_inv (dv_regions (en_dev env)) (regions_held members s) \<and> distinct (aq_queue (rm_clean_regions (gs_rm (ss_store s))))"
  using sys_invD(3,4) [OF store_system.reachable_inv [OF sys reach blank fresh]] by simp

theorem regions_owned_once_witness:
  "\<exists>s. store_reachable demo_env demo_config (\<lambda>_. []) s \<and> ss_inserted s = {(7, [1, 2, 3])} \<and>
     own_inv 4 (regions_held (\<lambda>f. set (rf_queue f)) s) \<and> distinct (aq_queue (rm_clean_regions (gs_rm (ss_store s))))"
proof -
  obtain s where s: "store_reachable demo_env demo_config (\<lambda>_. []) s" "ss_inserted s = {(7, [1, 2, 3])}" by (rule demo_inserted)
  with regions_owned_once [OF demo_sys.store_system_axioms demo_blank demo_fresh s(1)] show ?thesis
    by (intro exI [of _ s]) (simp add: demo_env_def demo_dev_sel)
qed

text \<open>C34. A reclaimer wipes and releases a region alone. Once its wait for the readers of region \<open>r\<close> is over and until it has released the
  region, no lookup holds a view of the region, no item of the catalog lies in it, no flusher has it, and it is neither among the clean nor among the evictable
  regions.\<close>

theorem reclaimer_alone:
  fixes env :: "('k::linorder, 'kc, 'v, 'vc, 'd, 'e, 'p, 'b) store_env"
  assumes sys: "store_system env fdata rsize abits ok members" and blank: "blank_device env fdata d" and fresh: "fresh_config ok members config"
    and reach: "store_reachable env config d s"
  shows "\<forall>r items. RReady r items \<in> set (ss_reclaimers s) \<or> RWiped r items \<in> set (ss_reclaimers s) \<longrightarrow>
    (\<forall>(k, v) \<in> set (ss_readers s). rv_id v \<noteq> r) \<and>
    (\<forall>k it v. catalog_map (en_hash env) (gs_catalog (ss_store s)) k = Some it \<longrightarrow> it_index it = RegionIx v \<longrightarrow> rv_id v \<noteq> r) \<and>
    (\<forall>t \<in> set (ss_flushers s). r \<notin> task_held t) \<and> r \<notin> set (aq_queue (rm_clean_regions (gs_rm (ss_store s)))) \<and>
    r \<notin> members (rm_eviction (gs_rm (ss_store s)))"
  using store_system.reclaiming_alone [OF sys store_system.reachable_inv [OF sys reach blank fresh]] by blast

theorem reclaimer_alone_witness:
  "\<exists>s items. store_reachable demo_env demo_config (\<lambda>_. []) s \<and> RReady 0 items \<in> set (ss_reclaimers s) \<and>
     0 \<notin> set (aq_queue (rm_clean_regions (gs_rm (ss_store s)))) \<and> 0 \<notin> set (rf_queue (rm_eviction (gs_rm (ss_store s))))"
proof -
  obtain s items where s: "demo_reach s" "ss_reclaimers s = [RReady 0 items]" by (rule demo_ready)
  with reclaimer_alone [OF demo_sys.store_system_axioms demo_blank demo_fresh s(1)] show ?thesis by (intro exI [of _ s] exI [of _ items]) simp
qed



end
