(* ===== verification/Policy_Lru.thy ===== *)
theory Policy_Lru
  imports Region_Manager
begin

text \<open>
  The policy \<^verbatim>\<open>Lru\<close> of \<^verbatim>\<open>foyer-intrusive/src/eviction/lru.rs\<close>. The list goes from the front to the back, which is evicted; new items go in front of the insertion
  point, and the items from there to the back are the tail. \<open>rlru_ok\<close> says that the flags and the counter describe the tail, and that
  something is in front of it when there are two items. The interpretation \<open>rlru\<close> is the interface of the region manager. It
  evicts from the back only; removing any other item can make an assertion fail.
\<close>

section \<open>Definitions\<close>

text \<open>Steps of an iterator over the list.\<close>

fun list_prev :: "nat list \<Rightarrow> nat \<Rightarrow> nat option" where
  "list_prev (a # b # xs) x = (if b = x then Some a else list_prev (b # xs) x)"
| "list_prev _ x = None"

fun list_next :: "nat list \<Rightarrow> nat \<Rightarrow> nat option" where
  "list_next (a # b # xs) x = (if a = x then Some b else list_next (b # xs) x)"
| "list_next _ x = None"

fun insert_before :: "nat \<Rightarrow> nat \<Rightarrow> nat list \<Rightarrow> nat list" where
  "insert_before x p [] = [x]"
| "insert_before x p (y # ys) = (if y = p then x # y # ys else y # insert_before x p ys)"

definition list_front :: "nat list \<Rightarrow> nat option" where
  "list_front xs = (case xs of [] \<Rightarrow> None | x # _ \<Rightarrow> Some x)"

definition list_back :: "nat list \<Rightarrow> nat option" where
  "list_back xs = (if xs = [] then None else Some (last xs))"

record RLru =
  rl_lru :: "nat list"
  rl_insertion_point :: "nat option"
  rl_tail_len :: usize
  rl_len :: usize
  rl_fraction :: f64
  rl_in_tail :: "nat \<Rightarrow> bool"

definition rlru_new :: "f64 \<Rightarrow> RLru" where
  "rlru_new fraction = \<lparr>rl_lru = [], rl_insertion_point = None, rl_tail_len = 0, rl_len = 0, rl_fraction = fraction, rl_in_tail = (\<lambda>_. False)\<rparr>"

definition expected_tail_len :: "(f64 \<Rightarrow> f64) \<Rightarrow> f64 \<Rightarrow> usize \<Rightarrow> usize" where
  "expected_tail_len rnd fraction n = f64_to_usize (rnd (f64_of_usize rnd n * rnd (1 - fraction)))"

function rlru_grow :: "usize \<Rightarrow> RLru \<Rightarrow> nat \<Rightarrow> (RLru \<times> nat) option" where
  "rlru_grow expected f cur =
     (if rl_tail_len f < expected \<and> Some cur \<noteq> list_front (rl_lru f) then do {
        cur' \<leftarrow> list_prev (rl_lru f) cur;
        n \<leftarrow> uadd (rl_tail_len f) 1;
        rlru_grow expected (f\<lparr>rl_tail_len := n, rl_in_tail := (rl_in_tail f)(cur' := True)\<rparr>) cur'
      } else Some (f, cur))"
  by pat_completeness auto
termination
  by (relation "measure (\<lambda>(expected, f, cur). expected - rl_tail_len f)") (auto simp: uadd_eq_Some)

function rlru_shrink :: "usize \<Rightarrow> RLru \<Rightarrow> nat \<Rightarrow> (RLru \<times> nat) option" where
  "rlru_shrink expected f cur =
     (if rl_tail_len f > expected \<and> Some cur \<noteq> list_back (rl_lru f) then do {
        n \<leftarrow> usub (rl_tail_len f) 1;
        cur' \<leftarrow> list_next (rl_lru f) cur;
        rlru_shrink expected (f\<lparr>rl_tail_len := n, rl_in_tail := (rl_in_tail f)(cur := False)\<rparr>) cur'
      } else Some (f, cur))"
  by pat_completeness auto
termination
  by (relation "measure (\<lambda>(expected, f, cur). rl_tail_len f)") (auto simp: usub_eq_Some)

declare rlru_grow.simps [simp del] rlru_shrink.simps [simp del]

definition update_lru_insertion_point :: "(f64 \<Rightarrow> f64) \<Rightarrow> RLru \<Rightarrow> RLru option" where
  "update_lru_insertion_point rnd f = (if rl_fraction f = 0 then Some f else do {
     let f1 = (if rl_insertion_point f = None then (case list_back (rl_lru f) of
           None \<Rightarrow> f\<lparr>rl_tail_len := 0\<rparr>
         | Some b \<Rightarrow> f\<lparr>rl_insertion_point := Some b, rl_tail_len := 1, rl_in_tail := (rl_in_tail f)(b := True)\<rparr>) else f);
     if length (rl_lru f1) \<le> 1 then Some f1 else do {
       cur \<leftarrow> rl_insertion_point f1;
       let expected = expected_tail_len rnd (rl_fraction f1) (length (rl_lru f1));
       (f2, cur2) \<leftarrow> rlru_grow expected f1 cur;
       (f3, cur3) \<leftarrow> rlru_shrink expected f2 cur2;
       Some (f3\<lparr>rl_insertion_point := Some cur3\<rparr>)
     }
   })"

definition ensure_not_insertion_point :: "RLru \<Rightarrow> nat \<Rightarrow> RLru option" where
  "ensure_not_insertion_point f x = (if rl_insertion_point f = Some x then (case list_prev (rl_lru f) x of
       Some p \<Rightarrow> do {
         n \<leftarrow> uadd (rl_tail_len f) 1;
         Some (f\<lparr>rl_insertion_point := Some p, rl_tail_len := n, rl_in_tail := (rl_in_tail f)(p := True)\<rparr>)
       }
     | None \<Rightarrow> do {
         ensure (length (rl_lru f) = 1);
         Some (f\<lparr>rl_insertion_point := None\<rparr>)
       }) else Some f)"

definition insert_lru :: "RLru \<Rightarrow> nat \<Rightarrow> RLru" where
  "insert_lru f x = f\<lparr>rl_lru := (case rl_insertion_point f of Some p \<Rightarrow> insert_before x p (rl_lru f) | None \<Rightarrow> x # rl_lru f)\<rparr>"

definition rlru_insert :: "(f64 \<Rightarrow> f64) \<Rightarrow> RLru \<Rightarrow> nat \<Rightarrow> RLru option" where
  "rlru_insert rnd f x = do {
     ensure (x \<notin> set (rl_lru f));
     f2 \<leftarrow> update_lru_insertion_point rnd (insert_lru f x);
     n \<leftarrow> uadd (rl_len f2) 1;
     Some (f2\<lparr>rl_len := n\<rparr>)
   }"

definition rlru_remove :: "RLru \<Rightarrow> nat \<Rightarrow> RLru option" where
  "rlru_remove f x = do {
     ensure (x \<in> set (rl_lru f));
     f1 \<leftarrow> ensure_not_insertion_point f x;
     let f2 = f1\<lparr>rl_lru := remove1 x (rl_lru f1)\<rparr>;
     f3 \<leftarrow> (if rl_in_tail f2 x then do {
       n \<leftarrow> usub (rl_tail_len f2) 1;
       Some (f2\<lparr>rl_tail_len := n, rl_in_tail := (rl_in_tail f2)(x := False)\<rparr>)
     } else Some f2);
     n \<leftarrow> usub (rl_len f3) 1;
     Some (f3\<lparr>rl_len := n\<rparr>)
   }"

definition rlru_access :: "(f64 \<Rightarrow> f64) \<Rightarrow> RLru \<Rightarrow> nat \<Rightarrow> RLru option" where
  "rlru_access rnd f x = do {
     ensure (x \<in> set (rl_lru f));
     f1 \<leftarrow> ensure_not_insertion_point f x;
     let f2 = f1\<lparr>rl_lru := x # remove1 x (rl_lru f1)\<rparr>;
     if rl_in_tail f2 x then do {
       n \<leftarrow> usub (rl_tail_len f2) 1;
       update_lru_insertion_point rnd (f2\<lparr>rl_tail_len := n, rl_in_tail := (rl_in_tail f2)(x := False)\<rparr>)
     } else Some f2
   }"

definition rlru_first :: "RLru \<Rightarrow> nat option" where
  "rlru_first f = list_back (rl_lru f)"

definition rlru_ops :: "(f64 \<Rightarrow> f64) \<Rightarrow> RLru ep_ops" where
  "rlru_ops rnd = \<lparr>ep_insert = rlru_insert rnd, ep_remove = rlru_remove, ep_access = rlru_access rnd, ep_first = rlru_first,
     ep_len = rl_len, ep_linked = (\<lambda>f x. x \<in> set (rl_lru f))\<rparr>"

section \<open>The tail\<close>

text \<open>The list is \<open>pre @ post\<close>, and \<open>post\<close> is the tail.\<close>

definition rlru_tail :: "RLru \<Rightarrow> nat list \<Rightarrow> nat list \<Rightarrow> bool" where
  "rlru_tail f pre post \<longleftrightarrow> rl_lru f = pre @ post \<and> distinct (pre @ post) \<and> rl_tail_len f = length post \<and> rl_in_tail f = (\<lambda>x. x \<in> set post) \<and>
     rl_insertion_point f = list_front post"

definition rlru_ok :: "(f64 \<Rightarrow> f64) \<Rightarrow> RLru \<Rightarrow> bool" where
  "rlru_ok rnd f \<longleftrightarrow> (\<exists>pre post. rlru_tail f pre post \<and>
       (if rl_fraction f = 0 then post = [] else (pre \<noteq> [] \<longrightarrow> post \<noteq> []) \<and> (1 < length (pre @ post) \<longrightarrow> pre \<noteq> []))) \<and>
     rl_len f = length (rl_lru f) \<and> length (rl_lru f) \<le> 2 ^ 32 \<and> (rl_fraction f \<noteq> 0 \<longrightarrow> (\<forall>n > 1. expected_tail_len rnd (rl_fraction f) n < n))"

lemma list_prev_mid: "b \<notin> set xs \<Longrightarrow> a \<noteq> b \<Longrightarrow> list_prev (xs @ a # b # ys) b = Some a"
proof (induction xs)
  case (Cons x xs)
  then show ?case by (cases xs) auto
qed simp

lemma list_prev_front: "b \<notin> set ys \<Longrightarrow> list_prev (b # ys) b = None"
proof (induction ys arbitrary: b)
  case (Cons y ys)
  have "list_prev (y # ys) b = None" using Cons.prems
  proof (induction ys arbitrary: y)
    case (Cons z zs)
    then show ?case by simp
  qed simp
  then show ?case using Cons.prems by simp
qed simp

lemma list_next_mid: "a \<notin> set xs \<Longrightarrow> list_next (xs @ a # b # ys) a = Some b"
proof (induction xs)
  case (Cons x xs)
  then show ?case by (cases xs) auto
qed simp

lemma insert_before_mid: "p \<notin> set pre \<Longrightarrow> insert_before x p (pre @ p # post) = pre @ x # p # post"
  by (induction pre) auto

lemma grow_ok:
  assumes "rl_lru f = pre @ post" "distinct (pre @ post)" "post \<noteq> []" "rl_tail_len f = length post" "rl_in_tail f = (\<lambda>x. x \<in> set post)"
    "length (pre @ post) < usize_lim" "pre \<noteq> []" "expected < length (pre @ post)"
  shows "\<exists>pre' post'. rlru_grow expected f (hd post) = Some (f\<lparr>rl_tail_len := length post', rl_in_tail := (\<lambda>x. x \<in> set post')\<rparr>, hd post') \<and>
    pre @ post = pre' @ post' \<and> post' \<noteq> [] \<and> pre' \<noteq> []"
  using assms
proof (induction pre arbitrary: f post rule: rev_induct)
  case (snoc a pre)
  obtain b ys where post: "post = b # ys" using snoc.prems(3) by (cases post) auto
  show ?case
  proof (cases "length post < expected")
    case False
    then show ?thesis using snoc.prems by (subst rlru_grow.simps) (rule exI [of _ "pre @ [a]"], rule exI [of _ post], simp)
  next
    case True
    have ne: "Some (hd post) \<noteq> list_front (rl_lru f)" using snoc.prems(1,2) post by (cases pre) (auto simp: list_front_def)
    have prev: "list_prev (rl_lru f) (hd post) = Some a" using snoc.prems(1,2) post list_prev_mid [of b pre a ys] by auto
    have add: "uadd (rl_tail_len f) 1 = Some (Suc (length post))" using snoc.prems(4,6) by (simp add: checked)
    have pre: "pre \<noteq> []" using True snoc.prems(8) by auto
    let ?f = "f\<lparr>rl_tail_len := Suc (length post), rl_in_tail := (rl_in_tail f)(a := True)\<rparr>"
    have step: "rlru_grow expected f (hd post) = rlru_grow expected ?f a"
      using True ne prev add snoc.prems(4) by (subst rlru_grow.simps) simp
    have "\<exists>pre' post'. rlru_grow expected ?f (hd (a # post)) = Some (?f\<lparr>rl_tail_len := length post', rl_in_tail := (\<lambda>x. x \<in> set post')\<rparr>, hd post') \<and>
        pre @ a # post = pre' @ post' \<and> post' \<noteq> [] \<and> pre' \<noteq> []"
      by (rule snoc.IH) (use snoc.prems pre in \<open>auto simp: fun_eq_iff\<close>)
    then show ?thesis unfolding step by simp
  qed
qed simp

lemma shrink_ok:
  assumes "rl_lru f = pre @ post" "distinct (pre @ post)" "post \<noteq> []" "rl_tail_len f = length post" "rl_in_tail f = (\<lambda>x. x \<in> set post)" "pre \<noteq> []"
  shows "\<exists>pre' post'. rlru_shrink expected f (hd post) = Some (f\<lparr>rl_tail_len := length post', rl_in_tail := (\<lambda>x. x \<in> set post')\<rparr>, hd post') \<and>
    pre @ post = pre' @ post' \<and> post' \<noteq> [] \<and> pre' \<noteq> []"
  using assms
proof (induction post arbitrary: f pre)
  case (Cons b ys)
  show ?case
  proof (cases "length (b # ys) > expected \<and> ys \<noteq> []")
    case False
    then have "\<not> (rl_tail_len f > expected \<and> Some b \<noteq> list_back (rl_lru f))" using Cons.prems(1,4) by (auto simp: list_back_def)
    then have "rlru_shrink expected f b = Some (f, b)" by (subst rlru_shrink.simps) auto
    then show ?thesis using Cons.prems by (intro exI [where x = pre] exI [where x = "b # ys"]) simp
  next
    case True
    then obtain c zs where ys: "ys = c # zs" by (cases ys) auto
    have ne: "Some b \<noteq> list_back (rl_lru f)" using Cons.prems(1,2) ys by (auto simp: list_back_def)
    have nxt: "list_next (rl_lru f) b = Some c" using Cons.prems(1,2) ys list_next_mid [of b pre c zs] by simp
    let ?f = "f\<lparr>rl_tail_len := length ys, rl_in_tail := (rl_in_tail f)(b := False)\<rparr>"
    have step: "rlru_shrink expected f b = rlru_shrink expected ?f c"
      using True ne nxt Cons.prems(4) by (subst rlru_shrink.simps) (simp add: checked ys)
    have "\<exists>pre' post'. rlru_shrink expected ?f (hd ys) = Some (?f\<lparr>rl_tail_len := length post', rl_in_tail := (\<lambda>x. x \<in> set post')\<rparr>, hd post') \<and>
        (pre @ [b]) @ ys = pre' @ post' \<and> post' \<noteq> [] \<and> pre' \<noteq> []"
      by (rule Cons.IH) (use Cons.prems ys in \<open>auto simp: fun_eq_iff\<close>)
    then show ?thesis using step ys by simp
  qed
qed simp

lemma update_ok:
  assumes t: "rlru_tail f pre post" and ne: "rl_lru f \<noteq> []" and lim: "length (rl_lru f) \<le> 2 ^ 32" and front: "rl_fraction f \<noteq> 0 \<longrightarrow> post \<noteq> [] \<longrightarrow> 1 < length (pre @ post) \<longrightarrow> pre \<noteq> []"
    and exp: "rl_fraction f \<noteq> 0 \<longrightarrow> (\<forall>n > 1. expected_tail_len rnd (rl_fraction f) n < n)" and zero: "rl_fraction f = 0 \<longrightarrow> post = []"
  shows "\<exists>f' pre' post'. update_lru_insertion_point rnd f = Some f' \<and> rlru_tail f' pre' post' \<and> pre' @ post' = pre @ post \<and> rl_len f' = rl_len f \<and>
    rl_fraction f' = rl_fraction f \<and> (if rl_fraction f = 0 then post' = [] else post' \<noteq> [] \<and> (1 < length (pre' @ post') \<longrightarrow> pre' \<noteq> []))"
proof (cases "rl_fraction f = 0")
  case True
  then show ?thesis using t zero by (intro exI [of _ f] exI) (auto simp: update_lru_insertion_point_def)
next
  case False
  note T = t [unfolded rlru_tail_def]
  obtain f1 pre1 post1 where f1: "f1 = (if rl_insertion_point f = None then (case list_back (rl_lru f) of
           None \<Rightarrow> f\<lparr>rl_tail_len := 0\<rparr>
         | Some b \<Rightarrow> f\<lparr>rl_insertion_point := Some b, rl_tail_len := 1, rl_in_tail := (rl_in_tail f)(b := True)\<rparr>) else f)"
    and t1: "rlru_tail f1 pre1 post1" "pre1 @ post1 = pre @ post" "post1 \<noteq> []" "1 < length (pre1 @ post1) \<longrightarrow> pre1 \<noteq> []" "rl_len f1 = rl_len f" "rl_fraction f1 = rl_fraction f"
  proof (cases post)
    case Nil
    obtain ys b where ys: "rl_lru f = ys @ [b]" using ne by (cases "rl_lru f" rule: rev_cases) auto
    then have "pre = ys @ [b]" using T Nil by simp
    from T [unfolded this Nil] show ?thesis
      by (intro that [OF refl, of ys "[b]"]) (auto simp: \<open>pre = ys @ [b]\<close> Nil list_front_def list_back_def rlru_tail_def fun_eq_iff)
  next
    case (Cons p ps)
    then show ?thesis by (intro that [OF refl, of pre post]) (use t T front False in \<open>auto simp: list_front_def\<close>)
  qed
  note T1 = t1(1) [unfolded rlru_tail_def]
  have len: "length (rl_lru f1) = length (rl_lru f)" using T1 T t1(2) by simp
  show ?thesis
  proof (cases "length (rl_lru f1) \<le> 1")
    case True
    have "update_lru_insertion_point rnd f = Some f1" using False True by (simp add: update_lru_insertion_point_def f1 [symmetric] Let_def)
    then show ?thesis using t1 False by (intro exI [where x = f1] exI [where x = pre1] exI [where x = post1]) simp
  next
    case long: False
    define e where "e = expected_tail_len rnd (rl_fraction f1) (length (rl_lru f1))"
    have e: "e < length (pre1 @ post1)" using exp False long T1 t1(6) by (simp add: e_def)
    have lim1: "length (pre1 @ post1) < usize_lim" using lim len T1 by (simp add: usize_lim_def)
    have pre1: "pre1 \<noteq> []" using t1(4) long T1 by simp
    have ip: "rl_insertion_point f1 = Some (hd post1)" using T1 t1(3) by (cases post1) (simp_all add: list_front_def)
    have s1: "rl_lru f1 = pre1 @ post1" "distinct (pre1 @ post1)" "rl_tail_len f1 = length post1" "rl_in_tail f1 = (\<lambda>x. x \<in> set post1)" using T1 by simp_all
    obtain pre2 post2 where 2: "rlru_grow e f1 (hd post1) = Some (f1\<lparr>rl_tail_len := length post2, rl_in_tail := (\<lambda>x. x \<in> set post2)\<rparr>, hd post2)"
      "pre1 @ post1 = pre2 @ post2" "post2 \<noteq> []" "pre2 \<noteq> []"
      using grow_ok [OF s1(1,2) t1(3) s1(3,4) lim1 pre1 e] by blast
    let ?f2 = "f1\<lparr>rl_tail_len := length post2, rl_in_tail := (\<lambda>x. x \<in> set post2)\<rparr>"
    obtain pre3 post3 where 3: "rlru_shrink e ?f2 (hd post2) = Some (?f2\<lparr>rl_tail_len := length post3, rl_in_tail := (\<lambda>x. x \<in> set post3)\<rparr>, hd post3)"
      "pre2 @ post2 = pre3 @ post3" "post3 \<noteq> []" "pre3 \<noteq> []"
      using shrink_ok [of ?f2 pre2 post2 e] 2 s1(1,2) by (auto simp: 2(2))
    let ?f3 = "?f2\<lparr>rl_tail_len := length post3, rl_in_tail := (\<lambda>x. x \<in> set post3), rl_insertion_point := Some (hd post3)\<rparr>"
    have "update_lru_insertion_point rnd f = Some ?f3"
      using False long ip 2(1) 3(1) by (simp add: update_lru_insertion_point_def f1 [symmetric] Let_def e_def [symmetric])
    moreover have "rlru_tail ?f3 pre3 post3" using s1 2(2) 3(2,3) by (cases post3) (simp_all add: rlru_tail_def list_front_def)
    moreover have "pre3 @ post3 = pre @ post" using t1(2) 2(2) 3(2) by simp
    ultimately show ?thesis using 3(3,4) t1(5,6) False by (intro exI [of _ ?f3] exI [of _ pre3] exI [of _ post3]) auto
  qed
qed

section \<open>The operations\<close>

lemma rlru_insert_ok:
  assumes ok: "rlru_ok rnd f" and x: "x \<notin> set (rl_lru f)" and lim: "length (rl_lru f) < 2 ^ 32"
  shows "\<exists>f'. rlru_insert rnd f x = Some f' \<and> rlru_ok rnd f' \<and> set (rl_lru f') = insert x (set (rl_lru f))"
proof -
  obtain pre post where t: "rlru_tail f pre post" "if rl_fraction f = 0 then post = [] else (pre \<noteq> [] \<longrightarrow> post \<noteq> []) \<and> (1 < length (pre @ post) \<longrightarrow> pre \<noteq> [])"
    and len: "rl_len f = length (rl_lru f)" and exp: "rl_fraction f \<noteq> 0 \<longrightarrow> (\<forall>n > 1. expected_tail_len rnd (rl_fraction f) n < n)"
    using ok by (auto simp: rlru_ok_def)
  note T = t(1) [unfolded rlru_tail_def]
  define f1 where "f1 = f\<lparr>rl_lru := (case rl_insertion_point f of Some p \<Rightarrow> insert_before x p (rl_lru f) | None \<Rightarrow> x # rl_lru f)\<rparr>"
  define pre1 where "pre1 = (case post of [] \<Rightarrow> x # pre | _ \<Rightarrow> pre @ [x])"
  have l1: "rl_lru f1 = pre1 @ post" using T insert_before_mid by (cases post) (auto simp: f1_def pre1_def list_front_def)
  then have t1: "rlru_tail f1 pre1 post" using T x by (cases post) (auto simp: rlru_tail_def f1_def pre1_def list_front_def fun_eq_iff)
  have s1: "set (pre1 @ post) = insert x (set (rl_lru f))" "length (pre1 @ post) = Suc (length (rl_lru f))" "pre1 \<noteq> []"
    using T by (auto simp: pre1_def split: list.splits)
  obtain f' pre' post' where u: "update_lru_insertion_point rnd f1 = Some f'" "rlru_tail f' pre' post'" "pre' @ post' = pre1 @ post" "rl_len f' = rl_len f1"
    "rl_fraction f' = rl_fraction f1" "if rl_fraction f1 = 0 then post' = [] else post' \<noteq> [] \<and> (1 < length (pre' @ post') \<longrightarrow> pre' \<noteq> [])"
    using update_ok [OF t1, of rnd] s1 lim exp l1 t(2) by (auto simp: f1_def)
  have l: "rl_lru f' = pre1 @ post" using u(2,3) by (simp add: rlru_tail_def)
  have add: "uadd (rl_len f') 1 = Some (Suc (length (rl_lru f)))" using u(4) len lim by (simp add: f1_def checked usize_lim_def)
  have "rlru_insert rnd f x = Some (f'\<lparr>rl_len := Suc (length (rl_lru f))\<rparr>)"
    using x u(1) add by (simp add: rlru_insert_def insert_lru_def Let_def f1_def [symmetric])
  moreover have "rlru_ok rnd (f'\<lparr>rl_len := Suc (length (rl_lru f))\<rparr>)"
    unfolding rlru_ok_def
  proof (intro conjI)
    show "\<exists>pre post. rlru_tail (f'\<lparr>rl_len := Suc (length (rl_lru f))\<rparr>) pre post \<and>
        (if rl_fraction (f'\<lparr>rl_len := Suc (length (rl_lru f))\<rparr>) = 0 then post = [] else (pre \<noteq> [] \<longrightarrow> post \<noteq> []) \<and> (1 < length (pre @ post) \<longrightarrow> pre \<noteq> []))"
      by (rule exI [of _ pre'], rule exI [of _ post']) (use u(2,5,6) in \<open>auto simp: rlru_tail_def f1_def split: if_splits\<close>)
  qed (use l s1 lim exp u(5) in \<open>simp_all add: f1_def\<close>)
  ultimately show ?thesis using l s1(1) by auto
qed

lemma ensure_skip: "rl_insertion_point f \<noteq> Some x \<Longrightarrow> ensure_not_insertion_point f x = Some f"
  by (simp add: ensure_not_insertion_point_def)

text \<open>The insertion point moves away from the item: afterwards the tail begins one item earlier, or the item is the only one.\<close>

lemma ensure_moves:
  assumes t: "rlru_tail f pre (x # post)" and lim: "length (rl_lru f) \<le> 2 ^ 32"
  shows "pre = [] \<Longrightarrow> post = [] \<Longrightarrow> ensure_not_insertion_point f x = Some (f\<lparr>rl_insertion_point := None\<rparr>)"
    and "pre = pre' @ [a] \<Longrightarrow> \<exists>f'. ensure_not_insertion_point f x = Some f' \<and> rlru_tail f' pre' (a # x # post) \<and> rl_len f' = rl_len f \<and> rl_fraction f' = rl_fraction f"
    and "pre = [] \<Longrightarrow> post \<noteq> [] \<Longrightarrow> ensure_not_insertion_point f x = None"
proof -
  note T = t [unfolded rlru_tail_def]
  have ip: "rl_insertion_point f = Some x" using T by (simp add: list_front_def)
  show "ensure_not_insertion_point f x = Some (f\<lparr>rl_insertion_point := None\<rparr>)" if "pre = []" "post = []"
    using T ip that by (simp add: ensure_not_insertion_point_def)
  show "ensure_not_insertion_point f x = None" if "pre = []" "post \<noteq> []"
    using T ip that list_prev_front [of x post] by (simp add: ensure_not_insertion_point_def)
  show "\<exists>f'. ensure_not_insertion_point f x = Some f' \<and> rlru_tail f' pre' (a # x # post) \<and> rl_len f' = rl_len f \<and> rl_fraction f' = rl_fraction f"
    if pre: "pre = pre' @ [a]"
  proof -
    have prev: "list_prev (rl_lru f) x = Some a" using T pre list_prev_mid [of x pre' a post] by auto
    have add: "uadd (rl_tail_len f) 1 = Some (Suc (Suc (length post)))" using T lim by (simp add: checked usize_lim_def)
    show ?thesis using ip prev add T pre by (auto simp: ensure_not_insertion_point_def rlru_tail_def list_front_def fun_eq_iff)
  qed
qed

lemma remove1_append': "distinct (xs @ ys) \<Longrightarrow> remove1 x (xs @ ys) = remove1 x xs @ remove1 x ys"
  by (simp add: remove1_append remove1_idem) (metis disjoint_iff remove1_idem)

lemma front_remove1: "list_front ys \<noteq> Some x \<Longrightarrow> list_front (remove1 x ys) = list_front ys"
  by (cases ys) (auto simp: list_front_def)

text \<open>Taking an item that is not the insertion point out of the list or to its front.\<close>

lemma unlink_tail:
  assumes t: "rlru_tail f pre post" and x: "x \<in> set (pre @ post)" "list_front post \<noteq> Some x"
  shows "rlru_tail (if rl_in_tail f x then f\<lparr>rl_lru := remove1 x (rl_lru f), rl_tail_len := rl_tail_len f - 1, rl_in_tail := (rl_in_tail f)(x := False)\<rparr>
      else f\<lparr>rl_lru := remove1 x (rl_lru f)\<rparr>) (remove1 x pre) (remove1 x post)" (is ?rem)
    and "rlru_tail (if rl_in_tail f x then f\<lparr>rl_lru := x # remove1 x (rl_lru f), rl_tail_len := rl_tail_len f - 1, rl_in_tail := (rl_in_tail f)(x := False)\<rparr>
      else f\<lparr>rl_lru := x # remove1 x (rl_lru f)\<rparr>) (x # remove1 x pre) (remove1 x post)" (is ?acc)
    and "rl_in_tail f x \<Longrightarrow> 1 \<le> rl_tail_len f"
proof -
  note T = t [unfolded rlru_tail_def]
  have d: "distinct (remove1 x pre @ remove1 x post)" "x \<notin> set (remove1 x pre @ remove1 x post)" using T by (auto dest: in_set_remove1 simp: set_remove1_eq)
  have s: "set (remove1 x post) = set post - {x}" using T by (simp add: set_remove1_eq)
  have n: "length (remove1 x post) = (if x \<in> set post then length post - 1 else length post)" by (simp add: length_remove1)
  have r: "remove1 x (rl_lru f) = remove1 x pre @ remove1 x post" using T remove1_append' [of pre post x] by simp
  show ?rem ?acc using T d s n r front_remove1 [OF x(2)] by (auto simp: rlru_tail_def fun_eq_iff)
  show "1 \<le> rl_tail_len f" if "rl_in_tail f x" using that T by (cases post) auto
qed

lemma rlru_pop_ok:
  assumes ok: "rlru_ok rnd f" and x: "rlru_first f = Some x"
  shows "\<exists>f'. rlru_remove f x = Some f' \<and> rlru_ok rnd f' \<and> set (rl_lru f') = set (rl_lru f) - {x}"
proof -
  obtain pre post where t: "rlru_tail f pre post" "if rl_fraction f = 0 then post = [] else (pre \<noteq> [] \<longrightarrow> post \<noteq> []) \<and> (1 < length (pre @ post) \<longrightarrow> pre \<noteq> [])"
    and len: "rl_len f = length (rl_lru f)" "length (rl_lru f) \<le> 2 ^ 32" and exp: "rl_fraction f \<noteq> 0 \<longrightarrow> (\<forall>n > 1. expected_tail_len rnd (rl_fraction f) n < n)"
    using ok by (auto simp: rlru_ok_def)
  note T = t(1) [unfolded rlru_tail_def]
  have lx: "rl_lru f \<noteq> []" "x = last (pre @ post)" using x T by (auto simp: rlru_first_def list_back_def split: if_splits)
  then have xin: "x \<in> set (rl_lru f)" using T last_in_set [of "pre @ post"] by simp
  show ?thesis
  proof (cases "pre = [] \<and> post = [x]")
    case True
    have t1: "rlru_tail f [] (x # [])" using t(1) True by simp
    have sub: "usub (rl_tail_len f) 1 = Some 0" "usub (rl_len f) 1 = Some 0" using T len True by (simp_all add: checked)
    have "rlru_remove f x = Some (f\<lparr>rl_insertion_point := None, rl_lru := [], rl_tail_len := 0, rl_in_tail := (rl_in_tail f)(x := False), rl_len := 0\<rparr>)"
      using ensure_moves(1) [OF t1 len(2)] sub T True by (simp add: rlru_remove_def)
    moreover have "rlru_ok rnd (f\<lparr>rl_insertion_point := None, rl_lru := [], rl_tail_len := 0, rl_in_tail := (rl_in_tail f)(x := False), rl_len := 0\<rparr>)"
      using T True exp by (auto simp: rlru_ok_def rlru_tail_def list_front_def fun_eq_iff)
    ultimately show ?thesis using T True by auto
  next
    case False
    obtain f1 pre1 post1 where e: "ensure_not_insertion_point f x = Some f1" "rlru_tail f1 pre1 post1" "pre1 @ post1 = pre @ post" "list_front post1 \<noteq> Some x"
      "rl_len f1 = rl_len f" "rl_fraction f1 = rl_fraction f" "rl_fraction f = 0 \<longrightarrow> post1 = []"
      "rl_fraction f \<noteq> 0 \<longrightarrow> remove1 x post1 \<noteq> [] \<and> (1 < length (remove1 x pre1 @ remove1 x post1) \<longrightarrow> remove1 x pre1 \<noteq> [])"
    proof (cases "list_front post = Some x")
      case True
      then obtain ps where ps: "post = x # ps" by (cases post) (auto simp: list_front_def)
      have "ps = []"
      proof (rule ccontr)
        assume "ps \<noteq> []"
        then have "last ps = x" using lx(2) ps by simp
        then show False using T ps \<open>ps \<noteq> []\<close> last_in_set by fastforce
      qed
      then have post: "post = [x]" using ps by simp
      then obtain pre' a where pre: "pre = pre' @ [a]" using False by (cases pre rule: rev_cases) auto
      have tx: "rlru_tail f pre (x # [])" using t(1) post by simp
      obtain f1 where "ensure_not_insertion_point f x = Some f1" "rlru_tail f1 pre' (a # x # [])" "rl_len f1 = rl_len f" "rl_fraction f1 = rl_fraction f"
        using ensure_moves(2) [OF tx len(2) pre] by blast
      then show ?thesis using T t(2) pre post by (intro that [of f1 pre' "[a, x]"]) (auto simp: list_front_def split: if_splits)
    next
      case nf: False
      have "rl_insertion_point f \<noteq> Some x" using T nf by simp
      moreover have "remove1 x post \<noteq> []" "1 < length (remove1 x pre @ remove1 x post) \<longrightarrow> remove1 x pre \<noteq> []" if "rl_fraction f \<noteq> 0"
      proof -
        have post: "post \<noteq> []" using that t(2) lx(1) T by auto
        then have "x \<in> set post" using lx(2) last_in_set [OF post] by simp
        then have "x \<notin> set pre" using T by auto
        then have r: "remove1 x pre = pre" by (rule remove1_idem)
        show "remove1 x post \<noteq> []" using post nf by (cases post) (auto simp: list_front_def)
        have "length (remove1 x post) \<le> length post" by (simp add: length_remove1)
        then show "1 < length (remove1 x pre @ remove1 x post) \<longrightarrow> remove1 x pre \<noteq> []" unfolding r using t(2) that by auto
      qed
      ultimately show ?thesis using t T nf ensure_skip by (intro that [of f pre post]) (auto split: if_splits)
    qed
    have xin1: "x \<in> set (pre1 @ post1)" using xin T e(3) by simp
    define f3 where "f3 = (if rl_in_tail f1 x then f1\<lparr>rl_lru := remove1 x (rl_lru f1), rl_tail_len := rl_tail_len f1 - 1, rl_in_tail := (rl_in_tail f1)(x := False)\<rparr>
        else f1\<lparr>rl_lru := remove1 x (rl_lru f1)\<rparr>)"
    note u = unlink_tail(1,3) [OF e(2) xin1 e(4), folded f3_def]
    have l1: "rl_lru f1 = rl_lru f" using e(2,3) T by (simp add: rlru_tail_def)
    have sub: "usub (rl_len f) 1 = Some (length (rl_lru f) - 1)" using len(1) lx(1) by (cases "rl_lru f") (simp_all add: checked)
    have "rlru_remove f x = Some (f3\<lparr>rl_len := length (rl_lru f) - 1\<rparr>)"
      using e(1,5) xin sub u(2) by (simp add: rlru_remove_def f3_def Let_def checked)
    moreover have "rlru_ok rnd (f3\<lparr>rl_len := length (rl_lru f) - 1\<rparr>)"
      unfolding rlru_ok_def
    proof (intro conjI)
      show "\<exists>pre post. rlru_tail (f3\<lparr>rl_len := length (rl_lru f) - 1\<rparr>) pre post \<and>
          (if rl_fraction (f3\<lparr>rl_len := length (rl_lru f) - 1\<rparr>) = 0 then post = [] else (pre \<noteq> [] \<longrightarrow> post \<noteq> []) \<and> (1 < length (pre @ post) \<longrightarrow> pre \<noteq> []))"
        by (rule exI [of _ "remove1 x pre1"], rule exI [of _ "remove1 x post1"]) (use u(1) e(6-8) in \<open>auto simp: rlru_tail_def f3_def\<close>)
    qed (use l1 xin len exp e(6) in \<open>auto simp: f3_def length_remove1\<close>)
    moreover have "set (rl_lru f3) = set (rl_lru f) - {x}" using l1 T by (auto simp: f3_def set_remove1_eq)
    ultimately show ?thesis by auto
  qed
qed

lemma rlru_access_ok:
  assumes ok: "rlru_ok rnd f" and x: "x \<in> set (rl_lru f)"
  shows "\<exists>f'. rlru_access rnd f x = Some f' \<and> rlru_ok rnd f' \<and> set (rl_lru f') = set (rl_lru f)"
proof -
  obtain pre post where t: "rlru_tail f pre post" "if rl_fraction f = 0 then post = [] else (pre \<noteq> [] \<longrightarrow> post \<noteq> []) \<and> (1 < length (pre @ post) \<longrightarrow> pre \<noteq> [])"
    and len: "rl_len f = length (rl_lru f)" "length (rl_lru f) \<le> 2 ^ 32" and exp: "rl_fraction f \<noteq> 0 \<longrightarrow> (\<forall>n > 1. expected_tail_len rnd (rl_fraction f) n < n)"
    using ok by (auto simp: rlru_ok_def)
  note T = t(1) [unfolded rlru_tail_def]
  obtain f1 pre2 post2 where e: "ensure_not_insertion_point f x = Some f1" "rl_lru f1 = rl_lru f" "rl_len f1 = rl_len f" "rl_fraction f1 = rl_fraction f"
    and tail: "rlru_tail (if rl_in_tail f1 x then f1\<lparr>rl_lru := x # remove1 x (rl_lru f1), rl_tail_len := rl_tail_len f1 - 1, rl_in_tail := (rl_in_tail f1)(x := False)\<rparr>
        else f1\<lparr>rl_lru := x # remove1 x (rl_lru f1)\<rparr>) pre2 post2"
    and pre2: "pre2 \<noteq> []" "rl_fraction f = 0 \<longrightarrow> post2 = []" "\<not> rl_in_tail f1 x \<longrightarrow> rl_fraction f \<noteq> 0 \<longrightarrow> post2 \<noteq> []" and pos: "rl_in_tail f1 x \<longrightarrow> 1 \<le> rl_tail_len f1"
  proof (cases "list_front post = Some x")
    case True
    then obtain ps where post: "post = x # ps" by (cases post) (auto simp: list_front_def)
    have frac: "rl_fraction f \<noteq> 0" using t(2) post by auto
    have tx: "rlru_tail f pre (x # ps)" using t(1) post by simp
    show ?thesis
    proof (cases pre rule: rev_cases)
      case Nil
      then have ps: "ps = []" using t(2) frac post by (cases ps) auto
      show ?thesis by (rule that [OF ensure_moves(1) [OF tx len(2) Nil ps], of "[x]" "[]"])
        (use T Nil post ps frac in \<open>auto simp: rlru_tail_def list_front_def fun_eq_iff\<close>)
    next
      case (snoc pre' a)
      obtain f1 where f1: "ensure_not_insertion_point f x = Some f1" "rlru_tail f1 pre' (a # x # ps)" "rl_len f1 = rl_len f" "rl_fraction f1 = rl_fraction f"
        using ensure_moves(2) [OF tx len(2) snoc] by blast
      have xf: "x \<in> set (pre' @ a # x # ps)" "list_front (a # x # ps) \<noteq> Some x" using T snoc post by (auto simp: list_front_def)
      show ?thesis by (rule that [OF f1(1) _ f1(3,4) unlink_tail(2) [OF f1(2) xf]]) (use f1(2) T snoc post frac unlink_tail(3) [OF f1(2) xf] in \<open>auto simp: rlru_tail_def\<close>)
    qed
  next
    case False
    have xp: "x \<in> set (pre @ post)" using x T by simp
    have "\<not> rl_in_tail f x \<longrightarrow> rl_fraction f \<noteq> 0 \<longrightarrow> remove1 x post \<noteq> []" using T t(2) xp by (auto simp: remove1_idem)
    then show ?thesis
      by (intro that [OF ensure_skip refl refl refl unlink_tail(2) [OF t(1) xp False]]) (use T False t(2) unlink_tail(3) [OF t(1) xp False] in auto)
  qed
  define f2 where "f2 = (if rl_in_tail f1 x then f1\<lparr>rl_lru := x # remove1 x (rl_lru f1), rl_tail_len := rl_tail_len f1 - 1, rl_in_tail := (rl_in_tail f1)(x := False)\<rparr>
        else f1\<lparr>rl_lru := x # remove1 x (rl_lru f1)\<rparr>)"
  note t2 = tail [folded f2_def]
  have l2: "rl_lru f2 = x # remove1 x (rl_lru f)" "rl_len f2 = rl_len f" "rl_fraction f2 = rl_fraction f" using e(2-4) by (simp_all add: f2_def)
  have n2: "length (rl_lru f2) = length (rl_lru f)" "set (rl_lru f2) = set (rl_lru f)"
    using l2(1) x T length_pos_if_in_set [OF x] by (auto simp: length_remove1 set_remove1_eq)
  have "\<exists>f' pre' post'. rlru_access rnd f x = Some f' \<and> rlru_tail f' pre' post' \<and> pre' @ post' = pre2 @ post2 \<and> rl_len f' = rl_len f \<and> rl_fraction f' = rl_fraction f \<and>
      (if rl_fraction f = 0 then post' = [] else post' \<noteq> [] \<and> (1 < length (pre' @ post') \<longrightarrow> pre' \<noteq> []))"
  proof (cases "rl_in_tail f1 x")
    case True
    have "rlru_access rnd f x = update_lru_insertion_point rnd f2" using True x e(1) pos by (simp add: rlru_access_def f2_def Let_def checked)
    then show ?thesis using update_ok [OF t2, of rnd] pre2 n2(1) len(2) exp l2 by auto
  next
    case False
    have "rlru_access rnd f x = Some f2" using False x e(1) by (simp add: rlru_access_def f2_def Let_def)
    then show ?thesis using t2 pre2 l2 False by (intro exI [where x = f2] exI [where x = pre2] exI [where x = post2]) auto
  qed
  then obtain f' pre' post' where f': "rlru_access rnd f x = Some f'" "rlru_tail f' pre' post'" "pre' @ post' = pre2 @ post2" "rl_len f' = rl_len f" "rl_fraction f' = rl_fraction f"
    "if rl_fraction f = 0 then post' = [] else post' \<noteq> [] \<and> (1 < length (pre' @ post') \<longrightarrow> pre' \<noteq> [])"
    by (elim exE conjE)
  have l': "rl_lru f' = rl_lru f2" using f'(2,3) t2 by (simp add: rlru_tail_def)
  have "rlru_ok rnd f'" unfolding rlru_ok_def
  proof (intro conjI)
    show "\<exists>pre post. rlru_tail f' pre post \<and> (if rl_fraction f' = 0 then post = [] else (pre \<noteq> [] \<longrightarrow> post \<noteq> []) \<and> (1 < length (pre @ post) \<longrightarrow> pre \<noteq> []))"
      by (rule exI [of _ pre'], rule exI [of _ post']) (use f'(2,5,6) in \<open>auto split: if_splits\<close>)
  qed (use l' n2 f'(4,5) len exp in simp_all)
  then show ?thesis using f'(1) l' n2(2) by auto
qed

interpretation rlru: eviction_policy "rlru_ops rnd" "rlru_ok rnd" "\<lambda>f. set (rl_lru f)"
proof
  fix f x
  have card: "rlru_ok rnd f \<Longrightarrow> card (set (rl_lru f)) = length (rl_lru f)" by (auto simp: rlru_ok_def rlru_tail_def intro: distinct_card)
  show "\<exists>f'. ep_insert (rlru_ops rnd) f x = Some f' \<and> rlru_ok rnd f' \<and> set (rl_lru f') = insert x (set (rl_lru f))"
    if "rlru_ok rnd f" "x \<notin> set (rl_lru f)" "card (set (rl_lru f)) < 2 ^ 32"
    using rlru_insert_ok [OF that(1,2)] card that by (simp add: rlru_ops_def)
  show "\<exists>f'. ep_remove (rlru_ops rnd) f x = Some f' \<and> rlru_ok rnd f' \<and> set (rl_lru f') = set (rl_lru f) - {x}"
    if "rlru_ok rnd f" "ep_first (rlru_ops rnd) f = Some x"
    using rlru_pop_ok [OF that(1)] that(2) by (simp add: rlru_ops_def)
  show "\<exists>f'. ep_access (rlru_ops rnd) f x = Some f' \<and> rlru_ok rnd f' \<and> set (rl_lru f') = set (rl_lru f)" if "rlru_ok rnd f" "x \<in> set (rl_lru f)"
    using rlru_access_ok [OF that] by (simp add: rlru_ops_def)
  show "ep_len (rlru_ops rnd) f = card (set (rl_lru f))" if "rlru_ok rnd f" using card [OF that] that by (simp add: rlru_ops_def rlru_ok_def)
qed (auto simp: rlru_ops_def rlru_first_def list_back_def split: option.splits)

end
