(* ===== verification/Policy_Sfifo.thy ===== *)
theory Policy_Sfifo
  imports Region_Manager
begin

text \<open>
  The policy \<^verbatim>\<open>SegmentedFifo\<close> of \<^verbatim>\<open>foyer-intrusive/src/eviction/sfifo.rs\<close>. \<open>prio\<close> is the priority that the adapter reads from an item; the
  priority in the link of an item is \<open>sf_priority\<close>, the segment it is in. The inner loop of \<^verbatim>\<open>rebalance\<close> is \<open>sf_move\<close>.
\<close>

section \<open>Definitions\<close>

record RSfifo =
  sf_segments :: "nat list list"
  sf_ratios :: "usize list"
  sf_total_ratio :: usize
  sf_len :: usize
  sf_priority :: "nat \<Rightarrow> usize"

fun usum :: "usize list \<Rightarrow> usize \<Rightarrow> usize option" where
  "usum [] acc = Some acc"
| "usum (x # xs) acc = do { n \<leftarrow> uadd acc x; usum xs n }"

definition rsfifo_new :: "usize list \<Rightarrow> RSfifo option" where
  "rsfifo_new ratios = do {
     tot \<leftarrow> usum ratios 0;
     Some \<lparr>sf_segments = replicate (length ratios) [], sf_ratios = ratios, sf_total_ratio = tot, sf_len = 0, sf_priority = (\<lambda>_. 0)\<rparr>
   }"

definition segment_limit :: "(f64 \<Rightarrow> f64) \<Rightarrow> usize \<Rightarrow> usize \<Rightarrow> usize \<Rightarrow> usize" where
  "segment_limit rnd tot ratio total_ratio =
     f64_to_usize (rnd (rnd (f64_of_usize rnd tot * f64_of_usize rnd ratio) / f64_of_usize rnd total_ratio))"

text \<open>Items move from the front of a segment to the back of the next lower one while the segment is over its limit.\<close>

fun sf_move :: "usize \<Rightarrow> usize \<Rightarrow> nat list \<Rightarrow> nat list \<Rightarrow> (nat \<Rightarrow> usize) \<Rightarrow> nat list \<times> nat list \<times> (nat \<Rightarrow> usize)" where
  "sf_move limit low [] lows pr = ([], lows, pr)"
| "sf_move limit low (x # highs) lows pr =
     (if length (x # highs) > limit then sf_move limit low highs (lows @ [x]) (pr(x := low)) else (x # highs, lows, pr))"

fun rebalance_from :: "(f64 \<Rightarrow> f64) \<Rightarrow> usize \<Rightarrow> nat \<Rightarrow> RSfifo \<Rightarrow> RSfifo option" where
  "rebalance_from rnd tot 0 f = Some f"
| "rebalance_from rnd tot (Suc low) f = do {
     ratio \<leftarrow> nth_opt (sf_ratios f) (Suc low);
     highs \<leftarrow> nth_opt (sf_segments f) (Suc low);
     lows \<leftarrow> nth_opt (sf_segments f) low;
     let (highs', lows', pr) = sf_move (segment_limit rnd tot ratio (sf_total_ratio f)) low highs lows (sf_priority f);
     rebalance_from rnd tot low (f\<lparr>sf_segments := (sf_segments f)[Suc low := highs', low := lows'], sf_priority := pr\<rparr>)
   }"

definition rebalance :: "(f64 \<Rightarrow> f64) \<Rightarrow> RSfifo \<Rightarrow> RSfifo option" where
  "rebalance rnd f = do {
     tot \<leftarrow> usum (map length (sf_segments f)) 0;
     rebalance_from rnd tot (length (sf_segments f) - 1) f
   }"

definition rsfifo_insert :: "(f64 \<Rightarrow> f64) \<Rightarrow> (nat \<Rightarrow> usize) \<Rightarrow> RSfifo \<Rightarrow> nat \<Rightarrow> RSfifo option" where
  "rsfifo_insert rnd prio f x = do {
     ensure (x \<notin> set (concat (sf_segments f)));
     q \<leftarrow> nth_opt (sf_segments f) (prio x);
     f1 \<leftarrow> rebalance rnd (f\<lparr>sf_priority := (sf_priority f)(x := prio x), sf_segments := (sf_segments f)[prio x := q @ [x]]\<rparr>);
     n \<leftarrow> uadd (sf_len f1) 1;
     Some (f1\<lparr>sf_len := n\<rparr>)
   }"

definition rsfifo_remove :: "(f64 \<Rightarrow> f64) \<Rightarrow> RSfifo \<Rightarrow> nat \<Rightarrow> RSfifo option" where
  "rsfifo_remove rnd f x = do {
     ensure (x \<in> set (concat (sf_segments f)));
     q \<leftarrow> nth_opt (sf_segments f) (sf_priority f x);
     q' \<leftarrow> dl_remove q x;
     f1 \<leftarrow> rebalance rnd (f\<lparr>sf_segments := (sf_segments f)[sf_priority f x := q']\<rparr>);
     n \<leftarrow> usub (sf_len f1) 1;
     Some (f1\<lparr>sf_len := n\<rparr>)
   }"

definition rsfifo_access :: "RSfifo \<Rightarrow> nat \<Rightarrow> RSfifo option" where
  "rsfifo_access f x = Some f"

definition rsfifo_first :: "RSfifo \<Rightarrow> nat option" where
  "rsfifo_first f = (case concat (sf_segments f) of [] \<Rightarrow> None | x # _ \<Rightarrow> Some x)"

definition rsfifo_ops :: "(f64 \<Rightarrow> f64) \<Rightarrow> (nat \<Rightarrow> usize) \<Rightarrow> RSfifo ep_ops" where
  "rsfifo_ops rnd prio = \<lparr>ep_insert = rsfifo_insert rnd prio, ep_remove = rsfifo_remove rnd, ep_access = rsfifo_access, ep_first = rsfifo_first,
     ep_len = sf_len, ep_linked = (\<lambda>f x. x \<in> set (concat (sf_segments f)))\<rparr>"

section \<open>The contract\<close>

text \<open>Every item is in one segment, the one its link names.\<close>

definition sf_wf :: "RSfifo \<Rightarrow> bool" where
  "sf_wf f \<longleftrightarrow> length (sf_ratios f) = length (sf_segments f) \<and> distinct (concat (sf_segments f)) \<and>
     (\<forall>i < length (sf_segments f). \<forall>x \<in> set (sf_segments f ! i). sf_priority f x = i)"

definition rsfifo_ok :: "(nat \<Rightarrow> usize) \<Rightarrow> RSfifo \<Rightarrow> bool" where
  "rsfifo_ok prio f \<longleftrightarrow> sf_wf f \<and> sf_len f = length (concat (sf_segments f)) \<and> sf_len f \<le> 2 ^ 32 \<and> (\<forall>x. prio x < length (sf_segments f))"

lemma usum_ok: "acc + sum_list xs < usize_lim \<Longrightarrow> usum xs acc = Some (acc + sum_list xs)"
  by (induction xs arbitrary: acc) (simp_all add: checked)

lemma sf_move_eq:
  "sf_move limit low hs ls pr = (let n = length hs - limit in (drop n hs, ls @ take n hs, \<lambda>x. if x \<in> set (take n hs) then low else pr x))"
proof (induction limit low hs ls pr rule: sf_move.induct)
  case (2 limit low x hs ls pr)
  show ?case
  proof (cases "length (x # hs) > limit")
    case True
    then have n: "length (x # hs) - limit = Suc (length hs - limit)" by auto
    have "(\<lambda>y. if y \<in> set (take (length hs - limit) hs) then low else (pr(x := low)) y) =
        (\<lambda>y. if y \<in> set (x # take (length hs - limit) hs) then low else pr y)" by (simp add: fun_eq_iff)
    then show ?thesis using 2 [OF True] True unfolding n Let_def by (simp add: fun_upd_def)
  next
    case False
    then have "length (x # hs) - limit = 0" by simp
    then show ?thesis using False by (simp add: Let_def)
  qed
qed simp

lemma mset_concat_update:
  assumes "i < length xs"
  shows "mset (concat (xs[i := y])) + mset (xs ! i) = mset (concat xs) + mset y"
  using assms
proof (induction xs arbitrary: i)
  case (Cons x xs)
  then show ?case by (cases i) (simp_all add: ac_simps)
qed simp

lemma rebalance_step:
  fixes n :: nat
  assumes wf: "sf_wf f" and low: "Suc low < length (sf_segments f)"
  defines "f' \<equiv> f\<lparr>sf_segments := (sf_segments f)[Suc low := drop n (sf_segments f ! Suc low), low := sf_segments f ! low @ take n (sf_segments f ! Suc low)],
      sf_priority := (\<lambda>x. if x \<in> set (take n (sf_segments f ! Suc low)) then low else sf_priority f x)\<rparr>"
  shows "sf_wf f' \<and> mset (concat (sf_segments f')) = mset (concat (sf_segments f))"
proof -
  let ?ss = "sf_segments f" and ?hs = "sf_segments f ! Suc low" and ?ls = "sf_segments f ! low"
  have 1: "mset (concat (?ss[Suc low := drop n ?hs])) + mset ?hs = mset (concat ?ss) + mset (drop n ?hs)" using mset_concat_update [OF low] .
  have 2: "mset (concat (?ss[Suc low := drop n ?hs, low := ?ls @ take n ?hs])) + mset ?ls = mset (concat (?ss[Suc low := drop n ?hs])) + mset (?ls @ take n ?hs)"
    using mset_concat_update [of low "?ss[Suc low := drop n ?hs]" "?ls @ take n ?hs"] low by simp
  have "mset ?hs = mset (take n ?hs) + mset (drop n ?hs)" by (metis append_take_drop_id mset_append)
  then have m: "mset (concat (sf_segments f')) = mset (concat ?ss)" using 1 2 by (simp add: f'_def ac_simps)
  then have d: "distinct (concat (sf_segments f'))" using wf mset_eq_imp_distinct_iff unfolding sf_wf_def by metis
  have "sf_priority f' x = i" if "i < length ?ss" "x \<in> set (sf_segments f' ! i)" for i x
  proof -
    have td: "x \<notin> set (take n ?hs)" if "x \<in> set (drop n ?hs)"
    proof -
      have "distinct ?hs" using wf low by (auto simp: sf_wf_def distinct_concat_iff)
      then show ?thesis using that set_take_disj_set_drop_if_distinct [of ?hs n n] by auto
    qed
    have pr: "sf_priority f y = j" if "j < length ?ss" "y \<in> set (?ss ! j)" for y j using wf that by (simp add: sf_wf_def)
    consider "i = low" | "i = Suc low" | "i \<noteq> low" "i \<noteq> Suc low" by blast
    then show ?thesis
    proof cases
      case 1
      then show ?thesis using that low pr by (auto simp: f'_def)
    next
      case 2
      then show ?thesis using that low td pr [OF low] by (auto simp: f'_def dest: in_set_dropD)
    next
      case 3
      then show ?thesis using that pr pr [OF low] by (auto simp: f'_def dest: in_set_takeD)
    qed
  qed
  then show ?thesis using m d wf by (simp add: sf_wf_def f'_def)
qed

lemma rebalance_from_ok:
  assumes "sf_wf f" "low < length (sf_segments f)"
  shows "\<exists>f'. rebalance_from rnd tot low f = Some f' \<and> sf_wf f' \<and> mset (concat (sf_segments f')) = mset (concat (sf_segments f)) \<and>
    length (sf_segments f') = length (sf_segments f) \<and> sf_len f' = sf_len f"
  using assms
proof (induction low arbitrary: f)
  case (Suc low)
  define ratio where "ratio = sf_ratios f ! Suc low"
  define f1 where "f1 = f\<lparr>sf_segments := (let n = length (sf_segments f ! Suc low) - segment_limit rnd tot ratio (sf_total_ratio f) in
        (sf_segments f)[Suc low := drop n (sf_segments f ! Suc low), low := sf_segments f ! low @ take n (sf_segments f ! Suc low)]),
      sf_priority := (\<lambda>x. if x \<in> set (take (length (sf_segments f ! Suc low) - segment_limit rnd tot ratio (sf_total_ratio f)) (sf_segments f ! Suc low)) then low else sf_priority f x)\<rparr>"
  have r: "Suc low < length (sf_ratios f)" using Suc.prems by (simp add: sf_wf_def)
  have step: "rebalance_from rnd tot (Suc low) f = rebalance_from rnd tot low f1"
    using Suc.prems(2) r by (simp add: nth_opt_def sf_move_eq Let_def f1_def ratio_def)
  have ok: "sf_wf f1 \<and> mset (concat (sf_segments f1)) = mset (concat (sf_segments f))" unfolding f1_def Let_def by (rule rebalance_step [OF Suc.prems])
  have len: "length (sf_segments f1) = length (sf_segments f)" "sf_len f1 = sf_len f" by (simp_all add: f1_def Let_def)
  have "low < length (sf_segments f1)" using Suc.prems(2) len by simp
  from Suc.IH [OF conjunct1 [OF ok] this] show ?case unfolding step using ok len by auto
qed simp

lemma rebalance_ok:
  assumes "sf_wf f" "sf_segments f \<noteq> []" "length (concat (sf_segments f)) < usize_lim"
  shows "\<exists>f'. rebalance rnd f = Some f' \<and> sf_wf f' \<and> mset (concat (sf_segments f')) = mset (concat (sf_segments f)) \<and>
    length (sf_segments f') = length (sf_segments f) \<and> sf_len f' = sf_len f"
proof -
  have "usum (map length (sf_segments f)) 0 = Some (length (concat (sf_segments f)))" using usum_ok [of 0 "map length (sf_segments f)"] assms(3) by (simp add: length_concat)
  then show ?thesis using rebalance_from_ok [OF assms(1), of "length (sf_segments f) - 1"] assms(2) by (simp add: rebalance_def)
qed

lemma rsfifo_insert_ok:
  assumes ok: "rsfifo_ok prio f" and x: "x \<notin> set (concat (sf_segments f))" and lim: "length (concat (sf_segments f)) < 2 ^ 32"
  shows "\<exists>f'. rsfifo_insert rnd prio f x = Some f' \<and> rsfifo_ok prio f' \<and> set (concat (sf_segments f')) = insert x (set (concat (sf_segments f)))"
proof -
  let ?ss = "sf_segments f"
  have wf: "sf_wf f" and px: "prio x < length ?ss" and len: "sf_len f = length (concat ?ss)" using ok by (simp_all add: rsfifo_ok_def)
  define f1 where "f1 = f\<lparr>sf_priority := (sf_priority f)(x := prio x), sf_segments := ?ss[prio x := ?ss ! prio x @ [x]]\<rparr>"
  have m: "mset (concat (sf_segments f1)) = add_mset x (mset (concat ?ss))"
    using mset_concat_update [OF px, of "?ss ! prio x @ [x]"] by (simp add: f1_def)
  then have s1: "set (concat (sf_segments f1)) = insert x (set (concat ?ss))" "length (concat (sf_segments f1)) = Suc (length (concat ?ss))"
    by (metis set_mset_add_mset_insert set_mset_mset, metis size_add_mset size_mset)
  have "distinct (x # concat ?ss)" using wf x by (simp add: sf_wf_def)
  then have "distinct (concat (sf_segments f1))" using m mset_eq_imp_distinct_iff [of "x # concat ?ss" "concat (sf_segments f1)"] by simp
  moreover have "sf_priority f1 y = i" if "i < length ?ss" "y \<in> set (sf_segments f1 ! i)" for i y
  proof -
    have "y \<noteq> x" if "y \<in> set (?ss ! i)" using x that \<open>i < length ?ss\<close> nth_mem [of i ?ss] by auto
    then show ?thesis using that wf px by (cases "i = prio x") (auto simp: f1_def sf_wf_def)
  qed
  ultimately have wf1: "sf_wf f1" using wf by (simp add: sf_wf_def f1_def)
  have "sf_segments f1 \<noteq> []" "length (concat (sf_segments f1)) < usize_lim" using px s1(2) lim by (auto simp: f1_def usize_lim_def)
  from rebalance_ok [OF wf1 this, of rnd] obtain f2 where f2: "rebalance rnd f1 = Some f2" "sf_wf f2" "mset (concat (sf_segments f2)) = mset (concat (sf_segments f1))"
    "length (sf_segments f2) = length (sf_segments f1)" "sf_len f2 = sf_len f1" by blast
  have l2: "length (concat (sf_segments f2)) = Suc (length (concat ?ss))" "set (concat (sf_segments f2)) = insert x (set (concat ?ss))"
    using f2(3) s1 by (metis mset_eq_length, metis mset_eq_setD)
  have add: "uadd (sf_len f2) 1 = Some (Suc (length (concat ?ss)))" using f2(5) len lim by (simp add: f1_def checked usize_lim_def)
  have "rsfifo_insert rnd prio f x = Some (f2\<lparr>sf_len := Suc (length (concat ?ss))\<rparr>)" using x px f2(1) add by (simp add: rsfifo_insert_def f1_def)
  moreover have "rsfifo_ok prio (f2\<lparr>sf_len := Suc (length (concat ?ss))\<rparr>)"
    using f2(2,4) l2(1) lim ok by (simp add: rsfifo_ok_def sf_wf_def f1_def)
  ultimately show ?thesis using l2(2) by auto
qed

lemma rsfifo_remove_ok:
  assumes ok: "rsfifo_ok prio f" and x: "x \<in> set (concat (sf_segments f))"
  shows "\<exists>f'. rsfifo_remove rnd f x = Some f' \<and> rsfifo_ok prio f' \<and> set (concat (sf_segments f')) = set (concat (sf_segments f)) - {x}"
proof -
  let ?ss = "sf_segments f"
  have wf: "sf_wf f" and len: "sf_len f = length (concat ?ss)" "sf_len f \<le> 2 ^ 32" using ok by (simp_all add: rsfifo_ok_def)
  obtain i where i: "i < length ?ss" "x \<in> set (?ss ! i)" using x by (auto simp: in_set_conv_nth) (metis in_set_conv_nth)
  then have px: "sf_priority f x = i" using wf by (simp add: sf_wf_def)
  define f1 where "f1 = f\<lparr>sf_segments := ?ss[i := remove1 x (?ss ! i)]\<rparr>"
  obtain Y where Y: "mset (?ss ! i) = add_mset x Y" using multi_member_split [of x "mset (?ss ! i)"] i(2) by auto
  have "add_mset x (mset (concat (sf_segments f1))) + Y = mset (concat ?ss) + Y"
    using mset_concat_update [OF i(1), of "remove1 x (?ss ! i)"] Y by (simp add: f1_def)
  then have m: "mset (concat ?ss) = add_mset x (mset (concat (sf_segments f1)))" by (simp only: add_right_cancel)
  have d: "distinct (x # concat (sf_segments f1))" using wf m mset_eq_imp_distinct_iff [of "concat ?ss" "x # concat (sf_segments f1)"] by (simp add: sf_wf_def)
  have s1: "set (concat ?ss) = insert x (set (concat (sf_segments f1)))" "length (concat ?ss) = Suc (length (concat (sf_segments f1)))"
    using m by (metis set_mset_add_mset_insert set_mset_mset, metis size_add_mset size_mset)
  have "sf_priority f y = j" if "j < length ?ss" "y \<in> set (sf_segments f1 ! j)" for j y
    using that wf set_remove1_subset [of x "?ss ! i"] by (cases "j = i") (auto simp: sf_wf_def f1_def)
  then have wf1: "sf_wf f1" using wf d by (simp add: sf_wf_def f1_def)
  have "sf_segments f1 \<noteq> []" "length (concat (sf_segments f1)) < usize_lim" using i s1(2) len by (auto simp: f1_def usize_lim_def)
  from rebalance_ok [OF wf1 this, of rnd] obtain f2 where f2: "rebalance rnd f1 = Some f2" "sf_wf f2" "mset (concat (sf_segments f2)) = mset (concat (sf_segments f1))"
    "length (sf_segments f2) = length (sf_segments f1)" "sf_len f2 = sf_len f1" by blast
  have l2: "length (concat (sf_segments f2)) = length (concat ?ss) - 1" "set (concat (sf_segments f2)) = set (concat ?ss) - {x}"
    using mset_eq_length [OF f2(3)] mset_eq_setD [OF f2(3)] s1 d by auto
  have sub: "usub (sf_len f2) 1 = Some (length (concat ?ss) - 1)" using f2(5) len(1) s1(2) by (simp add: f1_def checked)
  have "rsfifo_remove rnd f x = Some (f2\<lparr>sf_len := length (concat ?ss) - 1\<rparr>)" using x i px f2(1) sub by (simp add: rsfifo_remove_def f1_def checked)
  moreover have "rsfifo_ok prio (f2\<lparr>sf_len := length (concat ?ss) - 1\<rparr>)"
    using f2(2,4) l2(1) len ok by (simp add: rsfifo_ok_def sf_wf_def f1_def)
  ultimately show ?thesis using l2(2) by auto
qed

interpretation rsfifo: eviction_policy "rsfifo_ops rnd prio" "rsfifo_ok prio" "\<lambda>f. set (concat (sf_segments f))"
proof
  fix f x
  have card: "rsfifo_ok prio f \<Longrightarrow> card (set (concat (sf_segments f))) = length (concat (sf_segments f))"
    by (auto simp: rsfifo_ok_def sf_wf_def simp del: set_concat intro: distinct_card)
  show "\<exists>f'. ep_insert (rsfifo_ops rnd prio) f x = Some f' \<and> rsfifo_ok prio f' \<and> set (concat (sf_segments f')) = insert x (set (concat (sf_segments f)))"
    if "rsfifo_ok prio f" "x \<notin> set (concat (sf_segments f))" "card (set (concat (sf_segments f))) < 2 ^ 32"
    using rsfifo_insert_ok [OF that(1,2), of rnd] card [OF that(1)] that(3) by (simp add: rsfifo_ops_def del: set_concat)
  show "\<exists>f'. ep_remove (rsfifo_ops rnd prio) f x = Some f' \<and> rsfifo_ok prio f' \<and> set (concat (sf_segments f')) = set (concat (sf_segments f)) - {x}"
    if "rsfifo_ok prio f" "ep_first (rsfifo_ops rnd prio) f = Some x"
  proof -
    have "x \<in> set (concat (sf_segments f))" using that(2) by (auto simp: rsfifo_ops_def rsfifo_first_def simp del: set_concat split: list.splits)
    from rsfifo_remove_ok [OF that(1) this, of rnd] show ?thesis by (simp add: rsfifo_ops_def del: set_concat)
  qed
  show "ep_len (rsfifo_ops rnd prio) f = card (set (concat (sf_segments f)))" if "rsfifo_ok prio f"
    using card [OF that] that by (simp add: rsfifo_ops_def rsfifo_ok_def del: set_concat)
  show "case ep_first (rsfifo_ops rnd prio) f of None \<Rightarrow> set (concat (sf_segments f)) = {} | Some y \<Rightarrow> y \<in> set (concat (sf_segments f))"
    by (auto simp: rsfifo_ops_def rsfifo_first_def simp del: set_concat concat_eq_Nil_conv split: list.splits)
qed (auto simp: rsfifo_ops_def rsfifo_access_def)

end
