(* ===== verification/Policy_Lfu.thy ===== *)
theory Policy_Lfu
  imports Region_Manager
begin

text \<open>
  The policy \<^verbatim>\<open>Lfu\<close> of \<^verbatim>\<open>foyer-intrusive/src/eviction/lfu.rs\<close>: two lists, from the front to the back, and counters of the frequencies. The count-min sketch of the
  crate \<^verbatim>\<open>cmsketch\<close> is the argument \<open>sk\<close>, and \<open>hash\<close> is the hash of the key of an item. \<open>rlfu_ok\<close> asks that the multiplier of the window is positive and
  not above \<open>2 ^ 20\<close>, so that with at most \<open>2 ^ 32\<close> items no product overflows.
\<close>

section \<open>Definitions\<close>

record 's sketch_ops =
  sk_new_with_size :: "usize \<Rightarrow> usize \<Rightarrow> 's"
  sk_record :: "'s \<Rightarrow> 64 word \<Rightarrow> 's"
  sk_count :: "'s \<Rightarrow> 64 word \<Rightarrow> usize"
  sk_decay :: "'s \<Rightarrow> f64 \<Rightarrow> 's"

datatype LruType = LruTiny | LruMain | LruNone

record 's RLfu =
  lf_tiny :: "nat list"
  lf_main :: "nat list"
  lf_window_size :: usize
  lf_max_window_size :: usize
  lf_capacity :: usize
  lf_frequencies :: 's
  lf_len :: usize
  lf_window_to_cache_size_ratio :: usize
  lf_tiny_lru_capacity_ratio :: f64

definition lru_type :: "'s RLfu \<Rightarrow> nat \<Rightarrow> LruType option" where
  "lru_type f x = (case (x \<in> set (lf_tiny f), x \<in> set (lf_main f)) of
       (True, True) \<Rightarrow> None
     | (True, False) \<Rightarrow> Some LruTiny
     | (False, True) \<Rightarrow> Some LruMain
     | (False, False) \<Rightarrow> Some LruNone)"

fun next_power_of_two :: "nat \<Rightarrow> nat" where
  "next_power_of_two n = (if n \<le> 1 then 1 else 2 * next_power_of_two ((n + 1) div 2))"

declare next_power_of_two.simps [simp del]

text \<open>\<^verbatim>\<open>1f64.exp()\<close> is the \<^verbatim>\<open>f64\<close> next to \<open>2.718281828459045\<close>.\<close>

definition counters_for :: "(f64 \<Rightarrow> f64) \<Rightarrow> usize \<Rightarrow> usize" where
  "counters_for rnd w = f64_to_usize (rnd (rnd (rnd (2718281828459045 / 10 ^ 15) * f64_of_usize rnd w) / 5))"

definition maybe_grow_access_counters :: "(f64 \<Rightarrow> f64) \<Rightarrow> 's sketch_ops \<Rightarrow> 's RLfu \<Rightarrow> 's RLfu option" where
  "maybe_grow_access_counters rnd sk f = do {
     capacity \<leftarrow> uadd (length (lf_tiny f)) (length (lf_main f));
     double \<leftarrow> umul 2 (lf_capacity f);
     if double > capacity then Some f else do {
       let cap = max capacity 100;
       w \<leftarrow> umul cap (lf_window_to_cache_size_ratio f);
       let n = next_power_of_two (counters_for rnd w);
       ensure (n < usize_lim);
       Some (f\<lparr>lf_capacity := cap, lf_window_size := 0, lf_max_window_size := w, lf_frequencies := sk_new_with_size sk n 4\<rparr>)
     }
   }"

definition rlfu_new :: "(f64 \<Rightarrow> f64) \<Rightarrow> 's sketch_ops \<Rightarrow> usize \<Rightarrow> f64 \<Rightarrow> 's RLfu option" where
  "rlfu_new rnd sk window_ratio tiny_ratio = maybe_grow_access_counters rnd sk
     \<lparr>lf_tiny = [], lf_main = [], lf_window_size = 0, lf_max_window_size = 0, lf_capacity = 0, lf_frequencies = sk_new_with_size sk 1 1, lf_len = 0,
      lf_window_to_cache_size_ratio = window_ratio, lf_tiny_lru_capacity_ratio = tiny_ratio\<rparr>"

definition rlfu_update_frequencies :: "'s sketch_ops \<Rightarrow> (nat \<Rightarrow> 64 word) \<Rightarrow> 's RLfu \<Rightarrow> nat \<Rightarrow> 's RLfu option" where
  "rlfu_update_frequencies sk hash f x = do {
     let fr = sk_record sk (lf_frequencies f) (hash x);
     w \<leftarrow> uadd (lf_window_size f) 1;
     Some (if w = lf_max_window_size f then f\<lparr>lf_window_size := w div 2, lf_frequencies := sk_decay sk fr (1 / 2)\<rparr>
           else f\<lparr>lf_window_size := w, lf_frequencies := fr\<rparr>)
   }"

definition admit_to_main :: "'s sketch_ops \<Rightarrow> (nat \<Rightarrow> 64 word) \<Rightarrow> 's RLfu \<Rightarrow> nat \<Rightarrow> nat \<Rightarrow> bool option" where
  "admit_to_main sk hash f m t = do {
     mt \<leftarrow> lru_type f m;
     ensure (mt = LruMain);
     tt \<leftarrow> lru_type f t;
     ensure (tt = LruTiny);
     Some (sk_count sk (lf_frequencies f) (hash m) \<le> sk_count sk (lf_frequencies f) (hash t))
   }"

definition rlfu_move_to_front :: "'s RLfu \<Rightarrow> nat \<Rightarrow> 's RLfu option" where
  "rlfu_move_to_front f x = do {
     ty \<leftarrow> lru_type f x;
     (case ty of
        LruTiny \<Rightarrow> Some (f\<lparr>lf_tiny := x # remove1 x (lf_tiny f)\<rparr>)
      | LruMain \<Rightarrow> Some (f\<lparr>lf_main := x # remove1 x (lf_main f)\<rparr>)
      | LruNone \<Rightarrow> None)
   }"

definition rlfu_switch_to_front :: "'s RLfu \<Rightarrow> nat \<Rightarrow> 's RLfu option" where
  "rlfu_switch_to_front f x = do {
     ty \<leftarrow> lru_type f x;
     (case ty of
        LruTiny \<Rightarrow> Some (f\<lparr>lf_tiny := remove1 x (lf_tiny f), lf_main := x # lf_main f\<rparr>)
      | LruMain \<Rightarrow> Some (f\<lparr>lf_main := remove1 x (lf_main f), lf_tiny := x # lf_tiny f\<rparr>)
      | LruNone \<Rightarrow> None)
   }"

definition remove_from_lru :: "'s RLfu \<Rightarrow> nat \<Rightarrow> 's RLfu option" where
  "remove_from_lru f x = do {
     ty \<leftarrow> lru_type f x;
     (case ty of
        LruTiny \<Rightarrow> Some (f\<lparr>lf_tiny := remove1 x (lf_tiny f)\<rparr>)
      | LruMain \<Rightarrow> Some (f\<lparr>lf_main := remove1 x (lf_main f)\<rparr>)
      | LruNone \<Rightarrow> None)
   }"

definition maybe_promote_tail :: "'s sketch_ops \<Rightarrow> (nat \<Rightarrow> 64 word) \<Rightarrow> 's RLfu \<Rightarrow> 's RLfu option" where
  "maybe_promote_tail sk hash f = (if lf_main f = [] \<or> lf_tiny f = [] then Some f else do {
     let m = last (lf_main f);
     let t = last (lf_tiny f);
     admit \<leftarrow> admit_to_main sk hash f m t;
     if admit then do {
       f1 \<leftarrow> rlfu_switch_to_front f m;
       rlfu_switch_to_front f1 t
     } else rlfu_move_to_front f m
   })"

definition rlfu_insert :: "(f64 \<Rightarrow> f64) \<Rightarrow> 's sketch_ops \<Rightarrow> (nat \<Rightarrow> 64 word) \<Rightarrow> 's RLfu \<Rightarrow> nat \<Rightarrow> 's RLfu option" where
  "rlfu_insert rnd sk hash f x = do {
     ensure (x \<notin> set (lf_tiny f) \<and> x \<notin> set (lf_main f));
     f1 \<leftarrow> rlfu_update_frequencies sk hash (f\<lparr>lf_tiny := x # lf_tiny f\<rparr>) x;
     n \<leftarrow> uadd (length (lf_tiny f1)) (length (lf_main f1));
     let expected = f64_to_usize (rnd (lf_tiny_lru_capacity_ratio f1 * f64_of_usize rnd n));
     f2 \<leftarrow> (if length (lf_tiny f1) > expected then rlfu_switch_to_front f1 (last (lf_tiny f1)) else maybe_promote_tail sk hash f1);
     f3 \<leftarrow> maybe_grow_access_counters rnd sk f2;
     l \<leftarrow> uadd (lf_len f3) 1;
     Some (f3\<lparr>lf_len := l\<rparr>)
   }"

definition rlfu_remove :: "'s RLfu \<Rightarrow> nat \<Rightarrow> 's RLfu option" where
  "rlfu_remove f x = do {
     ensure (x \<in> set (lf_tiny f) \<or> x \<in> set (lf_main f));
     f1 \<leftarrow> remove_from_lru f x;
     l \<leftarrow> usub (lf_len f1) 1;
     Some (f1\<lparr>lf_len := l\<rparr>)
   }"

definition rlfu_access :: "'s sketch_ops \<Rightarrow> (nat \<Rightarrow> 64 word) \<Rightarrow> 's RLfu \<Rightarrow> nat \<Rightarrow> 's RLfu option" where
  "rlfu_access sk hash f x = do {
     ensure (x \<in> set (lf_tiny f) \<or> x \<in> set (lf_main f));
     f1 \<leftarrow> rlfu_move_to_front f x;
     rlfu_update_frequencies sk hash f1 x
   }"

text \<open>The first item of the iterator; the assertions of \<^verbatim>\<open>admit_to_main\<close> hold there, so they are not repeated.\<close>

definition rlfu_first :: "'s sketch_ops \<Rightarrow> (nat \<Rightarrow> 64 word) \<Rightarrow> 's RLfu \<Rightarrow> nat option" where
  "rlfu_first sk hash f =
     (if lf_main f = [] then (if lf_tiny f = [] then None else Some (last (lf_tiny f)))
      else if lf_tiny f = [] then Some (last (lf_main f))
      else if admit_to_main sk hash f (last (lf_main f)) (last (lf_tiny f)) = Some True then Some (last (lf_main f))
      else Some (last (lf_tiny f)))"

definition rlfu_ops :: "(f64 \<Rightarrow> f64) \<Rightarrow> 's sketch_ops \<Rightarrow> (nat \<Rightarrow> 64 word) \<Rightarrow> 's RLfu ep_ops" where
  "rlfu_ops rnd sk hash = \<lparr>ep_insert = rlfu_insert rnd sk hash, ep_remove = rlfu_remove, ep_access = rlfu_access sk hash, ep_first = rlfu_first sk hash,
     ep_len = lf_len, ep_linked = (\<lambda>f x. x \<in> set (lf_tiny f) \<or> x \<in> set (lf_main f))\<rparr>"

section \<open>The contract\<close>

text \<open>Rounding to nearest at most doubles a number that is not negative.\<close>

definition rounds :: "(f64 \<Rightarrow> f64) \<Rightarrow> bool" where
  "rounds rnd \<longleftrightarrow> (\<forall>x \<ge> 0. 0 \<le> rnd x \<and> rnd x \<le> 2 * x)"

definition lf_items :: "'s RLfu \<Rightarrow> nat list" where
  "lf_items f = lf_tiny f @ lf_main f"

definition lf_windows :: "'s RLfu \<Rightarrow> bool" where
  "lf_windows f \<longleftrightarrow> lf_window_size f < lf_max_window_size f \<and> lf_max_window_size f < usize_lim \<and> lf_capacity f \<le> 2 ^ 32 \<and>
     0 < lf_window_to_cache_size_ratio f \<and> lf_window_to_cache_size_ratio f \<le> 2 ^ 20"

definition rlfu_ok :: "(f64 \<Rightarrow> f64) \<Rightarrow> 's RLfu \<Rightarrow> bool" where
  "rlfu_ok rnd f \<longleftrightarrow> rounds rnd \<and> distinct (lf_items f) \<and> lf_len f = length (lf_items f) \<and> lf_len f \<le> 2 ^ 32 \<and> lf_windows f"

lemma next_power_of_two_less: "1 \<le> n \<Longrightarrow> next_power_of_two n < 2 * n"
proof (induction n rule: next_power_of_two.induct)
  case (1 n)
  show ?case
  proof (cases "n \<le> 1")
    case True
    then show ?thesis using 1(2) by (subst next_power_of_two.simps) simp
  next
    case False
    then have "next_power_of_two ((n + 1) div 2) < 2 * ((n + 1) div 2)" using 1(1) by simp
    moreover have "next_power_of_two ((n + 1) div 2) = 1 \<or> even (next_power_of_two ((n + 1) div 2))" by (subst (1 2) next_power_of_two.simps) simp
    ultimately show ?thesis using False by (subst next_power_of_two.simps) (auto elim!: evenE)
  qed
qed


text \<open>The counters.\<close>

lemma counters_for_le:
  assumes r: "rounds rnd"
  shows "counters_for rnd w \<le> 9 * w"
proof -
  have up: "rnd x \<le> 2 * x" "0 \<le> rnd x" if "0 \<le> x" for x using r that by (auto simp: rounds_def)
  define e where "e = rnd (2718281828459045 / 10 ^ 15)"
  define v where "v = f64_of_usize rnd w"
  have e: "0 \<le> e" "e \<le> 11 / 2" using up [of "2718281828459045 / 10 ^ 15"] by (simp_all add: e_def)
  have v: "0 \<le> v" "v \<le> 2 * of_nat w" using up [of "of_nat w"] by (simp_all add: v_def f64_of_usize_def)
  have ev: "0 \<le> e * v" "e * v \<le> 11 / 2 * (2 * of_nat w)" using e v by (simp, intro mult_mono) auto
  then have p: "0 \<le> rnd (e * v)" "rnd (e * v) \<le> 22 * of_nat w" using up [OF ev(1)] by auto
  then have "rnd (rnd (e * v) / 5) \<le> 2 * (22 * of_nat w / 5)" using up(1) [of "rnd (e * v) / 5"] by simp
  also have "\<dots> \<le> of_nat (9 * w)" by simp
  finally have "nat \<lfloor>rnd (rnd (e * v) / 5)\<rfloor> \<le> 9 * w" by (metis floor_mono floor_of_nat nat_int nat_mono)
  then show ?thesis by (simp add: counters_for_def f64_to_usize_def e_def v_def)
qed

lemma counters_lim:
  assumes "rounds rnd" "w \<le> 2 ^ 52"
  shows "next_power_of_two (counters_for rnd w) < usize_lim"
proof (cases "counters_for rnd w = 0")
  case True
  then show ?thesis by (simp add: next_power_of_two.simps [of 0] usize_lim_def)
next
  case False
  then have "next_power_of_two (counters_for rnd w) < 2 * (9 * w)" using next_power_of_two_less [of "counters_for rnd w"] counters_for_le [OF assms(1), of w] by simp
  also have "\<dots> < usize_lim" using assms(2) by (simp add: usize_lim_def)
  finally show ?thesis .
qed

text \<open>The fields that are neither a list nor a counter of the window.\<close>

definition lf_kept :: "'s RLfu \<Rightarrow> 's RLfu \<Rightarrow> bool" where
  "lf_kept f f' \<longleftrightarrow> lf_len f' = lf_len f \<and> lf_window_to_cache_size_ratio f' = lf_window_to_cache_size_ratio f \<and>
     lf_tiny_lru_capacity_ratio f' = lf_tiny_lru_capacity_ratio f"

lemma maybe_grow_ok:
  assumes r: "rounds rnd" and w: "0 < lf_window_to_cache_size_ratio f" "lf_window_to_cache_size_ratio f \<le> 2 ^ 20" and c: "lf_capacity f \<le> 2 ^ 32"
    and n: "length (lf_items f) \<le> 2 ^ 32" and win: "lf_capacity f = 0 \<or> lf_windows f"
  shows "\<exists>f'. maybe_grow_access_counters rnd sk f = Some f' \<and> lf_windows f' \<and> lf_items f' = lf_items f \<and> lf_kept f f'"
proof -
  let ?n = "length (lf_tiny f) + length (lf_main f)"
  have n': "?n \<le> 2 ^ 32" using n by (simp add: lf_items_def)
  have add: "uadd (length (lf_tiny f)) (length (lf_main f)) = Some ?n" "umul 2 (lf_capacity f) = Some (2 * lf_capacity f)"
    using n' c by (simp_all add: checked usize_lim_def)
  show ?thesis
  proof (cases "2 * lf_capacity f > ?n")
    case True
    then show ?thesis using add win by (auto simp: maybe_grow_access_counters_def lf_kept_def)
  next
    case False
    define cap where "cap = max ?n 100"
    have cap: "0 < cap" "cap \<le> 2 ^ 32" using n' by (auto simp: cap_def)
    then have "cap * lf_window_to_cache_size_ratio f \<le> 2 ^ 32 * 2 ^ 20" using w by (intro mult_le_mono) auto
    then have lim: "cap * lf_window_to_cache_size_ratio f \<le> 2 ^ 52" by simp
    then have m: "umul cap (lf_window_to_cache_size_ratio f) = Some (cap * lf_window_to_cache_size_ratio f)" by (simp add: checked usize_lim_def)
    show ?thesis using False add m counters_lim [OF r lim] cap w lim
      by (simp add: maybe_grow_access_counters_def Let_def lf_windows_def lf_items_def lf_kept_def usize_lim_def flip: cap_def)
  qed
qed

lemma rlfu_update_frequencies_ok:
  assumes "lf_windows f"
  shows "\<exists>f'. rlfu_update_frequencies sk hash f x = Some f' \<and> lf_windows f' \<and> lf_tiny f' = lf_tiny f \<and> lf_main f' = lf_main f \<and> lf_kept f f'"
  using assms by (auto simp: rlfu_update_frequencies_def lf_windows_def lf_kept_def Let_def checked)

text \<open>Moving items between the lists.\<close>

definition lf_moved :: "'s RLfu \<Rightarrow> 's RLfu \<Rightarrow> bool" where
  "lf_moved f f' \<longleftrightarrow> mset (lf_items f') = mset (lf_items f) \<and> lf_windows f' = lf_windows f \<and> lf_capacity f' = lf_capacity f \<and> lf_kept f f'"

lemma lru_type_ok:
  assumes "distinct (lf_items f)"
  shows "x \<in> set (lf_tiny f) \<Longrightarrow> lru_type f x = Some LruTiny" and "x \<in> set (lf_main f) \<Longrightarrow> lru_type f x = Some LruMain"
  using assms by (auto simp: lru_type_def lf_items_def split: bool.splits)

lemma lf_moved_refl: "lf_moved f f"
  by (simp add: lf_moved_def lf_kept_def)

lemma lf_moved_trans: "lf_moved f g \<Longrightarrow> lf_moved g h \<Longrightarrow> lf_moved f h"
  by (simp add: lf_moved_def lf_kept_def)

lemma lf_moved_distinct: "lf_moved f g \<Longrightarrow> distinct (lf_items f) \<Longrightarrow> distinct (lf_items g)"
  using mset_eq_imp_distinct_iff by (auto simp: lf_moved_def)

lemma lf_moved_set: "lf_moved f g \<Longrightarrow> set (lf_items g) = set (lf_items f)"
  by (auto simp: lf_moved_def dest: mset_eq_setD)

lemma rlfu_move_ok:
  assumes "distinct (lf_items f)" "x \<in> set (lf_items f)"
  shows "\<exists>f'. rlfu_move_to_front f x = Some f' \<and> lf_moved f f'"
proof -
  consider "x \<in> set (lf_tiny f)" | "x \<in> set (lf_main f)" using assms(2) by (auto simp: lf_items_def)
  then show ?thesis using lru_type_ok [OF assms(1)]
    by cases (simp_all add: rlfu_move_to_front_def lf_moved_def lf_items_def lf_windows_def lf_kept_def)
qed

lemma rlfu_switch_ok:
  assumes "distinct (lf_items f)" "x \<in> set (lf_items f)"
  shows "\<exists>f'. rlfu_switch_to_front f x = Some f' \<and> lf_moved f f'"
proof -
  consider "x \<in> set (lf_tiny f)" | "x \<in> set (lf_main f)" using assms(2) by (auto simp: lf_items_def)
  then show ?thesis using lru_type_ok [OF assms(1)]
    by cases (simp_all add: rlfu_switch_to_front_def lf_moved_def lf_items_def lf_windows_def lf_kept_def)
qed

lemma admit_to_main_ok:
  assumes "distinct (lf_items f)" "m \<in> set (lf_main f)" "t \<in> set (lf_tiny f)"
  shows "admit_to_main sk hash f m t = Some (sk_count sk (lf_frequencies f) (hash m) \<le> sk_count sk (lf_frequencies f) (hash t))"
  using lru_type_ok(2) [OF assms(1,2)] lru_type_ok(1) [OF assms(1,3)] by (simp add: admit_to_main_def)

lemma maybe_promote_tail_ok:
  assumes d: "distinct (lf_items f)"
  shows "\<exists>f'. maybe_promote_tail sk hash f = Some f' \<and> lf_moved f f'"
proof (cases "lf_main f = [] \<or> lf_tiny f = []")
  case True
  then show ?thesis by (simp add: maybe_promote_tail_def lf_moved_refl)
next
  case False
  define m t where "m = last (lf_main f)" and "t = last (lf_tiny f)"
  have mt: "m \<in> set (lf_main f)" "t \<in> set (lf_tiny f)" using False by (simp_all add: m_def t_def)
  then have i: "m \<in> set (lf_items f)" "t \<in> set (lf_items f)" by (auto simp: lf_items_def)
  obtain f1 where f1: "rlfu_switch_to_front f m = Some f1" "lf_moved f f1" using rlfu_switch_ok [OF d i(1)] by blast
  have i1: "t \<in> set (lf_items f1)" using i(2) lf_moved_set [OF f1(2)] by simp
  obtain f2 where f2: "rlfu_switch_to_front f1 t = Some f2" "lf_moved f1 f2" using rlfu_switch_ok [OF lf_moved_distinct [OF f1(2) d] i1] by blast
  obtain f3 where f3: "rlfu_move_to_front f m = Some f3" "lf_moved f f3" using rlfu_move_ok [OF d i(1)] by blast
  show ?thesis using False f1 f2 f3 lf_moved_trans [OF f1(2) f2(2)]
    by (simp add: maybe_promote_tail_def Let_def admit_to_main_ok [OF d mt] flip: m_def t_def)
qed

text \<open>The operations.\<close>

lemma lf_items_len [simp]: "lf_items (f\<lparr>lf_len := n\<rparr>) = lf_items f"
  by (simp add: lf_items_def)

lemma rlfu_insert_ok:
  assumes ok: "rlfu_ok rnd f" and x: "x \<notin> set (lf_items f)" and lim: "length (lf_items f) < 2 ^ 32"
  shows "\<exists>f'. rlfu_insert rnd sk hash f x = Some f' \<and> rlfu_ok rnd f' \<and> set (lf_items f') = insert x (set (lf_items f))"
proof -
  have wf: "rounds rnd" "distinct (lf_items f)" "lf_len f = length (lf_items f)" "lf_windows f" using ok by (simp_all add: rlfu_ok_def)
  define f0 where "f0 = f\<lparr>lf_tiny := x # lf_tiny f\<rparr>"
  have "lf_windows f0" using wf(4) by (simp add: f0_def lf_windows_def)
  then obtain f1 where f1: "rlfu_update_frequencies sk hash f0 x = Some f1" "lf_windows f1" "lf_tiny f1 = x # lf_tiny f" "lf_main f1 = lf_main f" "lf_kept f0 f1"
    using rlfu_update_frequencies_ok [of f0 sk hash x] by (auto simp: f0_def)
  have i1: "lf_items f1 = x # lf_items f" using f1(3,4) by (simp add: lf_items_def)
  have d1: "distinct (lf_items f1)" using i1 wf(2) x by simp
  have n1: "uadd (length (lf_tiny f1)) (length (lf_main f1)) = Some (length (lf_items f1))"
    using f1(3,4) lim by (simp add: lf_items_def checked usize_lim_def)
  define expected where "expected = f64_to_usize (rnd (lf_tiny_lru_capacity_ratio f1 * f64_of_usize rnd (length (lf_items f1))))"
  have tl: "last (lf_tiny f1) \<in> set (lf_items f1)" using f1(3) last_in_set [of "lf_tiny f1"] by (auto simp: lf_items_def)
  obtain f2 where f2: "(if length (lf_tiny f1) > expected then rlfu_switch_to_front f1 (last (lf_tiny f1)) else maybe_promote_tail sk hash f1) = Some f2" "lf_moved f1 f2"
    using rlfu_switch_ok [OF d1 tl] maybe_promote_tail_ok [OF d1, of sk hash] by (cases "length (lf_tiny f1) > expected") auto
  have l2: "length (lf_items f2) = Suc (length (lf_items f))" using f2(2) i1 mset_eq_length [of "lf_items f2" "lf_items f1"] by (simp add: lf_moved_def)
  have w2: "lf_windows f2" using f2(2) f1(2) by (simp add: lf_moved_def)
  then obtain f3 where f3: "maybe_grow_access_counters rnd sk f2 = Some f3" "lf_windows f3" "lf_items f3 = lf_items f2" "lf_kept f2 f3"
    using maybe_grow_ok [OF wf(1), of f2 sk] l2 lim by (auto simp: lf_windows_def)
  have len: "lf_len f3 = length (lf_items f)" using f3(4) f2(2) f1(5) wf(3) by (simp add: lf_kept_def lf_moved_def f0_def)
  have "rlfu_insert rnd sk hash f x = Some (f3\<lparr>lf_len := Suc (length (lf_items f))\<rparr>)"
    using x f1(1) n1 f2(1) f3(1) len lim by (simp add: rlfu_insert_def lf_items_def f0_def expected_def checked usize_lim_def)
  moreover have "rlfu_ok rnd (f3\<lparr>lf_len := Suc (length (lf_items f))\<rparr>)"
    using wf(1) lf_moved_distinct [OF f2(2) d1] f3(2,3) l2 lim by (simp add: rlfu_ok_def lf_items_def lf_windows_def)
  moreover have "set (lf_items (f3\<lparr>lf_len := Suc (length (lf_items f))\<rparr>)) = insert x (set (lf_items f))"
    using lf_moved_set [OF f2(2)] f3(3) i1 by simp
  ultimately show ?thesis by blast
qed

lemma rlfu_remove_ok:
  assumes ok: "rlfu_ok rnd f" and x: "x \<in> set (lf_items f)"
  shows "\<exists>f'. rlfu_remove f x = Some f' \<and> rlfu_ok rnd f' \<and> set (lf_items f') = set (lf_items f) - {x}"
proof -
  have d: "distinct (lf_items f)" and len: "lf_len f = length (lf_items f)" using ok by (simp_all add: rlfu_ok_def)
  have pos: "1 \<le> lf_len f" using len length_pos_if_in_set [OF x] by linarith
  consider (t) "x \<in> set (lf_tiny f)" "x \<notin> set (lf_main f)" | (m) "x \<in> set (lf_main f)" "x \<notin> set (lf_tiny f)" using x d by (auto simp: lf_items_def)
  moreover have sub: "usub (lf_len f) 1 = Some (lf_len f - 1)" using pos by (rule usub_Some)
  ultimately show ?thesis
  proof cases
    case t
    then have "rlfu_remove f x = Some (f\<lparr>lf_tiny := remove1 x (lf_tiny f), lf_len := lf_len f - 1\<rparr>)"
      using lru_type_ok(1) [OF d t(1)] sub by (simp add: rlfu_remove_def remove_from_lru_def)
    then show ?thesis using t ok length_pos_if_in_set [OF t(1)] by (auto simp: rlfu_ok_def lf_items_def lf_windows_def length_remove1 Suc_le_eq)
  next
    case m
    then have "rlfu_remove f x = Some (f\<lparr>lf_main := remove1 x (lf_main f), lf_len := lf_len f - 1\<rparr>)"
      using lru_type_ok(2) [OF d m(1)] sub by (simp add: rlfu_remove_def remove_from_lru_def)
    then show ?thesis using m ok length_pos_if_in_set [OF m(1)] by (auto simp: rlfu_ok_def lf_items_def lf_windows_def length_remove1 Suc_le_eq)
  qed
qed

lemma rlfu_access_ok:
  assumes ok: "rlfu_ok rnd f" and x: "x \<in> set (lf_items f)"
  shows "\<exists>f'. rlfu_access sk hash f x = Some f' \<and> rlfu_ok rnd f' \<and> set (lf_items f') = set (lf_items f)"
proof -
  have d: "distinct (lf_items f)" using ok by (simp add: rlfu_ok_def)
  obtain f1 where f1: "rlfu_move_to_front f x = Some f1" "lf_moved f f1" using rlfu_move_ok [OF d x] by blast
  have "lf_windows f1" using ok f1(2) by (simp add: rlfu_ok_def lf_moved_def)
  then obtain f2 where f2: "rlfu_update_frequencies sk hash f1 x = Some f2" "lf_windows f2" "lf_tiny f2 = lf_tiny f1" "lf_main f2 = lf_main f1" "lf_kept f1 f2"
    using rlfu_update_frequencies_ok by blast
  have i: "lf_items f2 = lf_items f1" using f2 by (simp add: lf_items_def)
  have "length (lf_items f2) = length (lf_items f)" using f1(2) i by (metis lf_moved_def mset_eq_length)
  then have "rlfu_ok rnd f2" using ok f1(2) f2(2,5) i lf_moved_distinct [OF f1(2) d] by (simp add: rlfu_ok_def lf_moved_def lf_kept_def)
  moreover have "rlfu_access sk hash f x = Some f2" using x f1(1) f2(1) by (auto simp: rlfu_access_def lf_items_def)
  ultimately show ?thesis using i lf_moved_set [OF f1(2)] by auto
qed

lemma rlfu_first_in: "rlfu_first sk hash f = Some x \<Longrightarrow> x \<in> set (lf_items f)"
  by (auto simp: rlfu_first_def lf_items_def split: if_splits)

lemma rlfu_first_None: "rlfu_first sk hash f = None \<longleftrightarrow> lf_items f = []"
  by (simp add: rlfu_first_def lf_items_def)

lemma rlfu_card: "rlfu_ok rnd f \<Longrightarrow> card (set (lf_items f)) = length (lf_items f)"
  by (simp add: rlfu_ok_def distinct_card)

interpretation rlfu: eviction_policy "rlfu_ops rnd sk hash" "rlfu_ok rnd" "\<lambda>f. set (lf_items f)"
proof
  fix f x
  show "\<exists>f'. ep_insert (rlfu_ops rnd sk hash) f x = Some f' \<and> rlfu_ok rnd f' \<and> set (lf_items f') = insert x (set (lf_items f))"
    if "rlfu_ok rnd f" "x \<notin> set (lf_items f)" "card (set (lf_items f)) < 2 ^ 32"
    using rlfu_insert_ok [OF that(1,2), of sk hash] rlfu_card [OF that(1)] that(3) by (simp add: rlfu_ops_def)
  show "\<exists>f'. ep_remove (rlfu_ops rnd sk hash) f x = Some f' \<and> rlfu_ok rnd f' \<and> set (lf_items f') = set (lf_items f) - {x}"
    if "rlfu_ok rnd f" "ep_first (rlfu_ops rnd sk hash) f = Some x"
    using rlfu_remove_ok [OF that(1) rlfu_first_in, of sk hash] that(2) by (simp add: rlfu_ops_def)
  show "\<exists>f'. ep_access (rlfu_ops rnd sk hash) f x = Some f' \<and> rlfu_ok rnd f' \<and> set (lf_items f') = set (lf_items f)"
    if "rlfu_ok rnd f" "x \<in> set (lf_items f)"
    using rlfu_access_ok [OF that, of sk hash] by (simp add: rlfu_ops_def)
  show "case ep_first (rlfu_ops rnd sk hash) f of None \<Rightarrow> set (lf_items f) = {} | Some y \<Rightarrow> y \<in> set (lf_items f)"
    using rlfu_first_in [of sk hash f] rlfu_first_None [of sk hash f] by (auto simp: rlfu_ops_def split: option.splits)
  show "ep_len (rlfu_ops rnd sk hash) f = card (set (lf_items f))" if "rlfu_ok rnd f"
    using rlfu_card [OF that] that by (simp add: rlfu_ops_def rlfu_ok_def)
qed (auto simp: rlfu_ops_def lf_items_def)

lemma rlfu_new_ok:
  assumes "rounds rnd" "0 < window_ratio" "window_ratio \<le> 2 ^ 20"
  shows "\<exists>f. rlfu_new rnd sk window_ratio tiny_ratio = Some f \<and> rlfu_ok rnd f \<and> lf_items f = []"
proof -
  define f0 where "f0 = \<lparr>lf_tiny = [], lf_main = [], lf_window_size = 0, lf_max_window_size = 0, lf_capacity = 0, lf_frequencies = sk_new_with_size sk 1 1, lf_len = 0,
      lf_window_to_cache_size_ratio = window_ratio, lf_tiny_lru_capacity_ratio = tiny_ratio\<rparr>"
  obtain f where "maybe_grow_access_counters rnd sk f0 = Some f" "lf_windows f" "lf_items f = lf_items f0" "lf_kept f0 f"
    using maybe_grow_ok [OF assms(1), of f0 sk] assms by (auto simp: f0_def lf_items_def)
  then show ?thesis using assms(1) by (simp add: rlfu_new_def rlfu_ok_def f0_def lf_items_def lf_kept_def)
qed

end
