(* ===== verification/Policies.thy ===== *)
theory Policies
  imports Policy_Lru Policy_Sfifo Policy_Lfu
begin

text \<open>
  The properties of the intrusive eviction policies: all of them implement the interface that the region manager relies on, and the assertion of the policy \<^verbatim>\<open>Lru\<close> fails
  for some removals that the interface allows and the region manager never makes.
\<close>

section \<open>Properties\<close>

text \<open>C36. The policies \<^verbatim>\<open>Fifo\<close>, \<^verbatim>\<open>Lru\<close>, \<^verbatim>\<open>SegmentedFifo\<close> and \<^verbatim>\<open>Lfu\<close> implement the interface of the region manager, so that the manager and everything above it
  hold for each of them: inserting adds exactly the item, popping takes out an item of the policy and finds none only when the policy is
  empty, an access keeps the items, and the length is the number of the items; no assertion fails and nothing overflows. New policies are empty and well-formed. The
  hypotheses are on the configuration and the rounding of the floating-point numbers.\<close>

theorem policies_implement_interface:
  assumes "rounds rnd" "0 < window_ratio" "window_ratio \<le> 2 ^ 20"
    and frac: "fraction = 0 \<or> (\<forall>n > 1. expected_tail_len rnd fraction n < n)"
    and seg: "(\<Sum>r \<leftarrow> ratios. r) < usize_lim" "\<forall>x. prio x < length ratios"
  shows "eviction_policy rfifo_ops rfifo_ok (\<lambda>f. set (rf_queue f)) \<and> rfifo_ok rfifo_new \<and>
    eviction_policy (rlru_ops rnd) (rlru_ok rnd) (\<lambda>f. set (rl_lru f)) \<and> rlru_ok rnd (rlru_new fraction) \<and>
    eviction_policy (rsfifo_ops rnd prio) (rsfifo_ok prio) (\<lambda>f. set (concat (sf_segments f))) \<and>
    (\<exists>f. rsfifo_new ratios = Some f \<and> rsfifo_ok prio f \<and> concat (sf_segments f) = []) \<and>
    eviction_policy (rlfu_ops rnd sk hash) (rlfu_ok rnd) (\<lambda>f. set (lf_items f)) \<and>
    (\<exists>f. rlfu_new rnd sk window_ratio tiny_ratio = Some f \<and> rlfu_ok rnd f \<and> lf_items f = [])"
proof (intro conjI)
  show "rfifo_ok rfifo_new" by (simp add: rfifo_ok_def rfifo_new_def)
  show "rlru_ok rnd (rlru_new fraction)" using frac by (auto simp: rlru_ok_def rlru_new_def rlru_tail_def list_front_def)
  have "usum ratios 0 = Some (\<Sum>r \<leftarrow> ratios. r)" using usum_ok [of 0 ratios] seg(1) by simp
  then show "\<exists>f. rsfifo_new ratios = Some f \<and> rsfifo_ok prio f \<and> concat (sf_segments f) = []"
    using seg(2) by (auto simp: rsfifo_new_def rsfifo_ok_def sf_wf_def)
  show "\<exists>f. rlfu_new rnd sk window_ratio tiny_ratio = Some f \<and> rlfu_ok rnd f \<and> lf_items f = []" by (rule rlfu_new_ok [OF assms(1-3)])
qed (rule rfifo.eviction_policy_axioms rlru.eviction_policy_axioms rsfifo.eviction_policy_axioms rlfu.eviction_policy_axioms)+

text \<open>With exact arithmetic, the insertion point in the middle, a window of 32 and two segments.\<close>

theorem policies_implement_interface_witness:
  "eviction_policy (rlfu_ops (\<lambda>x. x) \<lparr>sk_new_with_size = \<lambda>n m _. 0, sk_record = \<lambda>s h. s(h := s h + 1), sk_count = \<lambda>s h. s h, sk_decay = \<lambda>s d h. s h div 2\<rparr> word_of_nat)
     (rlfu_ok (\<lambda>x. x)) (\<lambda>f. set (lf_items f)) \<and> rlru_ok (\<lambda>x. x) (rlru_new (1 / 2)) \<and> (\<exists>f. rsfifo_new [1, 2] = Some f \<and> rsfifo_ok (\<lambda>x. x mod 2) f)"
proof -
  have r: "rounds (\<lambda>x. x)" by (simp add: rounds_def)
  have "expected_tail_len (\<lambda>x. x) (1 / 2) n < n" if "1 < n" for n
  proof -
    have "\<lfloor>of_nat n * (1 / 2 :: rat)\<rfloor> < int n" using that by (simp add: floor_less_iff)
    then show ?thesis using that by (simp add: expected_tail_len_def f64_to_usize_def f64_of_usize_def min_less_iff_disj nat_less_iff)
  qed
  then have f: "(1 / 2 :: rat) = 0 \<or> (\<forall>n > 1. expected_tail_len (\<lambda>x. x) (1 / 2) n < n)" by blast
  have s: "(\<Sum>r \<leftarrow> [1, 2]. r) < usize_lim" "\<forall>x. x mod 2 < length [1 :: nat, 2]" by (simp_all add: usize_lim_def flip: numeral_2_eq_2)
  show ?thesis using policies_implement_interface [OF r _ _ f s, of 32
      "\<lparr>sk_new_with_size = \<lambda>n m _. 0, sk_record = \<lambda>s h. s(h := s h + 1), sk_count = \<lambda>s h. s h, sk_decay = \<lambda>s d h. s h div 2\<rparr>" word_of_nat "1 / 100"] by auto
qed

text \<open>Removing an item that is not, or no longer, the insertion point.\<close>

lemma remove_moved:
  assumes e: "ensure_not_insertion_point f x = Some f1" "rlru_tail f1 pre post" "list_front post \<noteq> Some x"
    and x: "x \<in> set (rl_lru f)" and l: "rl_lru f1 = rl_lru f" "rl_len f1 = length (rl_lru f)"
  shows "\<exists>f'. rlru_remove f x = Some f' \<and> rl_lru f' = remove1 x (rl_lru f) \<and> rlru_tail f' (remove1 x pre) (remove1 x post)"
proof -
  have "x \<in> set (pre @ post)" using x l(1) e(2) by (simp add: rlru_tail_def)
  note u = unlink_tail(1,3) [OF e(2) this e(3)]
  have sub: "usub (length (rl_lru f)) 1 = Some (length (rl_lru f) - 1)" using length_pos_if_in_set [OF x] by (simp add: checked Suc_le_eq)
  define f2 where "f2 = (if rl_in_tail f1 x then f1\<lparr>rl_lru := remove1 x (rl_lru f1), rl_tail_len := rl_tail_len f1 - 1, rl_in_tail := (rl_in_tail f1)(x := False)\<rparr>
      else f1\<lparr>rl_lru := remove1 x (rl_lru f1)\<rparr>)"
  have "rlru_remove f x = Some (f2\<lparr>rl_len := length (rl_lru f) - 1\<rparr>)"
    using x e(1) u(2) l(2) sub by (cases "rl_in_tail f1 x") (simp_all add: rlru_remove_def f2_def Let_def checked)
  moreover have "rlru_tail (f2\<lparr>rl_len := length (rl_lru f) - 1\<rparr>) (remove1 x pre) (remove1 x post)" using u(1) unfolding f2_def by (simp add: rlru_tail_def)
  moreover have "rl_lru f2 = remove1 x (rl_lru f)" using l(1) by (simp add: f2_def)
  ultimately show ?thesis by auto
qed

text \<open>C37. Which removals of the policy \<^verbatim>\<open>Lru\<close> panic. When the flags, the counter and the insertion point describe the tail \<open>post\<close> of the list, removing an item fails its assertion
  exactly when the item is the insertion point at the front of the list and not the only item, and then an access to the item fails too; every other removal
  returns, and leaves a well-described tail behind.\<close>

theorem rlru_remove_panics:
  assumes t: "rlru_tail f pre post" and lim: "length (rl_lru f) \<le> 2 ^ 32" and len: "rl_len f = length (rl_lru f)" and x: "x \<in> set (rl_lru f)"
  shows "(rlru_remove f x = None \<longleftrightarrow> pre = [] \<and> rl_insertion_point f = Some x \<and> length (rl_lru f) > 1) \<and>
    (rlru_remove f x = None \<longrightarrow> rlru_access rnd f x = None) \<and>
    (\<forall>f'. rlru_remove f x = Some f' \<longrightarrow> rl_lru f' = remove1 x (rl_lru f) \<and> (\<exists>pre' post'. rlru_tail f' pre' post'))"
proof (cases "rl_insertion_point f = Some x")
  case False
  have T: "list_front post \<noteq> Some x" using False t by (simp add: rlru_tail_def)
  have "\<exists>f'. rlru_remove f x = Some f' \<and> rl_lru f' = remove1 x (rl_lru f) \<and> rlru_tail f' (remove1 x pre) (remove1 x post)"
    by (rule remove_moved [OF ensure_skip [OF False] t T x refl len])
  then show ?thesis using False by fastforce
next
  case ip: True
  then obtain ps where post: "post = x # ps" using t by (cases post) (auto simp: rlru_tail_def list_front_def)
  have tx: "rlru_tail f pre (x # ps)" using t post by simp
  have l: "rl_lru f = pre @ x # ps" "rl_in_tail f x" "rl_tail_len f = Suc (length ps)" "distinct (pre @ x # ps)" using tx by (simp_all add: rlru_tail_def)
  show ?thesis
  proof (cases pre rule: rev_cases)
    case Nil
    show ?thesis
    proof (cases "ps = []")
      case True
      have "rlru_remove f x = Some (f\<lparr>rl_insertion_point := None, rl_lru := [], rl_tail_len := 0, rl_in_tail := (rl_in_tail f)(x := False), rl_len := 0\<rparr>)"
        using ensure_moves(1) [OF tx lim Nil True] l True Nil len by (simp add: rlru_remove_def checked)
      moreover have "rlru_tail (f\<lparr>rl_insertion_point := None, rl_lru := [], rl_tail_len := 0, rl_in_tail := (rl_in_tail f)(x := False), rl_len := 0\<rparr>) [] []"
        using tx True by (auto simp: rlru_tail_def list_front_def fun_eq_iff)
      ultimately show ?thesis using l(1) True Nil by auto
    next
      case False
      have "ensure_not_insertion_point f x = None" by (rule ensure_moves(3) [OF tx lim Nil False])
      then show ?thesis using ip x l(1) Nil False by (simp add: rlru_remove_def rlru_access_def)
    qed
  next
    case (snoc pre' a)
    obtain f1 where f1: "ensure_not_insertion_point f x = Some f1" "rlru_tail f1 pre' (a # x # ps)" "rl_len f1 = rl_len f"
      using ensure_moves(2) [OF tx lim snoc] by blast
    have "list_front (a # x # ps) \<noteq> Some x" "rl_lru f1 = rl_lru f" "rl_len f1 = length (rl_lru f)" using f1 l snoc len by (auto simp: list_front_def rlru_tail_def)
    from remove_moved [OF f1(1,2) this(1) x this(2,3)] show ?thesis using snoc by fastforce
  qed
qed

text \<open>Four insertions make the third item the insertion point, and removing the two items in front of it brings it to the front: its removal panics.\<close>

lemma half_tail:
  "expected_tail_len (\<lambda>x. x) (1 / 2) (Suc (Suc 0)) = Suc 0" "expected_tail_len (\<lambda>x. x) (1 / 2) (Suc (Suc (Suc 0))) = Suc 0"
  "expected_tail_len (\<lambda>x. x) (1 / 2) (Suc (Suc (Suc (Suc 0)))) = Suc (Suc 0)"
proof -
  have "\<lfloor>3 / 2 :: rat\<rfloor> = 1" by (simp add: floor_eq_iff)
  then show "expected_tail_len (\<lambda>x. x) (1 / 2) (Suc (Suc (Suc 0))) = Suc 0" by (simp add: expected_tail_len_def f64_to_usize_def f64_of_usize_def usize_lim_def)
qed (simp_all add: expected_tail_len_def f64_to_usize_def f64_of_usize_def usize_lim_def)

definition demo_lru :: "nat list \<Rightarrow> nat option \<Rightarrow> nat list \<Rightarrow> RLru" where
  "demo_lru xs p ys = \<lparr>rl_lru = xs, rl_insertion_point = p, rl_tail_len = length ys, rl_len = length xs, rl_fraction = 1 / 2, rl_in_tail = (\<lambda>x. x \<in> set ys)\<rparr>"

lemma demo_lru_run:
  "rlru_insert (\<lambda>x. x) (rlru_new (1 / 2)) 4 = Some (demo_lru [4] (Some 4) [4])"
  "rlru_insert (\<lambda>x. x) (demo_lru [4] (Some 4) [4]) 5 = Some (demo_lru [5, 4] (Some 4) [4])"
  "rlru_insert (\<lambda>x. x) (demo_lru [5, 4] (Some 4) [4]) 6 = Some (demo_lru [5, 6, 4] (Some 4) [4])"
  "rlru_insert (\<lambda>x. x) (demo_lru [5, 6, 4] (Some 4) [4]) 7 = Some (demo_lru [5, 6, 7, 4] (Some 7) [7, 4])"
  "rlru_remove (demo_lru [5, 6, 7, 4] (Some 7) [7, 4]) 5 = Some (demo_lru [6, 7, 4] (Some 7) [7, 4])"
  "rlru_remove (demo_lru [6, 7, 4] (Some 7) [7, 4]) 6 = Some (demo_lru [7, 4] (Some 7) [7, 4])"
  by (simp_all add: demo_lru_def rlru_new_def rlru_insert_def insert_lru_def rlru_remove_def update_lru_insertion_point_def ensure_not_insertion_point_def
      list_back_def list_front_def half_tail Let_def rlru_grow.simps rlru_shrink.simps checked usize_lim_def fun_eq_iff)

theorem rlru_remove_panics_witness:
  "\<exists>f. do {
     f0 \<leftarrow> rlru_insert (\<lambda>x. x) (rlru_new (1 / 2)) 4;
     f1 \<leftarrow> rlru_insert (\<lambda>x. x) f0 5;
     f2 \<leftarrow> rlru_insert (\<lambda>x. x) f1 6;
     f3 \<leftarrow> rlru_insert (\<lambda>x. x) f2 7;
     f4 \<leftarrow> rlru_remove f3 5;
     rlru_remove f4 6
   } = Some f \<and> rl_lru f = [7, 4] \<and> rlru_remove f 7 = None \<and> rlru_access (\<lambda>x. x) f 7 = None"
proof -
  have "rlru_tail (demo_lru [7, 4] (Some 7) [7, 4]) [] [7, 4]" by (simp add: rlru_tail_def demo_lru_def list_front_def)
  from rlru_remove_panics [OF this, of 7 "\<lambda>x. x"] have "rlru_remove (demo_lru [7, 4] (Some 7) [7, 4]) 7 = None \<and> rlru_access (\<lambda>x. x) (demo_lru [7, 4] (Some 7) [7, 4]) 7 = None"
    by (simp add: demo_lru_def)
  then show ?thesis by (simp add: demo_lru_run) (simp add: demo_lru_def)
qed

end
