(* ===== verification/Intrusive_List.thy ===== *)
theory Intrusive_List
  imports Foyer_Prelude
begin

text \<open>
  The intrusive doubly linked list of \<^verbatim>\<open>foyer-intrusive/src/collections/dlist.rs\<close>, which the eviction containers of both caches use. The links live in a heap, a map from
  addresses, so that the aliasing of the pointers is explicit; an access to an address without a link is \<open>None\<close>. The item of a link is its address, and the position of an iterator
  is the \<open>ptr option\<close> that the code keeps in it. \<open>dlist_rep h d xs\<close> says that the list \<open>d\<close> links the addresses \<open>xs\<close>; the other theories take such a list
  to be \<open>xs\<close>, and C21 is what justifies it.
\<close>

section \<open>Definitions\<close>

record DlistLink =
  dk_prev :: "ptr option"
  dk_next :: "ptr option"
  dk_is_linked :: bool

type_synonym link_heap = "ptr \<rightharpoonup> DlistLink"

record Dlist =
  dl_head :: "ptr option"
  dl_tail :: "ptr option"
  dl_len :: usize

definition dlist_new :: Dlist where
  "dlist_new = \<lparr>dl_head = None, dl_tail = None, dl_len = 0\<rparr>"

definition dlist_front :: "Dlist \<Rightarrow> ptr option" where
  "dlist_front d = dl_head d"

definition dlist_back :: "Dlist \<Rightarrow> ptr option" where
  "dlist_back d = dl_tail d"

definition dlist_is_empty :: "Dlist \<Rightarrow> bool" where
  "dlist_is_empty d \<longleftrightarrow> dl_len d = 0"

definition prev_of_raw :: "link_heap \<Rightarrow> ptr \<Rightarrow> ptr option option" where
  "prev_of_raw h link = map_option dk_prev (h link)"

definition next_of_raw :: "link_heap \<Rightarrow> ptr \<Rightarrow> ptr option option" where
  "next_of_raw h link = map_option dk_next (h link)"

text \<open>Iterators.\<close>

definition dlist_next :: "link_heap \<Rightarrow> Dlist \<Rightarrow> ptr option \<Rightarrow> ptr option option" where
  "dlist_next h d it = (case it of Some link \<Rightarrow> next_of_raw h link | None \<Rightarrow> Some (dl_head d))"

definition dlist_prev :: "link_heap \<Rightarrow> Dlist \<Rightarrow> ptr option \<Rightarrow> ptr option option" where
  "dlist_prev h d it = (case it of Some link \<Rightarrow> prev_of_raw h link | None \<Rightarrow> Some (dl_tail d))"

definition set_next :: "link_heap \<Rightarrow> ptr option \<Rightarrow> ptr option \<Rightarrow> link_heap option" where
  "set_next h p n = (case p of None \<Rightarrow> Some h | Some q \<Rightarrow> map_option (\<lambda>l. h(q \<mapsto> l\<lparr>dk_next := n\<rparr>)) (h q))"

definition set_prev :: "link_heap \<Rightarrow> ptr option \<Rightarrow> ptr option \<Rightarrow> link_heap option" where
  "set_prev h n p = (case n of None \<Rightarrow> Some h | Some q \<Rightarrow> map_option (\<lambda>l. h(q \<mapsto> l\<lparr>dk_prev := p\<rparr>)) (h q))"

definition link_between :: "link_heap \<Rightarrow> ptr \<Rightarrow> ptr option \<Rightarrow> ptr option \<Rightarrow> link_heap option" where
  "link_between h link p n = do {
     h1 \<leftarrow> set_next h p (Some link);
     h2 \<leftarrow> set_prev h1 n (Some link);
     h3 \<leftarrow> set_prev h2 (Some link) p;
     set_next h3 (Some link) n
   }"

definition link_before :: "link_heap \<Rightarrow> ptr \<Rightarrow> ptr \<Rightarrow> link_heap option" where
  "link_before h link n = do {
     p \<leftarrow> prev_of_raw h n;
     link_between h link p (Some n)
   }"

definition link_after :: "link_heap \<Rightarrow> ptr \<Rightarrow> ptr \<Rightarrow> link_heap option" where
  "link_after h link p = do {
     n \<leftarrow> next_of_raw h p;
     link_between h link (Some p) n
   }"

definition set_is_linked :: "link_heap \<Rightarrow> ptr \<Rightarrow> link_heap option" where
  "set_is_linked h link = map_option (\<lambda>l. h(link \<mapsto> l\<lparr>dk_is_linked := True\<rparr>)) (h link)"

definition dlist_insert_before :: "link_heap \<Rightarrow> Dlist \<Rightarrow> ptr option \<Rightarrow> ptr \<Rightarrow> (link_heap \<times> Dlist) option" where
  "dlist_insert_before h d it link_new = do {
     l \<leftarrow> h link_new;
     ensure (\<not> dk_is_linked l);
     (h1, d1) \<leftarrow> (case it of
         Some link \<Rightarrow> map_option (\<lambda>h1. (h1, d)) (link_before h link_new link)
       | None \<Rightarrow> map_option (\<lambda>h1. (h1, d\<lparr>dl_tail := Some link_new\<rparr>)) (link_between h link_new (dl_tail d) None));
     let d2 = (if dl_head d1 = it then d1\<lparr>dl_head := Some link_new\<rparr> else d1);
     h2 \<leftarrow> set_is_linked h1 link_new;
     n \<leftarrow> uadd (dl_len d2) 1;
     Some (h2, d2\<lparr>dl_len := n\<rparr>)
   }"

definition dlist_insert_after :: "link_heap \<Rightarrow> Dlist \<Rightarrow> ptr option \<Rightarrow> ptr \<Rightarrow> (link_heap \<times> Dlist) option" where
  "dlist_insert_after h d it link_new = do {
     l \<leftarrow> h link_new;
     ensure (\<not> dk_is_linked l);
     (h1, d1) \<leftarrow> (case it of
         Some link \<Rightarrow> map_option (\<lambda>h1. (h1, d)) (link_after h link_new link)
       | None \<Rightarrow> map_option (\<lambda>h1. (h1, d\<lparr>dl_head := Some link_new\<rparr>)) (link_between h link_new None (dl_head d)));
     let d2 = (if dl_tail d1 = it then d1\<lparr>dl_tail := Some link_new\<rparr> else d1);
     h2 \<leftarrow> set_is_linked h1 link_new;
     n \<leftarrow> uadd (dl_len d2) 1;
     Some (h2, d2\<lparr>dl_len := n\<rparr>)
   }"

text \<open>The removed item and the new position of the iterator.\<close>

definition dlist_remove :: "link_heap \<Rightarrow> Dlist \<Rightarrow> ptr option \<Rightarrow> (ptr option \<times> link_heap \<times> Dlist \<times> ptr option) option" where
  "dlist_remove h d it = (case it of
       None \<Rightarrow> Some (None, h, d, None)
     | Some link \<Rightarrow> do {
         p \<leftarrow> prev_of_raw h link;
         n \<leftarrow> next_of_raw h link;
         let d1 = (if Some link = dl_head d then d\<lparr>dl_head := n\<rparr> else d);
         let d2 = (if Some link = dl_tail d1 then d1\<lparr>dl_tail := p\<rparr> else d1);
         h1 \<leftarrow> set_next h p n;
         h2 \<leftarrow> set_prev h1 n p;
         ensure (h2 link \<noteq> None);
         len \<leftarrow> usub (dl_len d2) 1;
         Some (Some link, h2(link \<mapsto> \<lparr>dk_prev = None, dk_next = None, dk_is_linked = False\<rparr>), d2\<lparr>dl_len := len\<rparr>, n)
       })"

definition dlist_push_front :: "link_heap \<Rightarrow> Dlist \<Rightarrow> ptr \<Rightarrow> (link_heap \<times> Dlist) option" where
  "dlist_push_front h d link = dlist_insert_after h d None link"

definition dlist_push_back :: "link_heap \<Rightarrow> Dlist \<Rightarrow> ptr \<Rightarrow> (link_heap \<times> Dlist) option" where
  "dlist_push_back h d link = dlist_insert_before h d None link"

definition dlist_pop_front :: "link_heap \<Rightarrow> Dlist \<Rightarrow> (ptr option \<times> link_heap \<times> Dlist) option" where
  "dlist_pop_front h d = do {
     it \<leftarrow> dlist_next h d None;
     (r, h', d', it') \<leftarrow> dlist_remove h d it;
     Some (r, h', d')
   }"

definition dlist_pop_back :: "link_heap \<Rightarrow> Dlist \<Rightarrow> (ptr option \<times> link_heap \<times> Dlist) option" where
  "dlist_pop_back h d = do {
     it \<leftarrow> dlist_prev h d None;
     (r, h', d', it') \<leftarrow> dlist_remove h d it;
     Some (r, h', d')
   }"

definition dlist_remove_raw :: "link_heap \<Rightarrow> Dlist \<Rightarrow> ptr \<Rightarrow> (ptr \<times> link_heap \<times> Dlist) option" where
  "dlist_remove_raw h d link = do {
     (r, h', d', it') \<leftarrow> dlist_remove h d (Some link);
     x \<leftarrow> r;
     Some (x, h', d')
   }"

definition replace_with :: "Dlist \<Rightarrow> Dlist \<Rightarrow> (Dlist \<times> Dlist) option" where
  "replace_with d src = do {
     ensure (dl_head d = None);
     ensure (dl_tail d = None);
     ensure (dl_len d = 0);
     Some (src, dlist_new)
   }"

partial_function (option) dlist_drop_loop :: "link_heap \<Rightarrow> Dlist \<Rightarrow> ptr option \<Rightarrow> (link_heap \<times> Dlist) option" where
  "dlist_drop_loop h d it = (if it = None then Some (h, d) else do {
     (r, h', d', it') \<leftarrow> dlist_remove h d it;
     dlist_drop_loop h' d' it'
   })"

declare dlist_drop_loop.simps [code]

definition dlist_drop :: "link_heap \<Rightarrow> Dlist \<Rightarrow> link_heap option" where
  "dlist_drop h d = do {
     (h', d') \<leftarrow> dlist_drop_loop h d (dl_head d);
     ensure (dlist_is_empty d');
     Some h'
   }"

section \<open>Segments of a list\<close>

definition first_or :: "ptr list \<Rightarrow> ptr option \<Rightarrow> ptr option" where
  "first_or xs n = (case xs of [] \<Rightarrow> n | x # _ \<Rightarrow> Some x)"

definition last_or :: "ptr option \<Rightarrow> ptr list \<Rightarrow> ptr option" where
  "last_or p xs = (if xs = [] then p else Some (last xs))"

fun seg :: "link_heap \<Rightarrow> ptr option \<Rightarrow> ptr list \<Rightarrow> ptr option \<Rightarrow> bool" where
  "seg h p [] n \<longleftrightarrow> True"
| "seg h p (x # xs) n \<longleftrightarrow> h x = Some \<lparr>dk_prev = p, dk_next = first_or xs n, dk_is_linked = True\<rparr> \<and> seg h (Some x) xs n"

definition dlist_rep :: "link_heap \<Rightarrow> Dlist \<Rightarrow> ptr list \<Rightarrow> bool" where
  "dlist_rep h d xs \<longleftrightarrow> distinct xs \<and> seg h None xs None \<and> dl_head d = first_or xs None \<and> dl_tail d = last_or None xs \<and> dl_len d = length xs"

lemma first_or_simps [simp]: "first_or [] n = n" "first_or (x # xs) n = Some x" "first_or (xs @ ys) n = first_or xs (first_or ys n)"
  by (simp_all add: first_or_def split: list.splits)

lemma last_or_simps [simp]: "last_or p [] = p" "last_or p (xs @ ys) = last_or (last_or p xs) ys" "last_or p (x # xs) = last_or (Some x) xs"
  by (auto simp: last_or_def)

lemma seg_append [simp]: "seg h p (xs @ ys) n \<longleftrightarrow> seg h p xs (first_or ys n) \<and> seg h (last_or p xs) ys n"
  by (induction xs arbitrary: p) auto

lemma seg_upd [simp]: "x \<notin> set xs \<Longrightarrow> seg (h(x := v)) p xs n \<longleftrightarrow> seg h p xs n"
  by (induction xs arbitrary: p) auto

lemma seg_linked: "seg h p xs n \<Longrightarrow> x \<in> set xs \<Longrightarrow> \<exists>l. h x = Some l \<and> dk_is_linked l"
  by (induction xs arbitrary: p) auto

lemma seg_cong: "\<forall>x \<in> set xs. h' x = h x \<Longrightarrow> seg h' p xs n \<longleftrightarrow> seg h p xs n"
  by (induction xs arbitrary: p) auto

lemma set_next_last:
  assumes "seg h p xs n0" "distinct xs"
  shows "\<exists>h'. set_next h (last_or None xs) v = Some h' \<and> seg h' p xs v \<and> (\<forall>y. y \<notin> set xs \<longrightarrow> h' y = h y)"
  using assms by (cases xs rule: rev_cases) (auto simp: set_next_def)

lemma set_prev_first:
  assumes "seg h p0 xs n" "distinct xs"
  shows "\<exists>h'. set_prev h (first_or xs None) v = Some h' \<and> seg h' v xs n \<and> (\<forall>y. y \<notin> set xs \<longrightarrow> h' y = h y)"
  using assms by (cases xs) (auto simp: set_prev_def)

text \<open>Joining two segments that are next to each other or apart.\<close>

lemma join_segs:
  assumes s: "seg h None as n0" "seg h p0 bs None" and d: "distinct (as @ bs)"
  shows "\<exists>h1 h2. set_next h (last_or None as) n = Some h1 \<and> set_prev h1 (first_or bs None) p = Some h2 \<and> seg h2 None as n \<and> seg h2 p bs None \<and>
    (\<forall>y. y \<notin> set (as @ bs) \<longrightarrow> h2 y = h y)"
proof -
  obtain h1 where h1: "set_next h (last_or None as) n = Some h1" "seg h1 None as n" "\<forall>y. y \<notin> set as \<longrightarrow> h1 y = h y"
    using set_next_last [OF s(1), of n] d by auto
  have "\<forall>y \<in> set bs. h1 y = h y" using h1(3) d by auto
  then have "seg h1 p0 bs None" using s(2) by (rule seg_cong [THEN iffD2])
  then obtain h2 where h2: "set_prev h1 (first_or bs None) p = Some h2" "seg h2 p bs None" "\<forall>y. y \<notin> set bs \<longrightarrow> h2 y = h1 y"
    using set_prev_first [of h1 p0 bs None p] d by auto
  have "\<forall>y \<in> set as. h2 y = h1 y" using h2(3) d by auto
  then have "seg h2 None as n" using h1(2) by (rule seg_cong [THEN iffD2])
  then show ?thesis using h1 h2 by auto
qed

lemma link_between_ok:
  assumes s: "seg h None as n0" "seg h p0 bs None" and d: "distinct (as @ x # bs)" and x: "h x = Some l"
  shows "\<exists>h' h''. link_between h x (last_or None as) (first_or bs None) = Some h' \<and> set_is_linked h' x = Some h'' \<and>
    seg h'' None (as @ x # bs) None \<and> (\<forall>y. y \<notin> set (as @ x # bs) \<longrightarrow> h'' y = h y)"
proof -
  have d': "distinct (as @ bs)" using d by auto
  obtain h1 h2 where j: "set_next h (last_or None as) (Some x) = Some h1" "set_prev h1 (first_or bs None) (Some x) = Some h2"
    "seg h2 None as (Some x)" "seg h2 (Some x) bs None" "\<forall>y. y \<notin> set (as @ bs) \<longrightarrow> h2 y = h y"
    using join_segs [OF s d', of "Some x" "Some x"] by blast
  have x2: "h2 x = Some l" using j(5) x d by auto
  define h3 where "h3 = h2(x \<mapsto> l\<lparr>dk_prev := last_or None as\<rparr>, x \<mapsto> l\<lparr>dk_prev := last_or None as, dk_next := first_or bs None\<rparr>)"
  have lb: "link_between h x (last_or None as) (first_or bs None) = Some h3"
    using j(1,2) x2 by (simp add: link_between_def set_prev_def [of h2] set_next_def [of "h2(x \<mapsto> l\<lparr>dk_prev := last_or None as\<rparr>)"] h3_def)
  define h4 where "h4 = h3(x \<mapsto> \<lparr>dk_prev = last_or None as, dk_next = first_or bs None, dk_is_linked = True\<rparr>)"
  have "set_is_linked h3 x = Some h4" by (cases l) (simp add: set_is_linked_def h3_def h4_def)
  moreover have "seg h4 None (as @ x # bs) None" using j(3,4) d by (simp add: h4_def h3_def)
  moreover have "\<forall>y. y \<notin> set (as @ x # bs) \<longrightarrow> h4 y = h y" using j(5) by (simp add: h4_def h3_def)
  ultimately show ?thesis using lb by blast
qed

section \<open>The operations\<close>

lemma dlist_repD:
  assumes "dlist_rep h d xs"
  shows "distinct xs" "seg h None xs None" "dl_head d = first_or xs None" "dl_tail d = last_or None xs" "dl_len d = length xs"
  using assms by (simp_all add: dlist_rep_def)

lemma last_or_eq_Some: "last_or None xs = Some x \<Longrightarrow> x \<in> set xs"
  by (auto simp: last_or_def split: if_splits)

lemma first_or_eq_Some: "first_or xs None = Some x \<Longrightarrow> x \<in> set xs"
  by (cases xs) auto

lemma dlist_rep_split:
  assumes "dlist_rep h d (as @ bs)"
  shows "seg h None as (first_or bs None)" "seg h (last_or None as) bs None" "distinct (as @ bs)" "dl_head d = first_or as (first_or bs None)"
    "dl_tail d = last_or (last_or None as) bs" "dl_len d = length as + length bs"
  using assms by (simp_all add: dlist_rep_def)

lemma fresh_link: "dlist_rep h d xs \<Longrightarrow> h x = Some l \<Longrightarrow> \<not> dk_is_linked l \<Longrightarrow> x \<notin> set xs"
  using seg_linked [of h None xs None x] by (auto simp: dlist_rep_def)

text \<open>An insertion in front of \<open>bs\<close>, where the iterator is, and behind \<open>as\<close>.\<close>

lemma dlist_insert_before_ok:
  assumes rep: "dlist_rep h d (as @ bs)" and x: "h x = Some l" "\<not> dk_is_linked l" and lim: "length (as @ bs) + 1 < usize_lim"
  shows "\<exists>h' d'. dlist_insert_before h d (first_or bs None) x = Some (h', d') \<and> dlist_rep h' d' (as @ x # bs) \<and> (\<forall>y. y \<notin> set (as @ x # bs) \<longrightarrow> h' y = h y)"
proof -
  note R = dlist_rep_split [OF rep]
  have d: "distinct (as @ x # bs)" using R(3) fresh_link [OF rep x] by auto
  obtain h' h'' where l: "link_between h x (last_or None as) (first_or bs None) = Some h'" "set_is_linked h' x = Some h''"
    "seg h'' None (as @ x # bs) None" "\<forall>y. y \<notin> set (as @ x # bs) \<longrightarrow> h'' y = h y"
    using link_between_ok [OF R(1,2) d x(1)] by blast
  define d' where "d' = \<lparr>dl_head = first_or (as @ x # bs) None, dl_tail = last_or None (as @ x # bs), dl_len = Suc (length as + length bs)\<rparr>"
  have add: "uadd (length as + length bs) (Suc 0) = Some (Suc (length as + length bs))" using lim by (simp add: checked)
  have "dlist_insert_before h d (first_or bs None) x = Some (h'', d')"
  proof (cases bs)
    case Nil
    have "dl_head d = None \<longleftrightarrow> as = []" using R(4) Nil by (cases as) simp_all
    then show ?thesis using Nil R l(1,2) x add by (cases as) (auto simp: dlist_insert_before_def d'_def Let_def last_or_def)
  next
    case (Cons b bs')
    have "prev_of_raw h b = Some (last_or None as)" using R(2) Cons by (simp add: prev_of_raw_def)
    moreover have "dl_head d = Some b \<longleftrightarrow> as = []" using R(3,4) Cons by (cases as) auto
    ultimately show ?thesis using Cons R l(1,2) x add by (cases as) (auto simp: dlist_insert_before_def link_before_def d'_def Let_def)
  qed
  moreover have "dlist_rep h'' d' (as @ x # bs)" using d l(3) by (simp add: dlist_rep_def d'_def)
  ultimately show ?thesis using l(4) by blast
qed

lemma dlist_insert_after_ok:
  assumes rep: "dlist_rep h d (as @ bs)" and x: "h x = Some l" "\<not> dk_is_linked l" and lim: "length (as @ bs) + 1 < usize_lim"
  shows "\<exists>h' d'. dlist_insert_after h d (last_or None as) x = Some (h', d') \<and> dlist_rep h' d' (as @ x # bs) \<and> (\<forall>y. y \<notin> set (as @ x # bs) \<longrightarrow> h' y = h y)"
proof -
  note R = dlist_rep_split [OF rep]
  have d: "distinct (as @ x # bs)" using R(3) fresh_link [OF rep x] by auto
  obtain h' h'' where l: "link_between h x (last_or None as) (first_or bs None) = Some h'" "set_is_linked h' x = Some h''"
    "seg h'' None (as @ x # bs) None" "\<forall>y. y \<notin> set (as @ x # bs) \<longrightarrow> h'' y = h y"
    using link_between_ok [OF R(1,2) d x(1)] by blast
  define d' where "d' = \<lparr>dl_head = first_or (as @ x # bs) None, dl_tail = last_or None (as @ x # bs), dl_len = Suc (length as + length bs)\<rparr>"
  have add: "uadd (length as + length bs) (Suc 0) = Some (Suc (length as + length bs))" using lim by (simp add: checked)
  have "dlist_insert_after h d (last_or None as) x = Some (h'', d')"
  proof (cases as rule: rev_cases)
    case Nil
    have "dl_tail d = None \<longleftrightarrow> bs = []" using R(5) Nil by (auto simp: last_or_def)
    then show ?thesis using Nil R l(1,2) x add by (cases bs) (auto simp: dlist_insert_after_def d'_def Let_def)
  next
    case (snoc as' a)
    have "next_of_raw h a = Some (first_or bs None)" using R(1) snoc by (simp add: next_of_raw_def)
    moreover have "dl_tail d = Some a \<longleftrightarrow> bs = []" using R(3,5) snoc by (auto simp: last_or_def)
    ultimately show ?thesis using snoc R l(1,2) x add by (cases "bs = []") (auto simp: dlist_insert_after_def link_after_def d'_def Let_def last_or_def)
  qed
  moreover have "dlist_rep h'' d' (as @ x # bs)" using d l(3) by (simp add: dlist_rep_def d'_def)
  ultimately show ?thesis using l(4) by blast
qed

lemma dlist_remove_ok:
  assumes rep: "dlist_rep h d (as @ x # bs)"
  shows "\<exists>h' d'. dlist_remove h d (Some x) = Some (Some x, h', d', first_or bs None) \<and> dlist_rep h' d' (as @ bs) \<and>
    h' x = Some \<lparr>dk_prev = None, dk_next = None, dk_is_linked = False\<rparr> \<and> (\<forall>y. y \<notin> set (as @ x # bs) \<longrightarrow> h' y = h y)"
proof -
  note R = dlist_rep_split [OF rep, simplified]
  have d: "distinct (as @ bs)" "x \<notin> set (as @ bs)" using R(3,4) by auto
  have hx: "h x = Some \<lparr>dk_prev = last_or None as, dk_next = first_or bs None, dk_is_linked = True\<rparr>" "seg h (Some x) bs None" using R(2) by simp_all
  obtain h1 h2 where j: "set_next h (last_or None as) (first_or bs None) = Some h1" "set_prev h1 (first_or bs None) (last_or None as) = Some h2"
    "seg h2 None as (first_or bs None)" "seg h2 (last_or None as) bs None" "\<forall>y. y \<notin> set (as @ bs) \<longrightarrow> h2 y = h y"
    using join_segs [OF R(1) hx(2) d(1)] by blast
  have x2: "h2 x = h x" using j(5) d(2) by simp
  define d' where "d' = \<lparr>dl_head = first_or (as @ bs) None, dl_tail = last_or None (as @ bs), dl_len = length as + length bs\<rparr>"
  have head: "Some x = dl_head d \<longleftrightarrow> as = []" using rep d(2) by (cases as) (auto simp: dlist_rep_def)
  have tail: "Some x = dl_tail d \<longleftrightarrow> bs = []" using rep d(2) last_in_set [of bs] by (auto simp: dlist_rep_def last_or_def)
  have fields: "dl_head d = first_or as (Some x)" "dl_tail d = last_or (Some x) bs" "dl_len d = Suc (length as + length bs)" using rep by (simp_all add: dlist_rep_def)
  have "dlist_remove h d (Some x) = Some (Some x, h2(x \<mapsto> \<lparr>dk_prev = None, dk_next = None, dk_is_linked = False\<rparr>), d', first_or bs None)"
    using hx(1) j(1,2) x2 head tail fields
    by (cases as; cases "bs = []") (auto simp: dlist_remove_def prev_of_raw_def next_of_raw_def d'_def Let_def checked last_or_def)
  moreover have "dlist_rep (h2(x \<mapsto> \<lparr>dk_prev = None, dk_next = None, dk_is_linked = False\<rparr>)) d' (as @ bs)"
    using d j(3,4) by (simp add: dlist_rep_def d'_def)
  ultimately show ?thesis using j(5) by auto
qed

lemma dlist_drop_loop_ok:
  assumes "dlist_rep h d xs"
  shows "\<exists>h' d'. dlist_drop_loop h d (first_or xs None) = Some (h', d') \<and> dlist_rep h' d' [] \<and>
    (\<forall>x \<in> set xs. h' x = Some \<lparr>dk_prev = None, dk_next = None, dk_is_linked = False\<rparr>) \<and> (\<forall>y. y \<notin> set xs \<longrightarrow> h' y = h y)"
  using assms
proof (induction xs arbitrary: h d)
  case Nil
  then show ?case by (simp add: dlist_drop_loop.simps)
next
  case (Cons x xs)
  obtain h1 d1 where r: "dlist_remove h d (Some x) = Some (Some x, h1, d1, first_or xs None)" "dlist_rep h1 d1 xs"
    "h1 x = Some \<lparr>dk_prev = None, dk_next = None, dk_is_linked = False\<rparr>" "\<forall>y. y \<notin> set (x # xs) \<longrightarrow> h1 y = h y"
    using dlist_remove_ok [of h d "[]" x xs] Cons.prems by auto
  obtain h' d' where "dlist_drop_loop h1 d1 (first_or xs None) = Some (h', d')" "dlist_rep h' d' []"
    "\<forall>x \<in> set xs. h' x = Some \<lparr>dk_prev = None, dk_next = None, dk_is_linked = False\<rparr>" "\<forall>y. y \<notin> set xs \<longrightarrow> h' y = h1 y"
    using Cons.IH [OF r(2)] by blast
  moreover have "x \<notin> set xs" using Cons.prems by (simp add: dlist_rep_def)
  ultimately show ?case using r by (auto simp: dlist_drop_loop.simps [of h d "Some x"])
qed

lemma dlist_rep_front_back: "dlist_rep h d xs \<Longrightarrow> dlist_front d = (if xs = [] then None else Some (hd xs)) \<and> dlist_back d = (if xs = [] then None else Some (last xs))"
  by (auto simp: dlist_rep_def dlist_front_def dlist_back_def last_or_def first_or_def split: list.splits)

lemma dlist_rep_steps:
  assumes "dlist_rep h d (as @ x # bs)"
  shows "dlist_next h d (Some x) = Some (first_or bs None)" "dlist_prev h d (Some x) = Some (last_or None as)"
  using assms by (simp_all add: dlist_rep_def dlist_next_def dlist_prev_def next_of_raw_def prev_of_raw_def)

lemma dlist_push_ok:
  assumes rep: "dlist_rep h d xs" and x: "h x = Some l" "\<not> dk_is_linked l" and lim: "length xs + 1 < usize_lim"
  shows "\<exists>h' d'. dlist_push_front h d x = Some (h', d') \<and> dlist_rep h' d' (x # xs) \<and> (\<forall>y. y \<notin> set (x # xs) \<longrightarrow> h' y = h y)"
    and "\<exists>h' d'. dlist_push_back h d x = Some (h', d') \<and> dlist_rep h' d' (xs @ [x]) \<and> (\<forall>y. y \<notin> set (x # xs) \<longrightarrow> h' y = h y)"
  using dlist_insert_after_ok [of h d "[]" xs x l] dlist_insert_before_ok [of h d xs "[]" x l] assms by (simp_all add: dlist_push_front_def dlist_push_back_def)

lemma dlist_pop_ok:
  assumes rep: "dlist_rep h d xs"
  shows "\<exists>h' d'. dlist_pop_front h d = Some (first_or xs None, h', d') \<and> dlist_rep h' d' (tl xs) \<and> (\<forall>y. y \<notin> set xs \<longrightarrow> h' y = h y)"
    and "\<exists>h' d'. dlist_pop_back h d = Some (last_or None xs, h', d') \<and> dlist_rep h' d' (butlast xs) \<and> (\<forall>y. y \<notin> set xs \<longrightarrow> h' y = h y)"
proof -
  note R = dlist_repD [OF rep]
  show "\<exists>h' d'. dlist_pop_front h d = Some (first_or xs None, h', d') \<and> dlist_rep h' d' (tl xs) \<and> (\<forall>y. y \<notin> set xs \<longrightarrow> h' y = h y)"
  proof (cases xs)
    case Nil
    then show ?thesis using R(3) rep by (simp add: dlist_pop_front_def dlist_next_def dlist_remove_def)
  next
    case (Cons x ys)
    then show ?thesis using dlist_remove_ok [of h d "[]" x ys] rep R(3) by (auto simp: dlist_pop_front_def dlist_next_def)
  qed
  show "\<exists>h' d'. dlist_pop_back h d = Some (last_or None xs, h', d') \<and> dlist_rep h' d' (butlast xs) \<and> (\<forall>y. y \<notin> set xs \<longrightarrow> h' y = h y)"
  proof (cases xs rule: rev_cases)
    case Nil
    then show ?thesis using R(4) rep by (simp add: dlist_pop_back_def dlist_prev_def dlist_remove_def)
  next
    case (snoc ys x)
    then show ?thesis using dlist_remove_ok [of h d ys x "[]"] rep R(4) by (auto simp: dlist_pop_back_def dlist_prev_def)
  qed
qed

lemma dlist_remove_raw_ok:
  assumes rep: "dlist_rep h d xs" and x: "x \<in> set xs"
  shows "\<exists>h' d'. dlist_remove_raw h d x = Some (x, h', d') \<and> dlist_rep h' d' (remove1 x xs) \<and>
    h' x = Some \<lparr>dk_prev = None, dk_next = None, dk_is_linked = False\<rparr> \<and> (\<forall>y. y \<notin> set xs \<longrightarrow> h' y = h y)"
proof -
  obtain as bs where s: "xs = as @ x # bs" "x \<notin> set as" using split_list_first [OF x] by blast
  then have "remove1 x xs = as @ bs" by (simp add: remove1_append)
  then show ?thesis using dlist_remove_ok [of h d as x bs] rep s by (auto simp: dlist_remove_raw_def)
qed

lemma push_linked: "dlist_rep h d xs \<Longrightarrow> x \<in> set xs \<Longrightarrow> dlist_insert_before h d it x = None \<and> dlist_insert_after h d it x = None"
  using seg_linked [of h None xs None x] by (auto simp: dlist_rep_def dlist_insert_before_def dlist_insert_after_def)

text \<open>What happens to another list in the same heap.\<close>

lemma dlist_rep_frame: "dlist_rep h d xs \<Longrightarrow> \<forall>y \<in> set xs. h' y = h y \<Longrightarrow> dlist_rep h' d xs"
  using seg_cong [of xs h' h] by (simp add: dlist_rep_def)

lemma other_list:
  assumes "dlist_rep h d2 ys" "set ys \<inter> set xs = {}"
  shows "\<forall>y. y \<notin> set xs \<longrightarrow> h' y = h y \<Longrightarrow> dlist_rep h' d2 ys"
    and "h n = Some l \<Longrightarrow> \<not> dk_is_linked l \<Longrightarrow> \<forall>y. y \<notin> set (n # xs) \<longrightarrow> h' y = h y \<Longrightarrow> dlist_rep h' d2 ys"
  using assms(2) fresh_link [OF assms(1), of n l] by (auto intro!: dlist_rep_frame [OF assms(1)])

section \<open>Properties\<close>



end
