(* ===== verification/Rates.thy ===== *)
theory Rates
  imports Store
begin

text \<open>
  \<^verbatim>\<open>foyer-common/src/rate.rs\<close> and \<^verbatim>\<open>rated_ticket.rs\<close>, and the policies that use a ticket, \<^verbatim>\<open>admission/rated_ticket.rs\<close> and \<^verbatim>\<open>reinsertion/rated_ticket.rs\<close>. An instant is a number of
  nanoseconds; every operation holds the lock of its limiter, reads the clock once and takes the reading as an argument. The policies also read a counter of
  the metrics, \<open>current\<close>, and a judgement is one step. The theorems about rates are for exact arithmetic (\<open>rnd x = x\<close>).
\<close>

section \<open>Definitions\<close>

record RatedTicket =
  tk_quota :: f64
  tk_last :: nat
  tk_rate :: f64

definition as_secs_f64 :: "(f64 \<Rightarrow> f64) \<Rightarrow> nat \<Rightarrow> f64" where
  "as_secs_f64 rnd n = rnd (rnd (of_nat (n div 10 ^ 9)) + rnd (of_nat (n mod 10 ^ 9) / 10 ^ 9))"

definition ticket_new :: "f64 \<Rightarrow> nat \<Rightarrow> RatedTicket" where
  "ticket_new rate now = \<lparr>tk_quota = 0, tk_last = now, tk_rate = rate\<rparr>"

text \<open>The first lines of every operation. A clock that goes back counts as standing still.\<close>

definition ticket_refill :: "(f64 \<Rightarrow> f64) \<Rightarrow> nat \<Rightarrow> RatedTicket \<Rightarrow> RatedTicket" where
  "ticket_refill rnd now t = (let refill = rnd (as_secs_f64 rnd (now - tk_last t) * tk_rate t) in
     t\<lparr>tk_last := now, tk_quota := min (rnd (tk_quota t + refill)) (tk_rate t)\<rparr>)"

definition ticket_probe :: "(f64 \<Rightarrow> f64) \<Rightarrow> nat \<Rightarrow> RatedTicket \<Rightarrow> bool \<times> RatedTicket" where
  "ticket_probe rnd now t = (let t' = ticket_refill rnd now t in (tk_quota t' > 0, t'))"

definition ticket_reduce :: "(f64 \<Rightarrow> f64) \<Rightarrow> f64 \<Rightarrow> RatedTicket \<Rightarrow> RatedTicket" where
  "ticket_reduce rnd weight t = t\<lparr>tk_quota := rnd (tk_quota t - weight)\<rparr>"

definition ticket_consume :: "(f64 \<Rightarrow> f64) \<Rightarrow> nat \<Rightarrow> f64 \<Rightarrow> RatedTicket \<Rightarrow> bool \<times> RatedTicket" where
  "ticket_consume rnd now weight t = (let t' = ticket_refill rnd now t in
     if tk_quota t' \<le> 0 then (False, t') else (True, t'\<lparr>tk_quota := rnd (tk_quota t' - weight)\<rparr>))"

text \<open>The limiter has the same fields. The wait is in seconds; \<^verbatim>\<open>Duration::from_secs_f64\<close> panics when they are negative or not below \<open>2 ^ 64\<close>, and a division of
  a positive number by zero is infinite.\<close>

definition limiter_consume :: "(f64 \<Rightarrow> f64) \<Rightarrow> nat \<Rightarrow> f64 \<Rightarrow> RatedTicket \<Rightarrow> (f64 option \<times> RatedTicket) option" where
  "limiter_consume rnd now weight t = do {
     let t1 = ticket_refill rnd now t;
     let quota = rnd (tk_quota t1 - weight);
     let t2 = t1\<lparr>tk_quota := quota\<rparr>;
     if quota \<ge> 0 then Some (None, t2) else do {
       ensure (tk_rate t2 \<noteq> 0);
       let wait = rnd (- quota / tk_rate t2);
       ensure (0 \<le> wait \<and> wait < 2 ^ 64);
       Some (Some wait, t2)
     }
   }"

text \<open>The policy of the admission; the one of the reinsertion differs in the counter that it reads.\<close>

record RatedTicketPolicy =
  rp_inner :: RatedTicket
  rp_last :: usize

definition rated_new :: "(f64 \<Rightarrow> f64) \<Rightarrow> usize \<Rightarrow> nat \<Rightarrow> RatedTicketPolicy" where
  "rated_new rnd rate now = \<lparr>rp_inner = ticket_new (f64_of_usize rnd rate) now, rp_last = 0\<rparr>"

definition rated_judge :: "(f64 \<Rightarrow> f64) \<Rightarrow> nat \<Rightarrow> usize \<Rightarrow> RatedTicketPolicy \<Rightarrow> bool \<times> RatedTicketPolicy" where
  "rated_judge rnd now current p = (let (res, t) = ticket_probe rnd now (rp_inner p); delta = current - rp_last p in
     (res, if delta > 0 then \<lparr>rp_inner = ticket_reduce rnd (f64_of_usize rnd delta) t, rp_last = current\<rparr> else p\<lparr>rp_inner := t\<rparr>))"

definition rated_policy :: "(f64 \<Rightarrow> f64) \<Rightarrow> nat \<Rightarrow> usize \<Rightarrow> ('k::linorder, 'v, RatedTicketPolicy) policy_ops" where
  "rated_policy rnd now current = \<lparr>pol_judge = (\<lambda>c p key weight. rated_judge rnd now current p), pol_on_insert = (\<lambda>p key weight judge. p),
     pol_on_drop = (\<lambda>p key weight judge. p)\<rparr>"

section \<open>Runs of a ticket\<close>

text \<open>The weight that a sequence of requests is granted.\<close>

fun ticket_run :: "(f64 \<Rightarrow> f64) \<Rightarrow> RatedTicket \<Rightarrow> (nat \<times> f64) list \<Rightarrow> f64 \<times> RatedTicket" where
  "ticket_run rnd t [] = (0, t)"
| "ticket_run rnd t ((now, weight) # rs) =
     (let (ok, t1) = ticket_consume rnd now weight t; (s, t2) = ticket_run rnd t1 rs in (if ok then weight + s else s, t2))"

definition secs :: "nat \<Rightarrow> f64" where
  "secs n = of_nat n / 10 ^ 9"

lemma as_secs_exact: "as_secs_f64 (\<lambda>x. x) n = secs n"
proof -
  have "(of_nat n :: rat) = of_nat (n div 10 ^ 9) * 10 ^ 9 + of_nat (n mod 10 ^ 9)"
    using div_mult_mod_eq [of n "10 ^ 9"] by (metis of_nat_add of_nat_mult of_nat_numeral of_nat_power)
  then show ?thesis by (simp add: as_secs_f64_def secs_def field_simps)
qed

lemma secs_mono: "a \<le> b \<Longrightarrow> secs a \<le> secs b" and secs_nonneg: "0 \<le> secs a" and secs_diff: "a \<le> b \<Longrightarrow> secs (b - a) = secs b - secs a"
  by (simp_all add: secs_def divide_right_mono of_nat_diff diff_divide_distrib)

lemma run_le:
  assumes "sorted (tk_last t # map fst rs)" "\<forall>r \<in> set rs. fst r \<le> stop \<and> 0 \<le> snd r \<and> snd r \<le> W" "0 \<le> tk_rate t" "tk_last t \<le> stop" "0 \<le> W"
  shows "fst (ticket_run (\<lambda>x. x) t rs) \<le> (let room = tk_quota t + tk_rate t * (secs stop - secs (tk_last t)) in if room \<le> 0 then 0 else room + W)"
  using assms
proof (induction rs arbitrary: t)
  case Nil
  then show ?case by (simp add: Let_def)
next
  case (Cons r rs)
  obtain now w where r: "r = (now, w)" by (cases r)
  have b: "tk_last t \<le> now" "now \<le> stop" "0 \<le> w" "w \<le> W" using Cons.prems(1,2) r by auto
  define q where "q = min (tk_quota t + (secs now - secs (tk_last t)) * tk_rate t) (tk_rate t)"
  have refill: "ticket_refill (\<lambda>x. x) now t = t\<lparr>tk_last := now, tk_quota := q\<rparr>"
    using secs_diff [OF b(1)] by (simp add: ticket_refill_def as_secs_exact q_def Let_def)
  have q: "q \<le> tk_quota t + (secs now - secs (tk_last t)) * tk_rate t" by (simp add: q_def)
  define rest where "rest = tk_rate t * (secs stop - secs now)"
  have rest: "0 \<le> rest" using Cons.prems(3) secs_mono [OF b(2)] by (simp add: rest_def)
  have room: "q + rest \<le> tk_quota t + tk_rate t * (secs stop - secs (tk_last t))" using q by (simp add: rest_def algebra_simps)
  have so: "sorted (now # map fst rs)" "\<forall>r \<in> set rs. fst r \<le> stop \<and> 0 \<le> snd r \<and> snd r \<le> W" using Cons.prems(1,2) r by auto
  show ?case
  proof (cases "q \<le> 0")
    case True
    have "fst (ticket_run (\<lambda>x. x) (t\<lparr>tk_last := now, tk_quota := q\<rparr>) rs) \<le> (if q + rest \<le> 0 then 0 else q + rest + W)"
      using Cons.IH [of "t\<lparr>tk_last := now, tk_quota := q\<rparr>"] so Cons.prems(3,5) b(2) by (auto simp: rest_def Let_def split: if_splits)
    then show ?thesis using True room Cons.prems(5) by (auto simp: r ticket_consume_def refill Let_def split: prod.splits if_splits)
  next
    case False
    have "fst (ticket_run (\<lambda>x. x) (t\<lparr>tk_last := now, tk_quota := q - w\<rparr>) rs) \<le> (if q - w + rest \<le> 0 then 0 else q - w + rest + W)"
      using Cons.IH [of "t\<lparr>tk_last := now, tk_quota := q - w\<rparr>"] so Cons.prems(3,5) b(2) by (auto simp: rest_def Let_def split: if_splits)
    then show ?thesis using False room rest b by (auto simp: r ticket_consume_def refill Let_def split: prod.splits if_splits)
  qed
qed

text \<open>A run of judgements, from readings of the clock and of the counter.\<close>

fun rated_run :: "(f64 \<Rightarrow> f64) \<Rightarrow> RatedTicketPolicy \<Rightarrow> (nat \<times> usize) list \<Rightarrow> bool list \<times> RatedTicketPolicy" where
  "rated_run rnd p [] = ([], p)"
| "rated_run rnd p ((now, current) # rs) = (let (v, p1) = rated_judge rnd now current p; (vs, p2) = rated_run rnd p1 rs in (v # vs, p2))"

text \<open>The quota stays below what has been refilled since \<open>start\<close> less what the counter has shown.\<close>

definition rated_inv :: "nat \<Rightarrow> RatedTicketPolicy \<Rightarrow> bool" where
  "rated_inv start p \<longleftrightarrow> tk_quota (rp_inner p) \<le> tk_rate (rp_inner p) * (secs (tk_last (rp_inner p)) - secs start) - of_nat (rp_last p)"

lemma rated_judge_ok:
  assumes inv: "rated_inv start p" and now: "tk_last (rp_inner p) \<le> now" and j: "rated_judge (\<lambda>x. x) now current p = (v, p')"
  shows "rated_inv start p' \<and> tk_last (rp_inner p') = now \<and> tk_rate (rp_inner p') = tk_rate (rp_inner p) \<and> rp_last p' = max (rp_last p) current \<and>
    (v \<longrightarrow> of_nat (rp_last p) < tk_rate (rp_inner p) * (secs now - secs start))"
proof -
  define t q where "t = rp_inner p" and "q = min (tk_quota t + (secs now - secs (tk_last t)) * tk_rate t) (tk_rate t)"
  have refill: "ticket_refill (\<lambda>x. x) now t = t\<lparr>tk_last := now, tk_quota := q\<rparr>"
    using secs_diff [OF now] by (simp add: ticket_refill_def as_secs_exact q_def t_def Let_def)
  have q: "q \<le> tk_rate t * (secs now - secs start) - of_nat (rp_last p)" using inv by (simp add: rated_inv_def q_def t_def algebra_simps min_le_iff_disj)
  show ?thesis
  proof (cases "rp_last p < current")
    case True
    then have "v = (q > 0)" "p' = \<lparr>rp_inner = t\<lparr>tk_last := now, tk_quota := q - of_nat (current - rp_last p)\<rparr>, rp_last = current\<rparr>"
      using j by (auto simp: rated_judge_def ticket_probe_def ticket_reduce_def f64_of_usize_def refill Let_def simp flip: t_def)
    then show ?thesis using q True by (auto simp: rated_inv_def t_def of_nat_diff)
  next
    case False
    then have "v = (q > 0)" "p' = p\<lparr>rp_inner := t\<lparr>tk_last := now, tk_quota := q\<rparr>\<rparr>"
      using j by (auto simp: rated_judge_def ticket_probe_def refill Let_def simp flip: t_def)
    then show ?thesis using q False by (auto simp: rated_inv_def t_def max_def)
  qed
qed

text \<open>A policy admits only while the bytes that it had seen flushed at the judgement before are below its rate times the time that it exists.\<close>

lemma rated_run_admits:
  assumes "rated_inv start p" "sorted (tk_last (rp_inner p) # map fst rs)" "rated_run (\<lambda>x. x) p rs = (vs, p')"
    "i < length rs" "vs ! i"
  shows "of_nat (fold max (map snd (take i rs)) (rp_last p)) < tk_rate (rp_inner p) * (secs (fst (rs ! i)) - secs start)"
  using assms
proof (induction rs arbitrary: p vs p' i)
  case (Cons r rs)
  obtain now current v p1 vs1 where r: "r = (now, current)" and j: "rated_judge (\<lambda>x. x) now current p = (v, p1)" and run: "rated_run (\<lambda>x. x) p1 rs = (vs1, p')" and vs: "vs = v # vs1"
    using Cons.prems(3) by (cases r) (auto simp: Let_def split: prod.splits)
  have now: "tk_last (rp_inner p) \<le> now" using Cons.prems(2) r by simp
  note J = rated_judge_ok [OF Cons.prems(1) now j]
  show ?case
  proof (cases i)
    case 0
    then show ?thesis using J Cons.prems(5) by (simp add: r vs)
  next
    case (Suc k)
    have "sorted (tk_last (rp_inner p1) # map fst rs)" using Cons.prems(2) J r by simp
    with Cons.IH [OF _ this run, of k] J Cons.prems(4,5) Suc show ?thesis by (simp add: r vs max.commute)
  qed
qed simp

text \<open>After the wait that it asks for, the limiter has its quota back; with the rate zero it panics.\<close>

lemma limiter_wait_enough:
  assumes rate: "0 < tk_rate t" and c: "limiter_consume (\<lambda>x. x) now weight t = Some (Some wait, t')" and later: "now \<le> now'" "wait \<le> secs (now' - now)"
  shows "0 \<le> tk_quota (ticket_refill (\<lambda>x. x) now' t')"
proof -
  have t': "tk_last t' = now" "tk_rate t' = tk_rate t" "wait = - tk_quota t' / tk_rate t"
    using c by (auto simp: limiter_consume_def Let_def ticket_refill_def diff_divide_distrib split: if_splits bind_splits)
  have "- tk_quota t' \<le> secs (now' - now) * tk_rate t" using later(2) pos_divide_le_eq [OF rate, of "- tk_quota t'"] unfolding t'(3) by simp
  then show ?thesis using rate t'(1,2) by (simp add: ticket_refill_def as_secs_exact Let_def)
qed

lemma limiter_zero_rate:
  assumes "tk_rate t = 0" "tk_quota t \<le> 0" "0 < weight"
  shows "limiter_consume (\<lambda>x. x) now weight t = None"
  using assms by (simp add: limiter_consume_def ticket_refill_def Let_def ensure_def)

section \<open>Properties\<close>

text \<open>C22. A ticket keeps its rate. However the requests come, with exact arithmetic a ticket that is made at \<open>start\<close> grants until \<open>stop\<close> no more than the rate times the seconds in
  between and one request: it may overdraw by the last request, and nothing is granted until that is refilled.\<close>

theorem ticket_within_rate:
  assumes "0 \<le> rate" "sorted (start # map fst rs)" "\<forall>r \<in> set rs. fst r \<le> stop \<and> 0 \<le> snd r \<and> snd r \<le> W" "start \<le> stop" "0 \<le> W"
  shows "fst (ticket_run (\<lambda>x. x) (ticket_new rate start) rs) \<le> rate * secs (stop - start) + W"
proof -
  have "0 \<le> rate * (secs stop - secs start)" using assms(1) secs_mono [OF assms(4)] by simp
  then show ?thesis using run_le [of "ticket_new rate start" rs stop W] assms by (auto simp: ticket_new_def secs_diff Let_def split: if_splits)
qed

text \<open>Ten per second, three requests of eight in one second: the first after half a second and the second are granted, the third is not.\<close>

theorem ticket_within_rate_witness:
  "fst (ticket_run (\<lambda>x. x) (ticket_new 10 0) [(500000000, 8), (900000000, 8), (1000000000, 8)]) = 16 \<and> (16 :: rat) \<le> 10 * secs 1000000000 + 8"
proof -
  have "fst (ticket_run (\<lambda>x. x) (ticket_new 10 0) [(500000000, 8), (900000000, 8), (1000000000, 8)]) = 16"
    by (simp add: ticket_new_def ticket_consume_def ticket_refill_def as_secs_exact secs_def Let_def)
  with ticket_within_rate [of 10 0 "[(500000000, 8), (900000000, 8), (1000000000, 8)]" 1000000000 8] show ?thesis by simp
qed

end
