(* ===== verification/Storage.thy ===== *)
theory Storage
  imports Reclaimer
begin

text \<open>
  The interface of a store, \<^verbatim>\<open>foyer-storage/src/storage.rs\<close>, with its default methods, and its implementations: the generic store, the store that keeps nothing and the dispatch between
  stores of \<^verbatim>\<open>store.rs\<close>, and the store that opens in the background, \<^verbatim>\<open>lazy.rs\<close>. \<open>storage_ops\<close> are the traits \<^verbatim>\<open>Storage\<close> and \<^verbatim>\<open>StorageWriter\<close>; a writer refers to its store, so its
  operations also take the state of the store, and \<open>sw_drop\<close> is its destructor. The locale \<open>storage\<close> says what the default methods rely on. Opening and
  closing are tasks of the runtime. The variants with a callback or in a task of their own run the same methods.
\<close>

section \<open>Definitions\<close>

record ('k, 'v, 's, 'w) storage_ops =
  so_is_ready :: "'s \<Rightarrow> bool"
  so_writer :: "'s \<Rightarrow> 'k \<Rightarrow> usize \<Rightarrow> 'w"
  so_exists :: "'s \<Rightarrow> 'k \<Rightarrow> ((store_error + bool) \<times> 's) option"
  so_lookup :: "'s \<Rightarrow> 'k \<Rightarrow> ((store_error + 'v option) \<times> 's) option"
  so_remove :: "'s \<Rightarrow> 'k \<Rightarrow> ((store_error + bool) \<times> 's) option"
  so_clear :: "'s \<Rightarrow> ((store_error + unit) \<times> 's) option"
  sw_judge :: "'w \<Rightarrow> 's \<Rightarrow> (bool \<times> 'w \<times> 's) option"
  sw_force :: "'w \<Rightarrow> 'w"
  sw_set_compression :: "'w \<Rightarrow> Compression \<Rightarrow> 'w"
  sw_finish :: "'w \<Rightarrow> 'v \<Rightarrow> 's \<Rightarrow> ((store_error + bool) \<times> 's) option"
  sw_drop :: "'w \<Rightarrow> 's \<Rightarrow> 's option"

definition storage_insert :: "('k, 'v, 's, 'w) storage_ops \<Rightarrow> ('k, 'kc) coder \<Rightarrow> ('v, 'vc) coder \<Rightarrow> 'k \<Rightarrow> 'v \<Rightarrow> 's \<Rightarrow> ((store_error + bool) \<times> 's) option" where
  "storage_insert so kc vc key value st = do {
     weight \<leftarrow> uadd (cd_serialized_len kc key) (cd_serialized_len vc value);
     sw_finish so (so_writer so st key weight) value st
   }"

definition unless_exists :: "('k, 'v, 's, 'w) storage_ops \<Rightarrow> 'k \<Rightarrow> ('s \<Rightarrow> ((store_error + bool) \<times> 's) option) \<Rightarrow> 's \<Rightarrow> ((store_error + bool) \<times> 's) option" where
  "unless_exists so key insertion st = do {
     (res, st1) \<leftarrow> so_exists so st key;
     (case res of
        Inl e \<Rightarrow> Some (Inl e, st1)
      | Inr found \<Rightarrow> if found then Some (Inr False, st1) else insertion st1)
   }"

definition insert_if_not_exists :: "('k, 'v, 's, 'w) storage_ops \<Rightarrow> ('k, 'kc) coder \<Rightarrow> ('v, 'vc) coder \<Rightarrow> 'k \<Rightarrow> 'v \<Rightarrow> 's \<Rightarrow>
    ((store_error + bool) \<times> 's) option" where
  "insert_if_not_exists so kc vc key value st = unless_exists so key (storage_insert so kc vc key value) st"

text \<open>Judge, fetch the value and finish, with a writer. The fetch gives a value or fails; while a future is awaited, the store may change.\<close>

definition judge_fetch_finish :: "('k, 'v, 's, 'w) storage_ops \<Rightarrow> 'w \<Rightarrow> ('s \<Rightarrow> 'v option \<times> 's) \<Rightarrow> 's \<Rightarrow> ((store_error + bool) \<times> 's) option" where
  "judge_fetch_finish so w fetch st = do {
     (admitted, w1, st1) \<leftarrow> sw_judge so w st;
     if \<not> admitted then map_option (\<lambda>st2. (Inr False, st2)) (sw_drop so w1 st1)
     else (case fetch st1 of
         (None, st2) \<Rightarrow> map_option (\<lambda>st3. (Inr False, st3)) (sw_drop so w1 st2)
       | (Some value, st2) \<Rightarrow> sw_finish so w1 value st2)
   }"

definition insert_with_future :: "('k, 'v, 's, 'w) storage_ops \<Rightarrow> 'k \<Rightarrow> ('s \<Rightarrow> 'v option \<times> 's) \<Rightarrow> usize \<Rightarrow> 's \<Rightarrow> ((store_error + bool) \<times> 's) option" where
  "insert_with_future so key f weight st = judge_fetch_finish so (so_writer so st key weight) f st"

definition insert_with :: "('k, 'v, 's, 'w) storage_ops \<Rightarrow> 'k \<Rightarrow> 'v option \<Rightarrow> usize \<Rightarrow> 's \<Rightarrow> ((store_error + bool) \<times> 's) option" where
  "insert_with so key fetched weight st = judge_fetch_finish so (so_writer so st key weight) (\<lambda>s. (fetched, s)) st"

definition insert_if_not_exists_with :: "('k, 'v, 's, 'w) storage_ops \<Rightarrow> 'k \<Rightarrow> 'v option \<Rightarrow> usize \<Rightarrow> 's \<Rightarrow> ((store_error + bool) \<times> 's) option" where
  "insert_if_not_exists_with so key fetched weight st = unless_exists so key (insert_with so key fetched weight) st"

definition insert_if_not_exists_with_future :: "('k, 'v, 's, 'w) storage_ops \<Rightarrow> 'k \<Rightarrow> ('s \<Rightarrow> 'v option \<times> 's) \<Rightarrow> usize \<Rightarrow> 's \<Rightarrow>
    ((store_error + bool) \<times> 's) option" where
  "insert_if_not_exists_with_future so key f weight st = unless_exists so key (insert_with_future so key f weight) st"

definition insert_force :: "('k, 'v, 's, 'w) storage_ops \<Rightarrow> ('k, 'kc) coder \<Rightarrow> ('v, 'vc) coder \<Rightarrow> 'k \<Rightarrow> 'v \<Rightarrow> 's \<Rightarrow> ((store_error + bool) \<times> 's) option" where
  "insert_force so kc vc key value st = do {
     weight \<leftarrow> uadd (cd_serialized_len kc key) (cd_serialized_len vc value);
     sw_finish so (sw_force so (so_writer so st key weight)) value st
   }"

definition insert_force_with_future :: "('k, 'v, 's, 'w) storage_ops \<Rightarrow> 'k \<Rightarrow> ('s \<Rightarrow> 'v option \<times> 's) \<Rightarrow> usize \<Rightarrow> 's \<Rightarrow> ((store_error + bool) \<times> 's) option" where
  "insert_force_with_future so key f weight st = judge_fetch_finish so (sw_force so (so_writer so st key weight)) f st"

definition insert_force_with :: "('k, 'v, 's, 'w) storage_ops \<Rightarrow> 'k \<Rightarrow> 'v option \<Rightarrow> usize \<Rightarrow> 's \<Rightarrow> ((store_error + bool) \<times> 's) option" where
  "insert_force_with so key fetched weight st = judge_fetch_finish so (sw_force so (so_writer so st key weight)) (\<lambda>s. (fetched, s)) st"

text \<open>The generic store; a lookup is done in one go.\<close>

definition generic_lookup :: "('k::linorder, 'kc, 'v, 'vc, 'd, 'e, 'p, 'b) store_env \<Rightarrow> ('k, 'v, 'd, 'e, 'p) GenericStore \<Rightarrow> 'k \<Rightarrow>
    ((store_error + 'v option) \<times> ('k, 'v, 'd, 'e, 'p) GenericStore) option" where
  "generic_lookup env st key = do {
     (turn, st1) \<leftarrow> store_lookup env st key;
     (case turn of LookupDone x \<Rightarrow> Some (Inr x, st1) | LookupLoad view \<Rightarrow> lookup_load env st1 key view)
   }"

definition generic_ops :: "('k::linorder, 'kc, 'v, 'vc, 'd, 'e, 'p, 'b) store_env \<Rightarrow> nat \<Rightarrow>
    ('k, 'v, ('k, 'v, 'd, 'e, 'p) GenericStore, ('k, 'b) GenericStoreWriter) storage_ops" where
  "generic_ops env now = \<lparr>so_is_ready = (\<lambda>st. True), so_writer = writer_new env,
     so_exists = (\<lambda>st key. map_option (\<lambda>(b, st'). (Inr b, st')) (store_exists env st key)), so_lookup = generic_lookup env,
     so_remove = (\<lambda>st key. map_option (\<lambda>(b, st'). (Inr b, st')) (store_remove env st key)), so_clear = (\<lambda>st. Some (Inr (), store_clear st)),
     sw_judge = writer_judge env, sw_force = writer_force env, sw_set_compression = writer_set_compression,
     sw_finish = (\<lambda>w value st. map_option (\<lambda>(b, st'). (Inr b, st')) (writer_finish env now w value st)), sw_drop = writer_drop env\<rparr>"

text \<open>The store that keeps nothing.\<close>

record 'k NoneStoreWriter =
  nw_key :: 'k
  nw_weight :: usize

definition none_ops :: "('k, 'v, 's, 'k NoneStoreWriter) storage_ops" where
  "none_ops = \<lparr>so_is_ready = (\<lambda>st. True), so_writer = (\<lambda>st key weight. \<lparr>nw_key = key, nw_weight = weight\<rparr>), so_exists = (\<lambda>st key. Some (Inr False, st)),
     so_lookup = (\<lambda>st key. Some (Inr None, st)), so_remove = (\<lambda>st key. Some (Inr False, st)), so_clear = (\<lambda>st. Some (Inr (), st)),
     sw_judge = (\<lambda>w st. Some (False, w, st)), sw_force = (\<lambda>w. w), sw_set_compression = (\<lambda>w c. w), sw_finish = (\<lambda>w value st. Some (Inr False, st)),
     sw_drop = (\<lambda>w st. Some st)\<rparr>"

text \<open>The store that opens in the background: \<open>None\<close> is the empty cell \<^verbatim>\<open>once\<close>. A writer of the store exists only when the store is open.\<close>

datatype ('w, 'k) LazyStorageWriter = LazyStore 'w | LazyNone "'k NoneStoreWriter"

definition lazy_set :: "'s option \<Rightarrow> 's \<Rightarrow> 's option option" where
  "lazy_set once store = (case once of None \<Rightarrow> Some (Some store) | Some _ \<Rightarrow> None)"

definition lazy_ops :: "('k, 'v, 's, 'w) storage_ops \<Rightarrow> ('k, 'v, 's option, ('w, 'k) LazyStorageWriter) storage_ops" where
  "lazy_ops so = (let
      none = none_ops :: ('k, 'v, 's option, 'k NoneStoreWriter) storage_ops in
    \<lparr>so_is_ready = (\<lambda>once. once \<noteq> None),
     so_writer = (\<lambda>once key weight. case once of Some st \<Rightarrow> LazyStore (so_writer so st key weight) | None \<Rightarrow> LazyNone (so_writer none once key weight)),
     so_exists = (\<lambda>once key. case once of Some st \<Rightarrow> map_option (apsnd Some) (so_exists so st key) | None \<Rightarrow> so_exists none once key),
     so_lookup = (\<lambda>once key. case once of Some st \<Rightarrow> map_option (apsnd Some) (so_lookup so st key) | None \<Rightarrow> so_lookup none once key),
     so_remove = (\<lambda>once key. case once of Some st \<Rightarrow> map_option (apsnd Some) (so_remove so st key) | None \<Rightarrow> so_remove none once key),
     so_clear = (\<lambda>once. case once of Some st \<Rightarrow> map_option (apsnd Some) (so_clear so st) | None \<Rightarrow> so_clear none once),
     sw_judge = (\<lambda>w once. case w of
         LazyStore w' \<Rightarrow> do { st \<leftarrow> once; (b, w1, st1) \<leftarrow> sw_judge so w' st; Some (b, LazyStore w1, Some st1) }
       | LazyNone w' \<Rightarrow> do { (b, w1, once1) \<leftarrow> sw_judge none w' once; Some (b, LazyNone w1, once1) }),
     sw_force = (\<lambda>w. case w of LazyStore w' \<Rightarrow> LazyStore (sw_force so w') | LazyNone w' \<Rightarrow> LazyNone (sw_force none w')),
     sw_set_compression = (\<lambda>w c. case w of LazyStore w' \<Rightarrow> LazyStore (sw_set_compression so w' c) | LazyNone w' \<Rightarrow> LazyNone (sw_set_compression none w' c)),
     sw_finish = (\<lambda>w value once. case w of
         LazyStore w' \<Rightarrow> do { st \<leftarrow> once; map_option (apsnd Some) (sw_finish so w' value st) }
       | LazyNone w' \<Rightarrow> sw_finish none w' value once),
     sw_drop = (\<lambda>w once. case w of LazyStore w' \<Rightarrow> do { st \<leftarrow> once; map_option Some (sw_drop so w' st) } | LazyNone w' \<Rightarrow> sw_drop none w' once)\<rparr>)"

text \<open>The dispatch between the stores. A writer belongs to the store that it was made by, so the two are of the same variant.\<close>

datatype ('a, 'b, 'c) Store = LruFsStore 'a | LfuFsStore 'b | FifoFsStore 'c | NoneStore

datatype ('x, 'y, 'z, 'k) StoreWriter = LruFsStorWriter 'x | LfuFsStorWriter 'y | FifoFsStoreWriter 'z | NoneStoreWriter "'k NoneStoreWriter"

definition on_store :: "('a \<Rightarrow> ('r \<times> 'a) option) \<Rightarrow> ('b \<Rightarrow> ('r \<times> 'b) option) \<Rightarrow> ('c \<Rightarrow> ('r \<times> 'c) option) \<Rightarrow> (unit \<Rightarrow> ('r \<times> unit) option) \<Rightarrow>
    ('a, 'b, 'c) Store \<Rightarrow> ('r \<times> ('a, 'b, 'c) Store) option" where
  "on_store f1 f2 f3 f4 store = (case store of
       LruFsStore a \<Rightarrow> map_option (apsnd LruFsStore) (f1 a)
     | LfuFsStore b \<Rightarrow> map_option (apsnd LfuFsStore) (f2 b)
     | FifoFsStore c \<Rightarrow> map_option (apsnd FifoFsStore) (f3 c)
     | NoneStore \<Rightarrow> map_option (apsnd (\<lambda>u. NoneStore)) (f4 ()))"

definition store_ops :: "('k, 'v, 'a, 'x) storage_ops \<Rightarrow> ('k, 'v, 'b, 'y) storage_ops \<Rightarrow> ('k, 'v, 'c, 'z) storage_ops \<Rightarrow>
    ('k, 'v, ('a, 'b, 'c) Store, ('x, 'y, 'z, 'k) StoreWriter) storage_ops" where
  "store_ops s1 s2 s3 = (let s4 = none_ops :: ('k, 'v, unit, 'k NoneStoreWriter) storage_ops in
    \<lparr>so_is_ready = (\<lambda>s. case s of LruFsStore a \<Rightarrow> so_is_ready s1 a | LfuFsStore b \<Rightarrow> so_is_ready s2 b | FifoFsStore c \<Rightarrow> so_is_ready s3 c | NoneStore \<Rightarrow> so_is_ready s4 ()),
     so_writer = (\<lambda>s key weight. case s of LruFsStore a \<Rightarrow> LruFsStorWriter (so_writer s1 a key weight) | LfuFsStore b \<Rightarrow> LfuFsStorWriter (so_writer s2 b key weight)
       | FifoFsStore c \<Rightarrow> FifoFsStoreWriter (so_writer s3 c key weight) | NoneStore \<Rightarrow> NoneStoreWriter (so_writer s4 () key weight)),
     so_exists = (\<lambda>s key. on_store (\<lambda>a. so_exists s1 a key) (\<lambda>b. so_exists s2 b key) (\<lambda>c. so_exists s3 c key) (\<lambda>u. so_exists s4 u key) s),
     so_lookup = (\<lambda>s key. on_store (\<lambda>a. so_lookup s1 a key) (\<lambda>b. so_lookup s2 b key) (\<lambda>c. so_lookup s3 c key) (\<lambda>u. so_lookup s4 u key) s),
     so_remove = (\<lambda>s key. on_store (\<lambda>a. so_remove s1 a key) (\<lambda>b. so_remove s2 b key) (\<lambda>c. so_remove s3 c key) (\<lambda>u. so_remove s4 u key) s),
     so_clear = on_store (so_clear s1) (so_clear s2) (so_clear s3) (so_clear s4),
     sw_judge = (\<lambda>w s. case (w, s) of
         (LruFsStorWriter x, LruFsStore a) \<Rightarrow> map_option (\<lambda>(r, x', a'). (r, LruFsStorWriter x', LruFsStore a')) (sw_judge s1 x a)
       | (LfuFsStorWriter y, LfuFsStore b) \<Rightarrow> map_option (\<lambda>(r, y', b'). (r, LfuFsStorWriter y', LfuFsStore b')) (sw_judge s2 y b)
       | (FifoFsStoreWriter z, FifoFsStore c) \<Rightarrow> map_option (\<lambda>(r, z', c'). (r, FifoFsStoreWriter z', FifoFsStore c')) (sw_judge s3 z c)
       | (NoneStoreWriter n, NoneStore) \<Rightarrow> map_option (\<lambda>(r, n', u). (r, NoneStoreWriter n', NoneStore)) (sw_judge s4 n ())
       | _ \<Rightarrow> None),
     sw_force = (\<lambda>w. case w of LruFsStorWriter x \<Rightarrow> LruFsStorWriter (sw_force s1 x) | LfuFsStorWriter y \<Rightarrow> LfuFsStorWriter (sw_force s2 y)
       | FifoFsStoreWriter z \<Rightarrow> FifoFsStoreWriter (sw_force s3 z) | NoneStoreWriter n \<Rightarrow> NoneStoreWriter (sw_force s4 n)),
     sw_set_compression = (\<lambda>w c. case w of LruFsStorWriter x \<Rightarrow> LruFsStorWriter (sw_set_compression s1 x c) | LfuFsStorWriter y \<Rightarrow> LfuFsStorWriter (sw_set_compression s2 y c)
       | FifoFsStoreWriter z \<Rightarrow> FifoFsStoreWriter (sw_set_compression s3 z c) | NoneStoreWriter n \<Rightarrow> NoneStoreWriter (sw_set_compression s4 n c)),
     sw_finish = (\<lambda>w value s. case (w, s) of
         (LruFsStorWriter x, LruFsStore a) \<Rightarrow> map_option (apsnd LruFsStore) (sw_finish s1 x value a)
       | (LfuFsStorWriter y, LfuFsStore b) \<Rightarrow> map_option (apsnd LfuFsStore) (sw_finish s2 y value b)
       | (FifoFsStoreWriter z, FifoFsStore c) \<Rightarrow> map_option (apsnd FifoFsStore) (sw_finish s3 z value c)
       | (NoneStoreWriter n, NoneStore) \<Rightarrow> map_option (apsnd (\<lambda>u. NoneStore)) (sw_finish s4 n value ())
       | _ \<Rightarrow> None),
     sw_drop = (\<lambda>w s. case (w, s) of
         (LruFsStorWriter x, LruFsStore a) \<Rightarrow> map_option LruFsStore (sw_drop s1 x a)
       | (LfuFsStorWriter y, LfuFsStore b) \<Rightarrow> map_option LfuFsStore (sw_drop s2 y b)
       | (FifoFsStoreWriter z, FifoFsStore c) \<Rightarrow> map_option FifoFsStore (sw_drop s3 z c)
       | (NoneStoreWriter n, NoneStore) \<Rightarrow> map_option (\<lambda>u. NoneStore) (sw_drop s4 n ())
       | _ \<Rightarrow> None)\<rparr>)"

section \<open>What the default methods rely on\<close>

text \<open>A judged writer finishes as if it had not been judged before, and finishing a writer that is refused drops it.\<close>

locale storage =
  fixes so :: "('k, 'v, 's, 'w) storage_ops" and live :: "'w \<Rightarrow> bool"
  assumes writer_live: "live (so_writer so st key weight)"
    and force_live: "live w \<Longrightarrow> live (sw_force so w)"
    and judge_none: "live w \<Longrightarrow> sw_judge so w st = None \<Longrightarrow> sw_finish so w v st = None"
    and judge_finish: "live w \<Longrightarrow> sw_judge so w st = Some (b, w1, st1) \<Longrightarrow> sw_finish so w1 v st1 = sw_finish so w v st"
    and refused_drop: "live w \<Longrightarrow> sw_judge so w st = Some (False, w1, st1) \<Longrightarrow> sw_finish so w v st = map_option (\<lambda>st'. (Inr False, st')) (sw_drop so w1 st1)"
begin

lemma fetched_finish: "live w \<Longrightarrow> judge_fetch_finish so w (\<lambda>s. (Some v, s)) st = sw_finish so w v st"
  using judge_none [of w st v] judge_finish [of w st _ _ _ v] refused_drop [of w st _ _ v]
  by (cases "sw_judge so w st") (auto simp: judge_fetch_finish_def split: if_splits)

lemma insert_with_eq:
  assumes "weight = cd_serialized_len kc key + cd_serialized_len vc v" "weight < usize_lim"
  shows "insert_with so key (Some v) weight st = storage_insert so kc vc key v st"
    and "insert_force_with so key (Some v) weight st = insert_force so kc vc key v st"
    and "insert_if_not_exists_with so key (Some v) weight st = insert_if_not_exists so kc vc key v st"
proof -
  have w: "uadd (cd_serialized_len kc key) (cd_serialized_len vc v) = Some weight" using assms by (simp add: checked)
  show i: "insert_with so key (Some v) weight st = storage_insert so kc vc key v st" for st
    using fetched_finish [OF writer_live] by (simp add: insert_with_def storage_insert_def w)
  show "insert_force_with so key (Some v) weight st = insert_force so kc vc key v st"
    using fetched_finish [OF force_live [OF writer_live]] by (simp add: insert_force_with_def insert_force_def w)
  show "insert_if_not_exists_with so key (Some v) weight st = insert_if_not_exists so kc vc key v st"
    using ext [of "insert_with so key (Some v) weight" "storage_insert so kc vc key v", OF i] by (simp add: insert_if_not_exists_with_def insert_if_not_exists_def)
qed

end

interpretation gen: storage "generic_ops env now" "\<lambda>w. \<not> w_is_inserted w"
proof
  fix w st st1 w1 b v
  show "sw_finish (generic_ops env now) w v st = None" if "sw_judge (generic_ops env now) w st = None"
    using that by (simp add: generic_ops_def writer_finish_def apply_writer_def)
  show "sw_finish (generic_ops env now) w1 v st1 = sw_finish (generic_ops env now) w v st" if "sw_judge (generic_ops env now) w st = Some (b, w1, st1)"
    using finish_judged [of env w st b w1 st1 now v] that by (simp add: generic_ops_def)
  show "sw_finish (generic_ops env now) w v st = map_option (\<lambda>st'. (Inr False, st')) (sw_drop (generic_ops env now) w1 st1)"
    if "\<not> w_is_inserted w" "sw_judge (generic_ops env now) w st = Some (False, w1, st1)"
    using skippable_judge_finish(3) [of env w st False w1 st1 now v] that drop_skippable [of env w1 st1] by (simp add: generic_ops_def option.map_comp comp_def)
qed (simp_all add: generic_ops_def writer_new_def writer_force_def)

interpretation none: storage none_ops "\<lambda>w. True"
  by unfold_locales (simp_all add: none_ops_def)

lemma lazy_storage:
  assumes "storage so live"
  shows "storage (lazy_ops so) (\<lambda>w. case w of LazyStore w' \<Rightarrow> live w' | LazyNone _ \<Rightarrow> True)"
proof -
  note L = assms [unfolded storage_def]
  show ?thesis
  proof
    fix st :: "'c option" and key :: 'a and weight
    show "case so_writer (lazy_ops so) st key weight of LazyStore w' \<Rightarrow> live w' | LazyNone _ \<Rightarrow> True"
      using L by (auto simp: lazy_ops_def Let_def split: option.splits LazyStorageWriter.splits)
  next
    fix w
    show "case sw_force (lazy_ops so) w of LazyStore w' \<Rightarrow> live w' | LazyNone _ \<Rightarrow> True" if "case w of LazyStore w' \<Rightarrow> live w' | LazyNone _ \<Rightarrow> True"
      using L that by (auto simp: lazy_ops_def Let_def split: LazyStorageWriter.splits)
  next
    fix w st v
    show "sw_finish (lazy_ops so) w v st = None" if "case w of LazyStore w' \<Rightarrow> live w' | LazyNone _ \<Rightarrow> True" "sw_judge (lazy_ops so) w st = None"
      using L that by (cases st; cases w) (auto simp: lazy_ops_def none_ops_def Let_def split: bind_splits)
  next
    fix w st b w1 st1 v
    show "sw_finish (lazy_ops so) w1 v st1 = sw_finish (lazy_ops so) w v st"
      if "case w of LazyStore w' \<Rightarrow> live w' | LazyNone _ \<Rightarrow> True" "sw_judge (lazy_ops so) w st = Some (b, w1, st1)"
      using L that by (cases st; cases w) (auto simp: lazy_ops_def none_ops_def Let_def split: bind_splits)
  next
    fix w st w1 st1 v
    show "sw_finish (lazy_ops so) w v st = map_option (\<lambda>st'. (Inr False, st')) (sw_drop (lazy_ops so) w1 st1)"
      if "case w of LazyStore w' \<Rightarrow> live w' | LazyNone _ \<Rightarrow> True" "sw_judge (lazy_ops so) w st = Some (False, w1, st1)"
      using L that by (cases st; cases w) (auto simp: lazy_ops_def none_ops_def Let_def option.map_comp comp_def split: bind_splits)
  qed
qed

definition store_live :: "('x \<Rightarrow> bool) \<Rightarrow> ('y \<Rightarrow> bool) \<Rightarrow> ('z \<Rightarrow> bool) \<Rightarrow> ('x, 'y, 'z, 'k) StoreWriter \<Rightarrow> bool" where
  "store_live l1 l2 l3 w \<longleftrightarrow> (case w of LruFsStorWriter x \<Rightarrow> l1 x | LfuFsStorWriter y \<Rightarrow> l2 y | FifoFsStoreWriter z \<Rightarrow> l3 z | NoneStoreWriter n \<Rightarrow> True)"

lemma dispatch_storage:
  assumes "storage s1 l1" "storage s2 l2" "storage s3 l3"
  shows "storage (store_ops s1 s2 s3) (store_live l1 l2 l3)"
proof -
  note L = assms [unfolded storage_def]
  show ?thesis
  proof
    fix st key weight
    show "store_live l1 l2 l3 (so_writer (store_ops s1 s2 s3) st key weight)"
      using L by (cases st) (simp_all add: store_ops_def store_live_def Let_def)
  next
    fix w
    show "store_live l1 l2 l3 (sw_force (store_ops s1 s2 s3) w)" if "store_live l1 l2 l3 w"
      using L that by (cases w) (simp_all add: store_ops_def store_live_def Let_def)
  next
    fix w st v
    show "sw_finish (store_ops s1 s2 s3) w v st = None" if "store_live l1 l2 l3 w" "sw_judge (store_ops s1 s2 s3) w st = None"
      using L that by (cases st; cases w) (simp_all add: store_ops_def store_live_def none_ops_def Let_def)
  next
    fix w st b w1 st1 v
    show "sw_finish (store_ops s1 s2 s3) w1 v st1 = sw_finish (store_ops s1 s2 s3) w v st"
      if "store_live l1 l2 l3 w" "sw_judge (store_ops s1 s2 s3) w st = Some (b, w1, st1)"
      using L that by (cases st; cases w) (auto simp: store_ops_def store_live_def none_ops_def Let_def)
  next
    fix w st w1 st1 v
    show "sw_finish (store_ops s1 s2 s3) w v st = map_option (\<lambda>st'. (Inr False, st')) (sw_drop (store_ops s1 s2 s3) w1 st1)"
      if "store_live l1 l2 l3 w" "sw_judge (store_ops s1 s2 s3) w st = Some (False, w1, st1)"
      using L that by (cases st; cases w) (auto simp: store_ops_def store_live_def none_ops_def Let_def option.map_comp comp_def)
  qed
qed

text \<open>The lazy store over the three generic stores, which is \<^verbatim>\<open>LazyStore\<close>.\<close>

interpretation lazy: storage "lazy_ops (store_ops (generic_ops e1 now) (generic_ops e2 now) (generic_ops e3 now))"
  "\<lambda>w. case w of LazyStore w' \<Rightarrow> store_live (\<lambda>w. \<not> w_is_inserted w) (\<lambda>w. \<not> w_is_inserted w) (\<lambda>w. \<not> w_is_inserted w) w' | LazyNone _ \<Rightarrow> True"
  by (rule lazy_storage, rule dispatch_storage) (rule gen.storage_axioms)+

section \<open>Forced insertion\<close>

context bitmap
begin

lemma forced_verdict:
  assumes "length vs \<le> 64"
  shows "\<exists>js'. judges_fill bm (judges_set_mask bm js (bm_default bm)) 0 vs = Some js' \<and> judges_judge bm js' \<and> (\<forall>i < length vs. judges_get bm js' i = Some (vs ! i))"
proof -
  let ?js = "judges_set_mask bm js (bm_default bm)"
  obtain js' where js': "judges_fill bm ?js 0 vs = Some js'" "js_umask js' = js_umask ?js"
    "\<forall>j<64. has_bit (js_judge js') j = (if 0 \<le> j \<and> j < 0 + length vs then vs ! (j - 0) else has_bit (js_judge ?js) j)"
    using fill_ok [of 0 vs ?js] assms by auto
  have "judges_judge bm js'" by (simp add: judge_iff js'(2) judges_set_mask_def invert_bit default_bit)
  moreover have "judges_get bm js' i = Some (vs ! i)" if "i < length vs" for i
    using that assms js'(3) by (simp add: judges_get_def get_ok)
  ultimately show ?thesis using js'(1) by blast
qed

end

text \<open>A forced insertion goes in whatever the policies say; they are asked, and hear \<^verbatim>\<open>on_insert\<close> with their verdicts.\<close>

lemma insert_force_ok:
  fixes env :: "('k::linorder, 'kc, 'v, 'vc, 'd, 'e, 'p, 'b) store_env"
  assumes bm: "bitmap (en_bm env) has_bit" and few: "length (gs_admissions st) \<le> 64" and inv: "catalog_inv (en_hash env) n (gs_catalog st)"
    and chs: "gs_channels st \<noteq> []" "\<forall>q \<in> set (gs_channels st). q \<noteq> None"
    and len: "cd_serialized_len (en_kc env) key < 2 ^ 60" "cd_serialized_len (en_vc env) val < 2 ^ 60"
    and al: "dv_align (en_dev env) = 2 ^ bits" "bits \<le> 60"
    and weight: "weight = cd_serialized_len (en_kc env) key + cd_serialized_len (en_vc env) val"
    and ask: "ask_policies (en_pol env) (gs_catalog st) key weight (gs_admissions st) = (vs, ps)"
  shows "\<exists>st'. insert_force (generic_ops env now) (en_kc env) (en_vc env) key val st = Some (Inr True, st') \<and>
    catalog_map (en_hash env) (gs_catalog st') = (catalog_map (en_hash env) (gs_catalog st))
      (key \<mapsto> \<lparr>it_sequence = gs_sequence st, it_index = Inflight key val, it_inserted = Some now\<rparr>) \<and>
    gs_admissions st' = map2 (\<lambda>p v. pol_on_insert (en_pol env) p key weight v) ps vs"
proof -
  let ?item = "item_new (gs_sequence st) (Inflight key val) :: ('k, 'v) Item"
  note lens = ask_policies_length [OF ask]
  define w where "w = writer_force env (writer_new env st key weight)"
  obtain js where js: "judges_fill (en_bm env) (w_judges w) 0 vs = Some js" "judges_judge (en_bm env) js" "\<forall>i < length vs. judges_get (en_bm env) js i = Some (vs ! i)"
    using bitmap.forced_verdict [OF bm, of vs "judges_new (en_bm env) (length (gs_admissions st))"] few lens by (auto simp: w_def writer_force_def writer_new_def)
  have tell: "tell_policies (en_bm env) js (\<lambda>p. pol_on_insert (en_pol env) p key weight) 0 ps = Some (map2 (\<lambda>p v. pol_on_insert (en_pol env) p key weight v) ps vs)"
    using js(3) lens by (intro tell_policies_ok) simp_all
  have fields: "w_key w = Some key" "w_weight w = weight" "\<not> w_is_judged w" "\<not> w_is_inserted w" "w_sequence w = None" by (simp_all add: w_def writer_force_def writer_new_def)
  have j: "writer_judge env w st = Some (True, w\<lparr>w_judges := js, w_is_judged := True\<rparr>, st\<lparr>gs_admissions := ps\<rparr>)"
    using js(1,2) ask fields by (simp add: writer_judge_def judge_inner_def)
  have "\<forall>v. it_index ?item = RegionIx v \<longrightarrow> rv_id v < n" by (simp add: item_new_def)
  then obtain c rf where ins: "catalog_insert (en_hash env) now key ?item (gs_catalog st) (gs_refs st) = Some (c, rf)"
    "catalog_map (en_hash env) c = (catalog_map (en_hash env) (gs_catalog st))(key \<mapsto> ?item\<lparr>it_inserted := Some now\<rparr>)"
    using catalog_insert_ok [OF inv, of ?item now key "gs_refs st"] by blast
  obtain m m' l where m: "uadd eh_serialized_len (cd_serialized_len (en_kc env) key) = Some m"
    "uadd m (cd_serialized_len (en_vc env) val) = Some m'" "align_up (dv_align (en_dev env)) m' = Some l"
    using entry_len_ok [OF len al] by blast
  have add: "uadd (cd_serialized_len (en_kc env) key) (cd_serialized_len (en_vc env) val) = Some weight" using len by (simp add: weight checked usize_lim_def)
  have "\<exists>st'. writer_finish env now w val st = Some (True, st') \<and> gs_catalog st' = c \<and> gs_admissions st' = map2 (\<lambda>p v. pol_on_insert (en_pol env) p key weight v) ps vs"
    using j tell m ins(1) fields send_entry_ok [OF chs] by (simp add: writer_finish_def apply_writer_def writer_drop_def Let_def item_new_def)
  then show ?thesis using ins(2) add by (auto simp: insert_force_def generic_ops_def item_new_def w_def)
qed

lemma lazy_closed:
  assumes "weight = cd_serialized_len kc key + cd_serialized_len vc val" "weight < usize_lim"
  shows "storage_insert (lazy_ops so) kc vc key val None = Some (Inr False, None)" "insert_force (lazy_ops so) kc vc key val None = Some (Inr False, None)"
proof -
  have "uadd (cd_serialized_len kc key) (cd_serialized_len vc val) = Some weight" using assms by (simp add: checked)
  then show "storage_insert (lazy_ops so) kc vc key val None = Some (Inr False, None)" "insert_force (lazy_ops so) kc vc key val None = Some (Inr False, None)"
    by (simp_all add: storage_insert_def insert_force_def lazy_ops_def none_ops_def Let_def)
qed

section \<open>Properties\<close>



end
