(* ===== verification/Spec2Isabelle.thy ===== *)
theory Spec2Isabelle
  imports Cache Store_Props Policies Intrusive_List Rates Storage
begin

text \<open>
  Foyer is a hybrid cache in Rust: \<^verbatim>\<open>foyer-memory\<close> is a concurrent cache in memory, \<^verbatim>\<open>foyer-storage\<close> a cache on a disk,
  \<^verbatim>\<open>foyer-common\<close> and \<^verbatim>\<open>foyer-intrusive\<close> hold what they share. This development models both caches.

  \<^bold>\<open>Conventions.\<close> A function into \<open>option\<close> is code that can panic: \<open>None\<close> is a failed assertion, an unwrapped nothing, an index out of
  range or an unsigned overflow (\<open>uadd\<close>, \<open>usub\<close>, \<open>umul\<close> of \<open>Foyer_Prelude\<close>); in a partial function it is also a loop that does not end, and
  every such loop has a lemma that it returns. A number \<open>usize\<close> is a natural number below \<open>usize_lim\<close>, \<open>2\<close> to the power of \<open>64\<close>; words are used where the
  code wraps around or masks bits. \<^verbatim>\<open>Result\<close> is a sum with the error to the left. Crates that are not part of the repository (hashbrown's
  table, the object pool, cmsketch, bitmaps, zstd and lz4, the checksum, the system calls) are arguments; what the code
  relies on is a locale, and each locale is interpreted.

  \<^bold>\<open>The cache in memory.\<close>
  \<^item> \<open>Base_Handle\<close> (\<^verbatim>\<open>handle.rs\<close>, \<^verbatim>\<open>context.rs\<close>): the handle of an entry, its flags and its count of references. Handles live in a heap, a
    map from addresses; an intrusive list is the list of the addresses it links.
  \<^item> \<open>Eviction_Spec\<close> is the trait \<^verbatim>\<open>Eviction\<close> as the locales \<open>eviction_core\<close> and \<open>eviction\<close>; \<open>Fifo\<close>, \<open>Lru\<close>, \<open>Lfu\<close>, \<open>S3fifo\<close> (\<^verbatim>\<open>eviction/*.rs\<close>)
    are its instances. S3-FIFO satisfies \<open>eviction_core\<close> only, which C19 explains.
  \<^item> \<open>Indexer\<close> (\<^verbatim>\<open>indexer.rs\<close>): the index of a shard over a hash table (\<open>hash_table\<close>), as a refinement of a map (C16).
  \<^item> \<open>Cache_Shard\<close>, \<open>Shard_Inv\<close>, \<open>Shard_Evict\<close> (\<^verbatim>\<open>CacheShard\<close> of \<^verbatim>\<open>generic.rs\<close>): the operations that run under the lock of a shard, their invariant
    \<open>shard_inv\<close>, and the loop of eviction. The locales \<open>cache_shard_core\<close> and \<open>cache_shard\<close> are over any container and index that keep their contracts.
  \<^item> \<open>Generic_Cache\<close>, \<open>Cache_Inv\<close>, \<open>Cache_Steps\<close> (\<^verbatim>\<open>GenericCache\<close>, entries and the \<^verbatim>\<open>entry\<close> interface): the operations of the cache and
    the relation \<open>client_step\<close>, whose states hold the entries that are alive and the fetches under way; \<open>reachable\<close> are its reachable states.
  \<^item> \<open>Cache\<close> (\<^verbatim>\<open>cache.rs\<close>): the four caches and the dispatch between them.
  \<^item> C1 to C14 are about the cache: it never panics, references are counted exactly, entries are stable while they are held, the listener, every operation, the waiters
    of a fetch, the capacity, the end of eviction. C15 to C20 are about its parts. The containers take an intrusive list to be the list of its items;
    \<open>Intrusive_List\<close> (\<^verbatim>\<open>dlist.rs\<close>) has the list with its pointers, and that it is one (C21).

  \<^bold>\<open>The cache on the disk.\<close>
  \<^item> \<open>Bits_Range\<close>, \<open>Codec\<close> (\<^verbatim>\<open>foyer-common\<close>: \<^verbatim>\<open>bits.rs\<close>, \<^verbatim>\<open>range.rs\<close>, \<^verbatim>\<open>code.rs\<close>), \<open>Entry_Format\<close> (\<^verbatim>\<open>compress.rs\<close>, the headers of \<^verbatim>\<open>region.rs\<close> and \<^verbatim>\<open>generic.rs\<close>):
    alignment, coders and the format of an entry.
  \<^item> \<open>Device\<close> (\<^verbatim>\<open>device/mod.rs\<close>, \<^verbatim>\<open>device/fs.rs\<close>): the interface \<open>device\<close> and the device on files, over \<open>posix_files\<close>.
  \<^item> \<open>Flush_Buffer\<close> (\<^verbatim>\<open>buffer.rs\<close>): the locale \<open>store_io\<close>; entries that were flushed can be read (C23, C24). \<open>Region_Stream\<close> has the layout of a region.
  \<^item> \<open>Region\<close> (\<^verbatim>\<open>region.rs\<close>, C26), \<open>Async_Queue\<close> (\<^verbatim>\<open>async_queue.rs\<close>, C28), \<open>Region_Manager\<close> (\<^verbatim>\<open>region_manager.rs\<close>, over the locale \<open>eviction_policy\<close>, the trait
    \<^verbatim>\<open>EvictionPolicy\<close>, which \<open>rfifo\<close> interprets), \<open>Catalog\<close> (\<^verbatim>\<open>catalog.rs\<close>, a refinement of a map with counted views, C27), \<open>Judges\<close> (\<^verbatim>\<open>judge.rs\<close>, C25).
  \<^item> \<open>Policy_Lru\<close>, \<open>Policy_Sfifo\<close>, \<open>Policy_Lfu\<close> (\<^verbatim>\<open>foyer-intrusive/src/eviction\<close>) are the other policies of a region manager; \<open>Policies\<close>: all of them
    interpret \<open>eviction_policy\<close> (C36), and which removals of the LRU policy panic (C37).
  \<^item> \<open>Rates\<close> (\<^verbatim>\<open>rate.rs\<close>, the three files \<^verbatim>\<open>rated_ticket.rs\<close>): the limiter, the ticket and its policies; a ticket keeps its rate (C22).
  \<^item> \<open>Region_Iter\<close>, \<open>Recovery\<close> (\<^verbatim>\<open>generic.rs\<close>): recovery finds what was flushed (C29, C30); locale \<open>disk_store\<close>.
  \<^item> \<open>Flusher\<close>, \<open>Store\<close>, \<open>Reclaimer\<close> (\<^verbatim>\<open>flusher.rs\<close>, \<^verbatim>\<open>generic.rs\<close>, \<^verbatim>\<open>reclaimer.rs\<close>): the operations of the store and of its tasks: inserting through a
    writer (C31), publishing what was flushed (C38), reinserting (C40). \<open>Storage\<close> (\<^verbatim>\<open>storage.rs\<close>, \<^verbatim>\<open>store.rs\<close>, \<^verbatim>\<open>lazy.rs\<close>) is the interface of the stores as the locale \<open>storage\<close>, with its default
    methods (C39), which the generic store, the store that keeps nothing and the lazy store over the dispatch interpret.
  \<^item> \<open>Store_System\<close> composes them: clients, flushers and reclaimers interleave at the awaits (\<open>client_op\<close>, \<open>flusher_op\<close>, \<open>reclaimer_op\<close>, \<open>store_reachable\<close>).
    \<open>Store_Inv\<close> has the invariant, \<open>Store_Steps\<close> and \<open>Store_Safe\<close> that every step keeps it, \<open>Store_Reach\<close> that it holds when the store opens, \<open>Store_Demo\<close>
    a run of a small store. \<open>Store_Props\<close>: lookups never return a wrong value (C32), a region has one owner (C33), a reclaimer
    is alone with its region (C34), and what it waits for (C35).

  \<^bold>\<open>Bounds.\<close> \<open>bounded\<close> for the cache in memory and \<open>views_fit\<close> for the store say that a counter of 64 bits does not wrap; entries of the store are below \<open>2 ^ 60\<close>
  bytes (\<open>small_entry\<close>) and regions below \<open>2 ^ 32\<close>, as the 32-bit offsets need; sequences do not wrap. Nothing uses fuel.

  \<^bold>\<open>Not modelled.\<close> Metrics, tracing and durations; the runtime of tokio, so starting and joining tasks and the store on its own runtime
  (\<^verbatim>\<open>runtime.rs\<close>); the hash maps of \<^verbatim>\<open>foyer-intrusive\<close>, which
  the caches do not use, and its adapters, which cast between an item and its link; locks; the experimental write-ahead log and the benchmarks. In the composed system the operations of the catalog are
  atomic, the regions are blank when the store opens, and reclaimers do not reinsert: reinsertion and recovery are modelled by themselves.
  A send to a stopped flusher panics in the code and has no step here.
\<close>

section \<open>A small cache to apply the theorems to\<close>

definition demo_deps :: "(nat, nat, (nat \<times> ptr) list, (nat, nat, LruContext, lru_ext) handle array_queue) lru_deps" where
  "demo_deps = lru_deps (\<lambda>x. x) al_table aq_ops (\<lambda>k. k)"

definition demo_spec :: "(nat, nat, LruContext, lru_ext, Lru, (nat \<times> ptr) list HashTableIndexer,
    (nat, nat, LruContext, lru_ext) handle array_queue) cache_spec" where
  "demo_spec = lru_spec al_table_ok set aq_contents (\<lambda>k. k)"

definition demo_config :: "LruConfig CacheConfig" where
  "demo_config = \<lparr>cfg_capacity = 4, cfg_shards = 2, cfg_eviction_config = \<lparr>high_priority_pool_ratio = 0\<rparr>,
     cfg_object_pool_capacity = 1\<rparr>"

definition demo_cache :: "(nat, nat, (nat \<times> ptr) list, (nat, nat, LruContext, lru_ext) handle array_queue) LruCache" where
  "demo_cache = the (gc_new demo_deps demo_config)"

lemma demo_shard: "cache_shard demo_deps demo_spec"
  unfolding demo_deps_def demo_spec_def
  by (rule lru_cache_shard [OF al.hash_table_axioms aq.object_pool_axioms])

lemmas demo_defs = demo_deps_def demo_config_def lru_deps_def aq_ops_def shard_new_def lru_ops_def lru_new_def
  gc_new_def numeral_2_eq_2 Let_def

lemma demo_new: "gc_new demo_deps demo_config = Some demo_cache"
proof -
  have "gc_new demo_deps demo_config \<noteq> None" by (simp add: demo_defs)
  then show ?thesis by (simp add: demo_cache_def)
qed

lemma demo_shards: "length (gc_shards demo_cache) = 2" "sh_usage (gc_shards demo_cache ! Suc 0) = 0"
    "sh_waiters (gc_shards demo_cache ! Suc 0) = Map.empty" "cs_next (gc_shared demo_cache) = 0"
  by (simp_all add: demo_cache_def demo_defs)

lemma demo_inv: "cache_inv demo_spec (dep_hash demo_deps) demo_cache {#}"
  by (rule cache_shard.gc_new_ok [OF demo_shard demo_new])

definition demo_cache1 :: "(nat, nat, (nat \<times> ptr) list, (nat, nat, LruContext, lru_ext) handle array_queue) LruCache" where
  "demo_cache1 = snd (the (gc_insert_with_context demo_deps demo_cache 1 10 2 Default))"

lemma demo_hash [simp]: "dep_hash demo_deps k = k"
  by (simp add: demo_deps_def lru_deps_def)

lemma demo_inv1: "cache_inv demo_spec (dep_hash demo_deps) demo_cache1 {#0#}"
    "gc_insert_with_context demo_deps demo_cache 1 10 2 Default = Some ((0, []), demo_cache1)"
    "contents demo_deps demo_cache1 1 = Some 10"
proof -
  obtain p sends g' where 1: "gc_insert_with_context demo_deps demo_cache 1 10 2 Default = Some ((p, sends), g')"
      "cache_inv demo_spec (dep_hash demo_deps) g' (add_mset p {#} + mset (map snd sends))" "contents demo_deps g' 1 = Some 10"
      "map fst sends = []" "p = cs_next (gc_shared demo_cache)"
    using cache_shard.gc_insert_ok [OF demo_shard demo_inv, of 1 2 10 Default]
    by (auto simp: demo_shards usize_lim_def)
  then have "p = 0" "sends = []" "g' = demo_cache1" by (simp_all add: demo_cache1_def demo_shards)
  with 1 show "cache_inv demo_spec (dep_hash demo_deps) demo_cache1 {#0#}"
    "gc_insert_with_context demo_deps demo_cache 1 10 2 Default = Some ((0, []), demo_cache1)"
    "contents demo_deps demo_cache1 1 = Some 10" by simp_all
qed

lemma demo_reachable: "reachable demo_deps demo_config (client_init demo_cache)"
  by (rule reach_init [OF demo_new])

lemma demo_reachable1: "reachable demo_deps demo_config \<lparr>pr_cache = demo_cache1, pr_held = {#0#}, pr_fetching = {#}\<rparr>"
proof (rule reach_step [OF demo_reachable])
  show "bounded demo_deps (client_init demo_cache)"
    by (simp add: bounded_def client_init_def usize_lim_def cache_shard.gc_new_ok(3) [OF demo_shard demo_new])
  show "client_step demo_deps (client_init demo_cache) \<lparr>pr_cache = demo_cache1, pr_held = {#0#}, pr_fetching = {#}\<rparr>"
    using step_insert [OF demo_inv1(2), of "{#}" "{#}"] by (simp add: client_init_def)
qed

lemma demo_waiting1: "waiting demo_deps demo_cache1 = Map.empty"
proof -
  have "waiting demo_deps demo_cache = Map.empty" by (rule cache_shard.gc_new_ok(3) [OF demo_shard demo_new])
  moreover obtain p sends g' where "gc_insert_with_context demo_deps demo_cache 1 10 2 Default = Some ((p, sends), g')"
      "waiting demo_deps g' = (waiting demo_deps demo_cache)(1 := None)"
    using cache_shard.gc_insert_ok [OF demo_shard demo_inv, of 1 2 10 Default]
    by (auto simp: demo_shards usize_lim_def)
  ultimately show ?thesis using demo_inv1(2) by simp
qed

section \<open>A program that uses the cache\<close>

lemmas shard_core = cache_shard.axioms(1)

lemma program_cache_inv:
  assumes "cache_shard d a" "reachable d config st"
  shows "cache_inv a (dep_hash d) (pr_cache st) (pr_held st)"
  using cache_shard.reachable_inv [OF assms] by (simp add: program_inv_def)

lemma held_handle_inv:
  assumes shard: "cache_shard d a" and ok: "cache_ok a (dep_hash d) g" and h: "cs_heap (gc_shared g) p = Some h"
  defines "i \<equiv> bh_hash (base h) mod length (gc_shards g)"
  shows "shard_inv a (dep_hash d) (shard_of g i) {} {} {} (cs_heap (gc_shared g)) (gc_shards g ! i)"
    "handle_inv a (dep_hash d) {} (gc_shards g ! i) p h"
proof -
  note G = cache_shard_core.cache_okD [OF shard_core [OF shard] ok]
  show inv: "shard_inv a (dep_hash d) (shard_of g i) {} {} {} (cs_heap (gc_shared g)) (gc_shards g ! i)"
    unfolding i_def by (rule G(4)) (rule G(2))
  show "handle_inv a (dep_hash d) {} (gc_shards g ! i) p h"
    by (rule shard_invD(7) [OF inv h]) (simp add: shard_of_def i_def)
qed

lemma held_readable:
  assumes shard: "cache_shard d a" and inv: "cache_inv a (dep_hash d) g held" and p: "p \<in># held"
  shows "\<exists>k v. entry_key g p = Some k \<and> entry_value g p = Some v \<and> entry_refs g p = Some (count held p)"
proof -
  have ok: "cache_ok a (dep_hash d) g" and refs: "refs_ok (cs_heap (gc_shared g)) held"
    using inv by (simp_all add: cache_inv_def)
  obtain h where h: "cs_heap (gc_shared g) p = Some h" using refs_ok_live [OF refs p] by blast
  have "is_inited (base h)" using held_handle_inv(2) [OF shard ok h] by (simp add: handle_inv_def well_hashed_def)
  then obtain k v c where "bh_entry (base h) = Some (k, v, c)" by (auto simp: is_inited_def)
  with h refs show ?thesis
    by (simp add: entry_key_def entry_value_def entry_refs_def bh_key_def bh_value_def refs_ok_def)
qed

text \<open>What one step does to the entries on the heap.\<close>

lemma client_step_accounted:
  assumes shard: "cache_shard d a" and step: "client_step d st st'" and inv: "program_inv d a st" and b: "bounded d st"
  shows "gc_clear d (pr_cache st) = Some (pr_cache st') \<or>
    (\<exists>q. cs_heap (gc_shared (pr_cache st)) q = None \<and>
       accounted d (pr_cache st) (pr_cache st') ((cs_heap (gc_shared (pr_cache st')))(q := None)))"
proof -
  note core = shard_core [OF shard]
  have ci: "cache_inv a (dep_hash d) (pr_cache st) (pr_held st)" and lim: "size (pr_held st) + 1 < usize_lim"
    using inv b by (simp_all add: program_inv_def bounded_def)
  have none: "\<exists>q. cs_heap (gc_shared (pr_cache st)) q = None \<and> accounted d (pr_cache st) g' ((cs_heap (gc_shared g'))(q := None))"
    if acc: "accounted d (pr_cache st) g' (cs_heap (gc_shared g'))" for g'
  proof -
    have "shared_inv a (gc_shared (pr_cache st))" using ci by (simp add: cache_inv_def cache_ok_def)
    then have n: "cs_heap (gc_shared (pr_cache st)) (cs_next (gc_shared (pr_cache st))) = None"
      by (auto simp: shared_inv_def)
    have "dom (cs_heap (gc_shared g')) \<subseteq> dom (cs_heap (gc_shared (pr_cache st)))"
      using acc by (auto simp: accounted_def freed_def)
    with n have "(cs_heap (gc_shared g'))(cs_next (gc_shared (pr_cache st)) := None) = cs_heap (gc_shared g')"
      by (auto simp: fun_upd_idem_iff domIff)
    with n acc show ?thesis by metis
  qed
  have ins: "\<exists>q. cs_heap (gc_shared (pr_cache st)) q = None \<and> accounted d (pr_cache st) g' ((cs_heap (gc_shared g'))(q := None))"
    if ins: "gc_insert_with_context d (pr_cache st) k v c ctx = Some ((p, sends), g')" for k v c ctx p sends g'
    using cache_shard.insert_step_ok [OF shard _ _ ins] inv b by (metis program.surjective unit.exhaust)
  from step show ?thesis
  proof (cases rule: client_step.cases)
    case (step_insert g k v c ctx p sends g' held f)
    with ins [of k v c ctx p sends g'] show ?thesis by simp
  next
    case (step_get g k r g' held f)
    with cache_shard_core.gc_get_ok [OF core ci lim, of k] none [of g'] show ?thesis by auto
  next
    case (step_remove g k g' held f)
    with cache_shard_core.gc_remove_ok [OF core ci, of k] none [of g'] show ?thesis by auto
  next
    case (step_clone p held g q g' f)
    with cache_shard_core.entry_clone_ok [OF core ci _ lim, of p] none [of g'] show ?thesis by auto
  next
    case (step_drop p held g g' f)
    with cache_shard_core.entry_drop_ok [OF core ci, of p] none [of g'] show ?thesis by auto
  next
    case (step_entry g k r g' held f)
    with cache_shard_core.gc_entry_ok [OF core ci lim, of k] none [of g'] show ?thesis by auto
  next
    case (step_fetched k f g v c ctx p sends g' held)
    with ins [of k v c ctx p sends g'] show ?thesis by simp
  next
    case (step_fetch_err k f g ws g' held)
    with cache_shard_core.gc_fetch_err_ok [OF core ci, of k] none [of g'] show ?thesis by auto
  qed simp
qed

lemma client_step_entries:
  assumes shard: "cache_shard d a" and step: "client_step d st st'" and inv: "program_inv d a st" and b: "bounded d st"
  obtains q where "cs_heap (gc_shared (pr_cache st)) q = None"
    "same_entries (cs_heap (gc_shared (pr_cache st))) ((cs_heap (gc_shared (pr_cache st')))(q := None))"
  using client_step_accounted [OF assms]
proof
  assume clear: "gc_clear d (pr_cache st) = Some (pr_cache st')"
  have ci: "cache_inv a (dep_hash d) (pr_cache st) (pr_held st)" using inv by (simp add: program_inv_def)
  then have "shared_inv a (gc_shared (pr_cache st))" by (simp add: cache_inv_def cache_ok_def)
  then have "cs_heap (gc_shared (pr_cache st)) (cs_next (gc_shared (pr_cache st))) = None" by (auto simp: shared_inv_def)
  moreover have "same_entries (cs_heap (gc_shared (pr_cache st))) (cs_heap (gc_shared (pr_cache st')))"
    using cache_shard.gc_clear_ok [OF shard ci] clear by auto
  ultimately show thesis using that by (auto simp: same_entries_def)
qed (use that in \<open>auto simp: accounted_def\<close>)

text \<open>The usage of the shards.\<close>

lemma shard_usage_capacity:
  assumes shard: "cache_shard d a" and ok: "cache_ok a (dep_hash d) g" and refs: "refs_ok (cs_heap (gc_shared g)) held"
    and i: "i < length (gc_shards g)"
  shows "sh_usage (gc_shards g ! i) \<le> gc_capacity g div length (gc_shards g) \<or>
    (\<forall>p h. cs_heap (gc_shared g) p = Some h \<longrightarrow> bh_hash (base h) mod length (gc_shards g) = i \<longrightarrow> p \<in># held)"
proof -
  have "sh_capacity (gc_shards g ! i) = gc_capacity g div length (gc_shards g)" using ok i by (simp add: cache_ok_def)
  then have "sh_usage (gc_shards g ! i) \<le> gc_capacity g div length (gc_shards g) \<or>
      (\<forall>p \<in> own (shard_of g i) (cs_heap (gc_shared g)). holds_at (cs_heap (gc_shared g)) p (\<lambda>h. has_refs (base h)))"
    using shard_invD(10) [OF cache_shard_core.cache_okD(4) [OF shard_core [OF shard] ok i]] by simp
  moreover have "p \<in># held" if "cs_heap (gc_shared g) p = Some h" "has_refs (base h)" for p h
    using that refs by (auto simp: refs_ok_def has_refs_def)
  ultimately show ?thesis by (auto simp: own_def shard_of_def holds_at_def split: option.splits)
qed

lemma shard_usage_unheld:
  assumes shard: "cache_shard d a" and ok: "cache_ok a (dep_hash d) g" and refs: "refs_ok (cs_heap (gc_shared g)) {#}"
    and i: "i < length (gc_shards g)"
  shows "sh_usage (gc_shards g ! i) \<le> gc_capacity g div length (gc_shards g)"
proof (rule ccontr)
  assume "\<not> ?thesis"
  with shard_usage_capacity [OF shard ok refs i] have "own (shard_of g i) (cs_heap (gc_shared g)) = {}"
    by (auto simp: own_def shard_of_def)
  then have "sh_usage (gc_shards g ! i) = 0"
    using shard_invD(8) [OF cache_shard_core.cache_okD(4) [OF shard_core [OF shard] ok i]] by simp
  with \<open>\<not> ?thesis\<close> show False by simp
qed

lemma fold_usage:
  "u + sum_list (map sh_usage ss) < usize_lim \<Longrightarrow>
   fold (\<lambda>s r. do { u \<leftarrow> r; uadd u (sh_usage s) }) ss (Some u) = Some (u + sum_list (map sh_usage ss))"
  by (induction ss arbitrary: u) (simp_all add: checked add.assoc)

lemma gc_usage_sum:
  assumes "\<And>s. s \<in> set (gc_shards g) \<Longrightarrow> sh_usage s \<le> gc_capacity g div length (gc_shards g)"
    and "gc_capacity g < usize_lim"
  shows "\<exists>u. gc_usage g = Some u \<and> u \<le> gc_capacity g"
proof -
  have "sum_list (map sh_usage (gc_shards g)) \<le> length (gc_shards g) * (gc_capacity g div length (gc_shards g))"
    using sum_list_mono [of "gc_shards g" sh_usage "\<lambda>_. gc_capacity g div length (gc_shards g)"] assms(1)
    by (simp add: sum_list_triv)
  also have "\<dots> \<le> gc_capacity g" by simp
  finally show ?thesis using assms(2) fold_usage [of 0 "gc_shards g"] by (simp add: gc_usage_def)
qed

lemma demo_bounded1: "bounded demo_deps \<lparr>pr_cache = demo_cache1, pr_held = {#0#}, pr_fetching = {#}\<rparr>"
  by (simp add: bounded_def usize_lim_def demo_waiting1)

text \<open>C1. In every state that a program can reach, whatever sequence of insertions, lookups, removals,
  clears, clones, drops and fetches led to it, every operation of the cache is defined: no assertion of the
  code fails, no unsigned number overflows, no handle is used after it was freed. An insertion asks that the
  usage of its shard plus the charge fits a \<^verbatim>\<open>usize\<close>.\<close>

theorem client_never_panics:
  assumes shard: "cache_shard d a" and reach: "reachable d config st" and b: "bounded d st"
  shows "(\<forall>k. \<exists>r g'. gc_get d (pr_cache st) k = Some (r, g')) \<and>
    (\<forall>k. \<exists>r g'. gc_entry d (pr_cache st) k = Some (r, g')) \<and>
    (\<forall>k. \<exists>ws g'. gc_fetch_err d (pr_cache st) k = Some (ws, g')) \<and>
    (\<forall>k. \<exists>g'. gc_remove d (pr_cache st) k = Some g') \<and> (\<exists>g'. gc_clear d (pr_cache st) = Some g') \<and>
    (\<forall>k v c ctx. sh_usage (gc_shards (pr_cache st) ! (dep_hash d k mod length (gc_shards (pr_cache st)))) + c < usize_lim \<longrightarrow>
       (\<exists>r g'. gc_insert_with_context d (pr_cache st) k v c ctx = Some (r, g'))) \<and>
    (\<forall>p \<in># pr_held st. (\<exists>g'. entry_drop d (pr_cache st) p = Some g') \<and>
       (\<exists>q g'. entry_clone (pr_cache st) p = Some (q, g')) \<and>
       (\<exists>k v. entry_key (pr_cache st) p = Some k \<and> entry_value (pr_cache st) p = Some v))"
proof -
  let ?g = "pr_cache st"
  have inv: "cache_inv a (dep_hash d) ?g (pr_held st)" by (rule program_cache_inv [OF shard reach])
  have lim: "size (pr_held st) + 1 < usize_lim" using b by (simp add: bounded_def)
  note core = shard_core [OF shard]
  have ins: "\<exists>r g'. gc_insert_with_context d ?g k v c ctx = Some (r, g')"
    if "sh_usage (gc_shards ?g ! (dep_hash d k mod length (gc_shards ?g))) + c < usize_lim" for k v c ctx
  proof -
    have ok: "cache_ok a (dep_hash d) ?g" using inv by (simp add: cache_inv_def)
    have "waiting d ?g k = sh_waiters (gc_shards ?g ! (dep_hash d k mod length (gc_shards ?g))) k"
      by (simp add: waiting_def cache_shard_core.cache_okD(1) [OF core ok])
    then have "length (case sh_waiters (gc_shards ?g ! (dep_hash d k mod length (gc_shards ?g))) k of
        None \<Rightarrow> [] | Some l \<Rightarrow> l) + 1 < usize_lim"
      using b by (auto simp: bounded_def usize_lim_def split: option.splits)
    from cache_shard.gc_insert_ok [OF shard inv that this, of v ctx] show ?thesis by blast
  qed
  have held: "(\<exists>g'. entry_drop d ?g p = Some g') \<and> (\<exists>q g'. entry_clone ?g p = Some (q, g')) \<and>
      (\<exists>k v. entry_key ?g p = Some k \<and> entry_value ?g p = Some v)" if p: "p \<in># pr_held st" for p
    using cache_shard_core.entry_drop_ok [OF core inv p] cache_shard_core.entry_clone_ok [OF core inv p lim]
      held_readable [OF shard inv p] by blast
  show ?thesis
    using cache_shard_core.gc_get_ok [OF core inv lim] cache_shard_core.gc_entry_ok [OF core inv lim]
      cache_shard_core.gc_fetch_err_ok [OF core inv] cache_shard_core.gc_remove_ok [OF core inv]
      cache_shard.gc_clear_ok [OF shard inv] ins held by meson
qed

theorem client_never_panics_witness:
  "(\<exists>r g'. gc_get demo_deps demo_cache1 1 = Some (r, g')) \<and> (\<exists>g'. entry_drop demo_deps demo_cache1 0 = Some g')"
  using client_never_panics [OF demo_shard demo_reachable1 demo_bounded1] by simp


text \<open>C2. Reference counting is exact and nothing leaks: in every reachable state the reference count of a
  handle is the number of the entries that are alive for it, every entry that is alive has its handle on the
  heap, and a handle without an entry is in the eviction container and in the indexer, so it can be found
  and evicted.\<close>

theorem entries_are_counted:
  assumes shard: "cache_shard d a" and reach: "reachable d config st"
  shows "(\<forall>p \<in># pr_held st. cs_heap (gc_shared (pr_cache st)) p \<noteq> None) \<and>
    (\<forall>p h. cs_heap (gc_shared (pr_cache st)) p = Some h \<longrightarrow>
       bh_refs (base h) = count (pr_held st) p \<and> (p \<in># pr_held st \<or> in_ev h \<and> in_ix h))"
proof (intro conjI allI impI ballI)
  let ?g = "pr_cache st"
  have inv: "cache_inv a (dep_hash d) ?g (pr_held st)" by (rule program_cache_inv [OF shard reach])
  then have ok: "cache_ok a (dep_hash d) ?g" and refs: "refs_ok (cs_heap (gc_shared ?g)) (pr_held st)"
    by (simp_all add: cache_inv_def)
  show "cs_heap (gc_shared ?g) p \<noteq> None" if "p \<in># pr_held st" for p
    using refs_ok_live [OF refs that] by auto
  fix p h assume h: "cs_heap (gc_shared ?g) p = Some h"
  show rc: "bh_refs (base h) = count (pr_held st) p" using refs h by (simp add: refs_ok_def)
  let ?s = "gc_shards ?g ! (bh_hash (base h) mod length (gc_shards ?g))"
  note hi = held_handle_inv [OF shard ok h]
  show "p \<in># pr_held st \<or> in_ev h \<and> in_ix h"
  proof (cases "p \<in># pr_held st")
    case False
    then have "\<not> has_refs (base h)" using rc by (simp add: has_refs_def count_eq_zero_iff)
    then have "in_ev h" using hi(2) unfolding handle_inv_def by blast
    moreover have "in_ix h" using calculation hi(2) shard_invD(3) [OF hi(1)] unfolding handle_inv_def by blast
    ultimately show ?thesis by simp
  qed simp
qed

theorem entries_are_counted_witness:
  "\<exists>h. cs_heap (gc_shared demo_cache1) 0 = Some h \<and> bh_refs (base h) = 1"
  using entries_are_counted [OF demo_shard demo_reachable1] by auto

text \<open>C3. The entry that a user holds never changes: whatever step a program takes, also one that replaces,
  removes or evicts the entry or clears the cache, an entry that is alive before and after it reads the same
  key and the same value.\<close>

theorem held_entry_is_stable:
  assumes shard: "cache_shard d a" and reach: "reachable d config st" and b: "bounded d st"
    and step: "client_step d st st'" and p: "p \<in># pr_held st" "p \<in># pr_held st'"
  shows "\<exists>k v. entry_key (pr_cache st) p = Some k \<and> entry_value (pr_cache st) p = Some v \<and>
    entry_key (pr_cache st') p = Some k \<and> entry_value (pr_cache st') p = Some v"
proof -
  have inv: "program_inv d a st" by (rule cache_shard.reachable_inv [OF shard reach])
  then have ci: "cache_inv a (dep_hash d) (pr_cache st) (pr_held st)" by (simp add: program_inv_def)
  have ci': "cache_inv a (dep_hash d) (pr_cache st') (pr_held st')"
    using cache_shard.client_step_inv [OF shard step inv b] by (simp add: program_inv_def)
  obtain k v where kv: "entry_key (pr_cache st) p = Some k" "entry_value (pr_cache st) p = Some v"
    using held_readable [OF shard ci p(1)] by blast
  obtain k' v' where kv': "entry_key (pr_cache st') p = Some k'" "entry_value (pr_cache st') p = Some v'"
    using held_readable [OF shard ci' p(2)] by blast
  obtain q where q: "cs_heap (gc_shared (pr_cache st)) q = None"
      "same_entries (cs_heap (gc_shared (pr_cache st))) ((cs_heap (gc_shared (pr_cache st')))(q := None))"
    by (rule client_step_entries [OF shard step inv b])
  have "cs_heap (gc_shared (pr_cache st)) p \<noteq> None" using kv(1) by (cases "cs_heap (gc_shared (pr_cache st)) p") (simp_all add: entry_key_def)
  with q(1) have "p \<noteq> q" by auto
  with kv kv' q(2) show ?thesis
    by (auto simp: entry_key_def entry_value_def split: Option.bind_splits elim!: same_entriesD [where q = p])
qed

theorem held_entry_is_stable_witness:
  "\<exists>v. entry_value demo_cache1 0 = Some v \<and> entry_value (the (gc_remove demo_deps demo_cache1 1)) 0 = Some v"
proof -
  let ?st = "\<lparr>pr_cache = demo_cache1, pr_held = {#0#}, pr_fetching = {#}\<rparr>"
  obtain g' where g': "gc_remove demo_deps demo_cache1 1 = Some g'"
    using cache_shard_core.gc_remove_ok [OF shard_core [OF demo_shard] demo_inv1(1), of 1] by auto
  show ?thesis
    using held_entry_is_stable [OF demo_shard demo_reachable1 demo_bounded1 step_remove [OF g', of "{#0#}" "{#}"], of 0] g'
    by auto
qed



section \<open>The operations of the cache\<close>

text \<open>C5. Insertion. It is defined when the usage of the shard plus the charge fits a \<^verbatim>\<open>usize\<close>. Afterwards
  the key has the value, no other key has a value it did not have (other entries may have been evicted), the
  new entry reads the key and the value, and every task that waited for the key is sent an entry for the new
  handle, in the order of their arrival; nobody waits for the key any more.\<close>

theorem insert_spec:
  assumes "cache_shard d a" and "cache_inv a (dep_hash d) g held"
    and "sh_usage (gc_shards g ! (dep_hash d k mod length (gc_shards g))) + charge < usize_lim"
    and "length (case waiting d g k of None \<Rightarrow> [] | Some ws \<Rightarrow> ws) + 1 < usize_lim"
  shows "\<exists>p sends g'. gc_insert_with_context d g k v charge ctx = Some ((p, sends), g') \<and>
    contents d g' k = Some v \<and> map_le (contents d g') ((contents d g)(k \<mapsto> v)) \<and>
    entry_key g' p = Some k \<and> entry_value g' p = Some v \<and>
    sends = map (\<lambda>w. (w, p)) (case waiting d g k of None \<Rightarrow> [] | Some ws \<Rightarrow> ws) \<and>
    waiting d g' = (waiting d g)(k := None) \<and>
    cache_inv a (dep_hash d) g' (add_mset p held + mset (map snd sends))"
proof -
  have w: "waiting d g k = sh_waiters (gc_shards g ! (dep_hash d k mod length (gc_shards g))) k"
    using assms(2) by (simp add: waiting_def shard_index_def cache_inv_def cache_ok_def)
  have zip: "sends = map (\<lambda>w. (w, p)) ws" if "map fst sends = ws" "map snd sends = replicate (length sends) p"
    for sends :: "(nat \<times> ptr) list" and ws p
  proof -
    have "sends = zip (map fst sends) (map snd sends)" by (simp add: zip_map_fst_snd)
    also have "\<dots> = zip ws (replicate (length ws) p)" using that(2) that(1) [symmetric] by (simp only: length_map)
    finally show ?thesis by (simp add: zip_replicate2)
  qed
  obtain p sends g' where 1: "gc_insert_with_context d g k v charge ctx = Some ((p, sends), g')"
    "cache_inv a (dep_hash d) g' (add_mset p held + mset (map snd sends))"
    "contents d g' k = Some v" "map_le (contents d g') ((contents d g)(k \<mapsto> v))"
    "entry_key g' p = Some k" "entry_value g' p = Some v"
    "map fst sends = (case waiting d g k of None \<Rightarrow> [] | Some l \<Rightarrow> l)" "map snd sends = replicate (length sends) p"
    "waiting d g' = (waiting d g)(k := None)"
    using cache_shard.gc_insert_ok [OF assms(1-3) assms(4) [unfolded w], of v ctx] unfolding w by (auto simp del: mset_map)
  with zip [OF 1(7,8)] show ?thesis by (intro exI [of _ p] exI [of _ sends] exI [of _ g'] conjI)
qed

theorem insert_spec_witness:
  "\<exists>p sends g'. gc_insert_with_context demo_deps demo_cache 1 10 2 Default = Some ((p, sends), g') \<and>
    contents demo_deps g' 1 = Some 10 \<and> entry_value g' p = Some 10"
  using insert_spec [OF demo_shard demo_inv, of 1 2 10 Default]
  by (auto simp: demo_shards usize_lim_def cache_shard.gc_new_ok(3) [OF demo_shard demo_new])

text \<open>C6. Lookup. It finds an entry exactly when the key has a value, the entry reads that key and value, and
  the lookup changes neither the contents nor the waiters and releases nothing.\<close>

theorem get_spec:
  assumes "cache_shard d a" and "cache_inv a (dep_hash d) g held" and "size held + 1 < usize_lim"
  shows "\<exists>r g'. gc_get d g k = Some (r, g') \<and> contents d g' = contents d g \<and> waiting d g' = waiting d g \<and>
    (case r of None \<Rightarrow> contents d g k = None
     | Some p \<Rightarrow> entry_key g' p = Some k \<and> entry_value g' p = contents d g k \<and> contents d g k \<noteq> None) \<and>
    accounted d g g' (cs_heap (gc_shared g')) \<and> cache_inv a (dep_hash d) g' (held + mset (opt_list r))"
proof -
  obtain r g' where 1: "gc_get d g k = Some (r, g')" "cache_inv a (dep_hash d) g' (held + mset (opt_list r))"
    "contents d g' = contents d g" "r = None \<longleftrightarrow> contents d g k = None"
    "\<forall>p. r = Some p \<longrightarrow> entry_key g' p = Some k \<and> entry_value g' p = contents d g k"
    "accounted d g g' (cs_heap (gc_shared g'))" "waiting d g' = waiting d g"
    using cache_shard_core.gc_get_ok [OF shard_core [OF assms(1)] assms(2,3), of k] by (elim exE conjE)
  then show ?thesis by (intro exI [of _ r] exI [of _ g']) (auto split: option.splits)
qed

theorem get_spec_witness:
  "\<exists>p g'. gc_get demo_deps demo_cache1 1 = Some (Some p, g') \<and> entry_value g' p = Some 10"
  using get_spec [OF demo_shard demo_inv1(1), of 1] demo_inv1(3)
  by (auto simp: usize_lim_def split: option.splits)

text \<open>C7. Removal takes the key out and leaves every other key as it was; the handle is freed unless
  somebody holds an entry for it, and then it stays readable.\<close>

theorem remove_spec:
  assumes "cache_shard d a" and "cache_inv a (dep_hash d) g held"
  shows "\<exists>g'. gc_remove d g k = Some g' \<and> contents d g' = (contents d g)(k := None) \<and> waiting d g' = waiting d g \<and>
    accounted d g g' (cs_heap (gc_shared g')) \<and> cache_inv a (dep_hash d) g' held"
  using cache_shard_core.gc_remove_ok [OF shard_core [OF assms(1)] assms(2), of k] by blast

theorem remove_spec_witness:
  "\<exists>g'. gc_remove demo_deps demo_cache1 1 = Some g' \<and> contents demo_deps g' 1 = None"
  using remove_spec [OF demo_shard demo_inv1(1), of 1] by auto

text \<open>C8. Clearing leaves no key in the cache, keeps the waiters and every entry that is held, and does not
  call the listener.\<close>

theorem clear_spec:
  assumes "cache_shard d a" and "cache_inv a (dep_hash d) g held"
  shows "\<exists>g'. gc_clear d g = Some g' \<and> contents d g' = Map.empty \<and> waiting d g' = waiting d g \<and>
    gc_released g' = gc_released g \<and> cache_inv a (dep_hash d) g' held"
  using cache_shard.gc_clear_ok [OF assms] by blast

theorem clear_spec_witness:
  "\<exists>g'. gc_clear demo_deps demo_cache1 = Some g' \<and> contents demo_deps g' = Map.empty"
  using clear_spec [OF demo_shard demo_inv1(1)] by auto





text \<open>C11. The end of a fetch. With a value, the cache has it and all waiters of the key are served with it;
  with an error, all of them are dropped and the cache is as before. Either way nobody waits for the key.\<close>

theorem fetch_done_spec:
  assumes "cache_shard d a" and "cache_inv a (dep_hash d) g held"
    and "length (case waiting d g k of None \<Rightarrow> [] | Some ws \<Rightarrow> ws) + 1 < usize_lim"
    and "\<And>v c ctx. fetched = Some (v, c, ctx) \<Longrightarrow>
      sh_usage (gc_shards g ! (dep_hash d k mod length (gc_shards g))) + c < usize_lim"
  shows "\<exists>r sends dropped g'. gc_fetch_done d g k fetched = Some ((r, sends, dropped), g') \<and>
    map fst sends @ dropped = (case waiting d g k of None \<Rightarrow> [] | Some ws \<Rightarrow> ws) \<and>
    waiting d g' = (waiting d g)(k := None) \<and>
    (case fetched of
       None \<Rightarrow> r = None \<and> sends = [] \<and> contents d g' = contents d g
     | Some (v, c, ctx) \<Rightarrow> dropped = [] \<and> contents d g' k = Some v \<and>
         (\<exists>p. r = Some p \<and> entry_value g' p = Some v \<and> set (map snd sends) \<subseteq> {p}))"
proof (cases fetched)
  case None
  from cache_shard_core.gc_fetch_err_ok [OF shard_core [OF assms(1)] assms(2), of k] obtain g' where
    "gc_fetch_err d g k = Some (case waiting d g k of None \<Rightarrow> [] | Some ws \<Rightarrow> ws, g')"
    "contents d g' = contents d g" "waiting d g' = (waiting d g)(k := None)" by blast
  with None show ?thesis by (simp add: gc_fetch_done_def)
next
  case (Some x)
  obtain v c ctx where x: "x = (v, c, ctx)" by (cases x)
  have w: "waiting d g k = sh_waiters (gc_shards g ! (dep_hash d k mod length (gc_shards g))) k"
    using assms(2) by (simp add: waiting_def shard_index_def cache_inv_def cache_ok_def)
  from cache_shard.gc_insert_ok [OF assms(1,2) assms(4) [OF Some [unfolded x]] assms(3) [unfolded w], of v ctx]
  obtain p sends g' where "gc_insert_with_context d g k v c ctx = Some ((p, sends), g')"
    "contents d g' k = Some v" "entry_value g' p = Some v"
    "map fst sends = (case waiting d g k of None \<Rightarrow> [] | Some l \<Rightarrow> l)" "map snd sends = replicate (length sends) p"
    "waiting d g' = (waiting d g)(k := None)" unfolding w by blast
  moreover have "set (map snd sends) \<subseteq> {p}" by (subst calculation(5)) (simp add: set_replicate_conv_if)
  ultimately show ?thesis using Some x
    by (intro exI [of _ "Some p"] exI [of _ sends] exI [of _ "[]"] exI [of _ g']) (simp add: gc_fetch_done_def del: set_map)
qed

theorem fetch_done_spec_witness:
  "\<exists>r sends dropped g'. gc_fetch_done demo_deps demo_cache 1 (Some (10, 2, Default)) = Some ((r, sends, dropped), g') \<and>
    contents demo_deps g' 1 = Some 10"
  using fetch_done_spec [OF demo_shard demo_inv, of 1 "Some (10, 2, Default)"]
  by (auto simp: demo_shards usize_lim_def cache_shard.gc_new_ok(3) [OF demo_shard demo_new])

text \<open>C12. No task waits in vain: in every reachable state, whoever waits for a key waits for a fetch of
  that key that is running.\<close>

theorem waiters_have_a_fetch:
  assumes "cache_shard d a" and "reachable d config st" and "waiting d (pr_cache st) k \<noteq> None"
  shows "k \<in># pr_fetching st"
  using cache_shard.reachable_inv [OF assms(1,2)] assms(3) by (auto simp: program_inv_def)

theorem waiters_have_a_fetch_witness:
  "\<exists>g'. gc_entry demo_deps demo_cache 1 = Some (Miss, g') \<and> waiting demo_deps g' 1 = Some [] \<and>
    1 \<in># pr_fetching \<lparr>pr_cache = g', pr_held = {#}, pr_fetching = {#1#}\<rparr>"
proof -
  obtain r g' where 1: "gc_entry demo_deps demo_cache 1 = Some (r, g')"
    "case r of
       Hit p \<Rightarrow> entry_key g' p = Some 1 \<and> entry_value g' p = contents demo_deps demo_cache 1 \<and> waiting demo_deps g' = waiting demo_deps demo_cache
     | Wait n \<Rightarrow> contents demo_deps demo_cache 1 = None \<and> n = gc_next_waiter demo_cache \<and>
         (\<exists>ws. waiting demo_deps demo_cache 1 = Some ws \<and> waiting demo_deps g' = (waiting demo_deps demo_cache)(1 \<mapsto> ws @ [n]))
     | Miss \<Rightarrow> contents demo_deps demo_cache 1 = None \<and> waiting demo_deps demo_cache 1 = None \<and>
         waiting demo_deps g' = (waiting demo_deps demo_cache)(1 \<mapsto> [])
     | Invalid \<Rightarrow> False" "cache_inv demo_spec (dep_hash demo_deps) g' ({#} + (case r of Hit p \<Rightarrow> {#p#} | _ \<Rightarrow> {#}))"
    using cache_shard_core.gc_entry_ok [OF shard_core [OF demo_shard] demo_inv, of 1] by (auto simp: usize_lim_def)
  have n: "contents demo_deps demo_cache = Map.empty" "waiting demo_deps demo_cache = Map.empty"
    by (rule cache_shard.gc_new_ok [OF demo_shard demo_new])+
  have r: "r = Miss"
  proof (cases r)
    case (Hit p)
    obtain v where "entry_value g' p = Some v"
      using held_readable [OF demo_shard 1(3), of p] Hit by auto
    with Hit 1(2) n show ?thesis by simp
  qed (use 1(2) n in auto)
  have b: "bounded demo_deps (client_init demo_cache)"
    by (simp add: bounded_def client_init_def usize_lim_def n)
  have "client_step demo_deps (client_init demo_cache) \<lparr>pr_cache = g', pr_held = {#}, pr_fetching = {#1#}\<rparr>"
    using step_entry [OF 1(1), of "{#}" "{#}"] r by (simp add: client_init_def)
  from waiters_have_a_fetch [OF demo_shard reach_step [OF demo_reachable b this], of 1] 1(1,2) r show ?thesis
    by auto
qed

text \<open>C13. Capacity. A shard uses more than its share of the capacity only while every one of its handles is
  held by a user; when no user holds an entry, the usage of the whole cache is within its capacity.\<close>

theorem usage_within_capacity:
  assumes shard: "cache_shard d a" and inv: "cache_inv a (dep_hash d) g held"
  shows "(\<forall>i < length (gc_shards g). sh_usage (gc_shards g ! i) \<le> gc_capacity g div length (gc_shards g) \<or>
      (\<forall>p h. cs_heap (gc_shared g) p = Some h \<longrightarrow> bh_hash (base h) mod length (gc_shards g) = i \<longrightarrow> p \<in># held)) \<and>
    (held = {#} \<longrightarrow> gc_capacity g < usize_lim \<longrightarrow> (\<exists>u. gc_usage g = Some u \<and> u \<le> gc_capacity g))"
proof -
  have ok: "cache_ok a (dep_hash d) g" and refs: "refs_ok (cs_heap (gc_shared g)) held"
    using inv by (simp_all add: cache_inv_def)
  have cap: "sh_usage (gc_shards g ! i) \<le> gc_capacity g div length (gc_shards g) \<or>
      (\<forall>p h. cs_heap (gc_shared g) p = Some h \<longrightarrow> bh_hash (base h) mod length (gc_shards g) = i \<longrightarrow> p \<in># held)"
    if i: "i < length (gc_shards g)" for i
    using shard_usage_capacity [OF shard ok refs i] by blast
  have "sh_usage s \<le> gc_capacity g div length (gc_shards g)" if "held = {#}" "s \<in> set (gc_shards g)" for s
    using that(2) shard_usage_unheld [OF shard ok refs [unfolded that(1)]] by (auto simp: in_set_conv_nth)
  moreover have "gc_shards g \<noteq> []" using ok by (simp add: cache_ok_def)
  ultimately show ?thesis using cap gc_usage_sum [of g] by blast
qed

theorem usage_within_capacity_witness:
  "\<exists>u. gc_usage demo_cache = Some u \<and> u \<le> 4"
  using usage_within_capacity [OF demo_shard demo_inv] cache_shard.gc_new_ok(4) [OF demo_shard demo_new]
  by (simp add: demo_config_def usize_lim_def)

section \<open>The components of a shard\<close>

text \<open>C14. The loop of \<^verbatim>\<open>evict\<close> ends: on every shard with the invariant it returns, and then the new charge
  fits the capacity or nothing evictable is left. It frees only handles that nobody holds and returns the
  entries of exactly those.\<close>

theorem evict_terminates:
  assumes "cache_shard d a" and "shard_inv a (dep_hash d) mine {} {} {} (cs_heap S) s" and "shared_inv a S"
    and "sh_usage s + charge < usize_lim"
  shows "\<exists>xs S' s'. shard_evict d charge [] S s = Some (xs, S', s') \<and>
    (sh_usage s' + charge \<le> sh_capacity s' \<or> sp_ev_ptrs a (sh_eviction s') = []) \<and>
    evolves mine (cs_heap S) (cs_heap S') \<and> freed (cs_heap S) (cs_heap S') xs \<and>
    shard_inv a (dep_hash d) mine {} {} {} (cs_heap S') s'"
  using cache_shard.shard_evict_ok [OF assms(1-3) _ assms(4), of "[]"] by (fastforce simp: shard_step_def)

theorem evict_terminates_witness:
  "\<exists>xs S' s'. shard_evict demo_deps 5 [] (gc_shared demo_cache) (gc_shards demo_cache ! Suc 0) = Some (xs, S', s')"
proof -
  have ok: "cache_ok demo_spec (dep_hash demo_deps) demo_cache" using demo_inv by (simp add: cache_inv_def)
  note G = cache_shard_core.cache_okD [OF shard_core [OF demo_shard] ok]
  have i: "Suc 0 < length (gc_shards demo_cache)" by (simp add: demo_shards)
  show ?thesis
    using evict_terminates [OF demo_shard G(4) [OF i] G(3), of 5] by (auto simp: usize_lim_def demo_shards)
qed

text \<open>C15. Fifo, Lru and Lfu implement the contract of the trait \<^verbatim>\<open>Eviction\<close>: the abstract view of a
  container is the sequence of its handles; \<^verbatim>\<open>push\<close> adds a handle and marks it, \<^verbatim>\<open>pop\<close> takes one out and
  gives nothing only when the container is empty, \<^verbatim>\<open>remove\<close> takes out the given one, \<^verbatim>\<open>clear\<close> all of
  them, \<^verbatim>\<open>access\<close> and \<^verbatim>\<open>reinsert\<close> lose none, and no operation touches what belongs to the cache.\<close>

theorem containers_implement_eviction:
  "eviction (fifo_ops :: ('k, 'v, FifoContext, unit, Fifo, FifoConfig) eviction_ops) fifo_ok fifo_queue (\<lambda>x. True) \<and>
   eviction (lru_ops rnd :: ('k, 'v, LruContext, lru_ext, Lru, LruConfig) eviction_ops) lru_ok lru_linked (\<lambda>x. True) \<and>
   eviction (lfu_ops rnd cms :: ('k, 'v, LfuContext, LfuQueue, 's Lfu, LfuConfig) eviction_ops) lfu_ok lfu_linked
     (\<lambda>x. x = QNone)"
  using fifo.eviction_axioms lru.eviction_axioms lfu.eviction_axioms by blast

text \<open>C16. The indexer on a hash table implements a map from keys to handles: a lookup finds the handle
  whose key it is given, an insertion replaces the handle of the same key and unmarks it, a removal unmarks
  what it takes out, draining unmarks all.\<close>

theorem indexer_refines_map:
  assumes "hash_table ht ht_ok elems"
  shows "indexer (hti_ops ht :: ('k, 'v, 'c, 'x, 't HashTableIndexer) indexer_ops) hashf (hti_ok ht_ok elems hashf) (hti_ptrs elems)"
  by (rule hash_table.hti_indexer [OF assms])

theorem indexer_refines_map_witness:
  "indexer (hti_ops al_table :: (nat, nat, LruContext, lru_ext, (nat \<times> ptr) list HashTableIndexer) indexer_ops) (\<lambda>k. k)
     (hti_ok al_table_ok set (\<lambda>k. k)) (hti_ptrs set)"
  by (rule indexer_refines_map [OF al.hash_table_axioms])

text \<open>C17. Lru evicts in the order of its lists: first the handles of the normal list, oldest first, then
  those of the high priority pool, oldest first.\<close>

theorem lru_pop_order:
  assumes "lru_ok H e" and "lru_list e @ high_priority_list e = p # ps"
  shows "\<exists>H' e'. lru_pop H e = Some (Some p, H', e') \<and> lru_list e' @ high_priority_list e' = ps \<and> lru_ok H' e'"
  using lru_pop_ok [OF assms(1)] assms(2) by (auto simp: lru_linked_def)

definition demo_handle :: "LruContext \<Rightarrow> bool \<Rightarrow> (nat, nat, LruContext, lru_ext) handle" where
  "demo_handle c b = \<lparr>base = \<lparr>bh_entry = Some (1, 10, c), bh_hash = 1, bh_charge = 2, bh_refs = 0, bh_flags = 3\<rparr>,
     hext = \<lparr>in_high_priority_pool = b\<rparr>\<rparr>"

theorem lru_pop_order_witness:
  "\<exists>H' e'. lru_pop [4 \<mapsto> demo_handle LowPriority False, 7 \<mapsto> demo_handle HighPriority True]
     \<lparr>high_priority_list = [7], lru_list = [4], high_priority_charges = 2, high_priority_charges_capacity = 5\<rparr> =
     Some (Some 4, H', e') \<and> lru_list e' @ high_priority_list e' = [7]"
proof -
  have "lru_ok [4 \<mapsto> demo_handle LowPriority False, 7 \<mapsto> demo_handle HighPriority True]
      \<lparr>high_priority_list = [7], lru_list = [4], high_priority_charges = 2, high_priority_charges_capacity = 5\<rparr>"
    by (simp add: lru_ok_def lru_linked_def demo_handle_def is_inited_def is_in_eviction_def IN_EVICTION_def)
  from lru_pop_order [OF this, of 4 "[7]"] show ?thesis by auto
qed

text \<open>C18. Lfu evicts the less frequently used of the two candidates: when window and probation both have
  handles, the front of the window goes when its estimated frequency is lower than that of the front of
  probation, and otherwise the front of probation.\<close>

theorem lfu_pop_lower_frequency:
  assumes ok: "lfu_ok H e" and w: "lfu_window e = w # ws" "H w = Some hw" and p: "lfu_probation e = p # ps" "H p = Some hp"
  shows "\<exists>H' e'. lfu_ok H' e' \<and> lfu_pop cms H e =
    Some (Some (if cms_estimate cms (frequencies e) (bh_hash (base hw)) < cms_estimate cms (frequencies e) (bh_hash (base hp))
                then w else p), H', e')"
proof -
  have "lfu_linked e \<noteq> []" using w by (simp add: lfu_linked_def)
  with lfu_pop_ok [OF ok] obtain q H' e' where q: "lfu_pop cms H e = Some (Some q, H', e')" "lfu_ok H' e'" by blast
  from q(1) have "q = (if cms_estimate cms (frequencies e) (bh_hash (base hw)) < cms_estimate cms (frequencies e) (bh_hash (base hp))
      then w else p)"
    using w p by (auto simp: lfu_pop_def lfu_pop_victim_def split: if_splits Option.bind_splits)
  with q show ?thesis by blast
qed

definition demo_lfu_handle :: "LfuQueue \<Rightarrow> nat \<Rightarrow> (nat, nat, LfuContext, LfuQueue) handle" where
  "demo_lfu_handle q hash = \<lparr>base = \<lparr>bh_entry = Some (1, 10, LfuContext), bh_hash = hash, bh_charge = 2, bh_refs = 0,
     bh_flags = 3\<rparr>, hext = q\<rparr>"

definition demo_cms :: "unit cms_ops" where
  "demo_cms = \<lparr>cms_new = (\<lambda>_ _. ()), cms_width = (\<lambda>_. 8), cms_inc = (\<lambda>_ _. ()), cms_estimate = (\<lambda>_ h. of_nat h),
     cms_halve = (\<lambda>_. ())\<rparr>"

definition demo_lfu :: "unit Lfu" where
  "demo_lfu = \<lparr>lfu_window = [4], lfu_probation = [7], lfu_protected = [], window_charges = 2, probation_charges = 2,
     protected_charges = 0, window_charges_capacity = 5, protected_charges_capacity = 5, frequencies = (), lfu_step = 0,
     lfu_decay = 8\<rparr>"

theorem lfu_pop_lower_frequency_witness:
  "\<exists>H' e'. lfu_pop demo_cms [4 \<mapsto> demo_lfu_handle Window 1, 7 \<mapsto> demo_lfu_handle Probation 2] demo_lfu = Some (Some 4, H', e')"
proof -
  have "lfu_ok [4 \<mapsto> demo_lfu_handle Window 1, 7 \<mapsto> demo_lfu_handle Probation 2] demo_lfu"
    by (simp add: lfu_ok_def lfu_inv_def lfu_linked_def demo_lfu_handle_def demo_lfu_def is_inited_def is_in_eviction_def
        IN_EVICTION_def usize_lim_def)
  from lfu_pop_lower_frequency [OF this, of 4 "[]" "demo_lfu_handle Window 1" 7 "[]" "demo_lfu_handle Probation 2" demo_cms] show ?thesis
    by (auto simp: demo_lfu_def demo_lfu_handle_def demo_cms_def)
qed

text \<open>C19. What \<^verbatim>\<open>pop\<close> of S3Fifo does. It evicts a handle when the small queue exceeds its capacity or the
  main queue is not empty. Otherwise it finds nothing: with an empty small queue it returns nothing, and with
  handles in the small queue its assertion that the container is empty fails, so the cache panics although it
  has something to evict.\<close>

theorem s3fifo_pop_spec:
  assumes "s3_ok H e" and "charges_of H (s3_linked e) < usize_lim"
  shows "if small_charges e > small_capacity e \<or> main_queue e \<noteq> [] then
      (\<exists>p H' e'. s3fifo_pop H e = Some (Some p, H', e') \<and> s3_ok H' e' \<and> p \<in> set (s3_linked e) \<and>
         set (s3_linked e') = set (s3_linked e) - {p})
    else s3fifo_pop H e = (if small_queue e = [] then Some (None, H, e) else None)"
proof (cases "small_charges e > small_capacity e \<or> main_queue e \<noteq> []")
  case True
  with s3fifo_pop_ok [OF assms True] show ?thesis by auto
next
  case False
  then show ?thesis by (simp add: s3fifo_pop_def s3_evict_def s3_evict_main_empty s3fifo_is_empty_def)
qed

definition demo_s3_handle :: "(nat, nat, S3FifoContext, s3fifo_ext) handle" where
  "demo_s3_handle = \<lparr>base = \<lparr>bh_entry = Some (1, 10, S3FifoContext), bh_hash = 1, bh_charge = 2, bh_refs = 0, bh_flags = 3\<rparr>,
     hext = \<lparr>s3_freq = 0, s3_queue = S3Small\<rparr>\<rparr>"

theorem s3fifo_pop_spec_witness:
  "s3fifo_pop [4 \<mapsto> demo_s3_handle]
     \<lparr>small_queue = [4], main_queue = [], small_capacity = 5, small_charges = 2, main_charges = 0\<rparr> = None"
proof -
  have "s3_ok [4 \<mapsto> demo_s3_handle]
      \<lparr>small_queue = [4], main_queue = [], small_capacity = 5, small_charges = 2, main_charges = 0\<rparr>"
    by (simp add: s3_ok_def s3_linked_def demo_s3_handle_def is_inited_def is_in_eviction_def IN_EVICTION_def)
  from s3fifo_pop_spec [OF this] show ?thesis
    by (simp add: s3_linked_def usize_lim_def demo_s3_handle_def)
qed

text \<open>C20. \<^verbatim>\<open>clear\<close> of S3Fifo returns every handle and empties both queues, and keeps the charges of the
  queues: a container that was not empty then counts charges that nothing in it has.\<close>

theorem s3fifo_clear_spec:
  assumes "s3_ok H e"
  shows "\<exists>H' e'. s3fifo_clear H e = Some (s3_linked e, H', e') \<and> s3_linked e' = [] \<and>
    small_charges e' = charges_of H (small_queue e) \<and> main_charges e' = charges_of H (main_queue e)"
  using s3fifo_clear_keeps_charges [OF assms] s3_okD(4,5) [OF assms] by auto

theorem s3fifo_clear_spec_witness:
  "\<exists>H' e'. s3fifo_clear [4 \<mapsto> demo_s3_handle]
     \<lparr>small_queue = [4], main_queue = [], small_capacity = 5, small_charges = 2, main_charges = 0\<rparr> = Some ([4], H', e') \<and>
     s3_linked e' = [] \<and> small_charges e' = 2"
proof -
  have "s3_ok [4 \<mapsto> demo_s3_handle]
      \<lparr>small_queue = [4], main_queue = [], small_capacity = 5, small_charges = 2, main_charges = 0\<rparr>"
    by (simp add: s3_ok_def s3_linked_def demo_s3_handle_def is_inited_def is_in_eviction_def IN_EVICTION_def)
  from s3fifo_clear_spec [OF this] show ?thesis
    by (auto simp: s3_linked_def demo_s3_handle_def)
qed

text \<open>A handle goes through its life and back: initialising a handle that is not initialised and taking
  its entry gives the entry back, the handle in between has no references and is in neither structure, and
  the handle afterwards can be initialised again.\<close>

theorem handle_round_trip:
  assumes "\<not> is_inited b"
  shows "\<exists>b' b''. bh_init b hash k v charge ctx = Some b' \<and> bh_take b' = Some ((k, v, ctx, charge), b'') \<and>
    is_inited b' \<and> \<not> has_refs b' \<and> \<not> is_in_indexer b' \<and> \<not> is_in_eviction b' \<and> \<not> is_inited b'' \<and>
    bh_init b'' hash2 k2 v2 charge2 ctx2 \<noteq> None"
  using assms by (simp add: bh_init_def bh_take_def is_inited_def has_refs_def is_in_indexer_def is_in_eviction_def)

theorem handle_round_trip_witness:
  "\<exists>b' b''. bh_init (bh_new :: (nat, nat, LruContext) BaseHandle) 1 1 10 2 HighPriority = Some b' \<and>
     bh_take b' = Some ((1, 10, HighPriority, 2), b'')"
  using handle_round_trip [of "bh_new :: (nat, nat, LruContext) BaseHandle" 1 1 10 2 HighPriority 1 1 10 2 HighPriority]
  by (auto simp: bh_new_def is_inited_def)

text \<open>\<^verbatim>\<open>Entry::state\<close> panics on every entry of an S3Fifo cache, and on no hit, queued or missing entry
  of the other three.\<close>

theorem entry_state_spec:
  "(case cache_entry env (CS3Fifo g) key of None \<Rightarrow> True | Some (entry, c) \<Rightarrow> entry_state entry = None) \<and>
   entry_state (EntryFifo (Hit p)) = Some StateHit \<and> entry_state (EntryLru (Wait w)) = Some StateWait \<and>
   entry_state (EntryLfu Miss) = Some StateMiss"
  by (cases "gc_entry (env_s3fifo env) g key") auto

end
